(* ===== verification/Prelude.thy ===== *)
theory Prelude
  imports Main "HOL-Library.Word"
begin

unbundle bit_operations_syntax

text \<open>
  Shared vocabulary of the development: the machine integers of the crate, the outcome of a call
  (\<open>exec\<close>), the atomic read-modify-write operations of \<^verbatim>\<open>core::sync::atomic\<close>, packing of two
  half words into one atomic, and the generic lemmas on lists and words the components use.

  Atomics. An atomic cell is a plain field of the state and each access is a function on that state;
  all accesses are sequentially consistent. A weak compare-exchange may fail although the cell holds
  the expected value: every loop around one takes a script of booleans, one per attempt, in which
  \<open>True\<close> makes that attempt fail spuriously (an exhausted script means no further spurious failure).
\<close>

section \<open>Machine integers\<close>

type_synonym u8 = "8 word"
type_synonym u16 = "16 word"
type_synonym u32 = "32 word"
type_synonym u64 = "64 word"
type_synonym usize = "64 word"

section \<open>Outcomes of a call\<close>

text \<open>
  \<open>Panic\<close> is an explicit \<^verbatim>\<open>panic!\<close>, a failed \<^verbatim>\<open>assert!\<close> or \<^verbatim>\<open>unreachable!\<close>;
  \<open>Overflow\<close> an arithmetic overflow of a plain \<open>+\<close> or \<open>-\<close> (a panic in debug builds);
  \<open>Uninit\<close> a read of a \<^verbatim>\<open>MaybeUninit\<close> that holds no value, \<open>OutOfBounds\<close> an unchecked
  access outside the buffer and \<open>UseAfterFree\<close> an access to a freed allocation: the last three are
  undefined behaviour of the program. \<open>Spin\<close> says the call was still spinning when the given number
  of iterations was used up.
\<close>

datatype fault = Panic | Overflow | Uninit | OutOfBounds | UseAfterFree

datatype 'a exec = Done 'a | Spin | Fault fault

fun exec_bind :: "'a exec \<Rightarrow> ('a \<Rightarrow> 'b exec) \<Rightarrow> 'b exec" where
  "exec_bind (Done x) f = f x"
| "exec_bind Spin f = Spin"
| "exec_bind (Fault e) f = Fault e"

definition exec_map :: "('a \<Rightarrow> 'b) \<Rightarrow> 'a exec \<Rightarrow> 'b exec" where
  "exec_map f m = exec_bind m (\<lambda>x. Done (f x))"

lemma exec_bind_Done_iff [simp]:
  "exec_bind m f = Done y \<longleftrightarrow> (\<exists>x. m = Done x \<and> f x = Done y)"
  by (cases m) auto

lemma exec_map_simps [simp]:
  "exec_map f (Done x) = Done (f x)" "exec_map f Spin = Spin" "exec_map f (Fault e) = Fault e"
  by (simp_all add: exec_map_def)

lemma exec_map_Done_iff: "exec_map f m = Done y \<longleftrightarrow> (\<exists>x. m = Done x \<and> f x = y)"
  by (cases m) auto

text \<open>Sequencing commutes with a change of the result.\<close>

lemma exec_bind_assoc: "exec_bind (exec_bind m f) g = exec_bind m (\<lambda>x. exec_bind (f x) g)"
  by (cases m) simp_all

lemma exec_map_bind: "exec_map f (exec_bind m g) = exec_bind m (\<lambda>x. exec_map f (g x))"
  by (cases m) auto

lemma exec_bind_map: "exec_bind (exec_map f m) g = exec_bind m (\<lambda>x. g (f x))"
  by (cases m) auto

lemma exec_map_map: "exec_map f (exec_map g m) = exec_map (\<lambda>x. f (g x)) m"
  by (cases m) auto

lemmas exec_push = exec_map_bind exec_bind_map exec_map_map

lemma exec_bind_eqI: "(\<And>x. m = Done x \<Longrightarrow> f x = g x) \<Longrightarrow> exec_bind m f = exec_bind m g"
  by (cases m) auto

lemma exec_map_eqI: "(\<And>x. m = Done x \<Longrightarrow> f x = g x) \<Longrightarrow> exec_map f m = exec_map g m"
  by (cases m) auto

text \<open>
  A computation is safe for a postcondition when it does not fault and, if it has returned, satisfies it.
\<close>

fun safe :: "'a exec \<Rightarrow> ('a \<Rightarrow> bool) \<Rightarrow> bool" where
  "safe (Done x) Q = Q x"
| "safe Spin Q = True"
| "safe (Fault e) Q = False"

lemma safe_bind [intro]: "safe m P \<Longrightarrow> (\<And>x. P x \<Longrightarrow> safe (f x) Q) \<Longrightarrow> safe (exec_bind m f) Q"
  by (cases m) auto

lemma safe_map: "safe (exec_map f m) Q = safe m (\<lambda>x. Q (f x))"
  by (cases m) auto

lemma safe_mono: "safe m P \<Longrightarrow> (\<And>x. P x \<Longrightarrow> Q x) \<Longrightarrow> safe m Q"
  by (cases m) auto

lemma safe_DoneD: "safe m Q \<Longrightarrow> m = Done x \<Longrightarrow> Q x"
  by simp

text \<open>And total when it also returns.\<close>

definition total :: "'a exec \<Rightarrow> ('a \<Rightarrow> bool) \<Rightarrow> bool" where
  "total m Q \<longleftrightarrow> (\<exists>x. m = Done x \<and> Q x)"

lemma total_Done [simp]: "total (Done x) Q = Q x"
  by (simp add: total_def)

lemma total_bind: "total m P \<Longrightarrow> (\<And>x. m = Done x \<Longrightarrow> P x \<Longrightarrow> total (f x) Q) \<Longrightarrow> total (exec_bind m f) Q"
  by (auto simp: total_def)

lemma total_map: "total (exec_map f m) Q = total m (\<lambda>x. Q (f x))"
  by (cases m) (auto simp: total_def)

lemma total_mono: "total m P \<Longrightarrow> (\<And>x. P x \<Longrightarrow> Q x) \<Longrightarrow> total m Q"
  by (auto simp: total_def)

lemma total_safe: "total m Q \<longleftrightarrow> safe m Q \<and> m \<noteq> Spin"
  by (cases m) (auto simp: total_def)

text \<open>The same for a computation that may fault.\<close>

definition whenever :: "'a exec \<Rightarrow> ('a \<Rightarrow> bool) \<Rightarrow> bool" where
  "whenever m Q \<longleftrightarrow> (\<forall>x. m = Done x \<longrightarrow> Q x)"

lemma whenever_simps [simp]: "whenever (Done x) Q = Q x" "whenever Spin Q" "whenever (Fault e) Q"
  by (simp_all add: whenever_def)

lemma whenever_bind: "(\<And>x. m = Done x \<Longrightarrow> whenever (f x) Q) \<Longrightarrow> whenever (exec_bind m f) Q"
  by (cases m) auto

lemma whenever_map: "(\<And>x. m = Done x \<Longrightarrow> Q (f x)) \<Longrightarrow> whenever (exec_map f m) Q"
  by (cases m) auto

lemma wheneverD: "whenever m Q \<Longrightarrow> m = Done x \<Longrightarrow> Q x"
  by simp

lemma safe_no_fault: "safe m Q \<Longrightarrow> m \<noteq> Fault e"
  by (cases m) auto

section \<open>Arithmetic of the source\<close>

text \<open>A plain \<open>+\<close> or \<open>-\<close> of the source, with its overflow check.\<close>

definition checked_add :: "'l::len word \<Rightarrow> 'l word \<Rightarrow> 'l word exec" where
  "checked_add a b = (if unat a + unat b < 2 ^ LENGTH('l) then Done (a + b) else Fault Overflow)"

definition checked_sub :: "'l::len word \<Rightarrow> 'l word \<Rightarrow> 'l word exec" where
  "checked_sub a b = (if unat b \<le> unat a then Done (a - b) else Fault Overflow)"

text \<open>The overflow test as the hardware does it, on the wrapped sum.\<close>

lemma checked_add_code [code]: "checked_add a b = (if a \<le> a + b then Done (a + b) else Fault Overflow)"
proof -
  have "unat a + unat b < 2 ^ LENGTH('a) \<longleftrightarrow> a \<le> a + b"
    by (metis no_olen_add_nat)
  then show ?thesis by (simp add: checked_add_def)
qed

lemma checked_sub_code [code]: "checked_sub a b = (if b \<le> a then Done (a - b) else Fault Overflow)"
  by (simp add: checked_sub_def word_le_nat_alt)

text \<open>\<^verbatim>\<open>usize::next_power_of_two\<close>: the least power of two that is at least the argument.\<close>

function next_power_of_two :: "nat \<Rightarrow> nat" where
  "next_power_of_two n = (if n \<le> 1 then 1 else 2 * next_power_of_two ((n + 1) div 2))"
  by pat_completeness auto
termination
  by (relation "measure id") auto

declare next_power_of_two.simps [simp del]

lemma next_power_of_two_rec [simp]:
  "n \<le> 1 \<Longrightarrow> next_power_of_two n = 1"
  "1 < n \<Longrightarrow> next_power_of_two n = 2 * next_power_of_two ((n + 1) div 2)"
  by (subst next_power_of_two.simps; simp)+

lemma next_power_of_two_ge: "n \<le> next_power_of_two n"
proof (induction n rule: next_power_of_two.induct)
  case (1 n)
  then show ?case by (subst next_power_of_two.simps) auto
qed

lemma next_power_of_two_pow: "\<exists>k. next_power_of_two n = 2 ^ k"
proof (induction n rule: next_power_of_two.induct)
  case (1 n)
  show ?case
  proof (cases "n \<le> 1")
    case True
    then have "next_power_of_two n = 2 ^ 0" by (subst next_power_of_two.simps) simp
    then show ?thesis by blast
  next
    case False
    with "1" obtain k where "next_power_of_two ((n + 1) div 2) = 2 ^ k" by auto
    with False have "next_power_of_two n = 2 ^ Suc k" by (subst next_power_of_two.simps) simp
    then show ?thesis by blast
  qed
qed

lemma next_power_of_two_less: "0 < n \<Longrightarrow> next_power_of_two n < 2 * n"
proof (induction n rule: next_power_of_two.induct)
  case (1 n)
  show ?case
  proof (cases "n \<le> 1")
    case True
    with "1.prems" show ?thesis by (subst next_power_of_two.simps) auto
  next
    case False
    let ?m = "(n + 1) div 2"
    from False "1.IH" have m: "next_power_of_two ?m < 2 * ?m" by simp
    obtain k where k: "next_power_of_two ?m = 2 ^ k" using next_power_of_two_pow by blast
    have "next_power_of_two ?m \<noteq> n"
    proof
      assume "next_power_of_two ?m = n"
      with k m False show False by (cases k) auto
    qed
    with m have "next_power_of_two ?m < n" by linarith
    with False show ?thesis by (subst next_power_of_two.simps) simp
  qed
qed

lemma replicate_numeral [simp]: "replicate (numeral n) x = x # replicate (pred_numeral n) x"
  by (simp add: numeral_eq_Suc)

section \<open>Atomic operations\<close>

text \<open>
  \<open>cas cur new v\<close> is \<^verbatim>\<open>compare_exchange\<close> on a cell holding \<open>v\<close>: the new cell value and
  \<open>Inr\<close> the old value on success, \<open>Inl\<close> the observed value on failure. \<open>cas_weak sp\<close> is
  \<^verbatim>\<open>compare_exchange_weak\<close>, which fails when \<open>sp\<close> says so.
\<close>

definition cas :: "'v \<Rightarrow> 'v \<Rightarrow> 'v \<Rightarrow> 'v \<times> ('v + 'v)" where
  "cas cur new v = (if v = cur then (new, Inr v) else (v, Inl v))"

definition cas_weak :: "bool \<Rightarrow> 'v \<Rightarrow> 'v \<Rightarrow> 'v \<Rightarrow> 'v \<times> ('v + 'v)" where
  "cas_weak sp cur new v = (if v = cur \<and> \<not> sp then (new, Inr v) else (v, Inl v))"

fun next_spurious :: "bool list \<Rightarrow> bool \<times> bool list" where
  "next_spurious [] = (False, [])"
| "next_spurious (b # bs) = (b, bs)"

section \<open>Packing two halves into one atomic\<close>

text \<open>
  \<^verbatim>\<open>((hi as u64) << 32) | (lo as u64)\<close> and its inverse \<^verbatim>\<open>(v >> 32) as u32\<close>,
  \<^verbatim>\<open>v as u32\<close>; the one-slot queues use the same at 32 and 16 bits.
\<close>

definition pack64 :: "u32 \<Rightarrow> u32 \<Rightarrow> u64" where
  "pack64 hi lo = push_bit 32 (ucast hi) OR ucast lo"

definition hi64 :: "u64 \<Rightarrow> u32" where
  "hi64 v = ucast (drop_bit 32 v)"

definition lo64 :: "u64 \<Rightarrow> u32" where
  "lo64 v = ucast v"

definition pack32 :: "u16 \<Rightarrow> u16 \<Rightarrow> u32" where
  "pack32 hi lo = push_bit 16 (ucast hi) OR ucast lo"

definition hi32 :: "u32 \<Rightarrow> u16" where
  "hi32 v = ucast (drop_bit 16 v)"

definition lo32 :: "u32 \<Rightarrow> u16" where
  "lo32 v = ucast v"

lemma hi64_pack [simp]: "hi64 (pack64 a b) = a"
  by (rule bit_word_eqI)
    (auto simp: hi64_def pack64_def bit_simps dest: bit_imp_le_length)

lemma lo64_pack [simp]: "lo64 (pack64 a b) = b"
  by (rule bit_word_eqI) (auto simp: lo64_def pack64_def bit_simps)

lemma pack64_unpack [simp]: "pack64 (hi64 v) (lo64 v) = v"
  by (rule bit_word_eqI) (auto simp: hi64_def lo64_def pack64_def bit_simps dest: bit_imp_le_length)

lemma hi32_pack [simp]: "hi32 (pack32 a b) = a"
  by (rule bit_word_eqI)
    (auto simp: hi32_def pack32_def bit_simps dest: bit_imp_le_length)

lemma lo32_pack [simp]: "lo32 (pack32 a b) = b"
  by (rule bit_word_eqI) (auto simp: lo32_def pack32_def bit_simps)

lemma pack32_unpack [simp]: "pack32 (hi32 v) (lo32 v) = v"
  by (rule bit_word_eqI) (auto simp: hi32_def lo32_def pack32_def bit_simps dest: bit_imp_le_length)

lemma pack64_inj [simp]: "pack64 a b = pack64 c d \<longleftrightarrow> a = c \<and> b = d"
  by (metis hi64_pack lo64_pack)

lemma pack32_inj [simp]: "pack32 a b = pack32 c d \<longleftrightarrow> a = c \<and> b = d"
  by (metis hi32_pack lo32_pack)

lemma ucast_16_64_16 [simp]: "ucast (ucast (w :: u16) :: usize) = w"
  by (rule bit_word_eqI) (simp add: bit_simps)

lemma ucast_32_64_32 [simp]: "ucast (ucast (w :: u32) :: usize) = w"
  by (rule bit_word_eqI) (simp add: bit_simps)

section \<open>Polling\<close>

text \<open>\<^verbatim>\<open>std::task::Poll\<close>.\<close>

datatype 'r std_poll = PReady 'r | PPending

section \<open>Tokens\<close>

text \<open>
  A \<^verbatim>\<open>Token\<close> of the select interface carries the address of a claimed slot and a stamp. Slots are
  addressed by their index; \<open>None\<close> is the null address of \<^verbatim>\<open>Token::default\<close>.
\<close>

record token =
  tok_pos :: "nat option"
  tok_stamp :: usize

definition token_new :: "nat \<Rightarrow> usize \<Rightarrow> token" where
  "token_new pos stamp = \<lparr>tok_pos = Some pos, tok_stamp = stamp\<rparr>"

definition token_default :: token where
  "token_default = \<lparr>tok_pos = None, tok_stamp = 0\<rparr>"

end
