(* ===== verification/Ring_Index.thy ===== *)
theory Ring_Index
  imports Prelude
begin

unbundle bit_operations_syntax

text \<open>
  Stamps of the array queues. A stamp packs a lap and an index into one word: the low bits are the
  index into a buffer of \<open>C\<close> slots, the high bits the lap, and one lap is the power of two
  \<open>2 ^ k > C\<close>. The queues of \<^verbatim>\<open>src/src/crossbeam/\<close> all advance and compare such stamps, at 64 bits
  (\<^verbatim>\<open>array_queue.rs\<close>) and at 32 bits (the spsc and mpsc variants), so the arithmetic is done here once
  for any width: position \<open>p\<close> of the unbounded sequence of pushes has stamp \<open>stamp_of C k p\<close>, which
  wraps around at the width of the word.
\<close>

section \<open>Definitions\<close>

text \<open>The index part of a stamp, \<^verbatim>\<open>tail & (self.one_lap - 1)\<close>.\<close>

definition stamp_index :: "'l::len word \<Rightarrow> 'l word \<Rightarrow> nat" where
  "stamp_index one_lap w = unat (w AND (one_lap - 1))"

text \<open>
  The stamp after \<open>w\<close>: the next index in the same lap, or index zero of the next lap. The addition
  \<^verbatim>\<open>tail + 1\<close> is checked, the addition of a lap wraps.
\<close>

definition next_stamp :: "nat \<Rightarrow> 'l::len word \<Rightarrow> 'l word \<Rightarrow> 'l word exec" where
  "next_stamp cap one_lap w =
     (if stamp_index one_lap w + 1 < cap then checked_add w 1
      else Done ((w AND NOT (one_lap - 1)) + one_lap))"

text \<open>The number of elements between two stamps, as \<^verbatim>\<open>len()\<close> computes it.\<close>

definition stamp_len :: "nat \<Rightarrow> 'l::len word \<Rightarrow> 'l word \<Rightarrow> 'l word \<Rightarrow> nat" where
  "stamp_len cap one_lap head tail =
     (let hix = stamp_index one_lap head; tix = stamp_index one_lap tail
      in if hix < tix then tix - hix
         else if tix < hix then cap - hix + tix
         else if tail = head then 0 else cap)"

text \<open>The abstract position and the condition on capacity and lap size that \<^verbatim>\<open>new\<close> establishes.\<close>

definition stamp_of :: "nat \<Rightarrow> nat \<Rightarrow> nat \<Rightarrow> 'l::len word" where
  "stamp_of C k p = of_nat (p div C * 2 ^ k + p mod C)"

definition ring_ok :: "'l::len itself \<Rightarrow> nat \<Rightarrow> nat \<Rightarrow> bool" where
  "ring_ok _ C k \<longleftrightarrow> 0 < C \<and> C < 2 ^ k \<and> k < LENGTH('l)"

section \<open>Stamp arithmetic\<close>

lemma ring_okD:
  assumes "ring_ok TYPE('l::len) C k"
  shows "0 < C" "C < 2 ^ k" "k < LENGTH('l)" "0 < k"
  using assms by (auto simp: ring_ok_def intro: Suc_leI gr0I)

lemma lap_minus_one: "(2 ^ k :: 'l::len word) - 1 = mask k"
  by (simp add: mask_eq_exp_minus_1)

lemma stamp_index_stamp_of [simp]:
  assumes "ring_ok TYPE('l::len) C k"
  shows "stamp_index (2 ^ k) (stamp_of C k p :: 'l word) = p mod C"
proof -
  note ok = ring_okD [OF assms]
  have lt: "p mod C < 2 ^ k" using ok by (meson mod_less_divisor less_trans)
  have "(stamp_of C k p :: 'l word) AND mask k = of_nat (take_bit k (p div C * 2 ^ k + p mod C))"
    using ok by (simp add: stamp_of_def flip: take_bit_eq_mask take_bit_of_nat)
  also have "take_bit k (p div C * 2 ^ k + p mod C) = p mod C"
    using lt by (simp add: take_bit_eq_mod)
  finally show ?thesis
    using lt ok by (simp add: stamp_index_def lap_minus_one unat_of_nat take_bit_eq_mod
        less_le_trans [OF lt])
qed

lemma and_not_word: "(w :: 'l::len word) AND NOT m = w - (w AND m)"
proof -
  have "w - (w AND m) = w AND NOT (w AND m)"
    by (rule disjunctive_diff_eq_and_not) (simp add: bit_eq_iff bit_simps)
  then show ?thesis by (auto simp: bit_eq_iff bit_simps)
qed

lemma stamp_and_lap:
  assumes "ring_ok TYPE('l::len) C k"
  shows "(stamp_of C k p :: 'l word) AND mask k = of_nat (p mod C)"
proof -
  have "unat ((stamp_of C k p :: 'l word) AND mask k) = p mod C"
    using stamp_index_stamp_of [OF assms, of p] by (simp add: stamp_index_def lap_minus_one)
  then show ?thesis by (metis of_nat_unat ucast_id)
qed

lemma stamp_of_no_overflow:
  assumes "ring_ok TYPE('l::len) C k"
  shows "unat (stamp_of C k p :: 'l word) + 1 < 2 ^ LENGTH('l)"
proof (rule ccontr)
  note ok = ring_okD [OF assms]
  let ?w = "stamp_of C k p :: 'l word"
  assume "\<not> ?thesis"
  moreover have "unat ?w < 2 ^ LENGTH('l)" by (rule unsigned_less)
  ultimately have "unat ?w + 1 = 2 ^ LENGTH('l)" by linarith
  then have "of_nat (unat ?w + 1) = (of_nat (2 ^ LENGTH('l)) :: 'l word)" by (rule arg_cong)
  then have "?w + 1 = 0" by (simp add: add.commute)
  then have "?w = - 1" by (simp add: add_eq_0_iff2)
  then have "?w AND mask k = mask k" by simp
  moreover have "unat (mask k :: 'l word) = mask k"
  proof -
    have "unat (of_nat (mask k) :: 'l word) = mask k"
      using ok by (simp add: unsigned_of_nat take_bit_of_mask)
    then show ?thesis by (simp add: of_nat_mask_eq)
  qed
  ultimately have "p mod C = mask k"
    using stamp_index_stamp_of [OF assms, of p] ok
    by (simp add: stamp_index_def lap_minus_one)
  moreover have "p mod C < C" using ok by simp
  ultimately show False using ok by (simp add: mask_eq_exp_minus_1)
qed

lemma checked_add_stamp_of [simp]:
  assumes "ring_ok TYPE('l::len) C k"
  shows "checked_add (stamp_of C k p :: 'l word) 1 = Done (stamp_of C k p + 1)"
  using stamp_of_no_overflow [OF assms, of p] by (simp add: checked_add_def)

lemma stamp_of_wrap: "0 < C \<Longrightarrow> stamp_of C k (p + C) = (stamp_of C k p + 2 ^ k :: 'l::len word)"
  by (simp add: stamp_of_def div_add_self2 distrib_right)

text \<open>Advancing a stamp is advancing the position.\<close>

lemma next_stamp_stamp_of [simp]:
  assumes "ring_ok TYPE('l::len) C k"
  shows "next_stamp C (2 ^ k) (stamp_of C k p :: 'l word) = Done (stamp_of C k (Suc p))"
proof (cases "p mod C + 1 < C")
  case True
  then have "Suc p div C = p div C" "Suc p mod C = p mod C + 1"
    by (simp_all add: div_Suc mod_Suc)
  then have "(stamp_of C k p :: 'l word) + 1 = stamp_of C k (Suc p)" by (simp add: stamp_of_def)
  with True assms show ?thesis by (simp add: next_stamp_def)
next
  case False
  note ok = ring_okD [OF assms]
  from False ok have m: "p mod C = C - 1" using mod_less_divisor [of C p] by linarith
  with ok have s: "Suc p div C = p div C + 1" "Suc p mod C = 0"
    by (simp_all add: div_Suc mod_Suc)
  have "(stamp_of C k p :: 'l word) AND NOT (mask k) = stamp_of C k p - of_nat (p mod C)"
    by (simp add: and_not_word stamp_and_lap [OF assms])
  also have "\<dots> = of_nat (p div C * 2 ^ k)" by (simp add: stamp_of_def)
  finally have "(stamp_of C k p :: 'l word) AND NOT (mask k) = of_nat (p div C * 2 ^ k)" .
  moreover have "of_nat (p div C * 2 ^ k) + 2 ^ k = (stamp_of C k (Suc p) :: 'l word)"
    by (simp add: stamp_of_def s distrib_right)
  ultimately show ?thesis using False assms
    by (simp add: next_stamp_def lap_minus_one)
qed

text \<open>Stamps of positions at most one lap apart are distinct, in spite of the wrap-around.\<close>

lemma stamp_of_inj:
  assumes ok: "ring_ok TYPE('l::len) C k" and le: "p \<le> q" "q \<le> p + C"
    and eq: "(stamp_of C k p :: 'l word) = stamp_of C k q"
  shows "p = q"
proof -
  note r = ring_okD [OF ok]
  have m: "p mod C = q mod C"
    using stamp_index_stamp_of [OF ok, of p] stamp_index_stamp_of [OF ok, of q] eq by simp
  show ?thesis
  proof (cases "q = p + C")
    case True
    then have "(2 ^ k :: 'l word) = 0" using eq r by (simp add: stamp_of_wrap)
    with r show ?thesis by simp
  next
    case False
    with le have "q - p < C" by simp
    moreover from m le have "(q - p) mod C = 0" by (metis mod_eq_dvd_iff_nat mod_0_imp_dvd dvd_imp_mod_0)
    ultimately show ?thesis using le by simp
  qed
qed

lemma stamp_of_wrap_neq:
  assumes "ring_ok TYPE('l::len) C k"
  shows "(stamp_of C k p :: 'l word) + 2 ^ k \<noteq> stamp_of C k p + 1"
proof -
  note ok = ring_okD [OF assms]
  have "\<not> bit (2 ^ k :: 'l word) 0" and "bit (1 :: 'l word) 0"
    using ok by (simp_all add: bit_exp_iff)
  then have "(2 ^ k :: 'l word) \<noteq> 1" by metis
  then show ?thesis by simp
qed

text \<open>Equality of stamps of two positions inside one window of the buffer is equality of positions.\<close>

lemma stamp_of_eq_iff:
  assumes "ring_ok TYPE('l::len) C k" "p \<le> q" "q \<le> p + C"
  shows "(stamp_of C k p :: 'l word) = stamp_of C k q \<longleftrightarrow> p = q"
  using stamp_of_inj [OF assms] by auto

lemma stamp_of_full_iff:
  assumes "ring_ok TYPE('l::len) C k" "p \<le> q" "q \<le> p + C"
  shows "(stamp_of C k p :: 'l word) + 2 ^ k = stamp_of C k q \<longleftrightarrow> q = p + C"
  using stamp_of_eq_iff [OF assms(1), of q "p + C"] assms ring_okD [OF assms(1)]
  by (auto simp: stamp_of_wrap simp flip: stamp_of_wrap)

text \<open>The length computed from two stamps is the distance of the positions.\<close>

lemma stamp_len_stamp_of:
  assumes ok: "ring_ok TYPE('l::len) C k" and "n \<le> C"
  shows "stamp_len C (2 ^ k) (stamp_of C k h :: 'l word) (stamp_of C k (h + n)) = n"
proof -
  note r = ring_okD [OF ok]
  have m: "(h + n) mod C = (if h mod C + n < C then h mod C + n else h mod C + n - C)"
  proof -
    have "(h + n) mod C = (h mod C + n) mod C" by (simp add: mod_simps)
    moreover have "h mod C + n < C + C" using \<open>n \<le> C\<close> r by (simp add: add_less_le_mono)
    ultimately show ?thesis by (simp add: le_mod_geq)
  qed
  have "(stamp_of C k (h + n) :: 'l word) = stamp_of C k h \<longleftrightarrow> n = 0"
    using stamp_of_inj [OF ok, of h "h + n"] \<open>n \<le> C\<close> by auto
  moreover have "h mod C < C" using r by simp
  ultimately show ?thesis using \<open>n \<le> C\<close> ok
    by (auto simp: stamp_len_def Let_def m)
qed

section \<open>Buffers seen through positions\<close>

text \<open>
  \<open>ring_buf f buf h\<close>: reading the buffer once around from position \<open>h\<close> gives \<open>f h, f (h + 1), \<dots>\<close>.
\<close>

definition ring_buf :: "(nat \<Rightarrow> 's) \<Rightarrow> 's list \<Rightarrow> nat \<Rightarrow> bool" where
  "ring_buf f buf h \<longleftrightarrow> (\<forall>i < length buf. buf ! ((h + i) mod length buf) = f (h + i))"

lemma ring_bufD: "ring_buf f buf h \<Longrightarrow> h \<le> p \<Longrightarrow> p < h + length buf \<Longrightarrow> buf ! (p mod length buf) = f p"
  unfolding ring_buf_def by (metis add_diff_inverse_nat nat_add_left_cancel_less not_le)

lemma ring_buf_cong:
  assumes "ring_buf f buf h" "\<And>p. h \<le> p \<Longrightarrow> p < h + length buf \<Longrightarrow> f p = g p"
  shows "ring_buf g buf h"
  using assms by (simp add: ring_buf_def)

lemma mod_window_inj:
  assumes "(h + i) mod C = (h + j) mod C" "i < C" "j < (C :: nat)"
  shows "i = j"
  using assms
proof (induction i j rule: linorder_wlog)
  case (le i j)
  then have "C dvd (h + j) - (h + i)" by (intro mod_eq_dvd_iff_nat [THEN iffD1]) simp_all
  then have "C dvd j - i" by simp
  with le show ?case by (auto dest: dvd_imp_le)
qed simp

lemma ring_buf_update:
  assumes "ring_buf f buf h" "h \<le> p" "p < h + length buf"
  shows "ring_buf (f(p := s)) (buf[p mod length buf := s]) h"
proof -
  let ?C = "length buf"
  obtain j where j: "p = h + j" "j < ?C" using assms(2,3) by (auto simp: le_iff_add)
  have "buf[p mod ?C := s] ! ((h + i) mod ?C) = (f(p := s)) (h + i)" if "i < ?C" for i
  proof (cases "i = j")
    case True
    moreover have "p mod ?C < ?C" using that by (metis mod_less_divisor less_nat_zero_code neq0_conv)
    ultimately show ?thesis using j by simp
  next
    case False
    with j that have "p mod ?C \<noteq> (h + i) mod ?C" by (metis mod_window_inj)
    with assms(1) that False j show ?thesis by (simp add: ring_buf_def)
  qed
  then show ?thesis by (simp add: ring_buf_def)
qed

lemma ring_buf_advance:
  assumes "ring_buf f buf h" "0 < length buf"
  shows "ring_buf (f(h + length buf := f h)) buf (Suc h)"
  unfolding ring_buf_def
proof (intro allI impI)
  fix i assume i: "i < length buf"
  show "buf ! ((Suc h + i) mod length buf) = (f(h + length buf := f h)) (Suc h + i)"
  proof (cases "Suc i < length buf")
    case True
    with ring_bufD [OF assms(1), of "Suc h + i"] show ?thesis by simp
  next
    case False
    with i have "Suc h + i = h + length buf" by simp
    moreover have "buf ! (h mod length buf) = f h" using ring_bufD [OF assms(1), of h] assms(2) by simp
    ultimately show ?thesis by (simp only: mod_add_self2 fun_upd_same)
  qed
qed

text \<open>Construction: the lap the packed queues choose for a capacity below 2^31.\<close>

lemma ring_ok_new32:
  assumes "0 < cap" "(cap :: usize) < 2 ^ 31"
  shows "\<exists>k. next_power_of_two (unat cap + 1) = 2 ^ k \<and> ring_ok TYPE(32) (unat cap) k"
    and "checked_add cap 1 = Done (cap + 1)" "unat (cap + 1) = unat cap + 1"
proof -
  let ?C = "unat cap" and ?L = "next_power_of_two (unat cap + 1)"
  have C: "0 < ?C" "?C < 2 ^ 31" using assms by (simp_all add: word_less_nat_alt)
  obtain k where k: "?L = 2 ^ k" using next_power_of_two_pow by blast
  have "?L < 2 ^ 32" using next_power_of_two_less [of "?C + 1"] C(2) by simp
  then have "k < 32" unfolding k by (rule power_less_imp_less_exp [rotated]) simp
  with C(1) k next_power_of_two_ge [of "?C + 1"]
  show "\<exists>k. ?L = 2 ^ k \<and> ring_ok TYPE(32) ?C k" by (intro exI [of _ k]) (simp add: ring_ok_def)
  show "checked_add cap 1 = Done (cap + 1)" "unat (cap + 1) = ?C + 1"
    using C(2) by (simp_all add: checked_add_def unat_word_ariths)
qed

section \<open>Length and drop of the packed queues\<close>

text \<open>
  The spsc and mpsc variants write the middle case of \<^verbatim>\<open>len()\<close> as \<^verbatim>\<open>capacity - (hix - tix)\<close>.
\<close>

definition stamp_len_diff :: "nat \<Rightarrow> 'l::len word \<Rightarrow> 'l word \<Rightarrow> 'l word \<Rightarrow> nat" where
  "stamp_len_diff cap one_lap head tail =
     (let hix = stamp_index one_lap head; tix = stamp_index one_lap tail
      in if hix < tix then tix - hix
         else if tix < hix then cap - (hix - tix)
         else if tail = head then 0 else cap)"

lemma stamp_len_diff_stamp_of:
  assumes ok: "ring_ok TYPE('l::len) C k" and "n \<le> C"
  shows "stamp_len_diff C (2 ^ k) (stamp_of C k h :: 'l word) (stamp_of C k (h + n)) = n"
proof -
  have "h mod C < C" using ring_okD [OF ok] by simp
  then have "stamp_len_diff C (2 ^ k) (stamp_of C k h :: 'l word) (stamp_of C k (h + n)) =
      stamp_len C (2 ^ k) (stamp_of C k h :: 'l word) (stamp_of C k (h + n))"
    using ok by (simp add: stamp_len_diff_def stamp_len_def Let_def)
  with stamp_len_stamp_of [OF assms] show ?thesis by simp
qed

text \<open>The loop of \<^verbatim>\<open>drop\<close> over the values of the slots: the values whose destructor runs.\<close>

fun ring_drop_loop :: "'a option list \<Rightarrow> nat \<Rightarrow> nat list \<Rightarrow> 'a list exec" where
  "ring_drop_loop vals hix [] = Done []"
| "ring_drop_loop vals hix (i # is) =
     (let cap = length vals; index = (if hix + i < cap then hix + i else hix + i - cap)
      in if index < cap
         then case vals ! index of
             None \<Rightarrow> Fault Uninit
           | Some v \<Rightarrow> exec_map ((#) v) (ring_drop_loop vals hix is)
         else Fault OutOfBounds)"

lemma ring_wrap_index:
  assumes "0 < C" "i < (C :: nat)"
  shows "(h + i) mod C = (if h mod C + i < C then h mod C + i else h mod C + i - C)"
proof -
  have "(h + i) mod C = (h mod C + i) mod C" by (simp add: mod_simps)
  moreover have "h mod C + i < C + C" using assms by (simp add: add_less_le_mono)
  ultimately show ?thesis by (simp add: le_mod_geq)
qed

lemma ring_drop_loop_content:
  assumes "\<And>i. i < length xs \<Longrightarrow> vals ! ((h + i) mod length vals) = Some (xs ! i)"
    and "length xs \<le> length vals" "set is \<subseteq> {..< length xs}"
  shows "ring_drop_loop vals (h mod length vals) is = Done (map (nth xs) is)"
  using assms(3)
proof (induction "is")
  case Nil
  then show ?case by simp
next
  case (Cons i "is")
  then have i: "i < length xs" "i < length vals" "0 < length vals" using assms(2) by auto
  then have "(h + i) mod length vals < length vals" by simp
  then show ?case
    using Cons assms(1) [OF i(1)] ring_wrap_index [OF i(3,2), of h] by (simp add: Let_def)
qed

end
