(* ===== verification/Fifo_Spec.thy ===== *)
theory Fifo_Spec
  imports Prelude
begin

text \<open>
  The abstract specification of a queue flavor and the interface every queue of
  \<^verbatim>\<open>src/src/crossbeam/\<close> and \<^verbatim>\<open>src/src/flavor/\<close> promises: a first-in first-out list with an optional
  capacity. The locale \<open>fifo\<close> holds the laws of \<^verbatim>\<open>push\<close> and \<^verbatim>\<open>pop\<close> (trait \<^verbatim>\<open>Queue\<close> in
  \<^verbatim>\<open>src/src/flavor/mod.rs\<close>), \<open>fifo_obs\<close> adds the observers; what follows from them for whole runs
  of operations is proved here once. Each queue theory interprets them on its own definitions.
\<close>

section \<open>The specification: a bounded list\<close>

datatype 'a qop = Push 'a | Pop

datatype 'a qres = Pushed bool | Popped "'a option"

definition has_room :: "nat option \<Rightarrow> 'a list \<Rightarrow> bool" where
  "has_room c xs = (case c of None \<Rightarrow> True | Some n \<Rightarrow> length xs < n)"

fun spec_step :: "nat option \<Rightarrow> 'a list \<Rightarrow> 'a qop \<Rightarrow> 'a list \<times> 'a qres" where
  "spec_step c xs (Push x) = (if has_room c xs then (xs @ [x], Pushed True) else (xs, Pushed False))"
| "spec_step c xs Pop = (case xs of [] \<Rightarrow> ([], Popped None) | x # ys \<Rightarrow> (ys, Popped (Some x)))"

fun spec_run :: "nat option \<Rightarrow> 'a list \<Rightarrow> 'a qop list \<Rightarrow> 'a list \<times> 'a qres list" where
  "spec_run c xs [] = (xs, [])"
| "spec_run c xs (p # ps) =
     (let (ys, r) = spec_step c xs p; (zs, rs) = spec_run c ys ps in (zs, r # rs))"

text \<open>The values a run accepted, and the values it delivered.\<close>

fun accepted :: "'a qop list \<Rightarrow> 'a qres list \<Rightarrow> 'a list" where
  "accepted (Push x # ps) (Pushed True # rs) = x # accepted ps rs"
| "accepted (p # ps) (r # rs) = accepted ps rs"
| "accepted _ _ = []"

fun delivered :: "'a qres list \<Rightarrow> 'a list" where
  "delivered (Popped (Some x) # rs) = x # delivered rs"
| "delivered (r # rs) = delivered rs"
| "delivered [] = []"

lemma spec_run_conserves:
  "spec_run c xs ps = (ys, rs) \<Longrightarrow> xs @ accepted ps rs = delivered rs @ ys"
proof (induction ps arbitrary: xs rs)
  case Nil
  then show ?case by simp
next
  case (Cons p ps)
  show ?case
  proof (cases p)
    case (Push x)
    with Cons.prems show ?thesis
      by (auto simp: Let_def split: prod.splits if_splits dest!: Cons.IH)
  next
    case Pop
    with Cons.prems show ?thesis
      by (auto simp: Let_def split: prod.splits list.splits dest!: Cons.IH)
  qed
qed

lemma spec_run_bounded:
  "spec_run (Some n) xs ps = (ys, rs) \<Longrightarrow> length xs \<le> n \<Longrightarrow> length ys \<le> n"
proof (induction ps arbitrary: xs rs)
  case Nil
  then show ?case by simp
next
  case (Cons p ps)
  then show ?case
    by (cases p) (auto simp: Let_def has_room_def split: prod.splits if_splits list.splits
        dest!: Cons.IH)
qed

section \<open>Runs of an implementation\<close>

fun run_ops :: "('q \<Rightarrow> 'a \<Rightarrow> ('q \<times> bool) exec) \<Rightarrow> ('q \<Rightarrow> ('q \<times> 'a option) exec) \<Rightarrow>
    'q \<Rightarrow> 'a qop list \<Rightarrow> ('q \<times> 'a qres list) exec" where
  "run_ops push pop q [] = Done (q, [])"
| "run_ops push pop q (Push x # ps) =
     exec_bind (push q x) (\<lambda>(q', b).
       exec_map (map_prod id ((#) (Pushed b))) (run_ops push pop q' ps))"
| "run_ops push pop q (Pop # ps) =
     exec_bind (pop q) (\<lambda>(q', v).
       exec_map (map_prod id ((#) (Popped v))) (run_ops push pop q' ps))"

text \<open>A run in which each operation meets its own spurious failures of the weak compare-exchange.\<close>

fun run_scripted :: "('s \<Rightarrow> 'q \<Rightarrow> 'a \<Rightarrow> ('q \<times> bool) exec) \<Rightarrow> ('s \<Rightarrow> 'q \<Rightarrow> ('q \<times> 'a option) exec) \<Rightarrow>
    'q \<Rightarrow> ('s \<times> 'a qop) list \<Rightarrow> ('q \<times> 'a qres list) exec" where
  "run_scripted push pop q [] = Done (q, [])"
| "run_scripted push pop q ((s, Push x) # ps) =
     exec_bind (push s q x) (\<lambda>(q', b).
       exec_map (map_prod id ((#) (Pushed b))) (run_scripted push pop q' ps))"
| "run_scripted push pop q ((s, Pop) # ps) =
     exec_bind (pop s q) (\<lambda>(q', v).
       exec_map (map_prod id ((#) (Popped v))) (run_scripted push pop q' ps))"

section \<open>The interface\<close>

locale fifo =
  fixes inv :: "'q \<Rightarrow> bool"
    and content :: "'q \<Rightarrow> 'a list"
    and cap :: "'q \<Rightarrow> nat option"
    and push :: "'q \<Rightarrow> 'a \<Rightarrow> ('q \<times> bool) exec"
    and pop :: "'q \<Rightarrow> ('q \<times> 'a option) exec"
  assumes push_accept: "inv q \<Longrightarrow> has_room (cap q) (content q) \<Longrightarrow>
      \<exists>q'. push q x = Done (q', True) \<and> inv q' \<and> content q' = content q @ [x] \<and> cap q' = cap q"
    and push_refuse: "inv q \<Longrightarrow> \<not> has_room (cap q) (content q) \<Longrightarrow>
      \<exists>q'. push q x = Done (q', False) \<and> inv q' \<and> content q' = content q \<and> cap q' = cap q"
    and pop_first: "inv q \<Longrightarrow> content q = x # xs \<Longrightarrow>
      \<exists>q'. pop q = Done (q', Some x) \<and> inv q' \<and> content q' = xs \<and> cap q' = cap q"
    and pop_empty: "inv q \<Longrightarrow> content q = [] \<Longrightarrow>
      \<exists>q'. pop q = Done (q', None) \<and> inv q' \<and> content q' = [] \<and> cap q' = cap q"
begin

lemma push_step:
  assumes "inv q"
  shows "\<exists>q' b. push q x = Done (q', b) \<and> inv q' \<and> cap q' = cap q \<and>
    spec_step (cap q) (content q) (Push x) = (content q', Pushed b)"
  using push_accept [OF assms] push_refuse [OF assms]
  by (cases "has_room (cap q) (content q)") fastforce+

lemma pop_step:
  assumes "inv q"
  shows "\<exists>q' v. pop q = Done (q', v) \<and> inv q' \<and> cap q' = cap q \<and>
    spec_step (cap q) (content q) Pop = (content q', Popped v)"
  using pop_first [OF assms] pop_empty [OF assms]
  by (cases "content q") fastforce+

text \<open>Every run of the implementation returns, and answers what the specification answers.\<close>

lemma run_refines:
  "inv q \<Longrightarrow> \<exists>q' rs. run_ops push pop q ps = Done (q', rs) \<and> inv q' \<and> cap q' = cap q \<and>
     spec_run (cap q) (content q) ps = (content q', rs)"
proof (induction ps arbitrary: q)
  case Nil
  then show ?case by simp
next
  case (Cons p ps)
  obtain q1 r where q1: "inv q1" "cap q1 = cap q"
    and sp: "spec_step (cap q) (content q) p = (content q1, r)"
    and run: "run_ops push pop q (p # ps) =
        exec_map (map_prod id ((#) r)) (run_ops push pop q1 ps)"
    using push_step [OF Cons.prems] pop_step [OF Cons.prems] by (cases p) fastforce+
  from Cons.IH [OF q1(1)] obtain q2 rs where "run_ops push pop q1 ps = Done (q2, rs)" "inv q2"
    "cap q2 = cap q1" "spec_run (cap q1) (content q1) ps = (content q2, rs)" by blast
  with q1 sp run show ?case by simp
qed

lemma run_fifo:
  assumes "inv q" and "run_ops push pop q ps = Done (q', rs)"
  shows "content q @ accepted ps rs = delivered rs @ content q'"
  using run_refines [OF assms(1), of ps] assms(2) by (auto dest: spec_run_conserves)

lemma run_bounded:
  assumes "inv q" "cap q = Some n" "length (content q) \<le> n"
    and "run_ops push pop q ps = Done (q', rs)"
  shows "length (content q') \<le> n"
  using run_refines [OF assms(1), of ps] assms(2-4) by (auto dest: spec_run_bounded)

end

locale fifo_obs = fifo where inv = inv and content = content
  for inv :: "'q \<Rightarrow> bool" and content :: "'q \<Rightarrow> 'a list" +
  fixes len :: "'q \<Rightarrow> nat"
    and is_empty :: "'q \<Rightarrow> bool"
    and is_full :: "'q \<Rightarrow> bool"
  assumes len_content: "inv q \<Longrightarrow> len q = length (content q)"
    and is_empty_content: "inv q \<Longrightarrow> is_empty q = (content q = [])"
    and is_full_content: "inv q \<Longrightarrow> is_full q = (\<not> has_room (cap q) (content q))"
begin

lemma push_not_full: "inv q \<Longrightarrow> \<not> is_full q \<Longrightarrow> \<exists>q'. push q x = Done (q', True) \<and> len q' = len q + 1"
  using push_accept [of q x] by (auto simp: is_full_content len_content)

lemma pop_not_empty: "inv q \<Longrightarrow> \<not> is_empty q \<Longrightarrow> \<exists>q' x. pop q = Done (q', Some x) \<and> len q = len q' + 1"
  using pop_first [of q] by (cases "content q") (fastforce simp: is_empty_content len_content)+

end

text \<open>A queue that keeps the laws under every script keeps them when the scripts change from one operation to the next.\<close>

lemma scripted_run_refines:
  assumes laws: "\<And>s. fifo iv content cap (push s) (pop s)" and "iv q"
  shows "\<exists>q' rs. run_scripted push pop q ps = Done (q', rs) \<and> iv q' \<and> cap q' = cap q \<and>
    spec_run (cap q) (content q) (map snd ps) = (content q', rs)"
  using assms(2)
proof (induction ps arbitrary: q)
  case Nil
  then show ?case by simp
next
  case (Cons sp ps)
  obtain s p where sp: "sp = (s, p)" by (cases sp)
  obtain q1 r where q1: "iv q1" "cap q1 = cap q"
    and step: "spec_step (cap q) (content q) p = (content q1, r)"
    and run: "run_scripted push pop q (sp # ps) =
        exec_map (map_prod id ((#) r)) (run_scripted push pop q1 ps)"
    using fifo.push_step [OF laws Cons.prems, of s] fifo.pop_step [OF laws Cons.prems, of s]
    unfolding sp by (cases p) fastforce+
  from Cons.IH [OF q1(1)] obtain q2 rs where "run_scripted push pop q1 ps = Done (q2, rs)" "iv q2"
    "cap q2 = cap q1" "spec_run (cap q1) (content q1) (map snd ps) = (content q2, rs)" by blast
  with q1 step run show ?case by (simp add: sp)
qed

section \<open>Queues that may wait for memory\<close>

text \<open>
  What a channel can rely on for every flavor. A push that has returned did what the specification says; only the
  push of a bounded queue is promised to return, since an unbounded one may have to ask for memory.
\<close>

locale fifo_weak =
  fixes cap :: "'q \<Rightarrow> nat option"
    and push :: "'q \<Rightarrow> 'a \<Rightarrow> ('q \<times> bool) exec"
    and pop :: "'q \<Rightarrow> ('q \<times> 'a option) exec"
    and inv :: "'q \<Rightarrow> bool"
    and content :: "'q \<Rightarrow> 'a list"
    and len :: "'q \<Rightarrow> nat"
    and is_empty :: "'q \<Rightarrow> bool"
    and is_full :: "'q \<Rightarrow> bool"
  assumes push_safe: "inv q \<Longrightarrow> safe (push q x) (\<lambda>(q', b). inv q' \<and> cap q' = cap q \<and>
      spec_step (cap q) (content q) (Push x) = (content q', Pushed b))"
    and push_bounded: "inv q \<Longrightarrow> cap q \<noteq> None \<Longrightarrow> push q x \<noteq> Spin"
    and pop_spec: "inv q \<Longrightarrow> \<exists>q' v. pop q = Done (q', v) \<and> inv q' \<and> cap q' = cap q \<and>
      spec_step (cap q) (content q) Pop = (content q', Popped v)"
    and len_content: "inv q \<Longrightarrow> len q = length (content q)"
    and is_empty_content: "inv q \<Longrightarrow> is_empty q = (content q = [])"
    and is_full_content: "inv q \<Longrightarrow> is_full q = (\<not> has_room (cap q) (content q))"
begin

lemmas pop_step = pop_spec

lemma push_step:
  assumes "inv q" "cap q \<noteq> None"
  shows "\<exists>q' b. push q x = Done (q', b) \<and> inv q' \<and> cap q' = cap q \<and>
    spec_step (cap q) (content q) (Push x) = (content q', Pushed b)"
  using push_safe [OF assms(1), of x] push_bounded [OF assms, of x] by (cases "push q x") auto

text \<open>A run that returns answers what the specification answers, and a run never faults.\<close>

lemma run_safe:
  "inv q \<Longrightarrow> safe (run_ops push pop q ps) (\<lambda>(q', rs). inv q' \<and> cap q' = cap q \<and>
     spec_run (cap q) (content q) ps = (content q', rs))"
proof (induction ps arbitrary: q)
  case Nil
  then show ?case by simp
next
  case (Cons p ps)
  show ?case
  proof (cases p)
    case (Push x)
    show ?thesis unfolding Push run_ops.simps
    proof (rule safe_bind [OF push_safe [OF Cons.prems]], clarify)
      fix q' b
      assume a: "inv q'" "cap q' = cap q" "spec_step (cap q) (content q) (Push x) = (content q', Pushed b)"
      from Cons.IH [OF a(1)] a(2,3)
      show "safe (exec_map (map_prod id ((#) (Pushed b))) (run_ops push pop q' ps))
          (\<lambda>(q'', rs). inv q'' \<and> cap q'' = cap q \<and> spec_run (cap q) (content q) (Push x # ps) = (content q'', rs))"
        by (auto simp: safe_map simp del: spec_step.simps elim!: safe_mono)
    qed
  next
    case Pop
    obtain q' v where q': "pop q = Done (q', v)" "inv q'" "cap q' = cap q"
      "spec_step (cap q) (content q) Pop = (content q', Popped v)" using pop_spec [OF Cons.prems] by blast
    with Pop Cons.IH [OF q'(2)] show ?thesis
      by (auto simp: safe_map simp del: spec_step.simps elim!: safe_mono)
  qed
qed

end

sublocale fifo_obs \<subseteq> weak: fifo_weak cap push pop inv content len is_empty is_full
proof
  show "inv q \<Longrightarrow> safe (push q x) (\<lambda>(q', b). inv q' \<and> cap q' = cap q \<and>
      spec_step (cap q) (content q) (Push x) = (content q', Pushed b))" for q x
    using push_step [of q x] by auto
  show "inv q \<Longrightarrow> cap q \<noteq> None \<Longrightarrow> push q x \<noteq> Spin" for q x using push_step [of q x] by auto
qed (use pop_step len_content is_empty_content is_full_content in auto)

end
