(* ===== verification/Array_Queue.thy ===== *)
theory Array_Queue
  imports Ring_Index Fifo_Spec
begin

unbundle bit_operations_syntax

text \<open>
  The bounded multi-producer multi-consumer queue, \<^verbatim>\<open>src/src/crossbeam/array_queue.rs\<close>.

  Every operation is translated as one call that runs without interference: the loops around the
  weak compare-exchange take fuel and a script of spurious failures, and a read-write of a slot is an
  update of the buffer. A slot keeps its stamp and the value of its \<^verbatim>\<open>MaybeUninit\<close> (\<open>None\<close> when it
  holds none, so that a read of it is the fault \<open>Uninit\<close>). Loads with different memory orderings are
  the same load. The refinement to a list goes through \<open>aq_repr\<close>, which pins every stamp of the
  buffer to its position in the unbounded sequence of pushes.
\<close>

section \<open>The queue\<close>

record 'a aq_slot =
  aq_stamp :: usize
  aq_value :: "'a option"

record 'a array_queue =
  aq_head :: usize
  aq_tail :: usize
  aq_buffer :: "'a aq_slot list"
  aq_one_lap :: usize

definition aq_new :: "usize \<Rightarrow> 'a array_queue exec" where
  "aq_new cap =
     (if cap = 0 then Fault Panic
      else let buffer = map (\<lambda>i. \<lparr>aq_stamp = of_nat i, aq_value = None\<rparr>) [0 ..< unat cap]
        in exec_bind (checked_add cap 1) (\<lambda>n.
             let one_lap = next_power_of_two (unat n)
             in if one_lap < 2 ^ 64
                then Done \<lparr>aq_head = 0, aq_tail = 0, aq_buffer = buffer, aq_one_lap = of_nat one_lap\<rparr>
                else Fault Overflow))"

definition aq_capacity :: "'a array_queue \<Rightarrow> nat" where
  "aq_capacity q = length (aq_buffer q)"

subsection \<open>Pushing\<close>

text \<open>
  One attempt at a given tail: \<open>Inr True\<close> when pushed, else \<open>Inl (stamp, new_tail)\<close> where
  \<open>new_tail\<close> is the tail observed by a failed compare-exchange.
\<close>

definition aq_try_push :: "bool \<Rightarrow> 'a array_queue \<Rightarrow> usize \<Rightarrow> 'a \<Rightarrow>
    ('a array_queue \<times> (usize \<times> usize option + bool)) exec" where
  "aq_try_push sp q tail value =
     (let cap = aq_capacity q; index = stamp_index (aq_one_lap q) tail
      in if index < length (aq_buffer q)
         then let stamp = aq_stamp (aq_buffer q ! index)
           in if tail = stamp
              then exec_bind (next_stamp cap (aq_one_lap q) tail) (\<lambda>new_tail.
                case cas_weak sp tail new_tail (aq_tail q) of
                  (_, Inl t) \<Rightarrow> Done (q, Inl (stamp, Some t))
                | (t, Inr _) \<Rightarrow> exec_bind (checked_add tail 1) (\<lambda>s.
                    Done (q\<lparr>aq_tail := t,
                      aq_buffer := (aq_buffer q)[index := \<lparr>aq_stamp = s, aq_value = Some value\<rparr>]\<rparr>,
                      Inr True)))
              else Done (q, Inl (stamp, None))
         else Fault OutOfBounds)"

definition aq_try_push_oneshot :: "bool \<Rightarrow> 'a array_queue \<Rightarrow> 'a \<Rightarrow> ('a array_queue \<times> bool option) exec" where
  "aq_try_push_oneshot sp q value =
     (let tail = aq_tail q
      in if aq_head q + aq_one_lap q = tail then Done (q, Some False)
         else exec_bind (aq_try_push sp q tail value) (\<lambda>(q', r).
           case r of Inr _ \<Rightarrow> Done (q', Some True) | Inl _ \<Rightarrow> Done (q', None)))"

fun aq_push_loop :: "nat \<Rightarrow> bool list \<Rightarrow> 'a array_queue \<Rightarrow> usize \<Rightarrow> 'a \<Rightarrow> ('a array_queue \<times> bool) exec" where
  "aq_push_loop 0 script q tail value = Spin"
| "aq_push_loop (Suc fuel) script q tail value =
     (let (sp, script') = next_spurious script
      in exec_bind (aq_try_push sp q tail value) (\<lambda>(q', r).
        case r of
          Inr res \<Rightarrow> Done (q', res)
        | Inl (stamp, Some t) \<Rightarrow> aq_push_loop fuel script' q' t value
        | Inl (stamp, None) \<Rightarrow> exec_bind (checked_add tail 1) (\<lambda>tail1.
            if stamp + aq_one_lap q' = tail1 \<and> aq_head q' + aq_one_lap q' = tail
            then Done (q', False)
            else aq_push_loop fuel script' q' (aq_tail q') value)))"

definition aq_push_with_ptr :: "nat \<Rightarrow> bool list \<Rightarrow> 'a array_queue \<Rightarrow> 'a \<Rightarrow> ('a array_queue \<times> bool) exec" where
  "aq_push_with_ptr fuel script q value = aq_push_loop fuel script q (aq_tail q) value"

subsection \<open>Popping\<close>

text \<open>
  \<open>aq_start_read_loop\<close> is the loop of \<^verbatim>\<open>_start_read\<close>: it claims the slot at the head and returns its
  index and the stamp to store there once the value has been read.
\<close>

fun aq_start_read_loop :: "nat \<Rightarrow> bool list \<Rightarrow> 'a array_queue \<Rightarrow> usize \<Rightarrow>
    ('a array_queue \<times> (nat \<times> usize) option) exec" where
  "aq_start_read_loop 0 script q head = Spin"
| "aq_start_read_loop (Suc fuel) script q head =
     (let (sp, script') = next_spurious script; index = stamp_index (aq_one_lap q) head
      in if index < length (aq_buffer q)
         then let stamp = aq_stamp (aq_buffer q ! index)
           in exec_bind (checked_add head 1) (\<lambda>head1.
             if head1 = stamp
             then exec_bind (next_stamp (aq_capacity q) (aq_one_lap q) head) (\<lambda>new.
               case cas_weak sp head new (aq_head q) of
                 (_, Inl new_head) \<Rightarrow> aq_start_read_loop fuel script' q new_head
               | (h, Inr _) \<Rightarrow> Done (q\<lparr>aq_head := h\<rparr>, Some (index, head + aq_one_lap q)))
             else if stamp = head \<and> aq_tail q = head then Done (q, None)
             else aq_start_read_loop fuel script' q (aq_head q))
         else Fault OutOfBounds)"

definition aq_start_read_slot :: "nat \<Rightarrow> bool list \<Rightarrow> 'a array_queue \<Rightarrow>
    ('a array_queue \<times> (nat \<times> usize) option) exec" where
  "aq_start_read_slot fuel script q = aq_start_read_loop fuel script q (aq_head q)"

text \<open>Moving the value out of a claimed slot and storing its next stamp.\<close>

definition aq_take :: "'a array_queue \<Rightarrow> nat \<Rightarrow> usize \<Rightarrow> ('a array_queue \<times> 'a) exec" where
  "aq_take q index stamp =
     (if index < length (aq_buffer q)
      then case aq_value (aq_buffer q ! index) of
          None \<Rightarrow> Fault Uninit
        | Some msg \<Rightarrow>
            Done (q\<lparr>aq_buffer := (aq_buffer q)[index := \<lparr>aq_stamp = stamp, aq_value = None\<rparr>]\<rparr>, msg)
      else Fault OutOfBounds)"

definition aq_start_read :: "nat \<Rightarrow> bool list \<Rightarrow> 'a array_queue \<Rightarrow> ('a array_queue \<times> token option) exec" where
  "aq_start_read fuel script q =
     exec_bind (aq_start_read_slot fuel script q) (\<lambda>(q', r).
       case r of Some (slot, stamp) \<Rightarrow> Done (q', Some (token_new slot stamp)) | None \<Rightarrow> Done (q', None))"

definition aq_pop :: "nat \<Rightarrow> bool list \<Rightarrow> 'a array_queue \<Rightarrow> ('a array_queue \<times> 'a option) exec" where
  "aq_pop fuel script q =
     exec_bind (aq_start_read_slot fuel script q) (\<lambda>(q', r).
       case r of
         Some (slot, stamp) \<Rightarrow> exec_map (map_prod id Some) (aq_take q' slot stamp)
       | None \<Rightarrow> Done (q', None))"

definition aq_read :: "'a array_queue \<Rightarrow> token \<Rightarrow> ('a array_queue \<times> 'a) exec" where
  "aq_read q token =
     (case tok_pos token of None \<Rightarrow> Fault OutOfBounds | Some slot \<Rightarrow> aq_take q slot (tok_stamp token))"

subsection \<open>Observers and drop\<close>

definition aq_is_empty :: "'a array_queue \<Rightarrow> bool" where
  "aq_is_empty q \<longleftrightarrow> aq_tail q = aq_head q"

definition aq_is_full :: "'a array_queue \<Rightarrow> bool" where
  "aq_is_full q \<longleftrightarrow> aq_head q + aq_one_lap q = aq_tail q"

text \<open>
  One round of the loop of \<^verbatim>\<open>len\<close>, over the three loads it makes: \<open>None\<close> says the tail moved and the
  loop goes round again. Without interference the first round returns.
\<close>

definition aq_len_round :: "'a array_queue \<Rightarrow> 'a array_queue \<Rightarrow> 'a array_queue \<Rightarrow> nat option" where
  "aq_len_round q0 q1 q2 =
     (let tail = aq_tail q0; head = aq_head q1
      in if aq_tail q2 = tail then Some (stamp_len (aq_capacity q0) (aq_one_lap q0) head tail) else None)"

text \<open>An undisturbed round reads the same tail twice and always gives a length.\<close>

definition aq_len :: "'a array_queue \<Rightarrow> nat" where
  "aq_len q = (case aq_len_round q q q of Some n \<Rightarrow> n | None \<Rightarrow> 0)"

text \<open>\<open>aq_drop\<close> returns the values whose destructor runs, in order.\<close>

fun aq_drop_loop :: "'a array_queue \<Rightarrow> nat \<Rightarrow> nat list \<Rightarrow> 'a list exec" where
  "aq_drop_loop q hix [] = Done []"
| "aq_drop_loop q hix (i # is) =
     (let index = (if hix + i < aq_capacity q then hix + i else hix + i - aq_capacity q)
      in if index < length (aq_buffer q)
         then case aq_value (aq_buffer q ! index) of
             None \<Rightarrow> Fault Uninit
           | Some v \<Rightarrow> exec_map ((#) v) (aq_drop_loop q hix is)
         else Fault OutOfBounds)"

definition aq_drop :: "bool \<Rightarrow> 'a array_queue \<Rightarrow> 'a list exec" where
  "aq_drop needs_drop q =
     (if needs_drop
      then aq_drop_loop q (stamp_index (aq_one_lap q) (aq_head q))
        [0 ..< stamp_len (aq_capacity q) (aq_one_lap q) (aq_head q) (aq_tail q)]
      else Done [])"

section \<open>The abstraction to a list\<close>

definition aq_cell :: "nat \<Rightarrow> nat \<Rightarrow> nat \<Rightarrow> 'a list \<Rightarrow> nat \<Rightarrow> 'a aq_slot" where
  "aq_cell C k h xs p =
     (if p < h + length xs then \<lparr>aq_stamp = stamp_of C k p + 1, aq_value = Some (xs ! (p - h))\<rparr>
      else \<lparr>aq_stamp = stamp_of C k p, aq_value = None\<rparr>)"

definition aq_repr :: "'a array_queue \<Rightarrow> nat \<Rightarrow> nat \<Rightarrow> 'a list \<Rightarrow> bool" where
  "aq_repr q k h xs \<longleftrightarrow>
     (let C = aq_capacity q
      in ring_ok TYPE(64) C k \<and> length xs \<le> C \<and> aq_one_lap q = 2 ^ k \<and>
         aq_head q = stamp_of C k h \<and> aq_tail q = stamp_of C k (h + length xs) \<and>
         ring_buf (aq_cell C k h xs) (aq_buffer q) h)"

definition aq_inv :: "'a array_queue \<Rightarrow> bool" where
  "aq_inv q \<longleftrightarrow> (\<exists>k h xs. aq_repr q k h xs)"

text \<open>The elements, read from the buffer between head and tail.\<close>

definition aq_content :: "'a array_queue \<Rightarrow> 'a list" where
  "aq_content q =
     map (\<lambda>i. the (aq_value (aq_buffer q !
           ((stamp_index (aq_one_lap q) (aq_head q) + i) mod aq_capacity q)))) [0 ..< aq_len q]"

lemma aq_capacity_update [simp]:
  "aq_capacity (q\<lparr>aq_tail := t\<rparr>) = aq_capacity q"
  "aq_capacity (q\<lparr>aq_head := t\<rparr>) = aq_capacity q"
  "aq_capacity (q\<lparr>aq_buffer := b\<rparr>) = length b"
  "aq_capacity (q\<lparr>aq_tail := t, aq_buffer := b\<rparr>) = length b"
  "aq_capacity (q\<lparr>aq_head := t, aq_buffer := b\<rparr>) = length b"
  by (simp_all add: aq_capacity_def)

lemma aq_reprD:
  assumes "aq_repr q k h xs" "C = aq_capacity q"
  shows "ring_ok TYPE(64) C k" "length xs \<le> C" "aq_one_lap q = 2 ^ k" "0 < C"
    "length (aq_buffer q) = C"
    "aq_head q = stamp_of C k h" "aq_tail q = stamp_of C k (h + length xs)"
    "ring_buf (aq_cell C k h xs) (aq_buffer q) h"
    "stamp_index (aq_one_lap q) (aq_head q) = h mod C"
  using assms by (auto simp: aq_repr_def Let_def aq_capacity_def dest: ring_okD)

lemma aq_slot_at:
  assumes "aq_repr q k h xs" "h \<le> p" "p < h + aq_capacity q"
  shows "aq_buffer q ! (p mod aq_capacity q) = aq_cell (aq_capacity q) k h xs p"
  using ring_bufD [OF aq_reprD(8) [OF assms(1) refl]] assms(2,3) by (simp add: aq_capacity_def)

lemma aq_repr_len: "aq_repr q k h xs \<Longrightarrow> aq_len q = length xs"
  by (simp add: aq_len_def aq_len_round_def aq_reprD stamp_len_stamp_of)

lemma aq_repr_content:
  assumes "aq_repr q k h xs"
  shows "aq_content q = xs"
proof (rule nth_equalityI)
  show "length (aq_content q) = length xs" using assms by (simp add: aq_content_def aq_repr_len)
next
  fix i assume "i < length (aq_content q)"
  then have i: "i < length xs" using assms by (simp add: aq_content_def aq_repr_len)
  moreover have "length xs \<le> aq_capacity q" using aq_reprD(2) [OF assms refl] .
  moreover have "(h mod aq_capacity q + i) mod aq_capacity q = (h + i) mod aq_capacity q"
    by (simp add: mod_simps)
  ultimately show "aq_content q ! i = xs ! i"
    using aq_slot_at [OF assms, of "h + i"] aq_reprD(9) [OF assms refl] assms
    by (simp add: aq_content_def aq_repr_len aq_cell_def)
qed

lemma aq_repr_inv: "aq_repr q k h xs \<Longrightarrow> aq_inv q \<and> aq_content q = xs"
  by (auto simp: aq_inv_def aq_repr_content)

lemma aq_inv_repr: "aq_inv q \<Longrightarrow> \<exists>k h. aq_repr q k h (aq_content q)"
  by (auto simp: aq_inv_def dest: aq_repr_content)

text \<open>What one push and one pop leave in the buffer.\<close>

lemma aq_cell_push:
  assumes "aq_repr q k h xs" "length xs < aq_capacity q" "C = aq_capacity q" "p = h + length xs"
  shows "aq_repr (q\<lparr>aq_tail := stamp_of C k (Suc p), aq_buffer := (aq_buffer q)[p mod C :=
           \<lparr>aq_stamp = stamp_of C k p + 1, aq_value = Some x\<rparr>]\<rparr>) k h (xs @ [x])"
proof -
  note r = aq_reprD [OF assms(1,3)]
  have "ring_buf ((aq_cell C k h xs)(p := \<lparr>aq_stamp = stamp_of C k p + 1, aq_value = Some x\<rparr>))
      ((aq_buffer q)[p mod C := \<lparr>aq_stamp = stamp_of C k p + 1, aq_value = Some x\<rparr>]) h"
    using ring_buf_update [OF r(8), of p] r(5) assms by simp
  then have "ring_buf (aq_cell C k h (xs @ [x]))
      ((aq_buffer q)[p mod C := \<lparr>aq_stamp = stamp_of C k p + 1, aq_value = Some x\<rparr>]) h"
    by (rule ring_buf_cong) (auto simp: aq_cell_def nth_append assms(4))
  moreover have "length xs < C" using assms(2,3) by simp
  ultimately show ?thesis using r(1-7) assms(4) by (simp add: aq_repr_def Let_def)
qed

lemma aq_cell_pop:
  assumes "aq_repr q k h (x # xs)" "C = aq_capacity q"
  shows "aq_repr (q\<lparr>aq_head := stamp_of C k (Suc h), aq_buffer := (aq_buffer q)[h mod C :=
           \<lparr>aq_stamp = stamp_of C k h + 2 ^ k, aq_value = None\<rparr>]\<rparr>) k (Suc h) xs"
proof -
  note r = aq_reprD [OF assms]
  let ?s = "\<lparr>aq_stamp = stamp_of C k (h + C), aq_value = None\<rparr>"
  have "ring_buf ((aq_cell C k h (x # xs))(h := ?s)) ((aq_buffer q)[h mod C := ?s]) h"
    using ring_buf_update [OF r(8), of h ?s] r(4,5) by simp
  from ring_buf_advance [OF this] r(4,5)
  have "ring_buf ((aq_cell C k h (x # xs))(h := ?s, h + C := ?s)) ((aq_buffer q)[h mod C := ?s]) (Suc h)"
    by simp
  then have "ring_buf (aq_cell C k (Suc h) xs) ((aq_buffer q)[h mod C := ?s]) (Suc h)"
    by (rule ring_buf_cong) (use r(2,5) in \<open>auto simp: aq_cell_def nth_Cons'\<close>)
  with r(1-7) show ?thesis
    by (simp add: aq_repr_def Let_def stamp_of_wrap)
qed

section \<open>Construction\<close>

lemma aq_new_repr:
  assumes "0 < cap" "unat cap + 1 \<le> 2 ^ 63"
  shows "\<exists>q k. aq_new cap = Done q \<and> aq_repr q k 0 [] \<and> aq_capacity q = unat cap"
proof -
  let ?C = "unat cap" and ?L = "next_power_of_two (unat cap + 1)"
  have C: "0 < ?C" using assms(1) by (simp add: word_less_nat_alt)
  obtain k where k: "?L = 2 ^ k" using next_power_of_two_pow by blast
  have "?L < 2 ^ 64"
    using next_power_of_two_less [of "?C + 1"] assms(2) by simp
  then have k64: "k < 64" unfolding k by (rule power_less_imp_less_exp [rotated]) simp
  have ok: "ring_ok TYPE(64) ?C k"
    using C k64 k next_power_of_two_ge [of "?C + 1"] by (simp add: ring_ok_def)
  have add: "checked_add cap 1 = Done (cap + 1)" "unat (cap + 1) = ?C + 1"
    using assms(2) by (simp_all add: checked_add_def unat_word_ariths)
  let ?q = "\<lparr>aq_head = 0, aq_tail = 0,
    aq_buffer = map (\<lambda>i. \<lparr>aq_stamp = of_nat i, aq_value = None\<rparr>) [0 ..< ?C], aq_one_lap = of_nat ?L\<rparr>"
  have "aq_new cap = Done ?q"
    using assms(1) add \<open>?L < 2 ^ 64\<close> by (auto simp: aq_new_def Let_def)
  moreover have "ring_buf (aq_cell ?C k 0 []) (aq_buffer ?q) 0"
    by (simp add: ring_buf_def aq_cell_def stamp_of_def)
  then have "aq_repr ?q k 0 []" using ok k by (simp add: aq_repr_def Let_def aq_capacity_def stamp_of_def)
  ultimately show ?thesis by (auto simp: aq_capacity_def)
qed

section \<open>Pushing\<close>

lemma aq_try_push_room:
  assumes "aq_repr q k h xs" "length xs < aq_capacity q" "C = aq_capacity q" "p = h + length xs"
  shows "aq_try_push sp q (aq_tail q) x =
    (if sp then Done (q, Inl (aq_tail q, Some (aq_tail q)))
     else Done (q\<lparr>aq_tail := stamp_of C k (Suc p), aq_buffer := (aq_buffer q)[p mod C :=
           \<lparr>aq_stamp = stamp_of C k p + 1, aq_value = Some x\<rparr>]\<rparr>, Inr True))"
proof -
  note r = aq_reprD [OF assms(1,3)]
  have "aq_buffer q ! (p mod C) = \<lparr>aq_stamp = stamp_of C k p, aq_value = None\<rparr>"
    using aq_slot_at [OF assms(1), of p] assms(2-4) by (simp add: aq_cell_def)
  moreover have "p mod C < C" using r by simp
  ultimately show ?thesis using r assms(3,4)
    by (simp add: aq_try_push_def Let_def cas_weak_def)
qed

lemma aq_try_push_full:
  assumes "aq_repr q k h xs" "length xs = aq_capacity q"
  shows "aq_try_push sp q (aq_tail q) x = Done (q, Inl (aq_head q + 1, None))"
    and "aq_tail q = aq_head q + aq_one_lap q"
    and "checked_add (aq_tail q) 1 = Done (aq_tail q + 1)"
proof -
  let ?C = "aq_capacity q"
  note r = aq_reprD [OF assms(1) refl]
  have m: "aq_stamp (aq_buffer q ! (h mod ?C)) = stamp_of ?C k h + 1"
    using aq_slot_at [OF assms(1), of h] r(4) assms(2) by (simp add: aq_cell_def)
  have w: "stamp_of ?C k (h + length xs) = stamp_of ?C k h + (2 ^ k :: usize)"
    using r(4) assms(2) by (simp add: stamp_of_wrap)
  have "stamp_of ?C k (h + length xs) \<noteq> stamp_of ?C k h + (1 :: usize)"
    using stamp_of_wrap_neq [OF r(1), of h] w by simp
  moreover have "stamp_index (2 ^ k) (stamp_of ?C k (h + length xs) :: usize) = h mod ?C"
    using r(1) assms(2) by simp
  ultimately show "aq_try_push sp q (aq_tail q) x = Done (q, Inl (aq_head q + 1, None))"
    using r m by (simp add: aq_try_push_def Let_def)
  show "aq_tail q = aq_head q + aq_one_lap q" using r w by simp
  show "checked_add (aq_tail q) 1 = Done (aq_tail q + 1)" using r by simp
qed

lemma next_spurious_length: "next_spurious s = (b, s') \<Longrightarrow> length s' = length s - 1"
  by (cases s) auto

lemma aq_push_room:
  assumes "aq_repr q k h xs" "length xs < aq_capacity q" "length script < fuel"
  shows "\<exists>q'. aq_push_with_ptr fuel script q x = Done (q', True) \<and> aq_repr q' k h (xs @ [x]) \<and>
    aq_capacity q' = aq_capacity q"
  using assms(3) unfolding aq_push_with_ptr_def
proof (induction fuel arbitrary: script)
  case 0
  then show ?case by simp
next
  case (Suc fuel)
  obtain sp script' where s: "next_spurious script = (sp, script')" by fastforce
  show ?case
  proof (cases sp)
    case True
    with s have "length script' < fuel" using Suc.prems by (cases script) auto
    with Suc.IH [of script'] True s show ?thesis
      by (simp add: aq_try_push_room [OF assms(1,2) refl refl])
  next
    case False
    with s aq_cell_push [OF assms(1,2) refl refl, of x] show ?thesis
      by (simp add: aq_try_push_room [OF assms(1,2) refl refl] aq_reprD(5) [OF assms(1) refl])
  qed
qed

lemma aq_push_full:
  assumes "aq_repr q k h xs" "length xs = aq_capacity q" "0 < fuel"
  shows "aq_push_with_ptr fuel script q x = Done (q, False)"
proof -
  obtain n where "fuel = Suc n" using assms(3) gr0_implies_Suc by blast
  moreover have "aq_head q + 1 + aq_one_lap q = aq_tail q + 1"
    by (simp add: aq_try_push_full(2) [OF assms(1,2)])
  ultimately show ?thesis
    by (simp add: aq_push_with_ptr_def aq_try_push_full(1,3) [OF assms(1,2)]
        aq_try_push_full(2) [OF assms(1,2), symmetric] split: prod.splits)
qed

section \<open>Popping\<close>

lemma aq_start_read_some:
  assumes "aq_repr q k h (x # xs)" "C = aq_capacity q" "length script < fuel"
  shows "aq_start_read_slot fuel script q =
    Done (q\<lparr>aq_head := stamp_of C k (Suc h)\<rparr>, Some (h mod C, stamp_of C k h + 2 ^ k))"
  using assms(3) unfolding aq_start_read_slot_def
proof (induction fuel arbitrary: script)
  case 0
  then show ?case by simp
next
  case (Suc fuel)
  note r = aq_reprD [OF assms(1,2)]
  have m: "aq_stamp (aq_buffer q ! (h mod C)) = stamp_of C k h + 1"
    using aq_slot_at [OF assms(1), of h] r(4) assms(2) by (simp add: aq_cell_def)
  obtain sp script' where s: "next_spurious script = (sp, script')" by fastforce
  then have "sp \<Longrightarrow> length script' < fuel" using Suc.prems by (cases script) auto
  moreover have "h mod C < C" using r by simp
  ultimately show ?case using s r m assms(2) Suc.IH [of script']
    by (cases sp) (simp_all add: Let_def cas_weak_def)
qed

lemma aq_start_read_none:
  assumes "aq_repr q k h []" "0 < fuel"
  shows "aq_start_read_slot fuel script q = Done (q, None)"
proof -
  let ?C = "aq_capacity q"
  note r = aq_reprD [OF assms(1) refl]
  have m: "aq_stamp (aq_buffer q ! (h mod ?C)) = stamp_of ?C k h"
    using aq_slot_at [OF assms(1), of h] r(4) by (simp add: aq_cell_def)
  obtain n where "fuel = Suc n" using assms(2) gr0_implies_Suc by blast
  moreover have "h mod ?C < ?C" using r by simp
  ultimately show ?thesis using r m
    by (auto simp: aq_start_read_slot_def Let_def split: prod.splits)
qed

lemma aq_take_head:
  assumes "aq_repr q k h (x # xs)" "C = aq_capacity q"
  shows "aq_take (q\<lparr>aq_head := hd'\<rparr>) (h mod C) stamp =
    Done (q\<lparr>aq_head := hd', aq_buffer := (aq_buffer q)[h mod C :=
      \<lparr>aq_stamp = stamp, aq_value = None\<rparr>]\<rparr>, x)"
proof -
  note r = aq_reprD [OF assms]
  have "aq_value (aq_buffer q ! (h mod C)) = Some x"
    using aq_slot_at [OF assms(1), of h] r(4) assms(2) by (simp add: aq_cell_def)
  moreover have "h mod C < C" using r by simp
  ultimately show ?thesis using r by (simp add: aq_take_def)
qed

lemma aq_pop_some:
  assumes "aq_repr q k h (x # xs)" "length script < fuel"
  shows "\<exists>q'. aq_pop fuel script q = Done (q', Some x) \<and> aq_repr q' k (Suc h) xs \<and>
    aq_capacity q' = aq_capacity q"
proof -
  let ?C = "aq_capacity q"
  let ?q = "q\<lparr>aq_head := stamp_of ?C k (Suc h), aq_buffer := (aq_buffer q)[h mod ?C :=
    \<lparr>aq_stamp = stamp_of ?C k h + 2 ^ k, aq_value = None\<rparr>]\<rparr>"
  have "aq_pop fuel script q = Done (?q, Some x)"
    by (simp add: aq_pop_def aq_start_read_some [OF assms(1) refl assms(2)]
        aq_take_head [OF assms(1) refl])
  moreover have "aq_capacity ?q = ?C" using aq_reprD(5) [OF assms(1) refl] by simp
  ultimately show ?thesis using aq_cell_pop [OF assms(1) refl] by blast
qed

lemma aq_pop_none:
  assumes "aq_repr q k h []" "0 < fuel"
  shows "aq_pop fuel script q = Done (q, None)"
  by (simp add: aq_pop_def aq_start_read_none [OF assms])

lemma aq_pop_eq_start_read:
  "aq_pop fuel script q =
     exec_bind (aq_start_read fuel script q) (\<lambda>(q', t).
       case t of Some tok \<Rightarrow> exec_map (map_prod id Some) (aq_read q' tok) | None \<Rightarrow> Done (q', None))"
  by (cases "aq_start_read_slot fuel script q")
    (auto simp: aq_pop_def aq_start_read_def aq_read_def token_new_def split: option.splits)

section \<open>Observers and drop\<close>

lemma aq_repr_is_empty: "aq_repr q k h xs \<Longrightarrow> aq_is_empty q \<longleftrightarrow> xs = []"
  using stamp_of_inj [OF aq_reprD(1), of q k h xs "aq_capacity q" h "h + length xs"]
  by (auto simp: aq_is_empty_def aq_reprD)

lemma aq_repr_is_full:
  assumes "aq_repr q k h xs"
  shows "aq_is_full q \<longleftrightarrow> length xs = aq_capacity q"
proof -
  note r = aq_reprD [OF assms refl]
  have "aq_head q + aq_one_lap q = stamp_of (aq_capacity q) k (h + aq_capacity q)"
    using r by (simp add: stamp_of_wrap)
  then show ?thesis using r stamp_of_inj [OF r(1), of "h + length xs" "h + aq_capacity q"]
    by (auto simp: aq_is_full_def)
qed

lemma aq_drop_loop_content:
  assumes "aq_repr q k h xs" "set is \<subseteq> {..< length xs}"
  shows "aq_drop_loop q (h mod aq_capacity q) is = Done (map (nth xs) is)"
  using assms(2)
proof (induction "is")
  case Nil
  then show ?case by simp
next
  case (Cons i "is")
  let ?C = "aq_capacity q"
  note r = aq_reprD [OF assms(1) refl]
  have i: "i < length xs" using Cons.prems by simp
  have m: "(h + i) mod ?C =
      (if h mod ?C + i < ?C then h mod ?C + i else h mod ?C + i - ?C)"
    using i r by (intro ring_wrap_index) simp_all
  have "aq_value (aq_buffer q ! ((h + i) mod ?C)) = Some (xs ! i)"
    using aq_slot_at [OF assms(1), of "h + i"] i r(2) by (simp add: aq_cell_def)
  moreover have "(h + i) mod ?C < ?C" using r by simp
  ultimately show ?case using Cons m r by (simp add: Let_def)
qed

lemma aq_drop_content:
  assumes "aq_repr q k h xs"
  shows "aq_drop True q = Done xs"
proof -
  note r = aq_reprD [OF assms refl]
  have "aq_drop True q = aq_drop_loop q (h mod aq_capacity q) [0 ..< length xs]"
    using r by (simp add: aq_drop_def stamp_len_stamp_of)
  also have "\<dots> = Done (map (nth xs) [0 ..< length xs])"
    by (rule aq_drop_loop_content [OF assms]) auto
  finally show ?thesis by (simp add: map_nth)
qed

section \<open>The queue interface\<close>

text \<open>
  For every script of spurious failures, with one more round of fuel than the script has entries,
  the queue is a bounded first-in first-out list.
\<close>

definition aq_push_s :: "bool list \<Rightarrow> 'a array_queue \<Rightarrow> 'a \<Rightarrow> ('a array_queue \<times> bool) exec" where
  "aq_push_s script = aq_push_with_ptr (Suc (length script)) script"

definition aq_pop_s :: "bool list \<Rightarrow> 'a array_queue \<Rightarrow> ('a array_queue \<times> 'a option) exec" where
  "aq_pop_s script = aq_pop (Suc (length script)) script"

definition aq_cap :: "'a array_queue \<Rightarrow> nat option" where
  "aq_cap q = Some (aq_capacity q)"

interpretation aqi: fifo_obs aq_cap "aq_push_s script" "aq_pop_s script" aq_inv aq_content
    aq_len aq_is_empty aq_is_full
  for script :: "bool list"
proof (unfold_locales, goal_cases)
  case (1 q x)
  then obtain k h where r: "aq_repr q k h (aq_content q)" using aq_inv_repr by blast
  from 1(2) have "length (aq_content q) < aq_capacity q" by (simp add: has_room_def aq_cap_def)
  from aq_push_room [OF r this, of script "Suc (length script)" x] show ?case
    by (auto simp: aq_push_s_def aq_cap_def dest: aq_repr_inv)
next
  case (2 q x)
  then obtain k h where r: "aq_repr q k h (aq_content q)" using aq_inv_repr by blast
  with 2(2) have "length (aq_content q) = aq_capacity q"
    using aq_reprD(2) [OF r refl] by (simp add: has_room_def aq_cap_def)
  from aq_push_full [OF r this, of "Suc (length script)"] 2(1) show ?case
    by (auto simp: aq_push_s_def)
next
  case (3 q x xs)
  then obtain k h where "aq_repr q k h (x # xs)" using aq_inv_repr by metis
  from aq_pop_some [OF this, of script "Suc (length script)"] show ?case
    by (auto simp: aq_pop_s_def aq_cap_def dest: aq_repr_inv)
next
  case (4 q)
  then obtain k h where "aq_repr q k h []" using aq_inv_repr by metis
  from aq_pop_none [OF this, of "Suc (length script)"] 4 show ?case by (auto simp: aq_pop_s_def)
next
  case (5 q)
  then show ?case using aq_repr_len aq_inv_repr by blast
next
  case (6 q)
  then show ?case using aq_repr_is_empty aq_inv_repr by blast
next
  case (7 q)
  then obtain k h where "aq_repr q k h (aq_content q)" using aq_inv_repr by blast
  with aq_repr_is_full [OF this] aq_reprD(2) [OF this refl] show ?case
    by (auto simp: has_room_def aq_cap_def)
qed

lemma aq_new_inv:
  assumes "0 < cap" "unat cap < 2 ^ 63"
  shows "\<exists>q. aq_new cap = Done q \<and> aq_inv q \<and> aq_content q = [] \<and> aq_cap q = Some (unat cap)"
  using aq_new_repr [OF assms(1)] assms(2)
  by (auto simp: aq_cap_def dest: aq_repr_inv)

section \<open>Properties\<close>

text \<open>
  C35. A queue of any capacity from 1 to 2^63 - 1, started by \<open>aq_new\<close>: every sequence of pushes and
  pops returns (whatever spurious failures of the weak compare-exchange each of them meets), answers exactly what a
  bounded first-in first-out list of that capacity answers, and ends with that list as content, also
  when the 64-bit stamps have wrapped around.
\<close>

theorem aq_run_refines:
  assumes "0 < cap" "unat cap < 2 ^ 63"
  shows "\<exists>q q' rs. aq_new cap = Done q \<and>
    run_scripted aq_push_s aq_pop_s q ps = Done (q', rs) \<and>
    spec_run (Some (unat cap)) [] (map snd ps) = (aq_content q', rs) \<and> aq_len q' \<le> unat cap"
proof -
  from aq_new_inv [OF assms] obtain q :: "'a array_queue" where q: "aq_new cap = Done q" "aq_inv q"
    "aq_content q = []" "aq_cap q = Some (unat cap)" by blast
  from scripted_run_refines [where push = aq_push_s and pop = aq_pop_s, OF aqi.fifo_axioms q(2), of ps] q obtain q' rs where
    r: "run_scripted aq_push_s aq_pop_s q ps = Done (q', rs)" "aq_inv q'"
      "spec_run (Some (unat cap)) [] (map snd ps) = (aq_content q', rs)" by auto
  moreover have "aq_len q' \<le> unat cap"
    using spec_run_bounded [OF r(3)] r(2) by (simp add: aqi.len_content)
  ultimately show ?thesis using q by blast
qed

theorem aq_run_refines_witness:
  "\<exists>q q' rs. aq_new 2 = Done q \<and>
    run_scripted aq_push_s aq_pop_s q
      [([True, True], Push (7 :: nat)), ([], Push 8), ([True], Push 9), ([True, True, True], Pop), ([], Push 9)] = Done (q', rs) \<and>
    spec_run (Some 2) [] [Push 7, Push 8, Push 9, Pop, Push 9] = (aq_content q', rs) \<and>
    aq_content q' = [8, 9] \<and>
    rs = [Pushed True, Pushed True, Pushed False, Popped (Some 7), Pushed True]"
  using aq_run_refines [of 2 "[([True, True], Push (7 :: nat)), ([], Push 8), ([True], Push 9), ([True, True, True], Pop), ([], Push 9)]"]
  by (auto simp: has_room_def simp del: run_scripted.simps)

text \<open>
  No value is lost, duplicated or leaked: for every run on a new queue, the values accepted by
  push are, in order, the values delivered by pop followed by the values whose destructors run when
  the queue is dropped.
\<close>

theorem aq_drop_accounts:
  assumes "0 < cap" "unat cap < 2 ^ 63" "aq_new cap = Done q"
    and "run_ops (aq_push_s script) (aq_pop_s script) q ps = Done (q', rs)"
  shows "\<exists>dropped. aq_drop True q' = Done dropped \<and> accepted ps rs = delivered rs @ dropped"
proof -
  from aq_new_inv [OF assms(1,2), where ?'a = 'a] assms(3)
  have q: "aq_inv q" "aq_content q = []" by auto
  with aqi.run_refines [OF q(1), of script ps] assms(4) have "aq_inv q'" by simp
  then obtain k h where "aq_repr q' k h (aq_content q')" using aq_inv_repr by blast
  then have "aq_drop True q' = Done (aq_content q')" by (rule aq_drop_content)
  with aqi.run_fifo [OF q(1) assms(4)] q(2) show ?thesis by simp
qed

theorem aq_drop_accounts_witness:
  "\<exists>q q' rs. aq_new 2 = Done q \<and>
    run_ops (aq_push_s [True]) (aq_pop_s [True]) q [Push (7 :: nat), Push 8, Pop] = Done (q', rs) \<and>
    accepted [Push 7, Push 8, Pop] rs = [7, 8] \<and> delivered rs = [7] \<and> aq_drop True q' = Done [8]"
proof -
  from aq_new_inv [of 2] obtain q :: "nat array_queue" where
    q: "aq_new 2 = Done q" "aq_inv q" "aq_content q = []" "aq_cap q = Some 2" by auto
  from aqi.run_refines [OF q(2), of "[True]" "[Push 7, Push 8, Pop]"] q obtain q' rs where
    r: "run_ops (aq_push_s [True]) (aq_pop_s [True]) q [Push 7, Push 8, Pop] = Done (q', rs)"
      "rs = [Pushed True, Pushed True, Popped (Some 7)]"
    by (auto simp: has_room_def simp del: run_ops.simps)
  with aq_drop_accounts [OF _ _ q(1) r(1)] q(1) show ?thesis by auto
qed

text \<open>
  The one-attempt push of the parking path is exact: on a full queue it answers
  \<^verbatim>\<open>Some(false)\<close> and changes nothing; on a queue with room it pushes, unless the compare-exchange
  fails spuriously, and then it answers \<^verbatim>\<open>None\<close> and changes nothing. It never answers full when
  there is room.
\<close>

theorem aq_try_push_oneshot_exact:
  assumes "aq_inv q"
  shows "if length (aq_content q) = aq_capacity q then aq_try_push_oneshot sp q x = Done (q, Some False)
    else if sp then aq_try_push_oneshot sp q x = Done (q, None)
    else \<exists>q'. aq_try_push_oneshot sp q x = Done (q', Some True) \<and> aq_inv q' \<and>
      aq_content q' = aq_content q @ [x]"
proof -
  from aq_inv_repr [OF assms] obtain k h where r: "aq_repr q k h (aq_content q)" by blast
  have full: "aq_head q + aq_one_lap q = aq_tail q \<longleftrightarrow> length (aq_content q) = aq_capacity q"
    using aq_repr_is_full [OF r] by (simp add: aq_is_full_def)
  show ?thesis
  proof (cases "length (aq_content q) = aq_capacity q")
    case True
    with full show ?thesis by (simp add: aq_try_push_oneshot_def)
  next
    case False
    then have room: "length (aq_content q) < aq_capacity q" using aq_reprD(2) [OF r refl] by simp
    from aq_cell_push [OF r room refl refl, of x] False full show ?thesis
      by (auto simp: aq_try_push_oneshot_def Let_def aq_try_push_room [OF r room refl refl]
          dest: aq_repr_inv)
  qed
qed

theorem aq_try_push_oneshot_exact_witness:
  "\<exists>q q'. aq_new 1 = Done q \<and> aq_try_push_oneshot False q (5 :: nat) = Done (q', Some True) \<and>
    aq_content q' = [5]"
  using aq_new_inv [of 1] aq_try_push_oneshot_exact [of _ False "5 :: nat"]
  by (fastforce simp: aq_cap_def)

end
