(* ===== verification/Array_Queue_Spsc.thy ===== *)
theory Array_Queue_Spsc
  imports Ring_Index Fifo_Spec "HOL-Library.Sublist"
begin

unbundle bit_operations_syntax

text \<open>
  The single-producer single-consumer ring buffer, \<^verbatim>\<open>src/src/crossbeam/array_queue_spsc.rs\<close>.

  The queue has no stamps in its slots. The producer owns \<^verbatim>\<open>sender\<close>, which packs the tail and a
  cached copy of the head; the consumer owns \<^verbatim>\<open>recv\<close>, which packs the head and a cached tail. The
  first half translates the operations as calls that run alone and shows that they are a bounded
  list. The second half cuts the calls at their accesses to shared memory and runs producer and
  consumer under every schedule.
\<close>

section \<open>The queue\<close>

text \<open>A slot holds one \<^verbatim>\<open>MaybeUninit\<close> value; \<open>None\<close> when it holds none.\<close>

type_synonym 'a sq_slot = "'a option"

record 'a spsc_queue =
  sq_sender :: u64
  sq_recv :: u64
  sq_buffer :: "'a sq_slot list"
  sq_one_lap :: u32

definition sq_new :: "usize \<Rightarrow> 'a spsc_queue exec" where
  "sq_new cap =
     (if cap = 0 then Fault Panic
      else if \<not> cap < 2 ^ 31 then Fault Panic
      else exec_bind (checked_add cap 1) (\<lambda>n.
        Done \<lparr>sq_sender = pack64 0 0, sq_recv = pack64 0 0, sq_buffer = replicate (unat cap) None,
          sq_one_lap = of_nat (next_power_of_two (unat n))\<rparr>))"

definition sq_capacity :: "'a spsc_queue \<Rightarrow> nat" where
  "sq_capacity q = length (sq_buffer q)"

subsection \<open>Producer side\<close>

definition sq_try_push :: "'a spsc_queue \<Rightarrow> 'a \<Rightarrow> ('a spsc_queue \<times> bool) exec" where
  "sq_try_push q value =
     (let sender_val = sq_sender q; tail = lo64 sender_val; head_cached = hi64 sender_val;
          fresh = (if head_cached + sq_one_lap q = tail
                   then let head = lo64 (sq_recv q) in if head = head_cached then None else Some head
                   else Some head_cached)
      in case fresh of
           None \<Rightarrow> Done (q, False)
         | Some head_cached' \<Rightarrow>
             let index = stamp_index (sq_one_lap q) tail
             in if index < length (sq_buffer q)
                then exec_bind (next_stamp (sq_capacity q) (sq_one_lap q) tail) (\<lambda>new_tail.
                  Done (q\<lparr>sq_buffer := (sq_buffer q)[index := Some value],
                          sq_sender := pack64 head_cached' new_tail\<rparr>, True))
                else Fault OutOfBounds)"

definition sq_push_with_ptr :: "'a spsc_queue \<Rightarrow> 'a \<Rightarrow> ('a spsc_queue \<times> bool) exec" where
  "sq_push_with_ptr q value = sq_try_push q value"

definition sq_push_with_ptr_final :: "'a spsc_queue \<Rightarrow> 'a \<Rightarrow> ('a spsc_queue \<times> bool) exec" where
  "sq_push_with_ptr_final q value = sq_try_push q value"

subsection \<open>Consumer side\<close>

text \<open>\<open>spin\<close> is the const parameter \<^verbatim>\<open>SPIN\<close>: without it a stale cached tail means empty.\<close>

definition sq_start_read_pos :: "bool \<Rightarrow> 'a spsc_queue \<Rightarrow> (u32 \<times> u32) option" where
  "sq_start_read_pos spin q =
     (let recv_val = sq_recv q; head = lo64 recv_val; tail_cached = hi64 recv_val
      in if tail_cached = head
         then if spin
              then let tail = lo64 (sq_sender q) in if head = tail then None else Some (head, tail)
              else None
         else Some (head, tail_cached))"

text \<open>\<open>sq_read_slot\<close> is \<^verbatim>\<open>_read\<close>: the slot at the head and the value of \<^verbatim>\<open>recv\<close> that frees it.\<close>

definition sq_read_slot :: "'a spsc_queue \<Rightarrow> u32 \<Rightarrow> u32 \<Rightarrow> (nat \<times> u64) exec" where
  "sq_read_slot q head tail_cached =
     (let index = stamp_index (sq_one_lap q) head
      in if index < length (sq_buffer q)
         then exec_bind (next_stamp (sq_capacity q) (sq_one_lap q) head) (\<lambda>new_head.
           Done (index, pack64 tail_cached new_head))
         else Fault OutOfBounds)"

definition sq_take :: "'a spsc_queue \<Rightarrow> nat \<Rightarrow> u64 \<Rightarrow> ('a spsc_queue \<times> 'a) exec" where
  "sq_take q index packed_recv =
     (if index < length (sq_buffer q)
      then case sq_buffer q ! index of
          None \<Rightarrow> Fault Uninit
        | Some msg \<Rightarrow> Done (q\<lparr>sq_buffer := (sq_buffer q)[index := None], sq_recv := packed_recv\<rparr>, msg)
      else Fault OutOfBounds)"

definition sq_start_read :: "'a spsc_queue \<Rightarrow> ('a spsc_queue \<times> token option) exec" where
  "sq_start_read q =
     (case sq_start_read_pos True q of
        Some (head, tail_cached) \<Rightarrow>
          exec_map (\<lambda>(slot, packed_recv). (q, Some (token_new slot packed_recv)))
            (sq_read_slot q head tail_cached)
      | None \<Rightarrow> Done (q, None))"

definition sq_pop :: "'a spsc_queue \<Rightarrow> ('a spsc_queue \<times> 'a option) exec" where
  "sq_pop q =
     (case sq_start_read_pos True q of
        Some (head, tail_cached) \<Rightarrow>
          exec_bind (sq_read_slot q head tail_cached) (\<lambda>(slot, packed_recv).
            exec_map (map_prod id Some) (sq_take q slot packed_recv))
      | None \<Rightarrow> Done (q, None))"

definition sq_pop_cached :: "'a spsc_queue \<Rightarrow> ('a spsc_queue \<times> 'a option) exec" where
  "sq_pop_cached q =
     (case sq_start_read_pos False q of
        Some (head, tail_cached) \<Rightarrow>
          exec_bind (sq_read_slot q head tail_cached) (\<lambda>(slot, packed_recv).
            exec_map (map_prod id Some) (sq_take q slot packed_recv))
      | None \<Rightarrow> Done (q, None))"

definition sq_read :: "'a spsc_queue \<Rightarrow> token \<Rightarrow> ('a spsc_queue \<times> 'a) exec" where
  "sq_read q token =
     (case tok_pos token of None \<Rightarrow> Fault OutOfBounds | Some slot \<Rightarrow> sq_take q slot (tok_stamp token))"

subsection \<open>Observers and drop\<close>

definition sq_is_empty :: "'a spsc_queue \<Rightarrow> bool" where
  "sq_is_empty q \<longleftrightarrow> lo64 (sq_sender q) = lo64 (sq_recv q)"

definition sq_is_full :: "'a spsc_queue \<Rightarrow> bool" where
  "sq_is_full q \<longleftrightarrow> lo64 (sq_recv q) + sq_one_lap q = lo64 (sq_sender q)"

definition sq_len_round :: "'a spsc_queue \<Rightarrow> 'a spsc_queue \<Rightarrow> 'a spsc_queue \<Rightarrow> nat option" where
  "sq_len_round q0 q1 q2 =
     (let tail = lo64 (sq_sender q0); head = lo64 (sq_recv q1)
      in if lo64 (sq_sender q2) = tail
         then Some (stamp_len_diff (sq_capacity q0) (sq_one_lap q0) head tail) else None)"

definition sq_len :: "'a spsc_queue \<Rightarrow> nat" where
  "sq_len q = (case sq_len_round q q q of Some n \<Rightarrow> n | None \<Rightarrow> 0)"

definition sq_drop :: "bool \<Rightarrow> 'a spsc_queue \<Rightarrow> 'a list exec" where
  "sq_drop needs_drop q =
     (if needs_drop
      then let head = lo64 (sq_recv q); tail = lo64 (sq_sender q)
        in ring_drop_loop (sq_buffer q) (stamp_index (sq_one_lap q) head)
             [0 ..< stamp_len (sq_capacity q) (sq_one_lap q) head tail]
      else Done [])"

section \<open>The abstraction to a list\<close>

definition sq_cell :: "nat \<Rightarrow> 'a list \<Rightarrow> nat \<Rightarrow> 'a option" where
  "sq_cell h xs p = (if p < h + length xs then Some (xs ! (p - h)) else None)"

text \<open>
  Head position \<open>h\<close>, content \<open>xs\<close>, cached head \<open>hc\<close> and cached tail \<open>tc\<close>: the cached head is not
  ahead of the head and not more than a buffer behind the tail, the cached tail lies between head and
  tail.
\<close>

definition sq_repr :: "'a spsc_queue \<Rightarrow> nat \<Rightarrow> nat \<Rightarrow> 'a list \<Rightarrow> nat \<Rightarrow> nat \<Rightarrow> bool" where
  "sq_repr q k h xs hc tc \<longleftrightarrow>
     (let C = sq_capacity q
      in ring_ok TYPE(32) C k \<and> sq_one_lap q = 2 ^ k \<and>
         hc \<le> h \<and> h + length xs \<le> hc + C \<and> h \<le> tc \<and> tc \<le> h + length xs \<and>
         sq_sender q = pack64 (stamp_of C k hc) (stamp_of C k (h + length xs)) \<and>
         sq_recv q = pack64 (stamp_of C k tc) (stamp_of C k h) \<and>
         ring_buf (sq_cell h xs) (sq_buffer q) h)"

definition sq_inv :: "'a spsc_queue \<Rightarrow> bool" where
  "sq_inv q \<longleftrightarrow> (\<exists>k h xs hc tc. sq_repr q k h xs hc tc)"

definition sq_content :: "'a spsc_queue \<Rightarrow> 'a list" where
  "sq_content q =
     map (\<lambda>i. the (sq_buffer q ! ((stamp_index (sq_one_lap q) (lo64 (sq_recv q)) + i) mod sq_capacity q)))
       [0 ..< sq_len q]"

lemma sq_reprD:
  assumes "sq_repr q k h xs hc tc" "C = sq_capacity q"
  shows "ring_ok TYPE(32) C k" "0 < C" "length (sq_buffer q) = C" "sq_one_lap q = 2 ^ k"
    "hc \<le> h" "h + length xs \<le> hc + C" "h \<le> tc" "tc \<le> h + length xs"
    "sq_sender q = pack64 (stamp_of C k hc) (stamp_of C k (h + length xs))"
    "sq_recv q = pack64 (stamp_of C k tc) (stamp_of C k h)"
    "ring_buf (sq_cell h xs) (sq_buffer q) h" "length xs \<le> C"
  using assms by (auto simp: sq_repr_def Let_def sq_capacity_def dest: ring_okD)

lemma sq_slot_at:
  assumes "sq_repr q k h xs hc tc" "h \<le> p" "p < h + sq_capacity q"
  shows "sq_buffer q ! (p mod sq_capacity q) = sq_cell h xs p"
  using ring_bufD [OF sq_reprD(11) [OF assms(1) refl]] assms(2,3) by (simp add: sq_capacity_def)

lemma sq_repr_len: "sq_repr q k h xs hc tc \<Longrightarrow> sq_len q = length xs"
  by (simp add: sq_len_def sq_len_round_def Let_def sq_reprD stamp_len_diff_stamp_of)

lemma sq_repr_content:
  assumes "sq_repr q k h xs hc tc"
  shows "sq_content q = xs"
proof (rule nth_equalityI)
  show "length (sq_content q) = length xs" using assms by (simp add: sq_content_def sq_repr_len)
next
  fix i assume "i < length (sq_content q)"
  then have i: "i < length xs" using assms by (simp add: sq_content_def sq_repr_len)
  moreover have "(h mod sq_capacity q + i) mod sq_capacity q = (h + i) mod sq_capacity q"
    by (simp add: mod_simps)
  ultimately show "sq_content q ! i = xs ! i"
    using sq_slot_at [OF assms, of "h + i"] sq_reprD [OF assms refl] assms
    by (simp add: sq_content_def sq_repr_len sq_cell_def)
qed

lemma sq_repr_inv: "sq_repr q k h xs hc tc \<Longrightarrow> sq_inv q \<and> sq_content q = xs"
  using sq_inv_def sq_repr_content by blast

lemma sq_inv_repr: "sq_inv q \<Longrightarrow> \<exists>k h hc tc. sq_repr q k h (sq_content q) hc tc"
  unfolding sq_inv_def using sq_repr_content by blast

lemma sq_capacity_update [simp]:
  "sq_capacity (q\<lparr>sq_sender := v\<rparr>) = sq_capacity q"
  "sq_capacity (q\<lparr>sq_recv := v\<rparr>) = sq_capacity q"
  "sq_capacity (q\<lparr>sq_buffer := b\<rparr>) = length b"
  "sq_capacity (q\<lparr>sq_buffer := b, sq_sender := v\<rparr>) = length b"
  "sq_capacity (q\<lparr>sq_buffer := b, sq_recv := v\<rparr>) = length b"
  by (simp_all add: sq_capacity_def)

section \<open>Calls that run alone\<close>

lemma sq_new_repr:
  assumes "0 < cap" "cap < 2 ^ 31"
  shows "\<exists>q k. sq_new cap = Done q \<and> sq_repr q k 0 [] 0 0 \<and> sq_capacity q = unat cap"
proof -
  let ?C = "unat cap" and ?L = "next_power_of_two (unat cap + 1)"
  from ring_ok_new32(1) [OF assms] obtain k where k: "?L = 2 ^ k" "ring_ok TYPE(32) ?C k" by blast
  note add = ring_ok_new32(2,3) [OF assms]
  let ?q = "\<lparr>sq_sender = pack64 0 0, sq_recv = pack64 0 0, sq_buffer = replicate ?C None,
    sq_one_lap = of_nat ?L\<rparr>"
  have "sq_new cap = Done ?q" using assms add by (auto simp: sq_new_def)
  moreover have "ring_buf (sq_cell 0 []) (sq_buffer ?q) 0"
    by (simp add: ring_buf_def sq_cell_def)
  then have "sq_repr ?q k 0 [] 0 0"
    using k by (simp add: sq_repr_def Let_def sq_capacity_def stamp_of_def)
  ultimately show ?thesis by (auto simp: sq_capacity_def)
qed

lemma sq_push_room:
  assumes r0: "sq_repr q k h xs hc tc" and "length xs < sq_capacity q"
  shows "\<exists>q' hc'. sq_try_push q x = Done (q', True) \<and> sq_repr q' k h (xs @ [x]) hc' tc \<and>
    sq_capacity q' = sq_capacity q"
proof -
  let ?C = "sq_capacity q" and ?t = "h + length xs"
  note r = sq_reprD [OF r0 refl]
  define hc' where "hc' = (if ?t = hc + ?C then h else hc)"
  have full: "(stamp_of ?C k hc :: u32) + 2 ^ k = stamp_of ?C k ?t \<longleftrightarrow> ?t = hc + ?C"
    using stamp_of_full_iff [OF r(1), of hc ?t] r(5,6) by simp
  have neq: "?t = hc + ?C \<Longrightarrow> (stamp_of ?C k h :: u32) \<noteq> stamp_of ?C k hc"
    using stamp_of_eq_iff [OF r(1), of hc h] r(5,6,12) assms(2) by auto
  let ?b = "(sq_buffer q)[?t mod ?C := Some x]"
  let ?q = "q\<lparr>sq_buffer := ?b, sq_sender := pack64 (stamp_of ?C k hc') (stamp_of ?C k (Suc ?t))\<rparr>"
  have "?t mod ?C < ?C" using r(2) by simp
  then have "sq_try_push q x = Done (?q, True)"
    using r full neq by (simp add: sq_try_push_def Let_def hc'_def)
  moreover have "ring_buf ((sq_cell h xs)(?t := Some x)) ?b h"
    using ring_buf_update [OF r(11), of ?t] r(3) assms(2) by simp
  then have "ring_buf (sq_cell h (xs @ [x])) ?b h"
    by (rule ring_buf_cong) (auto simp: sq_cell_def nth_append)
  then have "sq_repr ?q k h (xs @ [x]) hc' tc"
    using r assms(2) by (auto simp: sq_repr_def Let_def hc'_def)
  ultimately show ?thesis using r(3) by auto
qed

lemma sq_push_full:
  assumes r0: "sq_repr q k h xs hc tc" and "length xs = sq_capacity q"
  shows "sq_try_push q x = Done (q, False)"
proof -
  note r = sq_reprD [OF r0 refl]
  have "hc = h" using r(5,6) assms(2) by simp
  with r stamp_of_full_iff [OF r(1), of h "h + length xs"] assms(2) show ?thesis
    by (simp add: sq_try_push_def Let_def)
qed

text \<open>Taking the head out, with any cached tail between the new head and the tail.\<close>

lemma sq_take_head:
  assumes r0: "sq_repr q k h (x # xs) hc tc" and "h < tc'" "tc' \<le> h + length (x # xs)"
    and "C = sq_capacity q"
  shows "\<exists>q'. sq_take q (h mod C) (pack64 (stamp_of C k tc') (stamp_of C k (Suc h))) = Done (q', x) \<and>
    sq_repr q' k (Suc h) xs hc tc' \<and> sq_capacity q' = C"
proof -
  note r = sq_reprD [OF r0 assms(4)]
  let ?b = "(sq_buffer q)[h mod C := None]"
  let ?q = "q\<lparr>sq_buffer := ?b, sq_recv := pack64 (stamp_of C k tc') (stamp_of C k (Suc h))\<rparr>"
  have "sq_buffer q ! (h mod C) = Some x"
    using sq_slot_at [OF r0, of h] r(2) assms(4) by (simp add: sq_cell_def)
  moreover have "h mod C < C" using r(2) by simp
  ultimately have "sq_take q (h mod C) (pack64 (stamp_of C k tc') (stamp_of C k (Suc h))) = Done (?q, x)"
    using r(3) by (simp add: sq_take_def)
  moreover have "ring_buf ((sq_cell h (x # xs))(h := None)) ?b h"
    using ring_buf_update [OF r(11), of h None] r(2,3) by simp
  from ring_buf_advance [OF this] r(2,3)
  have "ring_buf ((sq_cell h (x # xs))(h := None, h + C := None)) ?b (Suc h)" by simp
  then have "ring_buf (sq_cell (Suc h) xs) ?b (Suc h)"
    by (rule ring_buf_cong) (use r(12) in \<open>auto simp: sq_cell_def nth_Cons'\<close>)
  then have "sq_repr ?q k (Suc h) xs hc tc'"
    using r(1-9) assms(2,3) by (simp add: sq_repr_def Let_def)
  ultimately show ?thesis using r(3) by auto
qed

lemma sq_read_slot_head:
  assumes "sq_repr q k h xs hc tc" "C = sq_capacity q"
  shows "sq_read_slot q (stamp_of C k h) w = Done (h mod C, pack64 w (stamp_of C k (Suc h)))"
proof -
  note r = sq_reprD [OF assms]
  have "h mod C < C" using r(2) by simp
  with r assms(2) show ?thesis by (simp add: sq_read_slot_def Let_def)
qed

lemma sq_start_read_pos_cases:
  assumes r0: "sq_repr q k h xs hc tc" and "C = sq_capacity q"
  shows "sq_start_read_pos spin q =
    (if h < tc then Some (stamp_of C k h, stamp_of C k tc)
     else if spin \<and> xs \<noteq> [] then Some (stamp_of C k h, stamp_of C k (h + length xs))
     else None)"
proof -
  note r = sq_reprD [OF assms]
  have "(stamp_of C k h :: u32) = stamp_of C k tc \<longleftrightarrow> h = tc"
    and "(stamp_of C k h :: u32) = stamp_of C k (h + length xs) \<longleftrightarrow> xs = []"
    using stamp_of_eq_iff [OF r(1), of h tc] stamp_of_eq_iff [OF r(1), of h "h + length xs"] r(7,8,12)
    by simp_all
  moreover have "h < tc \<longleftrightarrow> h \<noteq> tc" using r(7) by (auto simp: less_le)
  ultimately show ?thesis by (simp add: sq_start_read_pos_def Let_def r(9,10) eq_commute)
qed

lemma sq_pop_some:
  assumes r0: "sq_repr q k h (x # xs) hc tc"
  shows "\<exists>q' tc'. sq_pop q = Done (q', Some x) \<and> sq_repr q' k (Suc h) xs hc tc' \<and>
    sq_capacity q' = sq_capacity q"
proof -
  note r = sq_reprD [OF r0 refl]
  define tc' where "tc' = (if h < tc then tc else h + length (x # xs))"
  have "h < tc'" "tc' \<le> h + length (x # xs)" using r(8) by (auto simp: tc'_def)
  from sq_take_head [OF r0 this refl] show ?thesis
    by (auto simp: sq_pop_def sq_start_read_pos_cases [OF r0 refl] sq_read_slot_head [OF r0 refl]
        tc'_def split: if_splits)
qed

lemma sq_pop_none: "sq_repr q k h [] hc tc \<Longrightarrow> sq_pop q = Done (q, None)"
  using sq_reprD(8) [of q k h "[]" hc tc, OF _ refl]
  by (simp add: sq_pop_def sq_start_read_pos_cases [OF _ refl])

lemma sq_pop_cached_cases:
  assumes r0: "sq_repr q k h xs hc tc"
  shows "if h < tc then \<exists>q'. sq_pop_cached q = Done (q', Some (hd xs)) \<and>
      sq_repr q' k (Suc h) (tl xs) hc tc \<and> sq_capacity q' = sq_capacity q
    else sq_pop_cached q = Done (q, None)"
proof (cases "h < tc")
  case True
  with sq_reprD(8) [OF r0 refl] obtain x ys where xs: "xs = x # ys" by (cases xs) auto
  from sq_take_head [OF r0 [unfolded xs] True _ refl] sq_reprD(8) [OF r0 refl] True xs show ?thesis
    by (auto simp: sq_pop_cached_def sq_start_read_pos_cases [OF r0 refl] sq_read_slot_head [OF r0 refl])
next
  case False
  then show ?thesis by (simp add: sq_pop_cached_def sq_start_read_pos_cases [OF r0 refl])
qed

lemma sq_pop_eq_start_read:
  "sq_pop q =
     exec_bind (sq_start_read q) (\<lambda>(q', t).
       case t of Some tok \<Rightarrow> exec_map (map_prod id Some) (sq_read q' tok) | None \<Rightarrow> Done (q', None))"
proof (cases "sq_start_read_pos True q")
  case None
  then show ?thesis by (simp add: sq_pop_def sq_start_read_def)
next
  case (Some p)
  then show ?thesis
    by (cases p; cases "sq_read_slot q (fst p) (snd p)")
      (auto simp: sq_pop_def sq_start_read_def sq_read_def token_new_def)
qed

lemma sq_repr_is_empty: "sq_repr q k h xs hc tc \<Longrightarrow> sq_is_empty q \<longleftrightarrow> xs = []"
  using stamp_of_eq_iff [OF sq_reprD(1) [OF _ refl], of q k h xs hc tc h "h + length xs"]
  by (auto simp: sq_is_empty_def sq_reprD)

lemma sq_repr_is_full: "sq_repr q k h xs hc tc \<Longrightarrow> sq_is_full q \<longleftrightarrow> length xs = sq_capacity q"
  using stamp_of_full_iff [OF sq_reprD(1) [OF _ refl], of q k h xs hc tc h "h + length xs"]
  by (auto simp: sq_is_full_def sq_reprD)

lemma sq_drop_content:
  assumes r0: "sq_repr q k h xs hc tc"
  shows "sq_drop True q = Done xs"
proof -
  note r = sq_reprD [OF r0 refl]
  have "ring_drop_loop (sq_buffer q) (h mod length (sq_buffer q)) [0 ..< length xs] =
      Done (map (nth xs) [0 ..< length xs])"
    using sq_slot_at [OF r0] r(3,12)
    by (intro ring_drop_loop_content) (auto simp: sq_cell_def)
  then show ?thesis using r
    by (simp add: sq_drop_def Let_def stamp_len_stamp_of map_nth)
qed

definition sq_cap :: "'a spsc_queue \<Rightarrow> nat option" where
  "sq_cap q = Some (sq_capacity q)"

interpretation sqi: fifo_obs sq_cap sq_push_with_ptr sq_pop sq_inv sq_content sq_len sq_is_empty sq_is_full
proof (unfold_locales, goal_cases)
  case (1 q x)
  then obtain k h hc tc where r: "sq_repr q k h (sq_content q) hc tc" using sq_inv_repr by blast
  from 1(2) have "length (sq_content q) < sq_capacity q" by (simp add: has_room_def sq_cap_def)
  from sq_push_room [OF r this, of x] show ?case
    by (auto simp: sq_push_with_ptr_def sq_cap_def dest: sq_repr_inv)
next
  case (2 q x)
  then obtain k h hc tc where r: "sq_repr q k h (sq_content q) hc tc" using sq_inv_repr by blast
  with 2(2) have "length (sq_content q) = sq_capacity q"
    using sq_reprD(12) [OF r refl] by (simp add: has_room_def sq_cap_def)
  from sq_push_full [OF r this] 2(1) show ?case by (auto simp: sq_push_with_ptr_def)
next
  case (3 q x xs)
  then obtain k h hc tc where "sq_repr q k h (x # xs) hc tc" using sq_inv_repr by metis
  from sq_pop_some [OF this] show ?case by (auto simp: sq_cap_def dest: sq_repr_inv)
next
  case (4 q)
  then obtain k h hc tc where "sq_repr q k h [] hc tc" using sq_inv_repr by metis
  from sq_pop_none [OF this] 4 show ?case by auto
next
  case (5 q)
  then show ?case using sq_repr_len sq_inv_repr by blast
next
  case (6 q)
  then show ?case using sq_repr_is_empty sq_inv_repr by blast
next
  case (7 q)
  then obtain k h hc tc where "sq_repr q k h (sq_content q) hc tc" using sq_inv_repr by blast
  with sq_repr_is_full [OF this] sq_reprD(12) [OF this refl] show ?case
    by (auto simp: has_room_def sq_cap_def)
qed

section \<open>Producer and consumer under every schedule\<close>

text \<open>
  The calls cut at their accesses to the other side's memory. The producer is about to call
  (\<open>PIdle\<close>), found its cached head a lap behind and will load \<^verbatim>\<open>recv\<close> (\<open>PCheck\<close>), will write the slot
  (\<open>PWrite\<close>), or has written it and will store \<^verbatim>\<open>sender\<close> (\<open>PStore\<close>). The consumer is about to call
  (\<open>CIdle\<close>), found its cached tail at the head and will load \<^verbatim>\<open>sender\<close> (\<open>CCheck\<close>), will move the
  value out of the slot (\<open>CRead\<close>: after \<^verbatim>\<open>start_read\<close> a select may hold this token), or has moved it
  out and will store \<^verbatim>\<open>recv\<close> (\<open>CStore\<close>). \<open>sy_sent\<close> and \<open>sy_recvd\<close> record the completed pushes and
  pops.
\<close>

datatype 'a sq_ppc = PIdle | PCheck 'a u32 u32 | PWrite 'a u32 u32 | PStore 'a u32 u32

datatype 'a sq_cpc = CIdle | CCheck u32 | CRead u32 u32 | CStore 'a u64

record 'a sq_sys =
  sy_q :: "'a spsc_queue"
  sy_p :: "'a sq_ppc"
  sy_c :: "'a sq_cpc"
  sy_sent :: "'a list"
  sy_recvd :: "'a list"

definition sq_pstep :: "'a \<Rightarrow> 'a sq_sys \<Rightarrow> 'a sq_sys exec" where
  "sq_pstep value s =
     (let q = sy_q s
      in case sy_p s of
           PIdle \<Rightarrow>
             let tail = lo64 (sq_sender q); head_cached = hi64 (sq_sender q)
             in Done (s\<lparr>sy_p := (if head_cached + sq_one_lap q = tail
                                then PCheck value tail head_cached
                                else PWrite value tail head_cached)\<rparr>)
         | PCheck v tail head_cached \<Rightarrow>
             let head = lo64 (sq_recv q)
             in Done (s\<lparr>sy_p := (if head = head_cached then PIdle else PWrite v tail head)\<rparr>)
         | PWrite v tail head_cached \<Rightarrow>
             let index = stamp_index (sq_one_lap q) tail
             in if index < length (sq_buffer q)
                then exec_bind (next_stamp (sq_capacity q) (sq_one_lap q) tail) (\<lambda>new_tail.
                  Done (s\<lparr>sy_q := q\<lparr>sq_buffer := (sq_buffer q)[index := Some v]\<rparr>,
                          sy_p := PStore v head_cached new_tail\<rparr>))
                else Fault OutOfBounds
         | PStore v head_cached new_tail \<Rightarrow>
             Done (s\<lparr>sy_q := q\<lparr>sq_sender := pack64 head_cached new_tail\<rparr>, sy_p := PIdle,
                     sy_sent := sy_sent s @ [v]\<rparr>))"

definition sq_cstep :: "bool \<Rightarrow> 'a sq_sys \<Rightarrow> 'a sq_sys exec" where
  "sq_cstep spin s =
     (let q = sy_q s
      in case sy_c s of
           CIdle \<Rightarrow>
             let head = lo64 (sq_recv q); tail_cached = hi64 (sq_recv q)
             in Done (s\<lparr>sy_c := (if tail_cached = head then if spin then CCheck head else CIdle
                                else CRead head tail_cached)\<rparr>)
         | CCheck head \<Rightarrow>
             let tail = lo64 (sq_sender q)
             in Done (s\<lparr>sy_c := (if head = tail then CIdle else CRead head tail)\<rparr>)
         | CRead head tail_cached \<Rightarrow>
             exec_bind (sq_read_slot q head tail_cached) (\<lambda>(index, packed_recv).
               case sq_buffer q ! index of
                 None \<Rightarrow> Fault Uninit
               | Some msg \<Rightarrow> Done (s\<lparr>sy_q := q\<lparr>sq_buffer := (sq_buffer q)[index := None]\<rparr>,
                                     sy_c := CStore msg packed_recv\<rparr>))
         | CStore msg packed_recv \<Rightarrow>
             Done (s\<lparr>sy_q := q\<lparr>sq_recv := packed_recv\<rparr>, sy_c := CIdle,
                     sy_recvd := sy_recvd s @ [msg]\<rparr>))"

text \<open>A schedule names who moves next; an idle producer is given the value to push.\<close>

datatype 'a sq_turn = Producer 'a | Consumer bool

fun sq_turn_step :: "'a sq_turn \<Rightarrow> 'a sq_sys \<Rightarrow> 'a sq_sys exec" where
  "sq_turn_step (Producer v) s = sq_pstep v s"
| "sq_turn_step (Consumer spin) s = sq_cstep spin s"

fun sq_run :: "'a sq_turn list \<Rightarrow> 'a sq_sys \<Rightarrow> 'a sq_sys exec" where
  "sq_run [] s = Done s"
| "sq_run (t # ts) s = exec_bind (sq_turn_step t s) (sq_run ts)"

definition sq_start :: "'a spsc_queue \<Rightarrow> 'a sq_sys" where
  "sq_start q = \<lparr>sy_q = q, sy_p = PIdle, sy_c = CIdle, sy_sent = [], sy_recvd = []\<rparr>"

text \<open>
  The invariant: with \<open>t\<close> pushes and \<open>h\<close> pops completed, each side's registers hold stamps of
  positions that the other side can only move away from.
\<close>

fun sq_p_ok :: "nat \<Rightarrow> nat \<Rightarrow> nat \<Rightarrow> nat \<Rightarrow> nat \<Rightarrow> 'a sq_ppc \<Rightarrow> bool" where
  "sq_p_ok C k hc h t PIdle = True"
| "sq_p_ok C k hc h t (PCheck v tp w) \<longleftrightarrow> tp = stamp_of C k t \<and> w = stamp_of C k hc \<and> t = hc + C"
| "sq_p_ok C k hc h t (PWrite v tp w) \<longleftrightarrow>
     tp = stamp_of C k t \<and> (\<exists>p. w = stamp_of C k p \<and> hc \<le> p \<and> p \<le> h \<and> t < p + C)"
| "sq_p_ok C k hc h t (PStore v w nt) \<longleftrightarrow>
     nt = stamp_of C k (Suc t) \<and> (\<exists>p. w = stamp_of C k p \<and> hc \<le> p \<and> p \<le> h \<and> t < p + C)"

fun sq_c_ok :: "nat \<Rightarrow> nat \<Rightarrow> 'a list \<Rightarrow> nat \<Rightarrow> 'a sq_cpc \<Rightarrow> bool" where
  "sq_c_ok C k sent h CIdle = True"
| "sq_c_ok C k sent h (CCheck hp) \<longleftrightarrow> hp = stamp_of C k h"
| "sq_c_ok C k sent h (CRead hp w) \<longleftrightarrow>
     hp = stamp_of C k h \<and> (\<exists>p. w = stamp_of C k p \<and> h < p \<and> p \<le> length sent)"
| "sq_c_ok C k sent h (CStore v w) \<longleftrightarrow>
     v = sent ! h \<and> (\<exists>p. w = pack64 (stamp_of C k p) (stamp_of C k (Suc h)) \<and> h < p \<and> p \<le> length sent)"

fun sq_pending :: "'a sq_ppc \<Rightarrow> 'a option" where
  "sq_pending (PStore v w nt) = Some v"
| "sq_pending _ = None"

fun sq_moved_out :: "'a sq_cpc \<Rightarrow> bool" where
  "sq_moved_out (CStore v w) = True"
| "sq_moved_out _ = False"

definition sq_sys_cell :: "'a list \<Rightarrow> nat \<Rightarrow> 'a option \<Rightarrow> bool \<Rightarrow> nat \<Rightarrow> 'a option" where
  "sq_sys_cell sent h pending moved p =
     (if p < length sent then if p = h \<and> moved then None else Some (sent ! p)
      else if p = length sent then pending else None)"

definition sq_sys_rel :: "nat \<Rightarrow> nat \<Rightarrow> nat \<Rightarrow> nat \<Rightarrow> 'a sq_sys \<Rightarrow> bool" where
  "sq_sys_rel C k hc tc s \<longleftrightarrow>
     (let q = sy_q s; h = length (sy_recvd s); t = length (sy_sent s)
      in ring_ok TYPE(32) C k \<and> length (sq_buffer q) = C \<and> sq_one_lap q = 2 ^ k \<and>
         hc \<le> h \<and> h \<le> t \<and> t \<le> hc + C \<and> h \<le> tc \<and> tc \<le> t \<and>
         sq_sender q = pack64 (stamp_of C k hc) (stamp_of C k t) \<and>
         sq_recv q = pack64 (stamp_of C k tc) (stamp_of C k h) \<and>
         sy_recvd s = take h (sy_sent s) \<and>
         sq_p_ok C k hc h t (sy_p s) \<and> sq_c_ok C k (sy_sent s) h (sy_c s) \<and>
         ring_buf (sq_sys_cell (sy_sent s) h (sq_pending (sy_p s)) (sq_moved_out (sy_c s))) (sq_buffer q) h)"

definition sq_sys_inv :: "nat \<Rightarrow> nat \<Rightarrow> 'a sq_sys \<Rightarrow> bool" where
  "sq_sys_inv C k s \<longleftrightarrow> (\<exists>hc tc. sq_sys_rel C k hc tc s)"

lemma sq_sys_relD:
  assumes "sq_sys_rel C k hc tc s" "h = length (sy_recvd s)" "t = length (sy_sent s)"
  shows "ring_ok TYPE(32) C k" "0 < C" "length (sq_buffer (sy_q s)) = C" "sq_one_lap (sy_q s) = 2 ^ k"
    "hc \<le> h" "h \<le> t" "t \<le> hc + C" "h \<le> tc" "tc \<le> t" "t \<le> h + C"
    "sq_sender (sy_q s) = pack64 (stamp_of C k hc) (stamp_of C k t)"
    "sq_recv (sy_q s) = pack64 (stamp_of C k tc) (stamp_of C k h)"
    "sy_recvd s = take h (sy_sent s)"
    "sq_p_ok C k hc h t (sy_p s)" "sq_c_ok C k (sy_sent s) h (sy_c s)"
    "ring_buf (sq_sys_cell (sy_sent s) h (sq_pending (sy_p s)) (sq_moved_out (sy_c s)))
       (sq_buffer (sy_q s)) h"
    "sq_capacity (sy_q s) = C"
  using assms by (auto simp: sq_sys_rel_def Let_def sq_capacity_def dest: ring_okD)

lemma sq_c_ok_append: "sq_c_ok C k sent h c \<Longrightarrow> h \<le> length sent \<Longrightarrow> sq_c_ok C k (sent @ [v]) h c"
  by (cases c) (auto simp: nth_append)

lemma sq_p_ok_mono: "sq_p_ok C k hc h t p \<Longrightarrow> h \<le> h' \<Longrightarrow> sq_p_ok C k hc h' t p"
  by (cases p) (auto intro: order_trans)

lemma sq_rel_p:
  assumes "sq_sys_rel C k hc tc s" "sq_pending pc = sq_pending (sy_p s)"
    and "sq_p_ok C k hc (length (sy_recvd s)) (length (sy_sent s)) pc"
  shows "sq_sys_inv C k (s\<lparr>sy_p := pc\<rparr>)"
proof -
  have "sq_sys_rel C k hc tc (s\<lparr>sy_p := pc\<rparr>)" using assms by (simp add: sq_sys_rel_def Let_def)
  then show ?thesis by (auto simp: sq_sys_inv_def)
qed

lemma sq_rel_c:
  assumes "sq_sys_rel C k hc tc s" "sq_moved_out pc = sq_moved_out (sy_c s)"
    and "sq_c_ok C k (sy_sent s) (length (sy_recvd s)) pc"
  shows "sq_sys_inv C k (s\<lparr>sy_c := pc\<rparr>)"
proof -
  have "sq_sys_rel C k hc tc (s\<lparr>sy_c := pc\<rparr>)" using assms by (simp add: sq_sys_rel_def Let_def)
  then show ?thesis by (auto simp: sq_sys_inv_def)
qed

lemma sq_pstep_inv:
  assumes inv: "sq_sys_inv C k s"
  shows "\<exists>s'. sq_pstep value s = Done s' \<and> sq_sys_inv C k s'"
proof -
  from inv obtain hc tc where rel: "sq_sys_rel C k hc tc s" by (auto simp: sq_sys_inv_def)
  define h t where "h = length (sy_recvd s)" and "t = length (sy_sent s)"
  note r = sq_sys_relD [OF rel h_def t_def]
  have full: "(stamp_of C k hc :: u32) + 2 ^ k = stamp_of C k t \<longleftrightarrow> t = hc + C"
    using stamp_of_full_iff [OF r(1), of hc t] r(5-7) by simp
  have eq: "(stamp_of C k h :: u32) = stamp_of C k hc \<longleftrightarrow> h = hc"
    using stamp_of_eq_iff [OF r(1), of hc h] r(5-7) by auto
  show ?thesis
  proof (cases "sy_p s")
    case PIdle
    let ?pc = "if t = hc + C then PCheck value (stamp_of C k t) (stamp_of C k hc)
      else PWrite value (stamp_of C k t) (stamp_of C k hc)"
    from PIdle r(4,11) full have "sq_pstep value s = Done (s\<lparr>sy_p := ?pc\<rparr>)"
      by (simp add: sq_pstep_def Let_def)
    moreover have "sq_sys_inv C k (s\<lparr>sy_p := ?pc\<rparr>)"
      using PIdle r(5,7) by (intro sq_rel_p [OF rel]) (auto simp flip: h_def t_def)
    ultimately show ?thesis by blast
  next
    case (PCheck v tp w)
    let ?pc = "if h = hc then PIdle else PWrite v tp (stamp_of C k h)"
    from PCheck r(12,14) eq have "sq_pstep value s = Done (s\<lparr>sy_p := ?pc\<rparr>)"
      by (simp add: sq_pstep_def Let_def)
    moreover have "sq_sys_inv C k (s\<lparr>sy_p := ?pc\<rparr>)"
      using PCheck r(5,14) by (intro sq_rel_p [OF rel]) (auto simp flip: h_def t_def)
    ultimately show ?thesis by blast
  next
    case (PWrite v tp w)
    with r(14) obtain p where p: "tp = stamp_of C k t" "w = stamp_of C k p" "hc \<le> p" "p \<le> h" "t < p + C"
      by auto
    let ?b = "(sq_buffer (sy_q s))[t mod C := Some v]"
    have "t mod C < C" using r(2) by simp
    with PWrite p r(1,3,4,17) have step: "sq_pstep value s =
        Done (s\<lparr>sy_q := (sy_q s)\<lparr>sq_buffer := ?b\<rparr>, sy_p := PStore v w (stamp_of C k (Suc t))\<rparr>)"
      by (simp add: sq_pstep_def Let_def)
    have "ring_buf ((sq_sys_cell (sy_sent s) h None (sq_moved_out (sy_c s)))(t := Some v)) ?b h"
      using ring_buf_update [OF r(16), of t "Some v"] r(3,6) p PWrite by simp
    then have "ring_buf (sq_sys_cell (sy_sent s) h (Some v) (sq_moved_out (sy_c s))) ?b h"
      by (rule ring_buf_cong) (auto simp: sq_sys_cell_def t_def)
    then have "sq_sys_rel C k hc tc
        (s\<lparr>sy_q := (sy_q s)\<lparr>sq_buffer := ?b\<rparr>, sy_p := PStore v w (stamp_of C k (Suc t))\<rparr>)"
      using r p by (auto simp: sq_sys_rel_def Let_def simp flip: h_def t_def)
    with step show ?thesis by (auto simp: sq_sys_inv_def)
  next
    case (PStore v w nt)
    with r(14) obtain p where p: "nt = stamp_of C k (Suc t)" "w = stamp_of C k p" "hc \<le> p" "p \<le> h" "t < p + C"
      by auto
    have moved: "sq_moved_out (sy_c s) \<Longrightarrow> h < t" using r(15) by (cases "sy_c s") (auto simp: t_def)
    have "ring_buf (sq_sys_cell (sy_sent s @ [v]) h None (sq_moved_out (sy_c s))) (sq_buffer (sy_q s)) h"
      using r(16) by (rule ring_buf_cong)
        (use PStore p r(6) moved in \<open>auto simp: sq_sys_cell_def nth_append t_def\<close>)
    moreover have "sy_recvd s = take h (sy_sent s @ [v])" using r(6,13) by (simp add: t_def)
    ultimately have "sq_sys_rel C k p tc (s\<lparr>sy_q := (sy_q s)\<lparr>sq_sender := pack64 w nt\<rparr>, sy_p := PIdle,
        sy_sent := sy_sent s @ [v]\<rparr>)"
      using r p sq_c_ok_append [OF r(15), of v] by (auto simp: sq_sys_rel_def Let_def simp flip: h_def t_def)
    with PStore show ?thesis by (auto simp: sq_pstep_def Let_def sq_sys_inv_def)
  qed
qed

lemma sq_cstep_inv:
  assumes inv: "sq_sys_inv C k s"
  shows "\<exists>s'. sq_cstep spin s = Done s' \<and> sq_sys_inv C k s'"
proof -
  from inv obtain hc tc where rel: "sq_sys_rel C k hc tc s" by (auto simp: sq_sys_inv_def)
  define h t where "h = length (sy_recvd s)" and "t = length (sy_sent s)"
  note r = sq_sys_relD [OF rel h_def t_def]
  have eqc: "(stamp_of C k tc :: u32) = stamp_of C k h \<longleftrightarrow> tc = h"
    and eqt: "(stamp_of C k h :: u32) = stamp_of C k t \<longleftrightarrow> h = t"
    using stamp_of_eq_iff [OF r(1), of h tc] stamp_of_eq_iff [OF r(1), of h t] r(6-10) by auto
  show ?thesis
  proof (cases "sy_c s")
    case CIdle
    let ?pc = "if tc = h then if spin then CCheck (stamp_of C k h) else CIdle
      else CRead (stamp_of C k h) (stamp_of C k tc)"
    from CIdle r(12) eqc have "sq_cstep spin s = Done (s\<lparr>sy_c := ?pc\<rparr>)"
      by (simp add: sq_cstep_def Let_def)
    moreover have "sq_sys_inv C k (s\<lparr>sy_c := ?pc\<rparr>)"
      using CIdle r(8,9) by (intro sq_rel_c [OF rel]) (auto simp flip: h_def t_def intro!: exI [of _ tc])
    ultimately show ?thesis by blast
  next
    case (CCheck hp)
    let ?pc = "if h = t then CIdle else CRead (stamp_of C k h) (stamp_of C k t)"
    from CCheck r(11,15) eqt have "sq_cstep spin s = Done (s\<lparr>sy_c := ?pc\<rparr>)"
      by (simp add: sq_cstep_def Let_def)
    moreover have "sq_sys_inv C k (s\<lparr>sy_c := ?pc\<rparr>)"
      using CCheck r(6) by (intro sq_rel_c [OF rel]) (auto simp flip: h_def t_def intro!: exI [of _ t])
    ultimately show ?thesis by blast
  next
    case (CRead hp w)
    with r(15) obtain p where p: "hp = stamp_of C k h" "w = stamp_of C k p" "h < p" "p \<le> t"
      by (auto simp: t_def)
    let ?b = "(sq_buffer (sy_q s))[h mod C := None]"
    have "h mod C < C" using r(2) by simp
    then have slot: "sq_read_slot (sy_q s) hp w = Done (h mod C, pack64 w (stamp_of C k (Suc h)))"
      using r(1,3,4,17) p(1) by (simp add: sq_read_slot_def Let_def)
    have "sq_buffer (sy_q s) ! (h mod C) = Some (sy_sent s ! h)"
      using ring_bufD [OF r(16), of h] r(2,3) p CRead by (simp add: sq_sys_cell_def t_def)
    with slot CRead have step: "sq_cstep spin s = Done (s\<lparr>sy_q := (sy_q s)\<lparr>sq_buffer := ?b\<rparr>,
        sy_c := CStore (sy_sent s ! h) (pack64 w (stamp_of C k (Suc h)))\<rparr>)"
      by (simp add: sq_cstep_def Let_def)
    have "ring_buf ((sq_sys_cell (sy_sent s) h (sq_pending (sy_p s)) False)(h := None)) ?b h"
      using ring_buf_update [OF r(16), of h None] r(2,3) CRead by simp
    then have "ring_buf (sq_sys_cell (sy_sent s) h (sq_pending (sy_p s)) True) ?b h"
      by (rule ring_buf_cong) (use p in \<open>auto simp: sq_sys_cell_def t_def\<close>)
    then have "sq_sys_rel C k hc tc (s\<lparr>sy_q := (sy_q s)\<lparr>sq_buffer := ?b\<rparr>,
        sy_c := CStore (sy_sent s ! h) (pack64 w (stamp_of C k (Suc h)))\<rparr>)"
      using r p by (auto simp: sq_sys_rel_def Let_def t_def simp flip: h_def)
    with step show ?thesis by (auto simp: sq_sys_inv_def)
  next
    case (CStore v w)
    with r(15) obtain p where p: "v = sy_sent s ! h" "w = pack64 (stamp_of C k p) (stamp_of C k (Suc h))"
      "h < p" "p \<le> t" by (auto simp: t_def)
    from ring_buf_advance [OF r(16)] r(2,3) CStore
    have "ring_buf ((sq_sys_cell (sy_sent s) h (sq_pending (sy_p s)) True)
        (h + C := sq_sys_cell (sy_sent s) h (sq_pending (sy_p s)) True h)) (sq_buffer (sy_q s)) (Suc h)"
      by simp
    then have "ring_buf (sq_sys_cell (sy_sent s) (Suc h) (sq_pending (sy_p s)) False)
        (sq_buffer (sy_q s)) (Suc h)"
      by (rule ring_buf_cong)
        (use p r(3,5,7,14) in \<open>cases "sy_p s"; auto simp: sq_sys_cell_def t_def\<close>)
    moreover have "sy_recvd s @ [v] = take (Suc h) (sy_sent s)"
      using r(13) p by (simp add: take_Suc_conv_app_nth t_def)
    moreover have "length (sy_recvd s @ [v]) = Suc h" by (simp add: h_def)
    ultimately have "sq_sys_rel C k hc p (s\<lparr>sy_q := (sy_q s)\<lparr>sq_recv := w\<rparr>, sy_c := CIdle,
        sy_recvd := sy_recvd s @ [v]\<rparr>)"
      using r p sq_p_ok_mono [OF r(14), of "Suc h"]
      by (simp add: sq_sys_rel_def Let_def t_def del: length_append)
    with CStore show ?thesis by (auto simp: sq_cstep_def Let_def sq_sys_inv_def)
  qed
qed

lemma sq_run_inv: "sq_sys_inv C k s \<Longrightarrow> \<exists>s'. sq_run ts s = Done s' \<and> sq_sys_inv C k s'"
proof (induction ts arbitrary: s)
  case Nil
  then show ?case by simp
next
  case (Cons t ts)
  obtain s1 where "sq_turn_step t s = Done s1" "sq_sys_inv C k s1"
    using sq_pstep_inv [OF Cons.prems] sq_cstep_inv [OF Cons.prems] by (cases t) fastforce+
  with Cons.IH show ?case by simp
qed

lemma sq_start_inv:
  assumes "0 < cap" "cap < 2 ^ 31"
  shows "\<exists>q k. sq_new cap = Done q \<and> sq_sys_inv (unat cap) k (sq_start q)"
proof -
  from sq_new_repr [OF assms] obtain q :: "'a spsc_queue" and k where
    q: "sq_new cap = Done q" "sq_repr q k 0 [] 0 0" "sq_capacity q = unat cap" by blast
  note r = sq_reprD [OF q(2) refl]
  have "sq_cell 0 [] = (sq_sys_cell [] 0 None False :: nat \<Rightarrow> 'a option)"
    by (auto simp: sq_cell_def sq_sys_cell_def)
  with r q(3) have "sq_sys_rel (unat cap) k 0 0 (sq_start q)"
    by (auto simp: sq_sys_rel_def Let_def sq_start_def)
  with q(1) show ?thesis by (auto simp: sq_sys_inv_def)
qed

lemma sq_reached_inv:
  assumes "0 < cap" "cap < 2 ^ 31" "sq_new cap = Done q" "sq_run ts (sq_start q) = Done s"
  shows "\<exists>k. sq_sys_inv (unat cap) k s"
proof -
  from sq_start_inv [OF assms(1,2), where ?'a = 'a] assms(3) obtain k
    where "sq_sys_inv (unat cap) k (sq_start q)" by auto
  from sq_run_inv [OF this, of ts] assms(4) show ?thesis by auto
qed

section \<open>Properties\<close>

text \<open>
  C1. One producer and one consumer under every schedule: no step ever faults (no read of an
  uninitialised slot, no index out of bounds, no overflow, at any wrap-around of the 32-bit stamps),
  the values received are a prefix of the values sent, and at most the capacity is in flight.
\<close>

theorem sq_interleaved_fifo:
  assumes "0 < cap" "cap < 2 ^ 31"
  shows "\<exists>q s. sq_new cap = Done q \<and> sq_run ts (sq_start q) = Done s \<and>
    prefix (sy_recvd s) (sy_sent s) \<and> length (sy_sent s) \<le> length (sy_recvd s) + unat cap"
proof -
  from sq_start_inv [OF assms] obtain q :: "'a spsc_queue" and k where
    q: "sq_new cap = Done q" "sq_sys_inv (unat cap) k (sq_start q)" by blast
  from sq_run_inv [OF q(2), of ts] obtain s hc tc where
    s: "sq_run ts (sq_start q) = Done s" "sq_sys_rel (unat cap) k hc tc s" by (auto simp: sq_sys_inv_def)
  note r = sq_sys_relD [OF s(2) refl refl]
  from r(13) have "prefix (sy_recvd s) (sy_sent s)" by (metis take_is_prefix)
  with q(1) s(1) r(10) show ?thesis by auto
qed

theorem sq_interleaved_fifo_witness:
  "\<exists>q s. sq_new 1 = Done q \<and> sq_run [Producer (5 :: nat), Consumer True, Producer 0, Consumer True,
      Producer 0, Consumer True, Consumer True, Consumer True, Consumer True] (sq_start q) = Done s \<and>
    prefix (sy_recvd s) (sy_sent s)"
  using sq_interleaved_fifo [of 1 "[Producer (5 :: nat), Consumer True, Producer 0, Consumer True,
      Producer 0, Consumer True, Consumer True, Consumer True, Consumer True]"]
  by (auto simp del: sq_run.simps)

text \<open>
  C18. No data race on a slot: whenever the producer is about to write a slot and the consumer is about
  to read one, under any schedule, they are different slots.
\<close>

theorem sq_slot_race_free:
  assumes "0 < cap" "cap < 2 ^ 31" "sq_new cap = Done q" "sq_run ts (sq_start q) = Done s"
    and "sy_p s = PWrite v tail hc" "sy_c s = CRead head tc"
  shows "stamp_index (sq_one_lap (sy_q s)) tail \<noteq> stamp_index (sq_one_lap (sy_q s)) head"
proof -
  let ?C = "unat cap"
  from sq_reached_inv [OF assms(1-4)] obtain k hc' tc' where rel: "sq_sys_rel ?C k hc' tc' s"
    by (auto simp: sq_sys_inv_def)
  define h t where "h = length (sy_recvd s)" and "t = length (sy_sent s)"
  note r = sq_sys_relD [OF rel h_def t_def]
  from r(14,15) assms(5,6) have tp: "tail = stamp_of ?C k t" "t < h + ?C"
    and hp: "head = stamp_of ?C k h" "h < t" by (auto simp: t_def)
  from tp(2) hp(2) obtain i where i: "t = h + i" "0 < i" "i < ?C" by (auto dest: less_imp_add_positive)
  then have "t mod ?C \<noteq> h mod ?C" using mod_window_inj [of h i ?C 0] by auto
  with r(1,4) tp(1) hp(1) show ?thesis by simp
qed

theorem sq_slot_race_free_witness:
  "\<exists>q s tail hc head tc. sq_new 2 = Done q \<and>
    sq_run [Producer (5 :: nat), Producer 0, Producer 0, Producer 6, Consumer True, Consumer True]
      (sq_start q) = Done s \<and>
    sy_p s = PWrite 6 tail hc \<and> sy_c s = CRead head tc \<and>
    stamp_index (sq_one_lap (sy_q s)) tail \<noteq> stamp_index (sq_one_lap (sy_q s)) head"
proof -
  let ?ts = "[Producer (5 :: nat), Producer 0, Producer 0, Producer 6, Consumer True, Consumer True]"
  define q where "q = \<lparr>sq_sender = 0, sq_recv = 0, sq_buffer = [None, None :: nat option], sq_one_lap = 4\<rparr>"
  define s where "s = \<lparr>sy_q = \<lparr>sq_sender = 1, sq_recv = 0, sq_buffer = [Some (5 :: nat), None], sq_one_lap = 4\<rparr>,
    sy_p = PWrite 6 1 0, sy_c = CRead 0 1, sy_sent = [5], sy_recvd = []\<rparr>"
  have 1: "sq_new 2 = Done q" 
    by (simp add: q_def sq_new_def checked_add_def pack64_def replicate_numeral)
  have 2: "sq_run ?ts (sq_start q) = Done s" unfolding q_def s_def by code_simp
  have 3: "sy_p s = PWrite 6 1 0" "sy_c s = CRead 0 1" by (simp_all add: s_def)
  from sq_slot_race_free [OF _ _ 1 2 3] 1 2 3 show ?thesis by force
qed

text \<open>
  Refusals are exact under every schedule: when the producer, after its check of \<^verbatim>\<open>recv\<close>, gives up
  (\<^verbatim>\<open>push\<close> returns false), the buffer holds exactly its capacity at that moment; when the consumer, after
  its check of \<^verbatim>\<open>sender\<close>, gives up (\<^verbatim>\<open>pop\<close> returns None), the queue is empty at that moment.
\<close>

theorem sq_refusals_exact:
  assumes "0 < cap" "cap < 2 ^ 31" "sq_new cap = Done q" "sq_run ts (sq_start q) = Done s"
  shows "(sy_p s = PCheck v tail hc \<and> exec_map sy_p (sq_pstep w s) = Done PIdle \<longrightarrow>
      length (sy_sent s) = length (sy_recvd s) + unat cap) \<and>
    (sy_c s = CCheck head \<and> exec_map sy_c (sq_cstep spin s) = Done CIdle \<longrightarrow>
      sy_sent s = sy_recvd s)"
proof -
  let ?C = "unat cap"
  from sq_reached_inv [OF assms(1-4)] obtain k hc' tc' where rel: "sq_sys_rel ?C k hc' tc' s"
    by (auto simp: sq_sys_inv_def)
  define h t where "h = length (sy_recvd s)" and "t = length (sy_sent s)"
  note r = sq_sys_relD [OF rel h_def t_def]
  have "(stamp_of ?C k h :: u32) = stamp_of ?C k hc' \<longleftrightarrow> h = hc'"
    using stamp_of_eq_iff [OF r(1), of hc' h] r(5-7) by auto
  then have full: "t = h + ?C" if "sy_p s = PCheck v tail hc" "exec_map sy_p (sq_pstep w s) = Done PIdle"
    using that r(12,14) by (auto simp: sq_pstep_def split: if_splits)
  have "(stamp_of ?C k h :: u32) = stamp_of ?C k t \<longleftrightarrow> h = t"
    using stamp_of_eq_iff [OF r(1), of h t] r(6,10) by simp
  then have "h = t" if "sy_c s = CCheck head" "exec_map sy_c (sq_cstep spin s) = Done CIdle"
    using that r(11,15) by (simp add: sq_cstep_def split: if_splits)
  then have "sy_sent s = sy_recvd s" if "sy_c s = CCheck head" "exec_map sy_c (sq_cstep spin s) = Done CIdle"
    using that r(13) by (simp add: t_def)
  with full show ?thesis by (auto simp: h_def t_def)
qed

theorem sq_refusals_exact_witness:
  "\<exists>q s. sq_new 1 = Done q \<and>
    sq_run [Producer (5 :: nat), Producer 0, Producer 0, Producer 6] (sq_start q) = Done s \<and>
    sy_p s = PCheck 6 2 0 \<and> exec_map sy_p (sq_pstep 0 s) = Done PIdle \<and>
    length (sy_sent s) = length (sy_recvd s) + 1"
proof -
  let ?ts = "[Producer (5 :: nat), Producer 0, Producer 0, Producer 6]"
  define q where "q = \<lparr>sq_sender = 0, sq_recv = 0, sq_buffer = [None :: nat option], sq_one_lap = 2\<rparr>"
  define s where "s = \<lparr>sy_q = \<lparr>sq_sender = 2, sq_recv = 0, sq_buffer = [Some (5 :: nat)], sq_one_lap = 2\<rparr>,
    sy_p = PCheck 6 2 0, sy_c = CIdle, sy_sent = [5], sy_recvd = []\<rparr>"
  have 1: "sq_new 1 = Done q" 
    by (simp add: q_def sq_new_def checked_add_def pack64_def replicate_numeral)
  have 2: "sq_run ?ts (sq_start q) = Done s" unfolding q_def s_def by code_simp
  have 3: "sy_p s = PCheck 6 2 0" by (simp add: s_def)
  have 4: "exec_map sy_p (sq_pstep 0 s) = Done PIdle" unfolding s_def by code_simp
  from sq_refusals_exact [OF _ _ 1 2, of 6 2 0 0] 1 2 3 4 show ?thesis by auto
qed

text \<open>
  A call that runs alone: every sequence of pushes and pops on a new queue answers what a bounded
  list answers, and dropping the queue then runs the destructors of exactly the remaining elements.
\<close>

theorem sq_run_refines:
  assumes "0 < cap" "cap < 2 ^ 31"
  shows "\<exists>q q' rs. sq_new cap = Done q \<and> run_ops sq_push_with_ptr sq_pop q ps = Done (q', rs) \<and>
    spec_run (Some (unat cap)) [] ps = (sq_content q', rs) \<and> sq_drop True q' = Done (sq_content q')"
proof -
  from sq_new_repr [OF assms] obtain q :: "'a spsc_queue" and k where
    q: "sq_new cap = Done q" "sq_repr q k 0 [] 0 0" "sq_capacity q = unat cap" by blast
  from sq_repr_inv [OF q(2)] have i: "sq_inv q" "sq_content q = []" by simp_all
  from sqi.run_refines [OF i(1), of ps] i q(3) obtain q' rs where
    r: "run_ops sq_push_with_ptr sq_pop q ps = Done (q', rs)" "sq_inv q'"
      "spec_run (Some (unat cap)) [] ps = (sq_content q', rs)" by (auto simp: sq_cap_def)
  moreover from r(2) have "sq_drop True q' = Done (sq_content q')"
    using sq_inv_repr sq_drop_content by blast
  ultimately show ?thesis using q(1) by blast
qed

theorem sq_run_refines_witness:
  "\<exists>q q' rs. sq_new 2 = Done q \<and>
    run_ops sq_push_with_ptr sq_pop q [Push (7 :: nat), Push 8, Push 9, Pop, Push 9] = Done (q', rs) \<and>
    rs = [Pushed True, Pushed True, Pushed False, Popped (Some 7), Pushed True] \<and>
    sq_drop True q' = Done [8, 9]"
  using sq_run_refines [of 2 "[Push (7 :: nat), Push 8, Push 9, Pop, Push 9]"]
  by (auto simp: has_room_def simp del: run_ops.simps)

text \<open>
  \<^verbatim>\<open>pop_cached\<close> never consults the producer: it answers the oldest element when its cached tail
  is ahead of the head, and otherwise answers None and leaves the queue as it is, empty or not; it
  never answers anything but the oldest element.
\<close>

theorem sq_pop_cached_sound:
  assumes "sq_inv q"
  shows "sq_pop_cached q = Done (q, None) \<and> hi64 (sq_recv q) = lo64 (sq_recv q) \<or>
    (\<exists>q' x xs. sq_content q = x # xs \<and> sq_pop_cached q = Done (q', Some x) \<and> sq_inv q' \<and>
      sq_content q' = xs \<and> sq_capacity q' = sq_capacity q)"
proof -
  from sq_inv_repr [OF assms] obtain k h hc tc where r0: "sq_repr q k h (sq_content q) hc tc" by blast
  note r = sq_reprD [OF r0 refl]
  show ?thesis
  proof (cases "h < tc")
    case True
    with r(8) have "sq_content q = hd (sq_content q) # tl (sq_content q)" by (cases "sq_content q") auto
    with True sq_pop_cached_cases [OF r0] show ?thesis by (auto dest: sq_repr_inv)
  next
    case False
    with r(7) have "tc = h" by simp
    with False sq_pop_cached_cases [OF r0] r(10) show ?thesis by simp
  qed
qed

theorem sq_pop_cached_sound_witness:
  "\<exists>q. sq_new 1 = Done (q :: nat spsc_queue) \<and> sq_inv q \<and> sq_pop_cached q = Done (q, None)"
proof -
  from sq_new_repr [of 1] obtain q :: "nat spsc_queue" and k where
    q: "sq_new 1 = Done q" "sq_repr q k 0 [] 0 0" by auto
  with sq_repr_inv [OF q(2)] sq_pop_cached_sound [of q] show ?thesis by auto
qed

end
