(* ===== verification/Array_Queue_Mpsc.thy ===== *)
theory Array_Queue_Mpsc
  imports Ring_Index Fifo_Spec
begin

unbundle bit_operations_syntax

text \<open>
  The multi-producer single-consumer ring buffer, \<^verbatim>\<open>src/src/crossbeam/array_queue_mpsc.rs\<close>. It packs
  head and tail like the spsc queue, moves \<^verbatim>\<open>sender\<close> with a weak compare-exchange, and marks a
  written slot with a stamp the consumer waits for; popping leaves the stamp as it is. The operations
  are calls that run without interference, with a script of spurious failures for the
  compare-exchange loop and fuel for the two spinning loops.
\<close>

section \<open>The queue\<close>

record 'a mq_slot =
  mq_stamp :: usize
  mq_value :: "'a option"

record 'a mpsc_queue =
  mq_sender :: u64
  mq_recv :: u64
  mq_buffer :: "'a mq_slot list"
  mq_one_lap :: u32

definition mq_new :: "usize \<Rightarrow> 'a mpsc_queue exec" where
  "mq_new cap =
     (if cap = 0 then Fault Panic
      else if \<not> cap < 2 ^ 31 then Fault Panic
      else exec_bind (checked_add cap 1) (\<lambda>n.
        Done \<lparr>mq_sender = pack64 0 0, mq_recv = pack64 0 0,
          mq_buffer = map (\<lambda>i. \<lparr>mq_stamp = of_nat i, mq_value = None\<rparr>) [0 ..< unat cap],
          mq_one_lap = of_nat (next_power_of_two (unat n))\<rparr>))"

definition mq_capacity :: "'a mpsc_queue \<Rightarrow> nat" where
  "mq_capacity q = length (mq_buffer q)"

subsection \<open>Pushing\<close>

text \<open>\<open>Inl current\<close> is \<^verbatim>\<open>Err(current)\<close>: the compare-exchange saw another value of \<^verbatim>\<open>sender\<close>.\<close>

definition mq_try_push :: "bool \<Rightarrow> 'a mpsc_queue \<Rightarrow> u64 \<Rightarrow> u32 \<Rightarrow> u32 \<Rightarrow> 'a \<Rightarrow>
    ('a mpsc_queue \<times> (u64 + bool)) exec" where
  "mq_try_push sp q sender_val tail head_cached value =
     (let index = stamp_index (mq_one_lap q) tail
      in exec_bind (next_stamp (length (mq_buffer q)) (mq_one_lap q) tail) (\<lambda>new_tail.
        let new_sender_val = pack64 head_cached new_tail
        in case cas_weak sp sender_val new_sender_val (mq_sender q) of
             (_, Inl current) \<Rightarrow> Done (q, Inl current)
           | (v, Inr _) \<Rightarrow>
               if index < length (mq_buffer q)
               then Done (q\<lparr>mq_sender := v, mq_buffer := (mq_buffer q)[index :=
                      \<lparr>mq_stamp = ucast tail + 1, mq_value = Some value\<rparr>]\<rparr>, Inr True)
               else Fault OutOfBounds))"

text \<open>The check of the cached head before an attempt: \<open>None\<close> when full, else the head to cache.\<close>

definition mq_check_full :: "'a mpsc_queue \<Rightarrow> u64 \<Rightarrow> u32 option" where
  "mq_check_full q sender_val =
     (let tail = lo64 sender_val; head_cached = hi64 sender_val
      in if head_cached + mq_one_lap q = tail
         then let head = lo64 (mq_recv q) in if head = head_cached then None else Some head
         else Some head_cached)"

fun mq_push_loop :: "nat \<Rightarrow> bool list \<Rightarrow> 'a mpsc_queue \<Rightarrow> u64 \<Rightarrow> 'a \<Rightarrow> ('a mpsc_queue \<times> bool) exec" where
  "mq_push_loop 0 script q sender_val value = Spin"
| "mq_push_loop (Suc fuel) script q sender_val value =
     (let (sp, script') = next_spurious script
      in case mq_check_full q sender_val of
           None \<Rightarrow> Done (q, False)
         | Some head_cached \<Rightarrow>
             exec_bind (mq_try_push sp q sender_val (lo64 sender_val) head_cached value) (\<lambda>(q', r).
               case r of
                 Inr res \<Rightarrow> Done (q', res)
               | Inl current \<Rightarrow> mq_push_loop fuel script' q' current value))"

definition mq_push_with_ptr :: "nat \<Rightarrow> bool list \<Rightarrow> 'a mpsc_queue \<Rightarrow> 'a \<Rightarrow> ('a mpsc_queue \<times> bool) exec" where
  "mq_push_with_ptr fuel script q value = mq_push_loop fuel script q (mq_sender q) value"

definition mq_try_push_oneshot :: "bool \<Rightarrow> 'a mpsc_queue \<Rightarrow> 'a \<Rightarrow> ('a mpsc_queue \<times> bool option) exec" where
  "mq_try_push_oneshot sp q value =
     (let sender_val = mq_sender q
      in case mq_check_full q sender_val of
           None \<Rightarrow> Done (q, Some False)
         | Some head_cached \<Rightarrow>
             exec_map (map_prod id (\<lambda>r. case r of Inr b \<Rightarrow> Some b | Inl _ \<Rightarrow> None))
               (mq_try_push sp q sender_val (lo64 sender_val) head_cached value))"

subsection \<open>Popping\<close>

definition mq_start_read_pos :: "bool \<Rightarrow> 'a mpsc_queue \<Rightarrow> (u32 \<times> u32) option" where
  "mq_start_read_pos spin q =
     (let recv_val = mq_recv q; head = lo64 recv_val; tail_cached = hi64 recv_val
      in if tail_cached = head
         then if spin
              then let tail = lo64 (mq_sender q) in if head = tail then None else Some (head, tail)
              else None
         else Some (head, tail_cached))"

text \<open>
  \<open>mq_read_slot\<close> is \<^verbatim>\<open>_read\<close>: it spins until the slot carries the stamp of the head. Alone, a slot that
  does not carry it never will, so the wait is \<open>Spin\<close> at once.
\<close>

definition mq_read_slot :: "'a mpsc_queue \<Rightarrow> u32 \<Rightarrow> u32 \<Rightarrow> (nat \<times> u64) exec" where
  "mq_read_slot q head tail_cached =
     (let index = stamp_index (mq_one_lap q) head; target_stamp = ucast head + 1
      in if index < length (mq_buffer q)
         then if mq_stamp (mq_buffer q ! index) = target_stamp
              then exec_bind (next_stamp (length (mq_buffer q)) (mq_one_lap q) head) (\<lambda>new_head.
                Done (index, pack64 tail_cached new_head))
              else Spin
         else Fault OutOfBounds)"

definition mq_take :: "'a mpsc_queue \<Rightarrow> nat \<Rightarrow> u64 \<Rightarrow> ('a mpsc_queue \<times> 'a) exec" where
  "mq_take q index packed_recv =
     (if index < length (mq_buffer q)
      then case mq_value (mq_buffer q ! index) of
          None \<Rightarrow> Fault Uninit
        | Some msg \<Rightarrow> Done (q\<lparr>mq_recv := packed_recv,
            mq_buffer := (mq_buffer q)[index := (mq_buffer q ! index)\<lparr>mq_value := None\<rparr>]\<rparr>, msg)
      else Fault OutOfBounds)"

definition mq_start_read :: "'a mpsc_queue \<Rightarrow> ('a mpsc_queue \<times> token option) exec" where
  "mq_start_read q =
     (case mq_start_read_pos True q of
        Some (head, tail_cached) \<Rightarrow>
          exec_map (\<lambda>(slot, packed_recv). (q, Some (token_new slot packed_recv)))
            (mq_read_slot q head tail_cached)
      | None \<Rightarrow> Done (q, None))"

definition mq_pop :: "'a mpsc_queue \<Rightarrow> ('a mpsc_queue \<times> 'a option) exec" where
  "mq_pop q =
     (case mq_start_read_pos True q of
        Some (head, tail_cached) \<Rightarrow>
          exec_bind (mq_read_slot q head tail_cached) (\<lambda>(slot, packed_recv).
            exec_map (map_prod id Some) (mq_take q slot packed_recv))
      | None \<Rightarrow> Done (q, None))"

definition mq_pop_cached :: "'a mpsc_queue \<Rightarrow> ('a mpsc_queue \<times> 'a option) exec" where
  "mq_pop_cached q =
     (case mq_start_read_pos False q of
        Some (head, tail_cached) \<Rightarrow>
          exec_bind (mq_read_slot q head tail_cached) (\<lambda>(slot, packed_recv).
            exec_map (map_prod id Some) (mq_take q slot packed_recv))
      | None \<Rightarrow> Done (q, None))"

definition mq_read :: "'a mpsc_queue \<Rightarrow> token \<Rightarrow> ('a mpsc_queue \<times> 'a) exec" where
  "mq_read q token =
     (case tok_pos token of None \<Rightarrow> Fault OutOfBounds | Some slot \<Rightarrow> mq_take q slot (tok_stamp token))"

subsection \<open>Observers and drop\<close>

definition mq_is_empty :: "'a mpsc_queue \<Rightarrow> bool" where
  "mq_is_empty q \<longleftrightarrow> lo64 (mq_sender q) = lo64 (mq_recv q)"

definition mq_is_full :: "'a mpsc_queue \<Rightarrow> bool" where
  "mq_is_full q \<longleftrightarrow> lo64 (mq_recv q) + mq_one_lap q = lo64 (mq_sender q)"

definition mq_len_round :: "'a mpsc_queue \<Rightarrow> 'a mpsc_queue \<Rightarrow> 'a mpsc_queue \<Rightarrow> nat option" where
  "mq_len_round q0 q1 q2 =
     (let tail = lo64 (mq_sender q0); head = lo64 (mq_recv q1)
      in if lo64 (mq_sender q2) = tail
         then Some (stamp_len_diff (mq_capacity q0) (mq_one_lap q0) head tail) else None)"

definition mq_len :: "'a mpsc_queue \<Rightarrow> nat" where
  "mq_len q = (case mq_len_round q q q of Some n \<Rightarrow> n | None \<Rightarrow> 0)"

definition mq_drop :: "bool \<Rightarrow> 'a mpsc_queue \<Rightarrow> 'a list exec" where
  "mq_drop needs_drop q =
     (if needs_drop
      then let head = lo64 (mq_recv q); tail = lo64 (mq_sender q)
        in ring_drop_loop (map mq_value (mq_buffer q)) (stamp_index (mq_one_lap q) head)
             [0 ..< stamp_len (mq_capacity q) (mq_one_lap q) head tail]
      else Done [])"

section \<open>The abstraction to a list\<close>

text \<open>
  A slot of a pending element carries the stamp of its position plus one. An empty slot's stamp is
  whatever the lap before left there; only its value is pinned.
\<close>

definition mq_cell :: "nat \<Rightarrow> nat \<Rightarrow> nat \<Rightarrow> 'a list \<Rightarrow> nat \<Rightarrow> usize option \<times> 'a option" where
  "mq_cell C k h xs p =
     (if p < h + length xs then (Some (ucast (stamp_of C k p :: u32) + 1), Some (xs ! (p - h))) else (None, None))"

definition mq_view :: "'a mq_slot \<Rightarrow> usize option \<times> 'a option" where
  "mq_view s = ((case mq_value s of None \<Rightarrow> None | Some _ \<Rightarrow> Some (mq_stamp s)), mq_value s)"

definition mq_repr :: "'a mpsc_queue \<Rightarrow> nat \<Rightarrow> nat \<Rightarrow> 'a list \<Rightarrow> nat \<Rightarrow> nat \<Rightarrow> bool" where
  "mq_repr q k h xs hc tc \<longleftrightarrow>
     (let C = mq_capacity q
      in ring_ok TYPE(32) C k \<and> mq_one_lap q = 2 ^ k \<and>
         hc \<le> h \<and> h + length xs \<le> hc + C \<and> h \<le> tc \<and> tc \<le> h + length xs \<and>
         mq_sender q = pack64 (stamp_of C k hc) (stamp_of C k (h + length xs)) \<and>
         mq_recv q = pack64 (stamp_of C k tc) (stamp_of C k h) \<and>
         ring_buf (mq_cell C k h xs) (map mq_view (mq_buffer q)) h)"

definition mq_inv :: "'a mpsc_queue \<Rightarrow> bool" where
  "mq_inv q \<longleftrightarrow> (\<exists>k h xs hc tc. mq_repr q k h xs hc tc)"

definition mq_content :: "'a mpsc_queue \<Rightarrow> 'a list" where
  "mq_content q =
     map (\<lambda>i. the (mq_value (mq_buffer q !
           ((stamp_index (mq_one_lap q) (lo64 (mq_recv q)) + i) mod mq_capacity q)))) [0 ..< mq_len q]"

lemma mq_capacity_update [simp]:
  "mq_capacity (q\<lparr>mq_sender := v, mq_buffer := b\<rparr>) = length b"
  "mq_capacity (q\<lparr>mq_recv := v, mq_buffer := b\<rparr>) = length b"
  "mq_capacity (q\<lparr>mq_buffer := b\<rparr>) = length b"
  by (simp_all add: mq_capacity_def)

lemma mq_reprD:
  assumes "mq_repr q k h xs hc tc" "C = mq_capacity q"
  shows "ring_ok TYPE(32) C k" "0 < C" "length (mq_buffer q) = C" "mq_one_lap q = 2 ^ k"
    "hc \<le> h" "h + length xs \<le> hc + C" "h \<le> tc" "tc \<le> h + length xs"
    "mq_sender q = pack64 (stamp_of C k hc) (stamp_of C k (h + length xs))"
    "mq_recv q = pack64 (stamp_of C k tc) (stamp_of C k h)"
    "ring_buf (mq_cell C k h xs) (map mq_view (mq_buffer q)) h" "length xs \<le> C"
  using assms by (auto simp: mq_repr_def Let_def mq_capacity_def dest: ring_okD)

lemma mq_slot_at:
  assumes "mq_repr q k h xs hc tc" "h \<le> p" "p < h + length xs" "C = mq_capacity q"
  shows "mq_value (mq_buffer q ! (p mod C)) = Some (xs ! (p - h))"
    and "mq_stamp (mq_buffer q ! (p mod C)) = ucast (stamp_of C k p :: u32) + 1"
proof -
  note r = mq_reprD [OF assms(1,4)]
  have "p mod C < C" using r(2) by simp
  then have "mq_view (mq_buffer q ! (p mod C)) =
      (Some (ucast (stamp_of C k p :: u32) + 1), Some (xs ! (p - h)))"
    using ring_bufD [OF r(11), of p] r(3,12) assms(2,3) by (simp add: mq_cell_def)
  then show "mq_value (mq_buffer q ! (p mod C)) = Some (xs ! (p - h))"
    and "mq_stamp (mq_buffer q ! (p mod C)) = ucast (stamp_of C k p :: u32) + 1"
    by (auto simp: mq_view_def split: option.splits)
qed

lemma mq_repr_len: "mq_repr q k h xs hc tc \<Longrightarrow> mq_len q = length xs"
  by (simp add: mq_len_def mq_len_round_def Let_def mq_reprD stamp_len_diff_stamp_of)

lemma mq_repr_content:
  assumes "mq_repr q k h xs hc tc"
  shows "mq_content q = xs"
proof (rule nth_equalityI)
  show "length (mq_content q) = length xs" using assms by (simp add: mq_content_def mq_repr_len)
next
  fix i assume "i < length (mq_content q)"
  then have i: "i < length xs" using assms by (simp add: mq_content_def mq_repr_len)
  moreover have "(h mod mq_capacity q + i) mod mq_capacity q = (h + i) mod mq_capacity q"
    by (simp add: mod_simps)
  ultimately show "mq_content q ! i = xs ! i"
    using mq_slot_at(1) [OF assms, of "h + i"] mq_reprD [OF assms refl] assms
    by (simp add: mq_content_def mq_repr_len)
qed

lemma mq_repr_inv: "mq_repr q k h xs hc tc \<Longrightarrow> mq_inv q \<and> mq_content q = xs"
  using mq_inv_def mq_repr_content by blast

lemma mq_inv_repr: "mq_inv q \<Longrightarrow> \<exists>k h hc tc. mq_repr q k h (mq_content q) hc tc"
  unfolding mq_inv_def using mq_repr_content by blast

section \<open>Operations\<close>

lemma mq_new_repr:
  assumes "0 < cap" "cap < 2 ^ 31"
  shows "\<exists>q k. mq_new cap = Done q \<and> mq_repr q k 0 [] 0 0 \<and> mq_capacity q = unat cap"
proof -
  let ?C = "unat cap" and ?L = "next_power_of_two (unat cap + 1)"
  from ring_ok_new32(1) [OF assms] obtain k where k: "?L = 2 ^ k" "ring_ok TYPE(32) ?C k" by blast
  note add = ring_ok_new32(2,3) [OF assms]
  let ?q = "\<lparr>mq_sender = pack64 0 0, mq_recv = pack64 0 0,
    mq_buffer = map (\<lambda>i. \<lparr>mq_stamp = of_nat i, mq_value = None\<rparr>) [0 ..< ?C], mq_one_lap = of_nat ?L\<rparr>"
  have "mq_new cap = Done ?q" using assms add by (auto simp: mq_new_def)
  moreover have "ring_buf (mq_cell ?C k 0 []) (map mq_view (mq_buffer ?q)) 0"
    by (simp add: ring_buf_def mq_cell_def mq_view_def)
  then have "mq_repr ?q k 0 [] 0 0"
    using k by (simp add: mq_repr_def Let_def mq_capacity_def stamp_of_def)
  ultimately show ?thesis by (auto simp: mq_capacity_def)
qed

lemma mq_check_full_cases:
  assumes r0: "mq_repr q k h xs hc tc" and C: "C = mq_capacity q"
  shows "mq_check_full q (mq_sender q) =
    (if length xs = C then None else Some (stamp_of C k (if h + length xs = hc + C then h else hc)))"
proof -
  note r = mq_reprD [OF r0 C]
  have "(stamp_of C k hc :: u32) + 2 ^ k = stamp_of C k (h + length xs) \<longleftrightarrow> h + length xs = hc + C"
    using stamp_of_full_iff [OF r(1), of hc "h + length xs"] r(5,6) by simp
  moreover have "(stamp_of C k h :: u32) = stamp_of C k hc \<longleftrightarrow> h = hc"
    using stamp_of_eq_iff [OF r(1), of hc h] r(5,6) by auto
  moreover have "length xs = C \<Longrightarrow> h = hc" using r(5,6) by simp
  ultimately show ?thesis using r(4,9,10) by (auto simp: mq_check_full_def Let_def)
qed

lemma mq_try_push_room:
  assumes r0: "mq_repr q k h xs hc tc" and C: "C = mq_capacity q" and room: "length xs < C"
    and hc': "hc' = (if h + length xs = hc + C then h else hc)"
  shows "\<exists>q'. mq_try_push sp q (mq_sender q) (lo64 (mq_sender q)) (stamp_of C k hc') x =
      (if sp then Done (q, Inl (mq_sender q)) else Done (q', Inr True)) \<and>
    mq_repr q' k h (xs @ [x]) hc' tc \<and> mq_capacity q' = C"
proof -
  let ?t = "h + length xs"
  note r = mq_reprD [OF r0 C]
  let ?s = "\<lparr>mq_stamp = ucast (stamp_of C k ?t :: u32) + 1, mq_value = Some x\<rparr>"
  let ?b = "(mq_buffer q)[?t mod C := ?s]"
  let ?q = "q\<lparr>mq_sender := pack64 (stamp_of C k hc') (stamp_of C k (Suc ?t)), mq_buffer := ?b\<rparr>"
  have "?t mod C < C" using r(2) by simp
  then have step: "mq_try_push sp q (mq_sender q) (lo64 (mq_sender q)) (stamp_of C k hc') x =
      (if sp then Done (q, Inl (mq_sender q)) else Done (?q, Inr True))"
    using r(1,3,4,9) by (simp add: mq_try_push_def Let_def cas_weak_def)
  have "ring_buf ((mq_cell C k h xs)(?t := mq_view ?s)) (map mq_view ?b) h"
    using ring_buf_update [OF r(11), of ?t "mq_view ?s"] r(3) room by (simp add: map_update)
  then have "ring_buf (mq_cell C k h (xs @ [x])) (map mq_view ?b) h"
    by (rule ring_buf_cong) (auto simp: mq_cell_def mq_view_def nth_append)
  then have "mq_repr ?q k h (xs @ [x]) hc' tc"
    using r(1-8,10,12) room hc' by (auto simp: mq_repr_def Let_def)
  with step r(3) show ?thesis by (intro exI [of _ ?q]) simp
qed

lemma mq_push_room:
  assumes r0: "mq_repr q k h xs hc tc" and "length xs < mq_capacity q" "length script < fuel"
  shows "\<exists>q' hc'. mq_push_with_ptr fuel script q x = Done (q', True) \<and> mq_repr q' k h (xs @ [x]) hc' tc \<and>
    mq_capacity q' = mq_capacity q"
  using assms(3) unfolding mq_push_with_ptr_def
proof (induction fuel arbitrary: script)
  case 0
  then show ?case by simp
next
  case (Suc fuel)
  obtain sp script' where s: "next_spurious script = (sp, script')" by fastforce
  then have len: "sp \<Longrightarrow> length script' < fuel" using Suc.prems by (cases script) auto
  let ?C = "mq_capacity q"
  define hc' where "hc' = (if h + length xs = hc + ?C then h else hc)"
  from mq_try_push_room [OF r0 refl assms(2) hc'_def, of sp x] obtain q' where
    q': "mq_try_push sp q (mq_sender q) (lo64 (mq_sender q)) (stamp_of ?C k hc') x =
      (if sp then Done (q, Inl (mq_sender q)) else Done (q', Inr True))"
      "mq_repr q' k h (xs @ [x]) hc' tc" "mq_capacity q' = ?C" by blast
  have full: "mq_check_full q (mq_sender q) = Some (stamp_of ?C k hc')"
    using mq_check_full_cases [OF r0 refl] assms(2) by (simp add: hc'_def)
  show ?case
  proof (cases sp)
    case True
    with Suc.IH [OF len] s q' full show ?thesis by simp
  next
    case False
    with s q' full show ?thesis by auto
  qed
qed

lemma mq_push_full:
  assumes "mq_repr q k h xs hc tc" "length xs = mq_capacity q" "0 < fuel"
  shows "mq_push_with_ptr fuel script q x = Done (q, False)"
proof -
  obtain n where "fuel = Suc n" using assms(3) gr0_implies_Suc by blast
  with mq_check_full_cases [OF assms(1) refl] assms(2) show ?thesis
    by (simp add: mq_push_with_ptr_def split: prod.splits)
qed

lemma mq_take_head:
  assumes r0: "mq_repr q k h (x # xs) hc tc" and "h < tc'" "tc' \<le> h + length (x # xs)"
    and C: "C = mq_capacity q"
  shows "\<exists>q'. mq_take q (h mod C) (pack64 (stamp_of C k tc') (stamp_of C k (Suc h))) = Done (q', x) \<and>
    mq_repr q' k (Suc h) xs hc tc' \<and> mq_capacity q' = C"
proof -
  note r = mq_reprD [OF r0 C]
  let ?s = "(mq_buffer q ! (h mod C))\<lparr>mq_value := None\<rparr>"
  let ?b = "(mq_buffer q)[h mod C := ?s]"
  let ?q = "q\<lparr>mq_recv := pack64 (stamp_of C k tc') (stamp_of C k (Suc h)), mq_buffer := ?b\<rparr>"
  have "mq_value (mq_buffer q ! (h mod C)) = Some x" using mq_slot_at(1) [OF r0, of h] C by simp
  moreover have "h mod C < C" using r(2) by simp
  ultimately have "mq_take q (h mod C) (pack64 (stamp_of C k tc') (stamp_of C k (Suc h))) = Done (?q, x)"
    using r(3) by (simp add: mq_take_def)
  moreover have "ring_buf ((mq_cell C k h (x # xs))(h := (None, None))) (map mq_view ?b) h"
    using ring_buf_update [OF r(11), of h "mq_view ?s"] r(2,3) by (simp add: map_update mq_view_def)
  from ring_buf_advance [OF this] r(2,3)
  have "ring_buf ((mq_cell C k h (x # xs))(h := (None, None), h + C := (None, None)))
      (map mq_view ?b) (Suc h)" by simp
  then have "ring_buf (mq_cell C k (Suc h) xs) (map mq_view ?b) (Suc h)"
    by (rule ring_buf_cong) (use r(12) r(3) in \<open>auto simp: mq_cell_def nth_Cons'\<close>)
  then have "mq_repr ?q k (Suc h) xs hc tc'"
    using r(1-9) assms(2,3) by (simp add: mq_repr_def Let_def)
  ultimately show ?thesis using r(3) by auto
qed

lemma mq_read_slot_head:
  assumes r0: "mq_repr q k h (x # xs) hc tc" and C: "C = mq_capacity q"
  shows "mq_read_slot q (stamp_of C k h) w = Done (h mod C, pack64 w (stamp_of C k (Suc h)))"
proof -
  note r = mq_reprD [OF r0 C]
  have "h mod C < C" using r(2) by simp
  with r(1,3,4) mq_slot_at(2) [OF r0, of h] C show ?thesis by (simp add: mq_read_slot_def Let_def)
qed

lemma mq_start_read_pos_cases:
  assumes r0: "mq_repr q k h xs hc tc" and C: "C = mq_capacity q"
  shows "mq_start_read_pos spin q =
    (if h < tc then Some (stamp_of C k h, stamp_of C k tc)
     else if spin \<and> xs \<noteq> [] then Some (stamp_of C k h, stamp_of C k (h + length xs))
     else None)"
proof -
  note r = mq_reprD [OF r0 C]
  have "(stamp_of C k h :: u32) = stamp_of C k tc \<longleftrightarrow> h = tc"
    and "(stamp_of C k h :: u32) = stamp_of C k (h + length xs) \<longleftrightarrow> xs = []"
    using stamp_of_eq_iff [OF r(1), of h tc] stamp_of_eq_iff [OF r(1), of h "h + length xs"] r(7,8,12)
    by simp_all
  moreover have "h < tc \<longleftrightarrow> h \<noteq> tc" using r(7) by (auto simp: less_le)
  ultimately show ?thesis by (simp add: mq_start_read_pos_def Let_def r(9,10) eq_commute)
qed

lemma mq_pop_some:
  assumes r0: "mq_repr q k h (x # xs) hc tc"
  shows "\<exists>q' tc'. mq_pop q = Done (q', Some x) \<and> mq_repr q' k (Suc h) xs hc tc' \<and>
    mq_capacity q' = mq_capacity q"
proof -
  note r = mq_reprD [OF r0 refl]
  define tc' where "tc' = (if h < tc then tc else h + length (x # xs))"
  have "h < tc'" "tc' \<le> h + length (x # xs)" using r(8) by (auto simp: tc'_def)
  from mq_take_head [OF r0 this refl] show ?thesis
    by (auto simp: mq_pop_def mq_start_read_pos_cases [OF r0 refl] mq_read_slot_head [OF r0 refl]
        tc'_def split: if_splits)
qed

lemma mq_pop_none: "mq_repr q k h [] hc tc \<Longrightarrow> mq_pop q = Done (q, None)"
  using mq_reprD(8) [of q k h "[]" hc tc, OF _ refl]
  by (simp add: mq_pop_def mq_start_read_pos_cases [OF _ refl])

lemma mq_repr_is_empty: "mq_repr q k h xs hc tc \<Longrightarrow> mq_is_empty q \<longleftrightarrow> xs = []"
  using stamp_of_eq_iff [OF mq_reprD(1) [OF _ refl], of q k h xs hc tc h "h + length xs"]
  by (auto simp: mq_is_empty_def mq_reprD)

lemma mq_repr_is_full: "mq_repr q k h xs hc tc \<Longrightarrow> mq_is_full q \<longleftrightarrow> length xs = mq_capacity q"
  using stamp_of_full_iff [OF mq_reprD(1) [OF _ refl], of q k h xs hc tc h "h + length xs"]
  by (auto simp: mq_is_full_def mq_reprD)

lemma mq_drop_content:
  assumes r0: "mq_repr q k h xs hc tc"
  shows "mq_drop True q = Done xs"
proof -
  note r = mq_reprD [OF r0 refl]
  let ?vals = "map mq_value (mq_buffer q)"
  have "ring_drop_loop ?vals (h mod length ?vals) [0 ..< length xs] = Done (map (nth xs) [0 ..< length xs])"
  proof (rule ring_drop_loop_content)
    fix i assume i: "i < length xs"
    have "(h + i) mod mq_capacity q < mq_capacity q" using r(2) by simp
    with i mq_slot_at(1) [OF r0, of "h + i"] r(3)
    show "?vals ! ((h + i) mod length ?vals) = Some (xs ! i)" by simp
  qed (use r(3,12) in auto)
  then show ?thesis using r
    by (simp add: mq_drop_def Let_def stamp_len_stamp_of map_nth)
qed

section \<open>The queue interface\<close>

definition mq_push_s :: "bool list \<Rightarrow> 'a mpsc_queue \<Rightarrow> 'a \<Rightarrow> ('a mpsc_queue \<times> bool) exec" where
  "mq_push_s script = mq_push_with_ptr (Suc (length script)) script"

definition mq_cap :: "'a mpsc_queue \<Rightarrow> nat option" where
  "mq_cap q = Some (mq_capacity q)"

interpretation mqi: fifo_obs mq_cap "mq_push_s script" mq_pop mq_inv mq_content mq_len mq_is_empty mq_is_full
  for script :: "bool list"
proof (unfold_locales, goal_cases)
  case (1 q x)
  then obtain k h hc tc where r: "mq_repr q k h (mq_content q) hc tc" using mq_inv_repr by blast
  from 1(2) have "length (mq_content q) < mq_capacity q" by (simp add: has_room_def mq_cap_def)
  from mq_push_room [OF r this, of script "Suc (length script)" x] show ?case
    by (auto simp: mq_push_s_def mq_cap_def dest: mq_repr_inv)
next
  case (2 q x)
  then obtain k h hc tc where r: "mq_repr q k h (mq_content q) hc tc" using mq_inv_repr by blast
  with 2(2) have "length (mq_content q) = mq_capacity q"
    using mq_reprD(12) [OF r refl] by (simp add: has_room_def mq_cap_def)
  from mq_push_full [OF r this, of "Suc (length script)"] 2(1) show ?case by (auto simp: mq_push_s_def)
next
  case (3 q x xs)
  then obtain k h hc tc where "mq_repr q k h (x # xs) hc tc" using mq_inv_repr by metis
  from mq_pop_some [OF this] show ?case by (auto simp: mq_cap_def dest: mq_repr_inv)
next
  case (4 q)
  then obtain k h hc tc where "mq_repr q k h [] hc tc" using mq_inv_repr by metis
  from mq_pop_none [OF this] 4 show ?case by auto
next
  case (5 q)
  then show ?case using mq_repr_len mq_inv_repr by blast
next
  case (6 q)
  then show ?case using mq_repr_is_empty mq_inv_repr by blast
next
  case (7 q)
  then obtain k h hc tc where "mq_repr q k h (mq_content q) hc tc" using mq_inv_repr by blast
  with mq_repr_is_full [OF this] mq_reprD(12) [OF this refl] show ?case
    by (auto simp: has_room_def mq_cap_def)
qed

section \<open>Properties\<close>

text \<open>
  Every sequence of pushes and pops on a new queue of capacity 1 to 2^31 - 1 returns, whatever
  spurious failures of the compare-exchange occur, and answers what a bounded first-in first-out list
  answers: the wait for the stamp of the head never spins and never misses a written slot. Dropping
  the queue then runs the destructors of exactly the remaining elements.
\<close>

theorem mq_run_refines:
  assumes "0 < cap" "cap < 2 ^ 31"
  shows "\<exists>q q' rs. mq_new cap = Done q \<and> run_ops (mq_push_s script) mq_pop q ps = Done (q', rs) \<and>
    spec_run (Some (unat cap)) [] ps = (mq_content q', rs) \<and> mq_drop True q' = Done (mq_content q')"
proof -
  from mq_new_repr [OF assms] obtain q :: "'a mpsc_queue" and k where
    q: "mq_new cap = Done q" "mq_repr q k 0 [] 0 0" "mq_capacity q = unat cap" by blast
  from mq_repr_inv [OF q(2)] have i: "mq_inv q" "mq_content q = []" by simp_all
  from mqi.run_refines [OF i(1), of script ps] i q(3) obtain q' rs where
    r: "run_ops (mq_push_s script) mq_pop q ps = Done (q', rs)" "mq_inv q'"
      "spec_run (Some (unat cap)) [] ps = (mq_content q', rs)" by (auto simp: mq_cap_def)
  moreover from r(2) have "mq_drop True q' = Done (mq_content q')"
    using mq_inv_repr mq_drop_content by blast
  ultimately show ?thesis using q(1) by blast
qed

theorem mq_run_refines_witness:
  "\<exists>q q' rs. mq_new 2 = Done q \<and>
    run_ops (mq_push_s [True]) mq_pop q [Push (7 :: nat), Push 8, Push 9, Pop, Push 9] = Done (q', rs) \<and>
    rs = [Pushed True, Pushed True, Pushed False, Popped (Some 7), Pushed True] \<and>
    mq_drop True q' = Done [8, 9]"
  using mq_run_refines [of 2 "[True]" "[Push (7 :: nat), Push 8, Push 9, Pop, Push 9]"]
  by (auto simp: has_room_def simp del: run_ops.simps)

text \<open>
  The one-attempt push of the parking path answers \<^verbatim>\<open>Some(false)\<close> exactly when the queue is full,
  \<^verbatim>\<open>None\<close> exactly when its compare-exchange fails spuriously, and otherwise appends the value.
\<close>

theorem mq_try_push_oneshot_exact:
  assumes "mq_inv q"
  shows "if length (mq_content q) = mq_capacity q then mq_try_push_oneshot sp q x = Done (q, Some False)
    else if sp then mq_try_push_oneshot sp q x = Done (q, None)
    else \<exists>q'. mq_try_push_oneshot sp q x = Done (q', Some True) \<and> mq_inv q' \<and>
      mq_content q' = mq_content q @ [x]"
proof -
  from mq_inv_repr [OF assms] obtain k h hc tc where r: "mq_repr q k h (mq_content q) hc tc" by blast
  let ?C = "mq_capacity q" and ?xs = "mq_content q"
  define hc' where "hc' = (if h + length ?xs = hc + ?C then h else hc)"
  note full = mq_check_full_cases [OF r refl, folded hc'_def]
  show ?thesis
  proof (cases "length ?xs = ?C")
    case True
    with full show ?thesis by (simp add: mq_try_push_oneshot_def)
  next
    case False
    then have "length ?xs < ?C" using mq_reprD(12) [OF r refl] by simp
    from mq_try_push_room [OF r refl this hc'_def, of sp x] False full show ?thesis
      by (auto simp: mq_try_push_oneshot_def Let_def dest: mq_repr_inv)
  qed
qed

theorem mq_try_push_oneshot_exact_witness:
  "\<exists>q q'. mq_new 1 = Done q \<and> mq_try_push_oneshot False q (5 :: nat) = Done (q', Some True) \<and>
    mq_content q' = [5]"
proof -
  from mq_new_repr [of 1] obtain q :: "nat mpsc_queue" and k where
    q: "mq_new 1 = Done q" "mq_repr q k 0 [] 0 0" "mq_capacity q = 1" by auto
  with mq_repr_inv [OF q(2)] mq_try_push_oneshot_exact [of q False 5] show ?thesis by auto
qed

end
