(* ===== verification/One_Queue.thy ===== *)
theory One_Queue
  imports Ring_Index Fifo_Spec
begin

unbundle bit_operations_syntax

text \<open>
  The one-element multi-producer multi-consumer queue, \<^verbatim>\<open>src/src/flavor/one.rs\<close>. One 32-bit atomic
  packs head and tail as 16-bit tickets; two slots let the next writer start while the last reader
  is still reading, guarded by the stamps of the slots: ticket \<open>p\<close> writes slot \<open>p mod 2\<close> when its stamp
  is \<open>p\<close>, the reader of ticket \<open>p\<close> waits for \<open>p + 1\<close> and leaves \<open>p + 2\<close>.

  Here each operation is a call that runs without interference, with a script of spurious failures;
  \<open>One_Interleaved\<close> runs any number of producers and consumers under every schedule.
\<close>

section \<open>Slots\<close>

record 'a one_slot =
  os_value :: "'a option"
  os_stamp :: u16

definition os_init :: "u16 \<Rightarrow> 'a one_slot" where
  "os_init i = \<lparr>os_value = None, os_stamp = i\<rparr>"

text \<open>Without interference a stamp that is not the awaited one stays so: the wait is \<open>Spin\<close>.\<close>

definition os_write :: "'a one_slot \<Rightarrow> u16 \<Rightarrow> 'a \<Rightarrow> 'a one_slot exec" where
  "os_write s tail value =
     (if os_stamp s = tail then Done \<lparr>os_value = Some value, os_stamp = tail + 1\<rparr> else Spin)"

definition os_read :: "'a one_slot \<Rightarrow> u16 \<Rightarrow> ('a one_slot \<times> 'a) exec" where
  "os_read s head =
     (if os_stamp s = head
      then case os_value s of
          None \<Rightarrow> Fault Uninit
        | Some msg \<Rightarrow> Done (\<lparr>os_value = None, os_stamp = head + 1\<rparr>, msg)
      else Spin)"

definition os_drop :: "'a one_slot \<Rightarrow> 'a exec" where
  "os_drop s = (case os_value s of None \<Rightarrow> Fault Uninit | Some v \<Rightarrow> Done v)"

section \<open>The queue\<close>

record 'a one =
  one_pos :: u32
  one_slots :: "'a one_slot list"

definition one_new :: "'a one" where
  "one_new = \<lparr>one_pos = 0, one_slots = [os_init 0, os_init 1]\<rparr>"

definition one_unpack :: "u32 \<Rightarrow> u16 \<times> u16" where
  "one_unpack pos = (hi32 pos, lo32 pos)"

definition one_pack :: "u16 \<Rightarrow> u16 \<Rightarrow> u32" where
  "one_pack head tail = pack32 head tail"

text \<open>\<^verbatim>\<open>tail & 0x1\<close> as an index.\<close>

definition one_index :: "u16 \<Rightarrow> nat" where
  "one_index w = unat (w AND 1)"

subsection \<open>Pushing\<close>

fun one_push_loop :: "nat \<Rightarrow> bool list \<Rightarrow> 'a one \<Rightarrow> u32 \<Rightarrow> 'a \<Rightarrow> ('a one \<times> bool) exec" where
  "one_push_loop 0 script q pos value = Spin"
| "one_push_loop (Suc fuel) script q pos value =
     (let (sp, script') = next_spurious script; (head, tail) = one_unpack pos
      in if head = tail
         then case cas_weak sp pos (one_pack head (tail + 1)) (one_pos q) of
             (new_pos, Inr _) \<Rightarrow>
               let index = one_index tail
               in if index < length (one_slots q)
                  then exec_map (\<lambda>s. (q\<lparr>one_pos := new_pos, one_slots := (one_slots q)[index := s]\<rparr>, True))
                    (os_write (one_slots q ! index) tail value)
                  else Fault Panic
           | (_, Inl pos') \<Rightarrow> one_push_loop fuel script' q pos' value
         else Done (q, False))"

definition one_try_push :: "nat \<Rightarrow> bool list \<Rightarrow> 'a one \<Rightarrow> 'a \<Rightarrow> ('a one \<times> bool) exec" where
  "one_try_push fuel script q value = one_push_loop fuel script q (one_pos q) value"

text \<open>\<^verbatim>\<open>Queue::push\<close> hands the item back on failure.\<close>

definition one_push :: "nat \<Rightarrow> bool list \<Rightarrow> 'a one \<Rightarrow> 'a \<Rightarrow> ('a one \<times> ('a + unit)) exec" where
  "one_push fuel script q item =
     exec_map (map_prod id (\<lambda>ok. if ok then Inr () else Inl item)) (one_try_push fuel script q item)"

definition one_try_send :: "nat \<Rightarrow> bool list \<Rightarrow> 'a one \<Rightarrow> 'a \<Rightarrow> ('a one \<times> bool) exec" where
  "one_try_send fuel script q item = one_try_push fuel script q item"

definition one_try_send_oneshot :: "nat \<Rightarrow> bool list \<Rightarrow> 'a one \<Rightarrow> 'a \<Rightarrow> ('a one \<times> bool option) exec" where
  "one_try_send_oneshot fuel script q item = exec_map (map_prod id Some) (one_try_push fuel script q item)"

subsection \<open>Popping\<close>

fun one_start_read_loop :: "nat \<Rightarrow> bool list \<Rightarrow> 'a one \<Rightarrow> u32 \<Rightarrow> ('a one \<times> (nat \<times> u16) option) exec" where
  "one_start_read_loop 0 script q pos = Spin"
| "one_start_read_loop (Suc fuel) script q pos =
     (let (sp, script') = next_spurious script; (head, tail) = one_unpack pos
      in if head = tail then Done (q, None)
         else case cas_weak sp pos (one_pack tail tail) (one_pos q) of
             (_, Inl pos') \<Rightarrow> one_start_read_loop fuel script' q pos'
           | (new_pos, Inr _) \<Rightarrow> Done (q\<lparr>one_pos := new_pos\<rparr>, Some (one_index head, tail)))"

definition one_start_read :: "nat \<Rightarrow> bool list \<Rightarrow> 'a one \<Rightarrow> ('a one \<times> (nat \<times> u16) option) exec" where
  "one_start_read fuel script q = one_start_read_loop fuel script q (one_pos q)"

definition one_read_slot :: "'a one \<Rightarrow> nat \<Rightarrow> u16 \<Rightarrow> ('a one \<times> 'a) exec" where
  "one_read_slot q index new_head =
     (if index < length (one_slots q)
      then exec_map (\<lambda>(s, msg). (q\<lparr>one_slots := (one_slots q)[index := s]\<rparr>, msg))
        (os_read (one_slots q ! index) new_head)
      else Fault Panic)"

definition one_pop :: "nat \<Rightarrow> bool list \<Rightarrow> 'a one \<Rightarrow> ('a one \<times> 'a option) exec" where
  "one_pop fuel script q =
     exec_bind (one_start_read fuel script q) (\<lambda>(q', r).
       case r of
         Some (index, new_head) \<Rightarrow> exec_map (map_prod id Some) (one_read_slot q' index new_head)
       | None \<Rightarrow> Done (q', None))"

definition one_try_recv :: "nat \<Rightarrow> bool list \<Rightarrow> 'a one \<Rightarrow> ('a one \<times> 'a option) exec" where
  "one_try_recv fuel script q = one_pop fuel script q"

definition one_try_recv_final :: "nat \<Rightarrow> bool list \<Rightarrow> 'a one \<Rightarrow> ('a one \<times> 'a option) exec" where
  "one_try_recv_final fuel script q = one_pop fuel script q"

definition one_try_select :: "nat \<Rightarrow> bool list \<Rightarrow> 'a one \<Rightarrow> ('a one \<times> token option) exec" where
  "one_try_select fuel script q =
     exec_map (map_prod id (map_option (\<lambda>(index, head). token_new index (ucast head))))
       (one_start_read fuel script q)"

definition one_read_with_token :: "'a one \<Rightarrow> token \<Rightarrow> ('a one \<times> 'a) exec" where
  "one_read_with_token q token =
     (case tok_pos token of
        None \<Rightarrow> Fault OutOfBounds
      | Some slot \<Rightarrow> one_read_slot q slot (ucast (tok_stamp token)))"

subsection \<open>Observers and drop\<close>

definition one_is_empty :: "'a one \<Rightarrow> bool" where
  "one_is_empty q = (let (head, tail) = one_unpack (one_pos q) in head = tail)"

definition one_is_full :: "'a one \<Rightarrow> bool" where
  "one_is_full q = (\<not> one_is_empty q)"

definition one_len :: "'a one \<Rightarrow> nat" where
  "one_len q = (if one_is_full q then 1 else 0)"

definition one_capacity :: "'a one \<Rightarrow> nat option" where
  "one_capacity q = Some 1"

definition one_drop :: "bool \<Rightarrow> 'a one \<Rightarrow> 'a list exec" where
  "one_drop needs_drop q =
     (if needs_drop
      then let (head, tail) = one_unpack (one_pos q)
        in if head \<noteq> tail
           then let index = one_index head
             in if index < length (one_slots q)
                then exec_map (\<lambda>v. [v]) (os_drop (one_slots q ! index)) else Fault Panic
           else Done []
      else Done [])"

section \<open>The abstraction to a list\<close>

text \<open>
  Ticket \<open>p\<close> is the word \<open>of_nat p\<close> at any width: the queues with one slot pair count tickets without
  laps, and the parity of a ticket survives the wrap-around.
\<close>

definition one_cell :: "nat \<Rightarrow> 'a list \<Rightarrow> nat \<Rightarrow> 'a one_slot" where
  "one_cell h xs p =
     (if p < h + length xs then \<lparr>os_value = Some (xs ! (p - h)), os_stamp = of_nat (p + 1)\<rparr>
      else \<lparr>os_value = None, os_stamp = of_nat p\<rparr>)"

definition one_repr :: "'a one \<Rightarrow> nat \<Rightarrow> 'a list \<Rightarrow> bool" where
  "one_repr q h xs \<longleftrightarrow> length xs \<le> 1 \<and> length (one_slots q) = 2 \<and>
     one_pos q = one_pack (of_nat h) (of_nat (h + length xs)) \<and> ring_buf (one_cell h xs) (one_slots q) h"

definition one_inv :: "'a one \<Rightarrow> bool" where
  "one_inv q \<longleftrightarrow> (\<exists>h xs. one_repr q h xs)"

definition one_content :: "'a one \<Rightarrow> 'a list" where
  "one_content q =
     (let (head, tail) = one_unpack (one_pos q)
      in if head = tail then [] else [the (os_value (one_slots q ! one_index head))])"

lemma parity_index: "unat ((of_nat p :: 'l::len word) AND 1) = p mod 2"
proof -
  have "(of_nat p :: 'l word) AND 1 = take_bit (Suc 0) (of_nat p)"
    by (simp add: take_bit_eq_mask)
  also have "\<dots> = of_nat (p mod 2)" by (simp only: take_bit_of_nat) (simp add: take_bit_eq_mod)
  finally show ?thesis by (cases "even p") (simp_all add: mod2_eq_if)
qed

lemma one_index_of_nat [simp]: "one_index (of_nat p) = p mod 2"
  by (simp add: one_index_def parity_index)

lemma one_unpack_pack [simp]: "one_unpack (one_pack h t) = (h, t)"
  by (simp add: one_unpack_def one_pack_def)

lemma ticket_neq: "(of_nat p :: 'l::len word) \<noteq> of_nat p + 1"
  by simp

lemma one_reprD:
  assumes "one_repr q h xs"
  shows "length xs \<le> 1" "length (one_slots q) = 2" "one_pos q = one_pack (of_nat h) (of_nat (h + length xs))"
    "ring_buf (one_cell h xs) (one_slots q) h" "h mod 2 < length (one_slots q)"
    "one_slots q ! (h mod 2) = one_cell h xs h"
  using assms ring_bufD [of "one_cell h xs" "one_slots q" h h] by (auto simp: one_repr_def)

lemma one_repr_cases:
  assumes "one_repr q h xs"
  obtains "xs = []" | x where "xs = [x]"
  using one_reprD(1) [OF assms] by (cases xs) auto

lemma one_repr_content: "one_repr q h xs \<Longrightarrow> one_content q = xs"
  by (rule one_repr_cases) (auto simp: one_content_def one_reprD one_cell_def ticket_neq)

lemma one_repr_inv: "one_repr q h xs \<Longrightarrow> one_inv q \<and> one_content q = xs"
  using one_inv_def one_repr_content by blast

lemma one_inv_repr: "one_inv q \<Longrightarrow> \<exists>h. one_repr q h (one_content q)"
  unfolding one_inv_def using one_repr_content by blast

lemma one_new_repr: "one_repr one_new 0 []"
  by (auto simp: one_repr_def one_new_def one_pack_def pack32_def ring_buf_def one_cell_def os_init_def
      less_Suc_eq numeral_2_eq_2)

lemma one_is_empty_repr: "one_repr q h xs \<Longrightarrow> one_is_empty q \<longleftrightarrow> xs = []"
  by (rule one_repr_cases) (auto simp: one_is_empty_def one_reprD ticket_neq)

section \<open>Operations\<close>

lemma one_push_empty:
  assumes r0: "one_repr q h []" and "length script < fuel"
  shows "\<exists>q'. one_try_push fuel script q x = Done (q', True) \<and> one_repr q' h [x]"
  using assms(2) unfolding one_try_push_def
proof (induction fuel arbitrary: script)
  case 0
  then show ?case by simp
next
  case (Suc fuel)
  note r = one_reprD [OF r0]
  obtain sp script' where s: "next_spurious script = (sp, script')" by fastforce
  then have len: "sp \<Longrightarrow> length script' < fuel" using Suc.prems by (cases script) auto
  show ?case
  proof (cases sp)
    case True
    with Suc.IH [OF len] s r(3) show ?thesis by (simp add: cas_weak_def)
  next
    case False
    let ?s = "\<lparr>os_value = Some x, os_stamp = of_nat (h + 1)\<rparr>"
    let ?q = "q\<lparr>one_pos := one_pack (of_nat h) (of_nat (h + 1)), one_slots := (one_slots q)[h mod 2 := ?s]\<rparr>"
    have "one_push_loop (Suc fuel) script q (one_pos q) x = Done (?q, True)"
      using False s r by (simp add: cas_weak_def os_write_def one_cell_def add.commute)
    moreover have "ring_buf ((one_cell h [])(h := ?s)) ((one_slots q)[h mod 2 := ?s]) h"
      using ring_buf_update [OF r(4), of h ?s] r(2) by simp
    then have "ring_buf (one_cell h [x]) ((one_slots q)[h mod 2 := ?s]) h"
      by (rule ring_buf_cong) (auto simp: one_cell_def less_Suc_eq)
    then have "one_repr ?q h [x]" using r by (simp add: one_repr_def)
    ultimately show ?thesis by blast
  qed
qed

lemma one_push_full:
  assumes "one_repr q h [y]" "0 < fuel"
  shows "one_try_push fuel script q x = Done (q, False)"
proof -
  obtain n where "fuel = Suc n" using assms(2) gr0_implies_Suc by blast
  with one_reprD(3) [OF assms(1)] show ?thesis
    by (auto simp: one_try_push_def ticket_neq split: prod.splits)
qed

lemma one_start_read_some:
  assumes r0: "one_repr q h [x]" and "length script < fuel"
  shows "one_start_read fuel script q =
    Done (q\<lparr>one_pos := one_pack (of_nat (h + 1)) (of_nat (h + 1))\<rparr>, Some (h mod 2, of_nat (h + 1)))"
  using assms(2) unfolding one_start_read_def
proof (induction fuel arbitrary: script)
  case 0
  then show ?case by simp
next
  case (Suc fuel)
  note r = one_reprD [OF r0]
  obtain sp script' where s: "next_spurious script = (sp, script')" by fastforce
  then have len: "sp \<Longrightarrow> length script' < fuel" using Suc.prems by (cases script) auto
  have neq: "(of_nat h :: u16) \<noteq> of_nat (h + 1)" by simp
  show ?case
  proof (cases sp)
    case True
    with Suc.IH [OF len] s r(3) neq show ?thesis by (simp add: cas_weak_def)
  next
    case False
    with s r(3) neq show ?thesis by (simp add: cas_weak_def)
  qed
qed

lemma one_read_slot_head:
  assumes r0: "one_repr q h [x]"
  shows "\<exists>q'. one_read_slot (q\<lparr>one_pos := one_pack (of_nat (h + 1)) (of_nat (h + 1))\<rparr>) (h mod 2) (of_nat (h + 1)) =
    Done (q', x) \<and> one_repr q' (Suc h) []"
proof -
  note r = one_reprD [OF r0]
  let ?s = "\<lparr>os_value = None, os_stamp = of_nat (h + 2)\<rparr> :: 'a one_slot"
  let ?q = "q\<lparr>one_pos := one_pack (of_nat (h + 1)) (of_nat (h + 1)), one_slots := (one_slots q)[h mod 2 := ?s]\<rparr>"
  have "one_read_slot (q\<lparr>one_pos := one_pack (of_nat (h + 1)) (of_nat (h + 1))\<rparr>) (h mod 2) (of_nat (h + 1)) =
      Done (?q, x)"
    using r(5,6) by (simp add: one_read_slot_def os_read_def one_cell_def)
  moreover have "ring_buf ((one_cell h [x])(h := ?s)) ((one_slots q)[h mod 2 := ?s]) h"
    using ring_buf_update [OF r(4), of h ?s] r(2) by simp
  from ring_buf_advance [OF this] r(2)
  have "ring_buf ((one_cell h [x])(h := ?s, h + 2 := ?s)) ((one_slots q)[h mod 2 := ?s]) (Suc h)" by simp
  then have "ring_buf (one_cell (Suc h) []) ((one_slots q)[h mod 2 := ?s]) (Suc h)"
    by (rule ring_buf_cong) (auto simp: one_cell_def)
  then have "one_repr ?q (Suc h) []" using r(2) by (simp add: one_repr_def)
  ultimately show ?thesis by blast
qed

lemma one_pop_some:
  assumes "one_repr q h [x]" "length script < fuel"
  shows "\<exists>q'. one_pop fuel script q = Done (q', Some x) \<and> one_repr q' (Suc h) []"
  using one_read_slot_head [OF assms(1)] by (auto simp: one_pop_def one_start_read_some [OF assms])

lemma one_pop_none:
  assumes "one_repr q h []" "0 < fuel"
  shows "one_pop fuel script q = Done (q, None)"
proof -
  obtain n where "fuel = Suc n" using assms(2) gr0_implies_Suc by blast
  with one_reprD(3) [OF assms(1)] show ?thesis
    by (auto simp: one_pop_def one_start_read_def split: prod.splits)
qed

lemma one_drop_content:
  assumes "one_repr q h xs"
  shows "one_drop True q = Done xs"
proof -
  note r = one_reprD [OF assms]
  from assms show ?thesis
    by (rule one_repr_cases) (use r in \<open>auto simp: one_drop_def os_drop_def one_cell_def ticket_neq\<close>)
qed

section \<open>The queue interface\<close>

definition one_push_s :: "bool list \<Rightarrow> 'a one \<Rightarrow> 'a \<Rightarrow> ('a one \<times> bool) exec" where
  "one_push_s script = one_try_push (Suc (length script)) script"

definition one_pop_s :: "bool list \<Rightarrow> 'a one \<Rightarrow> ('a one \<times> 'a option) exec" where
  "one_pop_s script = one_pop (Suc (length script)) script"

interpretation onei: fifo_obs one_capacity "one_push_s script" "one_pop_s script" one_inv one_content
    one_len one_is_empty one_is_full
  for script :: "bool list"
proof (unfold_locales, goal_cases)
  case (1 q x)
  then obtain h where r: "one_repr q h (one_content q)" using one_inv_repr by blast
  from 1(2) have e: "one_content q = []" by (simp add: has_room_def one_capacity_def)
  from one_push_empty [OF r [unfolded e], of script "Suc (length script)" x] e show ?case
    by (auto simp: one_push_s_def one_capacity_def dest: one_repr_inv)
next
  case (2 q x)
  then obtain h where r: "one_repr q h (one_content q)" using one_inv_repr by blast
  from 2(2) have "one_content q \<noteq> []" by (auto simp: has_room_def one_capacity_def)
  then obtain y where "one_content q = [y]" using one_reprD(1) [OF r] by (cases "one_content q") auto
  with one_push_full [of q h y "Suc (length script)"] r 2(1) show ?case by (auto simp: one_push_s_def)
next
  case (3 q x xs)
  then obtain h where r: "one_repr q h (x # xs)" using one_inv_repr by metis
  then have e: "xs = []" using one_reprD(1) by fastforce
  from one_pop_some [OF r [unfolded e], of script "Suc (length script)"] e show ?case
    by (auto simp: one_pop_s_def one_capacity_def dest: one_repr_inv)
next
  case (4 q)
  then obtain h where "one_repr q h []" using one_inv_repr by metis
  from one_pop_none [OF this, of "Suc (length script)"] 4 show ?case by (auto simp: one_pop_s_def)
next
  case (5 q)
  then obtain h where "one_repr q h (one_content q)" using one_inv_repr by blast
  with one_is_empty_repr [OF this] one_reprD(1) [OF this] show ?case
    by (cases "one_content q") (auto simp: one_len_def one_is_full_def)
next
  case (6 q)
  then show ?case using one_is_empty_repr one_inv_repr by blast
next
  case (7 q)
  then obtain h where "one_repr q h (one_content q)" using one_inv_repr by blast
  with one_is_empty_repr [OF this] one_reprD(1) [OF this] show ?case
    by (cases "one_content q") (auto simp: has_room_def one_capacity_def one_is_full_def)
qed

lemma one_pop_eq_select:
  "one_pop fuel script q =
     exec_bind (one_try_select fuel script q) (\<lambda>(q', t).
       case t of Some tok \<Rightarrow> exec_map (map_prod id Some) (one_read_with_token q' tok)
       | None \<Rightarrow> Done (q', None))"
  by (cases "one_start_read fuel script q")
    (auto simp: one_pop_def one_try_select_def one_read_with_token_def token_new_def split: option.splits)

section \<open>Properties\<close>

text \<open>
  Every sequence of pushes and pops on a new one-slot queue returns, whatever spurious failures of
  the compare-exchange occur and across the wrap-around of the 16-bit tickets, and answers what a list
  of capacity one answers; no wait for a stamp spins. Dropping the queue destroys exactly the element
  it still holds.
\<close>

theorem one_run_refines:
  "\<exists>q' rs. run_ops (one_push_s script) (one_pop_s script) one_new ps = Done (q', rs) \<and>
    spec_run (Some 1) [] ps = (one_content q', rs) \<and> one_drop True q' = Done (one_content q')"
proof -
  have i: "one_inv (one_new :: 'a one)" "one_content (one_new :: 'a one) = []"
    using one_repr_inv [OF one_new_repr] by auto
  from onei.run_refines [OF i(1), of script ps] i(2) obtain q' rs where
    r: "run_ops (one_push_s script) (one_pop_s script) one_new ps = Done (q', rs)" "one_inv q'"
      "spec_run (Some 1) [] ps = (one_content q', rs)" by (auto simp: one_capacity_def)
  moreover from r(2) have "one_drop True q' = Done (one_content q')"
    using one_inv_repr one_drop_content by blast
  ultimately show ?thesis by blast
qed

end
