(* ===== verification/One_Single.thy ===== *)
theory One_Single
  imports One_Queue
begin

unbundle bit_operations_syntax

text \<open>
  The one-element queues for a single consumer: \<^verbatim>\<open>src/src/flavor/one_mpsc.rs\<close>, where the single reader
  frees the position before it waits for the slot's stamp and popping leaves the stamp as it is, and
  \<^verbatim>\<open>src/src/flavor/one_spmc.rs\<close> (\<^verbatim>\<open>OneSpsc\<close>), which has no stamps at all and counts 32-bit tickets in
  one 64-bit atomic.
\<close>

section \<open>OneMpsc\<close>

record 'a oms_slot =
  oms_value :: "'a option"
  oms_stamp :: u16

record 'a one_mpsc =
  om_pos :: u32
  om_slots :: "'a oms_slot list"

definition oms_init :: "u16 \<Rightarrow> 'a oms_slot" where
  "oms_init i = \<lparr>oms_value = None, oms_stamp = i\<rparr>"

definition oms_write :: "'a oms_slot \<Rightarrow> u16 \<Rightarrow> 'a \<Rightarrow> 'a oms_slot" where
  "oms_write s tail value = \<lparr>oms_value = Some value, oms_stamp = tail + 1\<rparr>"

definition oms_read :: "'a oms_slot \<Rightarrow> u16 \<Rightarrow> ('a oms_slot \<times> 'a) exec" where
  "oms_read s head =
     (if oms_stamp s = head
      then case oms_value s of None \<Rightarrow> Fault Uninit | Some msg \<Rightarrow> Done (s\<lparr>oms_value := None\<rparr>, msg)
      else Spin)"

definition oms_drop :: "'a oms_slot \<Rightarrow> 'a exec" where
  "oms_drop s = (case oms_value s of None \<Rightarrow> Fault Uninit | Some v \<Rightarrow> Done v)"

definition om_new :: "'a one_mpsc" where
  "om_new = \<lparr>om_pos = 0, om_slots = [oms_init 0, oms_init 1]\<rparr>"

definition om_unpack :: "u32 \<Rightarrow> u16 \<times> u16" where
  "om_unpack pos = (hi32 pos, lo32 pos)"

definition om_pack :: "u16 \<Rightarrow> u16 \<Rightarrow> u32" where
  "om_pack head tail = pack32 head tail"

fun om_push_loop :: "nat \<Rightarrow> bool list \<Rightarrow> 'a one_mpsc \<Rightarrow> u32 \<Rightarrow> 'a \<Rightarrow> ('a one_mpsc \<times> bool) exec" where
  "om_push_loop 0 script q pos value = Spin"
| "om_push_loop (Suc fuel) script q pos value =
     (let (sp, script') = next_spurious script; (head, tail) = om_unpack pos
      in if head = tail
         then case cas_weak sp pos (om_pack head (tail + 1)) (om_pos q) of
             (new_pos, Inr _) \<Rightarrow>
               let index = one_index tail
               in if index < length (om_slots q)
                  then Done (q\<lparr>om_pos := new_pos,
                    om_slots := (om_slots q)[index := oms_write (om_slots q ! index) tail value]\<rparr>, True)
                  else Fault Panic
           | (_, Inl pos') \<Rightarrow> om_push_loop fuel script' q pos' value
         else Done (q, False))"

definition om_try_push :: "nat \<Rightarrow> bool list \<Rightarrow> 'a one_mpsc \<Rightarrow> 'a \<Rightarrow> ('a one_mpsc \<times> bool) exec" where
  "om_try_push fuel script q value = om_push_loop fuel script q (om_pos q) value"

definition om_push :: "nat \<Rightarrow> bool list \<Rightarrow> 'a one_mpsc \<Rightarrow> 'a \<Rightarrow> ('a one_mpsc \<times> ('a + unit)) exec" where
  "om_push fuel script q item =
     exec_map (map_prod id (\<lambda>ok. if ok then Inr () else Inl item)) (om_try_push fuel script q item)"

definition om_try_send :: "nat \<Rightarrow> bool list \<Rightarrow> 'a one_mpsc \<Rightarrow> 'a \<Rightarrow> ('a one_mpsc \<times> bool) exec" where
  "om_try_send fuel script q item = om_try_push fuel script q item"

definition om_try_send_oneshot :: "nat \<Rightarrow> bool list \<Rightarrow> 'a one_mpsc \<Rightarrow> 'a \<Rightarrow> ('a one_mpsc \<times> bool option) exec" where
  "om_try_send_oneshot fuel script q item = exec_map (map_prod id Some) (om_try_push fuel script q item)"

definition om_start_read :: "'a one_mpsc \<Rightarrow> (nat \<times> u16) option" where
  "om_start_read q =
     (let (head, tail) = om_unpack (om_pos q)
      in if head = tail then None else Some (one_index head, tail))"

text \<open>The position is freed before the slot is read.\<close>

definition om_read :: "'a one_mpsc \<Rightarrow> nat \<Rightarrow> u16 \<Rightarrow> ('a one_mpsc \<times> 'a) exec" where
  "om_read q index next_head =
     (let q' = q\<lparr>om_pos := om_pack next_head next_head\<rparr>
      in if index < length (om_slots q')
         then exec_map (\<lambda>(s, msg). (q'\<lparr>om_slots := (om_slots q')[index := s]\<rparr>, msg))
           (oms_read (om_slots q' ! index) next_head)
         else Fault Panic)"

definition om_pop :: "'a one_mpsc \<Rightarrow> ('a one_mpsc \<times> 'a option) exec" where
  "om_pop q =
     (case om_start_read q of
        Some (index, new_head) \<Rightarrow> exec_map (map_prod id Some) (om_read q index new_head)
      | None \<Rightarrow> Done (q, None))"

definition om_try_recv :: "'a one_mpsc \<Rightarrow> ('a one_mpsc \<times> 'a option) exec" where
  "om_try_recv q = om_pop q"

definition om_try_recv_final :: "'a one_mpsc \<Rightarrow> ('a one_mpsc \<times> 'a option) exec" where
  "om_try_recv_final q = om_pop q"

definition om_try_select :: "'a one_mpsc \<Rightarrow> ('a one_mpsc \<times> token option) exec" where
  "om_try_select q = Done (q, map_option (\<lambda>(index, head). token_new index (ucast head)) (om_start_read q))"

definition om_read_with_token :: "'a one_mpsc \<Rightarrow> token \<Rightarrow> ('a one_mpsc \<times> 'a) exec" where
  "om_read_with_token q token =
     (case tok_pos token of None \<Rightarrow> Fault OutOfBounds | Some slot \<Rightarrow> om_read q slot (ucast (tok_stamp token)))"

definition om_is_empty :: "'a one_mpsc \<Rightarrow> bool" where
  "om_is_empty q = (let (head, tail) = om_unpack (om_pos q) in head = tail)"

definition om_is_full :: "'a one_mpsc \<Rightarrow> bool" where
  "om_is_full q = (\<not> om_is_empty q)"

definition om_len :: "'a one_mpsc \<Rightarrow> nat" where
  "om_len q = (if om_is_full q then 1 else 0)"

definition om_capacity :: "'a one_mpsc \<Rightarrow> nat option" where
  "om_capacity q = Some 1"

definition om_drop :: "bool \<Rightarrow> 'a one_mpsc \<Rightarrow> 'a list exec" where
  "om_drop needs_drop q =
     (if needs_drop
      then let (head, tail) = om_unpack (om_pos q)
        in if head \<noteq> tail
           then let index = one_index head
             in if index < length (om_slots q)
                then exec_map (\<lambda>v. [v]) (oms_drop (om_slots q ! index)) else Fault Panic
           else Done []
      else Done [])"

section \<open>OneSpsc\<close>

type_synonym 'a osp_slot = "'a option"

record 'a one_sp =
  osp_pos :: u64
  osp_slots :: "'a osp_slot list"

definition osp_new :: "'a one_sp" where
  "osp_new = \<lparr>osp_pos = 0, osp_slots = [None, None]\<rparr>"

definition osp_unpack :: "u64 \<Rightarrow> u32 \<times> u32" where
  "osp_unpack pos = (hi64 pos, lo64 pos)"

definition osp_pack :: "u32 \<Rightarrow> u32 \<Rightarrow> u64" where
  "osp_pack head tail = pack64 head tail"

definition osp_index :: "u32 \<Rightarrow> nat" where
  "osp_index w = unat (w AND 1)"

definition osp_try_push :: "'a one_sp \<Rightarrow> 'a \<Rightarrow> ('a one_sp \<times> bool) exec" where
  "osp_try_push q value =
     (let (head, tail) = osp_unpack (osp_pos q)
      in if head = tail
         then let new_tail = tail + 1; index = osp_index new_tail
           in if index < length (osp_slots q)
              then Done (q\<lparr>osp_slots := (osp_slots q)[index := Some value],
                osp_pos := osp_pack head new_tail\<rparr>, True)
              else Fault Panic
         else Done (q, False))"

definition osp_push :: "'a one_sp \<Rightarrow> 'a \<Rightarrow> ('a one_sp \<times> ('a + unit)) exec" where
  "osp_push q item = exec_map (map_prod id (\<lambda>ok. if ok then Inr () else Inl item)) (osp_try_push q item)"

definition osp_try_send :: "'a one_sp \<Rightarrow> 'a \<Rightarrow> ('a one_sp \<times> bool) exec" where
  "osp_try_send q item = osp_try_push q item"

definition osp_try_send_oneshot :: "'a one_sp \<Rightarrow> 'a \<Rightarrow> ('a one_sp \<times> bool option) exec" where
  "osp_try_send_oneshot q item = exec_map (map_prod id Some) (osp_try_push q item)"

definition osp_start_read :: "'a one_sp \<Rightarrow> u32 option exec" where
  "osp_start_read q =
     (let (head, tail) = osp_unpack (osp_pos q)
      in if head = tail then Done None
         else if head + 1 = tail then Done (Some tail) else Fault Panic)"

definition osp_read :: "'a one_sp \<Rightarrow> nat \<Rightarrow> u32 \<Rightarrow> ('a one_sp \<times> 'a) exec" where
  "osp_read q index next_head =
     (let q' = q\<lparr>osp_pos := osp_pack next_head next_head\<rparr>
      in if index < length (osp_slots q')
         then case osp_slots q' ! index of
             None \<Rightarrow> Fault Uninit
           | Some msg \<Rightarrow> Done (q'\<lparr>osp_slots := (osp_slots q')[index := None]\<rparr>, msg)
         else Fault Panic)"

definition osp_pop :: "'a one_sp \<Rightarrow> ('a one_sp \<times> 'a option) exec" where
  "osp_pop q =
     exec_bind (osp_start_read q) (\<lambda>r.
       case r of
         Some tail \<Rightarrow> exec_map (map_prod id Some) (osp_read q (osp_index tail) tail)
       | None \<Rightarrow> Done (q, None))"

definition osp_try_recv :: "'a one_sp \<Rightarrow> ('a one_sp \<times> 'a option) exec" where
  "osp_try_recv q = osp_pop q"

definition osp_try_recv_final :: "'a one_sp \<Rightarrow> ('a one_sp \<times> 'a option) exec" where
  "osp_try_recv_final q = osp_pop q"

definition osp_try_select :: "'a one_sp \<Rightarrow> ('a one_sp \<times> token option) exec" where
  "osp_try_select q =
     exec_map (\<lambda>r. (q, map_option (\<lambda>tail. token_new (osp_index tail) (ucast tail)) r)) (osp_start_read q)"

definition osp_read_with_token :: "'a one_sp \<Rightarrow> token \<Rightarrow> ('a one_sp \<times> 'a) exec" where
  "osp_read_with_token q token =
     (case tok_pos token of None \<Rightarrow> Fault OutOfBounds | Some slot \<Rightarrow> osp_read q slot (ucast (tok_stamp token)))"

definition osp_is_empty :: "'a one_sp \<Rightarrow> bool" where
  "osp_is_empty q = (let (head, tail) = osp_unpack (osp_pos q) in head = tail)"

definition osp_is_full :: "'a one_sp \<Rightarrow> bool" where
  "osp_is_full q = (\<not> osp_is_empty q)"

definition osp_len :: "'a one_sp \<Rightarrow> nat" where
  "osp_len q = (if osp_is_empty q then 0 else 1)"

definition osp_capacity :: "'a one_sp \<Rightarrow> nat option" where
  "osp_capacity q = Some 1"

definition osp_drop :: "bool \<Rightarrow> 'a one_sp \<Rightarrow> 'a list exec" where
  "osp_drop needs_drop q =
     (if needs_drop
      then let (head, tail) = osp_unpack (osp_pos q)
        in if head \<noteq> tail
           then let index = osp_index tail
             in if index < length (osp_slots q)
                then case osp_slots q ! index of None \<Rightarrow> Fault Uninit | Some v \<Rightarrow> Done [v]
                else Fault Panic
           else Done []
      else Done [])"

section \<open>OneMpsc is a list of capacity one\<close>

definition om_repr :: "'a one_mpsc \<Rightarrow> nat \<Rightarrow> 'a list \<Rightarrow> bool" where
  "om_repr q h xs \<longleftrightarrow> length xs \<le> 1 \<and> length (om_slots q) = 2 \<and>
     om_pos q = om_pack (of_nat h) (of_nat (h + length xs)) \<and>
     (case xs of
        [] \<Rightarrow> True
      | x # _ \<Rightarrow> om_slots q ! (h mod 2) = \<lparr>oms_value = Some x, oms_stamp = of_nat (h + 1)\<rparr>)"

definition om_inv :: "'a one_mpsc \<Rightarrow> bool" where
  "om_inv q \<longleftrightarrow> (\<exists>h xs. om_repr q h xs)"

definition om_content :: "'a one_mpsc \<Rightarrow> 'a list" where
  "om_content q =
     (let (head, tail) = om_unpack (om_pos q)
      in if head = tail then [] else [the (oms_value (om_slots q ! one_index head))])"

lemma om_unpack_pack [simp]: "om_unpack (om_pack h t) = (h, t)"
  by (simp add: om_unpack_def om_pack_def)

lemma om_repr_cases:
  assumes "om_repr q h xs"
  obtains "xs = []" "om_pos q = om_pack (of_nat h) (of_nat h)" "length (om_slots q) = 2"
  | x where "xs = [x]" "om_pos q = om_pack (of_nat h) (of_nat h + 1)" "length (om_slots q) = 2"
      "om_slots q ! (h mod 2) = \<lparr>oms_value = Some x, oms_stamp = of_nat h + 1\<rparr>"
  using assms by (cases xs) (auto simp: om_repr_def add.commute)

lemma om_repr_content: "om_repr q h xs \<Longrightarrow> om_content q = xs"
  by (rule om_repr_cases) (auto simp: om_content_def)

lemma om_repr_inv: "om_repr q h xs \<Longrightarrow> om_inv q \<and> om_content q = xs"
  using om_inv_def om_repr_content by blast

lemma om_inv_repr: "om_inv q \<Longrightarrow> \<exists>h. om_repr q h (om_content q)"
  unfolding om_inv_def using om_repr_content by blast

lemma om_new_repr: "om_repr om_new 0 []"
  by (simp add: om_repr_def om_new_def om_pack_def pack32_def)

lemma om_push_empty:
  assumes r: "om_pos q = om_pack (of_nat h) (of_nat h)" "length (om_slots q) = 2" and "length script < fuel"
  shows "\<exists>q'. om_try_push fuel script q x = Done (q', True) \<and> om_repr q' h [x]"
  using assms(3) unfolding om_try_push_def
proof (induction fuel arbitrary: script)
  case 0
  then show ?case by simp
next
  case (Suc fuel)
  obtain sp script' where s: "next_spurious script = (sp, script')" by fastforce
  then have len: "sp \<Longrightarrow> length script' < fuel" using Suc.prems by (cases script) auto
  show ?case
  proof (cases sp)
    case True
    with Suc.IH [OF len] s r show ?thesis by (simp add: cas_weak_def)
  next
    case False
    with s r show ?thesis by (simp add: cas_weak_def om_repr_def oms_write_def add.commute)
  qed
qed

lemma om_push_full:
  assumes "om_pos q = om_pack (of_nat h) (of_nat h + 1)" "0 < fuel"
  shows "om_try_push fuel script q x = Done (q, False)"
proof -
  obtain n where "fuel = Suc n" using assms(2) gr0_implies_Suc by blast
  with assms(1) show ?thesis by (auto simp: om_try_push_def split: prod.splits)
qed

lemma om_pop_some:
  assumes "om_repr q h [x]"
  shows "\<exists>q'. om_pop q = Done (q', Some x) \<and> om_repr q' (Suc h) []"
  using assms
  by (auto simp: om_repr_def om_pop_def om_start_read_def om_read_def oms_read_def add.commute)

lemma om_drop_content: "om_repr q h xs \<Longrightarrow> om_drop True q = Done xs"
  by (rule om_repr_cases) (auto simp: om_drop_def oms_drop_def)

definition om_push_s :: "bool list \<Rightarrow> 'a one_mpsc \<Rightarrow> 'a \<Rightarrow> ('a one_mpsc \<times> bool) exec" where
  "om_push_s script = om_try_push (Suc (length script)) script"

interpretation omi: fifo_obs om_capacity "om_push_s script" om_pop om_inv om_content om_len om_is_empty om_is_full
  for script :: "bool list"
proof (unfold_locales, goal_cases)
  case (1 q x)
  then obtain h where r: "om_repr q h (om_content q)" using om_inv_repr by blast
  from 1(2) have e: "om_content q = []" by (simp add: has_room_def om_capacity_def)
  with r have "om_pos q = om_pack (of_nat h) (of_nat h)" "length (om_slots q) = 2"
    by (auto elim: om_repr_cases)
  from om_push_empty [OF this, of script "Suc (length script)" x] e show ?case
    by (auto simp: om_push_s_def om_capacity_def dest: om_repr_inv)
next
  case (2 q x)
  then obtain h where "om_repr q h (om_content q)" using om_inv_repr by blast
  moreover from 2(2) have "om_content q \<noteq> []" by (auto simp: has_room_def om_capacity_def)
  ultimately show ?case using om_push_full [of q h "Suc (length script)" script x] 2(1)
    by (auto simp: om_push_s_def elim: om_repr_cases)
next
  case (3 q x xs)
  then obtain h where r: "om_repr q h (x # xs)" using om_inv_repr by metis
  then have e: "xs = []" by (rule om_repr_cases) auto
  from om_pop_some [OF r [unfolded e]] e show ?case by (auto simp: om_capacity_def dest: om_repr_inv)
next
  case (4 q)
  then obtain h where "om_repr q h []" using om_inv_repr by metis
  with 4 show ?case by (auto simp: om_pop_def om_start_read_def elim: om_repr_cases)
next
  case (5 q)
  then obtain h where "om_repr q h (om_content q)" using om_inv_repr by blast
  then show ?case by (rule om_repr_cases) (auto simp: om_len_def om_is_full_def om_is_empty_def)
next
  case (6 q)
  then obtain h where "om_repr q h (om_content q)" using om_inv_repr by blast
  then show ?case by (rule om_repr_cases) (auto simp: om_is_empty_def)
next
  case (7 q)
  then obtain h where "om_repr q h (om_content q)" using om_inv_repr by blast
  then show ?case
    by (rule om_repr_cases) (auto simp: om_is_full_def om_is_empty_def has_room_def om_capacity_def)
qed

section \<open>OneSpsc is a list of capacity one\<close>

definition osp_repr :: "'a one_sp \<Rightarrow> nat \<Rightarrow> 'a list \<Rightarrow> bool" where
  "osp_repr q h xs \<longleftrightarrow> length xs \<le> 1 \<and> length (osp_slots q) = 2 \<and>
     osp_pos q = osp_pack (of_nat h) (of_nat (h + length xs)) \<and>
     (case xs of [] \<Rightarrow> True | x # _ \<Rightarrow> osp_slots q ! (Suc h mod 2) = Some x)"

definition osp_inv :: "'a one_sp \<Rightarrow> bool" where
  "osp_inv q \<longleftrightarrow> (\<exists>h xs. osp_repr q h xs)"

definition osp_content :: "'a one_sp \<Rightarrow> 'a list" where
  "osp_content q =
     (let (head, tail) = osp_unpack (osp_pos q)
      in if head = tail then [] else [the (osp_slots q ! osp_index tail)])"

lemma osp_unpack_pack [simp]: "osp_unpack (osp_pack h t) = (h, t)"
  by (simp add: osp_unpack_def osp_pack_def)

lemma osp_index_of_nat [simp]: "osp_index (of_nat p) = p mod 2"
  by (simp add: osp_index_def parity_index)

lemma osp_index_Suc [simp]:
  "osp_index (of_nat p + 1) = Suc p mod 2" "osp_index (1 + of_nat p) = Suc p mod 2"
  using osp_index_of_nat [of "Suc p"] by (simp_all add: add.commute)

lemma osp_repr_cases:
  assumes "osp_repr q h xs"
  obtains "xs = []" "osp_pos q = osp_pack (of_nat h) (of_nat h)" "length (osp_slots q) = 2"
  | x where "xs = [x]" "osp_pos q = osp_pack (of_nat h) (of_nat h + 1)" "length (osp_slots q) = 2"
      "osp_slots q ! (Suc h mod 2) = Some x"
  using assms by (cases xs) (auto simp: osp_repr_def add.commute)

lemma osp_repr_content: "osp_repr q h xs \<Longrightarrow> osp_content q = xs"
  by (rule osp_repr_cases) (auto simp: osp_content_def)

lemma osp_repr_inv: "osp_repr q h xs \<Longrightarrow> osp_inv q \<and> osp_content q = xs"
  using osp_inv_def osp_repr_content by blast

lemma osp_inv_repr: "osp_inv q \<Longrightarrow> \<exists>h. osp_repr q h (osp_content q)"
  unfolding osp_inv_def using osp_repr_content by blast

lemma osp_new_repr: "osp_repr osp_new 0 []"
  by (simp add: osp_repr_def osp_new_def osp_pack_def pack64_def)

lemma osp_push_empty:
  assumes "osp_repr q h []"
  shows "\<exists>q'. osp_try_push q x = Done (q', True) \<and> osp_repr q' h [x]"
  using assms by (auto simp: osp_repr_def osp_try_push_def add.commute)

lemma osp_pop_some:
  assumes "osp_repr q h [x]"
  shows "\<exists>q'. osp_pop q = Done (q', Some x) \<and> osp_repr q' (Suc h) []"
  using assms by (auto simp: osp_pop_def osp_start_read_def osp_read_def osp_repr_def add.commute Let_def)

lemma osp_drop_content: "osp_repr q h xs \<Longrightarrow> osp_drop True q = Done xs"
  by (rule osp_repr_cases) (auto simp: osp_drop_def)

interpretation ospi: fifo_obs osp_capacity osp_try_push osp_pop osp_inv osp_content osp_len osp_is_empty osp_is_full
proof (unfold_locales, goal_cases)
  case (1 q x)
  then obtain h where r: "osp_repr q h (osp_content q)" using osp_inv_repr by blast
  from 1(2) have e: "osp_content q = []" by (simp add: has_room_def osp_capacity_def)
  from osp_push_empty [OF r [unfolded e], of x] e show ?case
    by (auto simp: osp_capacity_def dest: osp_repr_inv)
next
  case (2 q x)
  then obtain h where "osp_repr q h (osp_content q)" using osp_inv_repr by blast
  moreover from 2(2) have "osp_content q \<noteq> []" by (auto simp: has_room_def osp_capacity_def)
  ultimately show ?case using 2(1) by (auto simp: osp_try_push_def elim: osp_repr_cases)
next
  case (3 q x xs)
  then obtain h where r: "osp_repr q h (x # xs)" using osp_inv_repr by metis
  then have e: "xs = []" by (rule osp_repr_cases) auto
  from osp_pop_some [OF r [unfolded e]] e show ?case by (auto simp: osp_capacity_def dest: osp_repr_inv)
next
  case (4 q)
  then obtain h where "osp_repr q h []" using osp_inv_repr by metis
  with 4 show ?case by (auto simp: osp_pop_def osp_start_read_def elim: osp_repr_cases)
next
  case (5 q)
  then obtain h where "osp_repr q h (osp_content q)" using osp_inv_repr by blast
  then show ?case by (rule osp_repr_cases) (auto simp: osp_len_def osp_is_empty_def)
next
  case (6 q)
  then obtain h where "osp_repr q h (osp_content q)" using osp_inv_repr by blast
  then show ?case by (rule osp_repr_cases) (auto simp: osp_is_empty_def)
next
  case (7 q)
  then obtain h where "osp_repr q h (osp_content q)" using osp_inv_repr by blast
  then show ?case
    by (rule osp_repr_cases) (auto simp: osp_is_full_def osp_is_empty_def has_room_def osp_capacity_def)
qed

section \<open>Properties\<close>

text \<open>
  \<^verbatim>\<open>OneMpsc\<close>: every sequence of pushes and pops on a new queue returns and answers what a list of
  capacity one answers, although the reader frees the position before it reads the slot; the wait for
  the stamp never spins, and drop destroys exactly the element left.
\<close>

theorem om_run_refines:
  "\<exists>q' rs. run_ops (om_push_s script) om_pop om_new ps = Done (q', rs) \<and>
    spec_run (Some 1) [] ps = (om_content q', rs) \<and> om_drop True q' = Done (om_content q')"
proof -
  have i: "om_inv (om_new :: 'a one_mpsc)" "om_content (om_new :: 'a one_mpsc) = []"
    using om_repr_inv [OF om_new_repr] by auto
  from omi.run_refines [OF i(1), of script ps] i(2) obtain q' rs where
    r: "run_ops (om_push_s script) om_pop om_new ps = Done (q', rs)" "om_inv q'"
      "spec_run (Some 1) [] ps = (om_content q', rs)" by (auto simp: om_capacity_def)
  moreover from r(2) have "om_drop True q' = Done (om_content q')"
    using om_inv_repr om_drop_content by blast
  ultimately show ?thesis by blast
qed

text \<open>
  \<^verbatim>\<open>OneSpsc\<close>: every sequence of pushes and pops on a new queue returns and answers what a list of
  capacity one answers; its debug assertion that tail is head plus one never fails, also when the
  32-bit tickets wrap around, and drop destroys exactly the element left.
\<close>

theorem osp_run_refines:
  "\<exists>q' rs. run_ops osp_try_push osp_pop osp_new ps = Done (q', rs) \<and>
    spec_run (Some 1) [] ps = (osp_content q', rs) \<and> osp_drop True q' = Done (osp_content q')"
proof -
  have i: "osp_inv (osp_new :: 'a one_sp)" "osp_content (osp_new :: 'a one_sp) = []"
    using osp_repr_inv [OF osp_new_repr] by auto
  from ospi.run_refines [OF i(1), of ps] i(2) obtain q' rs where
    r: "run_ops osp_try_push osp_pop osp_new ps = Done (q', rs)" "osp_inv q'"
      "spec_run (Some 1) [] ps = (osp_content q', rs)" by (auto simp: osp_capacity_def)
  moreover from r(2) have "osp_drop True q' = Done (osp_content q')"
    using osp_inv_repr osp_drop_content by blast
  ultimately show ?thesis by blast
qed

end
