(* ===== verification/Errors.thy ===== *)
theory Errors
  imports Prelude
begin

text \<open>
  The error values of the channel operations, \<^verbatim>\<open>src/src/crossbeam/err.rs\<close>: one datatype per error type
  with the source's variants, the conversions between them (\<^verbatim>\<open>From\<close>), the accessors and the texts
  \<^verbatim>\<open>Display\<close> and \<^verbatim>\<open>Debug\<close> print.
\<close>

datatype 'a send_error = SendError 'a

datatype 'a try_send_error = TSFull 'a | TSDisconnected 'a

datatype 'a send_timeout_error = STTimeout 'a | STDisconnected 'a

datatype recv_error = RecvError

datatype try_recv_error = TREmpty | TRDisconnected

datatype recv_timeout_error = RTTimeout | RTDisconnected

section \<open>Send errors\<close>

fun send_error_into_inner :: "'a send_error \<Rightarrow> 'a" where
  "send_error_into_inner (SendError t) = t"

definition send_error_display :: "'a send_error \<Rightarrow> string" where
  "send_error_display e = ''sending on a disconnected channel''"

definition send_error_debug :: "'a send_error \<Rightarrow> string" where
  "send_error_debug e = ''SendError(..)''"

fun try_send_error_debug :: "'a try_send_error \<Rightarrow> string" where
  "try_send_error_debug (TSFull _) = ''Full(..)''"
| "try_send_error_debug (TSDisconnected _) = ''Disconnected(..)''"

fun try_send_error_display :: "'a try_send_error \<Rightarrow> string" where
  "try_send_error_display (TSFull _) = ''sending on a full channel''"
| "try_send_error_display (TSDisconnected _) = ''sending on a disconnected channel''"

fun try_send_error_from :: "'a send_error \<Rightarrow> 'a try_send_error" where
  "try_send_error_from (SendError t) = TSDisconnected t"

fun try_send_error_into_inner :: "'a try_send_error \<Rightarrow> 'a" where
  "try_send_error_into_inner (TSFull v) = v"
| "try_send_error_into_inner (TSDisconnected v) = v"

fun try_send_error_is_full :: "'a try_send_error \<Rightarrow> bool" where
  "try_send_error_is_full (TSFull _) = True"
| "try_send_error_is_full _ = False"

fun try_send_error_is_disconnected :: "'a try_send_error \<Rightarrow> bool" where
  "try_send_error_is_disconnected (TSDisconnected _) = True"
| "try_send_error_is_disconnected _ = False"

definition send_timeout_error_debug :: "'a send_timeout_error \<Rightarrow> string" where
  "send_timeout_error_debug e = ''SendTimeoutError(..)''"

fun send_timeout_error_display :: "'a send_timeout_error \<Rightarrow> string" where
  "send_timeout_error_display (STTimeout _) = ''timed out waiting on send operation''"
| "send_timeout_error_display (STDisconnected _) = ''sending on a disconnected channel''"

fun send_timeout_error_from :: "'a send_error \<Rightarrow> 'a send_timeout_error" where
  "send_timeout_error_from (SendError e) = STDisconnected e"

fun send_timeout_error_into_inner :: "'a send_timeout_error \<Rightarrow> 'a" where
  "send_timeout_error_into_inner (STTimeout v) = v"
| "send_timeout_error_into_inner (STDisconnected v) = v"

fun send_timeout_error_is_timeout :: "'a send_timeout_error \<Rightarrow> bool" where
  "send_timeout_error_is_timeout (STTimeout _) = True"
| "send_timeout_error_is_timeout _ = False"

fun send_timeout_error_is_disconnected :: "'a send_timeout_error \<Rightarrow> bool" where
  "send_timeout_error_is_disconnected (STDisconnected _) = True"
| "send_timeout_error_is_disconnected _ = False"

section \<open>Receive errors\<close>

definition recv_error_display :: "recv_error \<Rightarrow> string" where
  "recv_error_display e = ''receiving on an empty and disconnected channel''"

fun try_recv_error_display :: "try_recv_error \<Rightarrow> string" where
  "try_recv_error_display TREmpty = ''receiving on an empty channel''"
| "try_recv_error_display TRDisconnected = ''receiving on an empty and disconnected channel''"

fun try_recv_error_from :: "recv_error \<Rightarrow> try_recv_error" where
  "try_recv_error_from RecvError = TRDisconnected"

fun try_recv_error_is_empty :: "try_recv_error \<Rightarrow> bool" where
  "try_recv_error_is_empty TREmpty = True"
| "try_recv_error_is_empty TRDisconnected = False"

fun try_recv_error_is_disconnected :: "try_recv_error \<Rightarrow> bool" where
  "try_recv_error_is_disconnected TRDisconnected = True"
| "try_recv_error_is_disconnected TREmpty = False"

fun recv_timeout_error_display :: "recv_timeout_error \<Rightarrow> string" where
  "recv_timeout_error_display RTTimeout = ''timed out waiting on receive operation''"
| "recv_timeout_error_display RTDisconnected = ''channel is empty and disconnected''"

fun recv_timeout_error_from :: "recv_error \<Rightarrow> recv_timeout_error" where
  "recv_timeout_error_from RecvError = RTDisconnected"

fun recv_timeout_error_is_timeout :: "recv_timeout_error \<Rightarrow> bool" where
  "recv_timeout_error_is_timeout RTTimeout = True"
| "recv_timeout_error_is_timeout RTDisconnected = False"

fun recv_timeout_error_is_disconnected :: "recv_timeout_error \<Rightarrow> bool" where
  "recv_timeout_error_is_disconnected RTDisconnected = True"
| "recv_timeout_error_is_disconnected RTTimeout = False"

section \<open>Facts about the conversions\<close>

lemma from_send_error [simp]:
  "try_send_error_into_inner (try_send_error_from e) = send_error_into_inner e"
  "send_timeout_error_into_inner (send_timeout_error_from e) = send_error_into_inner e"
  "try_send_error_is_disconnected (try_send_error_from e)"
  "send_timeout_error_is_disconnected (send_timeout_error_from e)"
  by (cases e; simp)+

lemma from_send_error_display:
  "try_send_error_display (try_send_error_from e) = send_error_display e"
  "send_timeout_error_display (send_timeout_error_from e) = send_error_display e"
  by (cases e; simp add: send_error_display_def)+

end
