(* ===== verification/Backoff.thy ===== *)
theory Backoff
  imports Prelude
begin

unbundle bit_operations_syntax

text \<open>
  The exponential backoff of every spinning loop, \<^verbatim>\<open>src/utils/src/backoff.rs\<close>, for the x86-64 build
  with the feature \<^verbatim>\<open>std\<close>. What a call does to the processor is returned beside its result: a number
  of spin-loop hints, or a yield of the thread. A hint count is the Rust range \<^verbatim>\<open>0..1 << step\<close> over
  \<^verbatim>\<open>i32\<close>, whose shift overflows from step 32 on and whose bound is negative at step 31.
\<close>

section \<open>Configuration\<close>

definition SPIN_LIMIT :: u16 where "SPIN_LIMIT = 6"

definition DEFAULT_LIMIT :: u16 where "DEFAULT_LIMIT = 6"

definition MAX_LIMIT :: u16 where "MAX_LIMIT = 10"

record backoff_config =
  spin_limit :: u16
  limit :: u16

text \<open>
  \<^verbatim>\<open>transmute\<close> of the \<^verbatim>\<open>repr(C)\<close> pair to \<^verbatim>\<open>u32\<close> on a little-endian machine: the first field is the
  low half.
\<close>

definition config_to_u32 :: "backoff_config \<Rightarrow> u32" where
  "config_to_u32 c = pack32 (limit c) (spin_limit c)"

definition config_from_u32 :: "u32 \<Rightarrow> backoff_config" where
  "config_from_u32 w = \<lparr>spin_limit = lo32 w, limit = hi32 w\<rparr>"

definition DEFAULT_CONFIG :: u32 where
  "DEFAULT_CONFIG = config_to_u32 \<lparr>spin_limit = SPIN_LIMIT, limit = DEFAULT_LIMIT\<rparr>"

definition config_default :: backoff_config where
  "config_default = config_from_u32 DEFAULT_CONFIG"

text \<open>
  The two global atomics: the detected configuration and the flag of the first call. The number of
  processors is the answer of the operating system, a parameter.
\<close>

record backoff_globals =
  detect_config :: u32
  init_done :: bool

definition backoff_globals_init :: backoff_globals where
  "backoff_globals_init = \<lparr>detect_config = DEFAULT_CONFIG, init_done = False\<rparr>"

definition detect_backoff_cfg :: "nat option \<Rightarrow> backoff_globals \<Rightarrow> backoff_globals" where
  "detect_backoff_cfg parallelism g =
     (if init_done g then g
      else let g' = g\<lparr>init_done := True\<rparr>
        in if (case parallelism of None \<Rightarrow> 1 | Some n \<Rightarrow> n) = 1
           then g'\<lparr>detect_config := config_to_u32 \<lparr>spin_limit = 0, limit = DEFAULT_LIMIT\<rparr>\<rparr>
           else g')"

definition config_detect :: "backoff_globals \<Rightarrow> backoff_config" where
  "config_detect g = config_from_u32 (detect_config g)"

definition config_async_limit :: "backoff_config \<Rightarrow> u16 \<Rightarrow> backoff_config" where
  "config_async_limit c lim =
     (let c' = (if lim < limit c then c\<lparr>limit := lim\<rparr> else c) in c'\<lparr>spin_limit := lim\<rparr>)"

definition config_limit :: "backoff_config \<Rightarrow> u16 \<Rightarrow> backoff_config" where
  "config_limit c lim = c\<lparr>limit := lim\<rparr>"

definition config_spin :: "backoff_config \<Rightarrow> u16 \<Rightarrow> backoff_config" where
  "config_spin c lim = (if lim < spin_limit c then c\<lparr>spin_limit := lim\<rparr> else c)"

section \<open>The backoff counter\<close>

record backoff =
  step :: u16
  config :: backoff_config

datatype pause = Hints nat | Yielded

definition backoff_new :: backoff where
  "backoff_new = \<lparr>step = 0, config = config_default\<rparr>"

definition backoff_from :: "backoff_config \<Rightarrow> backoff" where
  "backoff_from c = \<lparr>step = 0, config = c\<rparr>"

text \<open>\<^verbatim>\<open>for _ in 0..1 << step\<close>.\<close>

definition spin_hints :: "u16 \<Rightarrow> nat exec" where
  "spin_hints s = (if unat s < 31 then Done (2 ^ unat s) else if unat s = 31 then Done 0 else Fault Overflow)"

definition backoff_spin :: "backoff \<Rightarrow> (backoff \<times> nat \<times> bool) exec" where
  "backoff_spin b =
     exec_bind (spin_hints (if step b < SPIN_LIMIT then step b else SPIN_LIMIT)) (\<lambda>n.
       if step b < MAX_LIMIT
       then let b' = b\<lparr>step := step b + 1\<rparr> in Done (b', n, limit (config b') \<le> step b')
       else Done (b, n, True))"

definition backoff_set_step :: "backoff \<Rightarrow> u16 \<Rightarrow> backoff" where
  "backoff_set_step b s = b\<lparr>step := s\<rparr>"

definition backoff_snooze :: "backoff \<Rightarrow> (backoff \<times> pause \<times> bool) exec" where
  "backoff_snooze b =
     (if step b < limit (config b)
      then let b' = b\<lparr>step := step b + 1\<rparr>
        in if step b' < spin_limit (config b')
           then exec_map (\<lambda>n. (b', Hints n, False)) (spin_hints (step b'))
           else Done (b', Yielded, False)
      else Done (b, Hints 0, True))"

definition backoff_yield_now :: "backoff \<Rightarrow> backoff \<times> pause \<times> bool" where
  "backoff_yield_now b =
     (if step b < limit (config b)
      then let b' = b\<lparr>step := step b + 1\<rparr> in (b', Yielded, limit (config b') \<le> step b')
      else (b, Yielded, True))"

definition backoff_is_completed :: "backoff \<Rightarrow> bool" where
  "backoff_is_completed b \<longleftrightarrow> limit (config b) \<le> step b"

definition backoff_step :: "backoff \<Rightarrow> nat" where
  "backoff_step b = unat (step b)"

definition backoff_reset :: "backoff \<Rightarrow> backoff" where
  "backoff_reset b = b\<lparr>step := 0\<rparr>"

text \<open>A waiting loop: snooze until it says the backoff is used up, counting the pauses.\<close>

fun snooze_loop :: "nat \<Rightarrow> backoff \<Rightarrow> (backoff \<times> pause list) exec" where
  "snooze_loop 0 b = Spin"
| "snooze_loop (Suc fuel) b =
     exec_bind (backoff_snooze b) (\<lambda>(b', p, done).
       if done then Done (b', []) else exec_map (map_prod id ((#) p)) (snooze_loop fuel b'))"

section \<open>Properties\<close>

text \<open>
  The configuration survives the trip through the 32-bit global atomic, both ways, so that what
  \<^verbatim>\<open>detect_backoff_cfg\<close> stores is what \<^verbatim>\<open>BackoffConfig::detect\<close> later loads.
\<close>

theorem config_u32_round_trip:
  "config_from_u32 (config_to_u32 c) = c \<and> config_to_u32 (config_from_u32 w) = w"
  by (simp add: config_from_u32_def config_to_u32_def)

lemma unat_Suc_less:
  assumes "(s :: u16) < l"
  shows "unat (s + 1) = Suc (unat s)"
proof -
  have "unat s < unat l" "unat l < 2 ^ 16"
    using assms unsigned_less [of l] by (simp_all add: word_less_nat_alt)
  then show ?thesis by (simp add: unat_word_ariths)
qed

lemma spin_hints_small: "unat s < 31 \<Longrightarrow> spin_hints s = Done (2 ^ unat s)"
  by (simp add: spin_hints_def)

lemma snooze_step:
  assumes "unat (spin_limit (config b)) \<le> 31"
  shows "backoff_snooze b =
    (if unat (step b) < unat (limit (config b))
     then Done (b\<lparr>step := step b + 1\<rparr>,
       (if Suc (unat (step b)) < unat (spin_limit (config b)) then Hints (2 ^ Suc (unat (step b))) else Yielded),
       False)
     else Done (b, Hints 0, True))"
proof (cases "step b < limit (config b)")
  case True
  note u = unat_Suc_less [OF True]
  have "spin_hints (step b + 1) = Done (2 ^ Suc (unat (step b)))"
    if "Suc (unat (step b)) < unat (spin_limit (config b))"
    using that assms by (subst spin_hints_small) (simp_all add: u)
  with True u show ?thesis by (simp add: backoff_snooze_def Let_def word_less_nat_alt)
next
  case False
  then show ?thesis by (simp add: backoff_snooze_def word_less_nat_alt)
qed

text \<open>The pause that follows the increment of the counter to \<open>s\<close>, and when its shift overflows.\<close>

definition pause_at :: "nat \<Rightarrow> nat \<Rightarrow> pause" where
  "pause_at spins s = (if s < spins then Hints (if s = 31 then 0 else 2 ^ s) else Yielded)"

definition shift_overflows :: "nat \<Rightarrow> nat \<Rightarrow> bool" where
  "shift_overflows spins s \<longleftrightarrow> s < spins \<and> 32 \<le> s"

lemma snooze_exact:
  "backoff_snooze b =
    (if unat (step b) < unat (limit (config b))
     then if shift_overflows (unat (spin_limit (config b))) (Suc (unat (step b))) then Fault Overflow
       else Done (b\<lparr>step := step b + 1\<rparr>, pause_at (unat (spin_limit (config b))) (Suc (unat (step b))), False)
     else Done (b, Hints 0, True))"
proof (cases "step b < limit (config b)")
  case True
  with unat_Suc_less [OF True] show ?thesis
    by (auto simp: backoff_snooze_def Let_def word_less_nat_alt spin_hints_def pause_at_def shift_overflows_def)
next
  case False
  then show ?thesis by (simp add: backoff_snooze_def word_less_nat_alt)
qed

lemma greater_atLeast_Suc: "m < n \<Longrightarrow> {m<..n :: nat} = insert (Suc m) {Suc m<..n}"
  by auto

text \<open>
  C40. A loop of \<^verbatim>\<open>snooze\<close> ends, and its pauses are known exactly. Whatever the configuration, given as many rounds as the counter
  is away from the limit and one more, the loop counts up to the limit, pausing once at every step: \<open>2 ^ s\<close> spin hints at a step \<open>s\<close> below the
  spin limit (none at step 31, where the 32-bit shift is negative), a yield from there on; and then it is completed. The one exception
  is a configuration with a step of at least 32 below the spin limit on the way: there the shift overflows. A spin limit of at most 32 excludes it, and so does
  a limit of at most 31.
\<close>

theorem snooze_loop_ends:
  assumes "unat (limit (config b)) - unat (step b) < fuel"
  shows "snooze_loop fuel b =
      (if \<exists>s \<in> {unat (step b)<..unat (limit (config b))}. shift_overflows (unat (spin_limit (config b))) s then Fault Overflow
       else Done (b\<lparr>step := max (step b) (limit (config b))\<rparr>,
         map (pause_at (unat (spin_limit (config b)))) [Suc (unat (step b)) ..< Suc (unat (limit (config b)))])) \<and>
    backoff_is_completed (b\<lparr>step := max (step b) (limit (config b))\<rparr>)"
proof
  show "backoff_is_completed (b\<lparr>step := max (step b) (limit (config b))\<rparr>)" by (simp add: backoff_is_completed_def)
  show "snooze_loop fuel b =
      (if \<exists>s \<in> {unat (step b)<..unat (limit (config b))}. shift_overflows (unat (spin_limit (config b))) s then Fault Overflow
       else Done (b\<lparr>step := max (step b) (limit (config b))\<rparr>,
         map (pause_at (unat (spin_limit (config b)))) [Suc (unat (step b)) ..< Suc (unat (limit (config b)))]))"
    using assms
  proof (induction fuel arbitrary: b)
    case (Suc fuel)
    let ?s = "unat (step b)" and ?l = "unat (limit (config b))" and ?b = "b\<lparr>step := step b + 1\<rparr>"
    show ?case
    proof (cases "?s < ?l")
      case False
      then have "{?s<..?l} = {}" "[Suc ?s ..< Suc ?l] = []" "max (step b) (limit (config b)) = step b"
        by (auto simp: max_def word_le_nat_alt dest: word_eq_iff_unsigned [THEN iffD2])
      with False show ?thesis by (simp add: snooze_exact)
    next
      case True
      then have lt: "step b < limit (config b)" by (simp add: word_less_nat_alt)
      note u = unat_Suc_less [OF lt]
      have m: "max (step b + 1) (limit (config b)) = max (step b) (limit (config b))"
        using True lt u by (auto simp: max_def word_le_nat_alt word_less_nat_alt)
      have "?l - unat (step ?b) < fuel" using Suc.prems True u by simp
      moreover have "[Suc ?s ..< Suc ?l] = Suc ?s # [Suc (Suc ?s) ..< Suc ?l]" using True by (intro upt_conv_Cons) simp
      ultimately show ?thesis using Suc.IH [of ?b] True u m
        by (simp add: snooze_exact greater_atLeast_Suc [OF True] del: upt_Suc)
    qed
  qed simp
qed

theorem snooze_loop_ends_witness:
  "snooze_loop 7 backoff_new = Done (backoff_new\<lparr>step := 6\<rparr>, [Hints 2, Hints 4, Hints 8, Hints 16, Hints 32, Yielded])"
proof -
  have c: "config backoff_new = \<lparr>spin_limit = 6, limit = 6\<rparr>" "step backoff_new = 0"
    by (simp_all add: backoff_new_def config_default_def config_from_u32_def DEFAULT_CONFIG_def
        config_to_u32_def SPIN_LIMIT_def DEFAULT_LIMIT_def)
  have "[Suc 0 ..< 7] = [1, 2, 3, 4, 5, 6]" by code_simp
  then show ?thesis using snooze_loop_ends [of backoff_new 7] by (simp add: c shift_overflows_def pause_at_def)
qed

end
