(* ===== verification/Waker.thy ===== *)
theory Waker
  imports Prelude
begin

unbundle bit_operations_syntax

text \<open>
  Wakers and the cells that hold them: \<^verbatim>\<open>src/src/waker.rs\<close> and \<^verbatim>\<open>src/src/collections.rs\<close>.

  Reference counting. A waker object lives in a heap indexed by its address. The owner of a waiting
  call holds the only lasting strong reference (\<^verbatim>\<open>ArcWaker\<close>, here the address); registries hold
  \<^verbatim>\<open>Weak\<close> references (here also the address), whose \<^verbatim>\<open>upgrade\<close> succeeds while the object is in the
  heap. Dropping the owner's reference removes the object. \<open>wd_log\<close> records every wake-up handed to a
  task or thread, in order.
\<close>

section \<open>States of a waker\<close>

definition W_Init :: u8 where "W_Init = 0"
definition W_Waiting :: u8 where "W_Waiting = 1"
definition W_Woken :: u8 where "W_Woken = 3"
definition W_Closed :: u8 where "W_Closed = 4"
definition W_Done :: u8 where "W_Done = 5"

lemmas waker_states = W_Init_def W_Waiting_def W_Woken_def W_Closed_def W_Done_def

datatype wake_result = WR_Woken | WR_Sent | WR_Next | WR_Skip

fun wake_result_code :: "wake_result \<Rightarrow> u8" where
  "wake_result_code WR_Woken = 1"
| "wake_result_code WR_Sent = 3"
| "wake_result_code WR_Next = 2"
| "wake_result_code WR_Skip = 4"

definition wake_result_is_done :: "wake_result \<Rightarrow> bool" where
  "wake_result_is_done r \<longleftrightarrow> wake_result_code r AND wake_result_code WR_Woken > 0"

text \<open>What a waker wakes: an async task or a blocked thread.\<close>

datatype thin_waker = Async nat | Blocking nat

record waker_inner =
  w_state :: u8
  w_seq :: u32
  w_waker :: thin_waker

section \<open>The heap of wakers\<close>

text \<open>
  A \<^verbatim>\<open>SelectWaker\<close> (\<^verbatim>\<open>src/src/waker_registry.rs\<close>) is shared by strong references between a select or
  multiplex and the channels it listens on; it has its own part of the heap.
\<close>

record select_waker =
  sw_cell :: "nat option"
  sw_hint :: usize
  sw_o_waker :: "nat option"
  sw_opened :: usize

record world =
  wd_heap :: "nat \<Rightarrow> waker_inner option"
  wd_next :: nat
  wd_sels :: "nat \<Rightarrow> select_waker option"
  wd_log :: "thin_waker list"

definition world_init :: world where
  "world_init = \<lparr>wd_heap = (\<lambda>_. None), wd_next = 0, wd_sels = (\<lambda>_. None), wd_log = []\<rparr>"

definition upgrade :: "world \<Rightarrow> nat \<Rightarrow> waker_inner option" where
  "upgrade w a = wd_heap w a"

definition set_waker :: "world \<Rightarrow> nat \<Rightarrow> waker_inner \<Rightarrow> world" where
  "set_waker w a x = w\<lparr>wd_heap := (wd_heap w)(a := Some x)\<rparr>"

definition drop_waker :: "world \<Rightarrow> nat \<Rightarrow> world" where
  "drop_waker w a = w\<lparr>wd_heap := (wd_heap w)(a := None)\<rparr>"

definition alloc_waker :: "world \<Rightarrow> thin_waker \<Rightarrow> world \<times> nat" where
  "alloc_waker w t =
     (w\<lparr>wd_heap := (wd_heap w)(wd_next w := Some \<lparr>w_state = W_Init, w_seq = 0, w_waker = t\<rparr>),
        wd_next := Suc (wd_next w)\<rparr>, wd_next w)"

definition new_async :: "world \<Rightarrow> nat \<Rightarrow> world \<times> nat" where
  "new_async w task = alloc_waker w (Async task)"

definition new_blocking :: "world \<Rightarrow> nat \<Rightarrow> world \<times> nat" where
  "new_blocking w thread = alloc_waker w (Blocking thread)"

definition wake_by_ref :: "world \<Rightarrow> waker_inner \<Rightarrow> world" where
  "wake_by_ref w x = w\<lparr>wd_log := wd_log w @ [w_waker x]\<rparr>"

text \<open>\<^verbatim>\<open>will_wake\<close>: the same task. A blocking waker is never asked.\<close>

definition will_wake :: "waker_inner \<Rightarrow> nat \<Rightarrow> bool exec" where
  "will_wake x task = (case w_waker x of Async t \<Rightarrow> Done (t = task) | Blocking _ \<Rightarrow> Fault Panic)"

section \<open>Operations on one waker\<close>

definition w_get_state :: "waker_inner \<Rightarrow> u8" where
  "w_get_state x = w_state x"

definition w_get_seq :: "waker_inner \<Rightarrow> u32" where
  "w_get_seq x = w_seq x"

definition w_set_seq :: "waker_inner \<Rightarrow> u32 \<Rightarrow> waker_inner" where
  "w_set_seq x s = x\<lparr>w_seq := s\<rparr>"

definition w_reset_init :: "waker_inner \<Rightarrow> waker_inner" where
  "w_reset_init x = x\<lparr>w_state := W_Init\<rparr>"

definition w_try_change_state :: "waker_inner \<Rightarrow> u8 \<Rightarrow> u8 \<Rightarrow> waker_inner \<times> (u8 + unit)" where
  "w_try_change_state x cur new =
     (case cas cur new (w_state x) of
        (s, Inr _) \<Rightarrow> (x\<lparr>w_state := s\<rparr>, Inr ())
      | (_, Inl s) \<Rightarrow> (x, Inl s))"

definition w_commit_waiting :: "waker_inner \<Rightarrow> waker_inner \<times> u8" where
  "w_commit_waiting x =
     (case w_try_change_state x W_Init W_Waiting of
        (x', Inl s) \<Rightarrow> (x', s)
      | (x', Inr _) \<Rightarrow> (x', W_Waiting))"

text \<open>
  The loop of \<^verbatim>\<open>change_state_smaller_eq\<close>: \<open>guess\<close> is the state the next compare-exchange expects.
\<close>

fun w_change_loop :: "nat \<Rightarrow> bool list \<Rightarrow> waker_inner \<Rightarrow> u8 \<Rightarrow> u8 \<Rightarrow> u8 \<Rightarrow> (waker_inner \<times> (u8 + u8)) exec" where
  "w_change_loop 0 script x condition target guess = Spin"
| "w_change_loop (Suc fuel) script x condition target guess =
     (let (sp, script') = next_spurious script
      in case cas_weak sp guess target (w_state x) of
           (s, Inr _) \<Rightarrow> Done (x\<lparr>w_state := s\<rparr>, Inr guess)
         | (_, Inl s) \<Rightarrow>
             if condition < s then Done (x, Inl s) else w_change_loop fuel script' x condition target s)"

definition w_change_state_smaller_eq :: "nat \<Rightarrow> bool list \<Rightarrow> waker_inner \<Rightarrow> u8 \<Rightarrow> u8 \<Rightarrow>
    (waker_inner \<times> (u8 + u8)) exec" where
  "w_change_state_smaller_eq fuel script x condition target =
     (if condition < target then w_change_loop fuel script x condition target condition else Fault Panic)"

text \<open>
  The loop of \<^verbatim>\<open>wake\<close>, over the last loaded state. The flag of the result says whether the task or thread
  was woken.
\<close>

fun w_wake_loop :: "nat \<Rightarrow> bool list \<Rightarrow> waker_inner \<Rightarrow> u8 \<Rightarrow> (waker_inner \<times> wake_result \<times> bool) exec" where
  "w_wake_loop 0 script x state = Spin"
| "w_wake_loop (Suc fuel) script x state =
     (if W_Woken \<le> state then Done (x, WR_Skip, False)
      else if state = W_Waiting then Done (x\<lparr>w_state := W_Woken\<rparr>, WR_Woken, True)
      else let (sp, script') = next_spurious script
        in case cas_weak sp W_Init W_Woken (w_state x) of
             (s, Inr _) \<Rightarrow> Done (x\<lparr>w_state := s\<rparr>, WR_Next, True)
           | (_, Inl s) \<Rightarrow> w_wake_loop fuel script' x s)"

text \<open>
  The values the state can hold, and what the loops return for each: the result does not depend on the
  spurious failures, so the registries use the loops without them.
\<close>

definition w_ok :: "waker_inner \<Rightarrow> bool" where
  "w_ok x \<longleftrightarrow> w_state x \<in> {W_Init, W_Waiting, W_Woken, W_Closed, W_Done}"

definition w_abandon :: "waker_inner \<Rightarrow> (waker_inner \<times> (u8 + unit)) exec" where
  "w_abandon x =
     exec_map (map_prod id (\<lambda>r. case r of Inr _ \<Rightarrow> Inr () | Inl s \<Rightarrow> Inl s))
       (w_change_state_smaller_eq 2 [] x W_Waiting W_Closed)"

definition w_close_wake :: "waker_inner \<Rightarrow> (waker_inner \<times> bool) exec" where
  "w_close_wake x =
     exec_map (map_prod id (\<lambda>r. case r of Inr _ \<Rightarrow> True | Inl _ \<Rightarrow> False))
       (w_change_state_smaller_eq 2 [] x W_Waiting W_Closed)"

definition w_wake :: "waker_inner \<Rightarrow> (waker_inner \<times> wake_result \<times> bool) exec" where
  "w_wake x = w_wake_loop 2 [] x (w_get_state x)"

text \<open>The same on the heap; waking appends to the log.\<close>

definition wake_at :: "world \<Rightarrow> nat \<Rightarrow> (world \<times> wake_result) exec" where
  "wake_at w a =
     (case upgrade w a of
        None \<Rightarrow> Fault UseAfterFree
      | Some x \<Rightarrow> exec_map (\<lambda>(x', r, woke).
          (let w' = set_waker w a x' in if woke then wake_by_ref w' x' else w', r)) (w_wake x))"

definition close_wake_at :: "world \<Rightarrow> nat \<Rightarrow> world exec" where
  "close_wake_at w a =
     (case upgrade w a of
        None \<Rightarrow> Fault UseAfterFree
      | Some x \<Rightarrow> exec_map (\<lambda>(x', woke).
          let w' = set_waker w a x' in if woke then wake_by_ref w' x' else w') (w_close_wake x))"

section \<open>Weak and strong cells\<close>

text \<open>
  \<^verbatim>\<open>WeakCell\<close> holds at most one weak reference, \<^verbatim>\<open>ArcCell\<close> at most one strong one; \<open>None\<close> is the null
  pointer. A call that runs alone succeeds at its first compare-exchange.
\<close>

type_synonym weak_cell = "nat option"

definition weak_cell_new :: weak_cell where
  "weak_cell_new = None"

definition weak_cell_is_empty :: "weak_cell \<Rightarrow> bool" where
  "weak_cell_is_empty c \<longleftrightarrow> c = None"

definition weak_cell_pop :: "world \<Rightarrow> weak_cell \<Rightarrow> weak_cell \<times> nat option" where
  "weak_cell_pop w c =
     (case c of
        None \<Rightarrow> (None, None)
      | Some a \<Rightarrow> (None, (case upgrade w a of None \<Rightarrow> None | Some _ \<Rightarrow> Some a)))"

definition weak_cell_clear :: "weak_cell \<Rightarrow> weak_cell \<times> bool" where
  "weak_cell_clear c = (case c of None \<Rightarrow> (None, False) | Some _ \<Rightarrow> (None, True))"

definition weak_cell_replace :: "weak_cell \<Rightarrow> nat \<Rightarrow> weak_cell" where
  "weak_cell_replace c a = Some a"

type_synonym arc_cell = "nat option"

definition arc_cell_new :: arc_cell where
  "arc_cell_new = None"

definition arc_cell_exists :: "arc_cell \<Rightarrow> bool" where
  "arc_cell_exists c \<longleftrightarrow> c \<noteq> None"

definition arc_cell_pop :: "arc_cell \<Rightarrow> arc_cell \<times> nat option" where
  "arc_cell_pop c = (None, c)"

text \<open>\<open>clear\<close> and a refused \<open>try_put\<close> drop the reference they hold.\<close>

definition arc_cell_clear :: "world \<Rightarrow> arc_cell \<Rightarrow> world \<times> arc_cell" where
  "arc_cell_clear w c = ((case c of None \<Rightarrow> w | Some a \<Rightarrow> drop_waker w a), None)"

definition arc_cell_try_put :: "world \<Rightarrow> arc_cell \<Rightarrow> nat \<Rightarrow> world \<times> arc_cell" where
  "arc_cell_try_put w c a =
     (case cas None (Some a) c of (c', Inr _) \<Rightarrow> (w, c') | (c', Inl _) \<Rightarrow> (drop_waker w a, c'))"

section \<open>Facts\<close>

lemma w_ok_cases:
  assumes "w_ok x"
  obtains "w_state x = W_Init" | "w_state x = W_Waiting" | "w_state x = W_Woken" | "w_state x = W_Closed"
    | "w_state x = W_Done"
  using assms by (auto simp: w_ok_def)

lemma waker_state_less [simp]:
  "W_Init < W_Woken" "W_Waiting < W_Woken" "\<not> W_Woken < W_Woken" "\<not> W_Closed < W_Woken" "\<not> W_Done < W_Woken"
  "\<not> W_Woken \<le> W_Init" "\<not> W_Woken \<le> W_Waiting" "W_Woken \<le> W_Closed" "W_Woken \<le> W_Done"
  "\<not> W_Waiting < W_Init" "\<not> W_Waiting < W_Waiting" "W_Waiting < W_Woken" "W_Waiting < W_Closed" "W_Waiting < W_Done"
  "W_Init \<le> W_Waiting" "\<not> W_Closed \<le> W_Waiting" "\<not> W_Done \<le> W_Waiting"
  by (simp_all add: waker_states word_le_nat_alt word_less_nat_alt)

lemma waker_state_neq [simp]:
  "W_Init \<noteq> W_Waiting" "W_Init \<noteq> W_Woken" "W_Init \<noteq> W_Closed" "W_Init \<noteq> W_Done"
  "W_Waiting \<noteq> W_Init" "W_Woken \<noteq> W_Init" "W_Closed \<noteq> W_Init" "W_Done \<noteq> W_Init"
  "W_Waiting \<noteq> W_Woken" "W_Waiting \<noteq> W_Closed" "W_Waiting \<noteq> W_Done" "W_Woken \<noteq> W_Waiting"
  "W_Closed \<noteq> W_Waiting" "W_Done \<noteq> W_Waiting" "W_Woken \<noteq> W_Closed" "W_Closed \<noteq> W_Woken"
  "W_Woken \<noteq> W_Done" "W_Done \<noteq> W_Woken" "W_Closed \<noteq> W_Done" "W_Done \<noteq> W_Closed"
  by (simp_all add: waker_states)

text \<open>What \<^verbatim>\<open>wake\<close> does in each state.\<close>

definition wake_spec :: "waker_inner \<Rightarrow> waker_inner \<times> wake_result \<times> bool" where
  "wake_spec x =
     (if w_state x = W_Init then (x\<lparr>w_state := W_Woken\<rparr>, WR_Next, True)
      else if w_state x = W_Waiting then (x\<lparr>w_state := W_Woken\<rparr>, WR_Woken, True)
      else (x, WR_Skip, False))"

lemma w_wake_loop_spec:
  assumes "w_ok x" "length script < fuel"
  shows "w_wake_loop fuel script x (w_state x) = Done (wake_spec x)"
  using assms(2)
proof (induction fuel arbitrary: script)
  case 0
  then show ?case by simp
next
  case (Suc fuel)
  obtain sp script' where s: "next_spurious script = (sp, script')" by fastforce
  then have len: "sp \<Longrightarrow> length script' < fuel" using Suc.prems by (cases script) auto
  from assms(1) show ?case
    by (rule w_ok_cases; cases sp) (use Suc.IH len s in \<open>auto simp: wake_spec_def cas_weak_def Let_def\<close>)
qed

lemma w_wake_spec: "w_ok x \<Longrightarrow> w_wake x = Done (wake_spec x)"
  using w_wake_loop_spec [of x "[]" 2] by (simp add: w_wake_def w_get_state_def)

text \<open>What closing does: states up to waiting become closed, later ones stay.\<close>

definition close_spec :: "waker_inner \<Rightarrow> waker_inner \<times> (u8 + u8)" where
  "close_spec x =
     (if w_state x \<le> W_Waiting then (x\<lparr>w_state := W_Closed\<rparr>, Inr (w_state x)) else (x, Inl (w_state x)))"

lemma w_change_loop_guessed:
  assumes "length script < fuel" "w_state x \<le> W_Waiting"
  shows "w_change_loop fuel script x W_Waiting W_Closed (w_state x) = Done (close_spec x)"
  using assms(1)
proof (induction fuel arbitrary: script)
  case 0
  then show ?case by simp
next
  case (Suc fuel)
  obtain sp script' where s: "next_spurious script = (sp, script')" by fastforce
  then have len: "sp \<Longrightarrow> length script' < fuel" using Suc.prems by (cases script) auto
  then show ?case using Suc.IH s assms(2) by (cases sp) (auto simp: close_spec_def cas_weak_def)
qed

lemma w_change_spec:
  assumes "Suc (length script) < fuel"
  shows "w_change_state_smaller_eq fuel script x W_Waiting W_Closed = Done (close_spec x)"
proof (cases "w_state x = W_Waiting")
  case True
  with w_change_loop_guessed [of script fuel x] assms show ?thesis
    by (simp add: w_change_state_smaller_eq_def)
next
  case False
  obtain n where n: "fuel = Suc n" "length script < n" using assms by (cases fuel) auto
  obtain sp script' where s: "next_spurious script = (sp, script')" by fastforce
  then have "length script' < n" using n by (cases script) auto
  with w_change_loop_guessed [of script' n x] False n s show ?thesis
    by (auto simp: w_change_state_smaller_eq_def cas_weak_def close_spec_def)
qed

lemma w_abandon_spec:
  "w_abandon x = Done (map_prod id (\<lambda>r. case r of Inr _ \<Rightarrow> Inr () | Inl s \<Rightarrow> Inl s) (close_spec x))"
  by (simp add: w_abandon_def w_change_spec)

lemma w_close_wake_spec:
  "w_close_wake x = Done (map_prod id (\<lambda>r. case r of Inr _ \<Rightarrow> True | Inl _ \<Rightarrow> False) (close_spec x))"
  by (simp add: w_close_wake_def w_change_spec)

section \<open>Properties\<close>

text \<open>
  Waking a waker ends after at most one round more than there are spurious failures, and its effect
  does not depend on them: a waiting or initial waker becomes woken and its task is notified exactly
  once, with result \<open>Woken\<close> (stop) for a waiting and \<open>Next\<close> (go on) for an initial one; a waker already
  woken, closed or done is skipped and nobody is notified.
\<close>

theorem wake_exact:
  assumes "w_ok x" "length script < fuel"
  shows "w_wake_loop fuel script x (w_get_state x) =
    Done (if w_state x = W_Init then (x\<lparr>w_state := W_Woken\<rparr>, WR_Next, True)
      else if w_state x = W_Waiting then (x\<lparr>w_state := W_Woken\<rparr>, WR_Woken, True)
      else (x, WR_Skip, False))"
  using w_wake_loop_spec [OF assms] by (simp add: wake_spec_def w_get_state_def)

theorem wake_exact_witness:
  "w_wake_loop 3 [True, True] \<lparr>w_state = W_Init, w_seq = 1, w_waker = Async 7\<rparr> W_Init =
    Done (\<lparr>w_state = W_Woken, w_seq = 1, w_waker = Async 7\<rparr>, WR_Next, True)"
  using wake_exact [of "\<lparr>w_state = W_Init, w_seq = 1, w_waker = Async 7\<rparr>" "[True, True]" 3]
  by (simp add: w_ok_def w_get_state_def)

text \<open>
  Abandoning, committing and waking a waker exclude each other when each runs as one step: of a waker that is still initial
  or waiting, \<^verbatim>\<open>abandon\<close> wins exactly when no wake came first (the waker ends closed and a later wake
  notifies nobody), and when a wake came first \<^verbatim>\<open>abandon\<close> reports \<open>Woken\<close> and changes nothing, so the
  caller knows that it has to pass the wake-up on; \<^verbatim>\<open>commit_waiting\<close> after a wake reports \<open>Woken\<close>.
\<close>

theorem wake_abandon_race:
  assumes "w_state x = W_Init \<or> w_state x = W_Waiting"
  shows "\<exists>xa xw. w_abandon x = Done (xa, Inr ()) \<and> w_state xa = W_Closed \<and>
      w_wake xa = Done (xa, WR_Skip, False) \<and>
    (\<exists>r. w_wake x = Done (xw, r, True)) \<and> w_abandon xw = Done (xw, Inl W_Woken) \<and>
      w_commit_waiting xw = (xw, W_Woken)"
proof -
  have ok: "w_ok x" using assms by (auto simp: w_ok_def)
  have "w_ok (x\<lparr>w_state := W_Closed\<rparr>)" by (simp add: w_ok_def)
  with assms ok show ?thesis
    by (auto simp: w_abandon_spec close_spec_def w_wake_spec wake_spec_def w_commit_waiting_def
        w_try_change_state_def cas_def)
qed

theorem wake_abandon_race_witness:
  "\<exists>xa. w_abandon \<lparr>w_state = W_Waiting, w_seq = 1, w_waker = Blocking 2\<rparr> = Done (xa, Inr ()) \<and>
    w_state xa = W_Closed"
  using wake_abandon_race [of "\<lparr>w_state = W_Waiting, w_seq = 1, w_waker = Blocking 2\<rparr>"] by auto

text \<open>
  Cut at its accesses, a wake does race with abandoning: it loads the state, and when that was \<open>Waiting\<close> it stores \<open>Woken\<close> without comparing. Of a waker
  that is abandoned between the load and the store, \<^verbatim>\<open>abandon\<close> reports success, so that its owner leaves without passing a wake-up on, and the wake still
  overwrites the closed state and reports \<open>Woken\<close>, at which a firing registry stops. The compare-exchange of the other branch does not have this race:
  a wake that loaded \<open>Init\<close> finds the closed state and reports that it woke nobody.
\<close>

theorem wake_overwrites_abandon:
  assumes "w_state x = W_Waiting"
  shows "\<exists>xa. w_abandon x = Done (xa, Inr ()) \<and> w_state xa = W_Closed \<and>
    w_wake_loop (Suc fuel) script xa (w_get_state x) = Done (xa\<lparr>w_state := W_Woken\<rparr>, WR_Woken, True) \<and>
    w_wake_loop (Suc (Suc fuel)) [] xa W_Init = Done (xa, WR_Skip, False)"
proof -
  have "w_ok x" using assms by (simp add: w_ok_def)
  then have "w_abandon x = Done (x\<lparr>w_state := W_Closed\<rparr>, Inr ())"
    using assms by (simp add: w_abandon_spec close_spec_def)
  then show ?thesis using assms
    by (auto simp: w_get_state_def cas_weak_def waker_states word_le_nat_alt)
qed

end
