(* ===== verification/Registry.thy ===== *)
theory Registry
  imports Waker
begin

unbundle bit_operations_syntax

text \<open>
  The waker registries, \<^verbatim>\<open>src/src/waker_registry.rs\<close>: where a blocked sender or receiver leaves a weak
  reference to its waker, and from where the other side fires it. \<^verbatim>\<open>RegistryDummy\<close> holds nothing,
  \<^verbatim>\<open>RegistrySingle\<close> one cell, \<^verbatim>\<open>RegistryMulti\<close> a queue of wakers and a list of select wakers behind a
  mutex, and \<^verbatim>\<open>SelectWakerWrapper\<close> forwards to a multiplex. The trait methods are functions on the
  datatype \<open>registry\<close>; \<^verbatim>\<open>unreachable!()\<close> is a panic. Each call is one step here. In the program the
  multi registry holds its mutex for the whole of a registration, a clearing and \<^verbatim>\<open>close\<close>; \<^verbatim>\<open>fire\<close> holds it while it pops a waker and releases it before it
  wakes that waker, so its step stands for several sections of the lock and the wakes between them.
\<close>

section \<open>Select wakers\<close>

definition sel_get :: "world \<Rightarrow> nat \<Rightarrow> (select_waker \<Rightarrow> 'r exec) \<Rightarrow> 'r exec" where
  "sel_get w s f = (case wd_sels w s of None \<Rightarrow> Fault UseAfterFree | Some x \<Rightarrow> f x)"

definition sel_set :: "world \<Rightarrow> nat \<Rightarrow> select_waker \<Rightarrow> world" where
  "sel_set w s x = w\<lparr>wd_sels := (wd_sels w)(s := Some x)\<rparr>"

definition sel_new :: select_waker where
  "sel_new = \<lparr>sw_cell = weak_cell_new, sw_hint = 0, sw_o_waker = None, sw_opened = 0\<rparr>"

definition sel_init_blocking :: "world \<Rightarrow> nat \<Rightarrow> nat \<Rightarrow> world exec" where
  "sel_init_blocking w s thread =
     sel_get w s (\<lambda>x.
       case sw_o_waker x of
         Some a \<Rightarrow> (case upgrade w a of
             None \<Rightarrow> Fault UseAfterFree
           | Some k \<Rightarrow> Done (sel_set (set_waker w a (w_reset_init k)) s
               (x\<lparr>sw_cell := weak_cell_replace (sw_cell x) a, sw_hint := 0\<rparr>)))
       | None \<Rightarrow> let (w', a) = new_blocking w thread
           in Done (sel_set w' s (x\<lparr>sw_o_waker := Some a, sw_cell := weak_cell_replace (sw_cell x) a,
                sw_hint := 0\<rparr>)))"

definition sel_init_async :: "world \<Rightarrow> nat \<Rightarrow> nat \<Rightarrow> world exec" where
  "sel_init_async w s task =
     sel_get w s (\<lambda>x.
       let (w1, a) = new_async w task;
           w2 = (case sw_o_waker x of None \<Rightarrow> w1 | Some old \<Rightarrow> drop_waker w1 old)
       in Done (sel_set w2 s (x\<lparr>sw_o_waker := Some a, sw_cell := weak_cell_replace (sw_cell x) a,
            sw_hint := 0\<rparr>)))"

definition sel_clone_weak :: "world \<Rightarrow> nat \<Rightarrow> nat exec" where
  "sel_clone_weak w s =
     sel_get w s (\<lambda>x. case sw_o_waker x of None \<Rightarrow> Fault Panic | Some a \<Rightarrow> Done a)"

definition sel_add_opened :: "world \<Rightarrow> nat \<Rightarrow> world exec" where
  "sel_add_opened w s = sel_get w s (\<lambda>x. Done (sel_set w s (x\<lparr>sw_opened := sw_opened x + 1\<rparr>)))"

definition sel_get_opened_count :: "world \<Rightarrow> nat \<Rightarrow> usize exec" where
  "sel_get_opened_count w s = sel_get w s (\<lambda>x. Done (sw_opened x))"

definition sel_get_hint :: "world \<Rightarrow> nat \<Rightarrow> usize exec" where
  "sel_get_hint w s = sel_get w s (\<lambda>x. Done (sw_hint x))"

definition sel_close :: "world \<Rightarrow> nat \<Rightarrow> world exec" where
  "sel_close w s = sel_get w s (\<lambda>x. Done (sel_set w s (x\<lparr>sw_opened := sw_opened x - 1\<rparr>)))"

definition sel_get_waker_state :: "world \<Rightarrow> nat \<Rightarrow> u8 exec" where
  "sel_get_waker_state w s =
     sel_get w s (\<lambda>x.
       case sw_o_waker x of
         None \<Rightarrow> Fault Panic
       | Some a \<Rightarrow> (case upgrade w a of None \<Rightarrow> Fault UseAfterFree | Some k \<Rightarrow> Done (w_get_state k)))"

text \<open>\<^verbatim>\<open>SelectWakerWrapper::wake\<close>: take the waker out of the cell, leave the channel as hint, wake.\<close>

definition sel_wake :: "world \<Rightarrow> nat \<times> usize \<Rightarrow> world exec" where
  "sel_wake w e =
     (case e of (s, idx) \<Rightarrow>
       sel_get w s (\<lambda>x.
         case weak_cell_pop w (sw_cell x) of
           (c, None) \<Rightarrow> Done (sel_set w s (x\<lparr>sw_cell := c\<rparr>))
         | (c, Some a) \<Rightarrow> exec_map fst (wake_at (sel_set w s (x\<lparr>sw_cell := c, sw_hint := idx\<rparr>)) a)))"

fun sel_wake_all :: "world \<Rightarrow> (nat \<times> usize) list \<Rightarrow> world exec" where
  "sel_wake_all w [] = Done w"
| "sel_wake_all w (e # es) = exec_bind (sel_wake w e) (\<lambda>w'. sel_wake_all w' es)"

section \<open>RegistrySingle\<close>

definition single_fire :: "world \<Rightarrow> weak_cell \<Rightarrow> (world \<times> weak_cell) exec" where
  "single_fire w c =
     (case weak_cell_pop w c of
        (c', None) \<Rightarrow> Done (w, c')
      | (c', Some a) \<Rightarrow> exec_map (\<lambda>(w', _). (w', c')) (wake_at w a))"

text \<open>\<^verbatim>\<open>o_waker.replace(waker)\<close> drops the waker it replaces.\<close>

definition replace_owner :: "world \<Rightarrow> nat option \<Rightarrow> world" where
  "replace_owner w o_waker = (case o_waker of None \<Rightarrow> w | Some old \<Rightarrow> drop_waker w old)"

definition single_reg_waker_async :: "world \<Rightarrow> weak_cell \<Rightarrow> nat \<Rightarrow> nat option \<Rightarrow> world \<times> weak_cell \<times> nat option" where
  "single_reg_waker_async w c task o_waker =
     (let (w', a) = new_async w task in (replace_owner w' o_waker, weak_cell_replace c a, Some a))"

definition single_reg_waker_blocking :: "world \<Rightarrow> weak_cell \<Rightarrow> nat \<Rightarrow> nat option \<Rightarrow> world \<times> weak_cell \<times> nat option" where
  "single_reg_waker_blocking w c thread o_waker =
     (let (w', a) = new_blocking w thread in (replace_owner w' o_waker, weak_cell_replace c a, Some a))"

definition single_get_waker_state :: "weak_cell \<Rightarrow> u8" where
  "single_get_waker_state c = (if weak_cell_is_empty c then W_Woken else W_Init)"

section \<open>RegistryMulti\<close>

definition MULTI_EMPTY :: u8 where "MULTI_EMPTY = 0"
definition MULTI_HAS_SELECT :: u8 where "MULTI_HAS_SELECT = 1"
definition MULTI_HAS_WAKER :: u8 where "MULTI_HAS_WAKER = 2"

lemmas multi_flags = MULTI_EMPTY_def MULTI_HAS_SELECT_def MULTI_HAS_WAKER_def

record multi =
  m_state :: u8
  m_queue :: "nat list"
  m_selectors :: "(nat \<times> usize) list"
  m_seq :: u32

definition multi_new :: multi where
  "multi_new = \<lparr>m_state = 0, m_queue = [], m_selectors = [], m_seq = 0\<rparr>"

definition multi_check_select :: "multi \<Rightarrow> u8" where
  "multi_check_select m = (if m_selectors m = [] then 0 else MULTI_HAS_SELECT)"

definition multi_check_waker :: "multi \<Rightarrow> u8" where
  "multi_check_waker m = (if m_queue m = [] then 0 else MULTI_HAS_WAKER)"

definition multi_reg_waker :: "world \<Rightarrow> multi \<Rightarrow> nat \<Rightarrow> (world \<times> multi) exec" where
  "multi_reg_waker w m a =
     (case upgrade w a of
        None \<Rightarrow> Fault UseAfterFree
      | Some x \<Rightarrow>
          let seq = m_seq m + 1; w' = set_waker w a (w_set_seq x seq);
              m1 = m\<lparr>m_seq := seq\<rparr>;
              m2 = (if m_queue m1 = [] then m1\<lparr>m_state := multi_check_select m1 OR MULTI_HAS_WAKER\<rparr> else m1)
          in Done (w', m2\<lparr>m_queue := m_queue m2 @ [a]\<rparr>))"

text \<open>\<^verbatim>\<open>process!\<close> over the queue: what is left of it.\<close>

fun multi_clear_scan :: "world \<Rightarrow> bool \<Rightarrow> u32 \<Rightarrow> nat list \<Rightarrow> nat list" where
  "multi_clear_scan w oneshot old_seq [] = []"
| "multi_clear_scan w oneshot old_seq (a # q) =
     (case upgrade w a of
        None \<Rightarrow> multi_clear_scan w oneshot old_seq q
      | Some x \<Rightarrow>
          if w_get_seq x = old_seq then q
          else if old_seq < w_get_seq x then a # q
          else if w_get_state x < W_Woken then a # q
          else if oneshot then q
          else multi_clear_scan w oneshot old_seq q)"

definition multi_clear_wakers_inner :: "world \<Rightarrow> multi \<Rightarrow> waker_inner \<Rightarrow> bool \<Rightarrow> multi" where
  "multi_clear_wakers_inner w m old_waker oneshot =
     (if m_state m AND MULTI_HAS_WAKER = 0 then m
      else if m_queue m = [] then m
      else let q = multi_clear_scan w oneshot (w_get_seq old_waker) (m_queue m); m' = m\<lparr>m_queue := q\<rparr>
        in if q = [] then m'\<lparr>m_state := multi_check_select m'\<rparr> else m')"

datatype poll = Ready | Pending

definition multi_reg_waker_async :: "world \<Rightarrow> multi \<Rightarrow> nat \<Rightarrow> nat option \<Rightarrow>
    (world \<times> multi \<times> nat option \<times> poll option) exec" where
  "multi_reg_waker_async w m task o_waker =
     (let fresh = (\<lambda>w m.
        let (w', a) = new_async w task
        in exec_map (\<lambda>(w'', m'). (replace_owner w'' o_waker, m', Some a, None)) (multi_reg_waker w' m a))
      in case o_waker of
           None \<Rightarrow> fresh w m
         | Some a \<Rightarrow> (case upgrade w a of
             None \<Rightarrow> Fault UseAfterFree
           | Some x \<Rightarrow> (case w_try_change_state x W_Woken W_Init of
               (x', Inr _) \<Rightarrow>
                 let w1 = set_waker w a x'
                 in exec_bind (will_wake x' task) (\<lambda>same.
                   if same then exec_map (\<lambda>(w2, m'). (w2, m', o_waker, None)) (multi_reg_waker w1 m a)
                   else fresh w1 m)
             | (x', Inl state) \<Rightarrow>
                 if state < W_Woken
                 then exec_bind (will_wake x' task) (\<lambda>same.
                   if same then Done (w, m, o_waker, Some Pending)
                   else fresh w (multi_clear_wakers_inner w m x' True))
                 else if state = W_Closed then Done (w, m, o_waker, Some Ready)
                 else Fault Panic)))"

definition multi_reg_waker_blocking :: "world \<Rightarrow> multi \<Rightarrow> nat \<Rightarrow> nat option \<Rightarrow>
    (world \<times> multi \<times> nat option) exec" where
  "multi_reg_waker_blocking w m thread o_waker =
     (case o_waker of
        Some a \<Rightarrow> (case upgrade w a of
            None \<Rightarrow> Fault UseAfterFree
          | Some x \<Rightarrow> exec_map (\<lambda>(w', m'). (w', m', o_waker)) (multi_reg_waker (set_waker w a (w_reset_init x)) m a))
      | None \<Rightarrow> let (w', a) = new_blocking w thread
          in exec_map (\<lambda>(w'', m'). (w'', m', Some a)) (multi_reg_waker w' m a))"

subsection \<open>Firing\<close>

text \<open>The loop that pops weak references until one upgrades.\<close>

fun pop_alive :: "world \<Rightarrow> nat list \<Rightarrow> (nat \<times> nat list) option" where
  "pop_alive w [] = None"
| "pop_alive w (a # q) = (case upgrade w a of Some _ \<Rightarrow> Some (a, q) | None \<Rightarrow> pop_alive w q)"

definition multi_pop_first :: "world \<Rightarrow> multi \<Rightarrow> (world \<times> multi \<times> (nat \<times> u32 option) option) exec" where
  "multi_pop_first w m =
     (let flag = m_state m
      in if flag = MULTI_EMPTY then Done (w, m, None)
         else exec_bind (if flag AND MULTI_HAS_SELECT > 0 then sel_wake_all w (m_selectors m) else Done w) (\<lambda>w'.
           if flag AND MULTI_HAS_WAKER > 0
           then case pop_alive w' (m_queue m) of
               Some (a, q) \<Rightarrow>
                 if q = [] then Done (w', m\<lparr>m_queue := [], m_state := multi_check_select m\<rparr>, Some (a, None))
                 else Done (w', m\<lparr>m_queue := q\<rparr>, Some (a, Some (m_seq m)))
             | None \<Rightarrow>
                 if m_queue m \<noteq> [] then Done (w', m\<lparr>m_queue := [], m_state := multi_check_select m\<rparr>, None)
                 else Done (w', m, None)
           else Done (w', m, None)))"

definition multi_pop_again :: "world \<Rightarrow> multi \<Rightarrow> multi \<times> nat option" where
  "multi_pop_again w m =
     (if m_state m = MULTI_EMPTY then (m, None)
      else case pop_alive w (m_queue m) of
          Some (a, q) \<Rightarrow>
            (if q = [] then m\<lparr>m_queue := [], m_state := multi_check_select m\<rparr> else m\<lparr>m_queue := q\<rparr>, Some a)
        | None \<Rightarrow>
            (if m_queue m \<noteq> [] then m\<lparr>m_queue := [], m_state := multi_check_select m\<rparr> else m, None))"

text \<open>
  The loop of \<^verbatim>\<open>fire\<close> after the first waker; every round pops a waker, so the length of the queue plus
  one is fuel enough.
\<close>

fun multi_fire_loop :: "nat \<Rightarrow> world \<Rightarrow> multi \<Rightarrow> u32 \<Rightarrow> (world \<times> multi \<times> wake_result) exec" where
  "multi_fire_loop 0 w m last_seq = Spin"
| "multi_fire_loop (Suc fuel) w m last_seq =
     (case multi_pop_again w m of
        (m', None) \<Rightarrow> Done (w, m', WR_Next)
      | (m', Some a) \<Rightarrow>
          exec_bind (wake_at w a) (\<lambda>(w', r).
            if wake_result_is_done r then Done (w', m', r)
            else case upgrade w' a of
                None \<Rightarrow> Fault UseAfterFree
              | Some x \<Rightarrow> if last_seq \<le> w_get_seq x then Done (w', m', WR_Next)
                  else multi_fire_loop fuel w' m' last_seq))"

definition multi_fire :: "world \<Rightarrow> multi \<Rightarrow> (world \<times> multi \<times> wake_result) exec" where
  "multi_fire w m =
     exec_bind (multi_pop_first w m) (\<lambda>(w1, m1, popped).
       case popped of
         None \<Rightarrow> Done (w1, m1, WR_Next)
       | Some (a, lastseq) \<Rightarrow>
           exec_bind (wake_at w1 a) (\<lambda>(w2, r).
             if wake_result_is_done r then Done (w2, m1, r)
             else case lastseq of
                 None \<Rightarrow> Done (w2, m1, WR_Next)
               | Some last_seq \<Rightarrow> multi_fire_loop (Suc (length (m_queue m1))) w2 m1 (last_seq - 1)))"

subsection \<open>Closing, cancelling, selecting\<close>

fun close_all :: "world \<Rightarrow> nat list \<Rightarrow> world exec" where
  "close_all w [] = Done w"
| "close_all w (a # q) =
     (case upgrade w a of
        None \<Rightarrow> close_all w q
      | Some _ \<Rightarrow> exec_bind (close_wake_at w a) (\<lambda>w'. close_all w' q))"

definition multi_close :: "world \<Rightarrow> multi \<Rightarrow> (world \<times> multi) exec" where
  "multi_close w m =
     exec_bind (sel_wake_all w (m_selectors m)) (\<lambda>w1.
       exec_map (\<lambda>w2. (w2, m\<lparr>m_queue := [], m_state := 0\<rparr>)) (close_all w1 (m_queue m)))"

definition multi_commit_waiting :: "world \<Rightarrow> nat option \<Rightarrow> (world \<times> u8) exec" where
  "multi_commit_waiting w o_waker =
     (case o_waker of
        None \<Rightarrow> Fault Panic
      | Some a \<Rightarrow> (case upgrade w a of
          None \<Rightarrow> Fault UseAfterFree
        | Some x \<Rightarrow> let (x', s) = w_commit_waiting x in Done (set_waker w a x', s)))"

definition multi_get_waker_state :: "world \<Rightarrow> nat option \<Rightarrow> u8 exec" where
  "multi_get_waker_state w o_waker =
     (case o_waker of
        None \<Rightarrow> Fault Panic
      | Some a \<Rightarrow> (case upgrade w a of None \<Rightarrow> Fault UseAfterFree | Some x \<Rightarrow> Done (w_get_state x)))"

definition multi_abandon_waker :: "world \<Rightarrow> multi \<Rightarrow> nat \<Rightarrow> (world \<times> multi \<times> (u8 + unit)) exec" where
  "multi_abandon_waker w m a =
     (case upgrade w a of
        None \<Rightarrow> Fault UseAfterFree
      | Some x \<Rightarrow> exec_map (\<lambda>(x', r).
          let w' = set_waker w a x'
          in case r of
               Inr _ \<Rightarrow> (w', multi_clear_wakers_inner w' m x' False, Inr ())
             | Inl s \<Rightarrow> (w', m, Inl s)) (w_abandon x))"

definition multi_cancel_waker :: "world \<Rightarrow> multi \<Rightarrow> nat option \<Rightarrow> (world \<times> multi \<times> nat option) exec" where
  "multi_cancel_waker w m o_waker =
     (case o_waker of
        None \<Rightarrow> Done (w, m, None)
      | Some a \<Rightarrow> (case upgrade w a of
          None \<Rightarrow> Fault UseAfterFree
        | Some x \<Rightarrow>
            if W_Woken \<le> w_get_state x then Done (drop_waker w a, m, None)
            else Done (drop_waker w a, multi_clear_wakers_inner w m x True, None)))"

definition multi_cancel_reuse_waker :: "world \<Rightarrow> multi \<Rightarrow> nat option \<Rightarrow> u8 \<Rightarrow>
    (world \<times> multi \<times> nat option \<times> u8) exec" where
  "multi_cancel_reuse_waker w m o_waker state =
     (case o_waker of
        None \<Rightarrow> Fault Panic
      | Some a \<Rightarrow> (case upgrade w a of
          None \<Rightarrow> Fault UseAfterFree
        | Some x \<Rightarrow>
            let cur_state = w_get_state x
            in if W_Woken \<le> cur_state
               then Done (w, m, o_waker, if cur_state < state then state else cur_state)
               else Done (drop_waker w a, multi_clear_wakers_inner w m x True, None, state)))"

definition multi_reg_select_waker :: "multi \<Rightarrow> usize \<Rightarrow> nat \<Rightarrow> multi \<times> bool" where
  "multi_reg_select_waker m channel_id s =
     (let m' = (if m_selectors m = [] then m\<lparr>m_state := multi_check_waker m OR MULTI_HAS_SELECT\<rparr> else m)
      in (m'\<lparr>m_selectors := m_selectors m' @ [(s, channel_id)]\<rparr>, True))"

fun remove_first :: "nat \<Rightarrow> (nat \<times> usize) list \<Rightarrow> (nat \<times> usize) list" where
  "remove_first s [] = []"
| "remove_first s (e # es) = (if fst e = s then es else e # remove_first s es)"

definition multi_cancel_select_waker :: "multi \<Rightarrow> nat \<Rightarrow> multi" where
  "multi_cancel_select_waker m s =
     (let m' = m\<lparr>m_selectors := remove_first s (m_selectors m)\<rparr>
      in if m_selectors m' = [] then m'\<lparr>m_state := multi_check_waker m'\<rparr> else m')"

section \<open>The registry traits\<close>

text \<open>
  One constructor per implementation of \<^verbatim>\<open>Registry\<close>, \<^verbatim>\<open>RegistrySend\<close> and \<^verbatim>\<open>RegistryRecv\<close>, and one function
  per trait method. Methods an implementation does not override have the body of the trait.
\<close>

datatype registry = RegDummy | RegSingle weak_cell | RegMulti multi | RegSelect nat usize

fun reg_get_waker_state :: "world \<Rightarrow> registry \<Rightarrow> nat option \<Rightarrow> u8 exec" where
  "reg_get_waker_state w RegDummy o_waker = Fault Panic"
| "reg_get_waker_state w (RegSingle c) o_waker = Done (single_get_waker_state c)"
| "reg_get_waker_state w (RegMulti m) o_waker = multi_get_waker_state w o_waker"
| "reg_get_waker_state w (RegSelect s idx) o_waker = Fault Panic"

fun reg_close :: "world \<Rightarrow> registry \<Rightarrow> (world \<times> registry) exec" where
  "reg_close w RegDummy = Done (w, RegDummy)"
| "reg_close w (RegSingle c) = exec_map (\<lambda>(w', c'). (w', RegSingle c')) (single_fire w c)"
| "reg_close w (RegMulti m) = exec_map (\<lambda>(w', m'). (w', RegMulti m')) (multi_close w m)"
| "reg_close w (RegSelect s idx) =
     exec_bind (sel_close w s) (\<lambda>w'. exec_map (\<lambda>w''. (w'', RegSelect s idx)) (sel_wake w' (s, idx)))"

fun reg_len :: "registry \<Rightarrow> nat" where
  "reg_len (RegMulti m) = length (m_queue m)"
| "reg_len _ = 0"

fun reg_commit_waiting :: "world \<Rightarrow> registry \<Rightarrow> nat option \<Rightarrow> (world \<times> u8) exec" where
  "reg_commit_waiting w (RegMulti m) o_waker = multi_commit_waiting w o_waker"
| "reg_commit_waiting w _ o_waker = Done (w, W_Init)"

fun reg_cancel_waker :: "world \<Rightarrow> registry \<Rightarrow> nat option \<Rightarrow> (world \<times> registry \<times> nat option) exec" where
  "reg_cancel_waker w (RegMulti m) o_waker =
     exec_map (\<lambda>(w', m', k). (w', RegMulti m', k)) (multi_cancel_waker w m o_waker)"
| "reg_cancel_waker w r o_waker = Done (replace_owner w o_waker, r, None)"

fun reg_abandon_waker :: "world \<Rightarrow> registry \<Rightarrow> nat \<Rightarrow> (world \<times> registry \<times> (u8 + unit)) exec" where
  "reg_abandon_waker w (RegMulti m) a =
     exec_map (\<lambda>(w', m', r). (w', RegMulti m', r)) (multi_abandon_waker w m a)"
| "reg_abandon_waker w r a = Done (w, r, Inr ())"

fun reg_fire :: "world \<Rightarrow> registry \<Rightarrow> (world \<times> registry \<times> wake_result) exec" where
  "reg_fire w RegDummy = Done (w, RegDummy, WR_Next)"
| "reg_fire w (RegSingle c) = exec_map (\<lambda>(w', c'). (w', RegSingle c', WR_Next)) (single_fire w c)"
| "reg_fire w (RegMulti m) = exec_map (\<lambda>(w', m', r). (w', RegMulti m', r)) (multi_fire w m)"
| "reg_fire w (RegSelect s idx) = exec_map (\<lambda>w'. (w', RegSelect s idx, WR_Next)) (sel_wake w (s, idx))"

fun reg_use_direct_copy :: "registry \<Rightarrow> bool" where
  "reg_use_direct_copy (RegMulti m) \<longleftrightarrow> m_state m \<noteq> MULTI_EMPTY"
| "reg_use_direct_copy _ = False"

fun reg_reg_waker_blocking :: "world \<Rightarrow> registry \<Rightarrow> nat \<Rightarrow> nat option \<Rightarrow>
    (world \<times> registry \<times> nat option) exec" where
  "reg_reg_waker_blocking w (RegSingle c) thread o_waker =
     (case single_reg_waker_blocking w c thread o_waker of (w', c', k) \<Rightarrow> Done (w', RegSingle c', k))"
| "reg_reg_waker_blocking w (RegMulti m) thread o_waker =
     exec_map (\<lambda>(w', m', k). (w', RegMulti m', k)) (multi_reg_waker_blocking w m thread o_waker)"
| "reg_reg_waker_blocking w _ thread o_waker = Fault Panic"

fun reg_reg_waker_async :: "world \<Rightarrow> registry \<Rightarrow> nat \<Rightarrow> nat option \<Rightarrow>
    (world \<times> registry \<times> nat option \<times> poll option) exec" where
  "reg_reg_waker_async w (RegSingle c) task o_waker =
     (case single_reg_waker_async w c task o_waker of (w', c', k) \<Rightarrow> Done (w', RegSingle c', k, None))"
| "reg_reg_waker_async w (RegMulti m) task o_waker =
     exec_map (\<lambda>(w', m', k, p). (w', RegMulti m', k, p)) (multi_reg_waker_async w m task o_waker)"
| "reg_reg_waker_async w _ task o_waker = Fault Panic"

fun reg_cancel_reuse_waker :: "world \<Rightarrow> registry \<Rightarrow> nat option \<Rightarrow> u8 \<Rightarrow>
    (world \<times> registry \<times> nat option \<times> u8) exec" where
  "reg_cancel_reuse_waker w (RegMulti m) o_waker state =
     exec_map (\<lambda>(w', m', k, s). (w', RegMulti m', k, s)) (multi_cancel_reuse_waker w m o_waker state)"
| "reg_cancel_reuse_waker w r o_waker state = Done (replace_owner w o_waker, r, None, state)"

fun reg_reg_select_waker :: "world \<Rightarrow> registry \<Rightarrow> usize \<Rightarrow> nat \<Rightarrow> (registry \<times> bool) exec" where
  "reg_reg_select_waker w (RegSingle c) channel_id s =
     exec_map (\<lambda>a. (RegSingle (weak_cell_replace c a), False)) (sel_clone_weak w s)"
| "reg_reg_select_waker w (RegMulti m) channel_id s =
     (case multi_reg_select_waker m channel_id s of (m', b) \<Rightarrow> Done (RegMulti m', b))"
| "reg_reg_select_waker w _ channel_id s = Fault Panic"

fun reg_cancel_select_waker :: "registry \<Rightarrow> nat \<Rightarrow> registry" where
  "reg_cancel_select_waker (RegMulti m) s = RegMulti (multi_cancel_select_waker m s)"
| "reg_cancel_select_waker r s = r"

section \<open>Coherence of the flags\<close>

text \<open>
  The atomic \<^verbatim>\<open>state\<close> of the multi registry is read without the mutex: an empty state sends \<^verbatim>\<open>fire\<close> home
  at once, so it has to say truthfully whether wakers and selectors are registered.
\<close>

definition m_ok :: "multi \<Rightarrow> bool" where
  "m_ok m \<longleftrightarrow> m_state m = (multi_check_select m OR multi_check_waker m)"

definition heap_ok :: "world \<Rightarrow> bool" where
  "heap_ok w \<longleftrightarrow> (\<forall>a x. wd_heap w a = Some x \<longrightarrow> w_ok x)"

lemma heap_okD: "heap_ok w \<Longrightarrow> upgrade w a = Some x \<Longrightarrow> w_ok x"
  by (simp add: heap_ok_def upgrade_def)

lemma heap_ok_update [simp]: "heap_ok w \<Longrightarrow> w_ok x \<Longrightarrow> heap_ok (set_waker w a x)"
  by (simp add: heap_ok_def set_waker_def)

lemma heap_ok_wake_by_ref [simp]: "heap_ok (wake_by_ref w x) = heap_ok w"
  by (simp add: heap_ok_def wake_by_ref_def)

lemma upgrade_set [simp]: "upgrade (set_waker w a x) b = (if b = a then Some x else upgrade w b)"
  by (simp add: upgrade_def set_waker_def)

lemma upgrade_wake_by_ref [simp]: "upgrade (wake_by_ref w x) b = upgrade w b"
  by (simp add: upgrade_def wake_by_ref_def)

lemma wd_log_set [simp]: "wd_log (set_waker w a x) = wd_log w"
  by (simp add: set_waker_def)

lemma wd_log_wake_by_ref [simp]: "wd_log (wake_by_ref w x) = wd_log w @ [w_waker x]"
  by (simp add: wake_by_ref_def)

lemma flag_simps [simp]:
  "(MULTI_HAS_SELECT OR MULTI_HAS_WAKER) AND MULTI_HAS_WAKER = MULTI_HAS_WAKER"
  "MULTI_HAS_WAKER AND MULTI_HAS_WAKER = MULTI_HAS_WAKER"
  "MULTI_HAS_WAKER AND MULTI_HAS_SELECT = 0" "MULTI_HAS_SELECT AND MULTI_HAS_WAKER = 0"
  "MULTI_HAS_WAKER \<noteq> 0" "MULTI_HAS_WAKER \<noteq> MULTI_EMPTY" "0 < MULTI_HAS_WAKER" "MULTI_HAS_SELECT \<noteq> 0"
  "(MULTI_HAS_SELECT OR MULTI_HAS_WAKER) \<noteq> MULTI_EMPTY" "MULTI_HAS_SELECT \<noteq> MULTI_EMPTY"
  by (simp_all add: multi_flags)

lemma m_ok_set_queue: "q \<noteq> [] \<Longrightarrow> m_queue m \<noteq> [] \<Longrightarrow> m_ok m \<Longrightarrow> m_ok (m\<lparr>m_queue := q\<rparr>)"
  by (simp add: m_ok_def multi_check_select_def multi_check_waker_def)

lemma m_ok_emptied: "m_ok (m\<lparr>m_queue := [], m_state := multi_check_select m\<rparr>)"
  by (simp add: m_ok_def multi_check_select_def multi_check_waker_def)

lemma pop_alive_nonempty: "pop_alive w q = Some r \<Longrightarrow> q \<noteq> []"
  by auto

lemma m_ok_pop_again: "m_ok m \<Longrightarrow> m_ok (fst (multi_pop_again w m))"
  by (auto simp: multi_pop_again_def m_ok_emptied split: option.splits
      intro!: m_ok_set_queue dest: pop_alive_nonempty)

lemma m_ok_pop_first:
  assumes "m_ok m" "multi_pop_first w m = Done (w', m', r)"
  shows "m_ok m'"
proof (cases "m_state m = MULTI_EMPTY \<or> m_state m AND MULTI_HAS_WAKER = 0")
  case True
  with assms show ?thesis by (auto simp: multi_pop_first_def Let_def split: if_splits)
next
  case False
  with assms(2) obtain w1 where "(case pop_alive w1 (m_queue m) of
      Some (a, q) \<Rightarrow>
        if q = [] then Done (w1, m\<lparr>m_queue := [], m_state := multi_check_select m\<rparr>, Some (a, None))
        else Done (w1, m\<lparr>m_queue := q\<rparr>, Some (a, Some (m_seq m)))
    | None \<Rightarrow>
        if m_queue m \<noteq> [] then Done (w1, m\<lparr>m_queue := [], m_state := multi_check_select m\<rparr>, None)
        else Done (w1, m, None)) = Done (w', m', r)"
    by (auto simp: multi_pop_first_def Let_def word_gt_0)
  then show ?thesis using assms(1)
    by (cases "pop_alive w1 (m_queue m)")
      (auto simp: m_ok_emptied split: if_splits intro!: m_ok_set_queue dest: pop_alive_nonempty)
qed

lemma m_ok_reg_waker: "m_ok m \<Longrightarrow> multi_reg_waker w m a = Done (w', m') \<Longrightarrow> m_ok m'"
  by (auto simp: multi_reg_waker_def Let_def m_ok_def multi_check_select_def multi_check_waker_def
      split: option.splits if_splits)

lemma m_ok_clear: "m_ok m \<Longrightarrow> m_ok (multi_clear_wakers_inner w m x oneshot)"
  by (auto simp: multi_clear_wakers_inner_def Let_def m_ok_def multi_check_select_def multi_check_waker_def)

lemma m_ok_reg_select: "m_ok m \<Longrightarrow> m_ok (fst (multi_reg_select_waker m c s))"
  by (auto simp: multi_reg_select_waker_def Let_def m_ok_def multi_check_select_def multi_check_waker_def
      or.commute)

lemma remove_first_subset: "set (remove_first s xs) \<subseteq> set xs"
  by (induction xs) auto

lemma remove_first_Nil: "remove_first s es = [] \<Longrightarrow> es = [] \<or> (\<exists>e. es = [e])"
  by (cases es) (auto split: if_splits)

lemma m_ok_cancel_select: "m_ok m \<Longrightarrow> m_ok (multi_cancel_select_waker m s)"
  by (cases "m_selectors m")
    (auto simp: multi_cancel_select_waker_def Let_def m_ok_def multi_check_select_def multi_check_waker_def)

lemma m_ok_empty: "m_ok m \<Longrightarrow> m_state m = MULTI_EMPTY \<Longrightarrow> m_queue m = [] \<and> m_selectors m = []"
  by (auto simp: m_ok_def multi_check_select_def multi_check_waker_def multi_flags split: if_splits)

section \<open>What firing and closing do\<close>

lemma wake_at_spec:
  assumes "heap_ok w" "upgrade w a = Some x"
  shows "wake_at w a =
    Done (if w_state x = W_Init then (wake_by_ref (set_waker w a (x\<lparr>w_state := W_Woken\<rparr>)) x, WR_Next)
      else if w_state x = W_Waiting then (wake_by_ref (set_waker w a (x\<lparr>w_state := W_Woken\<rparr>)) x, WR_Woken)
      else (set_waker w a x, WR_Skip))"
proof -
  have "wake_by_ref w' (x\<lparr>w_state := W_Woken\<rparr>) = wake_by_ref w' x" for w' by (simp add: wake_by_ref_def)
  with assms heap_okD [OF assms] show ?thesis
    by (simp add: wake_at_def w_wake_spec wake_spec_def Let_def)
qed

lemma wake_done_codes [simp]:
  "wake_result_is_done WR_Woken" "\<not> wake_result_is_done WR_Next" "\<not> wake_result_is_done WR_Skip"
  by (simp_all add: wake_result_is_done_def)

lemma pop_alive_upgrade: "pop_alive w q = Some (a, q') \<Longrightarrow> (\<exists>x. upgrade w a = Some x) \<and> length q' < length q"
  by (induction q) (auto split: option.splits)

lemma multi_pop_again_some:
  assumes "multi_pop_again w m = (m', Some a)"
  shows "(\<exists>x. upgrade w a = Some x) \<and> length (m_queue m') < length (m_queue m)"
  using assms pop_alive_upgrade [of w "m_queue m"]
  by (auto simp: multi_pop_again_def split: option.splits if_splits prod.splits)

lemma wake_at_step:
  assumes "heap_ok w" "upgrade w a = Some x"
  shows "\<exists>w' r x'. wake_at w a = Done (w', r) \<and> heap_ok w' \<and> upgrade w' a = Some x' \<and> w_seq x' = w_seq x \<and>
    (\<exists>l. wd_log w' = wd_log w @ l)"
proof -
  have "w_ok x" "w_ok (x\<lparr>w_state := W_Woken\<rparr>)" using heap_okD [OF assms] by (simp_all add: w_ok_def)
  with assms show ?thesis by (auto simp: wake_at_spec)
qed

lemma multi_fire_loop_ends:
  assumes "heap_ok w" "length (m_queue m) < fuel"
  shows "\<exists>w' m' r l. multi_fire_loop fuel w m n = Done (w', m', r) \<and> wd_log w' = wd_log w @ l"
  using assms
proof (induction fuel arbitrary: w m)
  case 0
  then show ?case by simp
next
  case (Suc fuel)
  obtain m1 p where pop: "multi_pop_again w m = (m1, p)" by fastforce
  show ?case
  proof (cases p)
    case None
    with pop show ?thesis by simp
  next
    case (Some a)
    with pop multi_pop_again_some [of w m m1 a] obtain x where
      x: "upgrade w a = Some x" "length (m_queue m1) < length (m_queue m)" by auto
    from wake_at_step [OF Suc.prems(1) x(1)] obtain w1 r x' l where
      w1: "wake_at w a = Done (w1, r)" "heap_ok w1" "upgrade w1 a = Some x'" "wd_log w1 = wd_log w @ l" by auto
    from Suc.IH [OF w1(2), of m1] x(2) Suc.prems(2) obtain w2 m2 r2 l2 where
      "multi_fire_loop fuel w1 m1 n = Done (w2, m2, r2)" "wd_log w2 = wd_log w1 @ l2" by auto
    with pop Some w1 show ?thesis by auto
  qed
qed

lemma close_all_spec:
  assumes "heap_ok w" "distinct q"
  shows "\<exists>w'. close_all w q = Done w' \<and> heap_ok w' \<and>
    (\<forall>a. upgrade w' a = (if a \<in> set q then map_option (\<lambda>x. fst (close_spec x)) (upgrade w a) else upgrade w a)) \<and>
    wd_log w' = wd_log w @ map (w_waker \<circ> the \<circ> upgrade w)
      (filter (\<lambda>a. \<exists>x. upgrade w a = Some x \<and> w_state x \<le> W_Waiting) q)"
  using assms
proof (induction q arbitrary: w)
  case Nil
  then show ?case by simp
next
  case (Cons b q)
  show ?case
  proof (cases "upgrade w b")
    case None
    with Cons.IH [of w] Cons.prems show ?thesis by auto
  next
    case (Some x)
    let ?x = "fst (close_spec x)"
    define v where "v = (let w' = set_waker w b ?x in if w_state x \<le> W_Waiting then wake_by_ref w' ?x else w')"
    have step: "close_wake_at w b = Done v"
      using Some by (simp add: close_wake_at_def w_close_wake_spec close_spec_def Let_def v_def)
    have "w_ok ?x" using heap_okD [OF Cons.prems(1) Some] by (simp add: close_spec_def w_ok_def)
    then have ok: "heap_ok v" using Cons.prems(1) by (simp add: Let_def v_def)
    have up: "upgrade v a = (if a = b then Some ?x else upgrade w a)" for a by (simp add: Let_def v_def)
    have wk: "w_waker ?x = w_waker x" by (simp add: close_spec_def)
    have lg: "wd_log v = wd_log w @ (if w_state x \<le> W_Waiting then [w_waker x] else [])"
      by (simp add: Let_def v_def wk)
    from Cons.prems have nb: "b \<notin> set q" "distinct q" by auto
    from Cons.IH [OF ok nb(2)] obtain w' where
      w': "close_all v q = Done w'" "heap_ok w'"
        "\<forall>a. upgrade w' a = (if a \<in> set q then map_option (\<lambda>x. fst (close_spec x)) (upgrade v a) else upgrade v a)"
        "wd_log w' = wd_log v @ map (w_waker \<circ> the \<circ> upgrade v)
          (filter (\<lambda>a. \<exists>x. upgrade v a = Some x \<and> w_state x \<le> W_Waiting) q)" by blast
    have "filter (\<lambda>a. \<exists>x. upgrade v a = Some x \<and> w_state x \<le> W_Waiting) q =
        filter (\<lambda>a. \<exists>x. upgrade w a = Some x \<and> w_state x \<le> W_Waiting) q"
      using nb(1) by (intro filter_cong) (auto simp: up)
    moreover have "map (w_waker \<circ> the \<circ> upgrade v) l = map (w_waker \<circ> the \<circ> upgrade w) l"
      if "set l \<subseteq> set q" for l using that nb(1) by (auto simp: up)
    ultimately have "wd_log w' = wd_log w @ map (w_waker \<circ> the \<circ> upgrade w)
        (filter (\<lambda>a. \<exists>x. upgrade w a = Some x \<and> w_state x \<le> W_Waiting) (b # q))"
      using w'(4) lg Some nb(1) by (auto simp: up)
    moreover have "close_all w (b # q) = Done w'" using Some step w'(1) by simp
    moreover have "\<forall>a. upgrade w' a = (if a \<in> set (b # q)
        then map_option (\<lambda>x. fst (close_spec x)) (upgrade w a) else upgrade w a)"
      using w'(3) nb(1) Some by (simp add: up)
    ultimately show ?thesis using w'(2) by blast
  qed
qed

lemma multi_clear_scan_keeps:
  "a \<in> set q \<Longrightarrow> upgrade w a = Some x \<Longrightarrow> w_state x < W_Woken \<Longrightarrow> w_seq x \<noteq> old \<Longrightarrow>
     a \<in> set (multi_clear_scan w oneshot old q)"
  by (induction q) (auto simp: w_get_seq_def w_get_state_def split: option.splits)

section \<open>Properties\<close>

text \<open>
  The lock-free flags of the multi registry always say truthfully whether wakers and selectors are
  registered: every operation that changes the queue or the selectors keeps them coherent, so the fast
  path of \<^verbatim>\<open>fire\<close>, which trusts an empty flag, never overlooks a registered waker.
\<close>

theorem multi_flags_coherent:
  assumes "m_ok m"
  shows "(multi_reg_waker w m a = Done (w', m') \<longrightarrow> m_ok m') \<and>
    (multi_pop_first w m = Done (w', m', r) \<longrightarrow> m_ok m') \<and>
    m_ok (fst (multi_pop_again w m)) \<and> m_ok (multi_clear_wakers_inner w m x oneshot) \<and>
    m_ok (fst (multi_reg_select_waker m c s)) \<and> m_ok (multi_cancel_select_waker m s) \<and>
    (m_state m = MULTI_EMPTY \<longrightarrow> m_queue m = [] \<and> m_selectors m = [])"
  by (intro conjI impI m_ok_pop_again m_ok_clear m_ok_reg_select m_ok_cancel_select assms)
    (use assms m_ok_reg_waker m_ok_pop_first m_ok_empty in blast)+

theorem multi_flags_coherent_witness:
  "m_ok multi_new \<and> m_ok (fst (multi_reg_select_waker multi_new 0 5))"
proof -
  have "m_ok multi_new" by (simp add: m_ok_def multi_new_def multi_check_select_def multi_check_waker_def)
  with multi_flags_coherent [of multi_new] show ?thesis by blast
qed

text \<open>
  Firing a multi registry ends and wakes in order: with no select registered, when the oldest waker
  still alive is initial or waiting, it is the first to be notified; when it was waiting nobody else
  is notified and the rest of the queue is kept.
\<close>

theorem multi_fire_notifies_first:
  assumes "heap_ok w" "m_ok m" "m_selectors m = []"
    and "pop_alive w (m_queue m) = Some (a, q)" "upgrade w a = Some x"
    and "w_state x = W_Init \<or> w_state x = W_Waiting"
  shows "\<exists>w' m' r l. multi_fire w m = Done (w', m', r) \<and> wd_log w' = wd_log w @ w_waker x # l \<and>
    (w_state x = W_Waiting \<longrightarrow> l = [] \<and> m_queue m' = q)"
proof -
  have st: "m_state m = MULTI_HAS_WAKER"
    using assms(2,3) pop_alive_nonempty [OF assms(4)]
    by (simp add: m_ok_def multi_check_select_def multi_check_waker_def)
  let ?m = "if q = [] then m\<lparr>m_queue := [], m_state := multi_check_select m\<rparr> else m\<lparr>m_queue := q\<rparr>"
  let ?s = "if q = [] then None else Some (m_seq m)"
  have pop: "multi_pop_first w m = Done (w, ?m, Some (a, ?s))"
    using assms(4) st by (simp add: multi_pop_first_def Let_def)
  let ?w = "wake_by_ref (set_waker w a (x\<lparr>w_state := W_Woken\<rparr>)) x"
  have ok: "heap_ok ?w" using assms(1) by (simp add: w_ok_def)
  show ?thesis
  proof (cases "w_state x = W_Waiting")
    case True
    then have "wake_at w a = Done (?w, WR_Woken)" using wake_at_spec [OF assms(1,5)] by simp
    with pop True show ?thesis by (simp add: multi_fire_def)
  next
    case False
    then have wk: "wake_at w a = Done (?w, WR_Next)" using wake_at_spec [OF assms(1,5)] assms(6) by simp
    from multi_fire_loop_ends [OF ok, of ?m "Suc (length (m_queue ?m))" "m_seq m - 1"] wk pop False
    show ?thesis by (cases "q = []") (auto simp: multi_fire_def)
  qed
qed

theorem multi_fire_notifies_first_witness:
  "\<exists>w' m' r l. multi_fire \<lparr>wd_heap = (\<lambda>_. None)(0 := Some \<lparr>w_state = W_Waiting, w_seq = 1, w_waker = Blocking 9\<rparr>),
      wd_next = 1, wd_sels = (\<lambda>_. None), wd_log = []\<rparr>
      \<lparr>m_state = MULTI_HAS_WAKER, m_queue = [0], m_selectors = [], m_seq = 1\<rparr> = Done (w', m', r) \<and>
    wd_log w' = Blocking 9 # l"
proof -
  let ?x = "\<lparr>w_state = W_Waiting, w_seq = 1, w_waker = Blocking 9\<rparr>"
  let ?w = "\<lparr>wd_heap = (\<lambda>_. None)(0 := Some ?x), wd_next = 1, wd_sels = (\<lambda>_. None), wd_log = []\<rparr> :: world"
  let ?m = "\<lparr>m_state = MULTI_HAS_WAKER, m_queue = [0], m_selectors = [], m_seq = 1\<rparr> :: multi"
  have up: "upgrade ?w 0 = Some ?x" by (simp add: upgrade_def)
  have "heap_ok ?w" by (simp add: heap_ok_def w_ok_def)
  moreover have "m_ok ?m" by (simp add: m_ok_def multi_check_select_def multi_check_waker_def)
  moreover have "pop_alive ?w (m_queue ?m) = Some (0, [])" using up by simp
  ultimately show ?thesis using multi_fire_notifies_first [of ?w ?m 0 "[]" ?x] up by force
qed

text \<open>
  Closing a multi registry reaches everyone: every registered waker that is alive and initial or
  waiting becomes closed, and exactly these are notified, once each and in order of registration; the
  queue is empty afterwards.
\<close>

theorem multi_close_reaches_all:
  assumes "heap_ok w" "distinct (m_queue m)" "m_selectors m = []"
  shows "\<exists>w' m'. multi_close w m = Done (w', m') \<and> m_queue m' = [] \<and>
    (\<forall>a \<in> set (m_queue m). \<forall>x. upgrade w a = Some x \<and> w_state x \<le> W_Waiting \<longrightarrow>
      upgrade w' a = Some (x\<lparr>w_state := W_Closed\<rparr>)) \<and>
    wd_log w' = wd_log w @ map (w_waker \<circ> the \<circ> upgrade w)
      (filter (\<lambda>a. \<exists>x. upgrade w a = Some x \<and> w_state x \<le> W_Waiting) (m_queue m))"
  using close_all_spec [OF assms(1,2)] assms(3) by (auto simp: multi_close_def close_spec_def)

theorem multi_close_reaches_all_witness:
  "\<exists>w' m'. multi_close \<lparr>wd_heap = (\<lambda>_. None)(0 := Some \<lparr>w_state = W_Waiting, w_seq = 1, w_waker = Blocking 9\<rparr>),
      wd_next = 1, wd_sels = (\<lambda>_. None), wd_log = []\<rparr>
      \<lparr>m_state = MULTI_HAS_WAKER, m_queue = [0], m_selectors = [], m_seq = 1\<rparr> = Done (w', m') \<and>
    wd_log w' = [Blocking 9]"
proof -
  let ?x = "\<lparr>w_state = W_Waiting, w_seq = 1, w_waker = Blocking 9\<rparr>"
  let ?w = "\<lparr>wd_heap = (\<lambda>_. None)(0 := Some ?x), wd_next = 1, wd_sels = (\<lambda>_. None), wd_log = []\<rparr> :: world"
  let ?m = "\<lparr>m_state = MULTI_HAS_WAKER, m_queue = [0], m_selectors = [], m_seq = 1\<rparr> :: multi"
  have "heap_ok ?w" by (simp add: heap_ok_def w_ok_def)
  with multi_close_reaches_all [of ?w ?m] show ?thesis by (force simp: upgrade_def)
qed

text \<open>
  Clearing outdated wakers never drops somebody else's pending wake-up: a registered waker that is
  alive, initial or waiting, and does not carry the sequence number of the cancelled waker stays in
  the queue, for the one-shot and for the full clearing.
\<close>

theorem multi_clear_keeps_waiting:
  assumes "a \<in> set (m_queue m)" "upgrade w a = Some x" "w_state x < W_Woken" "w_seq x \<noteq> w_seq old"
  shows "a \<in> set (m_queue (multi_clear_wakers_inner w m old oneshot))"
  using assms multi_clear_scan_keeps [OF assms(1-3), of "w_seq old" oneshot]
  by (auto simp: multi_clear_wakers_inner_def Let_def w_get_seq_def)

theorem multi_clear_keeps_waiting_witness:
  "3 \<in> set (m_queue (multi_clear_wakers_inner
      (set_waker world_init 3 \<lparr>w_state = W_Waiting, w_seq = 1, w_waker = Blocking 9\<rparr>)
      \<lparr>m_state = MULTI_HAS_WAKER, m_queue = [3], m_selectors = [], m_seq = 1\<rparr>
      \<lparr>w_state = W_Closed, w_seq = 2, w_waker = Blocking 8\<rparr> False))"
  by (rule multi_clear_keeps_waiting [where x = "\<lparr>w_state = W_Waiting, w_seq = 1, w_waker = Blocking 9\<rparr>"]) simp_all

text \<open>
  A finding: \<^verbatim>\<open>fire\<close> stops one waker too early. It stops at the waker whose sequence number is the
  registry's minus one, on the assumption (stated in its comment) that the registry's number is one
  ahead of the last waker; registering gives both the same number. With two wakers abandoned by
  timeouts but not yet cleared in front of a waiting third, \<^verbatim>\<open>fire\<close> skips the two, stops, and notifies
  nobody: the third waker stays waiting although there is something for it.
\<close>

theorem multi_fire_misses_waiting:
  "\<exists>w m w' m'.
    exec_bind (multi_reg_waker_blocking world_init multi_new 1 None) (\<lambda>(w1, m1, _).
    exec_bind (multi_reg_waker_blocking w1 m1 2 None) (\<lambda>(w2, m2, _).
    exec_bind (multi_reg_waker_blocking w2 m2 3 None) (\<lambda>(w3, m3, _).
    exec_bind (multi_commit_waiting w3 (Some 0)) (\<lambda>(w4, _).
    exec_bind (multi_commit_waiting w4 (Some 1)) (\<lambda>(w5, _).
    exec_bind (multi_commit_waiting w5 (Some 2)) (\<lambda>(w6, _).
    exec_bind (w_abandon (the (upgrade w6 0))) (\<lambda>(x0, _).
    exec_bind (w_abandon (the (upgrade w6 1))) (\<lambda>(x1, _).
      Done (set_waker (set_waker w6 0 x0) 1 x1, m3))))))))) = Done (w, m) \<and>
    upgrade w 2 = Some \<lparr>w_state = W_Waiting, w_seq = 3, w_waker = Blocking 3\<rparr> \<and> m_seq m = 3 \<and>
    multi_fire w m = Done (w', m', WR_Next) \<and> wd_log w' = [] \<and> m_queue m' = [2] \<and>
    map_option w_state (upgrade w' 2) = Some W_Waiting"
  by (simp add: multi_reg_waker_blocking_def multi_reg_waker_def new_blocking_def alloc_waker_def world_init_def
      multi_new_def multi_commit_waiting_def w_commit_waiting_def w_try_change_state_def cas_def upgrade_def
      set_waker_def w_abandon_spec close_spec_def multi_check_select_def w_set_seq_def
      multi_fire_def multi_pop_first_def multi_pop_again_def wake_at_def w_wake_spec wake_spec_def w_ok_def
      w_get_seq_def Let_def)

end
