(* ===== verification/Flavor.thy ===== *)
theory Flavor
  imports Array_Queue Array_Queue_Spsc Array_Queue_Mpsc One_Queue One_Single Backoff
begin

unbundle bit_operations_syntax

text \<open>
  The flavor traits of \<^verbatim>\<open>src/src/flavor/mod.rs\<close> (\<^verbatim>\<open>Queue\<close>, \<^verbatim>\<open>FlavorImpl\<close>, \<^verbatim>\<open>FlavorSelect\<close>) as a record of
  operations, and its instances for the bounded flavors: \<^verbatim>\<open>Array\<close>, \<^verbatim>\<open>ArraySpsc\<close>, \<^verbatim>\<open>ArrayMpsc\<close>, \<^verbatim>\<open>One\<close>,
  \<^verbatim>\<open>OneMpsc\<close> and \<^verbatim>\<open>OneSpsc\<close>. The channel code is generic in the flavor; so are its translations, which take
  the record as an argument. What a channel relies on is the locale \<open>lawful_flavor\<close>, interpreted here on
  every instance.
\<close>

section \<open>The operations of a flavor\<close>

record ('q, 'a) flavor =
  fl_bounded :: bool
  fl_push :: "'q \<Rightarrow> 'a \<Rightarrow> ('q \<times> ('a + unit)) exec"
  fl_pop :: "'q \<Rightarrow> ('q \<times> 'a option) exec"
  fl_len :: "'q \<Rightarrow> nat"
  fl_capacity :: "'q \<Rightarrow> nat option"
  fl_is_full :: "'q \<Rightarrow> bool"
  fl_is_empty :: "'q \<Rightarrow> bool"
  fl_try_send :: "'q \<Rightarrow> 'a \<Rightarrow> ('q \<times> bool) exec"
  fl_try_send_oneshot :: "'q \<Rightarrow> 'a \<Rightarrow> ('q \<times> bool option) exec"
  fl_try_recv_cached :: "'q \<Rightarrow> ('q \<times> 'a option) exec"
  fl_try_recv :: "'q \<Rightarrow> ('q \<times> 'a option) exec"
  fl_try_recv_final :: "'q \<Rightarrow> ('q \<times> 'a option) exec"
  fl_backoff_limit :: u16
  fl_adjust_tx_backoff :: "'q \<Rightarrow> backoff \<Rightarrow> backoff exec"
  fl_try_select :: "bool \<Rightarrow> 'q \<Rightarrow> ('q \<times> token option) exec"
  fl_read_with_token :: "'q \<Rightarrow> token \<Rightarrow> ('q \<times> 'a) exec"

text \<open>\<^verbatim>\<open>push\<close> gives the item back when the queue is full.\<close>

definition hand_back :: "'a \<Rightarrow> ('q \<times> bool) exec \<Rightarrow> ('q \<times> ('a + unit)) exec" where
  "hand_back item r = exec_map (map_prod id (\<lambda>ok. if ok then Inr () else Inl item)) r"

section \<open>Array flavors\<close>

text \<open>The bound is at most \<^verbatim>\<open>u32::MAX\<close>, and zero is rewritten to one.\<close>

definition array_new :: "usize \<Rightarrow> 'a array_queue exec" where
  "array_new bound = (if bound \<le> 2 ^ 32 - 1 then aq_new (if bound = 0 then 1 else bound) else Fault Panic)"

definition array_spsc_new :: "usize \<Rightarrow> 'a spsc_queue exec" where
  "array_spsc_new bound = (if bound \<le> 2 ^ 32 - 1 then sq_new (if bound = 0 then 1 else bound) else Fault Panic)"

definition array_mpsc_new :: "usize \<Rightarrow> 'a mpsc_queue exec" where
  "array_mpsc_new bound = (if bound \<le> 2 ^ 32 - 1 then mq_new (if bound = 0 then 1 else bound) else Fault Panic)"

definition array_adjust_tx_backoff :: "nat \<Rightarrow> backoff \<Rightarrow> backoff" where
  "array_adjust_tx_backoff cap b =
     (if 20 < cap then fst (backoff_yield_now (backoff_set_step b 2)) else b)"

definition array_flavor :: "bool list \<Rightarrow> ('a array_queue, 'a) flavor" where
  "array_flavor s = (let fuel = Suc (length s); sp = fst (next_spurious s) in
     \<lparr>fl_bounded = True,
      fl_push = (\<lambda>q x. hand_back x (aq_push_with_ptr fuel s q x)),
      fl_pop = aq_pop fuel s,
      fl_len = aq_len, fl_capacity = (\<lambda>q. Some (aq_capacity q)),
      fl_is_full = aq_is_full, fl_is_empty = aq_is_empty,
      fl_try_send = aq_push_with_ptr fuel s,
      fl_try_send_oneshot = aq_try_push_oneshot sp,
      fl_try_recv_cached = aq_pop fuel s,
      fl_try_recv = aq_pop fuel s,
      fl_try_recv_final = aq_pop fuel s,
      fl_backoff_limit = DEFAULT_LIMIT,
      fl_adjust_tx_backoff = (\<lambda>q b. Done (array_adjust_tx_backoff (aq_capacity q) b)),
      fl_try_select = (\<lambda>final_check. aq_start_read fuel s),
      fl_read_with_token = aq_read\<rparr>)"

definition array_spsc_flavor :: "('a spsc_queue, 'a) flavor" where
  "array_spsc_flavor =
     \<lparr>fl_bounded = True,
      fl_push = (\<lambda>q x. hand_back x (sq_push_with_ptr_final q x)),
      fl_pop = sq_pop,
      fl_len = sq_len, fl_capacity = (\<lambda>q. Some (sq_capacity q)),
      fl_is_full = sq_is_full, fl_is_empty = sq_is_empty,
      fl_try_send = sq_push_with_ptr,
      fl_try_send_oneshot = (\<lambda>q x. exec_map (map_prod id Some) (sq_push_with_ptr_final q x)),
      fl_try_recv_cached = sq_pop_cached,
      fl_try_recv = sq_pop,
      fl_try_recv_final = sq_pop,
      fl_backoff_limit = DEFAULT_LIMIT,
      fl_adjust_tx_backoff = (\<lambda>q b. Done (array_adjust_tx_backoff (sq_capacity q) b)),
      fl_try_select = (\<lambda>final_check. sq_start_read),
      fl_read_with_token = sq_read\<rparr>"

definition array_mpsc_flavor :: "bool list \<Rightarrow> ('a mpsc_queue, 'a) flavor" where
  "array_mpsc_flavor s = (let fuel = Suc (length s); sp = fst (next_spurious s) in
     \<lparr>fl_bounded = True,
      fl_push = (\<lambda>q x. hand_back x (mq_push_with_ptr fuel s q x)),
      fl_pop = mq_pop,
      fl_len = mq_len, fl_capacity = (\<lambda>q. Some (mq_capacity q)),
      fl_is_full = mq_is_full, fl_is_empty = mq_is_empty,
      fl_try_send = mq_push_with_ptr fuel s,
      fl_try_send_oneshot = mq_try_push_oneshot sp,
      fl_try_recv_cached = mq_pop_cached,
      fl_try_recv = mq_pop,
      fl_try_recv_final = mq_pop,
      fl_backoff_limit = DEFAULT_LIMIT,
      fl_adjust_tx_backoff = (\<lambda>q b. Done (array_adjust_tx_backoff (mq_capacity q) b)),
      fl_try_select = (\<lambda>final_check. mq_start_read),
      fl_read_with_token = mq_read\<rparr>)"

section \<open>One-element flavors\<close>

definition one_adjust_tx_backoff :: "backoff \<Rightarrow> backoff exec" where
  "one_adjust_tx_backoff b =
     exec_map (\<lambda>(b', _). b'\<lparr>config := \<lparr>spin_limit = 6, limit = MAX_LIMIT\<rparr>\<rparr>) (backoff_spin b)"

definition one_flavor :: "bool list \<Rightarrow> ('a one, 'a) flavor" where
  "one_flavor s = (let fuel = Suc (length s) in
     \<lparr>fl_bounded = True,
      fl_push = one_push fuel s,
      fl_pop = one_pop fuel s,
      fl_len = one_len, fl_capacity = one_capacity,
      fl_is_full = one_is_full, fl_is_empty = one_is_empty,
      fl_try_send = one_try_send fuel s,
      fl_try_send_oneshot = one_try_send_oneshot fuel s,
      fl_try_recv_cached = one_try_recv fuel s,
      fl_try_recv = one_try_recv fuel s,
      fl_try_recv_final = one_try_recv_final fuel s,
      fl_backoff_limit = MAX_LIMIT,
      fl_adjust_tx_backoff = (\<lambda>q. one_adjust_tx_backoff),
      fl_try_select = (\<lambda>final_check. one_try_select fuel s),
      fl_read_with_token = one_read_with_token\<rparr>)"

definition one_mpsc_flavor :: "bool list \<Rightarrow> ('a one_mpsc, 'a) flavor" where
  "one_mpsc_flavor s = (let fuel = Suc (length s) in
     \<lparr>fl_bounded = True,
      fl_push = om_push fuel s,
      fl_pop = om_pop,
      fl_len = om_len, fl_capacity = om_capacity,
      fl_is_full = om_is_full, fl_is_empty = om_is_empty,
      fl_try_send = om_try_send fuel s,
      fl_try_send_oneshot = om_try_send_oneshot fuel s,
      fl_try_recv_cached = om_try_recv,
      fl_try_recv = om_try_recv,
      fl_try_recv_final = om_try_recv_final,
      fl_backoff_limit = MAX_LIMIT,
      fl_adjust_tx_backoff = (\<lambda>q. one_adjust_tx_backoff),
      fl_try_select = (\<lambda>final_check. om_try_select),
      fl_read_with_token = om_read_with_token\<rparr>)"

definition one_spsc_flavor :: "('a one_sp, 'a) flavor" where
  "one_spsc_flavor =
     \<lparr>fl_bounded = True,
      fl_push = osp_push,
      fl_pop = osp_pop,
      fl_len = osp_len, fl_capacity = osp_capacity,
      fl_is_full = osp_is_full, fl_is_empty = osp_is_empty,
      fl_try_send = osp_try_send,
      fl_try_send_oneshot = osp_try_send_oneshot,
      fl_try_recv_cached = osp_try_recv,
      fl_try_recv = osp_try_recv,
      fl_try_recv_final = osp_try_recv_final,
      fl_backoff_limit = MAX_LIMIT,
      fl_adjust_tx_backoff = (\<lambda>q. one_adjust_tx_backoff),
      fl_try_select = (\<lambda>final_check. osp_try_select),
      fl_read_with_token = osp_read_with_token\<rparr>"

section \<open>What a channel relies on\<close>

locale lawful_flavor =
  fifo_weak where cap = "fl_capacity F" and push = "fl_try_send F" and pop = "fl_try_recv F"
    and inv = inv and content = content
    and len = "fl_len F" and is_empty = "fl_is_empty F" and is_full = "fl_is_full F"
  for F :: "('q, 'a) flavor" and inv :: "'q \<Rightarrow> bool" and content :: "'q \<Rightarrow> 'a list" +
  assumes bounded_cap: "inv q \<Longrightarrow> fl_bounded F \<longleftrightarrow> fl_capacity F q \<noteq> None"
    and push_eq: "inv q \<Longrightarrow> fl_push F q x = hand_back x (fl_try_send F q x)"
    and pop_eq: "inv q \<Longrightarrow> fl_pop F q = fl_try_recv F q"
    and final_eq: "inv q \<Longrightarrow> fl_try_recv_final F q = fl_try_recv F q"
    and oneshot: "inv q \<Longrightarrow> fl_bounded F \<Longrightarrow>
      \<exists>q' r. fl_try_send_oneshot F q x = Done (q', r) \<and> inv q' \<and> fl_capacity F q' = fl_capacity F q \<and>
        (case r of
           Some True \<Rightarrow> has_room (fl_capacity F q) (content q) \<and> content q' = content q @ [x]
         | Some False \<Rightarrow> \<not> has_room (fl_capacity F q) (content q) \<and> content q' = content q
         | None \<Rightarrow> has_room (fl_capacity F q) (content q) \<and> content q' = content q)"
    and cached: "inv q \<Longrightarrow>
      \<exists>q' r. fl_try_recv_cached F q = Done (q', r) \<and> inv q' \<and> fl_capacity F q' = fl_capacity F q \<and>
        (case r of Some x \<Rightarrow> content q = x # content q' | None \<Rightarrow> content q' = content q)"
    and select_read: "inv q \<Longrightarrow>
      exec_bind (fl_try_select F final_check q) (\<lambda>(q', t).
        case t of
          Some tok \<Rightarrow> if tok_pos tok = None then Fault Panic
            else exec_map (map_prod id Some) (fl_read_with_token F q' tok)
        | None \<Rightarrow> Done (q', None)) = fl_try_recv F q"
    and adjust: "inv q \<Longrightarrow> step b = 0 \<Longrightarrow>
      \<exists>b'. fl_adjust_tx_backoff F q b = Done b' \<and>
        (spin_limit (config b') = spin_limit (config b) \<or> spin_limit (config b') = 6)"
begin

lemma push_hands_back:
  assumes "inv q"
  shows "safe (fl_push F q x) (\<lambda>(q', r). inv q' \<and>
    (r = Inr () \<and> content q' = content q @ [x] \<or> r = Inl x \<and> content q' = content q))"
  using push_safe [OF assms, of x]
  by (auto simp: push_eq [OF assms] hand_back_def safe_map elim!: safe_mono split: if_splits)

lemma bounded_push_step:
  assumes "inv q" "fl_bounded F"
  shows "\<exists>q' b. fl_try_send F q x = Done (q', b) \<and> inv q' \<and> fl_capacity F q' = fl_capacity F q \<and>
    spec_step (fl_capacity F q) (content q) (Push x) = (content q', Pushed b)"
  using push_step [OF assms(1)] bounded_cap [OF assms(1)] assms(2) by blast

end

section \<open>The array flavors are lawful\<close>

lemma array_adjust_spin: "spin_limit (config (array_adjust_tx_backoff cap b)) = spin_limit (config b)"
  by (simp add: array_adjust_tx_backoff_def backoff_yield_now_def backoff_set_step_def Let_def)

lemma one_adjust_spin:
  assumes "step b = 0"
  shows "\<exists>b'. one_adjust_tx_backoff b = Done b' \<and> (spin_limit (config b') = spin_limit (config b) \<or> spin_limit (config b') = 6)"
proof -
  have "spin_hints 0 = Done 1" by (simp add: spin_hints_def)
  with assms show ?thesis by (simp add: one_adjust_tx_backoff_def backoff_spin_def SPIN_LIMIT_def MAX_LIMIT_def Let_def)
qed

lemma array_flavor_simps:
  "fl_bounded (array_flavor s) = True" "fl_capacity (array_flavor s) = aq_cap" "fl_len (array_flavor s) = aq_len"
  "fl_is_full (array_flavor s) = aq_is_full" "fl_is_empty (array_flavor s) = aq_is_empty"
  "fl_try_send (array_flavor s) = aq_push_s s" "fl_try_recv (array_flavor s) = aq_pop_s s"
  "fl_push (array_flavor s) q x = hand_back x (aq_push_s s q x)" "fl_pop (array_flavor s) = aq_pop_s s"
  "fl_try_recv_final (array_flavor s) = aq_pop_s s" "fl_try_recv_cached (array_flavor s) = aq_pop_s s"
  "fl_try_send_oneshot (array_flavor s) = aq_try_push_oneshot (fst (next_spurious s))"
  "fl_adjust_tx_backoff (array_flavor s) q k = Done (array_adjust_tx_backoff (aq_capacity q) k)"
  "fl_try_select (array_flavor s) b = aq_start_read (Suc (length s)) s" "fl_read_with_token (array_flavor s) = aq_read"
  by (simp_all add: array_flavor_def Let_def aq_push_s_def [abs_def] aq_pop_s_def [abs_def] aq_cap_def [abs_def])

lemma option_token_read:
  assumes "\<And>q' tok. sel = Done (q', Some tok) \<Longrightarrow> tok_pos tok \<noteq> None"
  shows "exec_bind sel (\<lambda>(q', t).
      case t of Some tok \<Rightarrow> if tok_pos tok = None then Fault Panic else rd q' tok | None \<Rightarrow> Done (q', None)) =
    exec_bind sel (\<lambda>(q', t). case t of Some tok \<Rightarrow> rd q' tok | None \<Rightarrow> Done (q', None))"
  using assms by (cases sel) (auto split: option.splits)

lemma aq_start_read_token: "aq_start_read fuel s q = Done (q', Some tok) \<Longrightarrow> tok_pos tok \<noteq> None"
  by (auto simp: aq_start_read_def token_new_def split: option.splits)

lemma aq_oneshot_law:
  assumes "aq_inv q"
  shows "\<exists>q' r. aq_try_push_oneshot sp q x = Done (q', r) \<and> aq_inv q' \<and> aq_cap q' = aq_cap q \<and>
    (case r of
       Some True \<Rightarrow> has_room (aq_cap q) (aq_content q) \<and> aq_content q' = aq_content q @ [x]
     | Some False \<Rightarrow> \<not> has_room (aq_cap q) (aq_content q) \<and> aq_content q' = aq_content q
     | None \<Rightarrow> has_room (aq_cap q) (aq_content q) \<and> aq_content q' = aq_content q)"
proof -
  from aq_inv_repr [OF assms] obtain k h where r: "aq_repr q k h (aq_content q)" by blast
  have full: "aq_head q + aq_one_lap q = aq_tail q \<longleftrightarrow> length (aq_content q) = aq_capacity q"
    using aq_repr_is_full [OF r] by (simp add: aq_is_full_def)
  show ?thesis
  proof (cases "length (aq_content q) = aq_capacity q")
    case True
    with full assms show ?thesis by (simp add: aq_try_push_oneshot_def has_room_def aq_cap_def)
  next
    case False
    then have room: "length (aq_content q) < aq_capacity q" using aq_reprD(2) [OF r refl] by simp
    from aq_repr_inv [OF aq_cell_push [OF r room refl refl, of x]] False full room assms aq_reprD(5) [OF r refl]
    show ?thesis
      by (cases sp) (simp_all add: aq_try_push_oneshot_def Let_def aq_try_push_room [OF r room refl refl]
          has_room_def aq_cap_def)
  qed
qed

lemma pop_law:
  assumes "fifo iv cont cp push pop" "iv q"
  shows "\<exists>q' r. pop q = Done (q', r) \<and> iv q' \<and> cp q' = cp q \<and>
    (case r of Some x \<Rightarrow> cont q = x # cont q' | None \<Rightarrow> cont q' = cont q)"
  using fifo.pop_first [OF assms] fifo.pop_empty [OF assms] by (cases "cont q") force+

interpretation arrf: lawful_flavor "array_flavor s" aq_inv aq_content for s :: "bool list"
proof (rule lawful_flavor.intro, unfold array_flavor_simps, rule aqi.weak.fifo_weak_axioms,
    rule lawful_flavor_axioms.intro, unfold array_flavor_simps, goal_cases)
  case (1 q)
  then show ?case by (simp add: aq_cap_def)
next
  case (6 q)
  then show ?case by (rule pop_law [OF aqi.fifo_axioms])
next
  case (7 q final_check)
  show ?case
    by (subst option_token_read [OF aq_start_read_token])
      (auto simp: aq_pop_s_def aq_pop_eq_start_read)
qed (auto intro: aq_oneshot_law simp: array_adjust_spin)

lemma spsc_flavor_simps:
  "fl_bounded array_spsc_flavor = True" "fl_capacity array_spsc_flavor = sq_cap" "fl_len array_spsc_flavor = sq_len"
  "fl_is_full array_spsc_flavor = sq_is_full" "fl_is_empty array_spsc_flavor = sq_is_empty"
  "fl_try_send array_spsc_flavor = sq_push_with_ptr" "fl_try_recv array_spsc_flavor = sq_pop"
  "fl_push array_spsc_flavor q x = hand_back x (sq_push_with_ptr_final q x)" "fl_pop array_spsc_flavor = sq_pop"
  "fl_try_recv_final array_spsc_flavor = sq_pop" "fl_try_recv_cached array_spsc_flavor = sq_pop_cached"
  "fl_try_send_oneshot array_spsc_flavor q x = exec_map (map_prod id Some) (sq_push_with_ptr_final q x)"
  "fl_adjust_tx_backoff array_spsc_flavor q k = Done (array_adjust_tx_backoff (sq_capacity q) k)"
  "fl_try_select array_spsc_flavor b = sq_start_read" "fl_read_with_token array_spsc_flavor = sq_read"
  by (simp_all add: array_spsc_flavor_def sq_cap_def [abs_def])

lemma push_law_oneshot:
  assumes "fifo iv cont cp push pop" "iv q"
  shows "\<exists>q' r. exec_map (map_prod id Some) (push q x) = Done (q', r) \<and> iv q' \<and> cp q' = cp q \<and>
    (case r of
       Some True \<Rightarrow> has_room (cp q) (cont q) \<and> cont q' = cont q @ [x]
     | Some False \<Rightarrow> \<not> has_room (cp q) (cont q) \<and> cont q' = cont q
     | None \<Rightarrow> has_room (cp q) (cont q) \<and> cont q' = cont q)"
  using fifo.push_accept [OF assms, of x] fifo.push_refuse [OF assms, of x]
  by (cases "has_room (cp q) (cont q)") force+

lemma sq_start_read_token: "sq_start_read q = Done (q', Some tok) \<Longrightarrow> tok_pos tok \<noteq> None"
  by (auto simp: sq_start_read_def token_new_def exec_map_def split: option.splits)

lemma sq_final_eq: "sq_push_with_ptr_final = sq_push_with_ptr"
  by (simp add: fun_eq_iff sq_push_with_ptr_final_def sq_push_with_ptr_def)

lemma sq_cached_law:
  assumes "sq_inv q"
  shows "\<exists>q' r. sq_pop_cached q = Done (q', r) \<and> sq_inv q' \<and> sq_cap q' = sq_cap q \<and>
    (case r of Some x \<Rightarrow> sq_content q = x # sq_content q' | None \<Rightarrow> sq_content q' = sq_content q)"
proof -
  from sq_inv_repr [OF assms] obtain k h hc tc where r: "sq_repr q k h (sq_content q) hc tc" by blast
  have "h < tc \<Longrightarrow> sq_content q = hd (sq_content q) # tl (sq_content q)"
    using sq_reprD(8) [OF r refl] by (cases "sq_content q") auto
  with sq_pop_cached_cases [OF r] assms show ?thesis
    by (cases "h < tc") (force simp: sq_cap_def dest: sq_repr_inv)+
qed

interpretation spscf: lawful_flavor array_spsc_flavor sq_inv sq_content
proof (rule lawful_flavor.intro, unfold spsc_flavor_simps, rule sqi.weak.fifo_weak_axioms,
    rule lawful_flavor_axioms.intro, unfold spsc_flavor_simps sq_final_eq, goal_cases)
  case (1 q)
  then show ?case by (simp add: sq_cap_def)
next
  case (5 q x)
  then show ?case by (intro push_law_oneshot [OF sqi.fifo_axioms])
next
  case (6 q)
  then show ?case by (rule sq_cached_law)
next
  case (7 q final_check)
  show ?case by (subst option_token_read [OF sq_start_read_token]) (auto simp: sq_pop_eq_start_read)
qed (auto simp: array_adjust_spin)

lemma mpsc_flavor_simps:
  "fl_bounded (array_mpsc_flavor s) = True" "fl_capacity (array_mpsc_flavor s) = mq_cap" "fl_len (array_mpsc_flavor s) = mq_len"
  "fl_is_full (array_mpsc_flavor s) = mq_is_full" "fl_is_empty (array_mpsc_flavor s) = mq_is_empty"
  "fl_try_send (array_mpsc_flavor s) = mq_push_s s" "fl_try_recv (array_mpsc_flavor s) = mq_pop"
  "fl_push (array_mpsc_flavor s) q x = hand_back x (mq_push_s s q x)" "fl_pop (array_mpsc_flavor s) = mq_pop"
  "fl_try_recv_final (array_mpsc_flavor s) = mq_pop" "fl_try_recv_cached (array_mpsc_flavor s) = mq_pop_cached"
  "fl_try_send_oneshot (array_mpsc_flavor s) = mq_try_push_oneshot (fst (next_spurious s))"
  "fl_adjust_tx_backoff (array_mpsc_flavor s) q k = Done (array_adjust_tx_backoff (mq_capacity q) k)"
  "fl_try_select (array_mpsc_flavor s) b = mq_start_read" "fl_read_with_token (array_mpsc_flavor s) = mq_read"
  by (simp_all add: array_mpsc_flavor_def Let_def mq_push_s_def [abs_def] mq_cap_def [abs_def])

lemma mq_start_read_token: "mq_start_read q = Done (q', Some tok) \<Longrightarrow> tok_pos tok \<noteq> None"
  by (auto simp: mq_start_read_def token_new_def exec_map_def split: option.splits)

lemma mq_pop_eq_start_read:
  "mq_pop q =
     exec_bind (mq_start_read q) (\<lambda>(q', t).
       case t of Some tok \<Rightarrow> exec_map (map_prod id Some) (mq_read q' tok) | None \<Rightarrow> Done (q', None))"
proof (cases "mq_start_read_pos True q")
  case None
  then show ?thesis by (simp add: mq_pop_def mq_start_read_def)
next
  case (Some p)
  then show ?thesis
    by (cases p; cases "mq_read_slot q (fst p) (snd p)")
      (auto simp: mq_pop_def mq_start_read_def mq_read_def token_new_def)
qed

lemma mq_cached_law:
  assumes "mq_inv q"
  shows "\<exists>q' r. mq_pop_cached q = Done (q', r) \<and> mq_inv q' \<and> mq_cap q' = mq_cap q \<and>
    (case r of Some x \<Rightarrow> mq_content q = x # mq_content q' | None \<Rightarrow> mq_content q' = mq_content q)"
proof -
  from mq_inv_repr [OF assms] obtain k h hc tc where r: "mq_repr q k h (mq_content q) hc tc" by blast
  show ?thesis
  proof (cases "h < tc")
    case True
    with mq_reprD(8) [OF r refl] obtain x ys where xs: "mq_content q = x # ys" by (cases "mq_content q") auto
    from mq_take_head [OF r [unfolded xs] True _ refl] mq_reprD(8) [OF r refl] True xs show ?thesis
      by (auto simp: mq_pop_cached_def mq_start_read_pos_cases [OF r refl]
          mq_read_slot_head [OF r [unfolded xs] refl] mq_cap_def dest: mq_repr_inv)
  next
    case False
    with assms show ?thesis by (simp add: mq_pop_cached_def mq_start_read_pos_cases [OF r refl])
  qed
qed

lemma mq_oneshot_law:
  assumes "mq_inv q"
  shows "\<exists>q' r. mq_try_push_oneshot sp q x = Done (q', r) \<and> mq_inv q' \<and> mq_cap q' = mq_cap q \<and>
    (case r of
       Some True \<Rightarrow> has_room (mq_cap q) (mq_content q) \<and> mq_content q' = mq_content q @ [x]
     | Some False \<Rightarrow> \<not> has_room (mq_cap q) (mq_content q) \<and> mq_content q' = mq_content q
     | None \<Rightarrow> has_room (mq_cap q) (mq_content q) \<and> mq_content q' = mq_content q)"
proof -
  from mq_inv_repr [OF assms] obtain k h hc tc where r: "mq_repr q k h (mq_content q) hc tc" by blast
  let ?C = "mq_capacity q" and ?xs = "mq_content q"
  define hc' where "hc' = (if h + length ?xs = hc + ?C then h else hc)"
  note full = mq_check_full_cases [OF r refl, folded hc'_def]
  show ?thesis
  proof (cases "length ?xs = ?C")
    case True
    with full assms show ?thesis by (simp add: mq_try_push_oneshot_def has_room_def mq_cap_def)
  next
    case False
    then have room: "length ?xs < ?C" using mq_reprD(12) [OF r refl] by simp
    from mq_try_push_room [OF r refl this hc'_def, of sp x] False full room assms show ?thesis
      by (cases sp) (auto simp: mq_try_push_oneshot_def Let_def has_room_def mq_cap_def dest: mq_repr_inv)
  qed
qed

interpretation mpscf: lawful_flavor "array_mpsc_flavor s" mq_inv mq_content for s :: "bool list"
proof (rule lawful_flavor.intro, unfold mpsc_flavor_simps, rule mqi.weak.fifo_weak_axioms,
    rule lawful_flavor_axioms.intro, unfold mpsc_flavor_simps, goal_cases)
  case (1 q)
  then show ?case by (simp add: mq_cap_def)
next
  case (6 q)
  then show ?case by (rule mq_cached_law)
next
  case (7 q final_check)
  show ?case by (subst option_token_read [OF mq_start_read_token]) (auto simp: mq_pop_eq_start_read)
qed (auto intro: mq_oneshot_law simp: array_adjust_spin)

section \<open>The one-element flavors are lawful\<close>

lemma one_flavor_simps:
  "fl_bounded (one_flavor s) = True" "fl_capacity (one_flavor s) = one_capacity" "fl_len (one_flavor s) = one_len"
  "fl_is_full (one_flavor s) = one_is_full" "fl_is_empty (one_flavor s) = one_is_empty"
  "fl_try_send (one_flavor s) = one_push_s s" "fl_try_recv (one_flavor s) = one_pop_s s"
  "fl_push (one_flavor s) q x = hand_back x (one_push_s s q x)" "fl_pop (one_flavor s) = one_pop_s s"
  "fl_try_recv_final (one_flavor s) = one_pop_s s" "fl_try_recv_cached (one_flavor s) = one_pop_s s"
  "fl_try_send_oneshot (one_flavor s) q x = exec_map (map_prod id Some) (one_push_s s q x)"
  "fl_adjust_tx_backoff (one_flavor s) q k = one_adjust_tx_backoff k"
  "fl_try_select (one_flavor s) b = one_try_select (Suc (length s)) s"
  "fl_read_with_token (one_flavor s) = one_read_with_token"
  by (simp_all add: one_flavor_def Let_def fun_eq_iff one_push_s_def one_pop_s_def one_try_send_def
      one_try_send_oneshot_def one_push_def hand_back_def one_try_recv_def one_try_recv_final_def)

lemma one_select_token: "one_try_select fuel s q = Done (q', Some tok) \<Longrightarrow> tok_pos tok \<noteq> None"
  by (auto simp: one_try_select_def token_new_def exec_map_def)

interpretation onef: lawful_flavor "one_flavor s" one_inv one_content for s :: "bool list"
proof (rule lawful_flavor.intro, unfold one_flavor_simps, rule onei.weak.fifo_weak_axioms,
    rule lawful_flavor_axioms.intro, unfold one_flavor_simps, goal_cases)
  case (5 q x)
  then show ?case by (intro push_law_oneshot [OF onei.fifo_axioms])
next
  case (6 q)
  then show ?case by (rule pop_law [OF onei.fifo_axioms])
next
  case (7 q final_check)
  show ?case
    by (subst option_token_read [OF one_select_token]) (auto simp: one_pop_s_def one_pop_eq_select)
qed (auto simp: one_capacity_def intro: one_adjust_spin)

lemma one_mpsc_flavor_simps:
  "fl_bounded (one_mpsc_flavor s) = True" "fl_capacity (one_mpsc_flavor s) = om_capacity" "fl_len (one_mpsc_flavor s) = om_len"
  "fl_is_full (one_mpsc_flavor s) = om_is_full" "fl_is_empty (one_mpsc_flavor s) = om_is_empty"
  "fl_try_send (one_mpsc_flavor s) = om_push_s s" "fl_try_recv (one_mpsc_flavor s) = om_pop"
  "fl_push (one_mpsc_flavor s) q x = hand_back x (om_push_s s q x)" "fl_pop (one_mpsc_flavor s) = om_pop"
  "fl_try_recv_final (one_mpsc_flavor s) = om_pop" "fl_try_recv_cached (one_mpsc_flavor s) = om_pop"
  "fl_try_send_oneshot (one_mpsc_flavor s) q x = exec_map (map_prod id Some) (om_push_s s q x)"
  "fl_adjust_tx_backoff (one_mpsc_flavor s) q k = one_adjust_tx_backoff k"
  "fl_try_select (one_mpsc_flavor s) b = om_try_select" "fl_read_with_token (one_mpsc_flavor s) = om_read_with_token"
  by (simp_all add: one_mpsc_flavor_def Let_def fun_eq_iff om_push_s_def om_try_send_def
      om_try_send_oneshot_def om_push_def hand_back_def om_try_recv_def om_try_recv_final_def)

lemma om_select_token: "om_try_select q = Done (q', Some tok) \<Longrightarrow> tok_pos tok \<noteq> None"
  by (auto simp: om_try_select_def token_new_def)

lemma om_pop_eq_select:
  "om_pop q =
     exec_bind (om_try_select q) (\<lambda>(q', t).
       case t of Some tok \<Rightarrow> exec_map (map_prod id Some) (om_read_with_token q' tok) | None \<Rightarrow> Done (q', None))"
  by (auto simp: om_pop_def om_try_select_def om_read_with_token_def token_new_def split: option.splits)

interpretation ompf: lawful_flavor "one_mpsc_flavor s" om_inv om_content for s :: "bool list"
proof (rule lawful_flavor.intro, unfold one_mpsc_flavor_simps, rule omi.weak.fifo_weak_axioms,
    rule lawful_flavor_axioms.intro, unfold one_mpsc_flavor_simps, goal_cases)
  case (5 q x)
  then show ?case by (intro push_law_oneshot [OF omi.fifo_axioms])
next
  case (6 q)
  then show ?case by (rule pop_law [OF omi.fifo_axioms])
next
  case (7 q final_check)
  show ?case by (subst option_token_read [OF om_select_token]) (auto simp: om_pop_eq_select)
qed (auto simp: om_capacity_def intro: one_adjust_spin)

lemma one_spsc_flavor_simps:
  "fl_bounded one_spsc_flavor = True" "fl_capacity one_spsc_flavor = osp_capacity" "fl_len one_spsc_flavor = osp_len"
  "fl_is_full one_spsc_flavor = osp_is_full" "fl_is_empty one_spsc_flavor = osp_is_empty"
  "fl_try_send one_spsc_flavor = osp_try_push" "fl_try_recv one_spsc_flavor = osp_pop"
  "fl_push one_spsc_flavor q x = hand_back x (osp_try_push q x)" "fl_pop one_spsc_flavor = osp_pop"
  "fl_try_recv_final one_spsc_flavor = osp_pop" "fl_try_recv_cached one_spsc_flavor = osp_pop"
  "fl_try_send_oneshot one_spsc_flavor q x = exec_map (map_prod id Some) (osp_try_push q x)"
  "fl_adjust_tx_backoff one_spsc_flavor q k = one_adjust_tx_backoff k"
  "fl_try_select one_spsc_flavor b = osp_try_select" "fl_read_with_token one_spsc_flavor = osp_read_with_token"
  by (simp_all add: one_spsc_flavor_def fun_eq_iff osp_try_send_def osp_try_send_oneshot_def osp_push_def
      hand_back_def osp_try_recv_def osp_try_recv_final_def)

lemma osp_select_token: "osp_try_select q = Done (q', Some tok) \<Longrightarrow> tok_pos tok \<noteq> None"
  by (auto simp: osp_try_select_def token_new_def exec_map_def)

lemma osp_pop_eq_select:
  "osp_pop q =
     exec_bind (osp_try_select q) (\<lambda>(q', t).
       case t of Some tok \<Rightarrow> exec_map (map_prod id Some) (osp_read_with_token q' tok) | None \<Rightarrow> Done (q', None))"
  by (cases "osp_start_read q")
    (auto simp: osp_pop_def osp_try_select_def osp_read_with_token_def token_new_def split: option.splits)

interpretation ospf: lawful_flavor one_spsc_flavor osp_inv osp_content
proof (rule lawful_flavor.intro, unfold one_spsc_flavor_simps, rule ospi.weak.fifo_weak_axioms,
    rule lawful_flavor_axioms.intro, unfold one_spsc_flavor_simps, goal_cases)
  case (5 q x)
  then show ?case by (intro push_law_oneshot [OF ospi.fifo_axioms])
next
  case (6 q)
  then show ?case by (rule pop_law [OF ospi.fifo_axioms])
next
  case (7 q final_check)
  show ?case by (subst option_token_read [OF osp_select_token]) (auto simp: osp_pop_eq_select)
qed (auto simp: osp_capacity_def intro: one_adjust_spin)

section \<open>Properties\<close>

text \<open>
  C39. Bounds of the array flavors: a bound of zero is rewritten to one, so that any bound up to 2^31 - 1
  gives an empty queue of that capacity for all three; from 2^31 to \<^verbatim>\<open>u32::MAX\<close> the MPMC flavor still
  constructs, while the SPSC and MPSC flavors, whose own assertion also admits these bounds, panic in
  the constructor of the queue underneath.
\<close>

theorem array_bounds:
  assumes "n = (if bound = 0 then 1 else unat bound)" "bound \<le> 2 ^ 32 - 1"
  shows "(\<exists>q. array_new bound = Done q \<and> aq_inv q \<and> aq_content q = [] \<and> aq_capacity q = n) \<and>
    (if bound < 2 ^ 31
     then (\<exists>q. array_spsc_new bound = Done q \<and> sq_inv q \<and> sq_content q = [] \<and> sq_capacity q = n) \<and>
       (\<exists>q. array_mpsc_new bound = Done q \<and> mq_inv q \<and> mq_content q = [] \<and> mq_capacity q = n)
     else array_spsc_new bound = Fault Panic \<and> array_mpsc_new bound = Fault Panic)"
proof -
  define b where "b = (if bound = 0 then 1 else bound)"
  have b: "0 < b" "unat b = n" using assms(1) by (auto simp: b_def word_gt_0)
  have "unat bound \<le> 2 ^ 32 - 1" using assms(2) by (simp add: word_le_nat_alt)
  then have "unat b < 2 ^ 63" using b(2) assms(1) by (auto split: if_splits)
  from aq_new_inv [OF b(1) this] b(2)
  have A: "\<exists>q. array_new bound = Done q \<and> aq_inv q \<and> aq_content q = [] \<and> aq_capacity q = n"
    using assms(2) by (auto simp: array_new_def aq_cap_def b_def)
  show ?thesis
  proof (cases "bound < 2 ^ 31")
    case True
    then have "b < 2 ^ 31" by (simp add: b_def)
    from sq_new_repr [OF b(1) this] mq_new_repr [OF b(1) this] b(2) A True assms(2) show ?thesis
      unfolding array_spsc_new_def array_mpsc_new_def b_def [symmetric]
      by (auto dest!: sq_repr_inv mq_repr_inv)
  next
    case False
    with A assms(2) show ?thesis by (auto simp: array_spsc_new_def array_mpsc_new_def sq_new_def mq_new_def)
  qed
qed

theorem array_bounds_witness:
  "(\<exists>q. array_new 0 = Done (q :: nat array_queue) \<and> aq_capacity q = 1) \<and>
    array_spsc_new (2 ^ 31) = Fault Panic"
  using array_bounds [of 1 0] array_bounds [of "2 ^ 31" "2 ^ 31"] by auto

end
