(* ===== verification/Channel.thy ===== *)
theory Channel
  imports Flavor Registry Errors
begin

unbundle bit_operations_syntax

text \<open>
  The channel that the senders and receivers share, \<^verbatim>\<open>src/src/shared.rs\<close>: a flavor, the two handle
  counts, and one waker registry per side. The code is generic in the flavor, so the flavor record is
  the first argument of the operations that use it.

  Interleaving. A thread that runs a channel operation is one of many. Its calls into a component (a
  queue operation, a registry operation, a load of a count) are atomic steps; between two of them the
  other threads may do anything. What they do is a script of state changes, \<open>sy_env\<close>: \<open>sched\<close> marks every
  place where others may run, and consumes one entry of the script (none is left: nobody interferes).
  \<open>sy_now\<close> is the clock \<^verbatim>\<open>Instant::now\<close> reads.
\<close>

section \<open>State\<close>

record 'q channel =
  ch_inner :: 'q
  ch_tx_count :: usize
  ch_rx_count :: usize
  ch_senders :: registry
  ch_recvs :: registry
  ch_large :: bool
  ch_cfg :: backoff_config

type_synonym 'q shared_state = "world \<times> 'q channel \<times> nat"

record 'q sys =
  sy_world :: world
  sy_chan :: "'q channel"
  sy_now :: nat
  sy_env :: "('q shared_state \<Rightarrow> 'q shared_state) list"

definition sched :: "'q sys \<Rightarrow> 'q sys" where
  "sched s =
     (case sy_env s of
        [] \<Rightarrow> s
      | f # fs \<Rightarrow> (case f (sy_world s, sy_chan s, sy_now s) of
          (w, c, t) \<Rightarrow> \<lparr>sy_world = w, sy_chan = c, sy_now = t, sy_env = fs\<rparr>))"

text \<open>A call into the queue, the registry of the senders, and that of the receivers.\<close>

definition with_inner :: "('q \<Rightarrow> ('q \<times> 'r) exec) \<Rightarrow> 'q sys \<Rightarrow> ('q sys \<times> 'r) exec" where
  "with_inner f s =
     exec_map (\<lambda>(q, r). (s\<lparr>sy_chan := (sy_chan s)\<lparr>ch_inner := q\<rparr>\<rparr>, r)) (f (ch_inner (sy_chan s)))"

definition with_senders :: "(world \<Rightarrow> registry \<Rightarrow> (world \<times> registry \<times> 'r) exec) \<Rightarrow> 'q sys \<Rightarrow> ('q sys \<times> 'r) exec" where
  "with_senders f s =
     exec_map (\<lambda>(w, g, r). (s\<lparr>sy_world := w, sy_chan := (sy_chan s)\<lparr>ch_senders := g\<rparr>\<rparr>, r))
       (f (sy_world s) (ch_senders (sy_chan s)))"

definition with_recvs :: "(world \<Rightarrow> registry \<Rightarrow> (world \<times> registry \<times> 'r) exec) \<Rightarrow> 'q sys \<Rightarrow> ('q sys \<times> 'r) exec" where
  "with_recvs f s =
     exec_map (\<lambda>(w, g, r). (s\<lparr>sy_world := w, sy_chan := (sy_chan s)\<lparr>ch_recvs := g\<rparr>\<rparr>, r))
       (f (sy_world s) (ch_recvs (sy_chan s)))"

text \<open>The owner's handle of a waker goes out of scope.\<close>

definition drop_owner :: "nat option \<Rightarrow> 'q sys \<Rightarrow> 'q sys" where
  "drop_owner o_waker s = s\<lparr>sy_world := replace_owner (sy_world s) o_waker\<rparr>"

section \<open>Construction and observers\<close>

definition channel_new :: "('q, 'a) flavor \<Rightarrow> backoff_globals \<Rightarrow> 'q \<Rightarrow> registry \<Rightarrow> registry \<Rightarrow> 'q channel" where
  "channel_new F g inner senders recvs =
     \<lparr>ch_inner = inner, ch_tx_count = 1, ch_rx_count = 1, ch_senders = senders, ch_recvs = recvs,
      ch_large = (case fl_capacity F inner of None \<Rightarrow> False | Some bound \<Rightarrow> 10 \<le> bound),
      ch_cfg = config_detect g\<rparr>"

definition ch_len :: "('q, 'a) flavor \<Rightarrow> 'q sys \<Rightarrow> nat" where
  "ch_len F s = fl_len F (ch_inner (sy_chan s))"

definition ch_capacity :: "('q, 'a) flavor \<Rightarrow> 'q sys \<Rightarrow> nat option" where
  "ch_capacity F s = fl_capacity F (ch_inner (sy_chan s))"

definition ch_is_empty :: "('q, 'a) flavor \<Rightarrow> 'q sys \<Rightarrow> bool" where
  "ch_is_empty F s = fl_is_empty F (ch_inner (sy_chan s))"

definition ch_is_full :: "('q, 'a) flavor \<Rightarrow> 'q sys \<Rightarrow> bool" where
  "ch_is_full F s = fl_is_full F (ch_inner (sy_chan s))"

definition get_tx_count :: "'q sys \<Rightarrow> usize" where
  "get_tx_count s = ch_tx_count (sy_chan s)"

definition get_rx_count :: "'q sys \<Rightarrow> usize" where
  "get_rx_count s = ch_rx_count (sy_chan s)"

definition might_congest :: "('q, 'a) flavor \<Rightarrow> 'q sys \<Rightarrow> bool" where
  "might_congest F s \<longleftrightarrow> fl_bounded F \<and> reg_use_direct_copy (ch_senders (sy_chan s))"

definition get_wakers_count :: "'q sys \<Rightarrow> nat \<times> nat" where
  "get_wakers_count s = (reg_len (ch_senders (sy_chan s)), reg_len (ch_recvs (sy_chan s)))"

definition is_tx_closed :: "'q sys \<Rightarrow> bool" where
  "is_tx_closed s \<longleftrightarrow> ch_tx_count (sy_chan s) = 0"

definition is_rx_closed :: "'q sys \<Rightarrow> bool" where
  "is_rx_closed s \<longleftrightarrow> ch_rx_count (sy_chan s) = 0"

section \<open>Handles\<close>

definition add_tx :: "'q sys \<Rightarrow> 'q sys" where
  "add_tx s = s\<lparr>sy_chan := (sy_chan s)\<lparr>ch_tx_count := ch_tx_count (sy_chan s) + 1\<rparr>\<rparr>"

definition add_rx :: "'q sys \<Rightarrow> 'q sys" where
  "add_rx s = s\<lparr>sy_chan := (sy_chan s)\<lparr>ch_rx_count := ch_rx_count (sy_chan s) + 1\<rparr>\<rparr>"

text \<open>
  \<^verbatim>\<open>try_add_tx\<close>, for the upgrade of a weak sender: a compare-exchange loop over the last count seen.
  Others may change the count between the load and the exchange.
\<close>

fun try_add_tx_loop :: "nat \<Rightarrow> usize \<Rightarrow> 'q sys \<Rightarrow> ('q sys \<times> bool) exec" where
  "try_add_tx_loop 0 count s = Spin"
| "try_add_tx_loop (Suc fuel) count s =
     (if count = 0 then Done (s, False)
      else let s1 = sched s
        in case cas count (count + 1) (ch_tx_count (sy_chan s1)) of
             (n, Inr _) \<Rightarrow> Done (s1\<lparr>sy_chan := (sy_chan s1)\<lparr>ch_tx_count := n\<rparr>\<rparr>, True)
           | (_, Inl n) \<Rightarrow> try_add_tx_loop fuel n s1)"

definition try_add_tx :: "nat \<Rightarrow> 'q sys \<Rightarrow> ('q sys \<times> bool) exec" where
  "try_add_tx fuel s = try_add_tx_loop fuel (ch_tx_count (sy_chan s)) s"

definition close_tx :: "'q sys \<Rightarrow> 'q sys exec" where
  "close_tx s =
     (let old = ch_tx_count (sy_chan s); s1 = s\<lparr>sy_chan := (sy_chan s)\<lparr>ch_tx_count := old - 1\<rparr>\<rparr>
      in if old \<le> 1
         then exec_map fst (with_recvs (\<lambda>w g. exec_map (\<lambda>(w', g'). (w', g', ())) (reg_close w g)) (sched s1))
         else Done s1)"

definition close_rx :: "'q sys \<Rightarrow> 'q sys exec" where
  "close_rx s =
     (let old = ch_rx_count (sy_chan s); s1 = s\<lparr>sy_chan := (sy_chan s)\<lparr>ch_rx_count := old - 1\<rparr>\<rparr>
      in if old \<le> 1
         then exec_map fst (with_senders (\<lambda>w g. exec_map (\<lambda>(w', g'). (w', g', ())) (reg_close w g)) (sched s1))
         else Done s1)"

section \<open>Waking the other side\<close>

definition on_send :: "'q sys \<Rightarrow> 'q sys exec" where
  "on_send s = exec_map fst (with_recvs reg_fire s)"

definition on_recv :: "'q sys \<Rightarrow> 'q sys exec" where
  "on_recv s = exec_map fst (with_senders reg_fire s)"

text \<open>The debug assertions on the state an abandoned waker reports are panics.\<close>

definition abandon_send_waker :: "nat \<Rightarrow> 'q sys \<Rightarrow> 'q sys exec" where
  "abandon_send_waker a s =
     exec_bind (with_senders (\<lambda>w g. reg_abandon_waker w g a) s) (\<lambda>(s1, r).
       case r of
         Inr _ \<Rightarrow> Done s1
       | Inl state \<Rightarrow>
           if state = W_Woken then on_recv (sched s1)
           else if state = W_Closed then Done s1 else Fault Panic)"

definition abandon_recv_waker :: "nat \<Rightarrow> 'q sys \<Rightarrow> 'q sys exec" where
  "abandon_recv_waker a s =
     exec_bind (with_recvs (\<lambda>w g. reg_abandon_waker w g a) s) (\<lambda>(s1, r).
       case r of
         Inr _ \<Rightarrow> Done s1
       | Inl state \<Rightarrow>
           if state = W_Woken then on_send (sched s1)
           else if state = W_Closed \<or> state = W_Done then Done s1 else Fault Panic)"

definition get_async_backoff :: "('q, 'a) flavor \<Rightarrow> 'q sys \<Rightarrow> backoff option" where
  "get_async_backoff F s =
     (if ch_large (sy_chan s) then None
      else if fl_backoff_limit F AND spin_limit (ch_cfg (sy_chan s)) = 0 then None
      else Some (backoff_from (config_limit (ch_cfg (sy_chan s)) SPIN_LIMIT)))"

section \<open>Receiving without waiting\<close>

definition ch_try_recv :: "('q, 'a) flavor \<Rightarrow> 'q sys \<Rightarrow> ('q sys \<times> (try_recv_error + 'a)) exec" where
  "ch_try_recv F s =
     (if \<not> is_tx_closed s
      then exec_bind (with_inner (fl_try_recv F) (sched s)) (\<lambda>(s1, r).
        case r of
          Some item \<Rightarrow> exec_map (\<lambda>s2. (s2, Inr item)) (on_recv (sched s1))
        | None \<Rightarrow> Done (s1, Inl TREmpty))
      else exec_bind (with_inner (fl_try_recv_final F) (sched s)) (\<lambda>(s1, r).
        case r of
          Some item \<Rightarrow> exec_map (\<lambda>s2. (s2, Inr item)) (on_recv (sched s1))
        | None \<Rightarrow> Done (s1, Inl TRDisconnected)))"

definition read_with_token :: "('q, 'a) flavor \<Rightarrow> token \<Rightarrow> 'q sys \<Rightarrow> ('q sys \<times> (recv_error + 'a)) exec" where
  "read_with_token F tok s =
     (case tok_pos tok of
        None \<Rightarrow> Done (s, Inl RecvError)
      | Some _ \<Rightarrow> exec_bind (with_inner (\<lambda>q. fl_read_with_token F q tok) s) (\<lambda>(s1, item).
          exec_map (\<lambda>s2. (s2, Inr item)) (on_recv (sched s1))))"

definition ch_try_select :: "('q, 'a) flavor \<Rightarrow> bool \<Rightarrow> 'q sys \<Rightarrow> ('q sys \<times> token option) exec" where
  "ch_try_select F final_check s =
     (let closed = (final_check \<and> is_tx_closed s)
      in exec_map (\<lambda>(s1, t).
           case t of
             Some tok \<Rightarrow> (s1, Some tok)
           | None \<Rightarrow> (s1, if closed then Some token_default else None))
         (with_inner (fl_try_select F final_check) (sched s)))"

definition ch_reg_waker :: "usize \<Rightarrow> nat \<Rightarrow> 'q sys \<Rightarrow> ('q sys \<times> bool) exec" where
  "ch_reg_waker channel_id sel s =
     with_recvs (\<lambda>w g. exec_map (\<lambda>(g', b). (w, g', b)) (reg_reg_select_waker w g channel_id sel)) s"

definition ch_cancel_waker :: "nat \<Rightarrow> 'q sys \<Rightarrow> 'q sys" where
  "ch_cancel_waker sel s =
     s\<lparr>sy_chan := (sy_chan s)\<lparr>ch_recvs := reg_cancel_select_waker (ch_recvs (sy_chan s)) sel\<rparr>\<rparr>"

section \<open>Helpers of the waiting operations\<close>

definition check_timeout :: "nat option \<Rightarrow> 'q sys \<Rightarrow> unit + nat option" where
  "check_timeout deadline s =
     (case deadline of
        None \<Rightarrow> Inr None
      | Some e \<Rightarrow> if sy_now s < e then Inr (Some (e - sy_now s)) else Inl ())"

text \<open>
  The last chance before a sender sleeps. \<open>sink\<close> is the const parameter \<^verbatim>\<open>SINK\<close>. A send that succeeds
  cancels the waker and answers \<open>W_Done\<close>.
\<close>

definition sender_double_check :: "('q, 'a) flavor \<Rightarrow> bool \<Rightarrow> 'a \<Rightarrow> nat option \<Rightarrow> 'q sys \<Rightarrow>
    ('q sys \<times> nat option \<times> u8) exec" where
  "sender_double_check F sink item o_waker s =
     exec_bind (with_inner (\<lambda>q. fl_try_send_oneshot F q item) s) (\<lambda>(s1, res).
       case res of
         Some True \<Rightarrow>
           exec_bind (on_send (sched s1)) (\<lambda>s2.
             with_senders (\<lambda>w g. reg_cancel_reuse_waker w g o_waker W_Done) (sched s2))
       | Some False \<Rightarrow>
           exec_map (\<lambda>(s2, state). let s3 = sched s2 in (s3, o_waker, if is_rx_closed s3 then W_Closed else state))
             (if sink then Done (s1, W_Init)
              else with_senders (\<lambda>w g. exec_map (\<lambda>(w', st). (w', g, st)) (reg_commit_waiting w g o_waker)) (sched s1))
       | None \<Rightarrow> with_senders (\<lambda>w g. reg_cancel_reuse_waker w g o_waker W_Woken) (sched s1))"

fun sender_snooze_loop :: "nat \<Rightarrow> nat option \<Rightarrow> backoff \<Rightarrow> 'q sys \<Rightarrow> ('q sys \<times> backoff \<times> u8) exec" where
  "sender_snooze_loop 0 o_waker b s = Spin"
| "sender_snooze_loop (Suc fuel) o_waker b s =
     (let s1 = sched s
      in exec_bind (reg_get_waker_state (sy_world s1) (ch_senders (sy_chan s1)) o_waker) (\<lambda>state.
        if W_Woken \<le> state then Done (s1, b, state)
        else exec_bind (backoff_snooze b) (\<lambda>(b', _, completed).
          if completed then Done (s1, b', state) else sender_snooze_loop fuel o_waker b' s1)))"

definition sender_snooze :: "nat \<Rightarrow> nat option \<Rightarrow> backoff \<Rightarrow> 'q sys \<Rightarrow> ('q sys \<times> backoff \<times> u8) exec" where
  "sender_snooze fuel o_waker b s = sender_snooze_loop fuel o_waker (backoff_reset b) s"

end
