(* ===== verification/Blocking.thy ===== *)
theory Blocking
  imports Channel
begin

unbundle bit_operations_syntax

text \<open>
  Blocking senders and receivers, \<^verbatim>\<open>src/src/blocking_tx.rs\<close>, \<^verbatim>\<open>src/src/blocking_rx.rs\<close> and the weak sender of
  \<^verbatim>\<open>src/src/weak.rs\<close>. Every place where another thread can run, a park, a pause of the backoff or just
  the gap between two atomic steps, is a \<open>sched\<close>. A park may return without a wake-up, as the standard
  library allows. The loops take fuel; \<open>Spin\<close> means that the call has not returned yet.
\<close>

section \<open>Senders\<close>

text \<open>The spinning phase of \<^verbatim>\<open>_send_bounded\<close>: whether the item was sent.\<close>

fun tx_spin :: "('q, 'a) flavor \<Rightarrow> nat \<Rightarrow> 'a \<Rightarrow> backoff \<Rightarrow> 'q sys \<Rightarrow> ('q sys \<times> backoff \<times> bool) exec" where
  "tx_spin F 0 item b s = Spin"
| "tx_spin F (Suc fuel) item b s =
     exec_bind (with_inner (\<lambda>q. fl_try_send F q item) (sched s)) (\<lambda>(s1, sent).
       if sent then exec_map (\<lambda>s2. (s2, b, True)) (on_send (sched s1))
       else if backoff_is_completed b then Done (s1, b, False)
       else exec_bind (backoff_snooze b) (\<lambda>(b', _). tx_spin F fuel item b' s1))"

text \<open>The waiting phase: the state of the waker at the end, or nothing after a timeout.\<close>

fun tx_wait :: "('q, 'a) flavor \<Rightarrow> nat \<Rightarrow> nat option \<Rightarrow> nat option \<Rightarrow> backoff \<Rightarrow> u8 \<Rightarrow> 'q sys \<Rightarrow>
    ('q sys \<times> backoff \<times> u8 option) exec" where
  "tx_wait F 0 deadline o_waker b state s = Spin"
| "tx_wait F (Suc fuel) deadline o_waker b state s =
     (if W_Woken \<le> state then Done (s, b, Some state)
      else let s0 = sched s
        in exec_bind (if might_congest F s0 then sender_snooze fuel o_waker b s0 else Done (s0, b, state))
          (\<lambda>(s1, b1, state1).
            if state1 \<le> W_Waiting
            then case check_timeout deadline s1 of
                Inl _ \<Rightarrow> (case o_waker of
                    None \<Rightarrow> Fault Panic
                  | Some a \<Rightarrow> exec_map (\<lambda>s2. (s2, b1, None)) (abandon_send_waker a (sched s1)))
              | Inr _ \<Rightarrow>
                  let s2 = sched s1
                  in exec_bind (reg_get_waker_state (sy_world s2) (ch_senders (sy_chan s2)) o_waker) (\<lambda>state2.
                    tx_wait F fuel deadline o_waker b1 state2 s2)
            else tx_wait F fuel deadline o_waker b1 state1 s1))"

text \<open>\<^verbatim>\<open>return_ok!\<close>: a sender that was parked yields when the channel is full again.\<close>

definition return_ok :: "('q, 'a) flavor \<Rightarrow> bool \<Rightarrow> nat option \<Rightarrow> 'q sys \<Rightarrow> 'q sys" where
  "return_ok F parked o_waker s = drop_owner o_waker (if parked \<and> ch_is_full F s then sched s else s)"

fun tx_main :: "('q, 'a) flavor \<Rightarrow> nat \<Rightarrow> nat \<Rightarrow> 'a \<Rightarrow> nat option \<Rightarrow> bool \<Rightarrow> nat option \<Rightarrow> backoff \<Rightarrow> 'q sys \<Rightarrow>
    ('q sys \<times> ('a send_timeout_error + unit)) exec" where
  "tx_main F 0 thread item deadline parked o_waker b s = Spin"
| "tx_main F (Suc fuel) thread item deadline parked o_waker b s =
     exec_bind (tx_spin F fuel item b s) (\<lambda>(s1, b1, sent).
       if sent then Done (return_ok F parked o_waker s1, Inr ())
       else exec_bind (with_senders (\<lambda>w g. reg_reg_waker_blocking w g thread o_waker) (sched s1)) (\<lambda>(s2, k).
         exec_bind (sender_double_check F False item k (sched s2)) (\<lambda>(s3, k1, state).
           if state = W_Done then Done (return_ok F parked k1 s3, Inr ())
           else exec_bind (tx_wait F fuel deadline k1 b1 state s3) (\<lambda>(s4, b2, waited).
             case waited of
               None \<Rightarrow> Done (drop_owner k1 s4, Inl (STTimeout item))
             | Some st \<Rightarrow>
                 if st = W_Woken then tx_main F fuel thread item deadline True k1 (backoff_reset b2) s4
                 else if st = W_Closed then Done (drop_owner k1 s4, Inl (STDisconnected item))
                 else Fault Panic))))"

definition send_bounded :: "('q, 'a) flavor \<Rightarrow> nat \<Rightarrow> nat \<Rightarrow> 'a \<Rightarrow> nat option \<Rightarrow> 'q sys \<Rightarrow>
    ('q sys \<times> ('a send_timeout_error + unit)) exec" where
  "send_bounded F fuel thread item deadline s =
     exec_bind (fl_adjust_tx_backoff F (ch_inner (sy_chan s)) (backoff_from (ch_cfg (sy_chan s)))) (\<lambda>b.
       tx_main F fuel thread item deadline False None b s)"

definition tx_send :: "('q, 'a) flavor \<Rightarrow> nat \<Rightarrow> nat \<Rightarrow> 'a \<Rightarrow> 'q sys \<Rightarrow> ('q sys \<times> ('a send_error + unit)) exec" where
  "tx_send F fuel thread item s =
     (if is_rx_closed s then Done (s, Inl (SendError item))
      else exec_bind (with_inner (\<lambda>q. fl_try_send F q item) (sched s)) (\<lambda>(s1, sent).
        if sent then exec_map (\<lambda>s2. (s2, Inr ())) (on_send (sched s1))
        else if fl_bounded F
        then exec_bind (send_bounded F fuel thread item None s1) (\<lambda>(s2, r).
          case r of
            Inr _ \<Rightarrow> Done (s2, Inr ())
          | Inl (STDisconnected e) \<Rightarrow> Done (s2, Inl (SendError e))
          | Inl (STTimeout _) \<Rightarrow> Fault Panic)
        else Fault Panic))"

definition tx_try_send :: "('q, 'a) flavor \<Rightarrow> 'a \<Rightarrow> 'q sys \<Rightarrow> ('q sys \<times> ('a try_send_error + unit)) exec" where
  "tx_try_send F item s =
     (if is_rx_closed s then Done (s, Inl (TSDisconnected item))
      else exec_bind (with_inner (\<lambda>q. fl_try_send F q item) (sched s)) (\<lambda>(s1, sent).
        if sent then exec_map (\<lambda>s2. (s2, Inr ())) (on_send (sched s1))
        else Done (s1, Inl (TSFull item))))"

text \<open>
  \<^verbatim>\<open>Instant::now().checked_add(timeout)\<close>: the clock's end is a parameter of the platform, \<open>instant_max\<close>.
\<close>

definition deadline_of :: "nat \<Rightarrow> nat \<Rightarrow> 'q sys \<Rightarrow> nat option" where
  "deadline_of instant_max timeout s =
     (if sy_now s + timeout \<le> instant_max then Some (sy_now s + timeout) else None)"

definition tx_send_timeout :: "('q, 'a) flavor \<Rightarrow> nat \<Rightarrow> nat \<Rightarrow> nat \<Rightarrow> 'a \<Rightarrow> nat \<Rightarrow> 'q sys \<Rightarrow>
    ('q sys \<times> ('a send_timeout_error + unit)) exec" where
  "tx_send_timeout F instant_max fuel thread item timeout s =
     (if is_rx_closed s then Done (s, Inl (STDisconnected item))
      else exec_bind (with_inner (\<lambda>q. fl_try_send F q item) (sched s)) (\<lambda>(s1, sent).
        if sent then exec_map (\<lambda>s2. (s2, Inr ())) (on_send (sched s1))
        else case deadline_of instant_max timeout s1 of
            Some e \<Rightarrow> send_bounded F fuel thread item (Some e) s1
          | None \<Rightarrow> Done (s1, Inl (STTimeout item))))"

section \<open>Receivers\<close>

text \<open>The first spinning loop of \<^verbatim>\<open>_recv_blocking\<close>: pause, then try.\<close>

fun rx_spin :: "('q, 'a) flavor \<Rightarrow> nat \<Rightarrow> backoff \<Rightarrow> 'q sys \<Rightarrow> ('q sys \<times> backoff \<times> 'a option) exec" where
  "rx_spin F 0 b s = Spin"
| "rx_spin F (Suc fuel) b s =
     exec_bind (backoff_snooze b) (\<lambda>(b', _, completed).
       exec_bind (with_inner (fl_try_recv F) (sched s)) (\<lambda>(s1, r).
         case r of
           Some item \<Rightarrow> exec_map (\<lambda>s2. (s2, b', Some item)) (on_recv (sched s1))
         | None \<Rightarrow> if completed then Done (s1, b', None) else rx_spin F fuel b' s1))"

text \<open>The loop after a wake-up: try, then pause.\<close>

fun rx_retry :: "('q, 'a) flavor \<Rightarrow> nat \<Rightarrow> backoff \<Rightarrow> 'q sys \<Rightarrow> ('q sys \<times> backoff \<times> 'a option) exec" where
  "rx_retry F 0 b s = Spin"
| "rx_retry F (Suc fuel) b s =
     exec_bind (with_inner (fl_try_recv F) (sched s)) (\<lambda>(s1, r).
       case r of
         Some item \<Rightarrow> exec_map (\<lambda>s2. (s2, b, Some item)) (on_recv (sched s1))
       | None \<Rightarrow> exec_bind (backoff_snooze b) (\<lambda>(b', _, completed).
           if completed then Done (s1, b', None) else rx_retry F fuel b' s1))"

fun rx_wait :: "nat \<Rightarrow> nat option \<Rightarrow> nat option \<Rightarrow> u8 \<Rightarrow> 'q sys \<Rightarrow> ('q sys \<times> u8 option) exec" where
  "rx_wait 0 deadline o_waker state s = Spin"
| "rx_wait (Suc fuel) deadline o_waker state s =
     (if W_Woken \<le> state then Done (s, Some state)
      else case check_timeout deadline s of
          Inl _ \<Rightarrow> (case o_waker of
              None \<Rightarrow> Fault Panic
            | Some a \<Rightarrow> exec_map (\<lambda>s1. (s1, None)) (abandon_recv_waker a (sched s)))
        | Inr _ \<Rightarrow>
            let s1 = sched s
            in exec_bind (reg_get_waker_state (sy_world s1) (ch_recvs (sy_chan s1)) o_waker) (\<lambda>state1.
              rx_wait fuel deadline o_waker state1 s1))"

text \<open>The last try of \<^verbatim>\<open>_recv_blocking\<close>, after every sender is gone.\<close>

definition rx_last :: "('q, 'a) flavor \<Rightarrow> nat option \<Rightarrow> 'q sys \<Rightarrow> ('q sys \<times> (recv_timeout_error + 'a)) exec" where
  "rx_last F o_waker s =
     exec_bind (with_inner (fl_try_recv F) (sched s)) (\<lambda>(s1, r).
       case r of
         Some item \<Rightarrow> exec_map (\<lambda>s2. (drop_owner o_waker s2, Inr item)) (on_recv (sched s1))
       | None \<Rightarrow> Done (drop_owner o_waker s1, Inl RTDisconnected))"

fun rx_main :: "('q, 'a) flavor \<Rightarrow> nat \<Rightarrow> nat \<Rightarrow> nat option \<Rightarrow> nat option \<Rightarrow> backoff \<Rightarrow> 'q sys \<Rightarrow>
    ('q sys \<times> (recv_timeout_error + 'a)) exec" where
  "rx_main F 0 thread deadline o_waker b s = Spin"
| "rx_main F (Suc fuel) thread deadline o_waker b s =
     exec_bind (with_recvs (\<lambda>w g. reg_reg_waker_blocking w g thread o_waker) (sched s)) (\<lambda>(s1, k).
       exec_bind (with_inner (fl_try_recv_final F) (sched s1)) (\<lambda>(s2, r).
         case r of
           Some item \<Rightarrow>
             exec_bind (on_recv (sched s2)) (\<lambda>s3.
               exec_map (\<lambda>(s4, k'). (drop_owner k' s4, Inr item))
                 (with_recvs (\<lambda>w g. reg_cancel_waker w g k) (sched s3)))
         | None \<Rightarrow>
             exec_bind (with_recvs (\<lambda>w g. exec_map (\<lambda>(w', st). (w', g, st)) (reg_commit_waiting w g k)) (sched s2))
               (\<lambda>(s3, state).
                 let s4 = sched s3
                 in if is_tx_closed s4 then rx_last F k s4
                    else exec_bind (rx_wait fuel deadline k state s4) (\<lambda>(s5, waited).
                      case waited of
                        None \<Rightarrow> Done (drop_owner k s5, Inl RTTimeout)
                      | Some st \<Rightarrow>
                          if st = W_Closed then rx_last F k s5
                          else exec_bind (rx_retry F fuel (backoff_reset b) s5) (\<lambda>(s6, b', got).
                            case got of
                              Some item \<Rightarrow> Done (drop_owner k s6, Inr item)
                            | None \<Rightarrow> rx_main F fuel thread deadline k b' s6)))))"

definition recv_blocking :: "('q, 'a) flavor \<Rightarrow> nat \<Rightarrow> nat \<Rightarrow> nat option \<Rightarrow> 'q sys \<Rightarrow>
    ('q sys \<times> (recv_timeout_error + 'a)) exec" where
  "recv_blocking F fuel thread deadline s =
     exec_bind (with_inner (fl_try_recv F) s) (\<lambda>(s1, r).
       case r of
         Some item \<Rightarrow> exec_map (\<lambda>s2. (s2, Inr item)) (on_recv (sched s1))
       | None \<Rightarrow>
           let cfg = config_limit (ch_cfg (sy_chan s1)) (fl_backoff_limit F);
               cfg' = (if ch_large (sy_chan s1) then config_spin cfg 2 else cfg)
           in exec_bind (rx_spin F fuel (backoff_from cfg') s1) (\<lambda>(s2, b, got).
             case got of
               Some item \<Rightarrow> Done (s2, Inr item)
             | None \<Rightarrow> rx_main F fuel thread deadline None b s2))"

definition rx_recv :: "('q, 'a) flavor \<Rightarrow> nat \<Rightarrow> nat \<Rightarrow> 'q sys \<Rightarrow> ('q sys \<times> (recv_error + 'a)) exec" where
  "rx_recv F fuel thread s =
     exec_bind (recv_blocking F fuel thread None s) (\<lambda>(s1, r).
       case r of
         Inr item \<Rightarrow> Done (s1, Inr item)
       | Inl RTDisconnected \<Rightarrow> Done (s1, Inl RecvError)
       | Inl RTTimeout \<Rightarrow> Fault Panic)"

definition rx_try_recv :: "('q, 'a) flavor \<Rightarrow> 'q sys \<Rightarrow> ('q sys \<times> (try_recv_error + 'a)) exec" where
  "rx_try_recv F s = ch_try_recv F s"

definition rx_recv_timeout :: "('q, 'a) flavor \<Rightarrow> nat \<Rightarrow> nat \<Rightarrow> nat \<Rightarrow> nat \<Rightarrow> 'q sys \<Rightarrow>
    ('q sys \<times> (recv_timeout_error + 'a)) exec" where
  "rx_recv_timeout F instant_max fuel thread timeout s =
     (case deadline_of instant_max timeout s of
        Some e \<Rightarrow> recv_blocking F fuel thread (Some e) s
      | None \<Rightarrow> exec_map (\<lambda>(s1, r).
          (s1, case r of
             Inr item \<Rightarrow> Inr item
           | Inl TRDisconnected \<Rightarrow> Inl RTDisconnected
           | Inl TREmpty \<Rightarrow> Inl RTTimeout)) (rx_try_recv F s))"

text \<open>
  \<^verbatim>\<open>read_select\<close> takes a result of a select and insists that it is one for this receiver; a receiver is
  named by its address.
\<close>

record select_result =
  sr_channel :: nat
  sr_token :: token

definition rx_read_select :: "('q, 'a) flavor \<Rightarrow> nat \<Rightarrow> select_result \<Rightarrow> 'q sys \<Rightarrow> ('q sys \<times> (recv_error + 'a)) exec" where
  "rx_read_select F self result s =
     (if self = sr_channel result then read_with_token F (sr_token result) s else Fault Panic)"

section \<open>Handles\<close>

definition tx_drop :: "'q sys \<Rightarrow> 'q sys exec" where
  "tx_drop s = close_tx s"

definition rx_drop :: "'q sys \<Rightarrow> 'q sys exec" where
  "rx_drop s = close_rx s"

definition mtx_clone :: "'q sys \<Rightarrow> 'q sys" where
  "mtx_clone s = add_tx s"

definition mrx_clone :: "'q sys \<Rightarrow> 'q sys" where
  "mrx_clone s = add_rx s"

definition tx_is_disconnected :: "'q sys \<Rightarrow> bool" where
  "tx_is_disconnected s = is_rx_closed s"

definition rx_is_disconnected :: "'q sys \<Rightarrow> bool" where
  "rx_is_disconnected s = is_tx_closed s"

text \<open>Converting an async sender or receiver: the new handle is counted before the old one is dropped.\<close>

definition tx_from_async :: "'q sys \<Rightarrow> 'q sys exec" where
  "tx_from_async s = close_tx (sched (add_tx s))"

definition rx_from_async :: "'q sys \<Rightarrow> 'q sys exec" where
  "rx_from_async s = close_rx (sched (add_rx s))"

text \<open>A weak sender: upgrading it succeeds exactly while a sender is alive.\<close>

definition weak_upgrade :: "nat \<Rightarrow> 'q sys \<Rightarrow> ('q sys \<times> bool) exec" where
  "weak_upgrade fuel s = try_add_tx fuel s"

definition send_unchecked :: "('q, 'a) flavor \<Rightarrow> 'a \<Rightarrow> 'q sys \<Rightarrow> 'q sys exec" where
  "send_unchecked F item s =
     exec_bind (with_inner (\<lambda>q. fl_try_send F q item) s) (\<lambda>(s1, _). on_send (sched s1))"

end
