(* ===== verification/Registry_Safety.thy ===== *)
theory Registry_Safety
  imports Registry
begin

text \<open>
  No registry operation fails: on a well-formed world no call panics and no waker is used after it was
  freed. The lemmas also say what a call leaves alone: the addresses in use and the tasks behind them.
\<close>

section \<open>Well-formed worlds\<close>

text \<open>
  Every waker of a running program is initial, waiting, woken or closed (nothing stores \<open>W_Done\<close>), and
  unused addresses are above all used ones.
\<close>

definition w_live :: "waker_inner \<Rightarrow> bool" where
  "w_live x \<longleftrightarrow> w_state x \<in> {W_Init, W_Waiting, W_Woken, W_Closed}"

definition world_ok :: "world \<Rightarrow> bool" where
  "world_ok w \<longleftrightarrow> (\<forall>a x. wd_heap w a = Some x \<longrightarrow> w_live x \<and> a < wd_next w)"

definition keeps_wakers :: "world \<Rightarrow> world \<Rightarrow> bool" where
  "keeps_wakers w w' \<longleftrightarrow> world_ok w' \<and> wd_next w' = wd_next w \<and>
     (\<forall>a. map_option w_waker (wd_heap w' a) = map_option w_waker (wd_heap w a)) \<and>
     (\<forall>s. wd_sels w' s = None \<longleftrightarrow> wd_sels w s = None)"

definition reg_ok :: "world \<Rightarrow> registry \<Rightarrow> bool" where
  "reg_ok w g =
     (case g of
        RegMulti m \<Rightarrow> \<forall>e \<in> set (m_selectors m). wd_sels w (fst e) \<noteq> None
      | RegSelect s _ \<Rightarrow> wd_sels w s \<noteq> None
      | _ \<Rightarrow> True)"

datatype reg_kind = KDummy | KSingle | KMulti | KSelect

fun kind_of :: "registry \<Rightarrow> reg_kind" where
  "kind_of RegDummy = KDummy"
| "kind_of (RegSingle c) = KSingle"
| "kind_of (RegMulti m) = KMulti"
| "kind_of (RegSelect s i) = KSelect"

text \<open>
  The handles of the running party: \<open>T\<close> holds the thread, or the tasks, its wakers notify.
\<close>

definition owns :: "world \<Rightarrow> thin_waker set \<Rightarrow> nat option \<Rightarrow> bool" where
  "owns w T k \<longleftrightarrow> (\<forall>a. k = Some a \<longrightarrow> (\<exists>t \<in> T. map_option w_waker (wd_heap w a) = Some t))"

lemma world_ok_heap_ok: "world_ok w \<Longrightarrow> heap_ok w"
  by (auto simp: world_ok_def heap_ok_def w_ok_def w_live_def)

lemma world_ok_init: "world_ok world_init"
  by (simp add: world_ok_def world_init_def)

lemma keeps_refl: "world_ok w \<Longrightarrow> keeps_wakers w w"
  by (simp add: keeps_wakers_def)

lemma keeps_trans [trans]: "keeps_wakers w w' \<Longrightarrow> keeps_wakers w' w'' \<Longrightarrow> keeps_wakers w w''"
  by (simp add: keeps_wakers_def)

lemma keeps_ok: "keeps_wakers w w' \<Longrightarrow> world_ok w'"
  by (simp add: keeps_wakers_def)

lemma keeps_reg_ok: "keeps_wakers w w' \<Longrightarrow> reg_ok w g \<Longrightarrow> reg_ok w' g"
  by (simp add: keeps_wakers_def reg_ok_def split: registry.splits)

lemma keeps_owns: "keeps_wakers w w' \<Longrightarrow> owns w T k \<Longrightarrow> owns w' T k"
  by (simp add: keeps_wakers_def owns_def)

lemma keeps_alive: "keeps_wakers w w' \<Longrightarrow> upgrade w a = Some x \<Longrightarrow> \<exists>x'. upgrade w' a = Some x'"
  by (metis keeps_wakers_def upgrade_def option.map_disc_iff not_None_eq)

lemma owns_alive: "owns w T (Some a) \<Longrightarrow> \<exists>x. upgrade w a = Some x \<and> w_waker x \<in> T"
  by (auto simp: owns_def upgrade_def)

lemma owns_None [simp]: "owns w T None"
  by (simp add: owns_def)

lemma world_ok_state:
  "world_ok w \<Longrightarrow> upgrade w a = Some x \<Longrightarrow> w_state x \<in> {W_Init, W_Waiting, W_Woken, W_Closed}"
  by (auto simp: world_ok_def upgrade_def w_live_def)

lemma keeps_set_waker:
  assumes "world_ok w" "upgrade w a = Some x" "w_state x' \<in> {W_Init, W_Waiting, W_Woken, W_Closed}"
    and "w_waker x' = w_waker x"
  shows "keeps_wakers w (set_waker w a x')"
  using assms by (auto simp: keeps_wakers_def world_ok_def set_waker_def upgrade_def w_live_def)

lemma wake_by_ref_sel [simp]:
  "wd_heap (wake_by_ref w x) = wd_heap w" "wd_next (wake_by_ref w x) = wd_next w"
  "wd_sels (wake_by_ref w x) = wd_sels w"
  by (simp_all add: wake_by_ref_def)

lemma keeps_wake_by_ref: "keeps_wakers w w' \<Longrightarrow> keeps_wakers w (wake_by_ref w' x)"
proof -
  have "world_ok (wake_by_ref w' x) = world_ok w'" by (simp add: world_ok_def)
  then show "keeps_wakers w w' \<Longrightarrow> ?thesis" by (simp add: keeps_wakers_def)
qed

lemma keeps_sel_set: "world_ok w \<Longrightarrow> wd_sels w s \<noteq> None \<Longrightarrow> keeps_wakers w (sel_set w s x)"
  by (auto simp: keeps_wakers_def world_ok_def sel_set_def)

section \<open>Firing and closing\<close>

lemma wake_at_safe:
  assumes "world_ok w" "upgrade w a = Some x"
  shows "\<exists>w' r. wake_at w a = Done (w', r) \<and> keeps_wakers w w'"
  using wake_at_spec [OF world_ok_heap_ok [OF assms(1)] assms(2)] world_ok_state [OF assms]
  by (auto intro!: keeps_wake_by_ref keeps_set_waker [OF assms])

lemma close_wake_at_safe:
  assumes "world_ok w" "upgrade w a = Some x"
  shows "\<exists>w'. close_wake_at w a = Done w' \<and> keeps_wakers w w'"
  using assms world_ok_state [OF assms]
  by (auto simp: close_wake_at_def w_close_wake_spec close_spec_def Let_def
      intro!: keeps_wake_by_ref keeps_set_waker [OF assms])

lemma sel_wake_safe:
  assumes "world_ok w" "wd_sels w (fst e) \<noteq> None"
  shows "\<exists>w'. sel_wake w e = Done w' \<and> keeps_wakers w w'"
proof -
  obtain s idx where e: "e = (s, idx)" by (cases e)
  with assms(2) obtain y where y: "wd_sels w s = Some y" by auto
  obtain c r where p: "weak_cell_pop w (sw_cell y) = (c, r)" by fastforce
  show ?thesis
  proof (cases r)
    case None
    with e y p assms keeps_sel_set show ?thesis by (simp add: sel_wake_def sel_get_def)
  next
    case (Some a)
    let ?w = "sel_set w s (y\<lparr>sw_cell := c, sw_hint := idx\<rparr>)"
    have k: "keeps_wakers w ?w" using assms(1) y by (simp add: keeps_sel_set)
    from p Some obtain x where "upgrade ?w a = Some x"
      by (auto simp: weak_cell_pop_def upgrade_def sel_set_def split: option.splits)
    from wake_at_safe [OF keeps_ok [OF k] this] e y p Some keeps_trans [OF k] show ?thesis
      by (auto simp: sel_wake_def sel_get_def)
  qed
qed

lemma sel_wake_all_safe:
  assumes "world_ok w" "\<forall>e \<in> set es. wd_sels w (fst e) \<noteq> None"
  shows "\<exists>w'. sel_wake_all w es = Done w' \<and> keeps_wakers w w'"
  using assms
proof (induction es arbitrary: w)
  case Nil
  then show ?case by (simp add: keeps_refl)
next
  case (Cons e es)
  from sel_wake_safe [of w e] Cons.prems obtain v where v: "sel_wake w e = Done v" "keeps_wakers w v" by auto
  with Cons.prems(2) have "\<forall>e \<in> set es. wd_sels v (fst e) \<noteq> None" by (simp add: keeps_wakers_def)
  from Cons.IH [OF keeps_ok [OF v(2)] this] v show ?case by (auto intro: keeps_trans)
qed

lemma close_all_safe: "world_ok w \<Longrightarrow> \<exists>w'. close_all w q = Done w' \<and> keeps_wakers w w'"
proof (induction q arbitrary: w)
  case Nil
  then show ?case by (simp add: keeps_refl)
next
  case (Cons a q)
  show ?case
  proof (cases "upgrade w a")
    case None
    with Cons show ?thesis by simp
  next
    case (Some x)
    from close_wake_at_safe [OF Cons.prems Some] obtain v where "close_wake_at w a = Done v" "keeps_wakers w v"
      by auto
    with Cons.IH [of v] Some show ?thesis by (auto dest: keeps_ok intro: keeps_trans)
  qed
qed

lemma pop_again_same_selectors: "m_selectors (fst (multi_pop_again w m)) = m_selectors m"
  by (auto simp: multi_pop_again_def split: option.splits)

lemma multi_fire_loop_safe:
  assumes "world_ok w" "length (m_queue m) < fuel"
  shows "\<exists>w' m' r. multi_fire_loop fuel w m n = Done (w', m', r) \<and> keeps_wakers w w' \<and>
    m_selectors m' = m_selectors m"
  using assms
proof (induction fuel arbitrary: w m)
  case 0
  then show ?case by simp
next
  case (Suc fuel)
  obtain m1 p where pop: "multi_pop_again w m = (m1, p)" by fastforce
  then have sel: "m_selectors m1 = m_selectors m" using pop_again_same_selectors [of w m] by simp
  show ?case
  proof (cases p)
    case None
    with pop sel Suc.prems show ?thesis by (simp add: keeps_refl)
  next
    case (Some a)
    with pop multi_pop_again_some [of w m m1 a] obtain x where
      x: "upgrade w a = Some x" "length (m_queue m1) < length (m_queue m)" by auto
    from wake_at_safe [OF Suc.prems(1) x(1)] obtain w1 r where
      w1: "wake_at w a = Done (w1, r)" "keeps_wakers w w1" by auto
    from keeps_alive [OF w1(2) x(1)] obtain x' where x': "upgrade w1 a = Some x'" by auto
    from Suc.IH [OF keeps_ok [OF w1(2)], of m1] x(2) Suc.prems(2) obtain w2 m2 r2 where
      "multi_fire_loop fuel w1 m1 n = Done (w2, m2, r2)" "keeps_wakers w1 w2" "m_selectors m2 = m_selectors m1"
      by auto
    with pop Some w1 x' sel show ?thesis by (auto intro: keeps_trans)
  qed
qed

lemma multi_pop_first_safe:
  assumes "world_ok w" "\<forall>e \<in> set (m_selectors m). wd_sels w (fst e) \<noteq> None"
  shows "\<exists>w' m' p. multi_pop_first w m = Done (w', m', p) \<and> keeps_wakers w w' \<and> m_selectors m' = m_selectors m \<and>
    (\<forall>a n. p = Some (a, n) \<longrightarrow> (\<exists>x. upgrade w' a = Some x))"
proof -
  obtain v where v: "(if m_state m AND MULTI_HAS_SELECT > 0 then sel_wake_all w (m_selectors m) else Done w) = Done v"
    "keeps_wakers w v"
    using sel_wake_all_safe [OF assms] keeps_refl [OF assms(1)] by (cases "m_state m AND MULTI_HAS_SELECT > 0") auto
  show ?thesis
  proof (cases "m_state m = MULTI_EMPTY \<or> m_state m AND MULTI_HAS_WAKER = 0")
    case True
    with v assms(1) show ?thesis by (auto simp: multi_pop_first_def Let_def keeps_refl)
  next
    case False
    then have "MULTI_HAS_WAKER AND m_state m > 0" by (simp add: word_gt_0 and.commute)
    with False v show ?thesis
      by (cases "pop_alive v (m_queue m)") (auto simp: multi_pop_first_def Let_def and.commute dest: pop_alive_upgrade)
  qed
qed

lemma multi_fire_safe:
  assumes "world_ok w" "\<forall>e \<in> set (m_selectors m). wd_sels w (fst e) \<noteq> None"
  shows "\<exists>w' m' r. multi_fire w m = Done (w', m', r) \<and> keeps_wakers w w' \<and> m_selectors m' = m_selectors m"
proof -
  from multi_pop_first_safe [OF assms] obtain w1 m1 p where
    p: "multi_pop_first w m = Done (w1, m1, p)" "keeps_wakers w w1" "m_selectors m1 = m_selectors m"
      "\<And>a n. p = Some (a, n) \<Longrightarrow> \<exists>x. upgrade w1 a = Some x" by blast
  show ?thesis
  proof (cases p)
    case None
    with p show ?thesis by (simp add: multi_fire_def)
  next
    case (Some an)
    then obtain a n where an: "p = Some (a, n)" by (cases an) auto
    with p(4) obtain x where "upgrade w1 a = Some x" by auto
    from wake_at_safe [OF keeps_ok [OF p(2)] this] obtain w2 r where
      w2: "wake_at w1 a = Done (w2, r)" "keeps_wakers w1 w2" by auto
    have k: "keeps_wakers w w2" using p(2) w2(2) by (rule keeps_trans)
    have "\<exists>w' m' r. multi_fire_loop (Suc (length (m_queue m1))) w2 m1 l = Done (w', m', r) \<and> keeps_wakers w w' \<and>
        m_selectors m' = m_selectors m" for l
      using multi_fire_loop_safe [OF keeps_ok [OF w2(2)], of m1 "Suc (length (m_queue m1))" l] p(3)
        keeps_trans [OF k] by auto
    with p an w2 k show ?thesis
      by (cases n) (auto simp: multi_fire_def simp del: multi_fire_loop.simps)
  qed
qed

lemma reg_fire_safe:
  assumes "world_ok w" "reg_ok w g"
  shows "\<exists>w' g' r. reg_fire w g = Done (w', g', r) \<and> keeps_wakers w w' \<and> reg_ok w' g' \<and> kind_of g' = kind_of g"
proof (cases g)
  case RegDummy
  with assms show ?thesis by (simp add: keeps_refl reg_ok_def)
next
  case (RegSingle c)
  then show ?thesis
    using assms wake_at_safe [OF assms(1)]
    by (cases c) (auto simp: single_fire_def weak_cell_pop_def keeps_refl reg_ok_def split: option.splits, fastforce)
next
  case (RegMulti m)
  then have "\<forall>e \<in> set (m_selectors m). wd_sels w (fst e) \<noteq> None" using assms(2) by (simp add: reg_ok_def)
  from multi_fire_safe [OF assms(1) this] obtain w' m' r where
    f: "multi_fire w m = Done (w', m', r)" "keeps_wakers w w'" "m_selectors m' = m_selectors m" by auto
  have "reg_ok w' (RegMulti m')"
    using keeps_reg_ok [OF f(2) assms(2)] f(3) RegMulti by (simp add: reg_ok_def)
  with f RegMulti show ?thesis by simp
next
  case (RegSelect s i)
  with assms have "wd_sels w (fst (s, i)) \<noteq> None" by (simp add: reg_ok_def)
  from sel_wake_safe [OF assms(1) this] obtain w' where
    w': "sel_wake w (s, i) = Done w'" "keeps_wakers w w'" by auto
  with RegSelect keeps_reg_ok [OF w'(2) assms(2)] show ?thesis by simp
qed

lemma reg_close_safe:
  assumes "world_ok w" "reg_ok w g"
  shows "\<exists>w' g'. reg_close w g = Done (w', g') \<and> keeps_wakers w w' \<and> reg_ok w' g' \<and> kind_of g' = kind_of g"
proof (cases g)
  case RegDummy
  with assms show ?thesis by (simp add: keeps_refl reg_ok_def)
next
  case (RegSingle c)
  with reg_fire_safe [OF assms] show ?thesis by (auto simp: exec_map_def)
next
  case (RegMulti m)
  then have "\<forall>e \<in> set (m_selectors m). wd_sels w (fst e) \<noteq> None" using assms(2) by (simp add: reg_ok_def)
  from sel_wake_all_safe [OF assms(1) this] obtain w1 where
    1: "sel_wake_all w (m_selectors m) = Done w1" "keeps_wakers w w1" by auto
  from close_all_safe [OF keeps_ok [OF 1(2)]] obtain w2 where
    2: "close_all w1 (m_queue m) = Done w2" "keeps_wakers w1 w2" by auto
  have k: "keeps_wakers w w2" using 1(2) 2(2) by (rule keeps_trans)
  with 1 2 RegMulti keeps_reg_ok [OF k assms(2)] show ?thesis by (simp add: multi_close_def reg_ok_def)
next
  case (RegSelect s i)
  with assms(2) obtain y where y: "wd_sels w s = Some y" by (auto simp: reg_ok_def)
  let ?w = "sel_set w s (y\<lparr>sw_opened := sw_opened y - 1\<rparr>)"
  have k: "keeps_wakers w ?w" using assms(1) y by (simp add: keeps_sel_set)
  have "wd_sels ?w (fst (s, i)) \<noteq> None" by (simp add: sel_set_def)
  from sel_wake_safe [OF keeps_ok [OF k] this] obtain w' where
    w': "sel_wake ?w (s, i) = Done w'" "keeps_wakers ?w w'" by auto
  have k': "keeps_wakers w w'" using k w'(2) by (rule keeps_trans)
  with y w'(1) RegSelect keeps_reg_ok [OF k' assms(2)] show ?thesis by (simp add: sel_close_def sel_get_def)
qed

section \<open>The owner's operations\<close>

text \<open>
  What a thread does with its own waker. Registering may allocate a waker and drop the one it replaces,
  cancelling may drop it; the wakers of other threads stay.
\<close>

definition keeps_others :: "thin_waker set \<Rightarrow> world \<Rightarrow> world \<Rightarrow> bool" where
  "keeps_others T w w' \<longleftrightarrow> world_ok w' \<and> (\<forall>s. wd_sels w' s = None \<longleftrightarrow> wd_sels w s = None) \<and>
     (\<forall>a t. map_option w_waker (wd_heap w a) = Some t \<and> t \<notin> T \<longrightarrow>
        map_option w_waker (wd_heap w' a) = Some t)"

lemma keeps_keeps_others: "keeps_wakers w w' \<Longrightarrow> keeps_others T w w'"
  by (simp add: keeps_wakers_def keeps_others_def)

lemma keeps_others_trans [trans]: "keeps_others t w w' \<Longrightarrow> keeps_others t w' w'' \<Longrightarrow> keeps_others t w w''"
  by (simp add: keeps_others_def)

lemma keeps_others_ok: "keeps_others t w w' \<Longrightarrow> world_ok w'"
  by (simp add: keeps_others_def)

lemma keeps_others_reg_ok: "keeps_others t w w' \<Longrightarrow> reg_ok w g \<Longrightarrow> reg_ok w' g"
  by (simp add: keeps_others_def reg_ok_def split: registry.splits)

lemma drop_own:
  assumes "world_ok w" "owns w T k"
  shows "keeps_others T w (replace_owner w k)"
  using assms
  by (cases k) (auto simp: replace_owner_def keeps_others_def keeps_refl drop_waker_def world_ok_def owns_def)

lemma alloc_own:
  assumes "world_ok w" "alloc_waker w tw = (w', a)" "tw \<in> T"
  shows "keeps_others T w w' \<and> owns w' T (Some a) \<and> a = wd_next w \<and>
    (\<forall>b. b \<noteq> a \<longrightarrow> wd_heap w' b = wd_heap w b) \<and> wd_heap w a = None \<and>
    upgrade w' a = Some \<lparr>w_state = W_Init, w_seq = 0, w_waker = tw\<rparr>"
proof -
  have "wd_heap w (wd_next w) = None" using assms(1) by (cases "wd_heap w (wd_next w)") (auto simp: world_ok_def)
  moreover from assms have "\<forall>b x. wd_heap w b = Some x \<longrightarrow> b < Suc (wd_next w)"
    by (auto simp: world_ok_def less_Suc_eq)
  moreover have live: "w_live \<lparr>w_state = W_Init, w_seq = 0, w_waker = tw\<rparr>"
    by (simp add: w_live_def)
  ultimately show ?thesis using assms
    by (auto simp: alloc_waker_def keeps_others_def world_ok_def owns_def upgrade_def live split: if_splits)
qed

text \<open>Allocating a waker and dropping the one it replaces.\<close>

lemma realloc_own:
  assumes "world_ok w" "alloc_waker w tw = (w1, a)" "tw \<in> T" "owns w T k"
  shows "keeps_others T w (replace_owner w1 k) \<and> owns (replace_owner w1 k) T (Some a) \<and>
    wd_heap (replace_owner w1 k) a = wd_heap w1 a \<and> k \<noteq> Some a \<and> owns w1 T k"
proof -
  note A = alloc_own [OF assms(1-3)]
  have "a \<noteq> b" if "k = Some b" for b using A assms(4) that by (auto simp: owns_def)
  then have own: "owns w1 T k" using A assms(4) by (metis owns_def)
  have ko: "keeps_others T w (replace_owner w1 k)"
    using A drop_own [OF keeps_others_ok own] keeps_others_trans by blast
  have ne: "k \<noteq> Some a" using A assms(4) by (auto simp: owns_def)
  then have "wd_heap (replace_owner w1 k) a = wd_heap w1 a"
    by (cases k) (auto simp: replace_owner_def drop_waker_def)
  with A ko own ne show ?thesis by (auto simp: owns_def)
qed

lemma clear_selectors [simp]: "m_selectors (multi_clear_wakers_inner w m x b) = m_selectors m"
  by (simp add: multi_clear_wakers_inner_def Let_def)

lemma multi_reg_waker_safe:
  assumes "world_ok w" "upgrade w a = Some x"
  shows "\<exists>w' m'. multi_reg_waker w m a = Done (w', m') \<and> keeps_wakers w w' \<and> m_selectors m' = m_selectors m \<and>
    (\<exists>n. upgrade w' a = Some (x\<lparr>w_seq := n\<rparr>)) \<and> m_queue m' = m_queue m @ [a]"
  using assms world_ok_state [OF assms]
  by (auto simp: multi_reg_waker_def Let_def w_set_seq_def intro!: keeps_set_waker [OF assms])

lemma multi_fresh_safe:
  assumes "world_ok w" "reg_ok w (RegMulti m)" "alloc_waker w tw = (w1, a)" "tw \<in> T" "owns w T k"
  shows "\<exists>w' m'. multi_reg_waker w1 m a = Done (w', m') \<and> keeps_others T w (replace_owner w' k) \<and>
    reg_ok (replace_owner w' k) (RegMulti m') \<and> owns (replace_owner w' k) T (Some a) \<and>
    map_option w_state (upgrade (replace_owner w' k) a) = Some W_Init"
proof -
  note A = alloc_own [OF assms(1,3,4)] and B = realloc_own [OF assms(1,3-5)]
  from multi_reg_waker_safe [OF keeps_others_ok, of T w w1 a _ m] A obtain w' m' where
    r: "multi_reg_waker w1 m a = Done (w', m')" "keeps_wakers w1 w'" "m_selectors m' = m_selectors m"
      "map_option w_state (upgrade w' a) = Some W_Init" by fastforce
  have ko: "keeps_others T w w'" using A keeps_keeps_others [OF r(2)] keeps_others_trans by blast
  have ow: "owns w' T (Some a)" "owns w' T k" using keeps_owns [OF r(2)] A B by blast+
  have kr: "keeps_others T w (replace_owner w' k)"
    using ko drop_own [OF keeps_others_ok [OF ko] ow(2)] keeps_others_trans by blast
  have heap: "wd_heap (replace_owner w' k) a = wd_heap w' a"
    using B by (cases k) (auto simp: replace_owner_def drop_waker_def)
  have "reg_ok (replace_owner w' k) (RegMulti m')"
    using keeps_others_reg_ok [OF kr assms(2)] r(3) by (simp add: reg_ok_def)
  with r kr heap ow(1) show ?thesis by (simp add: owns_def upgrade_def)
qed

lemma reg_waker_blocking_safe:
  assumes "world_ok w" "reg_ok w g" "kind_of g = KSingle \<or> kind_of g = KMulti" "owns w T k" "Blocking thread \<in> T"
  shows "\<exists>w' g' a. reg_reg_waker_blocking w g thread k = Done (w', g', Some a) \<and> keeps_others T w w' \<and>
    reg_ok w' g' \<and> kind_of g' = kind_of g \<and> owns w' T (Some a) \<and>
    map_option w_state (upgrade w' a) = Some W_Init"
proof (cases g)
  case (RegSingle c)
  obtain w1 a where al: "alloc_waker w (Blocking thread) = (w1, a)" by fastforce
  with alloc_own [OF assms(1) al assms(5)] realloc_own [OF assms(1) al assms(5,4)] RegSingle show ?thesis
    by (auto simp: single_reg_waker_blocking_def new_blocking_def reg_ok_def upgrade_def)
next
  case (RegMulti m)
  show ?thesis
  proof (cases k)
    case None
    obtain w1 a where al: "alloc_waker w (Blocking thread) = (w1, a)" by fastforce
    from multi_fresh_safe [OF assms(1) _ al assms(5) owns_None, of m] assms(2) None al RegMulti show ?thesis
      by (auto simp: multi_reg_waker_blocking_def new_blocking_def replace_owner_def)
  next
    case (Some a)
    with owns_alive [of w T a] assms(4) obtain x where x: "upgrade w a = Some x" by auto
    let ?w = "set_waker w a (w_reset_init x)"
    have k1: "keeps_wakers w ?w" using keeps_set_waker [OF assms(1) x(1)] by (simp add: w_reset_init_def)
    from multi_reg_waker_safe [OF keeps_ok [OF k1], of a "w_reset_init x" m] obtain w' m' where
      r: "multi_reg_waker ?w m a = Done (w', m')" "keeps_wakers ?w w'" "m_selectors m' = m_selectors m"
        "map_option w_state (upgrade w' a) = Some W_Init" by (force simp: w_reset_init_def)
    have k2: "keeps_wakers w w'" using k1 r(2) by (rule keeps_trans)
    have "reg_ok w' (RegMulti m')" using keeps_reg_ok [OF k2 assms(2)] r(3) RegMulti by (simp add: reg_ok_def)
    with Some x r RegMulti keeps_keeps_others [OF k2] keeps_owns [OF k2 assms(4)] show ?thesis
      by (simp add: multi_reg_waker_blocking_def)
  qed
qed (use assms(3) in auto)

lemma reg_waker_async_safe:
  assumes "world_ok w" "reg_ok w g" "kind_of g = KSingle \<or> kind_of g = KMulti" "owns w T k"
    and "Async task \<in> T" "T \<subseteq> range Async"
  shows "\<exists>w' g' a p. reg_reg_waker_async w g task k = Done (w', g', Some a, p) \<and> keeps_others T w w' \<and>
    reg_ok w' g' \<and> kind_of g' = kind_of g \<and> owns w' T (Some a) \<and>
    (p = None \<longrightarrow> map_option w_state (upgrade w' a) = Some W_Init \<and> (\<forall>c. g' = RegSingle c \<longrightarrow> c = Some a))"
proof (cases g)
  case (RegSingle c)
  obtain w1 a where al: "alloc_waker w (Async task) = (w1, a)" by fastforce
  with alloc_own [OF assms(1) al assms(5)] realloc_own [OF assms(1) al assms(5,4)] RegSingle show ?thesis
    by (auto simp: single_reg_waker_async_def new_async_def reg_ok_def upgrade_def weak_cell_replace_def)
next
  case (RegMulti m)
  have fresh: "\<exists>w' m' a. (case new_async v task of (w', a) \<Rightarrow>
        exec_map (\<lambda>(w'', m'). (replace_owner w'' k, m', Some a, None)) (multi_reg_waker w' n a)) =
      Done (w', m', Some a, None :: poll option) \<and> keeps_others T w w' \<and> reg_ok w' (RegMulti m') \<and> owns w' T (Some a) \<and>
        map_option w_state (upgrade w' a) = Some W_Init"
    if "keeps_wakers w v" "m_selectors n = m_selectors m" for v n
  proof -
    obtain w1 a where al: "alloc_waker v (Async task) = (w1, a)" by fastforce
    have "reg_ok v (RegMulti n)" using keeps_reg_ok [OF that(1) assms(2)] that(2) RegMulti by (simp add: reg_ok_def)
    from multi_fresh_safe [OF keeps_ok [OF that(1)] this al assms(5) keeps_owns [OF that(1) assms(4)]]
      keeps_others_trans [OF keeps_keeps_others [OF that(1)]] al show ?thesis
      by (auto simp: new_async_def)
  qed
  show ?thesis
  proof (cases k)
    case None
    with fresh [OF keeps_refl [OF assms(1)] refl] RegMulti show ?thesis
      by (auto simp: multi_reg_waker_async_def Let_def)
  next
    case (Some a)
    with owns_alive [of w T a] assms(4,6) obtain x t where x: "upgrade w a = Some x" "w_waker x = Async t" by blast
    note st = world_ok_state [OF assms(1) x(1)]
    show ?thesis
    proof (cases "w_state x = W_Woken")
      case True
      let ?x = "x\<lparr>w_state := W_Init\<rparr>" and ?w = "set_waker w a (x\<lparr>w_state := W_Init\<rparr>)"
      have k1: "keeps_wakers w ?w" using keeps_set_waker [OF assms(1) x(1)] by simp
      from multi_reg_waker_safe [OF keeps_ok [OF k1], of a ?x m] obtain w' m' where
        r: "multi_reg_waker ?w m a = Done (w', m')" "keeps_wakers ?w w'" "m_selectors m' = m_selectors m"
          "map_option w_state (upgrade w' a) = Some W_Init" by force
      have k2: "keeps_wakers w w'" using k1 r(2) by (rule keeps_trans)
      have "reg_ok w' (RegMulti m')" using keeps_reg_ok [OF k2 assms(2)] r(3) RegMulti by (simp add: reg_ok_def)
      with True Some x r RegMulti keeps_keeps_others [OF k2] keeps_owns [OF k2 assms(4)] fresh [OF k1 refl]
      show ?thesis
        by (cases "t = task") (auto simp: multi_reg_waker_async_def w_try_change_state_def cas_def will_wake_def Let_def)
    next
      case False
      with Some x RegMulti st assms keeps_keeps_others [OF keeps_refl [OF assms(1)], of T]
        fresh [OF keeps_refl [OF assms(1)], of "multi_clear_wakers_inner w m x True"]
      show ?thesis
        by (auto simp: multi_reg_waker_async_def w_try_change_state_def cas_def will_wake_def)
    qed
  qed
qed (use assms(3) in auto)

lemma reg_commit_waiting_safe:
  assumes "world_ok w" "owns w T (Some a)"
  shows "\<exists>w' st. reg_commit_waiting w g (Some a) = Done (w', st) \<and> keeps_wakers w w' \<and>
    st \<in> {W_Init, W_Waiting, W_Woken, W_Closed}"
proof -
  from owns_alive [OF assms(2)] obtain x where x: "upgrade w a = Some x" by auto
  show ?thesis
    using assms(1) x world_ok_state [OF assms(1) x]
    by (cases g) (auto simp: keeps_refl multi_commit_waiting_def w_commit_waiting_def w_try_change_state_def cas_def
        intro!: keeps_set_waker [OF assms(1) x])
qed

lemma reg_get_waker_state_safe:
  assumes "world_ok w" "kind_of g = KSingle \<or> kind_of g = KMulti" "owns w T (Some a)"
  shows "\<exists>st. reg_get_waker_state w g (Some a) = Done st \<and> st \<in> {W_Init, W_Waiting, W_Woken, W_Closed}"
  using assms(2) owns_alive [OF assms(3)] world_ok_state [OF assms(1)]
  by (cases g) (auto simp: single_get_waker_state_def multi_get_waker_state_def w_get_state_def)

lemma reg_abandon_waker_safe:
  assumes "world_ok w" "reg_ok w g" "owns w T (Some a)"
  shows "\<exists>w' g' r. reg_abandon_waker w g a = Done (w', g', r) \<and> keeps_wakers w w' \<and> reg_ok w' g' \<and>
    kind_of g' = kind_of g \<and> (\<forall>st. r = Inl st \<longrightarrow> st = W_Woken \<or> st = W_Closed)"
proof -
  from owns_alive [OF assms(3)] obtain x where x: "upgrade w a = Some x" by auto
  show ?thesis
  proof (cases g)
    case (RegMulti m)
    let ?x = "fst (close_spec x)"
    have k: "keeps_wakers w (set_waker w a ?x)"
      using keeps_set_waker [OF assms(1) x, of ?x] world_ok_state [OF assms(1) x] by (auto simp: close_spec_def)
    have "w_state x \<le> W_Waiting \<or> w_state x = W_Woken \<or> w_state x = W_Closed"
      using world_ok_state [OF assms(1) x] by auto
    with RegMulti x k keeps_reg_ok [OF k assms(2)] show ?thesis
      by (auto simp: multi_abandon_waker_def w_abandon_spec close_spec_def reg_ok_def Let_def)
  qed (use assms in \<open>auto simp: keeps_refl\<close>)
qed

lemma reg_cancel_reuse_waker_safe:
  assumes "world_ok w" "reg_ok w g" "owns w T (Some a)" "st = W_Woken \<or> st = W_Done"
  shows "\<exists>w' g' k' st'. reg_cancel_reuse_waker w g (Some a) st = Done (w', g', k', st') \<and> keeps_others T w w' \<and>
    reg_ok w' g' \<and> kind_of g' = kind_of g \<and> owns w' T k' \<and>
    (st = W_Done \<longrightarrow> st' = W_Done) \<and> (st = W_Woken \<longrightarrow> st' = W_Woken \<or> st' = W_Closed)"
proof -
  from owns_alive [OF assms(3)] obtain x where x: "upgrade w a = Some x" by auto
  note D = drop_own [OF assms(1,3)]
  show ?thesis
  proof (cases g)
    case (RegMulti m)
    have "W_Closed < W_Done" "W_Woken < W_Done" "\<not> W_Closed < W_Woken"
      by (simp_all add: waker_states word_less_nat_alt)
    with RegMulti x assms D keeps_others_reg_ok [OF D assms(2)] world_ok_state [OF assms(1) x]
      keeps_keeps_others [OF keeps_refl [OF assms(1)], of T]
    show ?thesis
      by (auto simp: multi_cancel_reuse_waker_def w_get_state_def Let_def replace_owner_def reg_ok_def)
  qed (use assms D keeps_others_reg_ok [OF D assms(2)] in auto)
qed

lemma reg_cancel_waker_safe:
  assumes "world_ok w" "reg_ok w g" "owns w T k"
  shows "\<exists>w' g'. reg_cancel_waker w g k = Done (w', g', None) \<and> keeps_others T w w' \<and> reg_ok w' g' \<and>
    kind_of g' = kind_of g"
proof (cases k)
  case None
  with assms keeps_keeps_others [OF keeps_refl [OF assms(1)], of T] show ?thesis
    by (cases g) (auto simp: multi_cancel_waker_def replace_owner_def)
next
  case (Some a)
  note D = drop_own [OF assms(1,3)]
  from owns_alive [of w T a] Some assms(3) obtain x where x: "upgrade w a = Some x" by auto
  with Some D keeps_others_reg_ok [OF D assms(2)] show ?thesis
    by (cases g) (auto simp: multi_cancel_waker_def replace_owner_def reg_ok_def)
qed

end
