(* ===== verification/Channel_Safety.thy ===== *)
theory Channel_Safety
  imports Blocking Registry_Safety
begin

unbundle bit_operations_syntax

text \<open>
  The waiting operations do not fail. A thread that sends or receives runs among others, which may change
  the queue, the counts, the registries and the clock between any two of its steps, as long as they keep
  the shared state well-formed and do not drop the wakers of this thread (\<open>polite\<close>). Under these
  assumptions no \<^verbatim>\<open>unwrap\<close>, \<^verbatim>\<open>unreachable!\<close>, debug assertion or checked arithmetic of a send or receive
  fails, and no freed waker is touched.
\<close>

section \<open>Well-formed systems\<close>

definition sh_ok :: "('q \<Rightarrow> bool) \<Rightarrow> reg_kind \<Rightarrow> reg_kind \<Rightarrow> 'q shared_state \<Rightarrow> bool" where
  "sh_ok iv ks kr st =
     (case st of (w, c, t) \<Rightarrow>
        world_ok w \<and> iv (ch_inner c) \<and> reg_ok w (ch_senders c) \<and> reg_ok w (ch_recvs c) \<and>
        kind_of (ch_senders c) = ks \<and> kind_of (ch_recvs c) = kr \<and> unat (spin_limit (ch_cfg c)) \<le> 31)"

definition polite :: "('q \<Rightarrow> bool) \<Rightarrow> reg_kind \<Rightarrow> reg_kind \<Rightarrow> thin_waker set \<Rightarrow> ('q shared_state \<Rightarrow> 'q shared_state) \<Rightarrow> bool" where
  "polite iv ks kr T f \<longleftrightarrow>
     (\<forall>st. sh_ok iv ks kr st \<longrightarrow> sh_ok iv ks kr (f st) \<and>
       (\<forall>k. owns (fst st) T k \<longrightarrow> owns (fst (f st)) T k))"

definition sys_ok :: "('q \<Rightarrow> bool) \<Rightarrow> reg_kind \<Rightarrow> reg_kind \<Rightarrow> thin_waker set \<Rightarrow> nat option \<Rightarrow> 'q sys \<Rightarrow> bool" where
  "sys_ok iv ks kr T k s \<longleftrightarrow>
     sh_ok iv ks kr (sy_world s, sy_chan s, sy_now s) \<and> owns (sy_world s) T k \<and>
     (\<forall>f \<in> set (sy_env s). polite iv ks kr T f)"

lemma sched_quiet: "sy_env s = [] \<Longrightarrow> sched s = s"
  by (simp add: sched_def)

lemma sys_okD:
  assumes "sys_ok iv ks kr T k s"
  shows "world_ok (sy_world s)" "iv (ch_inner (sy_chan s))" "reg_ok (sy_world s) (ch_senders (sy_chan s))"
    "reg_ok (sy_world s) (ch_recvs (sy_chan s))" "kind_of (ch_senders (sy_chan s)) = ks"
    "kind_of (ch_recvs (sy_chan s)) = kr" "unat (spin_limit (ch_cfg (sy_chan s))) \<le> 31"
    "owns (sy_world s) T k" "\<forall>f \<in> set (sy_env s). polite iv ks kr T f"
  using assms by (simp_all add: sys_ok_def sh_ok_def)

lemma sys_ok_sched [intro]:
  assumes "sys_ok iv ks kr T k s"
  shows "sys_ok iv ks kr T k (sched s)"
proof (cases "sy_env s")
  case Nil
  with assms show ?thesis by (simp add: sched_def)
next
  case (Cons f fs)
  let ?st = "(sy_world s, sy_chan s, sy_now s)"
  have "polite iv ks kr T f" "sh_ok iv ks kr ?st" "owns (sy_world s) T k"
    using assms Cons by (simp_all add: sys_ok_def)
  then have "sh_ok iv ks kr (f ?st) \<and> owns (fst (f ?st)) T k" by (simp add: polite_def)
  with assms Cons show ?thesis by (auto simp: sched_def sys_ok_def split: prod.splits)
qed

lemma sys_ok_world:
  assumes "sys_ok iv ks kr T k s" "keeps_others T (sy_world s) w'" "owns w' T k'"
  shows "sys_ok iv ks kr T k' (s\<lparr>sy_world := w'\<rparr>)"
  using assms keeps_others_reg_ok [OF assms(2)] keeps_others_ok [OF assms(2)] by (simp add: sys_ok_def sh_ok_def)

lemma sys_ok_senders:
  assumes "sys_ok iv ks kr T k s" "reg_ok (sy_world s) g" "kind_of g = ks"
  shows "sys_ok iv ks kr T k (s\<lparr>sy_chan := (sy_chan s)\<lparr>ch_senders := g\<rparr>\<rparr>)"
  using assms by (simp add: sys_ok_def sh_ok_def)

lemma sys_ok_recvs:
  assumes "sys_ok iv ks kr T k s" "reg_ok (sy_world s) g" "kind_of g = kr"
  shows "sys_ok iv ks kr T k (s\<lparr>sy_chan := (sy_chan s)\<lparr>ch_recvs := g\<rparr>\<rparr>)"
  using assms by (simp add: sys_ok_def sh_ok_def)

lemma sys_ok_inner:
  "sys_ok iv ks kr T k s \<Longrightarrow> iv q \<Longrightarrow> sys_ok iv ks kr T k (s\<lparr>sy_chan := (sy_chan s)\<lparr>ch_inner := q\<rparr>\<rparr>)"
  by (simp add: sys_ok_def sh_ok_def)

lemma sys_ok_drop_owner:
  assumes "sys_ok iv ks kr T k s"
  shows "sys_ok iv ks kr T None (drop_owner k s)"
  using sys_ok_world [OF assms drop_own [OF sys_okD(1,8) [OF assms]], of None] by (simp add: drop_owner_def)

text \<open>A registry call that keeps the world well-formed keeps the system well-formed.\<close>

lemma safe_senders:
  assumes "sys_ok iv ks kr T k s"
    and "\<exists>w' g' r. f (sy_world s) (ch_senders (sy_chan s)) = Done (w', g', r) \<and>
      keeps_others T (sy_world s) w' \<and> reg_ok w' g' \<and> kind_of g' = ks \<and> owns w' T (ow r) \<and> Q r"
  shows "safe (with_senders f s) (\<lambda>(s', r). sys_ok iv ks kr T (ow r) s' \<and> Q r)"
proof -
  from assms(2) obtain w' g' r where f: "f (sy_world s) (ch_senders (sy_chan s)) = Done (w', g', r)"
    "keeps_others T (sy_world s) w'" "reg_ok w' g'" "kind_of g' = ks" "owns w' T (ow r)" "Q r" by blast
  from sys_ok_senders [OF sys_ok_world [OF assms(1) f(2,5)], of g'] f show ?thesis
    by (simp add: with_senders_def)
qed

lemma safe_recvs:
  assumes "sys_ok iv ks kr T k s"
    and "\<exists>w' g' r. f (sy_world s) (ch_recvs (sy_chan s)) = Done (w', g', r) \<and>
      keeps_others T (sy_world s) w' \<and> reg_ok w' g' \<and> kind_of g' = kr \<and> owns w' T (ow r) \<and> Q r"
  shows "safe (with_recvs f s) (\<lambda>(s', r). sys_ok iv ks kr T (ow r) s' \<and> Q r)"
proof -
  from assms(2) obtain w' g' r where f: "f (sy_world s) (ch_recvs (sy_chan s)) = Done (w', g', r)"
    "keeps_others T (sy_world s) w'" "reg_ok w' g'" "kind_of g' = kr" "owns w' T (ow r)" "Q r" by blast
  from sys_ok_recvs [OF sys_ok_world [OF assms(1) f(2,5)], of g'] f show ?thesis
    by (simp add: with_recvs_def)
qed

lemma on_send_safe:
  assumes "sys_ok iv ks kr T k s"
  shows "safe (on_send s) (sys_ok iv ks kr T k)"
proof -
  have "safe (with_recvs reg_fire s) (\<lambda>(s', r). sys_ok iv ks kr T ((\<lambda>_. k) r) s' \<and> True)"
    using reg_fire_safe [OF sys_okD(1,4) [OF assms]] sys_okD(6,8) [OF assms]
    by (intro safe_recvs [OF assms]) (blast intro: keeps_keeps_others keeps_owns)
  then show ?thesis by (auto simp: on_send_def safe_map elim!: safe_mono)
qed

lemma on_recv_safe:
  assumes "sys_ok iv ks kr T k s"
  shows "safe (on_recv s) (sys_ok iv ks kr T k)"
proof -
  have "safe (with_senders reg_fire s) (\<lambda>(s', r). sys_ok iv ks kr T ((\<lambda>_. k) r) s' \<and> True)"
    using reg_fire_safe [OF sys_okD(1,3) [OF assms]] sys_okD(5,8) [OF assms]
    by (intro safe_senders [OF assms]) (blast intro: keeps_keeps_others keeps_owns)
  then show ?thesis by (auto simp: on_recv_def safe_map elim!: safe_mono)
qed


text \<open>The waker operations of a waiting thread, on the senders' and on the receivers' side.\<close>

definition can_wait :: "reg_kind \<Rightarrow> bool" where
  "can_wait kd \<longleftrightarrow> kd = KSingle \<or> kd = KMulti"

lemma reg_waker_senders_safe:
  assumes "sys_ok iv ks kr {Blocking thread} k s" "can_wait ks"
  shows "safe (with_senders (\<lambda>w g. reg_reg_waker_blocking w g thread k) s)
    (\<lambda>(s', k'). sys_ok iv ks kr {Blocking thread} k' s' \<and> k' \<noteq> None)"
  using safe_senders [OF assms(1), of "\<lambda>w g. reg_reg_waker_blocking w g thread k" "\<lambda>k. k" "\<lambda>k. k \<noteq> None"]
    reg_waker_blocking_safe [OF sys_okD(1,3) [OF assms(1)] _ sys_okD(8) [OF assms(1)]] assms(2)
    sys_okD(5) [OF assms(1)]
  by (auto simp: can_wait_def)

lemma reg_waker_recvs_safe:
  assumes "sys_ok iv ks kr {Blocking thread} k s" "can_wait kr"
  shows "safe (with_recvs (\<lambda>w g. reg_reg_waker_blocking w g thread k) s)
    (\<lambda>(s', k'). sys_ok iv ks kr {Blocking thread} k' s' \<and> k' \<noteq> None)"
  using safe_recvs [OF assms(1), of "\<lambda>w g. reg_reg_waker_blocking w g thread k" "\<lambda>k. k" "\<lambda>k. k \<noteq> None"]
    reg_waker_blocking_safe [OF sys_okD(1,4) [OF assms(1)] _ sys_okD(8) [OF assms(1)]] assms(2)
    sys_okD(6) [OF assms(1)]
  by (auto simp: can_wait_def)

definition live_state :: "u8 \<Rightarrow> bool" where
  "live_state st \<longleftrightarrow> st \<in> {W_Init, W_Waiting, W_Woken, W_Closed}"

lemma commit_senders_safe:
  assumes "sys_ok iv ks kr T (Some a) s"
  shows "safe (with_senders (\<lambda>w g. exec_map (\<lambda>(w', st). (w', g, st)) (reg_commit_waiting w g (Some a))) s)
    (\<lambda>(s', st). sys_ok iv ks kr T (Some a) s' \<and> live_state st)"
  using safe_senders [OF assms, of "\<lambda>w g. exec_map (\<lambda>(w', st). (w', g, st)) (reg_commit_waiting w g (Some a))"
      "\<lambda>_. Some a" live_state] sys_okD(3,5) [OF assms] sys_okD(8) [OF assms] keeps_reg_ok keeps_keeps_others keeps_owns
    reg_commit_waiting_safe [OF sys_okD(1,8) [OF assms], of "ch_senders (sy_chan s)"]
  by (fastforce simp: live_state_def)

lemma commit_recvs_safe:
  assumes "sys_ok iv ks kr T (Some a) s"
  shows "safe (with_recvs (\<lambda>w g. exec_map (\<lambda>(w', st). (w', g, st)) (reg_commit_waiting w g (Some a))) s)
    (\<lambda>(s', st). sys_ok iv ks kr T (Some a) s' \<and> live_state st)"
  using safe_recvs [OF assms, of "\<lambda>w g. exec_map (\<lambda>(w', st). (w', g, st)) (reg_commit_waiting w g (Some a))"
      "\<lambda>_. Some a" live_state] sys_okD(4,6) [OF assms] sys_okD(8) [OF assms] keeps_reg_ok keeps_keeps_others keeps_owns
    reg_commit_waiting_safe [OF sys_okD(1,8) [OF assms], of "ch_recvs (sy_chan s)"]
  by (fastforce simp: live_state_def)

lemma get_state_senders_safe:
  assumes "sys_ok iv ks kr T (Some a) s" "can_wait ks"
  shows "\<exists>st. reg_get_waker_state (sy_world s) (ch_senders (sy_chan s)) (Some a) = Done st \<and> live_state st"
  using reg_get_waker_state_safe [OF sys_okD(1) [OF assms(1)] _ sys_okD(8) [OF assms(1)]] assms(2)
    sys_okD(5) [OF assms(1)] by (auto simp: can_wait_def live_state_def)

lemma get_state_recvs_safe:
  assumes "sys_ok iv ks kr T (Some a) s" "can_wait kr"
  shows "\<exists>st. reg_get_waker_state (sy_world s) (ch_recvs (sy_chan s)) (Some a) = Done st \<and> live_state st"
  using reg_get_waker_state_safe [OF sys_okD(1) [OF assms(1)] _ sys_okD(8) [OF assms(1)]] assms(2)
    sys_okD(6) [OF assms(1)] by (auto simp: can_wait_def live_state_def)

lemma cancel_reuse_safe:
  assumes "sys_ok iv ks kr T (Some a) s" "st = W_Woken \<or> st = W_Done"
  shows "safe (with_senders (\<lambda>w g. reg_cancel_reuse_waker w g (Some a) st) s)
    (\<lambda>(s', k', st'). sys_ok iv ks kr T k' s' \<and> (st = W_Done \<longrightarrow> st' = W_Done) \<and>
      (st = W_Woken \<longrightarrow> st' = W_Woken \<or> st' = W_Closed))"
  using safe_senders [OF assms(1), of "\<lambda>w g. reg_cancel_reuse_waker w g (Some a) st" fst
      "\<lambda>(k', st'). (st = W_Done \<longrightarrow> st' = W_Done) \<and> (st = W_Woken \<longrightarrow> st' = W_Woken \<or> st' = W_Closed)"]
    reg_cancel_reuse_waker_safe [OF sys_okD(1,3,8) [OF assms(1)] assms(2)] sys_okD(5) [OF assms(1)]
  by (auto simp: case_prod_unfold)

lemma cancel_recvs_safe:
  assumes "sys_ok iv ks kr T k s"
  shows "safe (with_recvs (\<lambda>w g. reg_cancel_waker w g k) s) (\<lambda>(s', k'). sys_ok iv ks kr T k' s')"
  using safe_recvs [OF assms(1), of "\<lambda>w g. reg_cancel_waker w g k" "\<lambda>k. k" "\<lambda>_. True"]
    reg_cancel_waker_safe [OF sys_okD(1,4,8) [OF assms(1)]] sys_okD(6) [OF assms(1)]
  by (auto simp: case_prod_unfold)

lemma abandon_send_safe:
  assumes "sys_ok iv ks kr T (Some a) s"
  shows "safe (abandon_send_waker a s) (sys_ok iv ks kr T (Some a))"
  unfolding abandon_send_waker_def
proof (rule safe_bind)
  show "safe (with_senders (\<lambda>w g. reg_abandon_waker w g a) s)
      (\<lambda>(s', r). sys_ok iv ks kr T (Some a) s' \<and> (\<forall>st. r = Inl st \<longrightarrow> st = W_Woken \<or> st = W_Closed))"
    using safe_senders [OF assms(1), of "\<lambda>w g. reg_abandon_waker w g a" "\<lambda>_. Some a"
        "\<lambda>r. \<forall>st. r = Inl st \<longrightarrow> st = W_Woken \<or> st = W_Closed"]
      reg_abandon_waker_safe [OF sys_okD(1,3,8) [OF assms(1)]] sys_okD(5,8) [OF assms(1)]
      keeps_keeps_others keeps_owns by blast
qed (auto split: sum.splits intro!: on_recv_safe sys_ok_sched)

lemma abandon_recv_safe:
  assumes "sys_ok iv ks kr T (Some a) s"
  shows "safe (abandon_recv_waker a s) (sys_ok iv ks kr T (Some a))"
  unfolding abandon_recv_waker_def
proof (rule safe_bind)
  show "safe (with_recvs (\<lambda>w g. reg_abandon_waker w g a) s)
      (\<lambda>(s', r). sys_ok iv ks kr T (Some a) s' \<and> (\<forall>st. r = Inl st \<longrightarrow> st = W_Woken \<or> st = W_Closed))"
    using safe_recvs [OF assms(1), of "\<lambda>w g. reg_abandon_waker w g a" "\<lambda>_. Some a"
        "\<lambda>r. \<forall>st. r = Inl st \<longrightarrow> st = W_Woken \<or> st = W_Closed"]
      reg_abandon_waker_safe [OF sys_okD(1,4,8) [OF assms(1)]] sys_okD(6,8) [OF assms(1)]
      keeps_keeps_others keeps_owns by blast
qed (auto split: sum.splits intro!: on_send_safe sys_ok_sched)

lemma drop_owner_chan [simp]: "sy_chan (drop_owner k s) = sy_chan s"
  by (simp add: drop_owner_def)

text \<open>What a receive that reports a disconnected channel has seen.\<close>

definition drained :: "('q \<Rightarrow> 'a list) \<Rightarrow> recv_timeout_error + 'a \<Rightarrow> 'q sys \<Rightarrow> bool" where
  "drained cont r s \<longleftrightarrow> (r = Inl RTDisconnected \<longrightarrow> cont (ch_inner (sy_chan s)) = [])"

lemma drained_simps [simp]: "drained cont (Inr x) s" "drained cont (Inl RTTimeout) s"
  by (simp_all add: drained_def)

section \<open>Sending\<close>

lemma snooze_safe:
  assumes "unat (spin_limit (config b)) \<le> 31"
  shows "safe (backoff_snooze b) (\<lambda>(b', _). unat (spin_limit (config b')) \<le> 31)"
  using assms by (simp add: snooze_step)

lemma sender_snooze_safe:
  assumes "sys_ok iv ks kr T (Some a) s" "can_wait ks" "unat (spin_limit (config b)) \<le> 31"
  shows "safe (sender_snooze fuel (Some a) b s)
    (\<lambda>(s', b', st). sys_ok iv ks kr T (Some a) s' \<and> unat (spin_limit (config b')) \<le> 31 \<and> live_state st)"
proof -
  have "safe (sender_snooze_loop fuel (Some a) b s)
      (\<lambda>(s', b', st). sys_ok iv ks kr T (Some a) s' \<and> unat (spin_limit (config b')) \<le> 31 \<and> live_state st)"
    if "sys_ok iv ks kr T (Some a) s" "unat (spin_limit (config b)) \<le> 31" for s b
    using that
  proof (induction fuel arbitrary: s b)
    case 0
    then show ?case by simp
  next
    case (Suc fuel)
    have ok: "sys_ok iv ks kr T (Some a) (sched s)" using Suc.prems(1) by (rule sys_ok_sched)
    from get_state_senders_safe [OF ok assms(2)] obtain st where
      st: "reg_get_waker_state (sy_world (sched s)) (ch_senders (sy_chan (sched s))) (Some a) = Done st" "live_state st"
      by auto
    show ?case
    proof (cases "W_Woken \<le> st")
      case True
      with st ok Suc.prems(2) show ?thesis by (simp add: Let_def)
    next
      case False
      show ?thesis
        using False st ok Suc.IH
        by (auto simp: Let_def intro!: safe_bind [OF snooze_safe [OF Suc.prems(2)]])
    qed
  qed
  with assms show ?thesis by (simp add: sender_snooze_def backoff_reset_def)
qed

context lawful_flavor
begin

lemma try_send_safe:
  assumes "sys_ok inv ks kr T k s"
  shows "safe (with_inner (\<lambda>q. fl_try_send F q x) s) (\<lambda>(s', _). sys_ok inv ks kr T k s')"
  using push_safe [OF sys_okD(2) [OF assms], of x] sys_ok_inner [OF assms]
  by (auto simp: with_inner_def safe_map elim!: safe_mono)

lemma try_recv_safe:
  assumes "sys_ok inv ks kr T k s"
  shows "safe (with_inner (fl_try_recv F) s) (\<lambda>(s', _). sys_ok inv ks kr T k s')"
  using pop_step [OF sys_okD(2) [OF assms]] sys_ok_inner [OF assms] by (auto simp: with_inner_def)

lemma try_recv_final_safe:
  assumes "sys_ok inv ks kr T k s"
  shows "safe (with_inner (fl_try_recv_final F) s) (\<lambda>(s', _). sys_ok inv ks kr T k s')"
  using try_recv_safe [OF assms] sys_okD(2) [OF assms] by (simp add: with_inner_def final_eq)

lemma try_send_oneshot_safe:
  assumes "sys_ok inv ks kr T k s" "fl_bounded F"
  shows "safe (with_inner (\<lambda>q. fl_try_send_oneshot F q x) s) (\<lambda>(s', _). sys_ok inv ks kr T k s')"
  using oneshot [OF sys_okD(2) [OF assms(1)] assms(2), of x] sys_ok_inner [OF assms(1)]
  by (auto simp: with_inner_def)

lemma tx_spin_safe:
  assumes "sys_ok inv ks kr T k s" "unat (spin_limit (config b)) \<le> 31"
  shows "safe (tx_spin F fuel x b s)
    (\<lambda>(s', b', _). sys_ok inv ks kr T k s' \<and> unat (spin_limit (config b')) \<le> 31)"
  using assms
proof (induction fuel arbitrary: b s)
  case 0
  then show ?case by simp
next
  case (Suc fuel)
  let ?Q = "\<lambda>(s', b', _). sys_ok inv ks kr T k s' \<and> unat (spin_limit (config b')) \<le> 31"
  have "safe (exec_map (\<lambda>s2. (s2, b, True)) (on_send (sched s1))) ?Q"
    and "safe (exec_bind (backoff_snooze b) (\<lambda>(b', _). tx_spin F fuel x b' s1)) ?Q"
    if s1: "sys_ok inv ks kr T k s1" for s1
  proof -
    show "safe (exec_map (\<lambda>s2. (s2, b, True)) (on_send (sched s1))) ?Q"
      using on_send_safe [OF sys_ok_sched [OF s1]] Suc.prems(2) by (simp add: safe_map)
    show "safe (exec_bind (backoff_snooze b) (\<lambda>(b', _). tx_spin F fuel x b' s1)) ?Q"
      by (rule safe_bind [OF snooze_safe [OF Suc.prems(2)]]) (use Suc.IH s1 in auto)
  qed
  then show ?case
    using Suc.prems(2) by (auto intro!: safe_bind [OF try_send_safe [OF sys_ok_sched [OF Suc.prems(1)]]])
qed

lemma double_check_safe:
  assumes "sys_ok inv ks kr T (Some a) s" "fl_bounded F"
  shows "safe (sender_double_check F sink x (Some a) s)
    (\<lambda>(s', k', st). sys_ok inv ks kr T k' s' \<and> (st = W_Done \<or> live_state st \<and> (st < W_Woken \<longrightarrow> k' \<noteq> None)))"
    (is "safe _ ?Q")
proof -
  have live: "live_state W_Closed" "live_state W_Woken" "live_state W_Init" by (simp_all add: live_state_def)
  have "safe (case res of
      Some True \<Rightarrow> exec_bind (on_send (sched s1)) (\<lambda>s2.
        with_senders (\<lambda>w g. reg_cancel_reuse_waker w g (Some a) W_Done) (sched s2))
    | Some False \<Rightarrow> exec_map (\<lambda>(s2, state). let s3 = sched s2 in (s3, Some a, if is_rx_closed s3 then W_Closed else state))
        (if sink then Done (s1, W_Init)
         else with_senders (\<lambda>w g. exec_map (\<lambda>(w', st). (w', g, st)) (reg_commit_waiting w g (Some a))) (sched s1))
    | None \<Rightarrow> with_senders (\<lambda>w g. reg_cancel_reuse_waker w g (Some a) W_Woken) (sched s1)) ?Q"
    if s1: "sys_ok inv ks kr T (Some a) s1" for s1 res
  proof -
    consider "res = Some True" | "res = Some False" | "res = None" by (cases res) auto
    then show ?thesis
    proof cases
      case 1
      show ?thesis unfolding 1 option.case bool.case
        by (rule safe_bind [OF on_send_safe [OF sys_ok_sched [OF s1]]],
            rule safe_mono [OF cancel_reuse_safe [OF sys_ok_sched]]) auto
    next
      case 2
      show ?thesis unfolding 2 option.case bool.case
        using s1 by (cases sink) (auto simp: safe_map Let_def live
            intro!: sys_ok_sched safe_mono [OF commit_senders_safe [OF sys_ok_sched [OF s1]]])
    next
      case 3
      show ?thesis unfolding 3 option.case
        by (rule safe_mono [OF cancel_reuse_safe [OF sys_ok_sched [OF s1]]]) (use live in auto)
    qed
  qed
  then show ?thesis unfolding sender_double_check_def
    by (intro safe_bind [OF try_send_oneshot_safe [OF assms]]) (simp only: split_paired_all prod.case)
qed

lemma tx_wait_safe:
  assumes "sys_ok inv ks kr T k s" "can_wait ks" "unat (spin_limit (config b)) \<le> 31"
    and "live_state st" "st < W_Woken \<longrightarrow> k \<noteq> None"
  shows "safe (tx_wait F fuel deadline k b st s)
    (\<lambda>(s', b', r). sys_ok inv ks kr T k s' \<and> unat (spin_limit (config b')) \<le> 31 \<and>
      (\<forall>st'. r = Some st' \<longrightarrow> st' = W_Woken \<or> st' = W_Closed))"
  using assms(1,3-)
proof (induction fuel arbitrary: b st s)
  case 0
  then show ?case by simp
next
  case (Suc fuel)
  let ?Q = "\<lambda>(s', b', r). sys_ok inv ks kr T k s' \<and> unat (spin_limit (config b')) \<le> 31 \<and>
      (\<forall>st'. r = Some st' \<longrightarrow> st' = W_Woken \<or> st' = W_Closed)"
  show ?case
  proof (cases "W_Woken \<le> st")
    case True
    with Suc.prems show ?thesis by (auto simp: live_state_def)
  next
    case False
    with Suc.prems obtain a where k: "k = Some a" by auto
    have ok: "sys_ok inv ks kr T (Some a) (sched s)" using Suc.prems(1) k by auto
    have rest: "safe (if st1 \<le> W_Waiting
        then case check_timeout deadline s1 of
            Inl _ \<Rightarrow> exec_map (\<lambda>s2. (s2, b1, None)) (abandon_send_waker a (sched s1))
          | Inr _ \<Rightarrow> exec_bind (reg_get_waker_state (sy_world (sched s1)) (ch_senders (sy_chan (sched s1))) k)
              (\<lambda>st2. tx_wait F fuel deadline k b1 st2 (sched s1))
        else tx_wait F fuel deadline k b1 st1 s1) ?Q"
      if s1: "sys_ok inv ks kr T (Some a) s1" "unat (spin_limit (config b1)) \<le> 31" "live_state st1" for s1 b1 st1
    proof -
      have ok1: "sys_ok inv ks kr T (Some a) (sched s1)" using s1(1) by auto
      from get_state_senders_safe [OF ok1 assms(2)] obtain st2 where
        "reg_get_waker_state (sy_world (sched s1)) (ch_senders (sy_chan (sched s1))) (Some a) = Done st2" "live_state st2"
        by auto
      with Suc.IH [of "sched s1" b1 st2] Suc.IH [of s1 b1 st1] ok1 s1 k abandon_send_safe [OF ok1]
      show ?thesis by (simp add: safe_map split: sum.split)
    qed
    have "safe (if might_congest F (sched s) then sender_snooze fuel k b (sched s) else Done (sched s, b, st))
        (\<lambda>(s', b', st). sys_ok inv ks kr T (Some a) s' \<and> unat (spin_limit (config b')) \<le> 31 \<and> live_state st)"
      using sender_snooze_safe [OF ok assms(2) Suc.prems(2)] ok Suc.prems(2,3) k by simp
    then show ?thesis using False k rest
      by (auto simp only: tx_wait.simps Let_def if_False option.case intro!: safe_bind)
  qed
qed

lemma tx_main_safe:
  assumes "sys_ok inv ks kr {Blocking thread} k s" "can_wait ks" "fl_bounded F" "unat (spin_limit (config b)) \<le> 31"
  shows "safe (tx_main F fuel thread x deadline parked k b s) (\<lambda>(s', r). sys_ok inv ks kr {Blocking thread} None s')"
  using assms(1,4)
proof (induction fuel arbitrary: parked k b s)
  case 0
  then show ?case by simp
next
  case (Suc fuel)
  let ?Q = "\<lambda>(s', r). sys_ok inv ks kr {Blocking thread} None s'"
  have ret: "sys_ok inv ks kr {Blocking thread} None (return_ok F parked k' s')" if "sys_ok inv ks kr {Blocking thread} k' s'" for k' s'
    using that by (auto simp: return_ok_def intro!: sys_ok_drop_owner)
  have wait: "safe (exec_bind (tx_wait F fuel deadline k1 b1 st s3) (\<lambda>(s4, b2, waited).
      case waited of
        None \<Rightarrow> Done (drop_owner k1 s4, Inl (STTimeout x))
      | Some st \<Rightarrow>
          if st = W_Woken then tx_main F fuel thread x deadline True k1 (backoff_reset b2) s4
          else if st = W_Closed then Done (drop_owner k1 s4, Inl (STDisconnected x))
          else Fault Panic)) ?Q"
    if "sys_ok inv ks kr {Blocking thread} k1 s3" "live_state st" "st < W_Woken \<longrightarrow> k1 \<noteq> None"
      "unat (spin_limit (config b1)) \<le> 31" for k1 s3 st b1
    by (rule safe_bind [OF tx_wait_safe [OF that(1) assms(2) that(4,2,3)]])
      (use Suc.IH in \<open>auto simp: backoff_reset_def sys_ok_drop_owner split: option.splits\<close>)
  have reg: "safe (exec_bind (with_senders (\<lambda>w g. reg_reg_waker_blocking w g thread k) (sched s1)) (\<lambda>(s2, k).
         exec_bind (sender_double_check F False x k (sched s2)) (\<lambda>(s3, k1, state).
           if state = W_Done then Done (return_ok F parked k1 s3, Inr ())
           else exec_bind (tx_wait F fuel deadline k1 b1 state s3) (\<lambda>(s4, b2, waited).
             case waited of
               None \<Rightarrow> Done (drop_owner k1 s4, Inl (STTimeout x))
             | Some st \<Rightarrow>
                 if st = W_Woken then tx_main F fuel thread x deadline True k1 (backoff_reset b2) s4
                 else if st = W_Closed then Done (drop_owner k1 s4, Inl (STDisconnected x))
                 else Fault Panic)))) ?Q"
    if "sys_ok inv ks kr {Blocking thread} k s1" "unat (spin_limit (config b1)) \<le> 31" for s1 b1
  proof (rule safe_bind [OF reg_waker_senders_safe [OF sys_ok_sched [OF that(1)] assms(2)]], clarify)
    fix s2 a assume s2: "sys_ok inv ks kr {Blocking thread} (Some a) s2"
    show "safe (exec_bind (sender_double_check F False x (Some a) (sched s2)) (\<lambda>(s3, k1, state).
           if state = W_Done then Done (return_ok F parked k1 s3, Inr ())
           else exec_bind (tx_wait F fuel deadline k1 b1 state s3) (\<lambda>(s4, b2, waited).
             case waited of
               None \<Rightarrow> Done (drop_owner k1 s4, Inl (STTimeout x))
             | Some st \<Rightarrow>
                 if st = W_Woken then tx_main F fuel thread x deadline True k1 (backoff_reset b2) s4
                 else if st = W_Closed then Done (drop_owner k1 s4, Inl (STDisconnected x))
                 else Fault Panic))) ?Q"
      by (rule safe_bind [OF double_check_safe [OF sys_ok_sched [OF s2] assms(3)]])
        (use wait [OF _ _ _ that(2)] ret in auto)
  qed
  show ?case
    unfolding tx_main.simps
    by (rule safe_bind [OF tx_spin_safe [OF Suc.prems]]) (use reg ret in auto)
qed

lemma send_bounded_safe:
  assumes "sys_ok inv ks kr {Blocking thread} None s" "can_wait ks" "fl_bounded F"
  shows "safe (send_bounded F fuel thread x deadline s) (\<lambda>(s', r). sys_ok inv ks kr {Blocking thread} None s')"
proof -
  let ?b = "backoff_from (ch_cfg (sy_chan s))"
  from adjust [OF sys_okD(2) [OF assms(1)], of ?b] obtain b where
    b: "fl_adjust_tx_backoff F (ch_inner (sy_chan s)) ?b = Done b"
      "spin_limit (config b) = spin_limit (config ?b) \<or> spin_limit (config b) = 6" by (auto simp: backoff_from_def)
  then have "unat (spin_limit (config b)) \<le> 31" using sys_okD(7) [OF assms(1)] by (auto simp: backoff_from_def)
  from tx_main_safe [OF assms this] b(1) show ?thesis by (simp add: send_bounded_def)
qed

lemma send_now_safe:
  assumes "sys_ok inv ks kr T k s" and "\<And>s1. sys_ok inv ks kr T k s1 \<Longrightarrow> safe (g s1) (\<lambda>(s', r). sys_ok inv ks kr T k s')"
  shows "safe (exec_bind (with_inner (\<lambda>q. fl_try_send F q x) (sched s)) (\<lambda>(s1, sent).
      if sent then exec_map (\<lambda>s2. (s2, r)) (on_send (sched s1)) else g s1)) (\<lambda>(s', r). sys_ok inv ks kr T k s')"
  by (rule safe_bind [OF try_send_safe [OF sys_ok_sched [OF assms(1)]]])
    (use assms(2) in \<open>auto simp: safe_map intro!: on_send_safe sys_ok_sched\<close>)

lemma tx_send_timeout_safe:
  assumes "sys_ok inv ks kr {Blocking thread} None s" "can_wait ks" "fl_bounded F"
  shows "safe (tx_send_timeout F m fuel thread x t s) (\<lambda>(s', r). sys_ok inv ks kr {Blocking thread} None s')"
proof (cases "is_rx_closed s")
  case True
  with assms show ?thesis by (simp add: tx_send_timeout_def)
next
  case False
  then show ?thesis unfolding tx_send_timeout_def
    using send_now_safe [OF assms(1), of "\<lambda>s1. case deadline_of m t s1 of
        Some e \<Rightarrow> send_bounded F fuel thread x (Some e) s1 | None \<Rightarrow> Done (s1, Inl (STTimeout x))" x "Inr ()"]
      send_bounded_safe [OF _ assms(2,3)] by (simp split: option.split)
qed

text \<open>A send without a deadline never answers a timeout, which is unreachable in \<^verbatim>\<open>send\<close>.\<close>

lemma tx_wait_no_deadline: "tx_wait F fuel None k b st s = Done (s', b', r) \<Longrightarrow> r \<noteq> None"
  by (induction fuel arbitrary: b st s) (auto simp: Let_def check_timeout_def split: if_splits)

lemma tx_main_no_deadline:
  "tx_main F fuel thread x None parked k b s = Done (s', r) \<Longrightarrow> r \<noteq> Inl (STTimeout y)"
  by (induction fuel arbitrary: parked k b s)
    (auto split: if_splits dest!: tx_wait_no_deadline)

lemma tx_send_safe:
  assumes "sys_ok inv ks kr {Blocking thread} None s" "fl_bounded F \<Longrightarrow> can_wait ks"
  shows "safe (tx_send F fuel thread x s) (\<lambda>(s', r). sys_ok inv ks kr {Blocking thread} None s')"
proof (cases "is_rx_closed s")
  case True
  with assms show ?thesis by (simp add: tx_send_def)
next
  case False
  show ?thesis
  proof (cases "fl_bounded F")
    case True
    let ?g = "\<lambda>s1. exec_bind (send_bounded F fuel thread x None s1) (\<lambda>(s2, r).
        case r of Inr _ \<Rightarrow> Done (s2, Inr ()) | Inl (STDisconnected e) \<Rightarrow> Done (s2, Inl (SendError e)) | Inl (STTimeout _) \<Rightarrow> Fault Panic)"
    have "safe (?g s1) (\<lambda>(s', r). sys_ok inv ks kr {Blocking thread} None s')" if "sys_ok inv ks kr {Blocking thread} None s1" for s1
    proof -
      have "safe (send_bounded F fuel thread x None s1) (\<lambda>(s', r). sys_ok inv ks kr {Blocking thread} None s' \<and> (\<forall>y. r \<noteq> Inl (STTimeout y)))"
        using send_bounded_safe [OF that assms(2) [OF True] True, of fuel x None]
        by (cases "send_bounded F fuel thread x None s1") (auto simp: send_bounded_def dest: tx_main_no_deadline)
      then show ?thesis by (rule safe_bind) (auto split: sum.splits send_timeout_error.splits)
    qed
    with send_now_safe [OF assms(1), of "\<lambda>s1. if fl_bounded F then ?g s1 else Fault Panic" x "Inr ()"] True False
    show ?thesis unfolding tx_send_def by (simp only: if_True if_False)
  next
    case unb: False
    from sys_ok_sched [OF assms(1)] have "sys_ok inv ks kr {Blocking thread} None (sched s)" .
    note ok = sys_okD(2) [OF this]
    with unb have "fl_capacity F (ch_inner (sy_chan (sched s))) = None" using bounded_cap by auto
    then have "has_room (fl_capacity F (ch_inner (sy_chan (sched s)))) (content (ch_inner (sy_chan (sched s))))"
      by (simp add: has_room_def)
    with push_safe [OF ok, of x]
    have "safe (fl_try_send F (ch_inner (sy_chan (sched s))) x) (\<lambda>(q', b). inv q' \<and> b)"
      by (auto elim!: safe_mono)
    with on_send_safe [OF sys_ok_sched [OF sys_ok_inner [OF sys_ok_sched [OF assms(1)]]]] False show ?thesis
      by (cases "fl_try_send F (ch_inner (sy_chan (sched s))) x") (auto simp: tx_send_def with_inner_def safe_map)
  qed
qed

subsection \<open>Receiving\<close>

lemma rx_spin_safe:
  assumes "sys_ok inv ks kr T k s" "unat (spin_limit (config b)) \<le> 31"
  shows "safe (rx_spin F fuel b s)
    (\<lambda>(s', b', _). sys_ok inv ks kr T k s' \<and> unat (spin_limit (config b')) \<le> 31)"
  using assms
proof (induction fuel arbitrary: b s)
  case 0
  then show ?case by simp
next
  case (Suc fuel)
  show ?case
    unfolding rx_spin.simps
    by (rule safe_bind [OF snooze_safe [OF Suc.prems(2)]], clarify,
        rule safe_bind [OF try_recv_safe [OF sys_ok_sched [OF Suc.prems(1)]]])
      (use Suc.IH in \<open>auto simp: safe_map split: option.split intro!: on_recv_safe sys_ok_sched safe_mono [OF on_recv_safe]\<close>)
qed

lemma rx_retry_safe:
  assumes "sys_ok inv ks kr T k s" "unat (spin_limit (config b)) \<le> 31"
  shows "safe (rx_retry F fuel b s)
    (\<lambda>(s', b', _). sys_ok inv ks kr T k s' \<and> unat (spin_limit (config b')) \<le> 31)"
  using assms
proof (induction fuel arbitrary: b s)
  case 0
  then show ?case by simp
next
  case (Suc fuel)
  show ?case
    unfolding rx_retry.simps
    by (rule safe_bind [OF try_recv_safe [OF sys_ok_sched [OF Suc.prems(1)]]])
      (use Suc in \<open>auto simp: safe_map split: option.split intro!: sys_ok_sched safe_mono [OF on_recv_safe]
         safe_bind [OF snooze_safe [OF Suc.prems(2)]]\<close>)
qed

lemma rx_wait_safe:
  assumes "sys_ok inv ks kr T (Some a) s" "can_wait kr" "live_state st"
  shows "safe (rx_wait fuel deadline (Some a) st s) (\<lambda>(s', r). sys_ok inv ks kr T (Some a) s')"
  using assms(1,3)
proof (induction fuel arbitrary: st s)
  case 0
  then show ?case by simp
next
  case (Suc fuel)
  have ok: "sys_ok inv ks kr T (Some a) (sched s)" using Suc.prems(1) by auto
  from get_state_recvs_safe [OF ok assms(2)] obtain st2 where
    "reg_get_waker_state (sy_world (sched s)) (ch_recvs (sy_chan (sched s))) (Some a) = Done st2" "live_state st2"
    by auto
  with Suc.IH [OF ok, of st2] Suc.prems abandon_recv_safe [OF ok] show ?case
    by (simp add: safe_map Let_def split: sum.split)
qed

lemma rx_last_safe:
  assumes "sys_ok inv ks kr T k s"
  shows "safe (rx_last F k s) (\<lambda>(s', r). sys_ok inv ks kr T None s' \<and> drained content r s')"
proof -
  have "safe (with_inner (fl_try_recv F) (sched s))
      (\<lambda>(s', r). sys_ok inv ks kr T k s' \<and> (r = None \<longrightarrow> content (ch_inner (sy_chan s')) = []))"
    using pop_step [OF sys_okD(2) [OF sys_ok_sched [OF assms]]] sys_ok_inner [OF sys_ok_sched [OF assms]]
    by (auto simp: with_inner_def split: list.splits)
  then show ?thesis unfolding rx_last_def
    by (rule safe_bind) (auto simp: safe_map drained_def split: option.split
        intro!: sys_ok_drop_owner sys_ok_sched safe_mono [OF on_recv_safe])
qed

lemma rx_main_safe:
  assumes "sys_ok inv ks kr {Blocking thread} k s" "can_wait kr" "unat (spin_limit (config b)) \<le> 31"
  shows "safe (rx_main F fuel thread deadline k b s) (\<lambda>(s', r). sys_ok inv ks kr {Blocking thread} None s' \<and> drained content r s')"
  using assms(1,3)
proof (induction fuel arbitrary: k b s)
  case 0
  then show ?case by simp
next
  case (Suc fuel)
  let ?Q = "\<lambda>(s', r). sys_ok inv ks kr {Blocking thread} None s' \<and> drained content r s'"
  have retry: "safe (exec_bind (rx_retry F fuel (backoff_reset b) s5) (\<lambda>(s6, b', got).
      case got of Some item \<Rightarrow> Done (drop_owner k1 s6, Inr item) | None \<Rightarrow> rx_main F fuel thread deadline k1 b' s6)) ?Q"
    if "sys_ok inv ks kr {Blocking thread} k1 s5" for k1 s5
    by (rule safe_bind [OF rx_retry_safe [OF that]])
      (use Suc in \<open>auto simp: backoff_reset_def split: option.split intro: sys_ok_drop_owner\<close>)
  have wait: "safe (let s4 = sched s3
      in if is_tx_closed s4 then rx_last F (Some a) s4
         else exec_bind (rx_wait fuel deadline (Some a) state s4) (\<lambda>(s5, waited).
           case waited of
             None \<Rightarrow> Done (drop_owner (Some a) s5, Inl RTTimeout)
           | Some st \<Rightarrow>
               if st = W_Closed then rx_last F (Some a) s5
               else exec_bind (rx_retry F fuel (backoff_reset b) s5) (\<lambda>(s6, b', got).
                 case got of
                   Some item \<Rightarrow> Done (drop_owner (Some a) s6, Inr item)
                 | None \<Rightarrow> rx_main F fuel thread deadline (Some a) b' s6))) ?Q"
    if "sys_ok inv ks kr {Blocking thread} (Some a) s3" "live_state state" for a s3 state
    unfolding Let_def
    by (cases "is_tx_closed (sched s3)", simp only: if_True,
        rule rx_last_safe [OF sys_ok_sched [OF that(1)]], simp only: if_False,
        rule safe_bind [OF rx_wait_safe [OF sys_ok_sched [OF that(1)] assms(2) that(2)]])
      (auto simp: rx_last_safe sys_ok_drop_owner retry split: option.split)
  have got: "safe (exec_bind (on_recv (sched s2)) (\<lambda>s3.
      exec_map (\<lambda>(s4, k'). (drop_owner k' s4, Inr item)) (with_recvs (\<lambda>w g. reg_cancel_waker w g k1) (sched s3)))) ?Q"
    if "sys_ok inv ks kr {Blocking thread} k1 s2" for k1 s2 and item :: 'a
    by (rule safe_bind [OF on_recv_safe [OF sys_ok_sched [OF that]]])
      (auto simp: safe_map intro!: safe_mono [OF cancel_recvs_safe [OF sys_ok_sched]] sys_ok_drop_owner)
  have reg: "safe (exec_bind (with_inner (fl_try_recv_final F) (sched s1)) (\<lambda>(s2, r).
         case r of
           Some item \<Rightarrow>
             exec_bind (on_recv (sched s2)) (\<lambda>s3.
               exec_map (\<lambda>(s4, k'). (drop_owner k' s4, Inr item))
                 (with_recvs (\<lambda>w g. reg_cancel_waker w g (Some a)) (sched s3)))
         | None \<Rightarrow>
             exec_bind (with_recvs (\<lambda>w g. exec_map (\<lambda>(w', st). (w', g, st)) (reg_commit_waiting w g (Some a))) (sched s2))
               (\<lambda>(s3, state).
                 let s4 = sched s3
                 in if is_tx_closed s4 then rx_last F (Some a) s4
                    else exec_bind (rx_wait fuel deadline (Some a) state s4) (\<lambda>(s5, waited).
                      case waited of
                        None \<Rightarrow> Done (drop_owner (Some a) s5, Inl RTTimeout)
                      | Some st \<Rightarrow>
                          if st = W_Closed then rx_last F (Some a) s5
                          else exec_bind (rx_retry F fuel (backoff_reset b) s5) (\<lambda>(s6, b', got).
                            case got of
                              Some item \<Rightarrow> Done (drop_owner (Some a) s6, Inr item)
                            | None \<Rightarrow> rx_main F fuel thread deadline (Some a) b' s6))))) ?Q"
    if "sys_ok inv ks kr {Blocking thread} (Some a) s1" for a s1
    by (rule safe_bind [OF try_recv_final_safe [OF sys_ok_sched [OF that]]], clarify)
      (simp only: prod.case split: option.split, intro conjI impI allI,
        rule safe_bind [OF commit_recvs_safe [OF sys_ok_sched]], assumption, clarify, erule (1) wait, erule got)
  show ?case
    unfolding rx_main.simps
    by (rule safe_bind [OF reg_waker_recvs_safe [OF sys_ok_sched [OF Suc.prems(1)] assms(2)]])
      (clarify, erule reg)
qed

lemma recv_blocking_safe:
  assumes "sys_ok inv ks kr {Blocking thread} None s" "can_wait kr"
  shows "safe (recv_blocking F fuel thread deadline s) (\<lambda>(s', r). sys_ok inv ks kr {Blocking thread} None s' \<and> drained content r s')"
proof -
  let ?Q = "\<lambda>(s', r). sys_ok inv ks kr {Blocking thread} None s' \<and> drained content r s'"
  have spin: "safe (exec_bind (rx_spin F fuel (backoff_from cfg) s1) (\<lambda>(s2, b, got).
      case got of Some item \<Rightarrow> Done (s2, Inr item) | None \<Rightarrow> rx_main F fuel thread deadline None b s2)) ?Q"
    if "sys_ok inv ks kr {Blocking thread} None s1" "unat (spin_limit cfg) \<le> 31" for s1 cfg
    by (rule safe_bind [OF rx_spin_safe [OF that(1)]])
      (use that rx_main_safe [OF _ assms(2)] in \<open>auto simp: backoff_from_def split: option.split\<close>)
  have cfg: "unat (spin_limit (config_limit (ch_cfg (sy_chan s1)) l)) \<le> 31"
    "unat (spin_limit (config_spin (config_limit (ch_cfg (sy_chan s1)) l) 2)) \<le> 31"
    if "sys_ok inv ks kr {Blocking thread} None s1" for s1 l
    using sys_okD(7) [OF that] by (simp_all add: config_spin_def config_limit_def)
  have got: "safe (exec_map (\<lambda>s2. (s2, Inr item)) (on_recv (sched s1))) ?Q"
    if "sys_ok inv ks kr {Blocking thread} None s1" for s1 and item :: 'a
    using on_recv_safe [OF sys_ok_sched [OF that]] by (simp add: safe_map)
  show ?thesis
    unfolding recv_blocking_def
    by (rule safe_bind [OF try_recv_safe [OF assms(1)]])
      (auto simp only: Let_def prod.case intro!: got spin cfg split: option.split if_split)
qed

lemma ch_try_recv_safe:
  assumes "sys_ok inv ks kr T k s"
  shows "safe (ch_try_recv F s) (\<lambda>(s', r). sys_ok inv ks kr T k s')"
proof -
  have "safe (exec_map (\<lambda>s2. (s2, v)) (on_recv (sched s1))) (\<lambda>(s', r). sys_ok inv ks kr T k s')"
    if "sys_ok inv ks kr T k s1" for s1 and v :: "try_recv_error + 'a"
    using on_recv_safe [OF sys_ok_sched [OF that]] by (simp add: safe_map)
  then show ?thesis
    using try_recv_safe [OF sys_ok_sched [OF assms]] try_recv_final_safe [OF sys_ok_sched [OF assms]]
    by (auto simp: ch_try_recv_def split: option.split elim!: safe_bind)
qed

text \<open>A receive without a deadline never answers a timeout, which is unreachable in \<^verbatim>\<open>recv\<close>.\<close>

lemma rx_wait_no_deadline: "rx_wait fuel None k st s = Done (s', r) \<Longrightarrow> r \<noteq> None"
  by (induction fuel arbitrary: st s) (auto simp: Let_def check_timeout_def split: if_splits)

lemma rx_last_no_timeout: "whenever (rx_last F k s) (\<lambda>(s', r). r \<noteq> Inl RTTimeout)"
  by (auto simp: rx_last_def intro!: whenever_bind whenever_map split: option.split)

lemma rx_main_no_deadline: "whenever (rx_main F fuel thread None k b s) (\<lambda>(s', r). r \<noteq> Inl RTTimeout)"
proof (induction fuel arbitrary: k b s)
  case 0
  then show ?case by simp
next
  case (Suc fuel)
  then show ?case
    by (auto simp: Let_def intro!: whenever_bind whenever_map rx_last_no_timeout split: option.split
        dest!: rx_wait_no_deadline)
qed

lemma rx_recv_safe:
  assumes "sys_ok inv ks kr {Blocking thread} None s" "can_wait kr"
  shows "safe (rx_recv F fuel thread s) (\<lambda>(s', r). sys_ok inv ks kr {Blocking thread} None s')"
proof -
  have "whenever (recv_blocking F fuel thread None s) (\<lambda>(s', r). r \<noteq> Inl RTTimeout)"
    unfolding recv_blocking_def Let_def
    by (rule whenever_bind) (auto intro!: whenever_bind whenever_map rx_main_no_deadline split: option.split)
  with recv_blocking_safe [OF assms, of fuel None]
  have "safe (recv_blocking F fuel thread None s) (\<lambda>(s', r). sys_ok inv ks kr {Blocking thread} None s' \<and> r \<noteq> Inl RTTimeout)"
    by (cases "recv_blocking F fuel thread None s") auto
  then show ?thesis unfolding rx_recv_def
    by (rule safe_bind) (auto split: sum.split recv_timeout_error.split)
qed

lemma rx_recv_timeout_safe:
  assumes "sys_ok inv ks kr {Blocking thread} None s" "can_wait kr"
  shows "safe (rx_recv_timeout F m fuel thread t s) (\<lambda>(s', r). sys_ok inv ks kr {Blocking thread} None s')"
  using ch_try_recv_safe [OF assms(1)]
  by (auto simp: rx_recv_timeout_def rx_try_recv_def safe_map case_prod_unfold split: option.split
      intro!: safe_mono [OF recv_blocking_safe [OF assms]])

end

section \<open>A fresh channel\<close>

definition fresh_sys :: "('q, 'a) flavor \<Rightarrow> backoff_globals \<Rightarrow> 'q \<Rightarrow> registry \<Rightarrow> registry \<Rightarrow> nat \<Rightarrow>
    ('q shared_state \<Rightarrow> 'q shared_state) list \<Rightarrow> 'q sys" where
  "fresh_sys F g q senders recvs t env =
     \<lparr>sy_world = world_init, sy_chan = channel_new F g q senders recvs, sy_now = t, sy_env = env\<rparr>"

lemma config_detect_spin:
  "unat (spin_limit (config_detect backoff_globals_init)) \<le> 31"
  "unat (spin_limit (config_detect (detect_backoff_cfg p backoff_globals_init))) \<le> 31"
  by (simp_all add: config_detect_def detect_backoff_cfg_def backoff_globals_init_def config_from_u32_def
      DEFAULT_CONFIG_def config_to_u32_def SPIN_LIMIT_def Let_def)

lemma fresh_sys_ok:
  assumes "iv q" "senders \<in> {RegDummy, RegSingle weak_cell_new, RegMulti multi_new}"
    and "recvs \<in> {RegSingle weak_cell_new, RegMulti multi_new}"
    and "\<forall>f \<in> set env. polite iv (kind_of senders) (kind_of recvs) T f"
  shows "sys_ok iv (kind_of senders) (kind_of recvs) T None
    (fresh_sys F (detect_backoff_cfg p backoff_globals_init) q senders recvs t env)"
  using assms config_detect_spin(2) [of p]
  by (auto simp: sys_ok_def sh_ok_def fresh_sys_def channel_new_def world_ok_init reg_ok_def multi_new_def)

section \<open>Properties\<close>

text \<open>
  C32. Blocking sends do not fail. On a well-formed channel with any lawful bounded flavor, whatever polite
  other threads do between any two of its steps, a \<^verbatim>\<open>send\<close>, \<^verbatim>\<open>send_timeout\<close> or \<^verbatim>\<open>try_send\<close> never panics (the
  unwraps, the \<^verbatim>\<open>unreachable!\<close> arms and the debug assertions hold), never overflows, never touches a freed
  waker, and leaves the channel well-formed.
\<close>

theorem blocking_send_no_fault:
  assumes "lawful_flavor F iv cont" "fl_bounded F" "can_wait ks" "sys_ok iv ks kr {Blocking thread} None s"
  shows "safe (tx_send F fuel thread x s) (\<lambda>(s', r). sys_ok iv ks kr {Blocking thread} None s') \<and>
    safe (tx_send_timeout F m fuel thread x t s) (\<lambda>(s', r). sys_ok iv ks kr {Blocking thread} None s') \<and>
    safe (tx_try_send F x s) (\<lambda>(s', r). sys_ok iv ks kr {Blocking thread} None s')"
proof -
  have "safe (tx_try_send F x s) (\<lambda>(s', r). sys_ok iv ks kr {Blocking thread} None s')"
    using lawful_flavor.send_now_safe [OF assms(1,4), of "\<lambda>s1. Done (s1, Inl (TSFull x))" x "Inr ()"] assms(4)
    by (simp add: tx_try_send_def)
  with lawful_flavor.tx_send_safe [OF assms(1,4,3)] lawful_flavor.tx_send_timeout_safe [OF assms(1,4,3,2)]
  show ?thesis by blast
qed

theorem blocking_send_no_fault_witness:
  "\<exists>q. array_new 2 = Done q \<and>
    safe (tx_send (array_flavor []) 50 7 (5 :: nat)
      (fresh_sys (array_flavor []) (detect_backoff_cfg (Some 8) backoff_globals_init) q
        (RegMulti multi_new) (RegMulti multi_new) 0 [id])) (\<lambda>_. True)"
proof -
  obtain q :: "nat array_queue" where q: "array_new 2 = Done q" "aq_inv q"
    using aq_new_inv [of 2] by (force simp: array_new_def)
  have "\<forall>f \<in> set [id]. polite aq_inv (kind_of (RegMulti multi_new)) (kind_of (RegMulti multi_new)) {Blocking 7} f"
    by (simp add: polite_def)
  from fresh_sys_ok [OF q(2) _ _ this]
  have "sys_ok aq_inv KMulti KMulti {Blocking 7} None (fresh_sys (array_flavor [])
      (detect_backoff_cfg (Some 8) backoff_globals_init) q (RegMulti multi_new) (RegMulti multi_new) 0 [id])"
    by simp
  from blocking_send_no_fault [OF arrf.lawful_flavor_axioms _ _ this] q show ?thesis
    by (force simp: can_wait_def array_flavor_simps elim: safe_mono)
qed

text \<open>
  C33. Blocking receives do not fail: likewise for \<^verbatim>\<open>recv\<close>, \<^verbatim>\<open>recv_timeout\<close> and \<^verbatim>\<open>try_recv\<close>, for every lawful
  flavor, bounded or not.
\<close>

theorem blocking_recv_no_fault:
  assumes "lawful_flavor F iv cont" "can_wait kr" "sys_ok iv ks kr {Blocking thread} None s"
  shows "safe (rx_recv F fuel thread s) (\<lambda>(s', r). sys_ok iv ks kr {Blocking thread} None s') \<and>
    safe (rx_recv_timeout F m fuel thread t s) (\<lambda>(s', r). sys_ok iv ks kr {Blocking thread} None s') \<and>
    safe (rx_try_recv F s) (\<lambda>(s', r). sys_ok iv ks kr {Blocking thread} None s')"
  using lawful_flavor.rx_recv_safe [OF assms(1,3,2)] lawful_flavor.rx_recv_timeout_safe [OF assms(1,3,2)]
    lawful_flavor.ch_try_recv_safe [OF assms(1,3)] by (simp add: rx_try_recv_def)

theorem blocking_recv_no_fault_witness:
  "\<exists>q. array_new 2 = Done (q :: nat array_queue) \<and>
    safe (rx_recv (array_flavor []) 50 7
      (fresh_sys (array_flavor []) (detect_backoff_cfg (Some 8) backoff_globals_init) q
        (RegMulti multi_new) (RegSingle weak_cell_new) 0 [id])) (\<lambda>_. True)"
proof -
  obtain q :: "nat array_queue" where q: "array_new 2 = Done q" "aq_inv q"
    using aq_new_inv [of 2] by (force simp: array_new_def)
  have "\<forall>f \<in> set [id]. polite aq_inv (kind_of (RegMulti multi_new)) (kind_of (RegSingle weak_cell_new)) {Blocking 7} f"
    by (simp add: polite_def)
  from fresh_sys_ok [OF q(2) _ _ this]
  have "sys_ok aq_inv KMulti KSingle {Blocking 7} None (fresh_sys (array_flavor [])
      (detect_backoff_cfg (Some 8) backoff_globals_init) q (RegMulti multi_new) (RegSingle weak_cell_new) 0 [id])"
    by simp
  from blocking_recv_no_fault [OF arrf.lawful_flavor_axioms _ this] q show ?thesis
    by (force simp: can_wait_def elim: safe_mono)
qed

end
