(* ===== verification/Exactly_Once.thy ===== *)
theory Exactly_Once
  imports Channel_Safety
begin

text \<open>
  A message goes into the queue exactly once when a send succeeds and never when it fails; a receive
  takes exactly the message it returns. The operations of \<open>Blocking\<close> are generic in the flavor, so they run
  unchanged on a flavor that also keeps a log of the messages it accepted and handed out: \<open>logged F\<close>. The
  log belongs to the running thread; what the other threads do (\<open>lift_env\<close>) does not write to it.
\<close>

section \<open>Flavors with a log\<close>

datatype 'a qevent = Sent 'a | Got 'a

type_synonym ('q, 'a) logged_queue = "'q \<times> 'a qevent list"

definition log_send :: "('q \<Rightarrow> ('q \<times> 'r) exec) \<Rightarrow> 'a \<Rightarrow> ('r \<Rightarrow> bool) \<Rightarrow> ('q, 'a) logged_queue \<Rightarrow>
    (('q, 'a) logged_queue \<times> 'r) exec" where
  "log_send f x took ql =
     exec_map (\<lambda>(q, r). ((q, snd ql @ (if took r then [Sent x] else [])), r)) (f (fst ql))"

definition log_recv :: "('q \<Rightarrow> ('q \<times> 'r) exec) \<Rightarrow> ('r \<Rightarrow> 'a option) \<Rightarrow> ('q, 'a) logged_queue \<Rightarrow>
    (('q, 'a) logged_queue \<times> 'r) exec" where
  "log_recv f got ql =
     exec_map (\<lambda>(q, r). ((q, snd ql @ (case got r of Some x \<Rightarrow> [Got x] | None \<Rightarrow> [])), r)) (f (fst ql))"

definition logged :: "('q, 'a) flavor \<Rightarrow> (('q, 'a) logged_queue, 'a) flavor" where
  "logged F =
     \<lparr>fl_bounded = fl_bounded F,
      fl_push = (\<lambda>ql x. log_send (\<lambda>q. fl_push F q x) x (\<lambda>r. r = Inr ()) ql),
      fl_pop = log_recv (fl_pop F) id,
      fl_len = fl_len F \<circ> fst, fl_capacity = fl_capacity F \<circ> fst,
      fl_is_full = fl_is_full F \<circ> fst, fl_is_empty = fl_is_empty F \<circ> fst,
      fl_try_send = (\<lambda>ql x. log_send (\<lambda>q. fl_try_send F q x) x id ql),
      fl_try_send_oneshot = (\<lambda>ql x. log_send (\<lambda>q. fl_try_send_oneshot F q x) x (\<lambda>r. r = Some True) ql),
      fl_try_recv_cached = log_recv (fl_try_recv_cached F) id,
      fl_try_recv = log_recv (fl_try_recv F) id,
      fl_try_recv_final = log_recv (fl_try_recv_final F) id,
      fl_backoff_limit = fl_backoff_limit F,
      fl_adjust_tx_backoff = (\<lambda>ql. fl_adjust_tx_backoff F (fst ql)),
      fl_try_select = (\<lambda>final_check. log_recv (fl_try_select F final_check) (\<lambda>_. None)),
      fl_read_with_token = (\<lambda>ql tok. log_recv (\<lambda>q. fl_read_with_token F q tok) Some ql)\<rparr>"

section \<open>Running with a log\<close>

definition attach_chan :: "'a qevent list \<Rightarrow> 'q channel \<Rightarrow> ('q, 'a) logged_queue channel" where
  "attach_chan l c =
     \<lparr>ch_inner = (ch_inner c, l), ch_tx_count = ch_tx_count c, ch_rx_count = ch_rx_count c,
      ch_senders = ch_senders c, ch_recvs = ch_recvs c, ch_large = ch_large c, ch_cfg = ch_cfg c\<rparr>"

definition detach_chan :: "('q, 'a) logged_queue channel \<Rightarrow> 'q channel" where
  "detach_chan c =
     \<lparr>ch_inner = fst (ch_inner c), ch_tx_count = ch_tx_count c, ch_rx_count = ch_rx_count c,
      ch_senders = ch_senders c, ch_recvs = ch_recvs c, ch_large = ch_large c, ch_cfg = ch_cfg c\<rparr>"

definition lift_env :: "('q shared_state \<Rightarrow> 'q shared_state) \<Rightarrow>
    ('q, 'a) logged_queue shared_state \<Rightarrow> ('q, 'a) logged_queue shared_state" where
  "lift_env f st =
     (case st of (w, c, t) \<Rightarrow> (case f (w, detach_chan c, t) of
        (w', c', t') \<Rightarrow> (w', attach_chan (snd (ch_inner c)) c', t')))"

definition attach :: "'a qevent list \<Rightarrow> 'q sys \<Rightarrow> ('q, 'a) logged_queue sys" where
  "attach l s =
     \<lparr>sy_world = sy_world s, sy_chan = attach_chan l (sy_chan s), sy_now = sy_now s,
      sy_env = map lift_env (sy_env s)\<rparr>"

named_theorems attach_simps

lemma attach_sel [attach_simps]:
  "sy_world (attach l s) = sy_world s" "sy_now (attach l s) = sy_now s"
  "ch_tx_count (sy_chan (attach l s)) = ch_tx_count (sy_chan s)"
  "ch_rx_count (sy_chan (attach l s)) = ch_rx_count (sy_chan s)"
  "ch_senders (sy_chan (attach l s)) = ch_senders (sy_chan s)"
  "ch_recvs (sy_chan (attach l s)) = ch_recvs (sy_chan s)"
  "ch_large (sy_chan (attach l s)) = ch_large (sy_chan s)"
  "ch_cfg (sy_chan (attach l s)) = ch_cfg (sy_chan s)"
  "ch_inner (sy_chan (attach l s)) = (ch_inner (sy_chan s), l)"
  by (simp_all add: attach_def attach_chan_def)

lemma attach_obs [attach_simps]:
  "is_tx_closed (attach l s) = is_tx_closed s" "is_rx_closed (attach l s) = is_rx_closed s"
  "ch_is_full (logged F) (attach l s) = ch_is_full F s"
  "might_congest (logged F) (attach l s) = might_congest F s"
  "check_timeout deadline (attach l s) = check_timeout deadline s"
  "deadline_of m t (attach l s) = deadline_of m t s"
  "fl_bounded (logged F) = fl_bounded F" "fl_backoff_limit (logged F) = fl_backoff_limit F"
  "fl_adjust_tx_backoff (logged F) (q, l) = fl_adjust_tx_backoff F q"
  by (simp_all add: is_tx_closed_def is_rx_closed_def ch_is_full_def might_congest_def check_timeout_def
      deadline_of_def logged_def attach_sel split: option.split)

lemma detach_attach [simp]: "detach_chan (attach_chan l c) = c"
  by (simp add: detach_chan_def attach_chan_def)

lemma attach_inner: "snd (ch_inner (attach_chan l c)) = l"
  by (simp add: attach_chan_def)

lemma attach_sched [attach_simps]: "sched (attach l s) = attach l (sched s)"
  by (auto simp: sched_def attach_def lift_env_def attach_inner split: list.splits prod.splits)

lemma attach_drop_owner [attach_simps]: "drop_owner k (attach l s) = attach l (drop_owner k s)"
  by (simp add: drop_owner_def attach_def)

lemma attach_return_ok [attach_simps]:
  "return_ok (logged F) parked k (attach l s) = attach l (return_ok F parked k s)"
  by (simp add: return_ok_def attach_simps)

text \<open>One call into a component: what it does with the log.\<close>

definition relog :: "('r \<Rightarrow> 'a qevent list) \<Rightarrow> 'a qevent list \<Rightarrow> 'q sys \<times> 'r \<Rightarrow> ('q, 'a) logged_queue sys \<times> 'r" where
  "relog ev l sr = (attach (l @ ev (snd sr)) (fst sr), snd sr)"

lemma relog_pair [simp]: "relog ev l (s, r) = (attach (l @ ev r) s, r)"
  by (simp add: relog_def)

lemma attach_update_inner: "attach l s\<lparr>sy_chan := (sy_chan (attach l s))\<lparr>ch_inner := (q, l')\<rparr>\<rparr> =
    attach l' (s\<lparr>sy_chan := (sy_chan s)\<lparr>ch_inner := q\<rparr>\<rparr>)"
  by (simp add: attach_def attach_chan_def)

lemma attach_with_senders [attach_simps]:
  "with_senders f (attach l s) = exec_map (\<lambda>(s', r). (attach l s', r)) (with_senders f s)"
  by (auto simp: with_senders_def exec_push attach_sel attach_def attach_chan_def intro!: exec_map_eqI)

lemma attach_with_recvs [attach_simps]:
  "with_recvs f (attach l s) = exec_map (\<lambda>(s', r). (attach l s', r)) (with_recvs f s)"
  by (auto simp: with_recvs_def exec_push attach_sel attach_def attach_chan_def intro!: exec_map_eqI)

lemma attach_log_send:
  "with_inner (log_send f x took) (attach l s) =
     exec_map (relog (\<lambda>r. if took r then [Sent x] else []) l) (with_inner f s)"
  by (auto simp: with_inner_def log_send_def exec_push attach_sel attach_def attach_chan_def intro!: exec_map_eqI)

lemma attach_log_recv:
  "with_inner (log_recv f got) (attach l s) =
     exec_map (relog (\<lambda>r. case got r of Some x \<Rightarrow> [Got x] | None \<Rightarrow> []) l) (with_inner f s)"
  by (auto simp: with_inner_def log_recv_def exec_push attach_sel attach_def attach_chan_def intro!: exec_map_eqI)

lemma attach_inner_ops [attach_simps]:
  "with_inner (\<lambda>q. fl_try_send (logged F) q x) (attach l s) =
     exec_map (relog (\<lambda>r. if r then [Sent x] else []) l) (with_inner (\<lambda>q. fl_try_send F q x) s)"
  "with_inner (\<lambda>q. fl_try_send_oneshot (logged F) q x) (attach l s) =
     exec_map (relog (\<lambda>r. if r = Some True then [Sent x] else []) l) (with_inner (\<lambda>q. fl_try_send_oneshot F q x) s)"
  "with_inner (fl_try_recv (logged F)) (attach l s) =
     exec_map (relog (\<lambda>r. case r of Some x \<Rightarrow> [Got x] | None \<Rightarrow> []) l) (with_inner (fl_try_recv F) s)"
  "with_inner (fl_try_recv_final (logged F)) (attach l s) =
     exec_map (relog (\<lambda>r. case r of Some x \<Rightarrow> [Got x] | None \<Rightarrow> []) l) (with_inner (fl_try_recv_final F) s)"
  by (simp_all add: logged_def attach_log_send attach_log_recv)

lemma attach_wake [attach_simps]:
  "on_send (attach l s) = exec_map (attach l) (on_send s)" "on_recv (attach l s) = exec_map (attach l) (on_recv s)"
  by (auto simp: on_send_def on_recv_def attach_simps exec_push intro!: exec_map_eqI)

lemma attach_abandon [attach_simps]:
  "abandon_send_waker a (attach l s) = exec_map (attach l) (abandon_send_waker a s)"
  "abandon_recv_waker a (attach l s) = exec_map (attach l) (abandon_recv_waker a s)"
  by (auto simp: abandon_send_waker_def abandon_recv_waker_def attach_simps exec_push
      intro!: exec_bind_eqI split: sum.split)

section \<open>Sending\<close>

lemma attach_tx_spin [attach_simps]:
  "tx_spin (logged F) fuel x b (attach l s) =
     exec_map (relog (\<lambda>r. if snd r then [Sent x] else []) l) (tx_spin F fuel x b s)"
  by (induction fuel arbitrary: b s)
    (auto simp: attach_simps exec_push intro!: exec_bind_eqI exec_map_eqI)

lemma attach_snooze [attach_simps]:
  "sender_snooze fuel k b (attach l s) = exec_map (\<lambda>(s', r). (attach l s', r)) (sender_snooze fuel k b s)"
proof -
  have "sender_snooze_loop fuel k b (attach l s) =
      exec_map (\<lambda>(s', r). (attach l s', r)) (sender_snooze_loop fuel k b s)" for b
    by (induction fuel arbitrary: b s) (auto simp: attach_simps exec_push Let_def intro!: exec_bind_eqI)
  then show ?thesis by (simp add: sender_snooze_def)
qed

lemma attach_tx_wait [attach_simps]:
  "tx_wait (logged F) fuel deadline k b state (attach l s) =
     exec_map (\<lambda>(s', r). (attach l s', r)) (tx_wait F fuel deadline k b state s)"
  by (induction fuel arbitrary: b state s)
    (auto simp: attach_simps exec_push Let_def intro!: exec_bind_eqI exec_map_eqI split: sum.split option.split)

text \<open>
  The double check answers \<open>W_Done\<close> exactly when it sent the item. This needs the wakers to be live: a waker
  in state \<open>W_Done\<close> would make a send that did nothing look finished.
\<close>

context lawful_flavor
begin

lemma attach_double_check:
  assumes "sys_ok inv ks kr T (Some a) s" "fl_bounded F"
  shows "sender_double_check (logged F) False x (Some a) (attach l s) =
    exec_map (relog (\<lambda>r. if snd r = W_Done then [Sent x] else []) l) (sender_double_check F False x (Some a) s)"
proof -
  have "(case res of
      Some True \<Rightarrow> exec_bind (exec_map (attach (l @ [Sent x])) (on_send (sched s1))) (\<lambda>s2.
        with_senders (\<lambda>w g. reg_cancel_reuse_waker w g (Some a) W_Done) (sched s2))
    | Some False \<Rightarrow> exec_map (\<lambda>(s2, state). let s3 = sched s2 in (s3, Some a, if is_rx_closed s3 then W_Closed else state))
        (with_senders (\<lambda>w g. exec_map (\<lambda>(w', st). (w', g, st)) (reg_commit_waiting w g (Some a))) (attach l (sched s1)))
    | None \<Rightarrow> with_senders (\<lambda>w g. reg_cancel_reuse_waker w g (Some a) W_Woken) (attach l (sched s1))) =
    exec_map (relog (\<lambda>r. if snd r = W_Done then [Sent x] else []) l) (case res of
      Some True \<Rightarrow> exec_bind (on_send (sched s1)) (\<lambda>s2.
        with_senders (\<lambda>w g. reg_cancel_reuse_waker w g (Some a) W_Done) (sched s2))
    | Some False \<Rightarrow> exec_map (\<lambda>(s2, state). let s3 = sched s2 in (s3, Some a, if is_rx_closed s3 then W_Closed else state))
        (with_senders (\<lambda>w g. exec_map (\<lambda>(w', st). (w', g, st)) (reg_commit_waiting w g (Some a))) (sched s1))
    | None \<Rightarrow> with_senders (\<lambda>w g. reg_cancel_reuse_waker w g (Some a) W_Woken) (sched s1))"
    if s1: "sys_ok inv ks kr T (Some a) s1" for s1 res
  proof -
    note ok = sys_ok_sched [OF s1]
    consider "res = Some True" | "res = Some False" | "res = None" by (cases res) auto
    then show ?thesis
    proof cases
      case 1
      then show ?thesis
        using cancel_reuse_safe [OF sys_ok_sched [OF safe_DoneD [OF on_send_safe [OF ok]]], of _ W_Done]
        by (auto simp: attach_simps exec_push intro!: exec_bind_eqI exec_map_eqI dest!: safe_DoneD)
    next
      case 2
      then show ?thesis
        using commit_senders_safe [OF ok]
        by (auto simp: attach_simps exec_push Let_def live_state_def intro!: exec_map_eqI dest!: safe_DoneD)
    next
      case 3
      then show ?thesis
        using cancel_reuse_safe [OF ok, of W_Woken]
        by (auto simp: attach_simps exec_push intro!: exec_map_eqI dest!: safe_DoneD)
    qed
  qed
  note step = this
  show ?thesis
    unfolding sender_double_check_def attach_simps exec_push
  proof (rule exec_bind_eqI, unfold split_paired_all relog_pair prod.case if_False)
    fix s1 res assume "with_inner (\<lambda>q. fl_try_send_oneshot F q x) s = Done (s1, res)"
    from safe_DoneD [OF try_send_oneshot_safe [OF assms, of x] this] have "sys_ok inv ks kr T (Some a) s1" by simp
    from step [OF this, of res] show "(case res of
        Some True \<Rightarrow> exec_bind (on_send (sched (attach (l @ (if res = Some True then [Sent x] else [])) s1))) (\<lambda>s2.
          with_senders (\<lambda>w g. reg_cancel_reuse_waker w g (Some a) W_Done) (sched s2))
      | Some False \<Rightarrow> exec_map (\<lambda>(s2, state). let s3 = sched s2 in (s3, Some a, if is_rx_closed s3 then W_Closed else state))
          (with_senders (\<lambda>w g. exec_map (\<lambda>(w', st). (w', g, st)) (reg_commit_waiting w g (Some a)))
            (sched (attach (l @ (if res = Some True then [Sent x] else [])) s1)))
      | None \<Rightarrow> with_senders (\<lambda>w g. reg_cancel_reuse_waker w g (Some a) W_Woken)
          (sched (attach (l @ (if res = Some True then [Sent x] else [])) s1))) =
      exec_map (relog (\<lambda>r. if snd r = W_Done then [Sent x] else []) l) (case res of
        Some True \<Rightarrow> exec_bind (on_send (sched s1)) (\<lambda>s2.
          with_senders (\<lambda>w g. reg_cancel_reuse_waker w g (Some a) W_Done) (sched s2))
      | Some False \<Rightarrow> exec_map (\<lambda>(s2, state). let s3 = sched s2 in (s3, Some a, if is_rx_closed s3 then W_Closed else state))
          (with_senders (\<lambda>w g. exec_map (\<lambda>(w', st). (w', g, st)) (reg_commit_waiting w g (Some a))) (sched s1))
      | None \<Rightarrow> with_senders (\<lambda>w g. reg_cancel_reuse_waker w g (Some a) W_Woken) (sched s1))"
      by (cases res; cases "the res") (simp_all add: attach_sched attach_wake)
  qed
qed

lemma attach_tx_main:
  assumes "sys_ok inv ks kr {Blocking thread} k s" "can_wait ks" "fl_bounded F" "unat (spin_limit (config b)) \<le> 31"
  shows "tx_main (logged F) fuel thread x deadline parked k b (attach l s) =
    exec_map (relog (\<lambda>r. if r = Inr () then [Sent x] else []) l) (tx_main F fuel thread x deadline parked k b s)"
  using assms(1,4)
proof (induction fuel arbitrary: parked k b s)
  case 0
  then show ?case by simp
next
  case (Suc fuel)
  have wait: "exec_bind (tx_wait (logged F) fuel deadline k1 b1 st (attach l s3)) (\<lambda>(s4, b2, waited).
      case waited of
        None \<Rightarrow> Done (drop_owner k1 s4, Inl (STTimeout x))
      | Some st \<Rightarrow>
          if st = W_Woken then tx_main (logged F) fuel thread x deadline True k1 (backoff_reset b2) s4
          else if st = W_Closed then Done (drop_owner k1 s4, Inl (STDisconnected x))
          else Fault Panic) =
    exec_map (relog (\<lambda>r. if r = Inr () then [Sent x] else []) l)
      (exec_bind (tx_wait F fuel deadline k1 b1 st s3) (\<lambda>(s4, b2, waited).
        case waited of
          None \<Rightarrow> Done (drop_owner k1 s4, Inl (STTimeout x))
        | Some st \<Rightarrow>
            if st = W_Woken then tx_main F fuel thread x deadline True k1 (backoff_reset b2) s4
            else if st = W_Closed then Done (drop_owner k1 s4, Inl (STDisconnected x))
            else Fault Panic))"
    if "sys_ok inv ks kr {Blocking thread} k1 s3" "live_state st" "st < W_Woken \<longrightarrow> k1 \<noteq> None"
      "unat (spin_limit (config b1)) \<le> 31" for k1 s3 st b1
    using Suc.IH
    by (auto simp: attach_simps exec_push backoff_reset_def split: option.split intro!: exec_bind_eqI
        dest!: safe_DoneD [OF tx_wait_safe [OF that(1) assms(2) that(4,2,3)]])
  show ?case
    unfolding tx_main.simps attach_simps exec_push
    apply (rule exec_bind_eqI)
    subgoal premises spin for r1
    proof -
      obtain s1 b1 sent where r1: "r1 = (s1, b1, sent)" by (cases r1)
      with spin safe_DoneD [OF tx_spin_safe [OF Suc.prems]]
      have s1: "sys_ok inv ks kr {Blocking thread} k s1" "unat (spin_limit (config b1)) \<le> 31" by auto
      show ?thesis
      proof (cases sent)
        case True
        with r1 show ?thesis by (simp add: attach_simps)
      next
        case False
        then have f: "sent = False" by simp
        show ?thesis
          unfolding r1 relog_pair prod.case snd_conv f if_False append_Nil2 attach_simps exec_push
          apply (rule exec_bind_eqI)
          subgoal premises reg for r2
          proof -
            from safe_DoneD [OF reg_waker_senders_safe [OF sys_ok_sched [OF s1(1)] assms(2)] reg]
            obtain s2 a where r2: "r2 = (s2, Some a)" "sys_ok inv ks kr {Blocking thread} (Some a) s2" by (cases r2) auto
            note dc = safe_DoneD [OF double_check_safe [OF sys_ok_sched [OF r2(2)] assms(3)]]
            show ?thesis
              unfolding r2(1) prod.case attach_simps attach_double_check [OF sys_ok_sched [OF r2(2)] assms(3)] exec_push
              by (rule exec_bind_eqI) (auto simp: attach_return_ok dest!: dc intro!: wait s1(2))
          qed
          done
      qed
    qed
    done
qed

lemma attach_send_bounded:
  assumes "sys_ok inv ks kr {Blocking thread} None s" "can_wait ks" "fl_bounded F"
  shows "send_bounded (logged F) fuel thread x deadline (attach l s) =
    exec_map (relog (\<lambda>r. if r = Inr () then [Sent x] else []) l) (send_bounded F fuel thread x deadline s)"
proof -
  let ?b = "backoff_from (ch_cfg (sy_chan s))"
  from adjust [OF sys_okD(2) [OF assms(1)], of ?b] obtain b where
    b: "fl_adjust_tx_backoff F (ch_inner (sy_chan s)) ?b = Done b"
      "spin_limit (config b) = spin_limit (config ?b) \<or> spin_limit (config b) = 6" by (auto simp: backoff_from_def)
  then have "unat (spin_limit (config b)) \<le> 31" using sys_okD(7) [OF assms(1)] by (auto simp: backoff_from_def)
  from attach_tx_main [OF assms this] b(1) show ?thesis by (simp add: send_bounded_def attach_simps)
qed

lemma attach_send_now:
  assumes "sys_ok inv ks kr T None s"
    and "\<And>s1. sys_ok inv ks kr T None s1 \<Longrightarrow>
      gl (attach l s1) = exec_map (relog (\<lambda>r. if r = Inr () then [Sent x] else []) l) (g s1)"
  shows "exec_bind (with_inner (\<lambda>q. fl_try_send (logged F) q x) (sched (attach l s))) (\<lambda>(s1, sent).
      if sent then exec_map (\<lambda>s2. (s2, Inr ())) (on_send (sched s1)) else gl s1) =
    exec_map (relog (\<lambda>r. if r = Inr () then [Sent x] else []) l)
      (exec_bind (with_inner (\<lambda>q. fl_try_send F q x) (sched s)) (\<lambda>(s1, sent).
        if sent then exec_map (\<lambda>s2. (s2, Inr ())) (on_send (sched s1)) else g s1))"
  unfolding attach_simps exec_push
  by (rule exec_bind_eqI)
    (auto simp: attach_simps exec_push assms(2) dest!: safe_DoneD [OF try_send_safe [OF sys_ok_sched [OF assms(1)]]])

lemma attach_tx_send:
  assumes "sys_ok inv ks kr {Blocking thread} None s" "can_wait ks" "fl_bounded F"
  shows "tx_send (logged F) fuel thread x (attach l s) =
    exec_map (relog (\<lambda>r. if r = Inr () then [Sent x] else []) l) (tx_send F fuel thread x s)"
proof (cases "is_rx_closed s")
  case True
  then show ?thesis by (simp add: tx_send_def attach_simps)
next
  case False
  have b: "fl_bounded F = True" using assms(3) by simp
  let ?f = "\<lambda>(s2, r). case r of
      Inr _ \<Rightarrow> Done (s2, Inr ())
    | Inl (STDisconnected e) \<Rightarrow> Done (s2, Inl (SendError e))
    | Inl (STTimeout _) \<Rightarrow> Fault Panic"
  have "exec_bind (send_bounded (logged F) fuel thread x None (attach l s1)) ?f =
      exec_map (relog (\<lambda>r. if r = Inr () then [Sent x] else []) l)
        (exec_bind (send_bounded F fuel thread x None s1) ?f)"
    if "sys_ok inv ks kr {Blocking thread} None s1" for s1
    unfolding attach_send_bounded [OF that assms(2,3)] exec_push
    by (rule exec_bind_eqI) (auto split: sum.split send_timeout_error.split)
  from attach_send_now [OF assms(1), of "\<lambda>s1. exec_bind (send_bounded (logged F) fuel thread x None s1) ?f" l x
      "\<lambda>s1. exec_bind (send_bounded F fuel thread x None s1) ?f", OF this] False
  show ?thesis unfolding tx_send_def attach_obs b if_True by simp
qed

lemma attach_tx_send_timeout:
  assumes "sys_ok inv ks kr {Blocking thread} None s" "can_wait ks" "fl_bounded F"
  shows "tx_send_timeout (logged F) m fuel thread x t (attach l s) =
    exec_map (relog (\<lambda>r. if r = Inr () then [Sent x] else []) l) (tx_send_timeout F m fuel thread x t s)"
proof (cases "is_rx_closed s")
  case True
  then show ?thesis by (simp add: tx_send_timeout_def attach_simps)
next
  case False
  let ?gl = "\<lambda>s1. case deadline_of m t s1 of
      Some e \<Rightarrow> send_bounded (logged F) fuel thread x (Some e) s1 | None \<Rightarrow> Done (s1, Inl (STTimeout x))"
  let ?g = "\<lambda>s1. case deadline_of m t s1 of
      Some e \<Rightarrow> send_bounded F fuel thread x (Some e) s1 | None \<Rightarrow> Done (s1, Inl (STTimeout x))"
  have "?gl (attach l s1) = exec_map (relog (\<lambda>r. if r = Inr () then [Sent x] else []) l) (?g s1)"
    if "sys_ok inv ks kr {Blocking thread} None s1" for s1
    using attach_send_bounded [OF that assms(2,3)] by (simp add: attach_obs split: option.split)
  from attach_send_now [OF assms(1), of ?gl l x ?g, OF this] False
  show ?thesis by (simp add: tx_send_timeout_def attach_obs)
qed

lemma attach_tx_try_send:
  assumes "sys_ok inv ks kr T None s"
  shows "tx_try_send (logged F) x (attach l s) =
    exec_map (relog (\<lambda>r. if r = Inr () then [Sent x] else []) l) (tx_try_send F x s)"
proof (cases "is_rx_closed s")
  case True
  then show ?thesis by (simp add: tx_try_send_def attach_simps)
next
  case False
  from attach_send_now [OF assms(1), of "\<lambda>s1. Done (s1, Inl (TSFull x))" l x "\<lambda>s1. Done (s1, Inl (TSFull x))"] False
  show ?thesis by (simp add: tx_try_send_def attach_obs)
qed

end

section \<open>Receiving\<close>

definition got_event :: "'a option \<Rightarrow> 'a qevent list" where
  "got_event r = (case r of Some x \<Rightarrow> [Got x] | None \<Rightarrow> [])"

definition got_result :: "'e + 'a \<Rightarrow> 'a qevent list" where
  "got_result r = (case r of Inr x \<Rightarrow> [Got x] | Inl _ \<Rightarrow> [])"

lemma got_simps [simp]:
  "got_event None = []" "got_event (Some x) = [Got x]" "got_result (Inl e) = []" "got_result (Inr x) = [Got x]"
  by (simp_all add: got_event_def got_result_def)

lemma attach_rx_spin [attach_simps]:
  "rx_spin (logged F) fuel b (attach l s) = exec_map (relog (\<lambda>r. got_event (snd r)) l) (rx_spin F fuel b s)"
  by (induction fuel arbitrary: b s)
    (auto simp: attach_simps exec_push intro!: exec_bind_eqI exec_map_eqI split: option.split)

lemma attach_rx_retry [attach_simps]:
  "rx_retry (logged F) fuel b (attach l s) = exec_map (relog (\<lambda>r. got_event (snd r)) l) (rx_retry F fuel b s)"
  by (induction fuel arbitrary: b s)
    (auto simp: attach_simps exec_push intro!: exec_bind_eqI exec_map_eqI split: option.split)

lemma attach_rx_wait [attach_simps]:
  "rx_wait fuel deadline k st (attach l s) = exec_map (\<lambda>(s', r). (attach l s', r)) (rx_wait fuel deadline k st s)"
  by (induction fuel arbitrary: st s)
    (auto simp: attach_simps exec_push Let_def intro!: exec_bind_eqI exec_map_eqI split: sum.split option.split)

lemma attach_rx_last [attach_simps]:
  "rx_last (logged F) k (attach l s) = exec_map (relog got_result l) (rx_last F k s)"
  by (auto simp: rx_last_def attach_simps exec_push intro!: exec_bind_eqI exec_map_eqI split: option.split)

lemma attach_rx_main [attach_simps]:
  "rx_main (logged F) fuel thread deadline k b (attach l s) =
     exec_map (relog got_result l) (rx_main F fuel thread deadline k b s)"
  by (induction fuel arbitrary: k b s)
    (auto simp: attach_simps exec_push Let_def intro!: exec_bind_eqI exec_map_eqI split: option.split)

lemma attach_recv_blocking:
  "recv_blocking (logged F) fuel thread deadline (attach l s) =
     exec_map (relog got_result l) (recv_blocking F fuel thread deadline s)"
  by (auto simp: recv_blocking_def attach_simps exec_push Let_def intro!: exec_bind_eqI exec_map_eqI
      split: option.split)

lemma attach_try_recv:
  "ch_try_recv (logged F) (attach l s) = exec_map (relog got_result l) (ch_try_recv F s)"
  by (auto simp: ch_try_recv_def attach_simps exec_push intro!: exec_bind_eqI exec_map_eqI split: option.split)

section \<open>The item comes back with the error\<close>

lemma tx_main_payload:
  "whenever (tx_main F fuel thread x deadline parked k b s)
     (\<lambda>(s', r). \<forall>e. r = Inl e \<longrightarrow> send_timeout_error_into_inner e = x)"
  by (induction fuel arbitrary: parked k b s) (auto intro!: whenever_bind split: option.split)

lemma send_bounded_payload:
  "whenever (send_bounded F fuel thread x deadline s)
     (\<lambda>(s', r). \<forall>e. r = Inl e \<longrightarrow> send_timeout_error_into_inner e = x)"
  by (auto simp: send_bounded_def intro!: whenever_bind tx_main_payload)

lemma tx_send_payload:
  "whenever (tx_send F fuel thread x s) (\<lambda>(s', r). \<forall>e. r = Inl e \<longrightarrow> send_error_into_inner e = x)"
  unfolding tx_send_def
  by (auto intro!: whenever_bind whenever_map split: sum.split send_timeout_error.split
      dest!: wheneverD [OF send_bounded_payload])

lemma tx_send_timeout_payload:
  "whenever (tx_send_timeout F m fuel thread x t s)
     (\<lambda>(s', r). \<forall>e. r = Inl e \<longrightarrow> send_timeout_error_into_inner e = x)"
  unfolding tx_send_timeout_def
  by (auto intro!: whenever_bind whenever_map send_bounded_payload split: option.split)

lemma tx_try_send_payload:
  "whenever (tx_try_send F x s) (\<lambda>(s', r). \<forall>e. r = Inl e \<longrightarrow> try_send_error_into_inner e = x)"
  unfolding tx_try_send_def by (auto intro!: whenever_bind whenever_map)

section \<open>Properties\<close>

text \<open>
  C30. Sending is exactly once. For any lawful bounded flavor and whatever polite other threads do meanwhile,
  a \<^verbatim>\<open>send\<close>, \<^verbatim>\<open>send_timeout\<close> or \<^verbatim>\<open>try_send\<close> that returned \<^verbatim>\<open>Ok\<close> has handed the item to the queue exactly once
  (through one of the three queue operations it may use, and however often it woke up and retried); one
  that returned an error has handed nothing to the queue and gives the item back in the error.
\<close>

theorem send_exactly_once:
  assumes "lawful_flavor F iv cont" "fl_bounded F" "can_wait ks" "sys_ok iv ks kr {Blocking thread} None s"
  shows "(tx_send F fuel thread x s = Done (s', r) \<longrightarrow>
      tx_send (logged F) fuel thread x (attach l s) = Done (attach (l @ (if r = Inr () then [Sent x] else [])) s', r) \<and>
      (\<forall>e. r = Inl e \<longrightarrow> send_error_into_inner e = x)) \<and>
    (tx_send_timeout F m fuel thread x t s = Done (s', rt) \<longrightarrow>
      tx_send_timeout (logged F) m fuel thread x t (attach l s) =
        Done (attach (l @ (if rt = Inr () then [Sent x] else [])) s', rt) \<and>
      (\<forall>e. rt = Inl e \<longrightarrow> send_timeout_error_into_inner e = x)) \<and>
    (tx_try_send F x s = Done (s', rn) \<longrightarrow>
      tx_try_send (logged F) x (attach l s) = Done (attach (l @ (if rn = Inr () then [Sent x] else [])) s', rn) \<and>
      (\<forall>e. rn = Inl e \<longrightarrow> try_send_error_into_inner e = x))"
  using lawful_flavor.attach_tx_send [OF assms(1,4,3,2), of fuel x l]
    lawful_flavor.attach_tx_send_timeout [OF assms(1,4,3,2), of m fuel x t l]
    lawful_flavor.attach_tx_try_send [OF assms(1,4), of x l]
    tx_send_payload [of F fuel thread x s] tx_send_timeout_payload [of F m fuel thread x t s]
    tx_try_send_payload [of F x s]
  by (simp add: whenever_def)

theorem send_exactly_once_witness:
  "\<exists>q s'. array_new 2 = Done q \<and>
    tx_send (logged (array_flavor [])) 10 7 (5 :: nat) (attach [] (fresh_sys (array_flavor [])
      (detect_backoff_cfg (Some 8) backoff_globals_init) q (RegMulti multi_new) (RegMulti multi_new) 0 [])) =
      Done (attach [Sent 5] s', Inr ())"
proof -
  obtain q :: "nat array_queue" where q: "array_new 2 = Done q" "aq_inv q" "aq_content q = []" "aq_capacity q = 2"
    using aq_new_inv [of 2] by (force simp: array_new_def aq_cap_def)
  let ?s = "fresh_sys (array_flavor []) (detect_backoff_cfg (Some 8) backoff_globals_init) q
    (RegMulti multi_new) (RegMulti multi_new) 0 []"
  have ok: "sys_ok aq_inv KMulti KMulti {Blocking 7} None ?s"
    using fresh_sys_ok [of aq_inv q "RegMulti multi_new" "RegMulti multi_new" "[]" "{Blocking 7}"] q(2) by simp
  have "has_room (aq_cap q) (aq_content q)" using q by (simp add: has_room_def aq_cap_def)
  from aqi.push_accept [OF q(2) this, of "[]" 5] obtain q' where
    "fl_try_send (array_flavor []) q 5 = Done (q', True)" by (auto simp: array_flavor_simps)
  then have "\<exists>s'. tx_send (array_flavor []) 10 7 5 ?s = Done (s', Inr ())"
    by (simp add: tx_send_def is_rx_closed_def fresh_sys_def channel_new_def sched_def with_inner_def on_send_def
        with_recvs_def multi_fire_def multi_pop_first_def multi_new_def MULTI_EMPTY_def)
  then obtain s' where "tx_send (array_flavor []) 10 7 5 ?s = Done (s', Inr ())" by blast
  with send_exactly_once [where fuel = 10 and x = 5 and s' = s' and r = "Inr ()" and l = "[]",
      OF arrf.lawful_flavor_axioms _ _ ok] q(1) show ?thesis
    by (auto simp: array_flavor_simps can_wait_def)
qed

text \<open>
  C31. Receiving is exactly once: whatever the other threads do meanwhile, a \<^verbatim>\<open>recv\<close>, \<^verbatim>\<open>recv_timeout\<close> or
  \<^verbatim>\<open>try_recv\<close> that returns an item has taken exactly this one item out of the queue, and one that returns
  an error has taken nothing.
\<close>

theorem recv_exactly_once:
  "recv_blocking (logged F) fuel thread deadline (attach l s) =
     exec_map (\<lambda>(s', r). (attach (l @ (case r of Inr x \<Rightarrow> [Got x] | Inl _ \<Rightarrow> [])) s', r))
       (recv_blocking F fuel thread deadline s) \<and>
   rx_recv (logged F) fuel thread (attach l s) =
     exec_map (\<lambda>(s', r). (attach (l @ (case r of Inr x \<Rightarrow> [Got x] | Inl _ \<Rightarrow> [])) s', r)) (rx_recv F fuel thread s) \<and>
   rx_try_recv (logged F) (attach l s) =
     exec_map (\<lambda>(s', r). (attach (l @ (case r of Inr x \<Rightarrow> [Got x] | Inl _ \<Rightarrow> [])) s', r)) (rx_try_recv F s)"
proof -
  have relog_eq: "(\<lambda>(s', r). (attach (l @ (case r of Inr x \<Rightarrow> [Got x] | Inl _ \<Rightarrow> [])) s', r)) = relog got_result l"
    by (auto simp: fun_eq_iff got_result_def)
  have "rx_recv (logged F) fuel thread (attach l s) = exec_map (relog got_result l) (rx_recv F fuel thread s)"
    by (auto simp: rx_recv_def attach_recv_blocking exec_push intro!: exec_bind_eqI
        split: sum.split recv_timeout_error.split)
  then show ?thesis
    unfolding relog_eq by (simp add: attach_recv_blocking attach_try_recv rx_try_recv_def)
qed

end
