(* ===== verification/Channel_Timeout.thy ===== *)
theory Channel_Timeout
  imports Channel_Safety
begin

text \<open>
  A timed send returns. The clock advances with every turn of the other threads; each round of the waiting
  loop uses up one turn, or finds the deadline passed and ends the call. Between two turns the spinning is
  bounded by the backoff limit.
\<close>

section \<open>Time\<close>

definition late :: "nat option \<Rightarrow> 'q sys \<Rightarrow> bool" where
  "late deadline s \<longleftrightarrow> (\<forall>e. deadline = Some e \<longrightarrow> e \<le> sy_now s + length (sy_env s) \<and>
     (\<forall>f \<in> set (sy_env s). \<forall>st. snd (snd st) < snd (snd (f st))))"

definition same_time :: "'q sys \<Rightarrow> 'q sys \<Rightarrow> bool" where
  "same_time s s' \<longleftrightarrow> sy_now s' = sy_now s \<and> sy_env s' = sy_env s"

lemma late_same_time: "late e s \<Longrightarrow> same_time s s' \<Longrightarrow> late e s'"
  by (simp add: late_def same_time_def)

lemma late_sched:
  assumes "late e s"
  shows "late e (sched s)"
proof (cases "sy_env s")
  case Nil
  with assms show ?thesis by (simp add: sched_def)
next
  case (Cons f fs)
  have "\<forall>d. e = Some d \<longrightarrow> snd (snd (sy_world s, sy_chan s, sy_now s)) < snd (snd (f (sy_world s, sy_chan s, sy_now s)))"
    using assms Cons unfolding late_def by (metis list.set_intros(1))
  with assms Cons show ?thesis
    by (cases "f (sy_world s, sy_chan s, sy_now s)") (auto simp: sched_def late_def)
qed

lemma sched_env: "sy_env (sched s) = tl (sy_env s)"
  by (simp add: sched_def split: list.split prod.split)

lemma late_timeout: "late (Some e) s \<Longrightarrow> sy_env s = [] \<Longrightarrow> check_timeout (Some e) s = Inl ()"
  by (simp add: late_def check_timeout_def)

section \<open>Single steps return\<close>

lemma with_senders_total:
  assumes "safe (with_senders f s) Q" "f (sy_world s) (ch_senders (sy_chan s)) \<noteq> Spin"
  shows "total (with_senders f s) (\<lambda>x. Q x \<and> same_time s (fst x) \<and> ch_inner (sy_chan (fst x)) = ch_inner (sy_chan s))"
  using assms
  by (cases "f (sy_world s) (ch_senders (sy_chan s))") (auto simp: with_senders_def same_time_def split: prod.splits)

lemma with_recvs_total:
  assumes "safe (with_recvs f s) Q" "f (sy_world s) (ch_recvs (sy_chan s)) \<noteq> Spin"
  shows "total (with_recvs f s) (\<lambda>x. Q x \<and> same_time s (fst x) \<and> ch_inner (sy_chan (fst x)) = ch_inner (sy_chan s))"
  using assms
  by (cases "f (sy_world s) (ch_recvs (sy_chan s))") (auto simp: with_recvs_def same_time_def split: prod.splits)

lemma with_inner_total:
  assumes "safe (with_inner f s) Q" "f (ch_inner (sy_chan s)) \<noteq> Spin"
  shows "total (with_inner f s) (\<lambda>x. Q x \<and> same_time s (fst x))"
  using assms by (cases "f (ch_inner (sy_chan s))") (auto simp: with_inner_def same_time_def split: prod.splits)

lemma fire_total:
  assumes "sys_ok iv ks kr T k s"
  shows "total (on_send s) (\<lambda>s'. sys_ok iv ks kr T k s' \<and> same_time s s')"
    and "total (on_recv s) (\<lambda>s'. sys_ok iv ks kr T k s' \<and> same_time s s')"
proof -
  have "safe (with_recvs reg_fire s) (\<lambda>x. sys_ok iv ks kr T k (fst x))"
    using on_send_safe [OF assms] by (simp add: on_send_def safe_map)
  from with_recvs_total [OF this] reg_fire_safe [OF sys_okD(1,4) [OF assms]]
  show "total (on_send s) (\<lambda>s'. sys_ok iv ks kr T k s' \<and> same_time s s')"
    by (auto simp: on_send_def total_map elim!: total_mono)
  have "safe (with_senders reg_fire s) (\<lambda>x. sys_ok iv ks kr T k (fst x))"
    using on_recv_safe [OF assms] by (simp add: on_recv_def safe_map)
  from with_senders_total [OF this] reg_fire_safe [OF sys_okD(1,3) [OF assms]]
  show "total (on_recv s) (\<lambda>s'. sys_ok iv ks kr T k s' \<and> same_time s s')"
    by (auto simp: on_recv_def total_map elim!: total_mono)
qed

lemma snooze_total:
  assumes "unat (spin_limit (config b)) \<le> 31"
  shows "total (backoff_snooze b) (\<lambda>(b', _, completed). config b' = config b \<and>
    (if unat (step b) < unat (limit (config b)) then \<not> completed \<and> unat (step b') = Suc (unat (step b)) else completed))"
  using assms unat_Suc_less [of "step b" "limit (config b)"] by (simp add: snooze_step word_less_nat_alt)

section \<open>Loops return\<close>

text \<open>
  \<open>waits e n\<close>: a well-formed system that passes the deadline \<open>e\<close>, if there is one, within at most \<open>n\<close> turns of
  the others, the last ones to come. \<open>calm\<close>: the thread's waker has not been woken.
\<close>

definition waits :: "('q \<Rightarrow> bool) \<Rightarrow> reg_kind \<Rightarrow> reg_kind \<Rightarrow> thin_waker set \<Rightarrow> nat option \<Rightarrow> nat \<Rightarrow> nat option \<Rightarrow> 'q sys \<Rightarrow> bool" where
  "waits iv ks kr T e n k s \<longleftrightarrow> sys_ok iv ks kr T k s \<and> late e s \<and> length (sy_env s) \<le> n"

definition calm :: "nat \<Rightarrow> 'q sys \<Rightarrow> bool" where
  "calm a s \<longleftrightarrow> (\<exists>st. reg_get_waker_state (sy_world s) (ch_senders (sy_chan s)) (Some a) = Done st \<and> st < W_Woken)"

lemma waits_sched: "waits iv ks kr T e n k s \<Longrightarrow> waits iv ks kr T e n k (sched s)"
  by (auto simp: waits_def late_sched sched_env)

lemma waits_step:
  "waits iv ks kr T e n k s \<Longrightarrow> sys_ok iv ks kr T k' s' \<Longrightarrow> same_time s s' \<Longrightarrow> waits iv ks kr T e n k' s'"
  by (auto simp: waits_def late_same_time) (simp add: same_time_def)

lemma waits_ok: "waits iv ks kr T e n k s \<Longrightarrow> sys_ok iv ks kr T k s"
  by (simp add: waits_def)

lemma waits_quiet: "waits iv ks kr T e 0 k s \<Longrightarrow> sched s = s"
  by (simp add: waits_def sched_quiet)

lemma fire_waits:
  assumes "waits iv ks kr T e n k s"
  shows "total (on_send s) (waits iv ks kr T e n k)" "total (on_recv s) (waits iv ks kr T e n k)"
  using fire_total [OF waits_ok [OF assms]] waits_step [OF assms] by (auto elim!: total_mono)

lemma sender_snooze_total:
  assumes "waits iv ks kr T e n (Some a) s" "can_wait ks" "unat (spin_limit (config b)) \<le> 31"
    and "unat (limit (config b)) < fuel"
  shows "total (sender_snooze fuel (Some a) b s) (\<lambda>(s', b', st). waits iv ks kr T e n (Some a) s' \<and>
    config b' = config b \<and> live_state st \<and> (n = 0 \<and> calm a s \<longrightarrow> s' = s \<and> st < W_Woken))"
proof -
  have "total (sender_snooze_loop fuel (Some a) b s) (\<lambda>(s', b', st). waits iv ks kr T e n (Some a) s' \<and>
      config b' = config b \<and> live_state st \<and> (n = 0 \<and> calm a s \<longrightarrow> s' = s \<and> st < W_Woken))"
    if "waits iv ks kr T e n (Some a) s" "unat (spin_limit (config b)) \<le> 31"
      "unat (limit (config b)) - unat (step b) < fuel" for s b fuel
    using that
  proof (induction fuel arbitrary: s b)
    case 0
    then show ?case by simp
  next
    case (Suc fuel)
    note w = waits_sched [OF Suc.prems(1)]
    from get_state_senders_safe [OF waits_ok [OF w] assms(2)] obtain st where
      st: "reg_get_waker_state (sy_world (sched s)) (ch_senders (sy_chan (sched s))) (Some a) = Done st" "live_state st"
      by auto
    have calm: "n = 0 \<and> calm a s \<longrightarrow> sched s = s \<and> st < W_Woken"
      using st(1) waits_quiet [of iv ks kr T e "Some a" s] Suc.prems(1) by (auto simp: calm_def)
    show ?case
    proof (cases "W_Woken \<le> st")
      case True
      with st w calm show ?thesis by (auto simp: Let_def)
    next
      case False
      have "total (if completed then Done (sched s, b', st) else sender_snooze_loop fuel (Some a) b' (sched s))
          (\<lambda>(s', b', st). waits iv ks kr T e n (Some a) s' \<and> config b' = config b \<and> live_state st \<and>
            (n = 0 \<and> calm a s \<longrightarrow> s' = s \<and> st < W_Woken))"
        if b': "config b' = config b"
          "if unat (step b) < unat (limit (config b)) then \<not> completed \<and> unat (step b') = Suc (unat (step b)) else completed"
        for b' completed
      proof (cases completed)
        case True
        with w b' st calm show ?thesis by auto
      next
        case False
        with b' Suc.prems(3) have "unat (limit (config b')) - unat (step b') < fuel" by (auto split: if_splits)
        from Suc.IH [OF w _ this] b' Suc.prems(2) False calm show ?thesis by (auto elim!: total_mono)
      qed
      with False st show ?thesis
        by (auto simp: Let_def intro!: total_bind [OF snooze_total [OF Suc.prems(2)]])
    qed
  qed
  from this [OF assms(1), of "backoff_reset b" fuel] assms(3,4) show ?thesis
    by (simp add: sender_snooze_def backoff_reset_def)
qed

lemma waits_sched1: "waits iv ks kr T e n k s \<Longrightarrow> waits iv ks kr T e (n - 1) k (sched s)"
  by (auto simp: waits_def late_sched sched_env)

lemma waits_mono: "waits iv ks kr T e n k s \<Longrightarrow> n \<le> n' \<Longrightarrow> waits iv ks kr T e n' k s"
  by (simp add: waits_def)

lemma reg_waker_total:
  assumes "waits iv ks kr {Blocking thread} e n k s" "can_wait ks"
  shows "total (with_senders (\<lambda>w g. reg_reg_waker_blocking w g thread k) s)
    (\<lambda>(s', k'). \<exists>a. k' = Some a \<and> waits iv ks kr {Blocking thread} e n (Some a) s' \<and> calm a s' \<and>
      ch_inner (sy_chan s') = ch_inner (sy_chan s))"
proof -
  note ok = waits_ok [OF assms(1)]
  let ?g = "ch_senders (sy_chan s)"
  have kd: "kind_of ?g = KSingle \<or> kind_of ?g = KMulti" using assms(2) sys_okD(5) [OF ok] by (simp add: can_wait_def)
  from reg_waker_blocking_safe [OF sys_okD(1,3) [OF ok] kd sys_okD(8) [OF ok]] obtain w' g' a where
    r: "reg_reg_waker_blocking (sy_world s) ?g thread k = Done (w', g', Some a)"
      "map_option w_state (upgrade w' a) = Some W_Init" "kind_of g' = kind_of ?g" by blast
  have single: "g' = RegSingle (Some a)" if "kind_of ?g = KSingle"
    using that r(1) by (cases ?g) (auto simp: single_reg_waker_blocking_def weak_cell_replace_def split: prod.splits)
  have calm: "reg_get_waker_state w' g' (Some a) = Done W_Init"
  proof (cases g')
    case (RegSingle c)
    with single r(3) show ?thesis by (simp add: single_get_waker_state_def weak_cell_is_empty_def)
  next
    case (RegMulti m)
    with r(2) show ?thesis by (auto simp: multi_get_waker_state_def w_get_state_def)
  qed (use kd r(3) in auto)
  from with_senders_total [OF reg_waker_senders_safe [OF ok assms(2)]] r(1) show ?thesis
    using calm waits_step [OF assms(1)]
    by (auto simp: total_def with_senders_def calm_def)
qed

lemma commit_total:
  assumes "waits iv ks kr T e n (Some a) s" "can_wait ks"
  shows "total (with_senders (\<lambda>w g. exec_map (\<lambda>(w', st). (w', g, st)) (reg_commit_waiting w g (Some a))) s)
    (\<lambda>(s', st). waits iv ks kr T e n (Some a) s' \<and> live_state st \<and> (calm a s \<longrightarrow> st < W_Woken \<and> calm a s'))"
proof -
  note ok = waits_ok [OF assms(1)]
  let ?g = "ch_senders (sy_chan s)"
  have kd: "kind_of ?g = KSingle \<or> kind_of ?g = KMulti" using assms(2) sys_okD(5) [OF ok] by (simp add: can_wait_def)
  from reg_commit_waiting_safe [OF sys_okD(1,8) [OF ok], of ?g] obtain w' st where
    r: "reg_commit_waiting (sy_world s) ?g (Some a) = Done (w', st)" by blast
  from owns_alive [OF sys_okD(8) [OF ok]] obtain y where y: "upgrade (sy_world s) a = Some y" by auto
  have calm: "st < W_Woken \<and> (\<exists>st'. reg_get_waker_state w' ?g (Some a) = Done st' \<and> st' < W_Woken)" if "calm a s"
    using that r kd y world_ok_state [OF sys_okD(1) [OF ok] y]
    by (cases ?g) (auto simp: calm_def multi_commit_waiting_def w_commit_waiting_def w_try_change_state_def cas_def
        multi_get_waker_state_def w_get_state_def split: prod.splits)
  have "total (with_senders (\<lambda>w g. exec_map (\<lambda>(w', st). (w', g, st)) (reg_commit_waiting w g (Some a))) s)
      (\<lambda>x. (case x of (s', st) \<Rightarrow> sys_ok iv ks kr T (Some a) s' \<and> live_state st) \<and> same_time s (fst x) \<and>
        ch_inner (sy_chan (fst x)) = ch_inner (sy_chan s))"
    by (rule with_senders_total [OF commit_senders_safe [OF ok]]) (simp add: r)
  with r calm waits_step [OF assms(1)] show ?thesis by (auto simp: total_def with_senders_def calm_def)
qed

lemma cancel_reuse_total:
  assumes "waits iv ks kr T e n (Some a) s" "st = W_Woken \<or> st = W_Done"
  shows "total (with_senders (\<lambda>w g. reg_cancel_reuse_waker w g (Some a) st) s)
    (\<lambda>(s', k', st'). waits iv ks kr T e n k' s' \<and> (st = W_Done \<longrightarrow> st' = W_Done) \<and>
      (st = W_Woken \<longrightarrow> st' = W_Woken \<or> st' = W_Closed))"
proof -
  note ok = waits_ok [OF assms(1)]
  from reg_cancel_reuse_waker_safe [OF sys_okD(1,3,8) [OF ok] assms(2)]
  have "reg_cancel_reuse_waker (sy_world s) (ch_senders (sy_chan s)) (Some a) st \<noteq> Spin" by force
  from with_senders_total [OF cancel_reuse_safe [OF ok assms(2)] this] show ?thesis
    by (auto elim!: total_mono intro: waits_step [OF assms(1)])
qed

lemma abandon_total:
  assumes "waits iv ks kr T e n (Some a) s"
  shows "total (abandon_send_waker a s) (waits iv ks kr T e n (Some a))"
  unfolding abandon_send_waker_def
proof (rule total_bind)
  note ok = waits_ok [OF assms]
  have "safe (with_senders (\<lambda>w g. reg_abandon_waker w g a) s)
      (\<lambda>(s', r). sys_ok iv ks kr T (Some a) s' \<and> (\<forall>st. r = Inl st \<longrightarrow> st = W_Woken \<or> st = W_Closed))"
    using safe_senders [OF ok, of "\<lambda>w g. reg_abandon_waker w g a" "\<lambda>_. Some a"
        "\<lambda>r. \<forall>st. r = Inl st \<longrightarrow> st = W_Woken \<or> st = W_Closed"]
      reg_abandon_waker_safe [OF sys_okD(1,3,8) [OF ok]] sys_okD(5,8) [OF ok] keeps_keeps_others keeps_owns by blast
  from with_senders_total [OF this] reg_abandon_waker_safe [OF sys_okD(1,3,8) [OF ok]]
  show "total (with_senders (\<lambda>w g. reg_abandon_waker w g a) s)
      (\<lambda>(s', r). waits iv ks kr T e n (Some a) s' \<and> (\<forall>st. r = Inl st \<longrightarrow> st = W_Woken \<or> st = W_Closed))"
    by (auto elim!: total_mono intro!: waits_step [OF assms])
qed (auto split: sum.splits intro!: fire_waits(2) waits_sched)

context lawful_flavor
begin

lemma try_send_total:
  assumes "waits inv ks kr T e n k s" "fl_bounded F"
  shows "total (with_inner (\<lambda>q. fl_try_send F q x) s) (\<lambda>(s', sent). waits inv ks kr T e n k s' \<and>
    (\<not> sent \<longrightarrow> \<not> has_room (fl_capacity F (ch_inner (sy_chan s'))) (content (ch_inner (sy_chan s')))))"
proof -
  note ok = waits_ok [OF assms(1)]
  from bounded_push_step [OF sys_okD(2) [OF ok] assms(2), of x] obtain q b where
    q: "fl_try_send F (ch_inner (sy_chan s)) x = Done (q, b)" "fl_capacity F q = fl_capacity F (ch_inner (sy_chan s))"
      "spec_step (fl_capacity F (ch_inner (sy_chan s))) (content (ch_inner (sy_chan s))) (Push x) = (content q, Pushed b)"
    by blast
  have "total (with_inner (\<lambda>q. fl_try_send F q x) s)
      (\<lambda>y. (case y of (s', _) \<Rightarrow> sys_ok inv ks kr T k s') \<and> same_time s (fst y))"
    by (rule with_inner_total [OF try_send_safe [OF ok]]) (simp add: q)
  then show ?thesis using q waits_step [OF assms(1)]
    by (auto simp: total_def with_inner_def split: if_splits)
qed

lemma oneshot_total:
  assumes "waits inv ks kr T e n k s" "fl_bounded F"
  shows "total (with_inner (\<lambda>q. fl_try_send_oneshot F q x) s) (\<lambda>(s', r). waits inv ks kr T e n k s' \<and>
    sy_world s' = sy_world s \<and> ch_senders (sy_chan s') = ch_senders (sy_chan s) \<and>
    (\<not> has_room (fl_capacity F (ch_inner (sy_chan s))) (content (ch_inner (sy_chan s))) \<longrightarrow> r = Some False))"
proof -
  note ok = waits_ok [OF assms(1)]
  from oneshot [OF sys_okD(2) [OF ok] assms(2), of x] obtain q r where
    q: "fl_try_send_oneshot F (ch_inner (sy_chan s)) x = Done (q, r)"
      "\<not> has_room (fl_capacity F (ch_inner (sy_chan s))) (content (ch_inner (sy_chan s))) \<longrightarrow> r = Some False"
    by (auto split: option.splits bool.splits)
  have "total (with_inner (\<lambda>q. fl_try_send_oneshot F q x) s)
      (\<lambda>y. (case y of (s', _) \<Rightarrow> sys_ok inv ks kr T k s') \<and> same_time s (fst y))"
    by (rule with_inner_total [OF try_send_oneshot_safe [OF ok assms(2)]]) (simp add: q)
  then show ?thesis using q waits_step [OF assms(1)] by (auto simp: total_def with_inner_def)
qed

lemma tx_spin_total:
  assumes "waits inv ks kr T e n k s" "unat (spin_limit (config b)) \<le> 31"
    and "unat (limit (config b)) - unat (step b) < fuel" "fl_bounded F"
  shows "total (tx_spin F fuel x b s) (\<lambda>(s', b', sent). waits inv ks kr T e (n - 1) k s' \<and> config b' = config b \<and>
    (\<not> sent \<longrightarrow> \<not> has_room (fl_capacity F (ch_inner (sy_chan s'))) (content (ch_inner (sy_chan s')))))"
  using assms
proof (induction fuel arbitrary: n b s)
  case 0
  then show ?case by simp
next
  case (Suc fuel)
  define Q where "Q = (\<lambda>(s' :: 'q sys, b' :: backoff, sent). waits inv ks kr T e (n - 1) k s' \<and> config b' = config b \<and>
    (\<not> sent \<longrightarrow> \<not> has_room (fl_capacity F (ch_inner (sy_chan s'))) (content (ch_inner (sy_chan s')))))"
  have again: "total (exec_bind (backoff_snooze b) (\<lambda>(b', _). tx_spin F fuel x b' s1)) Q"
    if s1: "waits inv ks kr T e (n - 1) k s1" "\<not> backoff_is_completed b" for s1
  proof (rule total_bind [OF snooze_total [OF Suc.prems(2)]], clarify)
    fix b' :: backoff and p completed
    assume b': "config b' = config b" "if unat (step b) < unat (limit (config b))
      then \<not> completed \<and> unat (step b') = Suc (unat (step b)) else completed"
    from s1(2) have "unat (step b) < unat (limit (config b))" by (simp add: backoff_is_completed_def word_le_nat_alt)
    with b' Suc.prems(3) have "unat (limit (config b')) - unat (step b') < fuel" by auto
    from Suc.IH [OF s1(1) _ this Suc.prems(4)] b'(1) Suc.prems(2) show "total (tx_spin F fuel x b' s1) Q"
      by (auto simp: Q_def elim!: total_mono intro: waits_mono)
  qed
  have sent: "total (exec_map (\<lambda>s2. (s2, b, True)) (on_send (sched s1))) Q"
    if "waits inv ks kr T e (n - 1) k s1" for s1
    using fire_waits(1) [OF waits_sched [OF that]] by (simp add: total_map Q_def)
  have "total (tx_spin F (Suc fuel) x b s) Q"
    unfolding tx_spin.simps
    by (rule total_bind [OF try_send_total [OF waits_sched1 [OF Suc.prems(1)] Suc.prems(4)]])
      (auto simp del: One_nat_def intro!: again sent, simp add: Q_def)
  then show ?case by (simp add: Q_def)
qed

lemma double_check_total:
  assumes "waits inv ks kr T e n (Some a) s" "fl_bounded F" "can_wait ks"
  shows "total (sender_double_check F sink x (Some a) s) (\<lambda>(s', k', st). waits inv ks kr T e n k' s' \<and>
    (st = W_Done \<or> live_state st \<and> (st < W_Woken \<longrightarrow> k' \<noteq> None)) \<and>
    (n = 0 \<and> calm a s \<and> \<not> has_room (fl_capacity F (ch_inner (sy_chan s))) (content (ch_inner (sy_chan s))) \<longrightarrow>
      st = W_Closed \<or> st < W_Woken \<and> k' = Some a \<and> calm a s'))"
    (is "total _ ?Q")
proof -
  have live: "live_state W_Closed" "live_state W_Woken" by (simp_all add: live_state_def)
  have "total (case res of
      Some True \<Rightarrow> exec_bind (on_send (sched s1)) (\<lambda>s2.
        with_senders (\<lambda>w g. reg_cancel_reuse_waker w g (Some a) W_Done) (sched s2))
    | Some False \<Rightarrow> exec_map (\<lambda>(s2, state). let s3 = sched s2 in (s3, Some a, if is_rx_closed s3 then W_Closed else state))
        (if sink then Done (s1, W_Init)
         else with_senders (\<lambda>w g. exec_map (\<lambda>(w', st). (w', g, st)) (reg_commit_waiting w g (Some a))) (sched s1))
    | None \<Rightarrow> with_senders (\<lambda>w g. reg_cancel_reuse_waker w g (Some a) W_Woken) (sched s1)) ?Q"
    if s1: "waits inv ks kr T e n (Some a) s1" "sy_world s1 = sy_world s" "ch_senders (sy_chan s1) = ch_senders (sy_chan s)"
      "\<not> has_room (fl_capacity F (ch_inner (sy_chan s))) (content (ch_inner (sy_chan s))) \<longrightarrow> res = Some False" for s1 res
  proof -
    have calm: "calm a s1 = calm a s" by (simp add: calm_def s1(2,3))
    consider "res = Some True" | "res = Some False" | "res = None" by (cases res) auto
    then show ?thesis
    proof cases
      case 1
      with s1(4) show ?thesis unfolding 1 option.case bool.case
        by (auto intro!: total_bind [OF fire_waits(1) [OF waits_sched [OF s1(1)]]]
            total_mono [OF cancel_reuse_total [OF waits_sched]])
    next
      case 2
      have "total (with_senders (\<lambda>w g. exec_map (\<lambda>(w', st). (w', g, st)) (reg_commit_waiting w g (Some a))) (sched s1))
          (\<lambda>(s2, st). waits inv ks kr T e n (Some a) s2 \<and> live_state st \<and>
            (n = 0 \<and> calm a s \<longrightarrow> st < W_Woken \<and> calm a s2))"
        by (rule total_mono [OF commit_total [OF waits_sched [OF s1(1)] assms(3)]])
          (use waits_quiet [of inv ks kr T e "Some a" s1] s1(1) calm in auto)
      then have "total (if sink then Done (s1, W_Init)
          else with_senders (\<lambda>w g. exec_map (\<lambda>(w', st). (w', g, st)) (reg_commit_waiting w g (Some a))) (sched s1))
          (\<lambda>(s2, st). waits inv ks kr T e n (Some a) s2 \<and> live_state st \<and>
            (n = 0 \<and> calm a s \<longrightarrow> st < W_Woken \<and> calm a s2))"
        using s1(1) calm by (cases sink) (simp_all add: live_state_def waker_states)
      then show ?thesis unfolding 2 option.case bool.case
        by (auto simp: total_map Let_def live sched_quiet waits_quiet intro!: waits_sched elim!: total_mono)
    next
      case 3
      with s1(4) show ?thesis unfolding 3 option.case
        by (auto intro!: total_mono [OF cancel_reuse_total [OF waits_sched [OF s1(1)]]] simp: live)
    qed
  qed
  then show ?thesis unfolding sender_double_check_def
    by (intro total_bind [OF oneshot_total [OF assms(1,2)]]) (auto simp only: split_paired_all prod.case)
qed

lemma tx_wait_total:
  assumes "waits inv ks kr T (Some e) n k s" "can_wait ks" "unat (spin_limit (config b)) \<le> 31"
    and "live_state st" "st < W_Woken \<longrightarrow> k \<noteq> None" "unat (limit (config b)) + n + 2 < fuel"
  shows "total (tx_wait F fuel (Some e) k b st s) (\<lambda>(s', b', r). waits inv ks kr T (Some e) n k s' \<and>
    config b' = config b \<and> (\<forall>st'. r = Some st' \<longrightarrow> st' = W_Woken \<or> st' = W_Closed) \<and>
    (\<not> st < W_Woken \<longrightarrow> r = Some st) \<and>
    (n = 0 \<and> st < W_Woken \<and> (\<forall>a. k = Some a \<longrightarrow> calm a s) \<longrightarrow> r = None))"
  using assms(1,3-)
proof (induction fuel arbitrary: n b st s)
  case 0
  then show ?case by simp
next
  case (Suc f)
  define Q where "Q = (\<lambda>(s' :: 'q sys, b' :: backoff, r). waits inv ks kr T (Some e) n k s' \<and>
    config b' = config b \<and> (\<forall>st'. r = Some st' \<longrightarrow> st' = W_Woken \<or> st' = W_Closed) \<and>
    (\<not> st < W_Woken \<longrightarrow> r = Some st) \<and>
    (n = 0 \<and> st < W_Woken \<and> (\<forall>a. k = Some a \<longrightarrow> calm a s) \<longrightarrow> r = None))"
  have "total (tx_wait F (Suc f) (Some e) k b st s) Q"
  proof (cases "W_Woken \<le> st")
    case True
    with Suc.prems show ?thesis by (auto simp: live_state_def Q_def)
  next
    case False
    then have st: "st < W_Woken" by simp
    with Suc.prems(4) obtain a where k: "k = Some a" by auto
    note w = waits_sched [OF Suc.prems(1), unfolded k]
    let ?m = "if might_congest F (sched s) then sender_snooze f (Some a) b (sched s) else Done (sched s, b, st)"
    have "unat (limit (config b)) < f" using Suc.prems(5) by simp
    from sender_snooze_total [OF w assms(2) Suc.prems(2) this]
    have snz: "total ?m (\<lambda>(s', b', st'). waits inv ks kr T (Some e) n (Some a) s' \<and> config b' = config b \<and>
        live_state st' \<and> (n = 0 \<and> calm a s \<longrightarrow> st' < W_Woken))"
      using w Suc.prems(1,3) st waits_quiet [of inv ks kr T "Some e" k s] k by (auto elim!: total_mono)
    have "total (if st1 \<le> W_Waiting
        then case check_timeout (Some e) s1 of
            Inl _ \<Rightarrow> exec_map (\<lambda>s2. (s2, b1, None)) (abandon_send_waker a (sched s1))
          | Inr _ \<Rightarrow> exec_bind (reg_get_waker_state (sy_world (sched s1)) (ch_senders (sy_chan (sched s1))) (Some a))
              (\<lambda>st2. tx_wait F f (Some e) (Some a) b1 st2 (sched s1))
        else tx_wait F f (Some e) (Some a) b1 st1 s1) Q"
      if r: "waits inv ks kr T (Some e) n (Some a) s1" "config b1 = config b" "live_state st1"
        "n = 0 \<and> calm a s \<longrightarrow> st1 < W_Woken" for s1 b1 st1
    proof (cases "st1 \<le> W_Waiting")
      case True
      show ?thesis
      proof (cases "check_timeout (Some e) s1")
        case (Inl u)
        with True r(2) k st abandon_total [OF waits_sched [OF r(1)]] show ?thesis
          by (auto simp: total_map Q_def elim!: total_mono)
      next
        case (Inr d)
        have "sy_env s1 \<noteq> []" using late_timeout [of e s1] r(1) Inr by (auto simp: waits_def)
        then have n: "n \<noteq> 0" using r(1) by (cases "sy_env s1") (auto simp: waits_def)
        note w1 = waits_sched1 [OF r(1)]
        from get_state_senders_safe [OF waits_ok [OF w1] assms(2)] obtain st2 where
          st2: "reg_get_waker_state (sy_world (sched s1)) (ch_senders (sy_chan (sched s1))) (Some a) = Done st2"
            "live_state st2" by auto
        have "unat (limit (config b1)) + (n - 1) + 2 < f" using Suc.prems(5) r(2) n by simp
        from Suc.IH [OF w1 [folded k] _ st2(2) _ this] r(2) Suc.prems(2) k
        have "total (tx_wait F f (Some e) (Some a) b1 st2 (sched s1)) Q"
          by (auto simp: Q_def n st elim!: total_mono intro: waits_mono)
        with Inr True st2(1) show ?thesis by simp
      qed
    next
      case False
      then have "W_Woken \<le> st1" "st1 = W_Woken \<or> st1 = W_Closed" using r(3) by (auto simp: live_state_def)
      moreover obtain f' where "f = Suc f'" using Suc.prems(5) by (cases f) auto
      ultimately show ?thesis using False r st k by (auto simp: Q_def)
    qed
    with False k show ?thesis unfolding tx_wait.simps Let_def
      by (auto simp only: if_False option.case intro!: total_bind [OF snz])
  qed
  then show ?case by (simp add: Q_def)
qed

lemma tx_main_total:
  assumes "waits inv ks kr {Blocking thread} (Some e) n k s" "can_wait ks" "fl_bounded F" "unat (spin_limit (config b)) \<le> 31"
    and "unat (limit (config b)) + n + 3 < fuel"
  shows "total (tx_main F fuel thread x (Some e) parked k b s) (\<lambda>_. True)"
  using assms(1,4,5)
proof (induction fuel arbitrary: n parked k b s)
  case 0
  then show ?case by simp
next
  case (Suc fuel)
  have wait: "total (exec_bind (tx_wait F fuel (Some e) k1 b1 st s3) (\<lambda>(s4, b2, waited).
      case waited of
        None \<Rightarrow> Done (drop_owner k1 s4, Inl (STTimeout x))
      | Some st \<Rightarrow>
          if st = W_Woken then tx_main F fuel thread x (Some e) True k1 (backoff_reset b2) s4
          else if st = W_Closed then Done (drop_owner k1 s4, Inl (STDisconnected x))
          else Fault Panic)) (\<lambda>_. True)"
    if "waits inv ks kr {Blocking thread} (Some e) (n - 1) k1 s3" "live_state st" "st < W_Woken \<longrightarrow> k1 \<noteq> None"
      "config b1 = config b" "n = 0 \<longrightarrow> st = W_Closed \<or> st < W_Woken \<and> (\<forall>a. k1 = Some a \<longrightarrow> calm a s3)" for k1 s3 st b1
  proof -
    have again: "total (tx_main F fuel thread x (Some e) True k1 (backoff_reset b2) s4) (\<lambda>_. True)"
      if "waits inv ks kr {Blocking thread} (Some e) (n - 1) k1 s4" "config b2 = config b" "n \<noteq> 0" for s4 b2
      using Suc.IH [OF that(1), of "backoff_reset b2"] that Suc.prems(2,3) by (simp add: backoff_reset_def)
    have "unat (limit (config b1)) + (n - 1) + 2 < fuel" "unat (spin_limit (config b1)) \<le> 31"
      using that(4) Suc.prems(2,3) by simp_all
    note T = that and L = this
    obtain s4 b2 r where r: "tx_wait F fuel (Some e) k1 b1 st s3 = Done (s4, b2, r)"
        "waits inv ks kr {Blocking thread} (Some e) (n - 1) k1 s4" "config b2 = config b"
        "\<forall>st'. r = Some st' \<longrightarrow> st' = W_Woken \<or> st' = W_Closed" "\<not> st < W_Woken \<longrightarrow> r = Some st"
        "n - 1 = 0 \<and> st < W_Woken \<and> (\<forall>a. k1 = Some a \<longrightarrow> calm a s3) \<longrightarrow> r = None"
      using tx_wait_total [OF T(1) assms(2) L(2) T(2,3) L(1)] T(4) by (force simp: total_def)
    have "r = Some W_Woken \<longrightarrow> n \<noteq> 0" using r(5,6) T(5) by (cases "n = 0") auto
    with r again show ?thesis by (cases r) auto
  qed
  have check: "total (exec_bind (sender_double_check F False x (Some a) (sched s2)) (\<lambda>(s3, k1, state).
      if state = W_Done then Done (return_ok F parked k1 s3, Inr ())
      else exec_bind (tx_wait F fuel (Some e) k1 b1 state s3) (\<lambda>(s4, b2, waited).
        case waited of
          None \<Rightarrow> Done (drop_owner k1 s4, Inl (STTimeout x))
        | Some st \<Rightarrow>
            if st = W_Woken then tx_main F fuel thread x (Some e) True k1 (backoff_reset b2) s4
            else if st = W_Closed then Done (drop_owner k1 s4, Inl (STDisconnected x))
            else Fault Panic))) (\<lambda>_. True)"
    if "waits inv ks kr {Blocking thread} (Some e) (n - 1) (Some a) s2" "config b1 = config b" "calm a s2"
      "n = 0 \<longrightarrow> \<not> has_room (fl_capacity F (ch_inner (sy_chan s2))) (content (ch_inner (sy_chan s2)))" for a s2 b1
  proof (rule total_bind [OF double_check_total [OF waits_sched [OF that(1)] assms(3,2)]], clarify)
    fix s3 k1 st
    assume r: "waits inv ks kr {Blocking thread} (Some e) (n - 1) k1 s3" "st = W_Done \<or> live_state st \<and> (st < W_Woken \<longrightarrow> k1 \<noteq> None)"
      "n - 1 = 0 \<and> calm a (sched s2) \<and>
        \<not> has_room (fl_capacity F (ch_inner (sy_chan (sched s2)))) (content (ch_inner (sy_chan (sched s2)))) \<longrightarrow>
        st = W_Closed \<or> st < W_Woken \<and> k1 = Some a \<and> calm a s3"
    have "n = 0 \<Longrightarrow> sched s2 = s2" using that(1) by (intro waits_quiet) simp
    with r(3) that(3,4) have "n = 0 \<longrightarrow> st = W_Closed \<or> st < W_Woken \<and> (\<forall>a. k1 = Some a \<longrightarrow> calm a s3)" by auto
    with r wait [OF r(1) _ _ that(2)] show "total (if st = W_Done then Done (return_ok F parked k1 s3, Inr ())
      else exec_bind (tx_wait F fuel (Some e) k1 b1 st s3) (\<lambda>(s4, b2, waited).
        case waited of
          None \<Rightarrow> Done (drop_owner k1 s4, Inl (STTimeout x))
        | Some st \<Rightarrow>
            if st = W_Woken then tx_main F fuel thread x (Some e) True k1 (backoff_reset b2) s4
            else if st = W_Closed then Done (drop_owner k1 s4, Inl (STDisconnected x))
            else Fault Panic)) (\<lambda>_. True)" by auto
  qed
  have "unat (limit (config b)) - unat (step b) < fuel" using Suc.prems(3) by simp
  from tx_spin_total [OF Suc.prems(1,2) this assms(3), of x] obtain s1 b1 sent where
    spin: "tx_spin F fuel x b s = Done (s1, b1, sent)" "waits inv ks kr {Blocking thread} (Some e) (n - 1) k s1" "config b1 = config b"
      "\<not> sent \<longrightarrow> \<not> has_room (fl_capacity F (ch_inner (sy_chan s1))) (content (ch_inner (sy_chan s1)))"
    by (auto simp: total_def)
  from reg_waker_total [OF waits_sched [OF spin(2)] assms(2)] obtain s2 a where
    reg: "with_senders (\<lambda>w g. reg_reg_waker_blocking w g thread k) (sched s1) = Done (s2, Some a)"
      "waits inv ks kr {Blocking thread} (Some e) (n - 1) (Some a) s2" "calm a s2" "ch_inner (sy_chan s2) = ch_inner (sy_chan (sched s1))"
    by (auto simp: total_def)
  have "n = 0 \<Longrightarrow> sched s1 = s1" using spin(2) by (intro waits_quiet) simp
  with spin(4) reg(4) have "\<not> sent \<Longrightarrow>
      n = 0 \<longrightarrow> \<not> has_room (fl_capacity F (ch_inner (sy_chan s2))) (content (ch_inner (sy_chan s2)))" by auto
  with check [OF reg(2) spin(3) reg(3)] spin(1) reg(1) show ?case by (cases sent) simp_all
qed

lemma tx_send_timeout_total:
  assumes "sys_ok inv ks kr {Blocking thread} None s" "can_wait ks" "fl_bounded F"
    and "\<forall>f \<in> set (sy_env s). \<forall>st. snd (snd st) < snd (snd (f st))" "t < length (sy_env s)"
  shows "\<exists>N. \<forall>fuel \<ge> N. total (tx_send_timeout F m fuel thread x t s) (\<lambda>_. True)"
proof -
  let ?n = "length (sy_env s)" and ?N = "length (sy_env s) + 2 ^ 16 + 4"
  have adv: "\<forall>f \<in> set (sy_env (sched s)). \<forall>st. snd (snd st) < snd (snd (f st))"
    using assms(4) by (simp add: sched_env) (metis list.set_sel(2) list.sel(2))
  have w: "waits inv ks kr {Blocking thread} (Some (sy_now (sched s) + t)) ?n None (sched s)"
    using sys_ok_sched [OF assms(1)] adv assms(5) by (auto simp: waits_def late_def sched_env)
  have "total (tx_send_timeout F m fuel thread x t s) (\<lambda>_. True)" if "?N \<le> fuel" for fuel
  proof (cases "is_rx_closed s")
    case True
    then show ?thesis by (simp add: tx_send_timeout_def)
  next
    case False
    have rest: "total (case deadline_of m t s1 of
        Some e \<Rightarrow> send_bounded F fuel thread x (Some e) s1 | None \<Rightarrow> Done (s1, Inl (STTimeout x))) (\<lambda>_. True)"
      if s1: "waits inv ks kr {Blocking thread} (Some (sy_now (sched s) + t)) ?n None s1" "sy_now s1 = sy_now (sched s)" for s1
    proof (cases "deadline_of m t s1")
      case None
      then show ?thesis by simp
    next
      case (Some e)
      then have e: "e = sy_now (sched s) + t" using s1(2) by (simp add: deadline_of_def split: if_splits)
      let ?b = "backoff_from (ch_cfg (sy_chan s1))"
      note ok = waits_ok [OF s1(1)]
      from adjust [OF sys_okD(2) [OF ok], of ?b] obtain b where
        b: "fl_adjust_tx_backoff F (ch_inner (sy_chan s1)) ?b = Done b"
          "spin_limit (config b) = spin_limit (config ?b) \<or> spin_limit (config b) = 6" by (auto simp: backoff_from_def)
      then have sp: "unat (spin_limit (config b)) \<le> 31" using sys_okD(7) [OF ok] by (auto simp: backoff_from_def)
      have "unat (limit (config b)) < 2 ^ 16" using unsigned_less [of "limit (config b)"] by simp
      then have "unat (limit (config b)) + ?n + 3 < fuel" using \<open>?N \<le> fuel\<close> by simp
      from tx_main_total [OF s1(1) assms(2,3) sp this] b(1) Some e show ?thesis by (simp add: send_bounded_def)
    qed
    from try_send_total [OF w assms(3), of x] obtain s1 sent where
      s1: "with_inner (\<lambda>q. fl_try_send F q x) (sched s) = Done (s1, sent)"
        "waits inv ks kr {Blocking thread} (Some (sy_now (sched s) + t)) ?n None s1" by (auto simp: total_def)
    then have "sy_now s1 = sy_now (sched s)" by (auto simp: with_inner_def exec_map_def)
    with s1 rest fire_waits(1) [OF waits_sched [OF s1(2)]] False show ?thesis
      by (auto simp: tx_send_timeout_def total_map elim!: total_mono)
  qed
  then show ?thesis by blast
qed

end

section \<open>Properties\<close>

text \<open>
  C34. A timed send returns. For any lawful bounded flavor and whatever polite other threads do meanwhile,
  \<^verbatim>\<open>send_timeout\<close> comes back: if the clock advances with every turn of the others and they take more turns
  than the timeout has ticks, enough fuel gives a result, even when the others wake the sender again and
  again and always refill the queue first.
\<close>

theorem send_timeout_returns:
  assumes "lawful_flavor F iv cont" "fl_bounded F" "can_wait ks" "sys_ok iv ks kr {Blocking thread} None s"
    and "\<forall>f \<in> set (sy_env s). \<forall>st. snd (snd st) < snd (snd (f st))" "t < length (sy_env s)"
  shows "\<exists>N. \<forall>fuel \<ge> N. \<exists>s' r. tx_send_timeout F m fuel thread x t s = Done (s', r)"
  using lawful_flavor.tx_send_timeout_total [OF assms(1,4,3,2,5,6), of m x] by (auto simp: total_def)

theorem send_timeout_returns_witness:
  "\<exists>q N. array_new 1 = Done q \<and> (\<forall>fuel \<ge> N. \<exists>s' r. tx_send_timeout (array_flavor []) 1000 fuel 7 (5 :: nat) 1
      (fresh_sys (array_flavor []) (detect_backoff_cfg (Some 8) backoff_globals_init) q
        (RegMulti multi_new) (RegMulti multi_new) 0 [\<lambda>(w, c, t). (w, c, t + 1), \<lambda>(w, c, t). (w, c, t + 1)]) = Done (s', r))"
proof -
  obtain q :: "nat array_queue" where q: "array_new 1 = Done q" "aq_inv q"
    using aq_new_inv [of 1] by (force simp: array_new_def)
  let ?tick = "\<lambda>(w, c, t). (w, c, t + 1) :: nat array_queue shared_state"
  have "polite aq_inv ks kr {Blocking 7} ?tick" for ks kr by (auto simp: polite_def sh_ok_def)
  with fresh_sys_ok [of aq_inv q "RegMulti multi_new" "RegMulti multi_new" "[?tick, ?tick]" "{Blocking 7}"] q(2)
  have "sys_ok aq_inv KMulti KMulti {Blocking 7} None (fresh_sys (array_flavor [])
      (detect_backoff_cfg (Some 8) backoff_globals_init) q (RegMulti multi_new) (RegMulti multi_new) 0 [?tick, ?tick])"
    by simp
  from send_timeout_returns [where t = 1 and m = 1000 and x = 5, OF arrf.lawful_flavor_axioms _ _ this] q(1)
  show ?thesis
    by (auto simp: array_flavor_simps can_wait_def fresh_sys_def)
qed

end
