(* ===== verification/Channel_Behaviour.thy ===== *)
theory Channel_Behaviour
  imports Channel_Timeout
begin

text \<open>
  What the channel operations answer: exact results of the calls that do not wait, disconnection, handle
  counts and the upgrade of weak senders.
\<close>

lemma with_inner_sel:
  assumes "with_inner f s = Done (s', r)"
  shows "\<exists>q. f (ch_inner (sy_chan s)) = Done (q, r) \<and> s' = s\<lparr>sy_chan := (sy_chan s)\<lparr>ch_inner := q\<rparr>\<rparr>"
  using assms by (auto simp: with_inner_def exec_map_def)

lemma fire_inner:
  "on_send s = Done s' \<Longrightarrow> ch_inner (sy_chan s') = ch_inner (sy_chan s)"
  "on_recv s = Done s' \<Longrightarrow> ch_inner (sy_chan s') = ch_inner (sy_chan s)"
  by (auto simp: on_send_def on_recv_def with_recvs_def with_senders_def exec_map_def)

context lawful_flavor
begin

lemma try_send_exact:
  assumes "sys_ok inv ks kr T k s" "fl_bounded F"
  shows "\<exists>s' r. tx_try_send F x s = Done (s', r) \<and>
    r = (if is_rx_closed s then Inl (TSDisconnected x)
         else if has_room (fl_capacity F (ch_inner (sy_chan (sched s)))) (content (ch_inner (sy_chan (sched s)))) then Inr ()
         else Inl (TSFull x)) \<and>
    (sy_env s = [] \<longrightarrow>
      content (ch_inner (sy_chan s')) = content (ch_inner (sy_chan s)) @ (if r = Inr () then [x] else []))"
proof (cases "is_rx_closed s")
  case True
  then show ?thesis by (simp add: tx_try_send_def)
next
  case False
  note ok = sys_ok_sched [OF assms(1)]
  let ?q = "ch_inner (sy_chan (sched s))"
  from bounded_push_step [OF sys_okD(2) [OF ok] assms(2), of x] obtain q b where
    q: "fl_try_send F ?q x = Done (q, b)" "inv q"
      "spec_step (fl_capacity F ?q) (content ?q) (Push x) = (content q, Pushed b)" by blast
  define s1 where "s1 = sched s\<lparr>sy_chan := (sy_chan (sched s))\<lparr>ch_inner := q\<rparr>\<rparr>"
  have "sys_ok inv ks kr T k s1" unfolding s1_def using ok q(2) by (rule sys_ok_inner)
  from fire_total(1) [OF sys_ok_sched [OF this]] obtain s2 where s2: "on_send (sched s1) = Done s2"
    by (auto simp: total_def)
  have st: "with_inner (\<lambda>q. fl_try_send F q x) (sched s) = Done (s1, b)" by (simp add: with_inner_def q(1) s1_def)
  have quiet: "sy_env s = [] \<Longrightarrow> ch_inner (sy_chan s2) = q \<and> sched s = s"
    using fire_inner(1) [OF s2] by (simp add: sched_def s1_def)
  show ?thesis using False st s2 q(3) quiet fire_inner(1) [OF s2]
    by (cases b) (auto simp: tx_try_send_def s1_def split: if_splits)
qed

lemma try_recv_exact:
  assumes "sys_ok inv ks kr T k s"
  shows "\<exists>s' r. ch_try_recv F s = Done (s', r) \<and>
    r = (case content (ch_inner (sy_chan (sched s))) of
           x # _ \<Rightarrow> Inr x
         | [] \<Rightarrow> Inl (if is_tx_closed s then TRDisconnected else TREmpty)) \<and>
    (sy_env s = [] \<longrightarrow> content (ch_inner (sy_chan s')) = tl (content (ch_inner (sy_chan s))))"
proof -
  note ok = sys_ok_sched [OF assms]
  let ?q = "ch_inner (sy_chan (sched s))"
  from pop_step [OF sys_okD(2) [OF ok]] obtain q r where
    q: "fl_try_recv F ?q = Done (q, r)" "inv q"
      "spec_step (fl_capacity F ?q) (content ?q) Pop = (content q, Popped r)" by blast
  note f = final_eq [OF sys_okD(2) [OF ok]]
  define s1 where "s1 = sched s\<lparr>sy_chan := (sy_chan (sched s))\<lparr>ch_inner := q\<rparr>\<rparr>"
  have "sys_ok inv ks kr T k s1" unfolding s1_def using ok q(2) by (rule sys_ok_inner)
  from fire_total(2) [OF sys_ok_sched [OF this]] obtain s2 where s2: "on_recv (sched s1) = Done s2"
    by (auto simp: total_def)
  have st: "with_inner (fl_try_recv F) (sched s) = Done (s1, r)" "with_inner (fl_try_recv_final F) (sched s) = Done (s1, r)"
    by (simp_all add: with_inner_def q(1) f s1_def)
  have quiet: "sy_env s = [] \<Longrightarrow> ch_inner (sy_chan s2) = q \<and> sched s = s"
    using fire_inner(2) [OF s2] by (simp add: sched_def s1_def)
  show ?thesis using st s2 q(3) quiet fire_inner(2) [OF s2]
    by (cases r) (auto simp: ch_try_recv_def s1_def split: list.splits)
qed

end

lemma try_add_tx_loop_spec:
  assumes "length (sy_env s) + (if count = ch_tx_count (sy_chan s) then 0 else 1) < fuel"
  shows "\<exists>s' r. try_add_tx_loop fuel count s = Done (s', r) \<and>
    (r \<longrightarrow> ch_tx_count (sy_chan s') - 1 \<noteq> 0) \<and>
    (\<not> r \<longrightarrow> count = 0 \<and> s' = s \<or> ch_tx_count (sy_chan s') = 0) \<and>
    (sy_env s = [] \<and> count = ch_tx_count (sy_chan s) \<longrightarrow> (r \<longleftrightarrow> count \<noteq> 0))"
  using assms
proof (induction fuel arbitrary: s count)
  case 0
  then show ?case by simp
next
  case (Suc fuel)
  let ?s = "sched s" and ?n = "ch_tx_count (sy_chan (sched s))"
  consider "count = 0" | "count \<noteq> 0" "?n = count" | "\<not> (count = 0 \<or> ?n = count)" by blast
  then show ?case
  proof cases
    case 1
    then show ?thesis by auto
  next
    case 2
    then have "try_add_tx_loop (Suc fuel) count s = Done (?s\<lparr>sy_chan := (sy_chan ?s)\<lparr>ch_tx_count := count + 1\<rparr>\<rparr>, True)"
      by (simp add: Let_def cas_def)
    with 2(1) show ?thesis by auto
  next
    case False: 3
    then have "sy_env s = [] \<longrightarrow> count \<noteq> ch_tx_count (sy_chan s)" by (auto simp: sched_quiet)
    with Suc.prems have "length (sy_env ?s) < fuel" by (cases "sy_env s") (auto simp: sched_env split: if_splits)
    with Suc.IH [of ?s ?n] obtain s' r where
      r: "try_add_tx_loop fuel ?n ?s = Done (s', r)" "r \<longrightarrow> ch_tx_count (sy_chan s') - 1 \<noteq> 0"
        "\<not> r \<longrightarrow> ?n = 0 \<and> s' = ?s \<or> ch_tx_count (sy_chan s') = 0" by auto
    have "try_add_tx_loop (Suc fuel) count s = try_add_tx_loop fuel ?n ?s"
      using False by (simp add: Let_def cas_def)
    moreover have "\<not> (sy_env s = [] \<and> count = ch_tx_count (sy_chan s))" using False by (auto simp: sched_quiet)
    ultimately show ?thesis using r by auto
  qed
qed

section \<open>Properties\<close>

text \<open>
  C37. \<^verbatim>\<open>try_send\<close> of a bounded flavor returns and answers exactly: \<^verbatim>\<open>Disconnected\<close> when no receiver was left at the call, otherwise
  \<^verbatim>\<open>Ok\<close> when the queue had room at the moment the item was offered and \<^verbatim>\<open>Full\<close> when it had none; both errors
  carry the item. Undisturbed, the queue then holds what it held before, followed by the item exactly when
  the answer is \<^verbatim>\<open>Ok\<close>.
\<close>

theorem tx_try_send_exact:
  assumes "lawful_flavor F iv cont" "sys_ok iv ks kr T None s" "fl_bounded F"
  shows "\<exists>s' r. tx_try_send F x s = Done (s', r) \<and>
    r = (if is_rx_closed s then Inl (TSDisconnected x)
         else if has_room (fl_capacity F (ch_inner (sy_chan (sched s)))) (cont (ch_inner (sy_chan (sched s)))) then Inr ()
         else Inl (TSFull x)) \<and>
    (sy_env s = [] \<longrightarrow> cont (ch_inner (sy_chan s')) = cont (ch_inner (sy_chan s)) @ (if r = Inr () then [x] else []))"
  using assms by (rule lawful_flavor.try_send_exact)

theorem tx_try_send_exact_witness:
  "\<exists>q s'. array_new 1 = Done q \<and> tx_try_send (array_flavor []) (5 :: nat)
      (fresh_sys (array_flavor []) (detect_backoff_cfg (Some 8) backoff_globals_init) q
        (RegMulti multi_new) (RegMulti multi_new) 0 []) = Done (s', Inr ()) \<and> aq_content (ch_inner (sy_chan s')) = [5]"
proof -
  obtain q :: "nat array_queue" where q: "array_new 1 = Done q" "aq_inv q" "aq_content q = []" "aq_capacity q = 1"
    using aq_new_inv [of 1] by (force simp: array_new_def aq_cap_def)
  let ?s = "fresh_sys (array_flavor []) (detect_backoff_cfg (Some 8) backoff_globals_init) q
    (RegMulti multi_new) (RegMulti multi_new) 0 []"
  have "sys_ok aq_inv KMulti KMulti {Blocking 7} None ?s"
    using fresh_sys_ok [of aq_inv q "RegMulti multi_new" "RegMulti multi_new" "[]" "{Blocking 7}"] q(2) by simp
  from tx_try_send_exact [where x = 5, OF arrf.lawful_flavor_axioms this] q show ?thesis
    by (auto simp: fresh_sys_def channel_new_def sched_def is_rx_closed_def array_flavor_simps has_room_def aq_cap_def)
qed

text \<open>
  \<^verbatim>\<open>try_recv\<close> returns and answers exactly: the oldest message when the queue has one at the moment it
  looks; otherwise \<^verbatim>\<open>Disconnected\<close> when no sender was left at the call and \<^verbatim>\<open>Empty\<close> when there was one. A
  message is never hidden by a disconnection.
\<close>

theorem rx_try_recv_exact:
  assumes "lawful_flavor F iv cont" "sys_ok iv ks kr T None s"
  shows "\<exists>s' r. rx_try_recv F s = Done (s', r) \<and>
    r = (case cont (ch_inner (sy_chan (sched s))) of
           x # _ \<Rightarrow> Inr x
         | [] \<Rightarrow> Inl (if is_tx_closed s then TRDisconnected else TREmpty)) \<and>
    (sy_env s = [] \<longrightarrow> cont (ch_inner (sy_chan s')) = tl (cont (ch_inner (sy_chan s))))"
  unfolding rx_try_recv_def using assms by (rule lawful_flavor.try_recv_exact)

theorem rx_try_recv_exact_witness:
  "\<exists>q s'. array_new 1 = Done (q :: nat array_queue) \<and> rx_try_recv (array_flavor [])
      (fresh_sys (array_flavor []) (detect_backoff_cfg (Some 8) backoff_globals_init) q
        (RegMulti multi_new) (RegMulti multi_new) 0 []) = Done (s', Inl TREmpty)"
proof -
  obtain q :: "nat array_queue" where q: "array_new 1 = Done q" "aq_inv q" "aq_content q = []"
    using aq_new_inv [of 1] by (force simp: array_new_def aq_cap_def)
  let ?s = "fresh_sys (array_flavor []) (detect_backoff_cfg (Some 8) backoff_globals_init) q
    (RegMulti multi_new) (RegMulti multi_new) 0 []"
  have "sys_ok aq_inv KMulti KMulti {Blocking 7} None ?s"
    using fresh_sys_ok [of aq_inv q "RegMulti multi_new" "RegMulti multi_new" "[]" "{Blocking 7}"] q(2) by simp
  from rx_try_recv_exact [OF arrf.lawful_flavor_axioms this] q show ?thesis
    by (auto simp: fresh_sys_def channel_new_def sched_def is_tx_closed_def)
qed

text \<open>
  C36. No message is lost at a disconnection: a blocking receive answers \<^verbatim>\<open>Disconnected\<close> only after a last look
  at the queue that found it empty, whatever polite other threads did before that look.
\<close>

theorem recv_disconnected_drained:
  assumes "lawful_flavor F iv cont" "can_wait kr" "sys_ok iv ks kr {Blocking thread} None s"
    and "recv_blocking F fuel thread deadline s = Done (s', Inl RTDisconnected)"
  shows "cont (ch_inner (sy_chan s')) = []"
  using safe_DoneD [OF lawful_flavor.recv_blocking_safe [OF assms(1,3,2)] assms(4)] by (simp add: drained_def)

theorem recv_disconnected_drained_witness:
  "\<exists>s'. recv_blocking one_spsc_flavor 12 7 None
      ((fresh_sys one_spsc_flavor backoff_globals_init osp_new (RegMulti multi_new) (RegSingle weak_cell_new) 0 [] :: nat one_sp sys)
        \<lparr>sy_chan := (channel_new one_spsc_flavor backoff_globals_init osp_new (RegMulti multi_new) (RegSingle weak_cell_new))
          \<lparr>ch_tx_count := 0\<rparr>\<rparr>) = Done (s', Inl RTDisconnected) \<and> osp_content (ch_inner (sy_chan s')) = []"
proof -
  let ?s = "(fresh_sys one_spsc_flavor backoff_globals_init osp_new (RegMulti multi_new) (RegSingle weak_cell_new) 0 [] :: nat one_sp sys)
      \<lparr>sy_chan := (channel_new one_spsc_flavor backoff_globals_init osp_new (RegMulti multi_new) (RegSingle weak_cell_new))
        \<lparr>ch_tx_count := 0\<rparr>\<rparr>"
  have "case recv_blocking one_spsc_flavor 12 7 None ?s of Done (s', Inl RTDisconnected) \<Rightarrow> True | _ \<Rightarrow> False"
    by code_simp
  then obtain s' where r: "recv_blocking one_spsc_flavor 12 7 None ?s = Done (s', Inl RTDisconnected)"
    by (auto split: exec.splits prod.splits sum.splits recv_timeout_error.splits)
  have "osp_inv (osp_new :: nat one_sp)" using osp_repr_inv [OF osp_new_repr] by auto
  then have "sys_ok osp_inv KMulti KSingle {Blocking 7} None ?s"
    using config_detect_spin(1)
    by (simp add: sys_ok_def sh_ok_def fresh_sys_def channel_new_def world_ok_init reg_ok_def multi_new_def)
  from recv_disconnected_drained [OF ospf.lawful_flavor_axioms _ this r] r show ?thesis
    by (auto simp: can_wait_def)
qed

text \<open>
  Upgrading a weak sender never revives a closed channel: the loop ends as soon as nobody interferes, it
  adds one sender only to a count that was not zero at that moment, and it fails only when the count is
  zero; undisturbed it succeeds exactly when a sender is alive.
\<close>

theorem weak_upgrade_exact:
  assumes "length (sy_env s) < fuel"
  shows "\<exists>s' r. weak_upgrade fuel s = Done (s', r) \<and> (r \<longrightarrow> ch_tx_count (sy_chan s') - 1 \<noteq> 0) \<and>
    (\<not> r \<longrightarrow> ch_tx_count (sy_chan s') = 0) \<and> (sy_env s = [] \<longrightarrow> (r \<longleftrightarrow> \<not> is_tx_closed s))"
  using try_add_tx_loop_spec [of s "ch_tx_count (sy_chan s)" fuel] assms
  by (auto simp: weak_upgrade_def try_add_tx_def is_tx_closed_def)

theorem weak_upgrade_exact_witness:
  "\<exists>s' r. weak_upgrade 1 (fresh_sys one_spsc_flavor backoff_globals_init (osp_new :: nat one_sp) RegDummy
      (RegMulti multi_new) 0 []) = Done (s', r) \<and> r"
  using weak_upgrade_exact [of "fresh_sys one_spsc_flavor backoff_globals_init (osp_new :: nat one_sp) RegDummy
      (RegMulti multi_new) 0 []" 1]
  by (auto simp: fresh_sys_def is_tx_closed_def channel_new_def)

text \<open>
  The last sender closes the channel, and only the last: dropping one of several senders notifies
  nobody; dropping the last one leaves the channel closed and notifies every waiting receiver, once each
  and in the order they registered.
\<close>

theorem last_sender_closes:
  assumes "heap_ok (sy_world s)" "sy_env s = []" "ch_recvs (sy_chan s) = RegMulti m" "distinct (m_queue m)"
    and "m_selectors m = []" "ch_tx_count (sy_chan s) \<noteq> 0"
  shows "\<exists>s'. tx_drop s = Done s' \<and> is_tx_closed s' = (ch_tx_count (sy_chan s) = 1) \<and>
    wd_log (sy_world s') = wd_log (sy_world s) @ (if ch_tx_count (sy_chan s) = 1
      then map (w_waker \<circ> the \<circ> upgrade (sy_world s))
        (filter (\<lambda>a. \<exists>x. upgrade (sy_world s) a = Some x \<and> w_state x \<le> W_Waiting) (m_queue m))
      else []) \<and>
    (ch_tx_count (sy_chan s) = 1 \<longrightarrow> (\<forall>a \<in> set (m_queue m). \<forall>x. upgrade (sy_world s) a = Some x \<and> w_state x \<le> W_Waiting \<longrightarrow>
      upgrade (sy_world s') a = Some (x\<lparr>w_state := W_Closed\<rparr>)))"
proof (cases "ch_tx_count (sy_chan s) = 1")
  case True
  from close_all_spec [OF assms(1,4)] obtain w' where
    w': "close_all (sy_world s) (m_queue m) = Done w'"
      "\<forall>a. upgrade w' a = (if a \<in> set (m_queue m) then map_option (\<lambda>x. fst (close_spec x)) (upgrade (sy_world s) a)
        else upgrade (sy_world s) a)"
      "wd_log w' = wd_log (sy_world s) @ map (w_waker \<circ> the \<circ> upgrade (sy_world s))
        (filter (\<lambda>a. \<exists>x. upgrade (sy_world s) a = Some x \<and> w_state x \<le> W_Waiting) (m_queue m))" by blast
  with True assms show ?thesis
    by (simp add: tx_drop_def close_tx_def with_recvs_def sched_def multi_close_def is_tx_closed_def close_spec_def)
next
  case False
  with assms(6) have "\<not> ch_tx_count (sy_chan s) \<le> 1" by (metis le_less word_less_1 word_le_less_eq)
  moreover from False have "ch_tx_count (sy_chan s) - 1 \<noteq> 0" by simp
  ultimately show ?thesis using False by (simp add: tx_drop_def close_tx_def is_tx_closed_def)
qed

theorem last_sender_closes_witness:
  "\<exists>s'. tx_drop (fresh_sys one_spsc_flavor backoff_globals_init (osp_new :: nat one_sp) RegDummy
      (RegMulti multi_new) 0 []) = Done s' \<and> is_tx_closed s'"
proof -
  let ?s = "fresh_sys one_spsc_flavor backoff_globals_init (osp_new :: nat one_sp) RegDummy (RegMulti multi_new) 0 []"
  have "heap_ok (sy_world ?s)" by (simp add: fresh_sys_def world_ok_heap_ok world_ok_init)
  from last_sender_closes [OF this, of multi_new] show ?thesis
    by (auto simp: fresh_sys_def channel_new_def multi_new_def)
qed

end
