(* ===== verification/Async.thy ===== *)
theory Async
  imports Blocking
begin

unbundle bit_operations_syntax

text \<open>
  Asynchronous senders and receivers, \<^verbatim>\<open>src/src/async_tx.rs\<close> and \<^verbatim>\<open>src/src/async_rx.rs\<close>, with the sink and the
  stream of \<^verbatim>\<open>src/src/sink.rs\<close> and \<^verbatim>\<open>src/src/stream.rs\<close>. A poll is a call of a task; the task is the waker of
  the context it passes. A future is a record of its fields, and its methods are functions on it. Whether
  the timer of a timed future is ready is the answer of the runtime, an argument of the poll. As in the
  blocking operations, \<open>sched\<close> marks the places where others may run, and loops take fuel.
\<close>

section \<open>Polling a send\<close>

text \<open>The spinning of the first call: pause, try, until the backoff is completed.\<close>

fun atx_spin :: "('q, 'a) flavor \<Rightarrow> nat \<Rightarrow> 'a \<Rightarrow> backoff \<Rightarrow> 'q sys \<Rightarrow> ('q sys \<times> bool) exec" where
  "atx_spin F 0 item b s = Spin"
| "atx_spin F (Suc fuel) item b s =
     exec_bind (backoff_spin b) (\<lambda>(b', _).
       exec_bind (with_inner (\<lambda>q. fl_try_send F q item) (sched s)) (\<lambda>(s1, sent).
         if sent then exec_map (\<lambda>s2. (s2, True)) (on_send (sched s1))
         else if backoff_is_completed b' then Done (s1, False)
         else atx_spin F fuel item b' s1))"

definition atx_first_spin :: "('q, 'a) flavor \<Rightarrow> nat \<Rightarrow> 'a \<Rightarrow> nat option \<Rightarrow> 'q sys \<Rightarrow> ('q sys \<times> bool) exec" where
  "atx_first_spin F fuel item o_waker s =
     (if o_waker = None
      then case get_async_backoff F s of
          Some b \<Rightarrow> atx_spin F fuel item b s
        | None \<Rightarrow> Done (s, False)
      else Done (s, False))"

text \<open>The loop of \<^verbatim>\<open>poll_send\<close>: the new content of \<^verbatim>\<open>o_waker\<close> and the answer, \<open>Inl ()\<close> for a closed channel.\<close>

fun atx_poll_loop :: "('q, 'a) flavor \<Rightarrow> nat \<Rightarrow> bool \<Rightarrow> nat \<Rightarrow> 'a \<Rightarrow> nat option \<Rightarrow> 'q sys \<Rightarrow>
    ('q sys \<times> nat option \<times> (unit + unit) std_poll) exec" where
  "atx_poll_loop F 0 sink task item o_waker s = Spin"
| "atx_poll_loop F (Suc fuel) sink task item o_waker s =
     exec_bind (with_inner (\<lambda>q. fl_try_send F q item) (sched s)) (\<lambda>(s1, sent).
       if sent then exec_map (\<lambda>s2. (drop_owner o_waker s2, None, PReady (Inr ()))) (on_send (sched s1))
       else exec_bind (atx_first_spin F fuel item o_waker s1) (\<lambda>(s2, sent).
         if sent then Done (s2, o_waker, PReady (Inr ()))
         else exec_bind (with_senders (\<lambda>w g. reg_reg_waker_async w g task o_waker) (sched s2)) (\<lambda>(s3, k, p).
           case p of
             Some Pending \<Rightarrow> Done (s3, k, PPending)
           | Some Ready \<Rightarrow> Done (s3, k, PReady (Inl ()))
           | None \<Rightarrow> exec_bind (sender_double_check F sink item k (sched s3)) (\<lambda>(s4, k1, state).
               if state < W_Woken then Done (s4, k1, PPending)
               else if W_Woken < state
               then if state = W_Done then Done (drop_owner k1 s4, None, PReady (Inr ()))
                    else if state = W_Closed then Done (drop_owner k1 s4, None, PReady (Inl ()))
                    else Fault Panic
               else atx_poll_loop F fuel sink task item k1 s4))))"

definition atx_poll_send :: "('q, 'a) flavor \<Rightarrow> nat \<Rightarrow> bool \<Rightarrow> nat \<Rightarrow> 'a \<Rightarrow> nat option \<Rightarrow> 'q sys \<Rightarrow>
    ('q sys \<times> nat option \<times> (unit + unit) std_poll) exec" where
  "atx_poll_send F fuel sink task item o_waker s =
     (if is_rx_closed s then Done (s, o_waker, PReady (Inl ()))
      else atx_poll_loop F fuel sink task item o_waker s)"

definition atx_try_send :: "('q, 'a) flavor \<Rightarrow> 'a \<Rightarrow> 'q sys \<Rightarrow> ('q sys \<times> ('a try_send_error + unit)) exec" where
  "atx_try_send F item s =
     (if is_rx_closed s then Done (s, Inl (TSDisconnected item))
      else exec_bind (with_inner (\<lambda>q. fl_try_send F q item) (sched s)) (\<lambda>(s1, sent).
        if sent then exec_map (\<lambda>s2. (s2, Inr ())) (on_send (sched s1))
        else Done (s1, Inl (TSFull item))))"

section \<open>Send futures\<close>

text \<open>\<^verbatim>\<open>SendFuture\<close> and \<^verbatim>\<open>SendTimeoutFuture\<close>: \<open>sf_tx\<close> says that the field \<^verbatim>\<open>tx\<close> is still there.\<close>

record 'a send_future =
  sf_tx :: bool
  sf_item :: 'a
  sf_waker :: "nat option"

definition atx_send :: "'a \<Rightarrow> 'a send_future" where
  "atx_send item = \<lparr>sf_tx = True, sf_item = item, sf_waker = None\<rparr>"

definition atx_send_with_timer :: "'a \<Rightarrow> 'a send_future" where
  "atx_send_with_timer item = \<lparr>sf_tx = True, sf_item = item, sf_waker = None\<rparr>"

definition send_future_poll :: "('q, 'a) flavor \<Rightarrow> nat \<Rightarrow> nat \<Rightarrow> 'a send_future \<Rightarrow> 'q sys \<Rightarrow>
    ('q sys \<times> 'a send_future \<times> ('a send_error + unit) std_poll) exec" where
  "send_future_poll F fuel task f s =
     (if \<not> sf_tx f then Fault Panic
      else exec_bind (atx_poll_send F fuel False task (sf_item f) (sf_waker f) s) (\<lambda>(s1, k, p).
        case p of
          PReady (Inr _) \<Rightarrow>
            if k = None then Done (s1, f\<lparr>sf_tx := False, sf_waker := None\<rparr>, PReady (Inr ())) else Fault Panic
        | PReady (Inl _) \<Rightarrow>
            Done (drop_owner k s1, f\<lparr>sf_tx := False, sf_waker := None\<rparr>, PReady (Inl (SendError (sf_item f))))
        | PPending \<Rightarrow> Done (s1, f\<lparr>sf_waker := k\<rparr>, PPending)))"

definition send_timeout_future_poll :: "('q, 'a) flavor \<Rightarrow> nat \<Rightarrow> nat \<Rightarrow> bool \<Rightarrow> 'a send_future \<Rightarrow> 'q sys \<Rightarrow>
    ('q sys \<times> 'a send_future \<times> ('a send_timeout_error + unit) std_poll) exec" where
  "send_timeout_future_poll F fuel task timer_ready f s =
     (if \<not> sf_tx f then Fault Panic
      else exec_bind (atx_poll_send F fuel False task (sf_item f) (sf_waker f) s) (\<lambda>(s1, k, p).
        case p of
          PReady (Inr _) \<Rightarrow>
            if k = None then Done (s1, f\<lparr>sf_tx := False, sf_waker := None\<rparr>, PReady (Inr ())) else Fault Panic
        | PReady (Inl _) \<Rightarrow>
            Done (drop_owner k s1, f\<lparr>sf_tx := False, sf_waker := None\<rparr>, PReady (Inl (STDisconnected (sf_item f))))
        | PPending \<Rightarrow>
            if timer_ready
            then case k of
                None \<Rightarrow> Fault Panic
              | Some a \<Rightarrow> exec_map (\<lambda>s2.
                  (drop_owner k s2, f\<lparr>sf_tx := False, sf_waker := None\<rparr>, PReady (Inl (STTimeout (sf_item f)))))
                  (abandon_send_waker a (sched s1))
            else Done (s1, f\<lparr>sf_waker := k\<rparr>, PPending)))"

text \<open>\<^verbatim>\<open>Drop\<close> of both: the item, when the future still owns it, is dropped; that is the answer.\<close>

definition send_future_drop :: "'a send_future \<Rightarrow> 'q sys \<Rightarrow> ('q sys \<times> 'a option) exec" where
  "send_future_drop f s =
     (if \<not> sf_tx f then Done (drop_owner (sf_waker f) s, None)
      else exec_map (\<lambda>s1. (drop_owner (sf_waker f) s1, Some (sf_item f)))
        (case sf_waker f of None \<Rightarrow> Done s | Some a \<Rightarrow> abandon_send_waker a s))"

section \<open>Polling a receive\<close>

fun arx_spin :: "('q, 'a) flavor \<Rightarrow> nat \<Rightarrow> backoff \<Rightarrow> 'q sys \<Rightarrow> ('q sys \<times> 'a option) exec" where
  "arx_spin F 0 b s = Spin"
| "arx_spin F (Suc fuel) b s =
     exec_bind (backoff_spin b) (\<lambda>(b', _, complete).
       exec_bind (with_inner (fl_try_recv F) (sched s)) (\<lambda>(s1, r).
         case r of
           Some item \<Rightarrow> exec_map (\<lambda>s2. (s2, Some item)) (on_recv (sched s1))
         | None \<Rightarrow> if complete then Done (s1, None) else arx_spin F fuel b' s1))"

text \<open>\<^verbatim>\<open>try_recv!\<close> with \<^verbatim>\<open>on_recv_waker!\<close>: a message that is taken fires a sender and cancels the waker.\<close>

definition arx_take :: "('q \<Rightarrow> ('q \<times> 'a option) exec) \<Rightarrow> nat option \<Rightarrow> 'q sys \<Rightarrow> ('q sys \<times> nat option \<times> 'a option) exec" where
  "arx_take recv o_waker s =
     exec_bind (with_inner recv (sched s)) (\<lambda>(s1, r).
       case r of
         Some item \<Rightarrow> exec_bind (on_recv (sched s1)) (\<lambda>s2.
           exec_map (\<lambda>(s3, k). (s3, k, Some item)) (with_recvs (\<lambda>w g. reg_cancel_waker w g o_waker) (sched s2)))
       | None \<Rightarrow> Done (s1, o_waker, None))"

text \<open>The first try of a round; without a waker it is followed by the spinning.\<close>

definition arx_first :: "('q, 'a) flavor \<Rightarrow> nat \<Rightarrow> nat option \<Rightarrow> 'q sys \<Rightarrow> ('q sys \<times> nat option \<times> 'a option) exec" where
  "arx_first F fuel o_waker s =
     (if o_waker = None
      then exec_bind (with_inner (fl_try_recv F) (sched s)) (\<lambda>(s1, r).
        case r of
          Some item \<Rightarrow> exec_map (\<lambda>s2. (s2, None, Some item)) (on_recv (sched s1))
        | None \<Rightarrow> (case get_async_backoff F s1 of
            Some b \<Rightarrow> exec_map (\<lambda>(s2, got). (s2, None, got)) (arx_spin F fuel b s1)
          | None \<Rightarrow> Done (s1, None, None)))
      else arx_take (fl_try_recv F) o_waker s)"

text \<open>After the loop: a closed channel gets a last look.\<close>

definition arx_finish :: "('q, 'a) flavor \<Rightarrow> nat option \<Rightarrow> 'q sys \<Rightarrow> ('q sys \<times> nat option \<times> (try_recv_error + 'a)) exec" where
  "arx_finish F o_waker s =
     (let s1 = sched s
      in if is_tx_closed s1
         then exec_map (\<lambda>(s2, k, got). (s2, k, case got of Some item \<Rightarrow> Inr item | None \<Rightarrow> Inl TRDisconnected))
           (arx_take (fl_try_recv F) o_waker s1)
         else Done (s1, o_waker, Inl TREmpty))"

fun arx_poll_item :: "('q, 'a) flavor \<Rightarrow> nat \<Rightarrow> bool \<Rightarrow> nat \<Rightarrow> nat option \<Rightarrow> 'q sys \<Rightarrow>
    ('q sys \<times> nat option \<times> (try_recv_error + 'a)) exec" where
  "arx_poll_item F 0 stream task o_waker s = Spin"
| "arx_poll_item F (Suc fuel) stream task o_waker s =
     exec_bind (arx_first F fuel o_waker s) (\<lambda>(s1, k, got).
       case got of
         Some item \<Rightarrow> Done (s1, k, Inr item)
       | None \<Rightarrow>
           exec_bind (with_recvs (\<lambda>w g. reg_reg_waker_async w g task k) (sched s1)) (\<lambda>(s2, k1, p).
             if p \<noteq> None then arx_finish F k1 s2
             else exec_bind (arx_take (fl_try_recv_final F) k1 s2) (\<lambda>(s3, k2, got).
               case got of
                 Some item \<Rightarrow> Done (s3, k2, Inr item)
               | None \<Rightarrow>
                   if stream then arx_finish F k2 s3
                   else exec_bind (with_recvs (\<lambda>w g. exec_map (\<lambda>(w', st). (w', g, st)) (reg_commit_waiting w g k2)) (sched s3))
                     (\<lambda>(s4, state).
                       if state = W_Woken then arx_poll_item F fuel stream task k2 s4
                       else arx_finish F k2 s4))))"

definition arx_try_recv :: "('q, 'a) flavor \<Rightarrow> 'q sys \<Rightarrow> ('q sys \<times> (try_recv_error + 'a)) exec" where
  "arx_try_recv F s = ch_try_recv F s"

definition arx_read_select :: "('q, 'a) flavor \<Rightarrow> nat \<Rightarrow> select_result \<Rightarrow> 'q sys \<Rightarrow> ('q sys \<times> (recv_error + 'a)) exec" where
  "arx_read_select F self result s =
     (if self = sr_channel result then read_with_token F (sr_token result) s else Fault Panic)"

section \<open>Receive futures\<close>

text \<open>\<^verbatim>\<open>RecvFuture\<close> and \<^verbatim>\<open>RecvTimeoutFuture\<close> hold a waker only.\<close>

record recv_future =
  rf_waker :: "nat option"

definition arx_recv :: recv_future where
  "arx_recv = \<lparr>rf_waker = None\<rparr>"

definition arx_recv_with_timer :: recv_future where
  "arx_recv_with_timer = \<lparr>rf_waker = None\<rparr>"

definition recv_future_poll :: "('q, 'a) flavor \<Rightarrow> nat \<Rightarrow> nat \<Rightarrow> recv_future \<Rightarrow> 'q sys \<Rightarrow>
    ('q sys \<times> recv_future \<times> (recv_error + 'a) std_poll) exec" where
  "recv_future_poll F fuel task f s =
     exec_bind (arx_poll_item F fuel False task (rf_waker f) s) (\<lambda>(s1, k, r).
       case r of
         Inl TREmpty \<Rightarrow> Done (s1, \<lparr>rf_waker = k\<rparr>, PPending)
       | Inl TRDisconnected \<Rightarrow> Done (drop_owner k s1, \<lparr>rf_waker = None\<rparr>, PReady (Inl RecvError))
       | Inr item \<Rightarrow> if k = None then Done (s1, \<lparr>rf_waker = None\<rparr>, PReady (Inr item)) else Fault Panic)"

definition recv_timeout_future_poll :: "('q, 'a) flavor \<Rightarrow> nat \<Rightarrow> nat \<Rightarrow> bool \<Rightarrow> recv_future \<Rightarrow> 'q sys \<Rightarrow>
    ('q sys \<times> recv_future \<times> (recv_timeout_error + 'a) std_poll) exec" where
  "recv_timeout_future_poll F fuel task timer_ready f s =
     exec_map (\<lambda>(s1, k, r). (s1, \<lparr>rf_waker = k\<rparr>,
       case r of
         Inl TREmpty \<Rightarrow> if timer_ready then PReady (Inl RTTimeout) else PPending
       | Inl TRDisconnected \<Rightarrow> PReady (Inl RTDisconnected)
       | Inr item \<Rightarrow> PReady (Inr item)))
     (arx_poll_item F fuel False task (rf_waker f) s)"

definition recv_future_drop :: "recv_future \<Rightarrow> 'q sys \<Rightarrow> 'q sys exec" where
  "recv_future_drop f s =
     exec_map (drop_owner (rf_waker f)) (case rf_waker f of None \<Rightarrow> Done s | Some a \<Rightarrow> abandon_recv_waker a s)"

section \<open>Sink and stream\<close>

record async_sink =
  sink_waker :: "nat option"

definition sink_new :: async_sink where
  "sink_new = \<lparr>sink_waker = None\<rparr>"

definition sink_poll_send :: "('q, 'a) flavor \<Rightarrow> nat \<Rightarrow> nat \<Rightarrow> 'a \<Rightarrow> async_sink \<Rightarrow> 'q sys \<Rightarrow>
    ('q sys \<times> async_sink \<times> ('a try_send_error + unit)) exec" where
  "sink_poll_send F fuel task item k s =
     exec_bind (with_inner (\<lambda>q. fl_try_send F q item) s) (\<lambda>(s1, sent).
       if sent then exec_map (\<lambda>s2. (s2, k, Inr ())) (on_send (sched s1))
       else exec_map (\<lambda>(s2, k', p). (s2, \<lparr>sink_waker = k'\<rparr>,
           case p of
             PReady (Inr _) \<Rightarrow> Inr ()
           | PReady (Inl _) \<Rightarrow> Inl (TSDisconnected item)
           | PPending \<Rightarrow> Inl (TSFull item)))
         (atx_poll_send F fuel True task item (sink_waker k) (sched s1)))"

text \<open>\<^verbatim>\<open>Drop for AsyncSink\<close>; its sender is dropped after it.\<close>

definition sink_drop :: "async_sink \<Rightarrow> 'q sys \<Rightarrow> 'q sys exec" where
  "sink_drop k s =
     exec_bind (case sink_waker k of None \<Rightarrow> Done s | Some a \<Rightarrow> abandon_send_waker a s) (\<lambda>s1.
       exec_map (drop_owner (sink_waker k)) (close_tx (sched s1)))"

record async_stream =
  stream_waker :: "nat option"
  stream_ended :: bool

definition stream_new :: async_stream where
  "stream_new = \<lparr>stream_waker = None, stream_ended = False\<rparr>"

definition stream_answer :: "async_stream \<Rightarrow> nat option \<Rightarrow> try_recv_error + 'a \<Rightarrow> async_stream \<times> 'a option std_poll" where
  "stream_answer k waker r =
     (case r of
        Inr item \<Rightarrow> (k\<lparr>stream_waker := waker\<rparr>, PReady (Some item))
      | Inl e \<Rightarrow> if try_recv_error_is_empty e then (k\<lparr>stream_waker := waker\<rparr>, PPending)
          else (k\<lparr>stream_waker := waker, stream_ended := True\<rparr>, PReady None))"

definition stream_poll_item :: "('q, 'a) flavor \<Rightarrow> nat \<Rightarrow> nat \<Rightarrow> async_stream \<Rightarrow> 'q sys \<Rightarrow>
    ('q sys \<times> async_stream \<times> 'a option std_poll) exec" where
  "stream_poll_item F fuel task k s =
     exec_map (\<lambda>(s1, k', r). (s1, stream_answer k k' r)) (arx_poll_item F fuel True task (stream_waker k) s)"

definition stream_poll_next :: "('q, 'a) flavor \<Rightarrow> nat \<Rightarrow> nat \<Rightarrow> async_stream \<Rightarrow> 'q sys \<Rightarrow>
    ('q sys \<times> async_stream \<times> 'a option std_poll) exec" where
  "stream_poll_next F fuel task k s =
     (if stream_ended k then Done (s, k, PReady None)
      else exec_map (\<lambda>(s1, k', r). (s1, stream_answer k k' r)) (arx_poll_item F fuel False task (stream_waker k) s))"

definition stream_is_terminated :: "async_stream \<Rightarrow> bool" where
  "stream_is_terminated k = stream_ended k"

definition stream_drop :: "async_stream \<Rightarrow> 'q sys \<Rightarrow> 'q sys exec" where
  "stream_drop k s =
     exec_bind (case stream_waker k of None \<Rightarrow> Done s | Some a \<Rightarrow> abandon_recv_waker a s) (\<lambda>s1.
       exec_map (drop_owner (stream_waker k)) (close_rx (sched s1)))"

section \<open>Handles\<close>

definition atx_drop :: "'q sys \<Rightarrow> 'q sys exec" where
  "atx_drop s = close_tx s"

definition arx_drop :: "'q sys \<Rightarrow> 'q sys exec" where
  "arx_drop s = close_rx s"

definition matx_clone :: "'q sys \<Rightarrow> 'q sys" where
  "matx_clone s = add_tx s"

definition marx_clone :: "'q sys \<Rightarrow> 'q sys" where
  "marx_clone s = add_rx s"

definition atx_is_disconnected :: "'q sys \<Rightarrow> bool" where
  "atx_is_disconnected s = is_rx_closed s"

definition arx_is_disconnected :: "'q sys \<Rightarrow> bool" where
  "arx_is_disconnected s = is_tx_closed s"

text \<open>Converting a blocking handle: the new one is counted before the old one is dropped.\<close>

definition atx_from_blocking :: "'q sys \<Rightarrow> 'q sys exec" where
  "atx_from_blocking s = close_tx (sched (add_tx s))"

definition arx_from_blocking :: "'q sys \<Rightarrow> 'q sys exec" where
  "arx_from_blocking s = close_rx (sched (add_rx s))"

definition matx_from_blocking :: "'q sys \<Rightarrow> 'q sys exec" where
  "matx_from_blocking s = close_tx (sched (add_tx s))"

definition marx_from_blocking :: "'q sys \<Rightarrow> 'q sys exec" where
  "marx_from_blocking s = close_rx (sched (add_rx s))"

end
