(* ===== verification/Async_Safety.thy ===== *)
theory Async_Safety
  imports Async Channel_Safety
begin

unbundle bit_operations_syntax

text \<open>
  The asynchronous operations do not fail. The set \<open>T\<close> of tasks holds the wakers the future was polled
  with; other threads may do anything polite between any two steps, and between two polls.
\<close>

section \<open>The steps of a poll\<close>

lemma backoff_spin_done: "\<exists>b' n c. backoff_spin b = Done (b', n, c) \<and> config b' = config b"
proof -
  have "unat (if step b < SPIN_LIMIT then step b else SPIN_LIMIT) < 31"
    by (auto simp: SPIN_LIMIT_def word_less_nat_alt)
  then show ?thesis by (auto simp: backoff_spin_def spin_hints_small Let_def)
qed

definition of_tasks :: "thin_waker set \<Rightarrow> nat \<Rightarrow> bool" where
  "of_tasks T task \<longleftrightarrow> Async task \<in> T \<and> T \<subseteq> range Async"

lemma reg_async_senders_safe:
  assumes "sys_ok iv ks kr T k s" "can_wait ks" "of_tasks T task"
  shows "safe (with_senders (\<lambda>w g. reg_reg_waker_async w g task k) s)
    (\<lambda>(s', k', p). sys_ok iv ks kr T k' s' \<and> k' \<noteq> None)"
  using safe_senders [OF assms(1), of "\<lambda>w g. reg_reg_waker_async w g task k" fst "\<lambda>r. fst r \<noteq> None"]
    reg_waker_async_safe [OF sys_okD(1,3) [OF assms(1)] _ sys_okD(8) [OF assms(1)], of task] assms(2,3)
    sys_okD(5) [OF assms(1)]
  by (fastforce simp: can_wait_def of_tasks_def case_prod_unfold)

lemma reg_async_recvs_safe:
  assumes "sys_ok iv ks kr T k s" "can_wait kr" "of_tasks T task"
  shows "safe (with_recvs (\<lambda>w g. reg_reg_waker_async w g task k) s)
    (\<lambda>(s', k', p). sys_ok iv ks kr T k' s' \<and> k' \<noteq> None)"
  using safe_recvs [OF assms(1), of "\<lambda>w g. reg_reg_waker_async w g task k" fst "\<lambda>r. fst r \<noteq> None"]
    reg_waker_async_safe [OF sys_okD(1,4) [OF assms(1)] _ sys_okD(8) [OF assms(1)], of task] assms(2,3)
    sys_okD(6) [OF assms(1)]
  by (fastforce simp: can_wait_def of_tasks_def case_prod_unfold)

lemma cancel_recvs_none:
  assumes "sys_ok iv ks kr T k s"
  shows "safe (with_recvs (\<lambda>w g. reg_cancel_waker w g k) s) (\<lambda>(s', k'). sys_ok iv ks kr T None s' \<and> k' = None)"
  using safe_recvs [OF assms(1), of "\<lambda>w g. reg_cancel_waker w g k" "\<lambda>k. k" "\<lambda>k. k = None"]
    reg_cancel_waker_safe [OF sys_okD(1,4,8) [OF assms(1)]] sys_okD(6) [OF assms(1)]
  by (fastforce elim: safe_mono)

text \<open>What a poll that reports a disconnected channel has seen.\<close>

definition drained_poll :: "('q \<Rightarrow> 'a list) \<Rightarrow> try_recv_error + 'a \<Rightarrow> 'q sys \<Rightarrow> bool" where
  "drained_poll cont r s \<longleftrightarrow> (r = Inl TRDisconnected \<longrightarrow> cont (ch_inner (sy_chan s)) = [])"

lemma drained_poll_simps [simp]: "drained_poll cont (Inr x) s" "drained_poll cont (Inl TREmpty) s"
  by (simp_all add: drained_poll_def)

context lawful_flavor
begin

lemma atx_spin_safe:
  assumes "sys_ok inv ks kr T k s"
  shows "safe (atx_spin F fuel x b s) (\<lambda>(s', sent). sys_ok inv ks kr T k s')"
  using assms
proof (induction fuel arbitrary: b s)
  case 0
  then show ?case by simp
next
  case (Suc fuel)
  obtain b' n c where b': "backoff_spin b = Done (b', n, c)" using backoff_spin_done by blast
  show ?case
    by (simp add: b', rule safe_bind [OF try_send_safe [OF sys_ok_sched [OF Suc.prems]]])
      (use Suc.IH in \<open>auto simp: safe_map intro!: safe_mono [OF on_send_safe] sys_ok_sched\<close>)
qed

lemma atx_first_spin_safe:
  assumes "sys_ok inv ks kr T k s"
  shows "safe (atx_first_spin F fuel x k s) (\<lambda>(s', sent). sys_ok inv ks kr T k s' \<and> (sent \<longrightarrow> k = None))"
  using assms atx_spin_safe [OF assms]
  by (auto simp: atx_first_spin_def split: option.split elim!: safe_mono)

lemma atx_poll_loop_safe:
  assumes "sys_ok inv ks kr T k s" "can_wait ks" "fl_bounded F" "of_tasks T task"
  shows "safe (atx_poll_loop F fuel sink task x k s) (\<lambda>(s', k', p). sys_ok inv ks kr T k' s' \<and>
    (p = PReady (Inr ()) \<longrightarrow> k' = None) \<and> (p = PPending \<longrightarrow> k' \<noteq> None))"
  using assms(1)
proof (induction fuel arbitrary: k s)
  case 0
  then show ?case by simp
next
  case (Suc fuel)
  define Q where "Q = (\<lambda>(s' :: 'q sys, k', p). sys_ok inv ks kr T k' s' \<and>
    (p = PReady (Inr () :: unit + unit) \<longrightarrow> k' = None) \<and> (p = PPending \<longrightarrow> k' \<noteq> None))"
  define C where "C = (\<lambda>k (s3 :: 'q sys). exec_bind (sender_double_check F sink x k (sched s3)) (\<lambda>(s4, k1, state).
      if state < W_Woken then Done (s4, k1, PPending)
      else if W_Woken < state
      then if state = W_Done then Done (drop_owner k1 s4, None, PReady (Inr ()))
           else if state = W_Closed then Done (drop_owner k1 s4, None, PReady (Inl ()))
           else Fault Panic
      else atx_poll_loop F fuel sink task x k1 s4))"
  define R where "R = (\<lambda>s2. exec_bind (with_senders (\<lambda>w g. reg_reg_waker_async w g task k) (sched s2)) (\<lambda>(s3, k, p).
      case p of
        Some Pending \<Rightarrow> Done (s3, k, PPending)
      | Some Ready \<Rightarrow> Done (s3, k, PReady (Inl ()))
      | None \<Rightarrow> C k s3))"
  have C: "safe (C (Some a) s3) Q" if "sys_ok inv ks kr T (Some a) s3" for a s3
    unfolding C_def
    by (rule safe_bind [OF double_check_safe [OF sys_ok_sched [OF that] assms(3)]])
      (use Suc.IH in \<open>auto simp: Q_def sys_ok_drop_owner live_state_def\<close>)
  have R: "safe (R s2) Q" if "sys_ok inv ks kr T k s2" for s2
    unfolding R_def
    by (rule safe_bind [OF reg_async_senders_safe [OF sys_ok_sched [OF that] assms(2,4)]])
      (use C in \<open>auto simp: Q_def split: option.split poll.split\<close>)
  have spin: "safe (exec_bind (atx_first_spin F fuel x k s1) (\<lambda>(s2, sent).
      if sent then Done (s2, k, PReady (Inr ())) else R s2)) Q"
    if "sys_ok inv ks kr T k s1" for s1
    by (rule safe_bind [OF atx_first_spin_safe [OF that]]) (use R in \<open>auto simp: Q_def\<close>)
  have unfold: "atx_poll_loop F (Suc fuel) sink task x k s =
      exec_bind (with_inner (\<lambda>q. fl_try_send F q x) (sched s)) (\<lambda>(s1, sent).
        if sent then exec_map (\<lambda>s2. (drop_owner k s2, None, PReady (Inr ()))) (on_send (sched s1))
        else exec_bind (atx_first_spin F fuel x k s1) (\<lambda>(s2, sent).
          if sent then Done (s2, k, PReady (Inr ())) else R s2))"
    by (simp only: atx_poll_loop.simps C_def R_def)
  have "safe (atx_poll_loop F (Suc fuel) sink task x k s) Q"
    unfolding unfold
    by (rule safe_bind [OF try_send_safe [OF sys_ok_sched [OF Suc.prems]]])
      (use spin in \<open>auto simp: Q_def safe_map intro!: safe_mono [OF on_send_safe] sys_ok_sched sys_ok_drop_owner\<close>)
  then show ?case by (simp add: Q_def)
qed

lemma atx_poll_send_safe:
  assumes "sys_ok inv ks kr T k s" "can_wait ks" "fl_bounded F" "of_tasks T task"
  shows "safe (atx_poll_send F fuel sink task x k s) (\<lambda>(s', k', p). sys_ok inv ks kr T k' s' \<and>
    (p = PReady (Inr ()) \<longrightarrow> k' = None) \<and> (p = PPending \<longrightarrow> k' \<noteq> None))"
  using atx_poll_loop_safe [OF assms] assms(1) by (simp add: atx_poll_send_def)

lemma arx_spin_safe:
  assumes "sys_ok inv ks kr T k s"
  shows "safe (arx_spin F fuel b s) (\<lambda>(s', got). sys_ok inv ks kr T k s')"
  using assms
proof (induction fuel arbitrary: b s)
  case 0
  then show ?case by simp
next
  case (Suc fuel)
  obtain b' n c where b': "backoff_spin b = Done (b', n, c)" using backoff_spin_done by blast
  show ?case
    by (simp add: b', rule safe_bind [OF try_recv_safe [OF sys_ok_sched [OF Suc.prems]]])
      (use Suc.IH in \<open>auto simp: safe_map split: option.split intro!: safe_mono [OF on_recv_safe] sys_ok_sched\<close>)
qed

text \<open>What a receiving step leaves: a received message comes without a waker.\<close>

definition arx_post :: "reg_kind \<Rightarrow> reg_kind \<Rightarrow> thin_waker set \<Rightarrow> 'q sys \<times> nat option \<times> 'b option \<Rightarrow> bool" where
  "arx_post ks kr T r = (case r of (s', k', got) \<Rightarrow> sys_ok inv ks kr T k' s' \<and> (got \<noteq> None \<longrightarrow> k' = None))"

lemma arx_take_safe:
  assumes "sys_ok inv ks kr T k s" "recv = fl_try_recv F \<or> recv = fl_try_recv_final F"
  shows "safe (arx_take recv k s) (\<lambda>(s', k', got). arx_post ks kr T (s', k', got) \<and>
    (got = None \<longrightarrow> k' = k \<and> content (ch_inner (sy_chan s')) = []))"
proof -
  note ok = sys_ok_sched [OF assms(1)]
  have "safe (with_inner recv (sched s))
      (\<lambda>(s', r). sys_ok inv ks kr T k s' \<and> (r = None \<longrightarrow> content (ch_inner (sy_chan s')) = []))"
    using pop_step [OF sys_okD(2) [OF ok]] sys_ok_inner [OF ok] assms(2) final_eq [OF sys_okD(2) [OF ok]]
    by (auto simp: with_inner_def split: list.splits)
  then show ?thesis
    unfolding arx_take_def
    by (rule safe_bind) (auto simp: arx_post_def safe_map split: option.split
        intro!: safe_bind [OF on_recv_safe] safe_mono [OF cancel_recvs_none] sys_ok_sched)
qed

lemma arx_first_safe:
  assumes "sys_ok inv ks kr T k s"
  shows "safe (arx_first F fuel k s) (\<lambda>(s', k', got). arx_post ks kr T (s', k', got))"
proof (cases "k = None")
  case True
  then show ?thesis
    using assms
    by (auto simp: arx_first_def arx_post_def safe_map split: option.split
        intro!: safe_bind [OF try_recv_safe] safe_mono [OF on_recv_safe] safe_mono [OF arx_spin_safe] sys_ok_sched)
next
  case False
  then show ?thesis using arx_take_safe [OF assms, of "fl_try_recv F"] by (auto simp: arx_first_def elim: safe_mono)
qed

lemma arx_finish_safe:
  assumes "sys_ok inv ks kr T k s"
  shows "safe (arx_finish F k s) (\<lambda>(s', k', r). sys_ok inv ks kr T k' s' \<and> (\<forall>x. r = Inr x \<longrightarrow> k' = None) \<and>
    drained_poll content r s')"
  using arx_take_safe [OF sys_ok_sched [OF assms], of "fl_try_recv F"] sys_ok_sched [OF assms]
  by (auto simp: arx_finish_def Let_def safe_map arx_post_def drained_poll_def split: option.splits elim!: safe_mono)

lemma arx_poll_item_safe:
  assumes "sys_ok inv ks kr T k s" "can_wait kr" "of_tasks T task"
  shows "safe (arx_poll_item F fuel stream task k s)
    (\<lambda>(s', k', r). sys_ok inv ks kr T k' s' \<and> (\<forall>x. r = Inr x \<longrightarrow> k' = None) \<and> drained_poll content r s')"
  using assms(1)
proof (induction fuel arbitrary: k s)
  case 0
  then show ?case by simp
next
  case (Suc fuel)
  define Q where "Q = (\<lambda>(s' :: 'q sys, k', r :: try_recv_error + 'a). sys_ok inv ks kr T k' s' \<and>
    (\<forall>x. r = Inr x \<longrightarrow> k' = None) \<and> drained_poll content r s')"
  define C where "C = (\<lambda>k2 (s3 :: 'q sys). exec_bind
      (with_recvs (\<lambda>w g. exec_map (\<lambda>(w', st). (w', g, st)) (reg_commit_waiting w g k2)) (sched s3))
      (\<lambda>(s4, state). if state = W_Woken then arx_poll_item F fuel stream task k2 s4 else arx_finish F k2 s4))"
  define R where "R = (\<lambda>k1 s2. exec_bind (arx_take (fl_try_recv_final F) k1 s2) (\<lambda>(s3, k2, got).
      case got of
        Some item \<Rightarrow> Done (s3, k2, Inr item)
      | None \<Rightarrow> if stream then arx_finish F k2 s3 else C k2 s3))"
  have fin: "safe (arx_finish F k' s') Q" if "sys_ok inv ks kr T k' s'" for k' s'
    using arx_finish_safe [OF that] by (simp add: Q_def)
  have C: "safe (C (Some a) s3) Q" if "sys_ok inv ks kr T (Some a) s3" for a s3
    unfolding C_def
    by (rule safe_bind [OF commit_recvs_safe [OF sys_ok_sched [OF that]]])
      (use Suc.IH fin in \<open>auto simp: Q_def\<close>)
  have R: "safe (R (Some a) s2) Q" if "sys_ok inv ks kr T (Some a) s2" for a s2
    unfolding R_def
    by (rule safe_bind [OF arx_take_safe [OF that]], blast)
      (use fin C in \<open>auto simp: Q_def arx_post_def split: option.split\<close>)
  have unfold: "arx_poll_item F (Suc fuel) stream task k s = exec_bind (arx_first F fuel k s) (\<lambda>(s1, k, got).
      case got of
        Some item \<Rightarrow> Done (s1, k, Inr item)
      | None \<Rightarrow> exec_bind (with_recvs (\<lambda>w g. reg_reg_waker_async w g task k) (sched s1)) (\<lambda>(s2, k1, p).
          if p \<noteq> None then arx_finish F k1 s2 else R k1 s2))"
    by (simp only: arx_poll_item.simps C_def R_def)
  have "safe (arx_poll_item F (Suc fuel) stream task k s) Q"
    unfolding unfold
    by (rule safe_bind [OF arx_first_safe [OF Suc.prems]])
      (use R fin in \<open>auto simp: arx_post_def split: option.split
        intro!: safe_bind [OF reg_async_recvs_safe [OF sys_ok_sched assms(2,3)]] simp: Q_def\<close>)
  then show ?case by (simp add: Q_def)
qed

end

section \<open>Futures\<close>

text \<open>
  What a runtime does with a future: it polls it, lets others run, polls again, and drops it when it is
  ready or when nobody polls it any more. \<open>ps\<close> are the polls; the result is the answer of the future,
  if it came to one, and what its drop gave back.
\<close>

fun future_run :: "('p \<Rightarrow> 'f \<Rightarrow> 'q sys \<Rightarrow> ('q sys \<times> 'f \<times> 'r std_poll) exec) \<Rightarrow> ('f \<Rightarrow> 'q sys \<Rightarrow> ('q sys \<times> 'd) exec) \<Rightarrow>
    'p list \<Rightarrow> 'f \<Rightarrow> 'q sys \<Rightarrow> ('q sys \<times> 'r option \<times> 'd) exec" where
  "future_run pl dr [] f s = exec_map (\<lambda>(s1, d). (s1, None, d)) (dr f (sched s))"
| "future_run pl dr (p # ps) f s =
     exec_bind (pl p f (sched s)) (\<lambda>(s1, f1, r).
       case r of
         PPending \<Rightarrow> future_run pl dr ps f1 s1
       | PReady x \<Rightarrow> exec_map (\<lambda>(s2, d). (s2, Some x, d)) (dr f1 (sched s1)))"

text \<open>
  The contract of a future: while it is pending it may be polled, in any state it may be dropped, and
  others running in between do not harm it.
\<close>

locale pollable =
  fixes pl :: "'p \<Rightarrow> 'f \<Rightarrow> 'q sys \<Rightarrow> ('q sys \<times> 'f \<times> 'r std_poll) exec"
    and dr :: "'f \<Rightarrow> 'q sys \<Rightarrow> ('q sys \<times> 'd) exec"
    and valid :: "'p \<Rightarrow> bool"
    and pending :: "'f \<Rightarrow> 'q sys \<Rightarrow> bool"
    and finished :: "'f \<Rightarrow> 'q sys \<Rightarrow> bool"
    and over :: "'q sys \<Rightarrow> bool"
  assumes poll_safe: "pending f s \<Longrightarrow> valid p \<Longrightarrow>
      safe (pl p f s) (\<lambda>(s', f', r). if r = PPending then pending f' s' else finished f' s')"
    and drop_pending: "pending f s \<Longrightarrow> safe (dr f s) (\<lambda>(s', d). over s')"
    and drop_finished: "finished f s \<Longrightarrow> safe (dr f s) (\<lambda>(s', d). over s')"
    and others_pending: "pending f s \<Longrightarrow> pending f (sched s)"
    and others_finished: "finished f s \<Longrightarrow> finished f (sched s)"
begin

lemma run_safe: "pending f s \<Longrightarrow> \<forall>p \<in> set ps. valid p \<Longrightarrow> safe (future_run pl dr ps f s) (\<lambda>(s', r, d). over s')"
proof (induction ps arbitrary: f s)
  case Nil
  then show ?case
    using drop_pending [OF others_pending [OF Nil.prems(1)]] by (auto simp: safe_map case_prod_unfold)
next
  case (Cons p ps)
  have p: "valid p" "\<forall>p \<in> set ps. valid p" using Cons.prems(2) by auto
  show ?case
    unfolding future_run.simps
    by (rule safe_bind [OF poll_safe [OF others_pending [OF Cons.prems(1)] p(1)]])
      (use Cons.IH [OF _ p(2)] drop_finished [OF others_finished] in
        \<open>auto simp: safe_map case_prod_unfold split: std_poll.splits\<close>)
qed

end

text \<open>The states of the four futures; \<open>T\<close> holds the tasks that may poll it.\<close>

definition tx_side :: "('q, 'a) flavor \<Rightarrow> ('q \<Rightarrow> bool) \<Rightarrow> ('q \<Rightarrow> 'a list) \<Rightarrow> reg_kind \<Rightarrow> thin_waker set \<Rightarrow> bool" where
  "tx_side F iv cont ks T \<longleftrightarrow> lawful_flavor F iv cont \<and> fl_bounded F \<and> can_wait ks \<and> T \<subseteq> range Async"

definition rx_side :: "('q, 'a) flavor \<Rightarrow> ('q \<Rightarrow> bool) \<Rightarrow> ('q \<Rightarrow> 'a list) \<Rightarrow> reg_kind \<Rightarrow> thin_waker set \<Rightarrow> bool" where
  "rx_side F iv cont kr T \<longleftrightarrow> lawful_flavor F iv cont \<and> can_wait kr \<and> T \<subseteq> range Async"

definition sf_state :: "bool \<Rightarrow> bool \<Rightarrow> ('q \<Rightarrow> bool) \<Rightarrow> reg_kind \<Rightarrow> reg_kind \<Rightarrow> thin_waker set \<Rightarrow> 'a send_future \<Rightarrow> 'q sys \<Rightarrow> bool" where
  "sf_state side live iv ks kr T f s \<longleftrightarrow> side \<and> sf_tx f = live \<and> (sf_tx f \<or> sf_waker f = None) \<and>
     sys_ok iv ks kr T (sf_waker f) s"

definition rf_state :: "bool \<Rightarrow> ('q \<Rightarrow> bool) \<Rightarrow> reg_kind \<Rightarrow> reg_kind \<Rightarrow> thin_waker set \<Rightarrow> recv_future \<Rightarrow> 'q sys \<Rightarrow> bool" where
  "rf_state side iv ks kr T f s \<longleftrightarrow> side \<and> sys_ok iv ks kr T (rf_waker f) s"

lemma sf_state_sched: "sf_state side live iv ks kr T f s \<Longrightarrow> sf_state side live iv ks kr T f (sched s)"
  by (auto simp: sf_state_def)

lemma rf_state_sched: "rf_state side iv ks kr T f s \<Longrightarrow> rf_state side iv ks kr T f (sched s)"
  by (auto simp: rf_state_def)

lemma send_future_drop_safe:
  assumes "sf_state side live iv ks kr T f s"
  shows "safe (send_future_drop f s) (\<lambda>(s', d). sys_ok iv ks kr T None s')"
proof -
  have ok: "sys_ok iv ks kr T (sf_waker f) s" and w: "\<not> sf_tx f \<Longrightarrow> sf_waker f = None"
    using assms by (auto simp: sf_state_def)
  show ?thesis
  proof (cases "sf_tx f \<and> sf_waker f \<noteq> None")
    case True
    then obtain a where "sf_waker f = Some a" by auto
    with True ok abandon_send_safe [of iv ks kr T a s] show ?thesis
      by (auto simp: send_future_drop_def safe_map intro: sys_ok_drop_owner elim!: safe_mono)
  next
    case False
    with ok w sys_ok_drop_owner [OF ok] show ?thesis by (auto simp: send_future_drop_def)
  qed
qed

lemma recv_future_drop_safe:
  assumes "rf_state side iv ks kr T f s"
  shows "safe (recv_future_drop f s) (sys_ok iv ks kr T None)"
  using assms abandon_recv_safe [of iv ks kr T _ s]
  by (auto simp: rf_state_def recv_future_drop_def safe_map sys_ok_drop_owner split: option.split
      intro!: safe_mono [OF abandon_recv_safe] dest: sys_ok_drop_owner)

lemma send_future_poll_safe:
  assumes "sf_state (tx_side F iv cont ks T) True iv ks kr T f s" "Async task \<in> T"
  shows "safe (send_future_poll F fuel task f s) (\<lambda>(s', f', r).
    if r = PPending then sf_state (tx_side F iv cont ks T) True iv ks kr T f' s'
    else sf_state (tx_side F iv cont ks T) False iv ks kr T f' s')"
proof -
  have side: "lawful_flavor F iv cont" "fl_bounded F" "can_wait ks" "of_tasks T task" "sf_tx f"
    "sys_ok iv ks kr T (sf_waker f) s" "tx_side F iv cont ks T"
    using assms by (auto simp: sf_state_def tx_side_def of_tasks_def)
  show ?thesis
    unfolding send_future_poll_def using side(5)
    by (simp, intro safe_bind [OF lawful_flavor.atx_poll_send_safe [OF side(1,6,3,2,4)]])
      (use side in \<open>auto simp: sf_state_def sys_ok_drop_owner split: std_poll.split sum.split\<close>)
qed

lemma send_timeout_future_poll_safe:
  assumes "sf_state (tx_side F iv cont ks T) True iv ks kr T f s" "Async task \<in> T"
  shows "safe (send_timeout_future_poll F fuel task timer f s) (\<lambda>(s', f', r).
    if r = PPending then sf_state (tx_side F iv cont ks T) True iv ks kr T f' s'
    else sf_state (tx_side F iv cont ks T) False iv ks kr T f' s')"
proof -
  have side: "lawful_flavor F iv cont" "fl_bounded F" "can_wait ks" "of_tasks T task" "sf_tx f"
    "sys_ok iv ks kr T (sf_waker f) s" "tx_side F iv cont ks T"
    using assms by (auto simp: sf_state_def tx_side_def of_tasks_def)
  show ?thesis
    unfolding send_timeout_future_poll_def using side(5)
    by (simp, intro safe_bind [OF lawful_flavor.atx_poll_send_safe [OF side(1,6,3,2,4)]])
      (use side in \<open>auto simp: sf_state_def sys_ok_drop_owner safe_map split: std_poll.split sum.split option.split
        intro!: safe_mono [OF abandon_send_safe] sys_ok_sched\<close>)
qed

lemma recv_future_poll_safe:
  assumes "rf_state (rx_side F iv cont kr T) iv ks kr T f s" "Async task \<in> T"
  shows "safe (recv_future_poll F fuel task f s) (\<lambda>(s', f', r). rf_state (rx_side F iv cont kr T) iv ks kr T f' s')"
    and "safe (recv_timeout_future_poll F fuel task timer f s) (\<lambda>(s', f', r). rf_state (rx_side F iv cont kr T) iv ks kr T f' s')"
proof -
  have side: "lawful_flavor F iv cont" "can_wait kr" "of_tasks T task" "sys_ok iv ks kr T (rf_waker f) s"
    "rx_side F iv cont kr T"
    using assms by (auto simp: rf_state_def rx_side_def of_tasks_def)
  note poll = lawful_flavor.arx_poll_item_safe [OF side(1,4,2,3), of fuel False]
  show "safe (recv_future_poll F fuel task f s) (\<lambda>(s', f', r). rf_state (rx_side F iv cont kr T) iv ks kr T f' s')"
    unfolding recv_future_poll_def
    by (rule safe_bind [OF poll])
      (use side in \<open>auto simp: rf_state_def sys_ok_drop_owner split: sum.split try_recv_error.split\<close>)
  show "safe (recv_timeout_future_poll F fuel task timer f s) (\<lambda>(s', f', r). rf_state (rx_side F iv cont kr T) iv ks kr T f' s')"
    unfolding recv_timeout_future_poll_def safe_map
    by (rule safe_mono [OF poll]) (use side in \<open>auto simp: rf_state_def\<close>)
qed

interpretation send_fut: pollable "send_future_poll F fuel" send_future_drop "\<lambda>task. Async task \<in> T"
  "sf_state (tx_side F iv cont ks T) True iv ks kr T" "sf_state (tx_side F iv cont ks T) False iv ks kr T"
  "sys_ok iv ks kr T None"
  for F :: "('q, 'a) flavor" and iv cont ks kr T fuel
  by unfold_locales
    (erule (1) send_future_poll_safe | erule send_future_drop_safe | erule sf_state_sched)+

interpretation send_timeout_fut: pollable "\<lambda>p. send_timeout_future_poll F fuel (fst p) (snd p)" send_future_drop
  "\<lambda>p. Async (fst p) \<in> T" "sf_state (tx_side F iv cont ks T) True iv ks kr T"
  "sf_state (tx_side F iv cont ks T) False iv ks kr T" "sys_ok iv ks kr T None"
  for F :: "('q, 'a) flavor" and iv cont ks kr T fuel
  by unfold_locales
    (erule (1) send_timeout_future_poll_safe | erule send_future_drop_safe | erule sf_state_sched)+

definition recv_drop :: "recv_future \<Rightarrow> 'q sys \<Rightarrow> ('q sys \<times> unit) exec" where
  "recv_drop f s = exec_map (\<lambda>s'. (s', ())) (recv_future_drop f s)"

lemma recv_drop_safe: "rf_state side iv ks kr T f s \<Longrightarrow> safe (recv_drop f s) (\<lambda>(s', d). sys_ok iv ks kr T None s')"
  using recv_future_drop_safe by (simp add: recv_drop_def safe_map)

interpretation recv_fut: pollable "recv_future_poll F fuel" recv_drop "\<lambda>task. Async task \<in> T"
  "rf_state (rx_side F iv cont kr T) iv ks kr T" "rf_state (rx_side F iv cont kr T) iv ks kr T" "sys_ok iv ks kr T None"
  for F :: "('q, 'a) flavor" and iv cont ks kr T fuel
  by unfold_locales (auto intro: recv_future_poll_safe recv_drop_safe rf_state_sched)

interpretation recv_timeout_fut: pollable "\<lambda>p. recv_timeout_future_poll F fuel (fst p) (snd p)" recv_drop
  "\<lambda>p. Async (fst p) \<in> T" "rf_state (rx_side F iv cont kr T) iv ks kr T"
  "rf_state (rx_side F iv cont kr T) iv ks kr T" "sys_ok iv ks kr T None"
  for F :: "('q, 'a) flavor" and iv cont ks kr T fuel
  by unfold_locales (auto intro: recv_future_poll_safe recv_drop_safe rf_state_sched)

section \<open>Properties\<close>

text \<open>
  C11. Asynchronous sends do not fail. A \<^verbatim>\<open>SendFuture\<close> or \<^verbatim>\<open>SendTimeoutFuture\<close> on a well-formed bounded channel is
  polled any number of times, by any of its tasks, with its timer ready or not, and then dropped, finished
  or cancelled; whatever polite other threads do at every point in between, no unwrap, \<^verbatim>\<open>expect\<close>,
  \<^verbatim>\<open>unreachable!\<close> or debug assertion fails, no freed waker is touched, and in the end the channel is
  well-formed and the future holds no waker.
\<close>

theorem async_send_no_fault:
  assumes "lawful_flavor F iv cont" "fl_bounded F" "can_wait ks" "T \<subseteq> range Async"
    and "sys_ok iv ks kr T None s" "\<forall>task \<in> set tasks. Async task \<in> T" "\<forall>p \<in> set timed. Async (fst p) \<in> T"
  shows "safe (future_run (send_future_poll F fuel) send_future_drop tasks (atx_send x) s)
      (\<lambda>(s', r, d). sys_ok iv ks kr T None s') \<and>
    safe (future_run (\<lambda>p. send_timeout_future_poll F fuel (fst p) (snd p)) send_future_drop timed (atx_send_with_timer x) s)
      (\<lambda>(s', r, d). sys_ok iv ks kr T None s')"
proof -
  have "sf_state (tx_side F iv cont ks T) True iv ks kr T (atx_send x) s"
    "sf_state (tx_side F iv cont ks T) True iv ks kr T (atx_send_with_timer x) s"
    using assms by (simp_all add: sf_state_def tx_side_def atx_send_def atx_send_with_timer_def)
  then show ?thesis
    using send_fut.run_safe [OF _ assms(6)] send_timeout_fut.run_safe [OF _ assms(7)] by blast
qed

theorem async_send_no_fault_witness:
  "\<exists>q. array_new 2 = Done q \<and>
    safe (future_run (send_future_poll (array_flavor []) 50) send_future_drop [7, 8] (atx_send (5 :: nat))
      (fresh_sys (array_flavor []) (detect_backoff_cfg (Some 8) backoff_globals_init) q
        (RegMulti multi_new) (RegMulti multi_new) 0 [id])) (\<lambda>_. True)"
proof -
  obtain q :: "nat array_queue" where q: "array_new 2 = Done q" "aq_inv q"
    using aq_new_inv [of 2] by (force simp: array_new_def)
  have "\<forall>f \<in> set [id]. polite aq_inv (kind_of (RegMulti multi_new)) (kind_of (RegMulti multi_new)) (range Async) f"
    by (simp add: polite_def)
  from fresh_sys_ok [OF q(2) _ _ this]
  have "sys_ok aq_inv KMulti KMulti (range Async) None (fresh_sys (array_flavor [])
      (detect_backoff_cfg (Some 8) backoff_globals_init) q (RegMulti multi_new) (RegMulti multi_new) 0 [id])"
    by simp
  from async_send_no_fault [where tasks = "[7, 8]" and timed = "[]" and x = 5 and fuel = 50,
      OF arrf.lawful_flavor_axioms _ _ _ this] q show ?thesis
    by (force simp: can_wait_def array_flavor_simps elim: safe_mono)
qed

text \<open>
  C13. Asynchronous receives do not fail: likewise for a \<^verbatim>\<open>RecvFuture\<close> and a \<^verbatim>\<open>RecvTimeoutFuture\<close>, for every
  lawful flavor, bounded or not.
\<close>

theorem async_recv_no_fault:
  assumes "lawful_flavor F iv cont" "can_wait kr" "T \<subseteq> range Async"
    and "sys_ok iv ks kr T None s" "\<forall>task \<in> set tasks. Async task \<in> T" "\<forall>p \<in> set timed. Async (fst p) \<in> T"
  shows "safe (future_run (recv_future_poll F fuel) recv_drop tasks arx_recv s)
      (\<lambda>(s', r, d). sys_ok iv ks kr T None s') \<and>
    safe (future_run (\<lambda>p. recv_timeout_future_poll F fuel (fst p) (snd p)) recv_drop timed arx_recv_with_timer s)
      (\<lambda>(s', r, d). sys_ok iv ks kr T None s')"
proof -
  have "rf_state (rx_side F iv cont kr T) iv ks kr T arx_recv s"
    "rf_state (rx_side F iv cont kr T) iv ks kr T arx_recv_with_timer s"
    using assms by (simp_all add: rf_state_def rx_side_def arx_recv_def arx_recv_with_timer_def)
  then show ?thesis
    using recv_fut.run_safe [OF _ assms(5)] recv_timeout_fut.run_safe [OF _ assms(6)] by blast
qed

theorem async_recv_no_fault_witness:
  "\<exists>q. array_new 2 = Done (q :: nat array_queue) \<and>
    safe (future_run (recv_future_poll (array_flavor []) 50) recv_drop [7, 8] arx_recv
      (fresh_sys (array_flavor []) (detect_backoff_cfg (Some 8) backoff_globals_init) q
        (RegMulti multi_new) (RegSingle weak_cell_new) 0 [id])) (\<lambda>_. True)"
proof -
  obtain q :: "nat array_queue" where q: "array_new 2 = Done q" "aq_inv q"
    using aq_new_inv [of 2] by (force simp: array_new_def)
  have "\<forall>f \<in> set [id]. polite aq_inv (kind_of (RegMulti multi_new)) (kind_of (RegSingle weak_cell_new)) (range Async) f"
    by (simp add: polite_def)
  from fresh_sys_ok [OF q(2) _ _ this]
  have "sys_ok aq_inv KMulti KSingle (range Async) None (fresh_sys (array_flavor [])
      (detect_backoff_cfg (Some 8) backoff_globals_init) q (RegMulti multi_new) (RegSingle weak_cell_new) 0 [id])"
    by simp
  from async_recv_no_fault [where tasks = "[7, 8]" and timed = "[]" and fuel = 50,
      OF arrf.lawful_flavor_axioms _ _ this] q show ?thesis
    by (force simp: can_wait_def elim: safe_mono)
qed

end
