(* ===== verification/Async_Once.thy ===== *)
theory Async_Once
  imports Async_Safety Exactly_Once
begin

text \<open>
  Exactly-once delivery of the asynchronous operations, with the log of \<open>Exactly_Once\<close>: a send future that is
  polled and dropped at any moment has put its item into the queue once, or gave it back, or dropped it; a
  receive future has taken exactly the item it answered.
\<close>

section \<open>Polls with a log\<close>

lemma attach_async_backoff [attach_simps]: "get_async_backoff (logged F) (attach l s) = get_async_backoff F s"
  by (simp add: get_async_backoff_def attach_simps)

lemma attach_atx_spin [attach_simps]:
  "atx_spin (logged F) fuel x b (attach l s) =
     exec_map (relog (\<lambda>r. if r then [Sent x] else []) l) (atx_spin F fuel x b s)"
  by (induction fuel arbitrary: b s)
    (auto simp: attach_simps exec_push intro!: exec_bind_eqI exec_map_eqI)

lemma attach_atx_first_spin [attach_simps]:
  "atx_first_spin (logged F) fuel x k (attach l s) =
     exec_map (relog (\<lambda>r. if r then [Sent x] else []) l) (atx_first_spin F fuel x k s)"
  by (auto simp: atx_first_spin_def attach_simps split: option.split)

definition sent_event :: "'a \<Rightarrow> ('e + unit) std_poll \<Rightarrow> 'a qevent list" where
  "sent_event x p = (if p = PReady (Inr ()) then [Sent x] else [])"

lemma sent_event_simps [simp]:
  "sent_event x (PReady (Inr u)) = [Sent x]" "sent_event x (PReady (Inl e)) = []" "sent_event x PPending = []"
  by (simp_all add: sent_event_def)

context lawful_flavor
begin

lemma attach_atx_poll_loop:
  assumes "sys_ok inv ks kr T k s" "can_wait ks" "fl_bounded F" "of_tasks T task"
  shows "atx_poll_loop (logged F) fuel False task x k (attach l s) =
    exec_map (relog (\<lambda>r. sent_event x (snd r)) l) (atx_poll_loop F fuel False task x k s)"
  using assms(1)
proof (induction fuel arbitrary: k s)
  case 0
  then show ?case by simp
next
  case (Suc fuel)
  have lt: "W_Woken < W_Done" by (simp add: waker_states word_less_nat_alt)
  note dc = safe_DoneD [OF double_check_safe [OF sys_ok_sched assms(3)]]
  show ?case
    unfolding atx_poll_loop.simps attach_simps exec_push
    apply (rule exec_bind_eqI)
    subgoal premises one for r1
    proof -
      obtain s1 sent where r1: "r1 = (s1, sent)" by (cases r1)
      have s1: "sys_ok inv ks kr T k s1"
        using safe_DoneD [OF try_send_safe [OF sys_ok_sched [OF Suc.prems]] one] r1 by simp
      show ?thesis
      proof (cases sent)
        case True
        then show ?thesis by (auto simp: r1 attach_simps exec_push intro!: exec_map_eqI)
      next
        case False
        then have f: "sent = False" by simp
        show ?thesis
          unfolding r1 relog_pair prod.case f if_False append_Nil2 attach_simps exec_push
          apply (rule exec_bind_eqI)
          subgoal premises two for r2
          proof -
            obtain s2 sent2 where r2: "r2 = (s2, sent2)" by (cases r2)
            have s2: "sys_ok inv ks kr T k s2"
              using safe_DoneD [OF atx_first_spin_safe [OF s1] two] r2 by simp
            show ?thesis
            proof (cases sent2)
              case True
              then show ?thesis by (simp add: r2)
            next
              case False
              then have g: "sent2 = False" by simp
              show ?thesis
                unfolding r2 relog_pair prod.case g if_False append_Nil2 attach_simps exec_push
                apply (rule exec_bind_eqI)
                subgoal premises reg for r3
                proof -
                  from safe_DoneD [OF reg_async_senders_safe [OF sys_ok_sched [OF s2] assms(2,4)] reg]
                  obtain s3 a p where r3: "r3 = (s3, Some a, p)" "sys_ok inv ks kr T (Some a) s3" by (cases r3) auto
                  show ?thesis
                    by (auto simp: r3(1) attach_simps attach_double_check [OF sys_ok_sched [OF r3(2)] assms(3)]
                        exec_push Suc.IH lt split: option.split poll.split intro!: exec_bind_eqI dest!: dc [OF r3(2)])
                qed
                done
            qed
          qed
          done
      qed
    qed
    done
qed

lemma attach_atx_poll_send:
  assumes "sys_ok inv ks kr T k s" "can_wait ks" "fl_bounded F" "of_tasks T task"
  shows "atx_poll_send (logged F) fuel False task x k (attach l s) =
    exec_map (relog (\<lambda>r. sent_event x (snd r)) l) (atx_poll_send F fuel False task x k s)"
  using attach_atx_poll_loop [OF assms] by (simp add: atx_poll_send_def attach_simps)

lemma attach_send_future_poll:
  assumes "sys_ok inv ks kr T (sf_waker f) s" "can_wait ks" "fl_bounded F" "of_tasks T task"
  shows "send_future_poll (logged F) fuel task f (attach l s) =
    exec_map (relog (\<lambda>r. sent_event (sf_item f) (snd r)) l) (send_future_poll F fuel task f s)"
  by (auto simp: send_future_poll_def attach_atx_poll_send [OF assms] attach_simps exec_push
      split: std_poll.split sum.split intro!: exec_bind_eqI)

lemma attach_send_timeout_future_poll:
  assumes "sys_ok inv ks kr T (sf_waker f) s" "can_wait ks" "fl_bounded F" "of_tasks T task"
  shows "send_timeout_future_poll (logged F) fuel task timer f (attach l s) =
    exec_map (relog (\<lambda>r. sent_event (sf_item f) (snd r)) l) (send_timeout_future_poll F fuel task timer f s)"
  by (auto simp: send_timeout_future_poll_def attach_atx_poll_send [OF assms] attach_simps exec_push
      split: std_poll.split sum.split option.split intro!: exec_bind_eqI exec_map_eqI)

end

lemma attach_send_future_drop [attach_simps]:
  "send_future_drop f (attach l s) = exec_map (\<lambda>(s', r). (attach l s', r)) (send_future_drop f s)"
  by (auto simp: send_future_drop_def attach_simps exec_push split: option.split intro!: exec_map_eqI)

lemma attach_arx_spin [attach_simps]:
  "arx_spin (logged F) fuel b (attach l s) = exec_map (relog got_event l) (arx_spin F fuel b s)"
  by (induction fuel arbitrary: b s)
    (auto simp: attach_simps exec_push intro!: exec_bind_eqI exec_map_eqI split: option.split)

lemma attach_arx_take [attach_simps]:
  "arx_take (fl_try_recv (logged F)) k (attach l s) =
     exec_map (relog (\<lambda>r. got_event (snd r)) l) (arx_take (fl_try_recv F) k s)"
  "arx_take (fl_try_recv_final (logged F)) k (attach l s) =
     exec_map (relog (\<lambda>r. got_event (snd r)) l) (arx_take (fl_try_recv_final F) k s)"
  by (auto simp: arx_take_def attach_simps exec_push intro!: exec_bind_eqI exec_map_eqI split: option.split)

lemma attach_arx_first [attach_simps]:
  "arx_first (logged F) fuel k (attach l s) = exec_map (relog (\<lambda>r. got_event (snd r)) l) (arx_first F fuel k s)"
  by (auto simp: arx_first_def attach_simps exec_push intro!: exec_bind_eqI exec_map_eqI split: option.split)

lemma attach_arx_finish [attach_simps]:
  "arx_finish (logged F) k (attach l s) = exec_map (relog (\<lambda>r. got_result (snd r)) l) (arx_finish F k s)"
  by (auto simp: arx_finish_def attach_simps exec_push Let_def intro!: exec_map_eqI split: option.split)

lemma attach_arx_poll_item [attach_simps]:
  "arx_poll_item (logged F) fuel stream task k (attach l s) =
     exec_map (relog (\<lambda>r. got_result (snd r)) l) (arx_poll_item F fuel stream task k s)"
  by (induction fuel arbitrary: k s)
    (auto simp: attach_simps exec_push intro!: exec_bind_eqI exec_map_eqI split: option.split)

definition got_poll :: "('e + 'a) std_poll \<Rightarrow> 'a qevent list" where
  "got_poll p = (case p of PReady r \<Rightarrow> got_result r | PPending \<Rightarrow> [])"

lemma attach_recv_future_poll [attach_simps]:
  "recv_future_poll (logged F) fuel task f (attach l s) =
     exec_map (relog (\<lambda>r. got_poll (snd r)) l) (recv_future_poll F fuel task f s)"
  "recv_timeout_future_poll (logged F) fuel task timer f (attach l s) =
     exec_map (relog (\<lambda>r. got_poll (snd r)) l) (recv_timeout_future_poll F fuel task timer f s)"
  by (auto simp: recv_future_poll_def recv_timeout_future_poll_def attach_simps exec_push got_poll_def
      split: sum.split try_recv_error.split intro!: exec_bind_eqI exec_map_eqI)

lemma attach_recv_drop [attach_simps]:
  "recv_drop f (attach l s) = exec_map (\<lambda>(s', r). (attach l s', r)) (recv_drop f s)"
  by (auto simp: recv_drop_def recv_future_drop_def attach_simps exec_push split: option.split intro!: exec_map_eqI)

section \<open>Futures with a log\<close>

text \<open>A future whose polls log \<open>ev\<close> of their answer, and whose drop logs nothing.\<close>

locale logged_future =
  fixes pl :: "'p \<Rightarrow> 'f \<Rightarrow> 'q sys \<Rightarrow> ('q sys \<times> 'f \<times> 'r std_poll) exec"
    and dr :: "'f \<Rightarrow> 'q sys \<Rightarrow> ('q sys \<times> 'd) exec"
    and valid :: "'p \<Rightarrow> bool"
    and pending :: "'f \<Rightarrow> 'q sys \<Rightarrow> bool"
    and lpl :: "'p \<Rightarrow> 'f \<Rightarrow> ('q, 'a) logged_queue sys \<Rightarrow> (('q, 'a) logged_queue sys \<times> 'f \<times> 'r std_poll) exec"
    and ldr :: "'f \<Rightarrow> ('q, 'a) logged_queue sys \<Rightarrow> (('q, 'a) logged_queue sys \<times> 'd) exec"
    and ev :: "'f \<Rightarrow> 'r std_poll \<Rightarrow> 'a qevent list"
  assumes poll_logs: "pending f s \<Longrightarrow> valid p \<Longrightarrow>
      lpl p f (attach l s) = exec_map (relog (\<lambda>r. ev f (snd r)) l) (pl p f s)"
    and drop_logs: "ldr f (attach l s) = exec_map (\<lambda>(s', r). (attach l s', r)) (dr f s)"
    and stays_pending: "pending f s \<Longrightarrow> valid p \<Longrightarrow> pl p f s = Done (s', f', PPending) \<Longrightarrow> pending f' s'"
    and keeps_ev: "pl p f s = Done (s', f', r) \<Longrightarrow> ev f' a = ev f a"
    and pending_logs: "ev f PPending = []"
    and sched_pending: "pending f s \<Longrightarrow> pending f (sched s)"
begin

lemma run_logs:
  assumes "pending f s" "\<forall>p \<in> set ps. valid p"
  shows "future_run lpl ldr ps f (attach l s) =
    exec_map (relog (\<lambda>(r, d). case r of Some x \<Rightarrow> ev f (PReady x) | None \<Rightarrow> []) l) (future_run pl dr ps f s)"
  using assms
proof (induction ps arbitrary: f s)
  case Nil
  then show ?case by (auto simp: attach_sched drop_logs exec_push intro!: exec_map_eqI)
next
  case (Cons p ps)
  have p: "valid p" "\<forall>p \<in> set ps. valid p" using Cons.prems(2) by auto
  note ok = sched_pending [OF Cons.prems(1)]
  show ?case
    unfolding future_run.simps attach_sched poll_logs [OF ok p(1)] exec_push
    apply (rule exec_bind_eqI)
    subgoal premises poll for r1
    proof -
      obtain s1 f1 r where r1: "r1 = (s1, f1, r)" by (cases r1)
      show ?thesis
      proof (cases r)
        case PPending
        with stays_pending [OF ok p(1)] poll r1 have "pending f1 s1" by simp
        from Cons.IH [OF this p(2)] keeps_ev [of p f "sched s" s1 f1 r] poll r1 PPending show ?thesis
          by (simp add: pending_logs cong: option.case_cong)
      next
        case (PReady x)
        with r1 show ?thesis by (auto simp: drop_logs attach_sched exec_push intro!: exec_map_eqI)
      qed
    qed
    done
qed

end

text \<open>What a poll leaves of the future, and how it can answer.\<close>

lemma send_poll_fate:
  "whenever (send_future_poll F fuel task f s) (\<lambda>(s', f', r). sf_item f' = sf_item f \<and>
     (case r of PPending \<Rightarrow> sf_tx f' | PReady a \<Rightarrow> \<not> sf_tx f' \<and> (a = Inr () \<or> a = Inl (SendError (sf_item f)))))"
  by (auto simp: send_future_poll_def intro!: whenever_bind split: std_poll.split sum.split)

lemma send_timeout_poll_fate:
  "whenever (send_timeout_future_poll F fuel task timer f s) (\<lambda>(s', f', r). sf_item f' = sf_item f \<and>
     (case r of PPending \<Rightarrow> sf_tx f' | PReady a \<Rightarrow> \<not> sf_tx f' \<and>
       (a = Inr () \<or> a = Inl (STDisconnected (sf_item f)) \<or> a = Inl (STTimeout (sf_item f)))))"
  by (auto simp: send_timeout_future_poll_def intro!: whenever_bind whenever_map
      split: std_poll.split sum.split option.split)

lemma send_polls_keep_item:
  "send_future_poll F fuel task f s = Done (s', f', r) \<Longrightarrow> sf_item f' = sf_item f"
  "send_timeout_future_poll F fuel task timer f s = Done (s', f', rt) \<Longrightarrow> sf_item f' = sf_item f"
  using wheneverD [OF send_poll_fate [of F fuel task f s]] wheneverD [OF send_timeout_poll_fate [of F fuel task timer f s]]
  by fastforce+

lemma sf_pendingD:
  assumes "sf_state (tx_side F iv cont ks T) True iv ks kr T f s" "Async task \<in> T"
  shows "lawful_flavor F iv cont" "sys_ok iv ks kr T (sf_waker f) s" "can_wait ks" "fl_bounded F" "of_tasks T task"
  using assms by (auto simp: sf_state_def tx_side_def of_tasks_def)

interpretation send_log: logged_future "send_future_poll F fuel" send_future_drop "\<lambda>task. Async task \<in> T"
  "sf_state (tx_side F iv cont ks T) True iv ks kr T" "send_future_poll (logged F) fuel" send_future_drop
  "\<lambda>f. sent_event (sf_item f)"
  for F :: "('q, 'a) flavor" and iv cont ks kr T fuel
  by unfold_locales
    (auto simp: attach_send_future_drop lawful_flavor.attach_send_future_poll [OF sf_pendingD]
      intro: sf_state_sched dest: send_polls_keep_item safe_DoneD [OF send_future_poll_safe])

interpretation send_timeout_log: logged_future "\<lambda>p. send_timeout_future_poll F fuel (fst p) (snd p)" send_future_drop
  "\<lambda>p. Async (fst p) \<in> T" "sf_state (tx_side F iv cont ks T) True iv ks kr T"
  "\<lambda>p. send_timeout_future_poll (logged F) fuel (fst p) (snd p)" send_future_drop "\<lambda>f. sent_event (sf_item f)"
  for F :: "('q, 'a) flavor" and iv cont ks kr T fuel
  by unfold_locales
    (auto simp: attach_send_future_drop lawful_flavor.attach_send_timeout_future_poll [OF sf_pendingD]
      intro: sf_state_sched dest: send_polls_keep_item safe_DoneD [OF send_timeout_future_poll_safe])

interpretation recv_log: logged_future "recv_future_poll F fuel" recv_drop "\<lambda>_. True" "\<lambda>_ _. True"
  "recv_future_poll (logged F) fuel" recv_drop "\<lambda>_. got_poll"
  for F :: "('q, 'a) flavor" and fuel
  by unfold_locales (auto simp: attach_simps got_poll_def)

interpretation recv_timeout_log: logged_future "\<lambda>p. recv_timeout_future_poll F fuel (fst p) (snd p)" recv_drop
  "\<lambda>_. True" "\<lambda>_ _. True" "\<lambda>p. recv_timeout_future_poll (logged F) fuel (fst p) (snd p)" recv_drop "\<lambda>_. got_poll"
  for F :: "('q, 'a) flavor" and fuel
  by unfold_locales (auto simp: attach_simps got_poll_def)

text \<open>Where the item of a send future goes: accepted, given back in an error, or dropped.\<close>

lemma relog_got_run:
  "(\<lambda>(s', r, d). (attach (l @ (case r of Some (Inr x) \<Rightarrow> [Got x] | _ \<Rightarrow> [])) s', r, d)) =
     relog (\<lambda>(r, d). case r of Some x \<Rightarrow> got_poll (PReady x) | None \<Rightarrow> []) l"
  by (auto simp: fun_eq_iff got_poll_def got_result_def split: option.split sum.split)

definition item_fate :: "('a \<Rightarrow> 'r \<Rightarrow> bool) \<Rightarrow> 'a \<Rightarrow> 'r option \<Rightarrow> 'a option \<Rightarrow> bool" where
  "item_fate ans x r d \<longleftrightarrow> (case r of Some a \<Rightarrow> ans x a \<and> d = None | None \<Rightarrow> d = Some x)"

lemma item_fate_simps [simp]:
  "item_fate ans x (Some a) d \<longleftrightarrow> ans x a \<and> d = None" "item_fate ans x None d \<longleftrightarrow> d = Some x"
  by (simp_all add: item_fate_def)

lemma send_drop_fate:
  "whenever (send_future_drop f s) (\<lambda>(s', d). d = (if sf_tx f then Some (sf_item f) else None))"
  by (auto simp: send_future_drop_def intro!: whenever_map)

lemma run_fate:
  assumes poll: "\<And>p f s. whenever (pl p f s) (\<lambda>(s', f', r). sf_item f' = sf_item f \<and>
      (case r of PPending \<Rightarrow> sf_tx f' | PReady a \<Rightarrow> \<not> sf_tx f' \<and> ans (sf_item f) a))"
    and "sf_tx f"
  shows "whenever (future_run pl send_future_drop ps f s) (\<lambda>(s', r, d). item_fate ans (sf_item f) r d)"
  using assms(2)
proof (induction ps arbitrary: f s)
  case Nil
  then show ?case by (auto dest!: wheneverD [OF send_drop_fate] intro!: whenever_map)
next
  case (Cons p ps)
  show ?case
    unfolding future_run.simps
    apply (rule whenever_bind)
    subgoal premises one for r1
    proof -
      obtain s1 f1 r where r1: "r1 = (s1, f1, r)" by (cases r1)
      note P = wheneverD [OF poll one]
      show ?thesis
        using P r1 Cons.IH [of f1 s1] wheneverD [OF send_drop_fate [of f1 "sched s1"]]
        by (cases r) (auto intro!: whenever_map)
    qed
    done
qed

section \<open>Properties\<close>

text \<open>
  C5. A send future is exactly-once and cancel-safe. For any lawful bounded flavor, any sequence of polls by
  any of its tasks, any behaviour of its timer and of polite other threads, and dropped at any point: when
  it answered \<^verbatim>\<open>Ok\<close> its item went into the queue exactly once and nothing is dropped; when it answered an error
  the item is in the error and nothing went into the queue; and when it was dropped before it answered, the
  item was dropped with it and nothing went into the queue.
\<close>

theorem async_send_exactly_once:
  assumes "lawful_flavor F iv cont" "fl_bounded F" "can_wait ks" "T \<subseteq> range Async"
    and "sys_ok iv ks kr T None s" "\<forall>task \<in> set tasks. Async task \<in> T" "\<forall>p \<in> set timed. Async (fst p) \<in> T"
  shows "(future_run (send_future_poll F fuel) send_future_drop tasks (atx_send x) s = Done (s', r, d) \<longrightarrow>
      future_run (send_future_poll (logged F) fuel) send_future_drop tasks (atx_send x) (attach l s) =
        Done (attach (l @ (if r = Some (Inr ()) then [Sent x] else [])) s', r, d) \<and>
      (r = Some (Inr ()) \<and> d = None \<or> r = Some (Inl (SendError x)) \<and> d = None \<or> r = None \<and> d = Some x)) \<and>
    (future_run (\<lambda>p. send_timeout_future_poll F fuel (fst p) (snd p)) send_future_drop timed (atx_send_with_timer x) s =
        Done (s', rt, dt) \<longrightarrow>
      future_run (\<lambda>p. send_timeout_future_poll (logged F) fuel (fst p) (snd p)) send_future_drop timed
          (atx_send_with_timer x) (attach l s) =
        Done (attach (l @ (if rt = Some (Inr ()) then [Sent x] else [])) s', rt, dt) \<and>
      (rt = Some (Inr ()) \<and> dt = None \<or> rt = Some (Inl (STDisconnected x)) \<and> dt = None \<or>
       rt = Some (Inl (STTimeout x)) \<and> dt = None \<or> rt = None \<and> dt = Some x))"
proof -
  have pend: "sf_state (tx_side F iv cont ks T) True iv ks kr T (atx_send x) s"
    "sf_state (tx_side F iv cont ks T) True iv ks kr T (atx_send_with_timer x) s"
    using assms by (simp_all add: sf_state_def tx_side_def atx_send_def atx_send_with_timer_def)
  have item: "sf_item (atx_send x) = x" "sf_item (atx_send_with_timer x) = x" "sf_tx (atx_send x)"
    "sf_tx (atx_send_with_timer x)"
    by (simp_all add: atx_send_def atx_send_with_timer_def)
  note logs = send_log.run_logs [OF pend(1) assms(6), of fuel l] send_timeout_log.run_logs [OF pend(2) assms(7), of fuel l]
  note fate = run_fate [where pl = "send_future_poll F fuel", OF send_poll_fate item(3), of tasks s]
    run_fate [where pl = "\<lambda>p. send_timeout_future_poll F fuel (fst p) (snd p)", OF send_timeout_poll_fate item(4), of timed s]
  show ?thesis
    using wheneverD [OF fate(1)] wheneverD [OF fate(2)] logs unfolding item
    by (auto simp: sent_event_def item_fate_def split: option.splits)
qed

theorem async_send_exactly_once_witness:
  "\<exists>s'. future_run (send_future_poll (logged one_spsc_flavor) 5) send_future_drop [7] (atx_send (5 :: nat))
      (attach [] (fresh_sys one_spsc_flavor backoff_globals_init (osp_new :: nat one_sp)
        (RegSingle weak_cell_new) (RegSingle weak_cell_new) 0 [])) =
    Done (attach [Sent 5] s', Some (Inr ()), None)"
proof -
  let ?s = "fresh_sys one_spsc_flavor backoff_globals_init (osp_new :: nat one_sp)
        (RegSingle weak_cell_new) (RegSingle weak_cell_new) 0 []"
  define R where "R = future_run (send_future_poll one_spsc_flavor 5) send_future_drop [7] (atx_send (5 :: nat)) ?s"
  have "case R of Done (s', r, d) \<Rightarrow> r = Some (Inr ()) \<and> d = None | _ \<Rightarrow> False"
    unfolding R_def by code_simp
  then obtain s' where r: "R = Done (s', Some (Inr ()), None)"
    by (cases R) auto
  have "osp_inv (osp_new :: nat one_sp)" using osp_repr_inv [OF osp_new_repr] by auto
  then have ok: "sys_ok osp_inv KSingle KSingle (range Async) None ?s"
    using config_detect_spin(1)
    by (simp add: sys_ok_def sh_ok_def fresh_sys_def channel_new_def world_ok_init reg_ok_def)
  have "fl_bounded one_spsc_flavor" by (simp add: one_spsc_flavor_def)
  with async_send_exactly_once [where tasks = "[7]" and timed = "[]" and x = 5 and fuel = 5 and l = "[]" and
      s' = s' and r = "Some (Inr ())" and d = None, OF ospf.lawful_flavor_axioms _ _ _ ok] r show ?thesis
    unfolding R_def by (simp del: future_run.simps add: can_wait_def) blast
qed

text \<open>
  C8. A receive future is exactly-once and cancel-safe: however it is polled, timed, interleaved and dropped,
  it has taken exactly the message it answered out of the queue, and nothing when it answered an error or was
  dropped before it answered.
\<close>

theorem async_recv_exactly_once:
  "future_run (recv_future_poll (logged F) fuel) recv_drop tasks arx_recv (attach l s) =
     exec_map (\<lambda>(s', r, d). (attach (l @ (case r of Some (Inr x) \<Rightarrow> [Got x] | _ \<Rightarrow> [])) s', r, d))
       (future_run (recv_future_poll F fuel) recv_drop tasks arx_recv s) \<and>
   future_run (\<lambda>p. recv_timeout_future_poll (logged F) fuel (fst p) (snd p)) recv_drop timed arx_recv_with_timer (attach l s) =
     exec_map (\<lambda>(s', r, d). (attach (l @ (case r of Some (Inr x) \<Rightarrow> [Got x] | _ \<Rightarrow> [])) s', r, d))
       (future_run (\<lambda>p. recv_timeout_future_poll F fuel (fst p) (snd p)) recv_drop timed arx_recv_with_timer s)"
  unfolding relog_got_run using recv_log.run_logs recv_timeout_log.run_logs by blast

end
