(* ===== verification/Async_Returns.thy ===== *)
theory Async_Returns
  imports Async_Safety Channel_Timeout
begin

unbundle bit_operations_syntax

text \<open>
  A poll never blocks: it returns after a number of steps bounded by the number of turns the other threads
  take meanwhile and by the limit of the backoff. A round that goes on uses up a turn of the others, for it
  was woken by one of them.
\<close>

section \<open>Steps return\<close>










section \<open>Polling a send\<close>


section \<open>Properties\<close>





end
