(* ===== verification/Async_Behaviour.thy ===== *)
theory Async_Behaviour
  imports Async_Safety
begin

text \<open>
  What the asynchronous operations answer: their fast paths agree with the blocking ones, a stream ends only
  on a drained channel, and a sink differs from the senders on a channel without receivers. Also the type
  invariant of the wakers under every registry operation.
\<close>

section \<open>Properties\<close>

text \<open>
  C21. A stream, and a receive future, end only on a drained channel: when \<^verbatim>\<open>poll_next\<close> of a stream that has not
  ended answers \<^verbatim>\<open>None\<close>, or a receive future \<^verbatim>\<open>RecvError\<close>, the poll's last look at the queue found it empty,
  whatever polite other threads did before; and a stream that answered \<^verbatim>\<open>None\<close> reports itself terminated.
\<close>

theorem stream_ends_drained:
  assumes "lawful_flavor F iv cont" "can_wait kr" "T \<subseteq> range Async" "Async task \<in> T"
  shows "(\<not> stream_ended k \<and> sys_ok iv ks kr T (stream_waker k) s \<and>
      stream_poll_next F fuel task k s = Done (s', k', PReady None) \<longrightarrow>
      cont (ch_inner (sy_chan s')) = [] \<and> stream_is_terminated k') \<and>
    (sys_ok iv ks kr T (rf_waker f) s \<and> recv_future_poll F fuel task f s = Done (s', f', PReady (Inl RecvError)) \<longrightarrow>
      cont (ch_inner (sy_chan s')) = [])"
proof -
  have T: "of_tasks T task" using assms by (simp add: of_tasks_def)
  have drained: "cont (ch_inner (sy_chan t)) = []"
    if "sys_ok iv ks kr T o_waker s" "arx_poll_item F fuel False task o_waker s = Done (t, k1, Inl TRDisconnected)"
    for o_waker t k1
    using safe_DoneD [OF lawful_flavor.arx_poll_item_safe [OF assms(1) that(1) assms(2) T] that(2)]
    by (simp add: drained_poll_def)
  show ?thesis
  proof (intro conjI impI)
    assume a: "\<not> stream_ended k \<and> sys_ok iv ks kr T (stream_waker k) s \<and>
      stream_poll_next F fuel task k s = Done (s', k', PReady None)"
    then obtain k1 r where r: "arx_poll_item F fuel False task (stream_waker k) s = Done (s', k1, r)"
      "stream_answer k k1 r = (k', PReady None)"
      by (cases "arx_poll_item F fuel False task (stream_waker k) s") (auto simp: stream_poll_next_def)
    then have d: "r = Inl TRDisconnected" "stream_ended k'"
      by (cases r; cases "projl r"; auto simp: stream_answer_def)+
    then show "cont (ch_inner (sy_chan s')) = []" "stream_is_terminated k'"
      using drained [of "stream_waker k" s' k1] a r(1) by (simp_all add: stream_is_terminated_def)
  next
    assume a: "sys_ok iv ks kr T (rf_waker f) s \<and> recv_future_poll F fuel task f s = Done (s', f', PReady (Inl RecvError))"
    then obtain t k1 where "arx_poll_item F fuel False task (rf_waker f) s = Done (t, k1, Inl TRDisconnected)"
      "s' = drop_owner k1 t"
      by (cases "arx_poll_item F fuel False task (rf_waker f) s")
        (auto simp: recv_future_poll_def split: sum.splits try_recv_error.splits if_splits)
    then show "cont (ch_inner (sy_chan s')) = []" using drained [of "rf_waker f" t k1] a by simp
  qed
qed

theorem stream_ends_drained_witness:
  "\<exists>s' k'. stream_poll_next one_spsc_flavor 9 7 stream_new
      ((fresh_sys one_spsc_flavor backoff_globals_init osp_new (RegMulti multi_new) (RegSingle weak_cell_new) 0 [] :: nat one_sp sys)
        \<lparr>sy_chan := (channel_new one_spsc_flavor backoff_globals_init osp_new (RegMulti multi_new) (RegSingle weak_cell_new))
          \<lparr>ch_tx_count := 0\<rparr>\<rparr>) = Done (s', k', PReady None) \<and> osp_content (ch_inner (sy_chan s')) = []"
proof -
  let ?s = "(fresh_sys one_spsc_flavor backoff_globals_init osp_new (RegMulti multi_new) (RegSingle weak_cell_new) 0 [] :: nat one_sp sys)
      \<lparr>sy_chan := (channel_new one_spsc_flavor backoff_globals_init osp_new (RegMulti multi_new) (RegSingle weak_cell_new))
        \<lparr>ch_tx_count := 0\<rparr>\<rparr>"
  define R where "R = stream_poll_next one_spsc_flavor 9 7 stream_new ?s"
  have "case R of Done (s', k', r) \<Rightarrow> r = PReady None | _ \<Rightarrow> False"
    unfolding R_def by code_simp
  then obtain s' k' where "R = Done (s', k', PReady None)" by (cases R) auto
  then have r: "stream_poll_next one_spsc_flavor 9 7 stream_new ?s = Done (s', k', PReady None)" by (simp only: R_def)
  have "osp_inv (osp_new :: nat one_sp)" using osp_repr_inv [OF osp_new_repr] by auto
  then have "sys_ok osp_inv KMulti KSingle (range Async) (stream_waker stream_new) ?s"
    using config_detect_spin(1)
    by (simp add: sys_ok_def sh_ok_def fresh_sys_def channel_new_def world_ok_init reg_ok_def multi_new_def stream_new_def)
  with stream_ends_drained [OF ospf.lawful_flavor_axioms, of KSingle "range Async" 7 stream_new KMulti ?s 9 s' k'] r
  show ?thesis by (auto simp: can_wait_def stream_new_def)
qed

text \<open>
  C24. The fast paths of the senders agree. Whenever a \<^verbatim>\<open>try_send\<close> succeeds, or finds the channel disconnected,
  the blocking \<^verbatim>\<open>send\<close> and \<^verbatim>\<open>send_timeout\<close>, the asynchronous \<^verbatim>\<open>try_send\<close>, and the first poll of a send future,
  timed or not, started in the same state among the same other threads, do exactly the same to the channel
  and answer the same, in their own error types. The sink, which offers the message before it looks whether receivers are
  left, agrees with an undisturbed \<^verbatim>\<open>try_send\<close> that succeeds; but where \<^verbatim>\<open>try_send\<close> finds the channel disconnected and
  the queue still has room, the sink sends the message and answers \<^verbatim>\<open>Ok(())\<close>.
\<close>

theorem send_fast_paths_agree:
  "(tx_try_send F x s = Done (s', Inr ()) \<longrightarrow>
      tx_send F fuel thread x s = Done (s', Inr ()) \<and>
      tx_send_timeout F m fuel thread x t s = Done (s', Inr ()) \<and>
      atx_try_send F x s = Done (s', Inr ()) \<and>
      send_future_poll F (Suc fuel) task (atx_send x) s =
        Done (s', \<lparr>sf_tx = False, sf_item = x, sf_waker = None\<rparr>, PReady (Inr ())) \<and>
      send_timeout_future_poll F (Suc fuel) task timer (atx_send_with_timer x) s =
        Done (s', \<lparr>sf_tx = False, sf_item = x, sf_waker = None\<rparr>, PReady (Inr ())) \<and>
      (sy_env s = [] \<longrightarrow> sink_poll_send F fuel task x k s = Done (s', k, Inr ()))) \<and>
   (tx_try_send F x s = Done (s', Inl (TSDisconnected x)) \<longrightarrow>
      tx_send F fuel thread x s = Done (s', Inl (SendError x)) \<and>
      tx_send_timeout F m fuel thread x t s = Done (s', Inl (STDisconnected x)) \<and>
      atx_try_send F x s = Done (s', Inl (TSDisconnected x)) \<and>
      send_future_poll F (Suc fuel) task (atx_send x) s =
        Done (s', \<lparr>sf_tx = False, sf_item = x, sf_waker = None\<rparr>, PReady (Inl (SendError x))) \<and>
      send_timeout_future_poll F (Suc fuel) task timer (atx_send_with_timer x) s =
        Done (s', \<lparr>sf_tx = False, sf_item = x, sf_waker = None\<rparr>, PReady (Inl (STDisconnected x))) \<and>
      (with_inner (\<lambda>q. fl_try_send F q x) s = Done (s1, True) \<and> on_send (sched s1) = Done s2 \<longrightarrow>
        sink_poll_send F fuel task x k s = Done (s2, k, Inr ())))"
proof (cases "is_rx_closed s")
  case True
  then show ?thesis
    by (auto simp: tx_try_send_def atx_try_send_def tx_send_def tx_send_timeout_def send_future_poll_def sink_poll_send_def
        send_timeout_future_poll_def atx_send_def atx_send_with_timer_def atx_poll_send_def drop_owner_def replace_owner_def)
next
  case False
  have no: "tx_try_send F x s \<noteq> Done (s', Inl (TSDisconnected x))"
    using False by (auto simp: tx_try_send_def exec_map_Done_iff split: if_splits)
  show ?thesis
  proof (intro conjI impI)
    assume "tx_try_send F x s = Done (s', Inr ())"
    then obtain s1 where s1: "with_inner (\<lambda>q. fl_try_send F q x) (sched s) = Done (s1, True)" "on_send (sched s1) = Done s'"
      using False by (auto simp: tx_try_send_def exec_map_Done_iff split: if_splits)
    show "tx_send F fuel thread x s = Done (s', Inr ())" "tx_send_timeout F m fuel thread x t s = Done (s', Inr ())"
        "atx_try_send F x s = Done (s', Inr ())"
        "send_future_poll F (Suc fuel) task (atx_send x) s =
          Done (s', \<lparr>sf_tx = False, sf_item = x, sf_waker = None\<rparr>, PReady (Inr ()))"
        "send_timeout_future_poll F (Suc fuel) task timer (atx_send_with_timer x) s =
          Done (s', \<lparr>sf_tx = False, sf_item = x, sf_waker = None\<rparr>, PReady (Inr ()))"
      using s1 False by (simp_all add: atx_try_send_def tx_send_def tx_send_timeout_def send_future_poll_def
          send_timeout_future_poll_def atx_send_def atx_send_with_timer_def atx_poll_send_def drop_owner_def replace_owner_def)
    show "sink_poll_send F fuel task x k s = Done (s', k, Inr ())" if "sy_env s = []"
      using s1 sched_quiet [OF that] by (simp add: sink_poll_send_def)
  qed (use no in blast)+
qed

theorem send_fast_paths_agree_witness:
  "\<exists>s'. tx_try_send one_spsc_flavor (5 :: nat)
      (fresh_sys one_spsc_flavor backoff_globals_init osp_new (RegSingle weak_cell_new) (RegSingle weak_cell_new) 0 []) = Done (s', Inr ()) \<and>
    tx_send one_spsc_flavor 9 7 (5 :: nat)
      (fresh_sys one_spsc_flavor backoff_globals_init osp_new (RegSingle weak_cell_new) (RegSingle weak_cell_new) 0 []) = Done (s', Inr ())"
proof -
  let ?s = "fresh_sys one_spsc_flavor backoff_globals_init osp_new (RegSingle weak_cell_new) (RegSingle weak_cell_new) 0 []"
  define R where "R = tx_try_send one_spsc_flavor (5 :: nat) ?s"
  have "case R of Done (s', r) \<Rightarrow> r = Inr () | _ \<Rightarrow> False"
    unfolding R_def by code_simp
  then obtain s' where "R = Done (s', Inr ())" by (cases R) auto
  then have "tx_try_send one_spsc_flavor (5 :: nat) ?s = Done (s', Inr ())" by (simp only: R_def)
  with send_fast_paths_agree [of one_spsc_flavor 5 ?s s' 9 7] show ?thesis by blast
qed

text \<open>
  C26. The operations of a waker registry keep the wakers well typed, and where they panic is known. From a world where each
  waker's state byte is one of the states of \<^verbatim>\<open>WakerState\<close> a running program stores (initial, waiting, woken, closed),
  firing, closing, committing, abandoning and the three ways of cancelling return for registries of every kind, never in a fault, such a
  world and a registry whose selectors still exist. So do registering a thread, a task or an armed select and reading the
  state for the single and the multi registry; for the dummy and the select registry, which are never asked to, these are
  \<^verbatim>\<open>unreachable!\<close> and panic. The states that are answered are of that type again.
\<close>

theorem registry_ops_typed:
  assumes "world_ok w" "reg_ok w g" "owns w (range Blocking) kb" "owns w (range Async) ka" "owns w UNIV (Some a)"
    and "st = W_Woken \<or> st = W_Done"
  shows "(\<exists>w' g' r. reg_fire w g = Done (w', g', r) \<and> world_ok w' \<and> reg_ok w' g') \<and>
    (\<exists>w' g'. reg_close w g = Done (w', g') \<and> world_ok w' \<and> reg_ok w' g') \<and>
    (\<exists>w' c. reg_commit_waiting w g (Some a) = Done (w', c) \<and> world_ok w' \<and> c \<in> {W_Init, W_Waiting, W_Woken, W_Closed}) \<and>
    (\<exists>w' g' r. reg_abandon_waker w g a = Done (w', g', r) \<and> world_ok w' \<and> reg_ok w' g') \<and>
    (\<exists>w' g' k c. reg_cancel_reuse_waker w g (Some a) st = Done (w', g', k, c) \<and> world_ok w' \<and> reg_ok w' g') \<and>
    (\<exists>w' g'. reg_cancel_waker w g (Some a) = Done (w', g', None) \<and> world_ok w' \<and> reg_ok w' g') \<and>
    reg_ok w (reg_cancel_select_waker g sel) \<and>
    (if kind_of g = KSingle \<or> kind_of g = KMulti
     then (\<exists>w' g' b. reg_reg_waker_blocking w g thread kb = Done (w', g', Some b) \<and> world_ok w' \<and> reg_ok w' g') \<and>
       (\<exists>w' g' b p. reg_reg_waker_async w g task ka = Done (w', g', Some b, p) \<and> world_ok w' \<and> reg_ok w' g') \<and>
       ((\<exists>x c. wd_sels w sel = Some x \<and> sw_o_waker x = Some c) \<longrightarrow>
         (\<exists>g' b. reg_reg_select_waker w g channel_id sel = Done (g', b) \<and> reg_ok w g')) \<and>
       (\<exists>c. reg_get_waker_state w g (Some a) = Done c \<and> c \<in> {W_Init, W_Waiting, W_Woken, W_Closed})
     else reg_reg_waker_blocking w g thread kb = Fault Panic \<and> reg_reg_waker_async w g task ka = Fault Panic \<and>
       reg_reg_select_waker w g channel_id sel = Fault Panic \<and> reg_get_waker_state w g (Some a) = Fault Panic)"
proof (intro conjI)
  note ok = keeps_ok keeps_others_ok
  show "\<exists>w' g' r. reg_fire w g = Done (w', g', r) \<and> world_ok w' \<and> reg_ok w' g'"
    using reg_fire_safe [OF assms(1,2)] ok by blast
  show "\<exists>w' g'. reg_close w g = Done (w', g') \<and> world_ok w' \<and> reg_ok w' g'"
    using reg_close_safe [OF assms(1,2)] ok by blast
  show "\<exists>w' c. reg_commit_waiting w g (Some a) = Done (w', c) \<and> world_ok w' \<and> c \<in> {W_Init, W_Waiting, W_Woken, W_Closed}"
    using reg_commit_waiting_safe [OF assms(1,5)] ok by blast
  show "\<exists>w' g' r. reg_abandon_waker w g a = Done (w', g', r) \<and> world_ok w' \<and> reg_ok w' g'"
    using reg_abandon_waker_safe [OF assms(1,2,5)] ok by blast
  show "\<exists>w' g' k c. reg_cancel_reuse_waker w g (Some a) st = Done (w', g', k, c) \<and> world_ok w' \<and> reg_ok w' g'"
    using reg_cancel_reuse_waker_safe [OF assms(1,2,5,6)] ok by blast
  show "\<exists>w' g'. reg_cancel_waker w g (Some a) = Done (w', g', None) \<and> world_ok w' \<and> reg_ok w' g'"
    using reg_cancel_waker_safe [OF assms(1,2,5)] ok by blast
  show "reg_ok w (reg_cancel_select_waker g sel)"
    using assms(2) remove_first_subset by (cases g) (fastforce simp: reg_ok_def multi_cancel_select_waker_def Let_def)+
  show "if kind_of g = KSingle \<or> kind_of g = KMulti
     then (\<exists>w' g' b. reg_reg_waker_blocking w g thread kb = Done (w', g', Some b) \<and> world_ok w' \<and> reg_ok w' g') \<and>
       (\<exists>w' g' b p. reg_reg_waker_async w g task ka = Done (w', g', Some b, p) \<and> world_ok w' \<and> reg_ok w' g') \<and>
       ((\<exists>x c. wd_sels w sel = Some x \<and> sw_o_waker x = Some c) \<longrightarrow>
         (\<exists>g' b. reg_reg_select_waker w g channel_id sel = Done (g', b) \<and> reg_ok w g')) \<and>
       (\<exists>c. reg_get_waker_state w g (Some a) = Done c \<and> c \<in> {W_Init, W_Waiting, W_Woken, W_Closed})
     else reg_reg_waker_blocking w g thread kb = Fault Panic \<and> reg_reg_waker_async w g task ka = Fault Panic \<and>
       reg_reg_select_waker w g channel_id sel = Fault Panic \<and> reg_get_waker_state w g (Some a) = Fault Panic"
  proof (cases "kind_of g = KSingle \<or> kind_of g = KMulti")
    case True
    have "(\<exists>x c. wd_sels w sel = Some x \<and> sw_o_waker x = Some c) \<longrightarrow>
        (\<exists>g' b. reg_reg_select_waker w g channel_id sel = Done (g', b) \<and> reg_ok w g')"
      using True assms(2) by (cases g) (auto simp: reg_ok_def sel_clone_weak_def sel_get_def multi_reg_select_waker_def Let_def)
    with True show ?thesis
      using reg_waker_blocking_safe [OF assms(1,2) True assms(3), of thread] reg_waker_async_safe [OF assms(1,2) True assms(4), of task]
        reg_get_waker_state_safe [OF assms(1) True assms(5)] keeps_others_ok by (simp only: if_True) blast
  next
    case False
    then show ?thesis by (cases g) simp_all
  qed
qed

theorem registry_ops_typed_witness:
  "\<exists>w' g' r. reg_fire (fst (alloc_waker world_init (Async 7))) (RegSingle (Some 0)) = Done (w', g', r) \<and> world_ok w'"
proof -
  let ?w = "fst (alloc_waker world_init (Async 7))"
  have "world_ok ?w" "owns ?w UNIV (Some 0)" "reg_ok ?w (RegSingle (Some 0))"
    by (auto simp: world_ok_def owns_def alloc_waker_def world_init_def w_live_def reg_ok_def Let_def)
  then have "(\<exists>w' g' r. reg_fire ?w (RegSingle (Some 0)) = Done (w', g', r) \<and> world_ok w' \<and> reg_ok w' g')"
    by (intro registry_ops_typed [THEN conjunct1, of _ _ None None 0 W_Woken]) simp_all
  then show ?thesis by blast
qed

text \<open>
  A sink sends into a channel without receivers. On a one-slot channel whose only receiver was dropped,
  \<^verbatim>\<open>poll_send\<close> of the sink answers \<^verbatim>\<open>Ok(())\<close> and leaves the message in a queue nobody can read, while the
  sender it was made from answers \<^verbatim>\<open>Disconnected\<close> in the same state; only the sink's next message is refused.
\<close>

theorem sink_ignores_closed_receivers:
  "case rx_drop (fresh_sys one_spsc_flavor backoff_globals_init osp_new (RegSingle weak_cell_new) (RegSingle weak_cell_new) 0 []) of
     Done s \<Rightarrow>
       (case atx_try_send one_spsc_flavor (5 :: nat) s of Done (_, Inl (TSDisconnected x)) \<Rightarrow> x = 5 | _ \<Rightarrow> False) \<and>
       (case sink_poll_send one_spsc_flavor 9 7 (5 :: nat) sink_new s of
          Done (s1, k, Inr ()) \<Rightarrow> osp_len (ch_inner (sy_chan s1)) = 1 \<and>
            (case sink_poll_send one_spsc_flavor 9 7 6 k s1 of Done (_, _, Inl (TSDisconnected x)) \<Rightarrow> x = 6 | _ \<Rightarrow> False)
        | _ \<Rightarrow> False)
   | _ \<Rightarrow> False"
  by code_simp

end
