(* ===== verification/Oneshot.thy ===== *)
theory Oneshot
  imports Waker Backoff Errors
begin

unbundle bit_operations_syntax

text \<open>
  The one-shot channel, \<^verbatim>\<open>src/src/oneshot.rs\<close>: one heap cell shared by one sender and one receiver, which
  hand over a value, register and fire one waker, and agree who frees the cell, all through one atomic
  byte. Sender and receiver are cut at their accesses to the shared cell, and run under every schedule.

  A turn of the schedule names who moves. It also carries what the environment decides: which method an
  idle side calls next, whether a weak compare-exchange fails spuriously (sender), and whether the
  deadline has passed when the receiver looks at the clock. The cell is \<open>None\<close> once it is freed; touching it
  then, or freeing it twice, is a fault. \<open>dbg\<close> says whether debug assertions are compiled in. A deadline is
  taken to be representable: \<^verbatim>\<open>recv_timeout\<close> computes it with \<^verbatim>\<open>Instant::now() + timeout\<close>, which panics before
  the cell is touched when it is not.
\<close>

section \<open>The cell\<close>

definition LOCK_FLAG :: u8 where "LOCK_FLAG = 1"
definition WAKER_SET_FLAG :: u8 where "WAKER_SET_FLAG = 2"
definition CLOSE_FLAG :: u8 where "CLOSE_FLAG = 4"
definition EXIST_FLAG :: u8 where "EXIST_FLAG = 8"

lemmas os_flags = LOCK_FLAG_def WAKER_SET_FLAG_def CLOSE_FLAG_def EXIST_FLAG_def

record 'a os_inner =
  os_state :: u8
  os_value :: "'a option"
  os_waker :: "thin_waker option"

definition os_new :: "'a os_inner" where
  "os_new = \<lparr>os_state = 0, os_value = None, os_waker = None\<rparr>"

text \<open>\<^verbatim>\<open>_try_recv\<close>: the state, as a success when the sender has finished.\<close>

definition os_try_recv :: "'a os_inner \<Rightarrow> u8 + u8" where
  "os_try_recv b = (if os_state b AND LOCK_FLAG > 0 then Inr (os_state b) else Inl (os_state b))"

definition os_is_empty :: "'a os_inner \<Rightarrow> bool" where
  "os_is_empty b \<longleftrightarrow> os_state b AND EXIST_FLAG = 0"

definition os_is_disconnected :: "'a os_inner \<Rightarrow> bool" where
  "os_is_disconnected b \<longleftrightarrow> os_state b AND CLOSE_FLAG > 0"

section \<open>Program counters\<close>

text \<open>
  Sender: \<open>TIdle\<close> owns the handle, \<open>TNotify\<close> is in the loop of \<^verbatim>\<open>_notify_rx\<close> with its guess of the state,
  \<open>TWake\<close> will wake the receiver, \<open>TClose\<close> will hand the cell over, \<open>TFree\<close> will free it.
\<close>

datatype os_tpc = TIdle | TNotify bool u8 | TWake bool u8 | TClose bool u8 | TFree | TDone

text \<open>Who registers a waker: a poll of a task, or a blocking receive of a thread with or without deadline.\<close>

datatype os_wait = WPoll nat | WRecv nat bool

text \<open>
  Receiver: \<open>RIdle\<close> is between calls, with or without the handle; \<open>RSpin\<close> backs off before it registers;
  \<open>RCancel\<close> will withdraw the waker of another task; \<open>RSet\<close> will write the waker and \<open>RReg\<close> publish it;
  \<open>RWait\<close> will look for the value, \<open>RPark\<close> at the clock, \<open>RAbandon\<close> gives up; \<open>RConsume\<close> will take the value
  and \<open>RClose\<close> close its side; \<open>RFree\<close> was dropped after the sender had finished and will free the cell.
\<close>

datatype 'a os_rpc =
    RIdle bool | RSpin nat bool backoff | RCancel nat | RSet os_wait | RReg os_wait | RWait bool | RPark bool
  | RAbandon | RConsume u8 | RClose "'a option" u8 | RFree

datatype 'a os_result = OGot 'a | ODisconnected | OEmpty | OPending | OTimeout

datatype 'a os_tcall = CSend 'a | CDropTx

datatype os_rcall = CTryRecv | CPoll nat | CRecv nat bool | CDropRx

record 'a os_sys =
  os_box :: "'a os_inner option"
  os_tpc :: os_tpc
  os_rpc :: "'a os_rpc"
  os_frees :: nat
  os_sent :: "'a option"
  os_results :: "'a os_result list"
  os_dropped :: "'a list"
  os_woken :: "thin_waker list"

definition os_start :: "'a os_sys" where
  "os_start = \<lparr>os_box = Some os_new, os_tpc = TIdle, os_rpc = RIdle True, os_frees = 0, os_sent = None,
     os_results = [], os_dropped = [], os_woken = []\<rparr>"

section \<open>Steps\<close>

text \<open>Access through the raw pointer, and freeing the box: a value still inside is dropped.\<close>

definition os_with :: "'a os_sys \<Rightarrow> ('a os_inner \<Rightarrow> 'b exec) \<Rightarrow> 'b exec" where
  "os_with s f = (case os_box s of None \<Rightarrow> Fault UseAfterFree | Some b \<Rightarrow> f b)"

definition os_free :: "'a os_sys \<Rightarrow> 'a os_sys exec" where
  "os_free s =
     os_with s (\<lambda>b. Done (s\<lparr>os_box := None, os_frees := Suc (os_frees s),
       os_dropped := os_dropped s @ (case os_value b of Some x \<Rightarrow> [x] | None \<Rightarrow> [])\<rparr>))"

definition os_assert :: "bool \<Rightarrow> bool \<Rightarrow> 'b exec \<Rightarrow> 'b exec" where
  "os_assert dbg P m = (if dbg \<and> \<not> P then Fault Panic else m)"

definition exist_bit :: "bool \<Rightarrow> u8" where
  "exist_bit exist = (if exist then EXIST_FLAG else 0)"

text \<open>\<^verbatim>\<open>TxOneshot::send\<close> writes the value, \<^verbatim>\<open>Drop for TxOneshot\<close> writes none; both go on to \<^verbatim>\<open>_notify_rx\<close>.\<close>

definition os_send :: "'a \<Rightarrow> 'a os_sys \<Rightarrow> 'a os_sys exec" where
  "os_send x s = os_with s (\<lambda>b.
     Done (s\<lparr>os_box := Some (b\<lparr>os_value := Some x\<rparr>), os_sent := Some x, os_tpc := TNotify True 0,
       os_dropped := os_dropped s @ (case os_value b of Some y \<Rightarrow> [y] | None \<Rightarrow> [])\<rparr>))"

definition os_drop_tx :: "'a os_sys \<Rightarrow> 'a os_sys exec" where
  "os_drop_tx s = Done (s\<lparr>os_tpc := TNotify False 0\<rparr>)"

text \<open>One round of the loop of \<^verbatim>\<open>_notify_rx\<close>, then the wake-up and the hand-over.\<close>

definition os_notify_rx :: "bool \<Rightarrow> bool \<Rightarrow> u8 \<Rightarrow> 'a os_sys \<Rightarrow> 'a os_sys exec" where
  "os_notify_rx spurious exist old_state s =
     (if old_state = 0 \<or> old_state = WAKER_SET_FLAG
      then let new_state = (if old_state = 0 then LOCK_FLAG OR CLOSE_FLAG OR exist_bit exist
                            else LOCK_FLAG OR WAKER_SET_FLAG OR exist_bit exist)
        in os_with s (\<lambda>b.
          case cas_weak spurious old_state new_state (os_state b) of
            (st, Inr _) \<Rightarrow> Done (s\<lparr>os_box := Some (b\<lparr>os_state := st\<rparr>),
                os_tpc := (if old_state = 0 then TDone else TWake exist new_state)\<rparr>)
          | (_, Inl st) \<Rightarrow> Done (s\<lparr>os_tpc := TNotify exist st\<rparr>))
      else if old_state AND CLOSE_FLAG > 0 then Done (s\<lparr>os_tpc := TFree\<rparr>)
      else Fault Panic)"

definition os_notify_wake :: "bool \<Rightarrow> u8 \<Rightarrow> 'a os_sys \<Rightarrow> 'a os_sys exec" where
  "os_notify_wake exist new_state s = os_with s (\<lambda>b.
     case os_waker b of
       None \<Rightarrow> Fault Panic
     | Some w \<Rightarrow> Done (s\<lparr>os_woken := os_woken s @ [w], os_tpc := TClose exist new_state\<rparr>))"

definition os_notify_close :: "bool \<Rightarrow> bool \<Rightarrow> u8 \<Rightarrow> 'a os_sys \<Rightarrow> 'a os_sys exec" where
  "os_notify_close dbg exist new_state s = os_with s (\<lambda>b.
     case cas new_state (CLOSE_FLAG OR LOCK_FLAG OR exist_bit exist) (os_state b) of
       (st, Inr _) \<Rightarrow> Done (s\<lparr>os_box := Some (b\<lparr>os_state := st\<rparr>), os_tpc := TDone\<rparr>)
     | (_, Inl st) \<Rightarrow> os_assert dbg (st AND CLOSE_FLAG > 0) (Done (s\<lparr>os_tpc := TFree\<rparr>)))"

definition os_tstep :: "bool \<Rightarrow> 'a os_tcall \<Rightarrow> bool \<Rightarrow> 'a os_sys \<Rightarrow> 'a os_sys exec" where
  "os_tstep dbg call spurious s =
     (case os_tpc s of
        TIdle \<Rightarrow> (case call of CSend x \<Rightarrow> os_send x s | CDropTx \<Rightarrow> os_drop_tx s)
      | TNotify exist old_state \<Rightarrow> os_notify_rx spurious exist old_state s
      | TWake exist new_state \<Rightarrow> os_notify_wake exist new_state s
      | TClose exist new_state \<Rightarrow> os_notify_close dbg exist new_state s
      | TFree \<Rightarrow> exec_map (\<lambda>s'. s'\<lparr>os_tpc := TDone\<rparr>) (os_free s)
      | TDone \<Rightarrow> Done s)"

lemmas os_tstep_defs = os_tstep_def os_send_def os_drop_tx_def os_notify_rx_def os_notify_wake_def os_notify_close_def

definition os_return :: "'a os_sys \<Rightarrow> bool \<Rightarrow> 'a os_result \<Rightarrow> 'a os_sys" where
  "os_return s handle r = s\<lparr>os_rpc := RIdle handle, os_results := os_results s @ [r]\<rparr>"

definition wait_waker :: "os_wait \<Rightarrow> thin_waker" where
  "wait_waker w = (case w of WPoll task \<Rightarrow> Async task | WRecv thread timed \<Rightarrow> Blocking thread)"

text \<open>\<^verbatim>\<open>Drop for RxOneshot\<close>: the flag is set in one step, and a cell the sender has left is freed in the next.\<close>

definition os_drop_rx :: "bool \<Rightarrow> 'a os_sys \<Rightarrow> 'a os_sys exec" where
  "os_drop_rx dbg s =
     os_with s (\<lambda>b.
       let old_state = os_state b; s1 = s\<lparr>os_box := Some (b\<lparr>os_state := old_state OR CLOSE_FLAG\<rparr>)\<rparr>
       in if old_state AND CLOSE_FLAG > 0
          then os_assert dbg (old_state AND (NOT EXIST_FLAG) = CLOSE_FLAG OR LOCK_FLAG) (Done (s1\<lparr>os_rpc := RFree\<rparr>))
          else os_assert dbg (old_state = 0 \<or> old_state = WAKER_SET_FLAG \<or>
              old_state OR EXIST_FLAG = EXIST_FLAG OR LOCK_FLAG OR WAKER_SET_FLAG)
              (Done (s1\<lparr>os_rpc := RIdle False\<rparr>)))"

definition os_drop_free :: "'a os_sys \<Rightarrow> 'a os_sys exec" where
  "os_drop_free s = exec_map (\<lambda>s'. s'\<lparr>os_rpc := RIdle False\<rparr>) (os_free s)"

text \<open>The first look of each receiving method.\<close>

definition os_rx_try_recv :: "'a os_sys \<Rightarrow> 'a os_sys exec" where
  "os_rx_try_recv s = os_with s (\<lambda>b.
     case os_try_recv b of
       Inr st \<Rightarrow> Done (s\<lparr>os_rpc := RConsume st\<rparr>)
     | Inl _ \<Rightarrow> Done (os_return s True OEmpty))"

definition os_rx_poll :: "nat \<Rightarrow> 'a os_sys \<Rightarrow> 'a os_sys exec" where
  "os_rx_poll task s = os_with s (\<lambda>b.
     case os_try_recv b of
       Inr st \<Rightarrow> Done (s\<lparr>os_rpc := RConsume st\<rparr>)
     | Inl st \<Rightarrow>
         if st AND WAKER_SET_FLAG > 0
         then case os_waker b of
             None \<Rightarrow> Fault Panic
           | Some (Blocking _) \<Rightarrow> Fault Panic
           | Some (Async t) \<Rightarrow>
               if t = task then Done (os_return s True OPending)
               else Done (s\<lparr>os_rpc := RCancel task\<rparr>)
         else Done (s\<lparr>os_rpc := RSet (WPoll task)\<rparr>))"

definition os_recv_blocking :: "nat \<Rightarrow> bool \<Rightarrow> 'a os_sys \<Rightarrow> 'a os_sys exec" where
  "os_recv_blocking thread timed s = os_with s (\<lambda>b.
     case os_try_recv b of
       Inr st \<Rightarrow> Done (s\<lparr>os_rpc := RConsume st\<rparr>)
     | Inl _ \<Rightarrow> Done (s\<lparr>os_rpc := RSpin thread timed backoff_new\<rparr>))"

text \<open>One round of the snooze loop, and the look before parking.\<close>

definition os_recv_snooze :: "nat \<Rightarrow> bool \<Rightarrow> backoff \<Rightarrow> 'a os_sys \<Rightarrow> 'a os_sys exec" where
  "os_recv_snooze thread timed bo s =
     exec_bind (backoff_snooze bo) (\<lambda>(bo', _, completed).
       if completed then Done (s\<lparr>os_rpc := RSet (WRecv thread timed)\<rparr>)
       else os_with s (\<lambda>b.
         case os_try_recv b of
           Inr st \<Rightarrow> Done (s\<lparr>os_rpc := RConsume st\<rparr>)
         | Inl _ \<Rightarrow> Done (s\<lparr>os_rpc := RSpin thread timed bo'\<rparr>)))"

definition os_recv_look :: "bool \<Rightarrow> 'a os_sys \<Rightarrow> 'a os_sys exec" where
  "os_recv_look timed s = os_with s (\<lambda>b.
     case os_try_recv b of
       Inr st \<Rightarrow> Done (s\<lparr>os_rpc := RConsume st\<rparr>)
     | Inl _ \<Rightarrow> Done (s\<lparr>os_rpc := RPark timed\<rparr>))"

text \<open>\<^verbatim>\<open>set_waker\<close> in its two accesses, and \<^verbatim>\<open>cancel_waker\<close>, with the reaction of the caller to the answer.\<close>

definition os_write_waker :: "os_wait \<Rightarrow> 'a os_sys \<Rightarrow> 'a os_sys exec" where
  "os_write_waker w s = os_with s (\<lambda>b.
     Done (s\<lparr>os_box := Some (b\<lparr>os_waker := Some (wait_waker w)\<rparr>), os_rpc := RReg w\<rparr>))"

definition os_set_waker :: "os_wait \<Rightarrow> 'a os_sys \<Rightarrow> 'a os_sys exec" where
  "os_set_waker w s = os_with s (\<lambda>b.
     case cas 0 WAKER_SET_FLAG (os_state b) of
       (st, Inr _) \<Rightarrow> (let s1 = s\<lparr>os_box := Some (b\<lparr>os_state := st\<rparr>)\<rparr>
         in case w of
              WPoll _ \<Rightarrow> Done (os_return s1 True OPending)
            | WRecv _ timed \<Rightarrow> Done (s1\<lparr>os_rpc := RWait timed\<rparr>))
     | (_, Inl st) \<Rightarrow> Done (s\<lparr>os_rpc := RConsume st\<rparr>))"

definition os_cancel_waker :: "nat option \<Rightarrow> 'a os_sys \<Rightarrow> 'a os_sys exec" where
  "os_cancel_waker task s = os_with s (\<lambda>b.
     let new_state = (if task = None then CLOSE_FLAG else 0)
     in case cas WAKER_SET_FLAG new_state (os_state b) of
          (st, Inr _) \<Rightarrow> (let s1 = s\<lparr>os_box := Some (b\<lparr>os_state := st\<rparr>)\<rparr>
            in case task of
                 Some t \<Rightarrow> Done (s1\<lparr>os_rpc := RSet (WPoll t)\<rparr>)
               | None \<Rightarrow> Done (os_return s1 False OTimeout))
        | (_, Inl st) \<Rightarrow> Done (s\<lparr>os_rpc := RConsume st\<rparr>))"

text \<open>\<^verbatim>\<open>_consume_value\<close>: take the value, then a round of its closing loop.\<close>

definition os_consume_value :: "bool \<Rightarrow> u8 \<Rightarrow> 'a os_sys \<Rightarrow> 'a os_sys exec" where
  "os_consume_value dbg state s = os_assert dbg (state AND LOCK_FLAG > 0) (os_with s (\<lambda>b.
     if state AND EXIST_FLAG > 0
     then Done (s\<lparr>os_box := Some (b\<lparr>os_value := None\<rparr>), os_rpc := RClose (os_value b) state\<rparr>)
     else Done (s\<lparr>os_rpc := RClose None state\<rparr>)))"

definition os_consume_close :: "'a option \<Rightarrow> u8 \<Rightarrow> 'a os_sys \<Rightarrow> 'a os_sys exec" where
  "os_consume_close item state s =
     (let r = (case item of Some x \<Rightarrow> OGot x | None \<Rightarrow> ODisconnected)
      in if state AND CLOSE_FLAG > 0
         then exec_map (\<lambda>s'. os_return s' False r) (os_free s)
         else os_with s (\<lambda>b.
           case cas state (CLOSE_FLAG OR state) (os_state b) of
             (st, Inr _) \<Rightarrow> Done (os_return (s\<lparr>os_box := Some (b\<lparr>os_state := st\<rparr>)\<rparr>) False r)
           | (_, Inl st) \<Rightarrow> Done (s\<lparr>os_rpc := RClose item st\<rparr>)))"

definition os_rstep :: "bool \<Rightarrow> os_rcall \<Rightarrow> bool \<Rightarrow> 'a os_sys \<Rightarrow> 'a os_sys exec" where
  "os_rstep dbg call expired s =
     (case os_rpc s of
        RIdle False \<Rightarrow> (case call of
            CDropRx \<Rightarrow> Done s
          | _ \<Rightarrow> Done (os_return s False ODisconnected))
      | RIdle True \<Rightarrow> (case call of
            CTryRecv \<Rightarrow> os_rx_try_recv s
          | CPoll task \<Rightarrow> os_rx_poll task s
          | CRecv thread timed \<Rightarrow> os_recv_blocking thread timed s
          | CDropRx \<Rightarrow> os_drop_rx dbg s)
      | RSpin thread timed bo \<Rightarrow> os_recv_snooze thread timed bo s
      | RCancel task \<Rightarrow> os_cancel_waker (Some task) s
      | RSet w \<Rightarrow> os_write_waker w s
      | RReg w \<Rightarrow> os_set_waker w s
      | RWait timed \<Rightarrow> os_recv_look timed s
      | RPark timed \<Rightarrow> Done (s\<lparr>os_rpc := (if timed \<and> expired then RAbandon else RWait timed)\<rparr>)
      | RAbandon \<Rightarrow> os_cancel_waker None s
      | RConsume state \<Rightarrow> os_consume_value dbg state s
      | RClose item state \<Rightarrow> os_consume_close item state s
      | RFree \<Rightarrow> os_drop_free s)"

lemmas os_rstep_defs = os_rstep_def os_rx_try_recv_def os_rx_poll_def os_recv_blocking_def os_recv_snooze_def
  os_recv_look_def os_write_waker_def os_set_waker_def os_cancel_waker_def os_consume_value_def os_consume_close_def
  os_drop_free_def

datatype 'a os_turn = TxTurn "'a os_tcall" bool | RxTurn os_rcall bool

fun os_step :: "bool \<Rightarrow> 'a os_turn \<Rightarrow> 'a os_sys \<Rightarrow> 'a os_sys exec" where
  "os_step dbg (TxTurn call spurious) s = os_tstep dbg call spurious s"
| "os_step dbg (RxTurn call expired) s = os_rstep dbg call expired s"

fun os_run :: "bool \<Rightarrow> 'a os_turn list \<Rightarrow> 'a os_sys \<Rightarrow> 'a os_sys exec" where
  "os_run dbg [] s = Done s"
| "os_run dbg (t # ts) s = exec_bind (os_step dbg t s) (os_run dbg ts)"

text \<open>
  What \<^verbatim>\<open>recv\<close>, \<^verbatim>\<open>recv_timeout\<close> and \<^verbatim>\<open>try_recv\<close> make of the outcome; \<open>OEmpty\<close> arises in \<^verbatim>\<open>try_recv\<close> only and
  \<open>OTimeout\<close> in \<^verbatim>\<open>recv_timeout\<close> only.
\<close>

fun os_recv :: "'a os_result \<Rightarrow> recv_error + 'a" where
  "os_recv (OGot x) = Inr x"
| "os_recv _ = Inl RecvError"

fun os_recv_timeout :: "'a os_result \<Rightarrow> recv_timeout_error + 'a" where
  "os_recv_timeout (OGot x) = Inr x"
| "os_recv_timeout OTimeout = Inl RTTimeout"
| "os_recv_timeout _ = Inl RTDisconnected"

text \<open>\<^verbatim>\<open>is_empty\<close> of the receiver, also without its handle.\<close>

definition os_rx_is_empty :: "'a os_sys \<Rightarrow> bool exec" where
  "os_rx_is_empty s = (if os_rpc s = RIdle False then Done True else os_with s (\<lambda>b. Done (os_is_empty b)))"

section \<open>Results of the futures\<close>

text \<open>\<^verbatim>\<open>RxOneshot\<close> as a future, and \<^verbatim>\<open>OneshotTimeoutFuture\<close>: the receiver is polled first, then the timer.\<close>

fun os_future_poll :: "'a os_result \<Rightarrow> (recv_error + 'a) std_poll" where
  "os_future_poll (OGot x) = PReady (Inr x)"
| "os_future_poll OPending = PPending"
| "os_future_poll _ = PReady (Inl RecvError)"

definition os_timeout_poll :: "'a os_result \<Rightarrow> bool \<Rightarrow> (recv_timeout_error + 'a) std_poll" where
  "os_timeout_poll r timer_ready =
     (case os_future_poll r of
        PReady (Inr x) \<Rightarrow> PReady (Inr x)
      | PReady (Inl _) \<Rightarrow> PReady (Inl RTDisconnected)
      | PPending \<Rightarrow> if timer_ready then PReady (Inl RTTimeout) else PPending)"

end
