(* ===== verification/Oneshot_Proofs.thy ===== *)
theory Oneshot_Proofs
  imports Oneshot
begin

unbundle bit_operations_syntax

text \<open>
  Correctness of the one-shot channel under every interleaving of its sender and receiver: an invariant that
  ties the state byte to the two program counters, and from it freedom from use-after-free, double free,
  panics and races on the waker cell, exactly-once delivery, no lost wake-up, and delivery within a fixed
  number of receiver steps.
\<close>

section \<open>Reachable states\<close>

text \<open>
  A receiver that was polled and is pending is not turned into a blocking receive; what happens then is
  shown at the end of this theory.
\<close>

fun os_allowed :: "'a os_turn \<Rightarrow> 'a os_sys \<Rightarrow> bool" where
  "os_allowed (RxTurn (CRecv t timed) e) s \<longleftrightarrow> OPending \<notin> set (os_results s)"
| "os_allowed _ s \<longleftrightarrow> True"

inductive os_reach :: "bool \<Rightarrow> 'a os_sys \<Rightarrow> bool" for dbg where
  start: "os_reach dbg os_start"
| step: "os_reach dbg s \<Longrightarrow> os_allowed t s \<Longrightarrow> os_step dbg t s = Done s' \<Longrightarrow> os_reach dbg s'"

section \<open>The invariant\<close>

definition opt_list :: "'b option \<Rightarrow> 'b list" where
  "opt_list v = (case v of None \<Rightarrow> [] | Some x \<Rightarrow> [x])"

lemma opt_list_simps [simp]: "opt_list None = []" "opt_list (Some x) = [x]"
  by (simp_all add: opt_list_def)

lemma opt_list_Nil [simp]: "opt_list v = [] \<longleftrightarrow> v = None"
  by (cases v) simp_all

lemma opt_list_case [simp]: "(case v of None \<Rightarrow> [] | Some x \<Rightarrow> [x]) = opt_list v"
  by (simp add: opt_list_def)

definition os_got :: "'a os_result list \<Rightarrow> 'a list" where
  "os_got rs = concat (map (\<lambda>r. case r of OGot x \<Rightarrow> [x] | _ \<Rightarrow> []) rs)"

lemma os_got_simps [simp]:
  "os_got [] = []"
  "os_got (rs @ [r]) = os_got rs @ (case r of OGot x \<Rightarrow> [x] | _ \<Rightarrow> [])"
  by (simp_all add: os_got_def)

text \<open>The places a value that was sent can be in.\<close>

definition os_places :: "'a os_sys \<Rightarrow> 'a list" where
  "os_places s =
     os_dropped s @
     (case os_box s of Some b \<Rightarrow> opt_list (os_value b) | None \<Rightarrow> []) @
     (case os_rpc s of RClose item _ \<Rightarrow> opt_list item | _ \<Rightarrow> []) @
     os_got (os_results s)"

text \<open>The byte as the sender's program counter allows it; \<open>e\<close>: a value was sent, \<open>h\<close>: the receiver holds the cell.\<close>

fun tx_ok :: "bool \<Rightarrow> os_tpc \<Rightarrow> bool \<Rightarrow> u8 \<Rightarrow> bool" where
  "tx_ok e TIdle h st \<longleftrightarrow> \<not> e \<and> (if h then st = 0 \<or> st = 2 else st = 4 \<or> st = 6)"
| "tx_ok e (TNotify e' old) h st \<longleftrightarrow> e' = e \<and> (if h then st = 0 \<or> st = 2 else st = 4 \<or> st = 6) \<and>
     (old = 0 \<or> old = 2 \<or> (old = 4 \<or> old = 6) \<and> \<not> h)"
| "tx_ok e (TWake e' n) h st \<longleftrightarrow> e' = e \<and> n = (if e then 11 else 3) \<and>
     (if h then st = n else st = (if e then 15 else 7))"
| "tx_ok e (TClose e' n) h st \<longleftrightarrow> e' = e \<and> n = (if e then 11 else 3) \<and>
     (if h then st = n else st = (if e then 15 else 7))"
| "tx_ok e TFree h st \<longleftrightarrow> \<not> h"
| "tx_ok e TDone h st \<longleftrightarrow> h \<and> st = (if e then 13 else 5)"

text \<open>A waker is published, or the sender has fired it.\<close>

fun fired :: "os_tpc \<Rightarrow> bool" where
  "fired TDone = True"
| "fired (TClose e n) = True"
| "fired _ = False"

definition registered :: "'a os_sys \<Rightarrow> 'a os_inner \<Rightarrow> bool" where
  "registered s b \<longleftrightarrow> os_state b \<noteq> 0 \<and>
     (\<exists>w. os_waker b = Some w \<and> (fired (os_tpc s) \<longrightarrow> w \<in> set (os_woken s)))"

definition unregistered :: "'a os_inner \<Rightarrow> bool" where
  "unregistered b \<longleftrightarrow> os_state b \<noteq> 2 \<and> os_state b \<noteq> 3 \<and> os_state b \<noteq> 11"

fun seen_ok :: "bool \<Rightarrow> u8 \<Rightarrow> u8 \<Rightarrow> bool" where
  "seen_ok e seen st \<longleftrightarrow>
     (if e then (st = 11 \<or> st = 13) \<and> (seen = 11 \<or> seen = 13) else (st = 3 \<or> st = 5) \<and> (seen = 3 \<or> seen = 5)) \<and>
     (seen = 13 \<longrightarrow> st = 13) \<and> (seen = 5 \<longrightarrow> st = 5)"

fun rx_ok :: "'a os_rpc \<Rightarrow> 'a os_sys \<Rightarrow> 'a os_inner \<Rightarrow> bool" where
  "rx_ok (RIdle h) s b \<longleftrightarrow> (h \<longrightarrow> os_value b = os_sent s \<and>
     (OPending \<in> set (os_results s) \<longrightarrow> registered s b \<and> (\<exists>t. os_waker b = Some (Async t))) \<and>
     (OPending \<notin> set (os_results s) \<longrightarrow> unregistered b))"
| "rx_ok (RSpin t d bo) s b \<longleftrightarrow> os_value b = os_sent s \<and> unregistered b \<and> unat (spin_limit (config bo)) \<le> 31"
| "rx_ok (RCancel t) s b \<longleftrightarrow> os_value b = os_sent s \<and> registered s b"
| "rx_ok (RSet w) s b \<longleftrightarrow> os_value b = os_sent s \<and> unregistered b"
| "rx_ok (RReg w) s b \<longleftrightarrow> os_value b = os_sent s \<and> unregistered b \<and> os_waker b = Some (wait_waker w)"
| "rx_ok (RWait d) s b \<longleftrightarrow> os_value b = os_sent s \<and> registered s b"
| "rx_ok (RPark d) s b \<longleftrightarrow> os_value b = os_sent s \<and> registered s b"
| "rx_ok RAbandon s b \<longleftrightarrow> os_value b = os_sent s \<and> registered s b"
| "rx_ok (RConsume seen) s b \<longleftrightarrow> os_value b = os_sent s \<and> seen_ok (os_sent s \<noteq> None) seen (os_state b)"
| "rx_ok (RClose item seen) s b \<longleftrightarrow> os_value b = None \<and> item = os_sent s \<and>
     seen_ok (os_sent s \<noteq> None) seen (os_state b)"
| "rx_ok RFree s b \<longleftrightarrow> os_value b = os_sent s \<and> os_state b = (if os_sent s \<noteq> None then 13 else 5)"

definition waker_bit :: "u8 \<Rightarrow> bool" where
  "waker_bit st \<longleftrightarrow> st AND WAKER_SET_FLAG \<noteq> 0"

lemma waker_bit_simps [simp]: "\<not> waker_bit 0" "waker_bit (numeral n) \<longleftrightarrow> (numeral n :: u8) AND 2 \<noteq> 0"
  by (simp_all add: waker_bit_def WAKER_SET_FLAG_def)

definition rx_holds :: "'a os_sys \<Rightarrow> bool" where
  "rx_holds s \<longleftrightarrow> os_rpc s \<noteq> RIdle False"

definition os_ok :: "'a os_sys \<Rightarrow> bool" where
  "os_ok s \<longleftrightarrow>
     os_places s = opt_list (os_sent s) \<and>
     (case os_box s of
        None \<Rightarrow> os_tpc s = TDone \<and> os_rpc s = RIdle False \<and> os_frees s = 1
      | Some b \<Rightarrow>
          os_frees s = 0 \<and>
          tx_ok (os_sent s \<noteq> None) (os_tpc s) (rx_holds s) (os_state b) \<and>
          (waker_bit (os_state b) \<longrightarrow> os_waker b \<noteq> None) \<and>
          rx_ok (os_rpc s) s b)"

lemma os_start_ok: "os_ok os_start"
  by (simp add: os_ok_def os_start_def os_new_def os_places_def rx_holds_def unregistered_def)

lemmas os_ok_unfold = os_ok_def os_places_def rx_holds_def registered_def unregistered_def

lemma exist_bit_simps [simp]: "exist_bit True = 8" "exist_bit False = 0"
  by (simp_all add: exist_bit_def os_flags)

lemmas os_steps_unfold = os_with_def os_free_def os_assert_def os_return_def os_drop_rx_def os_flags cas_def
  cas_weak_def os_try_recv_def total_map

lemma os_rpc_cases:
  obtains "p = RIdle True" | "p = RIdle False" | t d bo where "p = RSpin t d bo" | t where "p = RCancel t"
    | w where "p = RSet w" | w where "p = RReg w" | d where "p = RWait d" | d where "p = RPark d"
    | "p = RAbandon" | seen where "p = RConsume seen" | item seen where "p = RClose item seen" | "p = RFree"
  by (cases p; metis (full_types))

lemma rx_ok_goto: "fired t \<longrightarrow> fired (os_tpc s) \<Longrightarrow> rx_ok p s b \<Longrightarrow> rx_ok p (s\<lparr>os_tpc := t\<rparr>) b"
  by (cases p) (auto simp: registered_def)

lemma os_ok_goto:
  assumes "os_ok s" "os_box s = Some b" "fired t \<longrightarrow> fired (os_tpc s)"
    "tx_ok (os_sent s \<noteq> None) t (rx_holds s) (os_state b)"
  shows "os_ok (s\<lparr>os_tpc := t\<rparr>)"
  using assms rx_ok_goto [of t s "os_rpc s" b] by (auto simp: os_ok_def os_places_def rx_holds_def)

lemma rx_ok_lock0:
  assumes "rx_ok p s b" "os_state b = 0" "p \<noteq> RIdle False"
  shows "rx_ok p (s\<lparr>os_box := bx, os_tpc := TDone\<rparr>) (b\<lparr>os_state := (if os_sent s \<noteq> None then 13 else 5)\<rparr>)"
  using assms by (cases p) (auto simp: registered_def unregistered_def split: if_splits)

lemma rx_ok_lock2:
  assumes "rx_ok p s b" "os_state b = 2" "p \<noteq> RIdle False"
  shows "rx_ok p (s\<lparr>os_box := bx, os_tpc := TWake e n\<rparr>) (b\<lparr>os_state := (if os_sent s \<noteq> None then 11 else 3)\<rparr>)"
  using assms by (cases p) (auto simp: registered_def unregistered_def split: if_splits)

lemma rx_ok_woken:
  assumes "rx_ok p s b" "os_waker b = Some w"
  shows "rx_ok p (s\<lparr>os_woken := os_woken s @ [w], os_tpc := t\<rparr>) b"
  using assms by (cases p) (auto simp: registered_def)

lemma rx_ok_close:
  assumes "rx_ok p s b" "os_tpc s = TClose e n" "p \<noteq> RIdle False" "os_state b = (if os_sent s \<noteq> None then 11 else 3)"
  shows "rx_ok p (s\<lparr>os_box := bx, os_tpc := TDone\<rparr>) (b\<lparr>os_state := (if os_sent s \<noteq> None then 13 else 5)\<rparr>)"
  using assms by (cases p) (auto simp: registered_def unregistered_def split: if_splits)

lemma os_tstep_ok:
  assumes ok: "os_ok s"
  shows "total (os_tstep dbg call spurious s) os_ok"
proof (cases "os_box s")
  case None
  then show ?thesis using ok by (simp add: os_ok_def os_tstep_defs)
next
  case (Some b)
  show ?thesis
  proof (cases "os_tpc s")
    case TIdle
    have st: "os_state b = 0 \<or> os_state b = 2 \<or> os_state b = 4 \<or> os_state b = 6" "os_sent s = None"
      using TIdle ok Some by (auto simp: os_ok_def split: if_splits)
    show ?thesis 
    proof (cases call)
      case CDropTx
      show ?thesis using st TIdle ok Some CDropTx
        by (elim disjE; cases "os_rpc s" rule: os_rpc_cases;
            auto simp: os_tstep_defs os_steps_unfold os_ok_unfold)
    next
      case (CSend x)
      show ?thesis using st TIdle ok Some CSend
        by (elim disjE; cases "os_rpc s" rule: os_rpc_cases;
            auto simp: os_tstep_defs os_steps_unfold os_ok_unfold)
    qed
  next
    case (TNotify e old)
    have tx: "tx_ok (os_sent s \<noteq> None) (TNotify e old) (rx_holds s) (os_state b)"
      using TNotify ok Some by (simp add: os_ok_def)
    show ?thesis
    proof (cases "(old = 0 \<or> old = 2) \<and> os_state b = old \<and> \<not> spurious")
      case True
      let ?n = "if old = 0 then if e then 13 else 5 else if e then 11 else 3"
      let ?s = "s\<lparr>os_box := Some (b\<lparr>os_state := ?n\<rparr>), os_tpc := (if old = 0 then TDone else TWake e ?n)\<rparr>"
      have "os_tstep dbg call spurious s = Done ?s"
        using True TNotify Some by (cases e) (auto simp: os_tstep_defs os_steps_unfold)
      moreover have "rx_holds s" "e = (os_sent s \<noteq> None)" using True tx by (auto split: if_splits)
      moreover have "rx_ok (os_rpc s) ?s (b\<lparr>os_state := ?n\<rparr>)"
        using ok Some True calculation(2,3) rx_ok_lock0 [of "os_rpc s" s b] rx_ok_lock2 [of "os_rpc s" s b]
        by (auto simp: os_ok_def rx_holds_def)
      ultimately show ?thesis
        using ok Some True TNotify by (auto simp: os_ok_def os_places_def rx_holds_def)
    next
      case False
      then have "os_tstep dbg call spurious s =
          Done (s\<lparr>os_tpc := (if old = 0 \<or> old = 2 then TNotify e (os_state b) else TFree)\<rparr>)"
        using tx TNotify Some by (auto simp: os_tstep_defs os_steps_unfold)
      then show ?thesis
        using tx TNotify ok Some by (auto intro!: os_ok_goto [OF ok Some] split: if_splits)
    qed
  next
    case (TWake e n)
    have tx: "tx_ok (os_sent s \<noteq> None) (TWake e n) (rx_holds s) (os_state b)"
      using TWake ok Some by (simp add: os_ok_def)
    then obtain w where w: "os_waker b = Some w"
      using ok Some by (auto simp: os_ok_def split: if_splits)
    then show ?thesis using TWake ok Some rx_ok_woken [of "os_rpc s" s b w]
      by (auto simp: os_tstep_defs os_with_def os_ok_def os_places_def rx_holds_def)
  next
    case (TClose e n)
    have tx: "tx_ok (os_sent s \<noteq> None) (TClose e n) (rx_holds s) (os_state b)"
      using TClose ok Some by (simp add: os_ok_def)
    show ?thesis
    proof (cases "rx_holds s")
      case True
      let ?b = "b\<lparr>os_state := (if os_sent s \<noteq> None then 13 else 5)\<rparr>"
      have "os_tstep dbg call spurious s = Done (s\<lparr>os_box := Some ?b, os_tpc := TDone\<rparr>)"
        using True tx TClose Some by (auto simp: os_tstep_defs os_steps_unfold)
      moreover have "rx_ok (os_rpc s) (s\<lparr>os_box := Some ?b, os_tpc := TDone\<rparr>) ?b"
        using True tx ok Some by (intro rx_ok_close [OF _ TClose]) (auto simp: os_ok_def rx_holds_def)
      ultimately show ?thesis
        using True ok Some by (auto simp: os_ok_def os_places_def rx_holds_def)
    next
      case False
      then have "os_tstep dbg call spurious s = Done (s\<lparr>os_tpc := TFree\<rparr>)"
        using tx TClose Some by (auto simp: os_tstep_defs os_steps_unfold split: if_splits)
      then show ?thesis
        using False TClose by (auto intro!: os_ok_goto [OF ok Some])
    qed
  next
    case TFree
    then have "os_rpc s = RIdle False" using ok Some by (simp add: os_ok_def rx_holds_def)
    then show ?thesis using ok Some TFree
      by (auto simp: os_tstep_defs os_steps_unfold os_ok_def os_places_def)
  next
    case TDone
    then show ?thesis using ok by (simp add: os_tstep_defs)
  qed
qed

text \<open>What the receiver finds when it looks, and where it may go from there.\<close>

lemma held_try_recv:
  assumes "os_ok s" "os_box s = Some b" "rx_holds s"
  obtains "os_try_recv b = Inr (os_state b)" "seen_ok (os_sent s \<noteq> None) (os_state b) (os_state b)"
  | "os_try_recv b = Inl 0" "os_state b = 0"
  | "os_try_recv b = Inl 2" "os_state b = 2"
  using assms by (cases "os_tpc s") (auto simp: os_ok_def os_try_recv_def LOCK_FLAG_def split: if_splits)

fun keeps_item :: "'a os_rpc \<Rightarrow> bool" where
  "keeps_item (RClose item seen) = False"
| "keeps_item RFree = False"
| "keeps_item (RIdle h) = h"
| "keeps_item p = True"

lemma rx_ok_rpc [simp]: "rx_ok p (s\<lparr>os_rpc := q\<rparr>) b = rx_ok p s b"
  by (cases p) (simp_all add: registered_def)

lemma os_ok_rgoto:
  assumes "os_ok s" "os_box s = Some b" "keeps_item (os_rpc s)" "keeps_item p" "rx_ok p s b"
  shows "os_ok (s\<lparr>os_rpc := p\<rparr>)"
  using assms by (cases "os_rpc s" rule: os_rpc_cases; cases p rule: os_rpc_cases)
    (simp_all add: os_ok_def os_places_def rx_holds_def)

lemma keeps_holds: "keeps_item (os_rpc s) \<Longrightarrow> rx_holds s"
  by (auto simp: rx_holds_def)

lemma keeps_value: "os_ok s \<Longrightarrow> os_box s = Some b \<Longrightarrow> keeps_item (os_rpc s) \<Longrightarrow> os_value b = os_sent s"
  by (cases "os_rpc s" rule: os_rpc_cases) (simp_all add: os_ok_def)

lemma os_ok_consume:
  assumes "os_ok s" "os_box s = Some b" "keeps_item (os_rpc s)"
    "seen_ok (os_sent s \<noteq> None) (os_state b) (os_state b)"
  shows "os_ok (s\<lparr>os_rpc := RConsume (os_state b)\<rparr>)"
  using assms keeps_value [OF assms(1-3)] by (auto intro!: os_ok_rgoto)

lemma os_drop_rx_ok:
  assumes ok: "os_ok s" and box: "os_box s = Some b" and idle: "os_rpc s = RIdle True"
  shows "total (os_drop_rx dbg s) os_ok"
  using assms
  by (cases "os_tpc s"; auto simp: os_drop_rx_def os_with_def os_free_def os_assert_def os_flags os_ok_def
      os_places_def rx_holds_def split: if_splits)

lemma os_rcall_ok:
  assumes ok: "os_ok s" and box: "os_box s = Some b" and idle: "os_rpc s = RIdle True"
    and allowed: "os_allowed (RxTurn call expired) s"
  shows "total (os_rstep dbg call expired s) os_ok"
proof -
  from idle have keep: "keeps_item (os_rpc s)" by simp
  note v = keeps_value [OF ok box keep]
  have rx: "rx_ok (RIdle True) s b" using ok box idle by (simp add: os_ok_def)
  show ?thesis
  proof (cases rule: held_try_recv [OF ok box keeps_holds [OF keep]])
    case 1
    then show ?thesis using box idle os_ok_consume [OF ok box keep] os_drop_rx_ok [OF ok box idle]
      by (cases call) (simp_all add: os_rstep_defs os_with_def)
  next
    case 2
    then show ?thesis using box idle rx ok os_drop_rx_ok [OF ok box idle]
      by (cases call) (auto simp: os_rstep_defs os_with_def os_return_def os_flags unregistered_def registered_def
        os_ok_def os_places_def rx_holds_def backoff_new_def config_default_def config_from_u32_def DEFAULT_CONFIG_def
        config_to_u32_def SPIN_LIMIT_def)
  next
    case 3
    then show ?thesis using box idle rx ok allowed os_drop_rx_ok [OF ok box idle]
      by (cases call) (auto simp: os_rstep_defs os_with_def os_return_def os_flags unregistered_def registered_def
        os_ok_def os_places_def rx_holds_def)
  qed
qed

lemma os_rspin_ok:
  assumes ok: "os_ok s" and box: "os_box s = Some b" and pc: "os_rpc s = RSpin t d bo"
  shows "total (os_rstep dbg call expired s) os_ok"
proof -
  from pc have keep: "keeps_item (os_rpc s)" by simp
  have rx: "rx_ok (RSpin t d bo) s b" using ok box pc by (simp add: os_ok_def)
  then obtain bo' p c where bo': "backoff_snooze bo = Done (bo', p, c)" "config bo' = config bo"
    by (cases "unat (step bo) < unat (limit (config bo))") (auto simp: snooze_step)
  show ?thesis
  proof (cases c)
    case True
    then show ?thesis using rx pc bo' by (auto simp: os_rstep_defs intro!: os_ok_rgoto [OF ok box])
  next
    case False
    show ?thesis
      by (cases rule: held_try_recv [OF ok box keeps_holds [OF keep]])
        (use False rx pc box bo' os_ok_consume [OF ok box keep] in
          \<open>auto simp: os_rstep_defs os_with_def intro!: os_ok_rgoto [OF ok box]\<close>)
  qed
qed

lemma os_rcas_ok:
  assumes ok: "os_ok s" and box: "os_box s = Some b"
    and pc: "(\<exists>t. os_rpc s = RCancel t) \<or> (\<exists>w. os_rpc s = RReg w) \<or> (\<exists>d. os_rpc s = RWait d) \<or> os_rpc s = RAbandon"
  shows "total (os_rstep dbg call expired s) os_ok"
proof -
  from pc have keep: "keeps_item (os_rpc s)" by auto
  have rx: "rx_ok (os_rpc s) s b" using ok box by (simp add: os_ok_def)
  show ?thesis
  proof (cases rule: held_try_recv [OF ok box keeps_holds [OF keep]])
    case 1
    then have "os_rstep dbg call expired s = Done (s\<lparr>os_rpc := RConsume (os_state b)\<rparr>)"
      using pc box by (auto simp: os_rstep_defs os_with_def cas_def os_flags split: if_splits)
    then show ?thesis using os_ok_consume [OF ok box keep 1(2)] by simp
  next
    case 2
    then obtain w where w: "os_rpc s = RReg w" using pc rx by (auto simp: registered_def)
    then show ?thesis using 2 box ok
      by (cases w; cases "os_tpc s"; auto simp: os_rstep_defs os_with_def cas_def os_flags os_return_def
          os_ok_def os_places_def rx_holds_def registered_def wait_waker_def split: if_splits)
  next
    case 3
    then show ?thesis using pc rx box ok
      by (elim disjE exE; cases "os_tpc s"; auto simp: os_rstep_defs os_with_def cas_def os_flags os_return_def
          os_ok_def os_places_def rx_holds_def unregistered_def split: if_splits)
  qed
qed

lemma os_rclose_ok:
  assumes ok: "os_ok s" and box: "os_box s = Some b" and pc: "os_rpc s = RClose item seen"
  shows "total (os_rstep dbg call expired s) os_ok"
proof -
  define e where "e = (os_sent s \<noteq> None)"
  have rx: "rx_ok (RClose item seen) s b" using ok box pc by (simp add: os_ok_def)
  have got: "os_got (os_results s) = []" "os_dropped s = []" 
    using ok box pc rx by (cases "os_sent s"; simp add: os_ok_def os_places_def; auto simp: append_eq_Cons_conv)+
  have seen: "seen_ok e seen (os_state b)" using rx by (simp add: e_def)
  have tx: "tx_ok e (os_tpc s) True (os_state b)" using ok box pc by (simp add: os_ok_def rx_holds_def e_def)
  consider (fin) "seen AND CLOSE_FLAG > 0" "os_tpc s = TDone" 
    | (close) "\<not> seen AND CLOSE_FLAG > 0" "os_state b = seen" "seen = (if e then 11 else 3)" 
      "\<exists>n. os_tpc s = TWake e n \<or> os_tpc s = TClose e n" "waker_bit seen"
    | (retry) "\<not> seen AND CLOSE_FLAG > 0" "os_state b \<noteq> seen" "seen_ok e (os_state b) (os_state b)"
    using seen tx by (cases "os_tpc s"; cases e) (auto simp: CLOSE_FLAG_def)
  then show ?thesis
  proof cases
    case fin
    then show ?thesis using pc box ok rx got
      by (cases "os_sent s") (auto simp: os_rstep_defs os_with_def os_free_def os_return_def total_map os_ok_def os_places_def)
  next
    case close
    then show ?thesis using pc box ok rx got
      by (cases "os_sent s") (auto simp: os_rstep_defs os_with_def cas_def os_return_def os_ok_def os_places_def
          e_def rx_holds_def os_flags)
  next
    case retry
    then show ?thesis using pc box ok rx tx
      by (auto simp: os_rstep_defs os_with_def cas_def os_ok_def os_places_def e_def rx_holds_def)
  qed
qed

lemma os_rstep_ok:
  assumes ok: "os_ok s" and allowed: "os_allowed (RxTurn call expired) s"
  shows "total (os_rstep dbg call expired s) os_ok"
proof (cases "os_box s")
  case None
  then show ?thesis using ok
    by (cases call) (auto simp: os_ok_unfold os_rstep_defs os_return_def)
next
  case (Some b)
  show ?thesis
  proof (cases "os_rpc s" rule: os_rpc_cases)
    case 1
    then show ?thesis by (rule os_rcall_ok [OF ok Some _ allowed])
  next
    case 2
    then show ?thesis using ok Some
      by (cases call; simp add: os_rstep_defs os_return_def os_ok_def os_places_def rx_holds_def)
  next
    case (3 t d bo)
    then show ?thesis by (rule os_rspin_ok [OF ok Some])
  next
    case (5 w)
    then show ?thesis using ok Some
      by (auto simp: os_rstep_defs os_with_def os_ok_def os_places_def rx_holds_def unregistered_def)
  next
    case (8 d)
    then have "rx_ok (RPark d) s b" using ok Some by (simp add: os_ok_def)
    then show ?thesis using 8
      by (auto simp: os_rstep_defs intro!: os_ok_rgoto [OF ok Some])
  next
    case (10 seen)
    then have "rx_ok (RConsume seen) s b" using ok Some by (simp add: os_ok_def)
    then show ?thesis using 10 ok Some
      by (cases "os_sent s") (auto simp: os_rstep_defs os_with_def os_assert_def os_flags os_ok_def os_places_def rx_holds_def)
  next
    case (11 item seen)
    then show ?thesis by (rule os_rclose_ok [OF ok Some])
  next
    case 12
    then show ?thesis using ok Some
      by (cases "os_tpc s") (auto simp: os_rstep_defs os_with_def os_free_def total_map os_ok_def os_places_def
          rx_holds_def split: if_splits)
  qed (use os_rcas_ok [OF ok Some] in auto)
qed

lemma os_step_ok: "os_ok s \<Longrightarrow> os_allowed t s \<Longrightarrow> total (os_step dbg t s) os_ok"
  by (cases t) (auto intro: os_tstep_ok os_rstep_ok)

lemma os_reach_ok: "os_reach dbg s \<Longrightarrow> os_ok s"
proof (induction rule: os_reach.induct)
  case start
  show ?case by (rule os_start_ok)
next
  case (step s t s')
  then show ?case using os_step_ok [of s t dbg] by (auto simp: total_def)
qed

lemma os_run_reach:
  assumes "os_run dbg ts s = Done s'" "os_reach dbg s" "\<forall>t \<in> set ts. \<forall>r d e. t \<noteq> RxTurn (CRecv r d) e"
  shows "os_reach dbg s'"
  using assms
proof (induction ts arbitrary: s)
  case (Cons t ts)
  from Cons.prems(1) obtain s1 where s1: "os_step dbg t s = Done s1" "os_run dbg ts s1 = Done s'"
    by (cases "os_step dbg t s") auto
  have "os_allowed t s" using Cons.prems(3) by (cases "(t, s)" rule: os_allowed.cases) auto
  then have "os_reach dbg s1" using Cons.prems(2) s1(1) by (blast intro: os_reach.step)
  then show ?case using Cons.IH s1(2) Cons.prems(3) by auto
qed simp

section \<open>Progress of the receiver\<close>

text \<open>The number of steps a receiver needs once the sender is done.\<close>

fun os_rank :: "'a os_rpc \<Rightarrow> nat" where
  "os_rank (RIdle h) = (if h then 4 else 0)"
| "os_rank (RSpin t d bo) = 6"
| "os_rank (RCancel t) = 4"
| "os_rank (RSet w) = 5"
| "os_rank (RReg w) = 4"
| "os_rank (RWait d) = 4"
| "os_rank (RPark d) = 5"
| "os_rank RAbandon = 4"
| "os_rank (RConsume seen) = 3"
| "os_rank (RClose item seen) = (if seen AND CLOSE_FLAG > 0 then 1 else 2)"
| "os_rank RFree = 1"

definition os_answer :: "'a os_sys \<Rightarrow> 'a os_result" where
  "os_answer s = (case os_sent s of Some x \<Rightarrow> OGot x | None \<Rightarrow> ODisconnected)"

lemma os_rstep_progress:
  assumes ok: "os_ok s" and fin: "os_tpc s = TDone" and holds: "rx_holds s" "os_rpc s \<noteq> RFree"
    and call: "call \<noteq> CDropRx"
  shows "total (os_rstep dbg call expired s) (\<lambda>s'. os_tpc s' = TDone \<and> os_rpc s' \<noteq> RFree \<and> os_sent s' = os_sent s \<and>
    os_rank (os_rpc s') < os_rank (os_rpc s) \<and>
    os_results s' = os_results s @ (if rx_holds s' then [] else [os_answer s]))"
proof -
  from ok holds fin obtain b where b: "os_box s = Some b"
    "os_state b = (if os_sent s \<noteq> None then 13 else 5)" "rx_ok (os_rpc s) s b"
    by (auto simp: os_ok_def rx_holds_def split: option.splits)
  have found: "os_try_recv b = Inr (os_state b)" using b(2) by (simp add: os_try_recv_def LOCK_FLAG_def)
  show ?thesis
  proof (cases "os_rpc s" rule: os_rpc_cases)
    case 1
    then show ?thesis using b fin call found
      by (cases call) (auto simp: os_rstep_defs os_with_def rx_holds_def)
  next
    case (3 t d bo)
    then obtain bo' p c where bo': "backoff_snooze bo = Done (bo', p, c)"
      using b(3) by (cases "unat (step bo) < unat (limit (config bo))") (auto simp: snooze_step)
    then show ?thesis using 3 b fin found
      by (auto simp: os_rstep_defs os_with_def rx_holds_def)
  next
    case (6 w)
    then show ?thesis using b fin by (cases w) (auto simp: os_rstep_defs os_with_def cas_def rx_holds_def)
  next
    case (10 seen)
    then show ?thesis using b fin 
      by (cases "os_sent s") (auto simp: os_rstep_defs os_with_def os_assert_def os_flags rx_holds_def)
  next
    case (11 item seen)
    then show ?thesis using b fin
      by (cases "os_sent s") (auto simp: os_rstep_defs os_with_def cas_def os_free_def total_map os_return_def
          rx_holds_def os_answer_def CLOSE_FLAG_def)
  qed (use b fin holds found in \<open>auto simp: os_rstep_defs os_with_def cas_def rx_holds_def os_flags\<close>)
qed

lemma os_run_progress:
  assumes "os_ok s" "os_tpc s = TDone" "rx_holds s" "os_rpc s \<noteq> RFree" "os_rank (os_rpc s) \<le> length ts"
    "\<forall>t \<in> set ts. \<exists>call e. t = RxTurn call e \<and> call \<noteq> CDropRx \<and> (\<forall>r d. call \<noteq> CRecv r d)"
  shows "\<exists>n s'. n \<le> os_rank (os_rpc s) \<and> os_run dbg (take n ts) s = Done s' \<and> \<not> rx_holds s' \<and>
    os_results s' = os_results s @ [os_answer s]"
  using assms
proof (induction ts arbitrary: s)
  case Nil
  then show ?case by (cases "os_rpc s" rule: os_rpc_cases) (auto simp: rx_holds_def split: if_splits)
next
  case (Cons t ts)
  from Cons.prems(6) obtain call e where t: "t = RxTurn call e" "call \<noteq> CDropRx" "os_allowed t s"
    by (cases "(t, s)" rule: os_allowed.cases) auto
  obtain s1 where s1: "os_step dbg t s = Done s1" "os_tpc s1 = TDone" "os_sent s1 = os_sent s"
      "os_rank (os_rpc s1) < os_rank (os_rpc s)"
      "os_results s1 = os_results s @ (if rx_holds s1 then [] else [os_answer s])" "os_rpc s1 \<noteq> RFree"
    using os_rstep_progress [OF Cons.prems(1-4) t(2), of dbg e] by (auto simp: total_def t(1))
  have ok1: "os_ok s1" using os_step_ok [OF Cons.prems(1) t(3), of dbg] s1(1) by (simp add: total_def)
  show ?case
  proof (cases "rx_holds s1")
    case False
    with s1 show ?thesis by (intro exI [of _ 1] exI [of _ s1]) auto
  next
    case True
    have "os_rank (os_rpc s1) \<le> length ts" using s1(4) Cons.prems(5) by simp
    from Cons.IH [OF ok1 s1(2) True s1(6) this] Cons.prems(6) obtain n s' where
      "n \<le> os_rank (os_rpc s1)" "os_run dbg (take n ts) s1 = Done s'" "\<not> rx_holds s'"
      "os_results s' = os_results s1 @ [os_answer s1]" by auto
    with s1 True show ?thesis by (intro exI [of _ "Suc n"] exI [of _ s']) (auto simp: os_answer_def)
  qed
qed

section \<open>Properties\<close>

text \<open>
  C2. The one-shot channel never goes wrong: in every state that sender and receiver reach under any
  schedule, with spurious failures of the weak compare-exchange and expiring deadlines anywhere, every step
  either side may take returns. No access follows the release of the cell, no \<^verbatim>\<open>unreachable!\<close>, \<^verbatim>\<open>unwrap\<close> or
  \<^verbatim>\<open>panic!\<close> is hit and, in a debug build, no debug assertion fails. The cell is gone exactly when both
  sides let go of it, and it was freed once. Excluded (\<open>os_allowed\<close>): a blocking receive on a receiver that was
  polled and is pending, which does go wrong.
\<close>

theorem oneshot_no_fault:
  assumes "os_reach dbg s" "os_allowed t s"
  shows "(\<exists>s'. os_step dbg t s = Done s') \<and>
    (os_box s = None \<longleftrightarrow> os_tpc s = TDone \<and> os_rpc s = RIdle False) \<and>
    os_frees s = (if os_box s = None then 1 else 0)"
proof -
  have ok: "os_ok s" by (rule os_reach_ok [OF assms(1)])
  then show ?thesis
    using os_step_ok [OF ok assms(2), of dbg]
    by (auto simp: total_def os_ok_def rx_holds_def split: option.splits)
qed

theorem oneshot_no_fault_witness:
  "\<exists>s'. os_step True (RxTurn CTryRecv False) (os_start :: nat os_sys) = Done s'"
  using oneshot_no_fault [of True "os_start :: nat os_sys" "RxTurn CTryRecv False"]
  by (simp add: os_reach.start)

text \<open>
  C3. Exactly-once delivery of the one-shot channel: at every moment a value that was sent is in exactly one
  place, the cell, the receiver's hand, a result of the receiver, or dropped with the cell; and when both
  sides have let go, it was either received once or dropped once, and nothing else was received.
\<close>

theorem oneshot_exactly_once:
  assumes "os_reach dbg s"
  shows "os_places s = opt_list (os_sent s) \<and>
    (os_tpc s = TDone \<and> os_rpc s = RIdle False \<longrightarrow> os_dropped s @ os_got (os_results s) = opt_list (os_sent s))"
  using os_reach_ok [OF assms] by (auto simp: os_ok_def os_places_def rx_holds_def split: option.splits)

theorem oneshot_exactly_once_witness:
  "\<exists>s. os_run True [RxTurn CDropRx False, TxTurn (CSend (5 :: nat)) False, TxTurn CDropTx False,
       TxTurn CDropTx False, TxTurn CDropTx False] os_start = Done s \<and>
     os_dropped s @ os_got (os_results s) = [5]"
    (is "\<exists>s. os_run True ?ts os_start = Done s \<and> _")
proof -
  obtain s where s: "os_run True ?ts os_start = Done s" "os_tpc s = TDone" "os_rpc s = RIdle False" "os_sent s = Some 5"
    by (simp add: os_start_def os_new_def os_rstep_defs os_tstep_defs os_drop_rx_def os_assert_def os_free_def
        os_with_def os_flags cas_weak_def)
  have "os_reach True s" by (rule os_run_reach [OF s(1)]) (auto intro: os_reach.start)
  with s show ?thesis using oneshot_exactly_once [of True s] by auto
qed

text \<open>
  C23. The two \<^verbatim>\<open>UnsafeCell\<close>s of the one-shot channel are never accessed concurrently. When the receiver is
  about to write the waker, the sender is not about to wake it, so it does not hold a reference into the
  cell; when the receiver is about to take the value, the sender is no longer about to write it; and
  when one side is about to free the cell, after taking the value or when its handle is dropped, the other
  side has let go of it.
\<close>

theorem oneshot_race_free:
  assumes "os_reach dbg s"
  shows "((\<exists>w. os_rpc s = RSet w) \<longrightarrow> (\<nexists>e n. os_tpc s = TWake e n)) \<and>
    ((\<exists>seen. os_rpc s = RConsume seen) \<longrightarrow> os_tpc s \<noteq> TIdle) \<and>
    (os_tpc s = TFree \<longrightarrow> os_rpc s = RIdle False) \<and>
    ((\<exists>item seen. os_rpc s = RClose item seen \<and> seen AND CLOSE_FLAG > 0) \<or> os_rpc s = RFree \<longrightarrow>
      os_tpc s = TDone)"
  using os_reach_ok [OF assms]
  by (cases "os_tpc s";
      auto simp: os_ok_def rx_holds_def unregistered_def CLOSE_FLAG_def split: option.splits if_splits)

theorem oneshot_race_free_witness:
  "\<exists>s. os_run True [RxTurn (CPoll 7) False, TxTurn (CSend (5 :: nat)) False] os_start = Done s \<and>
     os_rpc s = RSet (WPoll 7) \<and> (\<nexists>e n. os_tpc s = TWake e n)"
proof -
  obtain s where s: "os_run True [RxTurn (CPoll 7) False, TxTurn (CSend (5 :: nat)) False] os_start = Done s"
    "os_rpc s = RSet (WPoll 7)"
    by (simp add: os_start_def os_new_def os_rstep_defs os_tstep_defs os_with_def os_try_recv_def os_flags)
  have "os_reach True s" by (rule os_run_reach [OF s(1)]) (auto intro: os_reach.start)
  then have "\<nexists>e n. os_tpc s = TWake e n" using s(2) oneshot_race_free [THEN conjunct1] by blast
  with s show ?thesis by blast
qed

text \<open>
  C4. No wake-up is lost and delivery is bounded: once the sender has sent or was dropped, a receiver that is
  parked, or whose poll answered pending, has had its registered waker fired; and from whatever point a
  receiver that was not dropped is at, at most six of its own steps make it return the value that was sent, or the
  disconnection if there was none.
\<close>

theorem oneshot_delivery:
  assumes "os_reach dbg s" "os_tpc s = TDone" "os_rpc s \<noteq> RIdle False" "os_rpc s \<noteq> RFree" "6 \<le> length ts"
    "\<forall>t \<in> set ts. \<exists>call e. t = RxTurn call e \<and> call \<noteq> CDropRx \<and> (\<forall>r d. call \<noteq> CRecv r d)"
  shows "((\<exists>d. os_rpc s = RPark d) \<or> os_rpc s = RIdle True \<and> OPending \<in> set (os_results s) \<longrightarrow>
      (\<exists>b w. os_box s = Some b \<and> os_waker b = Some w \<and> w \<in> set (os_woken s))) \<and>
    (\<exists>n s'. n \<le> 6 \<and> os_run dbg (take n ts) s = Done s' \<and> os_rpc s' = RIdle False \<and>
      os_results s' = os_results s @ [case os_sent s of Some x \<Rightarrow> OGot x | None \<Rightarrow> ODisconnected])"
proof
  have ok: "os_ok s" by (rule os_reach_ok [OF assms(1)])
  then show "(\<exists>d. os_rpc s = RPark d) \<or> os_rpc s = RIdle True \<and> OPending \<in> set (os_results s) \<longrightarrow>
      (\<exists>b w. os_box s = Some b \<and> os_waker b = Some w \<and> w \<in> set (os_woken s))"
    using assms(2) by (auto simp: os_ok_def registered_def split: option.splits)
  have "os_rank (os_rpc s) \<le> 6" by (cases "os_rpc s") auto
  then show "\<exists>n s'. n \<le> 6 \<and> os_run dbg (take n ts) s = Done s' \<and> os_rpc s' = RIdle False \<and>
      os_results s' = os_results s @ [case os_sent s of Some x \<Rightarrow> OGot x | None \<Rightarrow> ODisconnected]"
    using os_run_progress [OF ok assms(2) _ assms(4) _ assms(6)] assms(3,5)
    unfolding rx_holds_def os_answer_def by (meson le_trans)
qed

theorem oneshot_delivery_witness:
  "\<exists>s n s'. os_run True [RxTurn (CPoll 7) False, RxTurn (CPoll 7) False, RxTurn (CPoll 7) False,
       TxTurn (CSend (5 :: nat)) False, TxTurn CDropTx False, TxTurn CDropTx False, TxTurn CDropTx False,
       TxTurn CDropTx False] os_start = Done s \<and> Async 7 \<in> set (os_woken s) \<and>
     n \<le> 6 \<and> os_run True (replicate n (RxTurn (CPoll 7) False)) s = Done s' \<and> os_results s' = [OPending, OGot 5]"
    (is "\<exists>s n s'. os_run True ?ts os_start = Done s \<and> _")
proof -
  obtain s b where s: "os_run True ?ts os_start = Done s" "os_tpc s = TDone" "os_rpc s = RIdle True" "os_sent s = Some 5"
      "os_results s = [OPending]" "os_box s = Some b" "os_waker b = Some (Async 7)"
    by (simp add: os_start_def os_new_def os_rstep_defs os_tstep_defs os_try_recv_def os_return_def wait_waker_def
        os_with_def os_flags cas_weak_def cas_def)
  have "os_reach True s" by (rule os_run_reach [OF s(1)]) (auto intro: os_reach.start)
  then have "Async 7 \<in> set (os_woken s)" "\<exists>n s'. n \<le> 6 \<and>
      os_run True (take n (replicate 6 (RxTurn (CPoll 7) False))) s = Done s' \<and> os_results s' = [OPending, OGot 5]"
    using s oneshot_delivery [of True s "replicate 6 (RxTurn (CPoll 7) False)"] by auto
  with s(1) show ?thesis by (simp only: take_replicate) (metis min.absorb1)
qed

section \<open>A blocking receive after a pending poll\<close>

fun unsent :: "os_tpc \<Rightarrow> bool" where
  "unsent TIdle = True"
| "unsent (TNotify e old) = True"
| "unsent _ = False"

text \<open>Before the sender has taken the lock, the byte of a pending receiver is \<^verbatim>\<open>WAKER_SET_FLAG\<close>.\<close>

lemma pending_state:
  assumes "os_ok s" "os_rpc s = RIdle True" "OPending \<in> set (os_results s)"
  obtains b where "os_box s = Some b" "os_value b = os_sent s" "os_dropped s = []" "os_got (os_results s) = []"
    "unsent (os_tpc s) \<longrightarrow> os_state b = 2"
    "\<not> unsent (os_tpc s) \<longrightarrow> seen_ok (os_sent s \<noteq> None) (os_state b) (os_state b)"
proof -
  from assms obtain b where b: "os_box s = Some b" by (auto simp: os_ok_def split: option.splits)
  have "unsent (os_tpc s) \<longrightarrow> os_state b = 2"
      "\<not> unsent (os_tpc s) \<longrightarrow> seen_ok (os_sent s \<noteq> None) (os_state b) (os_state b)"
    using assms b by (cases "os_tpc s"; auto simp: os_ok_def registered_def rx_holds_def split: if_splits)+
  moreover have "os_value b = os_sent s" using assms b by (simp add: os_ok_def)
  moreover from this have "os_dropped s = []" "os_got (os_results s) = []"
    using assms b by (cases "os_sent s"; simp add: os_ok_def os_places_def append_eq_Cons_conv; auto)+
  ultimately show thesis using b that by blast
qed

lemma os_run_append: "os_run dbg (ts @ us) s = exec_bind (os_run dbg ts s) (os_run dbg us)"
proof (induction ts arbitrary: s)
  case (Cons t ts)
  then show ?case by (cases "os_step dbg t s") simp_all
qed simp

text \<open>The snooze loop of a blocking receive that finds nothing: it uses its backoff up and goes on to register.\<close>

lemma os_spin_rounds:
  assumes "os_rpc s = RSpin th timed bo" "os_box s = Some b" "os_state b = 2" "unat (spin_limit (config bo)) \<le> 31"
    "n = unat (limit (config bo)) - unat (step bo)"
  shows "os_run dbg (replicate (Suc n) (RxTurn call e)) s = Done (s\<lparr>os_rpc := RSet (WRecv th timed)\<rparr>)"
  using assms
proof (induction n arbitrary: s bo)
  case 0
  then show ?case by (simp add: os_rstep_defs snooze_step)
next
  case (Suc n)
  let ?bo = "bo\<lparr>step := step bo + 1\<rparr>"
  have lt: "unat (step bo) < unat (limit (config bo))" using Suc.prems(5) by simp
  then have "unat (step ?bo) = Suc (unat (step bo))"
    using unat_Suc_less [of "step bo" "limit (config bo)"] by (simp add: word_less_nat_alt)
  then have "n = unat (limit (config ?bo)) - unat (step ?bo)" using Suc.prems(5) by simp
  moreover have "os_step dbg (RxTurn call e) s = Done (s\<lparr>os_rpc := RSpin th timed ?bo\<rparr>)"
    using Suc.prems lt by (simp add: os_rstep_defs snooze_step os_with_def os_try_recv_def LOCK_FLAG_def)
  moreover have "os_run dbg (replicate (Suc (Suc n)) (RxTurn call e)) s =
      exec_bind (os_step dbg (RxTurn call e) s) (os_run dbg (replicate (Suc n) (RxTurn call e)))" by simp
  ultimately show ?case
    using Suc.IH [of "s\<lparr>os_rpc := RSpin th timed ?bo\<rparr>" ?bo] Suc.prems(1-4) by (simp del: replicate_Suc)
qed

lemma backoff_new_config: "config backoff_new = \<lparr>spin_limit = 6, limit = 6\<rparr>" "step backoff_new = 0"
  by (simp_all add: backoff_new_def config_default_def config_from_u32_def DEFAULT_CONFIG_def
      config_to_u32_def SPIN_LIMIT_def DEFAULT_LIMIT_def)

text \<open>The call up to the failing compare-exchange, which is taken for the end of the sender.\<close>

lemma os_recv_mistaken:
  assumes "os_rpc s = RIdle True" "os_box s = Some b" "os_state b = 2"
  shows "os_run dbg (replicate 10 (RxTurn (CRecv th timed) e)) s =
    Done (s\<lparr>os_box := Some (b\<lparr>os_waker := Some (Blocking th)\<rparr>), os_rpc := RConsume 2\<rparr>)"
proof -
  let ?t = "RxTurn (CRecv th timed) e"
  have r: "replicate 10 ?t = [?t] @ replicate (Suc 6) ?t @ [?t, ?t]" by (simp add: numeral_eq_Suc)
  have a: "os_run dbg [?t] s = Done (s\<lparr>os_rpc := RSpin th timed backoff_new\<rparr>)"
    using assms by (simp add: os_rstep_defs os_with_def os_try_recv_def LOCK_FLAG_def)
  have c: "os_run dbg (replicate (Suc 6) ?t) (s\<lparr>os_rpc := RSpin th timed backoff_new\<rparr>) =
      Done (s\<lparr>os_rpc := RSet (WRecv th timed)\<rparr>)"
    using assms by (subst os_spin_rounds) (auto simp: backoff_new_config)
  have "os_run dbg (replicate 10 ?t) s = os_run dbg [?t, ?t] (s\<lparr>os_rpc := RSet (WRecv th timed)\<rparr>)"
    by (simp only: r os_run_append a c exec_bind.simps)
  then show ?thesis using assms by (simp add: os_rstep_defs os_with_def wait_waker_def cas_def)
qed

lemma os_sender_frees:
  assumes "unsent (os_tpc s)" "os_box s = Some b" "os_state b = 6" "os_value b = os_sent s"
    "tx_ok (os_sent s \<noteq> None) (os_tpc s) h st" "os_dropped s = []"
  shows "\<exists>s'. os_run dbg (replicate 5 (TxTurn (CSend x) False)) s = Done s' \<and> os_tpc s' = TDone \<and>
    os_dropped s' = (if os_tpc s = TIdle then [x] else opt_list (os_sent s)) \<and> os_results s' = os_results s"
proof -
  have five: "replicate 5 (TxTurn (CSend x) False) = [TxTurn (CSend x) False, TxTurn (CSend x) False,
      TxTurn (CSend x) False, TxTurn (CSend x) False, TxTurn (CSend x) False]"
    by (simp add: numeral_eq_Suc)
  show ?thesis
  proof (cases "os_tpc s")
    case TIdle
    then show ?thesis using assms
      by (simp add: five os_tstep_defs os_with_def os_free_def os_flags cas_weak_def)
  next
    case (TNotify e old)
    then have "old = 0 \<or> old = 2 \<or> old = 4 \<or> old = 6" using assms(5) by auto
    then show ?thesis using TNotify assms
      by (elim disjE; simp add: five os_tstep_defs os_with_def os_free_def os_flags cas_weak_def)
  qed (use assms(1) in auto)
qed

text \<open>
  C38. What the discipline of the reachable states rules out, and the public interface does not: a receiver
  that was polled and is pending is then asked to receive with \<^verbatim>\<open>recv\<close> or \<^verbatim>\<open>recv_timeout\<close>, in any reachable
  state. While the sender has not taken the lock of the state byte (\<open>unsent\<close>: it has sent nothing yet, or
  its notification is still on the way), the waker is set a second time, the compare-exchange from zero fails, and the
  failure is taken for the sender having finished. Undisturbed, the eleventh step of the receiver is then a
  failed assertion of \<^verbatim>\<open>_consume_value\<close> in a debug build; in a release build the twelfth reports a disconnection
  although the sender is alive, and the value that is on the way, or is sent afterwards, is dropped with the cell. Once the
  sender has taken the lock, the same call returns the value, or the disconnection if there is none, in three steps.
\<close>

theorem oneshot_recv_after_poll_loses:
  assumes "os_reach dbg s" "os_rpc s = RIdle True" "OPending \<in> set (os_results s)"
  shows "if unsent (os_tpc s)
    then (dbg \<longrightarrow> os_run dbg (replicate 11 (RxTurn (CRecv th timed) e)) s = Fault Panic) \<and>
      (\<not> dbg \<longrightarrow> (\<exists>s1 s2. os_run dbg (replicate 12 (RxTurn (CRecv th timed) e)) s = Done s1 \<and>
        os_results s1 = os_results s @ [ODisconnected] \<and> os_tpc s1 = os_tpc s \<and>
        os_run dbg (replicate 5 (TxTurn (CSend x) False)) s1 = Done s2 \<and> os_tpc s2 = TDone \<and>
        os_dropped s2 = (if os_tpc s = TIdle then [x] else opt_list (os_sent s)) \<and> os_got (os_results s2) = []))
    else \<exists>s1. os_run dbg (replicate 3 (RxTurn (CRecv th timed) e)) s = Done s1 \<and>
      os_results s1 = os_results s @ [case os_sent s of Some y \<Rightarrow> OGot y | None \<Rightarrow> ODisconnected]"
proof -
  let ?t = "RxTurn (CRecv th timed) e"
  have ok: "os_ok s" by (rule os_reach_ok [OF assms(1)])
  from ok assms(2,3) obtain b where b: "os_box s = Some b" "os_value b = os_sent s" "os_dropped s = []"
      "os_got (os_results s) = []" "unsent (os_tpc s) \<longrightarrow> os_state b = 2"
      "\<not> unsent (os_tpc s) \<longrightarrow> seen_ok (os_sent s \<noteq> None) (os_state b) (os_state b)"
    by (rule pending_state)
  show ?thesis
  proof (cases "unsent (os_tpc s)")
    case True
    have r: "replicate 11 ?t = replicate 10 ?t @ [?t]" "replicate 12 ?t = replicate 10 ?t @ [?t, ?t]"
      by (simp_all add: numeral_eq_Suc)
    let ?r = "s\<lparr>os_box := Some (b\<lparr>os_waker := Some (Blocking th)\<rparr>), os_rpc := RConsume 2\<rparr>"
    have run: "os_run dbg (replicate 10 ?t @ us) s = os_run dbg us ?r" for us
      by (simp only: os_run_append os_recv_mistaken [OF assms(2) b(1) b(5) [THEN mp, OF True]] exec_bind.simps)
    let ?s = "s\<lparr>os_box := Some (b\<lparr>os_state := 6, os_waker := Some (Blocking th)\<rparr>), os_rpc := RIdle False,
      os_results := os_results s @ [ODisconnected]\<rparr>"
    have "os_run dbg (replicate 12 ?t) s = Done ?s" if "\<not> dbg"
      unfolding r run using that b(5) True
      by (simp add: os_rstep_defs os_with_def os_assert_def os_flags cas_def os_return_def)
    moreover have "os_run dbg (replicate 11 ?t) s = Fault Panic" if dbg
      unfolding r run using that by (simp add: os_rstep_defs os_assert_def os_flags)
    moreover have "\<exists>s2. os_run dbg (replicate 5 (TxTurn (CSend x) False)) ?s = Done s2 \<and> os_tpc s2 = TDone \<and>
        os_dropped s2 = (if os_tpc s = TIdle then [x] else opt_list (os_sent s)) \<and> os_results s2 = os_results ?s"
      using os_sender_frees [of ?s "b\<lparr>os_state := 6, os_waker := Some (Blocking th)\<rparr>" "rx_holds s" "os_state b" dbg x]
        True ok b assms(2) by (cases "os_tpc s = TIdle") (simp_all add: os_ok_def rx_holds_def del: replicate_numeral)
    ultimately show ?thesis using True b(4) by fastforce
  next
    case False
    then show ?thesis using assms(2) b(1,2) b(6) [THEN mp, OF False]
      by (cases "os_sent s") (auto simp: numeral_3_eq_3 os_rstep_defs os_with_def os_assert_def os_flags cas_def
          os_return_def os_free_def os_try_recv_def)
  qed
qed

theorem oneshot_recv_after_poll_loses_witness:
  "\<exists>s s1 s2. os_run False (replicate 3 (RxTurn (CPoll 7) False)) os_start = Done s \<and>
     os_run False (replicate 12 (RxTurn (CRecv 1 True) False)) s = Done s1 \<and>
     os_results s1 = [OPending, ODisconnected] \<and> os_tpc s1 = TIdle \<and>
     os_run False (replicate 5 (TxTurn (CSend (5 :: nat)) False)) s1 = Done s2 \<and> os_dropped s2 = [5]"
proof -
  obtain s where s: "os_run False (replicate 3 (RxTurn (CPoll 7) False)) (os_start :: nat os_sys) = Done s"
      "os_rpc s = RIdle True" "os_results s = [OPending]" "os_tpc s = TIdle"
    by (simp add: numeral_3_eq_3 os_start_def os_new_def os_rstep_defs os_try_recv_def os_return_def wait_waker_def
        os_with_def os_flags cas_def)
  have "os_reach False s" by (rule os_run_reach [OF s(1)]) (auto intro: os_reach.start)
  with s show ?thesis
    using oneshot_recv_after_poll_loses [of False s 1 True False 5] by fastforce
qed

end
