(* ===== verification/Seg_Queue.thy ===== *)
theory Seg_Queue
  imports Fifo_Spec
begin

unbundle bit_operations_syntax

text \<open>
  The unbounded multi-producer multi-consumer queue, \<^verbatim>\<open>src/src/crossbeam/seg_queue.rs\<close>: a linked list of
  blocks of 31 slots. Blocks live on a heap and are named by address; an access through a null or a dangling
  pointer, and a second release of a block, is the fault \<open>UseAfterFree\<close>. The allocator has room for \<open>sg_mem\<close>
  more blocks; when it has none left, \<^verbatim>\<open>handle_alloc_error\<close> does not return, and the call is \<open>Spin\<close>.

  As in the other queues every operation is one call without interference, a loop around a weak
  compare-exchange takes fuel and a script of spurious failures, and the indices are 64-bit words that wrap.
  The waits for another thread (\<^verbatim>\<open>wait_write\<close>, \<^verbatim>\<open>wait_next\<close>) are \<open>Spin\<close> when there is something to wait for.
\<close>

section \<open>The queue\<close>

abbreviation (input) WRITE :: usize where "WRITE \<equiv> 1"
abbreviation (input) READ :: usize where "READ \<equiv> 2"
abbreviation (input) DESTROY :: usize where "DESTROY \<equiv> 4"
abbreviation (input) LAP :: nat where "LAP \<equiv> 32"
abbreviation (input) BLOCK_CAP :: nat where "BLOCK_CAP \<equiv> 31"
abbreviation (input) HAS_NEXT :: usize where "HAS_NEXT \<equiv> 1"

record 'a sg_slot =
  sg_value :: "'a option"
  sg_state :: usize

record 'a sg_block =
  sg_next :: "nat option"
  sg_slots :: "'a sg_slot list"

record 'a seg_queue =
  sg_head_index :: usize
  sg_head_block :: "nat option"
  sg_tail_index :: usize
  sg_tail_block :: "nat option"
  sg_heap :: "nat \<Rightarrow> 'a sg_block option"
  sg_fresh :: nat
  sg_mem :: nat

definition sg_new :: "nat \<Rightarrow> 'a seg_queue" where
  "sg_new mem = \<lparr>sg_head_index = 0, sg_head_block = None, sg_tail_index = 0, sg_tail_block = None,
     sg_heap = (\<lambda>_. None), sg_fresh = 0, sg_mem = mem\<rparr>"

subsection \<open>Blocks\<close>

text \<open>\<^verbatim>\<open>Block::new\<close>: a zeroed block, its slots empty and its next pointer null.\<close>

definition sg_block_zero :: "'a sg_block" where
  "sg_block_zero = \<lparr>sg_next = None, sg_slots = replicate BLOCK_CAP \<lparr>sg_value = None, sg_state = 0\<rparr>\<rparr>"

definition sg_block_new :: "'a seg_queue \<Rightarrow> ('a seg_queue \<times> nat) exec" where
  "sg_block_new q =
     (if sg_mem q = 0 then Spin
      else Done (q\<lparr>sg_heap := (sg_heap q)(sg_fresh q := Some sg_block_zero), sg_fresh := sg_fresh q + 1, sg_mem := sg_mem q - 1\<rparr>,
        sg_fresh q))"

definition sg_deref :: "'a seg_queue \<Rightarrow> nat option \<Rightarrow> (nat \<times> 'a sg_block) exec" where
  "sg_deref q p =
     (case p of
        None \<Rightarrow> Fault UseAfterFree
      | Some a \<Rightarrow> (case sg_heap q a of None \<Rightarrow> Fault UseAfterFree | Some b \<Rightarrow> Done (a, b)))"

definition sg_slot_at :: "'a sg_block \<Rightarrow> nat \<Rightarrow> 'a sg_slot exec" where
  "sg_slot_at b i = (if i < length (sg_slots b) then Done (sg_slots b ! i) else Fault OutOfBounds)"

definition sg_set_block :: "'a seg_queue \<Rightarrow> nat \<Rightarrow> 'a sg_block \<Rightarrow> 'a seg_queue" where
  "sg_set_block q a b = q\<lparr>sg_heap := (sg_heap q)(a := Some b)\<rparr>"

definition sg_set_slot :: "'a sg_block \<Rightarrow> nat \<Rightarrow> 'a sg_slot \<Rightarrow> 'a sg_block" where
  "sg_set_slot b i s = b\<lparr>sg_slots := (sg_slots b)[i := s]\<rparr>"

text \<open>\<^verbatim>\<open>drop(Box::from_raw(p))\<close>.\<close>

definition sg_free :: "'a seg_queue \<Rightarrow> nat option \<Rightarrow> 'a seg_queue exec" where
  "sg_free q p = exec_map (\<lambda>(a, _). q\<lparr>sg_heap := (sg_heap q)(a := None), sg_mem := sg_mem q + 1\<rparr>) (sg_deref q p)"

text \<open>The local variable \<^verbatim>\<open>next_block\<close> owns its block and releases it when it goes out of scope.\<close>

definition sg_drop_box :: "'a seg_queue \<Rightarrow> nat option \<Rightarrow> 'a seg_queue exec" where
  "sg_drop_box q next_block = (if next_block = None then Done q else sg_free q next_block)"

text \<open>\<^verbatim>\<open>Slot::wait_write\<close> and \<^verbatim>\<open>Block::wait_next\<close>.\<close>

definition sg_wait_write :: "'a sg_slot \<Rightarrow> unit exec" where
  "sg_wait_write s = (if sg_state s AND WRITE = 0 then Spin else Done ())"

definition sg_wait_next :: "'a sg_block \<Rightarrow> nat exec" where
  "sg_wait_next b = (case sg_next b of None \<Rightarrow> Spin | Some n \<Rightarrow> Done n)"

text \<open>
  The loop of \<^verbatim>\<open>Block::destroy\<close> over the slots still to be checked; it ends early at a slot in use, which it marks.
\<close>

fun sg_destroy_loop :: "'a seg_queue \<Rightarrow> nat \<Rightarrow> nat list \<Rightarrow> 'a seg_queue exec" where
  "sg_destroy_loop q a [] = sg_free q (Some a)"
| "sg_destroy_loop q a (i # is) =
     exec_bind (sg_deref q (Some a)) (\<lambda>(_, b).
       exec_bind (sg_slot_at b i) (\<lambda>s.
         if sg_state s AND READ = 0
         then Done (sg_set_block q a (sg_set_slot b i (s\<lparr>sg_state := sg_state s OR DESTROY\<rparr>)))
         else sg_destroy_loop q a is))"

definition sg_destroy :: "'a seg_queue \<Rightarrow> nat \<Rightarrow> nat \<Rightarrow> 'a seg_queue exec" where
  "sg_destroy q a start = sg_destroy_loop q a [start ..< BLOCK_CAP - 1]"

subsection \<open>Pushing\<close>

definition sg_offset :: "usize \<Rightarrow> nat" where
  "sg_offset index = unat (drop_bit 1 index) mod LAP"

text \<open>The block the last slot of a block will need is allocated in advance.\<close>

definition sg_reserve :: "'a seg_queue \<Rightarrow> nat \<Rightarrow> nat option \<Rightarrow> ('a seg_queue \<times> nat option) exec" where
  "sg_reserve q offset next_block =
     (if offset + 1 = BLOCK_CAP \<and> next_block = None then exec_map (\<lambda>(q', a). (q', Some a)) (sg_block_new q)
      else Done (q, next_block))"

text \<open>
  The first push installs the first block: \<open>Inr\<close> the block to push to, or \<open>Inl\<close> the box that is left when
  another thread installed one.
\<close>

definition sg_first_block :: "'a seg_queue \<Rightarrow> nat option \<Rightarrow> nat option \<Rightarrow> ('a seg_queue \<times> (nat option + nat)) exec" where
  "sg_first_block q block next_block =
     (case block of
        Some b \<Rightarrow> Done (q, Inr b)
      | None \<Rightarrow> exec_bind (sg_block_new q) (\<lambda>(q1, new).
          case cas None (Some new) (sg_tail_block q1) of
            (t, Inr _) \<Rightarrow> Done (q1\<lparr>sg_tail_block := t, sg_head_block := Some new\<rparr>, Inr new)
          | (_, Inl _) \<Rightarrow> exec_map (\<lambda>q2. (q2, Inl (Some new))) (sg_drop_box q1 next_block)))"

text \<open>After the tail was advanced: install the next block, write the slot.\<close>

definition sg_push_commit :: "'a seg_queue \<Rightarrow> nat \<Rightarrow> nat \<Rightarrow> usize \<Rightarrow> nat option \<Rightarrow> 'a \<Rightarrow> 'a seg_queue exec" where
  "sg_push_commit q block offset new_tail next_block value =
     exec_bind
       (if offset + 1 = BLOCK_CAP
        then case next_block of
            None \<Rightarrow> Fault Panic
          | Some n \<Rightarrow> exec_map (\<lambda>(a, b).
              (sg_set_block (q\<lparr>sg_tail_block := Some n, sg_tail_index := new_tail + 2\<rparr>) a (b\<lparr>sg_next := Some n\<rparr>), None))
              (sg_deref q (Some block))
        else Done (q, next_block))
       (\<lambda>(q1, box).
         exec_bind (sg_deref q1 (Some block)) (\<lambda>(a, b).
           exec_bind (sg_slot_at b offset) (\<lambda>s.
             sg_drop_box (sg_set_block q1 a (sg_set_slot b offset \<lparr>sg_value = Some value, sg_state = sg_state s OR WRITE\<rparr>)) box)))"

fun sg_push_loop :: "nat \<Rightarrow> bool list \<Rightarrow> 'a seg_queue \<Rightarrow> usize \<Rightarrow> nat option \<Rightarrow> nat option \<Rightarrow> 'a \<Rightarrow> 'a seg_queue exec" where
  "sg_push_loop 0 script q tail block next_block value = Spin"
| "sg_push_loop (Suc fuel) script q tail block next_block value =
     (let offset = sg_offset tail
      in if offset = BLOCK_CAP
         then sg_push_loop fuel script q (sg_tail_index q) (sg_tail_block q) next_block value
         else exec_bind (sg_reserve q offset next_block) (\<lambda>(q1, box).
           exec_bind (sg_first_block q1 block box) (\<lambda>(q2, r).
             case r of
               Inl box' \<Rightarrow> sg_push_loop fuel script q2 (sg_tail_index q2) (sg_tail_block q2) box' value
             | Inr blk \<Rightarrow> exec_bind (checked_add tail 2) (\<lambda>new_tail.
                 let (sp, script') = next_spurious script
                 in case cas_weak sp tail new_tail (sg_tail_index q2) of
                      (t, Inr _) \<Rightarrow> sg_push_commit (q2\<lparr>sg_tail_index := t\<rparr>) blk offset new_tail box value
                    | (_, Inl t) \<Rightarrow> sg_push_loop fuel script' q2 t (sg_tail_block q2) box value))))"

definition sg_push :: "nat \<Rightarrow> bool list \<Rightarrow> 'a seg_queue \<Rightarrow> 'a \<Rightarrow> 'a seg_queue exec" where
  "sg_push fuel script q value = sg_push_loop fuel script q (sg_tail_index q) (sg_tail_block q) None value"

subsection \<open>Popping\<close>

text \<open>After the head was advanced past the last slot of a block: move to the next block.\<close>

definition sg_next_head :: "'a seg_queue \<Rightarrow> nat \<Rightarrow> usize \<Rightarrow> 'a seg_queue exec" where
  "sg_next_head q block new_head =
     exec_bind (sg_deref q (Some block)) (\<lambda>(_, b).
       exec_bind (sg_wait_next b) (\<lambda>n.
         exec_map (\<lambda>(_, nb).
           let next_index = (new_head AND NOT HAS_NEXT) + 2
           in q\<lparr>sg_head_block := Some n,
                sg_head_index := (if sg_next nb \<noteq> None then next_index OR HAS_NEXT else next_index)\<rparr>)
           (sg_deref q (Some n))))"

text \<open>The new head index, or \<open>None\<close> when the queue is seen empty.\<close>

definition sg_advance_head :: "'a seg_queue \<Rightarrow> usize \<Rightarrow> usize option exec" where
  "sg_advance_head q head =
     exec_map (\<lambda>new_head.
       if new_head AND HAS_NEXT = 0
       then let tail = sg_tail_index q
         in if drop_bit 1 head = drop_bit 1 tail then None
            else if unat (drop_bit 1 head) div LAP \<noteq> unat (drop_bit 1 tail) div LAP then Some (new_head OR HAS_NEXT)
            else Some new_head
       else Some new_head) (checked_add head 2)"

fun sg_pop_loop :: "nat \<Rightarrow> bool list \<Rightarrow> 'a seg_queue \<Rightarrow> usize \<Rightarrow> nat option \<Rightarrow> ('a seg_queue \<times> (nat \<times> nat) option) exec" where
  "sg_pop_loop 0 script q head block = Spin"
| "sg_pop_loop (Suc fuel) script q head block =
     (let offset = sg_offset head
      in if offset = BLOCK_CAP then sg_pop_loop fuel script q (sg_head_index q) (sg_head_block q)
         else exec_bind (sg_advance_head q head) (\<lambda>r.
           case r of
             None \<Rightarrow> Done (q, None)
           | Some new_head \<Rightarrow>
               (case block of
                  None \<Rightarrow> sg_pop_loop fuel script q (sg_head_index q) (sg_head_block q)
                | Some blk \<Rightarrow>
                    let (sp, script') = next_spurious script
                    in case cas_weak sp head new_head (sg_head_index q) of
                         (h, Inr _) \<Rightarrow>
                           exec_map (\<lambda>q'. (q', Some (blk, offset)))
                             (if offset + 1 = BLOCK_CAP then sg_next_head (q\<lparr>sg_head_index := h\<rparr>) blk new_head
                              else Done (q\<lparr>sg_head_index := h\<rparr>))
                       | (_, Inl h) \<Rightarrow> sg_pop_loop fuel script' q h (sg_head_block q))))"

text \<open>\<^verbatim>\<open>_pop::<FINAL>\<close>: claims the slot at the head.\<close>

definition sg_pop_slot :: "bool \<Rightarrow> nat \<Rightarrow> bool list \<Rightarrow> 'a seg_queue \<Rightarrow> ('a seg_queue \<times> (nat \<times> nat) option) exec" where
  "sg_pop_slot final fuel script q =
     (if final \<and> drop_bit 1 (sg_head_index q) = drop_bit 1 (sg_tail_index q) then Done (q, None)
      else sg_pop_loop fuel script q (sg_head_index q) (sg_head_block q))"

text \<open>\<^verbatim>\<open>_read\<close>: moves the value out of a claimed slot and releases the block when it is done with.\<close>

definition sg_take :: "'a seg_queue \<Rightarrow> nat \<Rightarrow> nat \<Rightarrow> ('a seg_queue \<times> 'a) exec" where
  "sg_take q block offset =
     exec_bind (sg_deref q (Some block)) (\<lambda>(a, b).
       exec_bind (sg_slot_at b offset) (\<lambda>s.
         exec_bind (sg_wait_write s) (\<lambda>_.
           case sg_value s of
             None \<Rightarrow> Fault Uninit
           | Some value \<Rightarrow>
               exec_map (\<lambda>q'. (q', value))
                 (if offset + 1 = BLOCK_CAP
                  then sg_destroy (sg_set_block q a (sg_set_slot b offset (s\<lparr>sg_value := None\<rparr>))) a 0
                  else let q1 = sg_set_block q a (sg_set_slot b offset \<lparr>sg_value = None, sg_state = sg_state s OR READ\<rparr>)
                    in if sg_state s AND DESTROY \<noteq> 0 then sg_destroy q1 a (offset + 1) else Done q1))))"

definition sg_start_read :: "nat \<Rightarrow> bool list \<Rightarrow> 'a seg_queue \<Rightarrow> ('a seg_queue \<times> token option) exec" where
  "sg_start_read fuel script q =
     exec_map (\<lambda>(q', r). (q', map_option (\<lambda>(block, offset). token_new block (of_nat offset)) r))
       (sg_pop_slot False fuel script q)"

definition sg_pop :: "bool \<Rightarrow> nat \<Rightarrow> bool list \<Rightarrow> 'a seg_queue \<Rightarrow> ('a seg_queue \<times> 'a option) exec" where
  "sg_pop final fuel script q =
     exec_bind (sg_pop_slot final fuel script q) (\<lambda>(q', r).
       case r of
         Some (block, offset) \<Rightarrow> exec_map (map_prod id Some) (sg_take q' block offset)
       | None \<Rightarrow> Done (q', None))"

definition sg_read :: "'a seg_queue \<Rightarrow> token \<Rightarrow> ('a seg_queue \<times> 'a) exec" where
  "sg_read q tok =
     (case tok_pos tok of None \<Rightarrow> Fault UseAfterFree | Some block \<Rightarrow> sg_take q block (unat (tok_stamp tok)))"

subsection \<open>Observers\<close>

definition sg_is_empty :: "'a seg_queue \<Rightarrow> bool" where
  "sg_is_empty q \<longleftrightarrow> drop_bit 1 (sg_head_index q) = drop_bit 1 (sg_tail_index q)"

text \<open>Erase the lower bit and step over the end of a block.\<close>

definition sg_fix_index :: "usize \<Rightarrow> usize" where
  "sg_fix_index index =
     (let i = index AND NOT 1
      in if drop_bit 1 i AND 31 = 31 then i + 2 else i)"

text \<open>
  One round of the loop of \<^verbatim>\<open>len\<close>, over the three loads it makes: \<open>None\<close> says the tail moved and the loop goes
  round again.
\<close>

definition sg_len_round :: "'a seg_queue \<Rightarrow> 'a seg_queue \<Rightarrow> 'a seg_queue \<Rightarrow> usize exec option" where
  "sg_len_round q0 q1 q2 =
     (let tail = sg_tail_index q0; head = sg_head_index q1
      in if sg_tail_index q2 = tail
         then Some
           (let tail = sg_fix_index tail; head = sg_fix_index head;
                lap = drop_bit 1 head div 32;
                tail = drop_bit 1 (tail - push_bit 1 (lap * 32));
                head = drop_bit 1 (head - push_bit 1 (lap * 32))
            in exec_bind (checked_sub tail head) (\<lambda>d. checked_sub d (tail div 32)))
         else None)"

text \<open>An undisturbed round always gives a length (\<open>repr_len_round\<close> in \<open>Seg_Refine\<close>); the other cases of \<open>sg_len\<close> do not occur.\<close>

definition sg_len :: "'a seg_queue \<Rightarrow> nat" where
  "sg_len q = (case sg_len_round q q q of Some (Done n) \<Rightarrow> unat n | _ \<Rightarrow> 0)"

subsection \<open>Drop and iteration\<close>

text \<open>
  The loop of \<^verbatim>\<open>Drop\<close> collects the values whose destructor runs, in order.
\<close>

fun sg_drop_loop :: "nat \<Rightarrow> 'a seg_queue \<Rightarrow> usize \<Rightarrow> usize \<Rightarrow> nat option \<Rightarrow> ('a seg_queue \<times> 'a list) exec" where
  "sg_drop_loop 0 q head tail block = Spin"
| "sg_drop_loop (Suc fuel) q head tail block =
     (if head = tail then exec_map (\<lambda>q'. (q', [])) (sg_drop_box q block)
      else let offset = sg_offset head
        in exec_bind (sg_deref q block) (\<lambda>(a, b).
          if offset < BLOCK_CAP
          then exec_bind (sg_slot_at b offset) (\<lambda>s.
            case sg_value s of
              None \<Rightarrow> Fault Uninit
            | Some v \<Rightarrow> exec_map (map_prod id ((#) v)) (sg_drop_loop fuel q (head + 2) tail block))
          else exec_bind (sg_free q (Some a)) (\<lambda>q1. sg_drop_loop fuel q1 (head + 2) tail (sg_next b))))"

definition sg_drop :: "nat \<Rightarrow> 'a seg_queue \<Rightarrow> ('a seg_queue \<times> 'a list) exec" where
  "sg_drop fuel q = sg_drop_loop fuel q (sg_head_index q AND NOT 1) (sg_tail_index q AND NOT 1) (sg_head_block q)"

text \<open>\<^verbatim>\<open>IntoIter::next\<close>.\<close>

definition sg_into_iter_next :: "'a seg_queue \<Rightarrow> ('a seg_queue \<times> 'a option) exec" where
  "sg_into_iter_next q =
     (let head = sg_head_index q; tail = sg_tail_index q
      in if drop_bit 1 head = drop_bit 1 tail then Done (q, None)
         else let offset = sg_offset head
           in exec_bind (sg_deref q (sg_head_block q)) (\<lambda>(a, b).
             exec_bind (sg_slot_at b offset) (\<lambda>s.
               case sg_value s of
                 None \<Rightarrow> Fault Uninit
               | Some item \<Rightarrow>
                   if offset + 1 = BLOCK_CAP
                   then exec_bind (sg_free q (Some a)) (\<lambda>q1.
                     let q2 = q1\<lparr>sg_head_block := sg_next b, sg_head_index := head + 4\<rparr>
                     in if sg_offset (sg_head_index q2) = 0 then Done (q2, Some item) else Fault Panic)
                   else Done ((sg_set_block q a (sg_set_slot b offset (s\<lparr>sg_value := None\<rparr>)))\<lparr>sg_head_index := head + 2\<rparr>,
                     Some item))))"

end
