(* ===== verification/Seg_Refine.thy ===== *)
theory Seg_Refine
  imports Seg_Queue
begin

unbundle bit_operations_syntax

text \<open>
  The unbounded queue refines a first-in first-out list. Elements are numbered from the first push on; element
  \<open>e\<close> sits in slot \<open>e mod 31\<close> of block number \<open>e div 31\<close>, and \<open>sg_pos e\<close> is its position among the indices, which
  skip every thirty-second value. \<open>sg_repr\<close> pins the whole heap: the chain of blocks, every slot, every pointer.
  The indices wrap at \<open>2 ^ 64\<close>; a block takes at least 256 bytes of an address space of \<open>2 ^ 64\<close>, so that no more
  than \<open>2 ^ 56\<close> blocks can be allocated at once and head and tail never come a full turn apart.
\<close>

section \<open>Positions and indices\<close>

definition sg_pos :: "nat \<Rightarrow> nat" where
  "sg_pos e = 32 * (e div 31) + e mod 31"

definition sg_index :: "nat \<Rightarrow> bool \<Rightarrow> usize" where
  "sg_index p f = of_nat (2 * p + of_bool f)"

lemma mod_eq_close:
  assumes "p \<le> p'" "p' < p + m"
  shows "p mod m = p' mod m \<longleftrightarrow> p = (p' :: nat)"
proof
  assume "p mod m = p' mod m"
  then have "m dvd p' - p" using assms(1) by (metis mod_eq_dvd_iff_nat)
  with assms show "p = p'" by (cases "p' - p = 0") (auto dest: dvd_imp_le)
qed simp

lemma and_not_1_minus: "(w :: usize) AND NOT 1 = w - (w AND 1)"
proof -
  have "(w AND NOT 1) + (w AND 1) = (w AND NOT 1) OR (w AND 1)"
    by (rule disjunctive_add_eq_or) (rule bit_word_eqI, auto simp: bit_simps)
  also have "\<dots> = w" by (simp flip: and.assoc bit.conj_disj_distrib)
  finally show ?thesis by (simp add: algebra_simps)
qed

lemma nat_half_mod: "(2 * p + of_bool f) mod 2 ^ 64 = 2 * (p mod 2 ^ 63) + (of_bool f :: nat)"
proof -
  have "(2 * p + of_bool f) mod (2 * 2 ^ 63) = 2 * (((2 * p + of_bool f) div 2) mod 2 ^ 63) + ((2 * p + of_bool f) mod 2 :: nat)"
    by (rule mod_mult2_eq [THEN trans]) simp
  then show ?thesis by (cases f) simp_all
qed

lemma index_unat: "unat (sg_index p f) = 2 * (p mod 2 ^ 63) + of_bool f"
  unfolding sg_index_def unat_of_nat using nat_half_mod [of p f] by simp

lemma index_half: "unat (drop_bit 1 (sg_index p f)) = p mod 2 ^ 63"
  unfolding unat_drop_bit_eq index_unat by (cases f) (simp_all add: drop_bit_eq_div)

lemma even_index: "even (sg_index p f) \<longleftrightarrow> \<not> f"
proof -
  have "even (sg_index p f) \<longleftrightarrow> even (unat (sg_index p f))"
    using bit_unsigned_iff [where 'a = nat, of "sg_index p f" 0] by (simp add: bit_0)
  also have "\<dots> \<longleftrightarrow> \<not> f" by (simp add: index_unat)
  finally show ?thesis .
qed

lemma index_flag: "sg_index p f AND 1 = 0 \<longleftrightarrow> \<not> f"
  by (simp add: and_one_eq even_iff_mod_2_eq_zero [symmetric] even_index)

lemma index_clear: "sg_index p f AND NOT 1 = sg_index p False"
proof -
  have "sg_index p f AND NOT 1 = sg_index p f - (sg_index p f AND 1)"
    by (rule and_not_1_minus)
  then show ?thesis
    using even_index [of p f]
    by (cases f) (simp_all add: and_one_eq mod_2_eq_odd, simp add: sg_index_def)
qed

lemmas index_clear_simp = index_clear [simplified]

lemma index_set: "sg_index p f OR 1 = sg_index p True"
  using even_index [of p f] by (cases f) (simp_all add: or_one_eq, simp_all add: sg_index_def)

lemma index_next: "sg_index p f + 2 = sg_index (p + 1) f"
  by (simp add: sg_index_def algebra_simps)

lemma pos_mod: "sg_pos e mod 32 = e mod 31" and pos_div: "sg_pos e div 32 = e div 31"
  by (simp_all add: sg_pos_def)

lemma index_offset: "sg_offset (sg_index p f) = p mod 32"
proof -
  have "(p mod 2 ^ 63) mod 32 = p mod 32" by (rule mod_mod_cancel) simp
  then show ?thesis unfolding sg_offset_def index_half .
qed

lemma index_add: 
  assumes "p mod 32 < 31"
  shows "checked_add (sg_index p f) 2 = Done (sg_index (p + 1) f)"
proof -
  have pow: "(2 :: nat) ^ 63 = 32 * 2 ^ 58" by simp
  have "(p mod 2 ^ 63) mod 32 = p mod 32" by (rule mod_mod_cancel) simp
  moreover have "p mod 2 ^ 63 div 32 < 2 ^ 58" by (simp add: less_mult_imp_div_less)
  ultimately have "p mod 2 ^ 63 + 1 < 2 ^ 63"
    using assms div_mult_mod_eq [of "p mod 2 ^ 63" 32] pow by linarith
  then have "unat (sg_index p f) + unat (2 :: usize) < 2 ^ 64" by (cases f) (simp_all add: index_unat)
  then show ?thesis unfolding checked_add_def by (simp add: index_next)
qed

lemma index_eq:
  assumes "p \<le> p'" "p' < p + 2 ^ 63"
  shows "drop_bit 1 (sg_index p f) = drop_bit 1 (sg_index p' f') \<longleftrightarrow> p = p'"
proof -
  have "drop_bit 1 (sg_index p f) = drop_bit 1 (sg_index p' f') \<longleftrightarrow> p mod 2 ^ 63 = p' mod 2 ^ 63"
    unfolding word_unat_eq_iff index_half ..
  also have "\<dots> \<longleftrightarrow> p = p'" using assms by (rule mod_eq_close)
  finally show ?thesis .
qed

lemma index_lap:
  assumes "p \<le> p'" "p' < p + 2 ^ 62"
  shows "unat (drop_bit 1 (sg_index p f)) div 32 = unat (drop_bit 1 (sg_index p' f')) div 32 \<longleftrightarrow> p div 32 = p' div 32"
proof -
  have pow: "(2 :: nat) ^ 62 = 16 * 2 ^ 58" "2 \<le> (2 :: nat) ^ 58" by simp_all
  have half: "(x mod 2 ^ 63) div 32 = (x div 32) mod 2 ^ 58" for x :: nat
    using mod_mult2_eq [of x 32 "2 ^ 58"] by simp
  have d: "p div 32 \<le> p' div 32" using assms(1) by (rule div_le_mono)
  have m: "p mod 32 < 32" by simp
  have "p' div 32 < p div 32 + 2 ^ 58"
    using assms(2) div_mult_mod_eq [of p 32] div_mult_mod_eq [of p' 32] m pow by linarith
  with d have "(p div 32) mod 2 ^ 58 = (p' div 32) mod 2 ^ 58 \<longleftrightarrow> p div 32 = p' div 32" by (rule mod_eq_close)
  then show ?thesis unfolding index_half half .
qed
lemma pos_mono: "e \<le> e' \<Longrightarrow> sg_pos e \<le> sg_pos e'"
proof -
  have "sg_pos n = n + n div 31" for n using div_mult_mod_eq [of n 31] by (simp add: sg_pos_def)
  then show "e \<le> e' \<Longrightarrow> sg_pos e \<le> sg_pos e'" by (simp add: add_mono div_le_mono)
qed

lemma pos_Suc: "sg_pos (Suc e) = sg_pos e + (if e mod 31 = 30 then 2 else 1)"
  by (simp add: sg_pos_def div_Suc mod_Suc)

lemma offset_index [simp]: "sg_offset (sg_index (sg_pos e) f) = e mod 31"
  by (simp add: index_offset pos_mod)

lemma offset_not_cap [simp]: "e mod 31 \<noteq> (31 :: nat)"
  using mod_less_divisor [of 31 e] by linarith

declare replicate_numeral [simp del]

section \<open>The abstraction to a list\<close>

text \<open>
  Slot \<open>e\<close> when the elements \<open>xs\<close> from number \<open>E\<close> on are in the queue; \<open>c\<close> says how read slots look.
\<close>

definition sg_cell :: "(nat \<Rightarrow> 'a sg_slot) \<Rightarrow> nat \<Rightarrow> 'a list \<Rightarrow> nat \<Rightarrow> 'a sg_slot" where
  "sg_cell c E xs e =
     (if e < E then c e
      else if e < E + length xs then \<lparr>sg_value = Some (xs ! (e - E)), sg_state = 1\<rparr>
      else \<lparr>sg_value = None, sg_state = 0\<rparr>)"

definition sg_link :: "nat list \<Rightarrow> nat \<Rightarrow> nat option" where
  "sg_link bs j = (if Suc j < length bs then Some (bs ! Suc j) else None)"

definition sg_row :: "(nat \<Rightarrow> 'a sg_slot) \<Rightarrow> nat \<Rightarrow> 'a sg_slot list" where
  "sg_row g k = map g [31 * k ..< 31 * k + 31]"

definition sg_blk :: "(nat \<Rightarrow> 'a sg_slot) \<Rightarrow> nat \<Rightarrow> nat list \<Rightarrow> nat \<Rightarrow> 'a sg_block" where
  "sg_blk g L bs j = \<lparr>sg_next = sg_link bs j, sg_slots = sg_row g (L + j)\<rparr>"

definition sg_chain :: "(nat \<Rightarrow> 'a sg_slot) \<Rightarrow> nat \<Rightarrow> nat list \<Rightarrow> (nat \<Rightarrow> 'a sg_block option) \<Rightarrow> bool" where
  "sg_chain g L bs heap \<longleftrightarrow> distinct bs \<and> (\<forall>j < length bs. heap (bs ! j) = Some (sg_blk g L bs j))"

definition sg_ends :: "'a seg_queue \<Rightarrow> nat \<Rightarrow> nat \<Rightarrow> nat list \<Rightarrow> bool" where
  "sg_ends q E T bs \<longleftrightarrow>
     (if bs = [] then E = 0 \<and> T = 0 \<and> sg_head_block q = None \<and> sg_tail_block q = None
      else length bs = T div 31 - E div 31 + 1 \<and> sg_head_block q = Some (bs ! 0) \<and>
        sg_tail_block q = Some (bs ! (length bs - 1)))"

definition sg_limit :: nat where
  "sg_limit = 2 ^ 56"

definition sg_heap_ok :: "nat \<Rightarrow> 'a seg_queue \<Rightarrow> nat list \<Rightarrow> nat option \<Rightarrow> bool" where
  "sg_heap_ok M q bs box \<longleftrightarrow>
     dom (sg_heap q) = set bs \<union> set_option box \<and> (\<forall>a \<in> set bs \<union> set_option box. a < sg_fresh q) \<and>
     set bs \<inter> set_option box = {} \<and> (\<forall>a. box = Some a \<longrightarrow> sg_heap q a = Some sg_block_zero) \<and>
     length bs + (if box = None then 0 else 1) + sg_mem q = M \<and> M \<le> sg_limit"

definition sg_repr :: "nat \<Rightarrow> (nat \<Rightarrow> 'a sg_slot) \<Rightarrow> 'a seg_queue \<Rightarrow> nat \<Rightarrow> bool \<Rightarrow> nat list \<Rightarrow> nat option \<Rightarrow> 'a list \<Rightarrow> bool" where
  "sg_repr M c q E f bs box xs \<longleftrightarrow>
     sg_head_index q = sg_index (sg_pos E) f \<and> sg_tail_index q = sg_index (sg_pos (E + length xs)) False \<and>
     (f \<longrightarrow> 1 < length bs) \<and> sg_ends q E (E + length xs) bs \<and>
     sg_chain (sg_cell c E xs) (E div 31) bs (sg_heap q) \<and> sg_heap_ok M q bs box"

definition sg_used :: "nat \<Rightarrow> 'a sg_slot" where
  "sg_used e = \<lparr>sg_value = None, sg_state = 3\<rparr>"

definition sg_inv :: "'a seg_queue \<Rightarrow> bool" where
  "sg_inv q \<longleftrightarrow> (\<exists>M E f bs xs. sg_repr M sg_used q E f bs None xs)"

lemma repr_new: "mem \<le> sg_limit \<Longrightarrow> sg_repr mem sg_used (sg_new mem) 0 False [] None []"
  by (simp add: sg_repr_def sg_new_def sg_ends_def sg_chain_def sg_heap_ok_def sg_pos_def sg_index_def dom_def)

subsection \<open>Updating slots\<close>

lemma cell_push: "sg_cell c E (xs @ [v]) = (sg_cell c E xs)(E + length xs := \<lparr>sg_value = Some v, sg_state = 1\<rparr>)"
  by (rule ext) (auto simp: sg_cell_def nth_append)

lemma cell_pop: "sg_cell c (Suc E) xs = (sg_cell c E (x # xs))(E := c E)"
  by (rule ext) (auto simp: sg_cell_def nth_Cons' less_Suc_eq)

lemma row_length [simp]: "length (sg_row g k) = 31"
  by (simp add: sg_row_def)

lemma row_nth [simp]: "i < 31 \<Longrightarrow> sg_row g k ! i = g (31 * k + i)"
  by (simp add: sg_row_def)

lemma row_upd:
  "sg_row (g(e := s)) k = (if e div 31 = k then (sg_row g k)[e mod 31 := s] else sg_row g k)"
proof (rule nth_equalityI)
  fix i assume i: "i < length (sg_row (g(e := s)) k)"
  then have "31 * k + i = e \<longleftrightarrow> e div 31 = k \<and> e mod 31 = i" by auto
  with i show "sg_row (g(e := s)) k ! i = (if e div 31 = k then (sg_row g k)[e mod 31 := s] else sg_row g k) ! i"
    by (auto simp: nth_list_update)
qed simp

lemma row_zero:
  assumes "\<And>e. 31 * k \<le> e \<Longrightarrow> g e = \<lparr>sg_value = None, sg_state = 0\<rparr>"
  shows "sg_row g k = replicate 31 \<lparr>sg_value = None, sg_state = 0\<rparr>"
  using assms by (intro nth_equalityI) simp_all

lemma chain_slot:
  assumes "sg_chain g L bs heap" "L \<le> e div 31" "e div 31 - L < length bs"
  shows "heap (bs ! (e div 31 - L)) = Some (sg_blk g L bs (e div 31 - L))"
    "sg_slot_at (sg_blk g L bs (e div 31 - L)) (e mod 31) = Done (g e)"
  using assms by (simp_all add: sg_chain_def sg_slot_at_def sg_blk_def)

lemma chain_upd:
  assumes "sg_chain g L bs heap" "L \<le> e div 31" "e div 31 - L < length bs"
  shows "sg_chain (g(e := s)) L bs (heap(bs ! (e div 31 - L) \<mapsto> sg_set_slot (sg_blk g L bs (e div 31 - L)) (e mod 31) s))"
proof -
  have "sg_blk (g(e := s)) L bs j =
    (if j = e div 31 - L then sg_set_slot (sg_blk g L bs (e div 31 - L)) (e mod 31) s else sg_blk g L bs j)" for j
    using assms(2) by (auto simp: sg_blk_def sg_set_slot_def row_upd)
  with assms show ?thesis by (auto simp: sg_chain_def nth_eq_iff_index_eq)
qed

lemma chain_snoc:
  assumes "sg_chain g L bs heap" "bs \<noteq> []" "n \<notin> set bs" "heap n = Some sg_block_zero"
    and "\<And>e. 31 * (L + length bs) \<le> e \<Longrightarrow> g e = \<lparr>sg_value = None, sg_state = 0\<rparr>"
  shows "sg_chain g L (bs @ [n]) (heap(bs ! (length bs - 1) \<mapsto> (sg_blk g L bs (length bs - 1))\<lparr>sg_next := Some n\<rparr>))"
proof -
  obtain m where m: "length bs = Suc m" using assms(2) by (cases bs) auto
  then have last: "bs ! m \<in> set bs" by simp
  have zero: "sg_row g (L + length bs) = replicate 31 \<lparr>sg_value = None, sg_state = 0\<rparr>"
    by (rule row_zero) (rule assms(5))
  have "sg_blk g L (bs @ [n]) j =
    (if j = length bs then sg_block_zero else if j = length bs - 1 then (sg_blk g L bs j)\<lparr>sg_next := Some n\<rparr>
     else sg_blk g L bs j)" if "j \<le> length bs" for j
    using zero that m
    by (auto simp: sg_blk_def sg_link_def nth_append sg_block_zero_def)
  with assms(1-4) last m show ?thesis
    by (auto simp: sg_chain_def nth_append nth_eq_iff_index_eq less_Suc_eq)
qed

lemma chain_nth: "sg_chain g L bs heap \<Longrightarrow> j < length bs \<Longrightarrow> heap (bs ! j) = Some (sg_blk g L bs j)"
  by (simp add: sg_chain_def)

lemma chain_tl:
  assumes "sg_chain g L (b # bs) heap"
  shows "sg_chain g (Suc L) bs (heap(b := None))"
proof -
  have "sg_blk g (Suc L) bs j = sg_blk g L (b # bs) (Suc j)" for j
    by (simp add: sg_blk_def sg_link_def)
  with assms show ?thesis by (auto simp: sg_chain_def)
qed

lemma chain_other: "a \<notin> set bs \<Longrightarrow> sg_chain g L bs (heap(a := x)) = sg_chain g L bs heap"
proof -
  assume "a \<notin> set bs"
  then have "(heap(a := x)) (bs ! j) = heap (bs ! j)" if "j < length bs" for j using nth_mem [OF that] by auto
  then show ?thesis by (simp add: sg_chain_def)
qed

section \<open>Pushing\<close>

lemma repr_heap_okD:
  assumes "sg_repr M c q E f bs box xs"
  shows "sg_fresh q \<notin> set bs" "box \<noteq> Some (sg_fresh q)"
proof -
  have "\<forall>a \<in> set bs \<union> set_option box. a < sg_fresh q" using assms by (simp add: sg_repr_def sg_heap_ok_def)
  then show "sg_fresh q \<notin> set bs" "box \<noteq> Some (sg_fresh q)" by auto
qed

definition sg_allocated :: "'a seg_queue \<Rightarrow> 'a seg_queue" where
  "sg_allocated q = q\<lparr>sg_heap := (sg_heap q)(sg_fresh q := Some sg_block_zero), sg_fresh := sg_fresh q + 1, sg_mem := sg_mem q - 1\<rparr>"

lemma block_new: "sg_block_new q = (if sg_mem q = 0 then Spin else Done (sg_allocated q, sg_fresh q))"
  by (simp add: sg_block_new_def sg_allocated_def)

lemma allocated_sel [simp]:
  "sg_head_index (sg_allocated q) = sg_head_index q" "sg_tail_index (sg_allocated q) = sg_tail_index q"
  "sg_head_block (sg_allocated q) = sg_head_block q" "sg_tail_block (sg_allocated q) = sg_tail_block q"
  by (simp_all add: sg_allocated_def)

lemma ends_allocated: "sg_ends (sg_allocated q) = sg_ends q"
  by (intro ext) (simp add: sg_ends_def)

lemma heap_ok_alloc:
  assumes "sg_heap_ok M q bs None" "sg_mem q \<noteq> 0"
  shows "sg_heap_ok M (sg_allocated q) bs (Some (sg_fresh q))"
proof -
  have "dom (sg_heap q) = set bs" "\<forall>a \<in> set bs. a < sg_fresh q" "length bs + sg_mem q = M" "M \<le> sg_limit"
    using assms(1) by (simp_all add: sg_heap_ok_def)
  with assms(2) show ?thesis by (force simp: sg_heap_ok_def sg_allocated_def)
qed

lemma repr_alloc:
  assumes "sg_repr M c q E f bs None xs" "sg_mem q \<noteq> 0"
  shows "sg_repr M c (sg_allocated q) E f bs (Some (sg_fresh q)) xs"
  using assms repr_heap_okD(1) [OF assms(1)] heap_ok_alloc [of M q bs]
  by (simp add: sg_repr_def ends_allocated) (simp add: sg_allocated_def chain_other)

text \<open>When a push needs memory: for the first block, and for the block after one it fills.\<close>

definition sg_need :: "nat \<Rightarrow> nat list \<Rightarrow> nat option \<Rightarrow> bool" where
  "sg_need T bs box \<longleftrightarrow> bs = [] \<or> T mod 31 = 30 \<and> box = None"

lemma reserve_cases:
  assumes "sg_repr M c q E f bs box xs" "box \<noteq> None \<longrightarrow> (E + length xs) mod 31 = 30"
  obtains (oom) "sg_reserve q ((E + length xs) mod 31) box = Spin" "sg_mem q = 0" "sg_need (E + length xs) bs box"
  | (ok) q1 box1 where "sg_reserve q ((E + length xs) mod 31) box = Done (q1, box1)" "sg_repr M c q1 E f bs box1 xs"
    "box1 \<noteq> None \<longleftrightarrow> (E + length xs) mod 31 = 30" "sg_tail_block q1 = sg_tail_block q"
    "sg_tail_index q1 = sg_tail_index q" "box1 \<noteq> box \<longrightarrow> sg_need (E + length xs) bs box" "bs = [] \<longrightarrow> q1 = q"
proof (cases "(E + length xs) mod 31 = 30 \<and> box = None")
  case True
  then have ne: "bs \<noteq> []" using assms(1) by (auto simp: sg_repr_def sg_ends_def)
  show ?thesis
  proof (cases "sg_mem q = 0")
    case True': True
    with True show ?thesis by (intro oom) (simp_all add: sg_reserve_def block_new sg_need_def)
  next
    case False
    with repr_alloc [of M c q E f bs xs] assms(1) True ne show ?thesis
      by (intro ok [of "sg_allocated q" "Some (sg_fresh q)"]) (simp_all add: sg_reserve_def sg_need_def block_new)
  qed
next
  case False
  with assms show ?thesis by (intro ok [of q box]) (auto simp: sg_reserve_def)
qed

lemma first_cases:
  assumes "sg_repr M c q E f bs box xs" "box \<noteq> None \<longrightarrow> (E + length xs) mod 31 = 30"
  obtains (oom) "sg_first_block q (sg_tail_block q) box = Spin" "sg_mem q = 0" "bs = []"
  | (ok) q1 bs1 where "sg_first_block q (sg_tail_block q) box = Done (q1, Inr (bs1 ! (length bs1 - 1)))"
    "sg_repr M c q1 E f bs1 box xs" "bs1 \<noteq> []" "sg_tail_index q1 = sg_tail_index q"
    "sg_tail_block q1 = Some (bs1 ! (length bs1 - 1))" "bs = bs1 \<or> bs = []"
proof (cases "bs = []")
  case True
  then have e: "E = 0" "xs = []" "sg_tail_block q = None" "\<not> f" "box = None"
    using assms by (auto simp: sg_repr_def sg_ends_def)
  show ?thesis
  proof (cases "sg_mem q = 0")
    case True': True
    with True e show ?thesis by (intro oom) (simp_all add: sg_first_block_def block_new)
  next
    case False
    have "sg_row (sg_cell c 0 []) 0 = replicate 31 \<lparr>sg_value = None, sg_state = 0\<rparr>"
      by (rule row_zero) (simp add: sg_cell_def)
    then have z: "sg_blk (sg_cell c 0 []) 0 [a] 0 = sg_block_zero" for a
      by (simp add: sg_blk_def sg_link_def sg_block_zero_def)
    let ?q = "(sg_allocated q)\<lparr>sg_tail_block := Some (sg_fresh q), sg_head_block := Some (sg_fresh q)\<rparr>"
    have "sg_heap_ok M ?q [sg_fresh q] None"
      using False True e assms(1) by (auto simp: sg_repr_def sg_heap_ok_def sg_allocated_def)
    with True e assms(1) z have "sg_repr M c ?q E f [sg_fresh q] box xs"
      by (simp add: sg_repr_def sg_ends_def sg_chain_def sg_allocated_def)
    with False True e show ?thesis
      by (intro ok [of ?q "[sg_fresh q]"]) (simp_all add: sg_first_block_def block_new cas_def)
  qed
next
  case False
  then have "sg_tail_block q = Some (bs ! (length bs - 1))" using assms(1) by (auto simp: sg_repr_def sg_ends_def)
  with False assms show ?thesis by (intro ok [of q bs]) (simp_all add: sg_first_block_def)
qed

text \<open>Writing the slot after the last element.\<close>

lemma repr_tail:
  assumes "sg_repr M c q E f bs box xs" "bs \<noteq> []"
  shows "E div 31 \<le> (E + length xs) div 31" "(E + length xs) div 31 - E div 31 = length bs - 1"
  using assms by (auto simp: sg_repr_def sg_ends_def div_le_mono)

lemma repr_write:
  assumes "sg_repr M c q E f bs box xs" "bs \<noteq> []" "T = E + length xs"
  shows "\<exists>b. sg_deref q (Some (bs ! (length bs - 1))) = Done (bs ! (length bs - 1), b) \<and>
    b = sg_blk (sg_cell c E xs) (E div 31) bs (length bs - 1) \<and>
    sg_slot_at b (T mod 31) = Done \<lparr>sg_value = None, sg_state = 0\<rparr> \<and>
    sg_chain (sg_cell c E (xs @ [v])) (E div 31) bs
      ((sg_heap q)(bs ! (length bs - 1) \<mapsto> sg_set_slot b (T mod 31) \<lparr>sg_value = Some v, sg_state = 1\<rparr>))"
proof -
  have ch: "sg_chain (sg_cell c E xs) (E div 31) bs (sg_heap q)" using assms(1) by (simp add: sg_repr_def)
  note t = repr_tail [OF assms(1,2)]
  have l: "(E + length xs) div 31 - E div 31 < length bs" using t assms(2) by simp
  from chain_slot [OF ch t(1) l] chain_upd [OF ch t(1) l] show ?thesis
    unfolding t(2) assms(3) by (simp add: sg_deref_def cell_push) (simp add: sg_cell_def)
qed

lemma index_pos_Suc:
  "e mod 31 \<noteq> 30 \<Longrightarrow> sg_index (sg_pos e + 1) f = sg_index (sg_pos (Suc e)) f"
  "e mod 31 = 30 \<Longrightarrow> sg_index (sg_pos e + 1) f + 2 = sg_index (sg_pos (Suc e)) f"
  by (simp_all add: pos_Suc index_next)

lemma commit_fill:
  assumes "sg_repr M c q E f bs None xs" "bs \<noteq> []" "T = E + length xs" "T mod 31 \<noteq> 30"
  shows "\<exists>q'. sg_push_commit (q\<lparr>sg_tail_index := sg_index (sg_pos T + 1) False\<rparr>) (bs ! (length bs - 1)) (T mod 31)
      nt None v = Done q' \<and> sg_repr M c q' E f bs None (xs @ [v])"
proof -
  let ?a = "bs ! (length bs - 1)" and ?q = "q\<lparr>sg_tail_index := sg_index (sg_pos T + 1) False\<rparr>"
  from repr_write [OF assms(1-3), of v] obtain b where
    b: "sg_deref q (Some ?a) = Done (?a, b)" "sg_slot_at b (T mod 31) = Done \<lparr>sg_value = None, sg_state = 0\<rparr>"
    and ch: "sg_chain (sg_cell c E (xs @ [v])) (E div 31) bs
      ((sg_heap q)(?a \<mapsto> sg_set_slot b (T mod 31) \<lparr>sg_value = Some v, sg_state = 1\<rparr>))" by blast
  let ?q' = "sg_set_block ?q ?a (sg_set_slot b (T mod 31) \<lparr>sg_value = Some v, sg_state = 1\<rparr>)"
  have d: "sg_deref ?q (Some ?a) = Done (?a, b)" using b(1) by (simp add: sg_deref_def)
  have "sg_push_commit ?q ?a (T mod 31) nt None v = Done ?q'"
    using assms(4) d b(2) by (simp add: sg_push_commit_def sg_drop_box_def)
  moreover have "Suc T div 31 = T div 31" using assms(4) by (simp add: div_Suc mod_Suc)
  then have "sg_ends ?q' E (E + length (xs @ [v])) bs"
    using assms(1-3) by (auto simp: sg_repr_def sg_ends_def sg_set_block_def)
  moreover have "?a \<in> set bs" using assms(2) by simp
  then have "sg_heap_ok M ?q' bs None"
    using assms(1) by (auto simp: sg_repr_def sg_heap_ok_def sg_set_block_def)
  ultimately show ?thesis
    using assms ch index_pos_Suc(1) [OF assms(4)] by (auto simp: sg_repr_def sg_set_block_def)
qed

lemma commit_last:
  assumes "sg_repr M c q E f bs (Some n) xs" "bs \<noteq> []" "T = E + length xs" "T mod 31 = 30"
  shows "\<exists>q'. sg_push_commit (q\<lparr>sg_tail_index := sg_index (sg_pos T + 1) False\<rparr>) (bs ! (length bs - 1)) (T mod 31)
      (sg_index (sg_pos T + 1) False) (Some n) v = Done q' \<and> sg_repr M c q' E f (bs @ [n]) None (xs @ [v])"
proof -
  let ?a = "bs ! (length bs - 1)" and ?q = "q\<lparr>sg_tail_index := sg_index (sg_pos T + 1) False\<rparr>"
  let ?s = "\<lparr>sg_value = Some v, sg_state = 1\<rparr>" and ?g = "sg_cell c E (xs @ [v])"
  from repr_write [OF assms(1-3), of v] obtain b where
    b: "sg_deref q (Some ?a) = Done (?a, b)" "sg_slot_at b (T mod 31) = Done \<lparr>sg_value = None, sg_state = 0\<rparr>"
    and ch: "sg_chain ?g (E div 31) bs ((sg_heap q)(?a \<mapsto> sg_set_slot b (T mod 31) ?s))" by blast
  have ok: "sg_heap_ok M q bs (Some n)" using assms(1) by (simp add: sg_repr_def)
  have a: "?a \<in> set bs" using assms(2) by simp
  with ok have n: "n \<notin> set bs" "n \<noteq> ?a" "sg_heap q n = Some sg_block_zero" by (auto simp: sg_heap_ok_def)
  note t = repr_tail [OF assms(1,2)]
  have cur: "((sg_heap q)(?a \<mapsto> sg_set_slot b (T mod 31) ?s)) ?a = Some (sg_blk ?g (E div 31) bs (length bs - 1))"
    using ch [unfolded sg_chain_def, THEN conjunct2, rule_format, of "length bs - 1"] assms(2) by simp
  have "?g e = \<lparr>sg_value = None, sg_state = 0\<rparr>" if "31 * (E div 31 + length bs) \<le> e" for e
  proof -
    have "Suc T \<le> 31 * (E div 31 + length bs)"
      using t assms(2,3) div_mult_mod_eq [of T 31] assms(4) by (cases bs) auto
    with that assms(3) show ?thesis by (simp add: sg_cell_def)
  qed
  from chain_snoc [OF ch assms(2) n(1) _ this] n cur
  have ch': "sg_chain ?g (E div 31) (bs @ [n]) ((sg_heap q)(?a \<mapsto> (sg_set_slot b (T mod 31) ?s)\<lparr>sg_next := Some n\<rparr>))"
    by simp
  let ?q1 = "sg_set_block (?q\<lparr>sg_tail_block := Some n, sg_tail_index := sg_index (sg_pos T + 1) False + 2\<rparr>) ?a (b\<lparr>sg_next := Some n\<rparr>)"
  let ?q' = "sg_set_block ?q1 ?a (sg_set_slot (b\<lparr>sg_next := Some n\<rparr>) (T mod 31) ?s)"
  have "sg_push_commit ?q ?a (T mod 31) (sg_index (sg_pos T + 1) False) (Some n) v = Done ?q'"
    using assms(4) b by (simp add: sg_push_commit_def sg_drop_box_def sg_deref_def sg_set_block_def sg_slot_at_def
        split: option.splits if_splits)
  moreover have "Suc T div 31 = Suc (T div 31)" using assms(4) by (simp add: div_Suc mod_Suc)
  then have "sg_ends ?q' E (E + length (xs @ [v])) (bs @ [n])"
    using assms(1-3) t by (auto simp: sg_repr_def sg_ends_def sg_set_block_def nth_append Suc_diff_le)
  moreover have "sg_heap_ok M ?q' (bs @ [n]) None"
    using ok a by (auto simp: sg_heap_ok_def sg_set_block_def)
  moreover have "sg_set_slot (b\<lparr>sg_next := Some n\<rparr>) (T mod 31) ?s = (sg_set_slot b (T mod 31) ?s)\<lparr>sg_next := Some n\<rparr>"
    by (simp add: sg_set_slot_def)
  ultimately show ?thesis
    using assms ch' index_pos_Suc(2) [OF assms(4)] by (auto simp: sg_repr_def sg_set_block_def)
qed

lemma repr_push_loop:
  assumes "sg_repr M c q E f bs box xs" "box \<noteq> None \<longrightarrow> (E + length xs) mod 31 = 30" "length script < fuel"
  shows "(\<exists>q' bs'. sg_push_loop fuel script q (sg_tail_index q) (sg_tail_block q) box v = Done q' \<and>
        sg_repr M c q' E f bs' None (xs @ [v])) \<or>
    sg_push_loop fuel script q (sg_tail_index q) (sg_tail_block q) box v = Spin \<and> sg_mem q = 0 \<and>
      sg_need (E + length xs) bs box"
  using assms
proof (induction fuel arbitrary: q bs box script)
  case 0
  then show ?case by simp
next
  case (Suc fuel)
  define T where "T = E + length xs"
  have tail: "sg_tail_index q = sg_index (sg_pos T) False" using Suc.prems(1) by (simp add: sg_repr_def T_def)
  from Suc.prems(1,2) show ?case
  proof (cases rule: reserve_cases)
    case oom
    then show ?thesis by (simp add: tail T_def)
  next
    case (ok q1 box1)
    note r = ok
    from ok(3) have "box1 \<noteq> None \<longrightarrow> (E + length xs) mod 31 = 30" by simp
    with ok(2) show ?thesis
    proof (cases rule: first_cases)
      case oom
      with r show ?thesis by (auto simp: tail T_def sg_need_def)
    next
      case (ok q2 bs2)
      have add: "checked_add (sg_index (sg_pos T) False) 2 = Done (sg_index (sg_pos T + 1) False)"
        by (rule index_add) (simp add: pos_mod)
      obtain sp script' where s: "next_spurious script = (sp, script')" by fastforce
      have unfold: "sg_push_loop (Suc fuel) script q (sg_tail_index q) (sg_tail_block q) box v =
        (case cas_weak sp (sg_index (sg_pos T) False) (sg_index (sg_pos T + 1) False) (sg_tail_index q2) of
           (t, Inr _) \<Rightarrow> sg_push_commit (q2\<lparr>sg_tail_index := t\<rparr>) (bs2 ! (length bs2 - 1)) (T mod 31)
             (sg_index (sg_pos T + 1) False) box1 v
         | (_, Inl t) \<Rightarrow> sg_push_loop fuel script' q2 t (sg_tail_block q2) box1 v)"
        using r ok by (simp add: tail T_def [symmetric] add s split: prod.split sum.split)
      show ?thesis
      proof (cases sp)
        case True
        then have "length script' < fuel" using s Suc.prems(3) by (cases script) auto
        from Suc.IH [OF ok(2) _ this] r(3)
        have "\<exists>q' bs'. sg_push_loop fuel script' q2 (sg_tail_index q2) (sg_tail_block q2) box1 v = Done q' \<and>
            sg_repr M c q' E f bs' None (xs @ [v])"
          using ok(3) by (auto simp: sg_need_def)
        with unfold True show ?thesis by (simp add: cas_weak_def)
      next
        case False
        with unfold ok(4) r(5) tail have "sg_push_loop (Suc fuel) script q (sg_tail_index q) (sg_tail_block q) box v =
          sg_push_commit (q2\<lparr>sg_tail_index := sg_index (sg_pos T + 1) False\<rparr>) (bs2 ! (length bs2 - 1)) (T mod 31)
             (sg_index (sg_pos T + 1) False) box1 v" by (simp add: cas_weak_def)
        with commit_fill [OF _ ok(3) T_def, of M c q2 f] commit_last [OF _ ok(3) T_def, of M c q2 f] ok(2) r(3)
        show ?thesis by (cases box1) (auto simp: T_def)
      qed
    qed
  qed
qed

section \<open>Popping\<close>

lemma repr_close:
  assumes "sg_repr M c q E f bs box xs"
  shows "sg_pos E \<le> sg_pos (E + length xs)" "sg_pos (E + length xs) < sg_pos E + 2 ^ 62"
proof -
  show "sg_pos E \<le> sg_pos (E + length xs)" by (rule pos_mono) simp
  have l: "length bs \<le> sg_limit" "sg_ends q E (E + length xs) bs" using assms by (auto simp: sg_repr_def sg_heap_ok_def)
  then have "(E + length xs) div 31 \<le> E div 31 + sg_limit" by (auto simp: sg_ends_def split: if_splits)
  moreover have "32 * sg_limit + 31 < 2 ^ 62" by (simp add: sg_limit_def)
  moreover have "(E + length xs) mod 31 < 31" by simp
  ultimately show "sg_pos (E + length xs) < sg_pos E + 2 ^ 62" unfolding sg_pos_def by linarith
qed

lemma repr_empty_eq:
  assumes "sg_repr M c q E f bs box xs"
  shows "drop_bit 1 (sg_head_index q) = drop_bit 1 (sg_tail_index q) \<longleftrightarrow> xs = []"
proof -
  have "sg_pos (E + length xs) < sg_pos E + 2 ^ 63" using repr_close(2) [OF assms] by simp
  from index_eq [OF repr_close(1) [OF assms] this, of f False] assms
  have "drop_bit 1 (sg_head_index q) = drop_bit 1 (sg_tail_index q) \<longleftrightarrow> sg_pos E = sg_pos (E + length xs)"
    by (simp add: sg_repr_def)
  also have "\<dots> \<longleftrightarrow> xs = []"
  proof
    assume a: "sg_pos E = sg_pos (E + length xs)"
    show "xs = []"
    proof (rule ccontr)
      assume "xs \<noteq> []"
      then have "Suc E \<le> E + length xs" by (cases xs) auto
      from pos_mono [OF this] a show False by (simp add: pos_Suc split: if_splits)
    qed
  qed simp
  finally show ?thesis .
qed

lemma repr_advance:
  assumes "sg_repr M c q E f bs box xs"
  shows "sg_advance_head q (sg_head_index q) = Done
    (if xs = [] then None
     else Some (sg_index (sg_pos E + 1) (f \<or> E div 31 \<noteq> (E + length xs) div 31)))"
proof -
  have h: "sg_head_index q = sg_index (sg_pos E) f" "sg_tail_index q = sg_index (sg_pos (E + length xs)) False"
    using assms by (simp_all add: sg_repr_def)
  have add: "checked_add (sg_index (sg_pos E) f) 2 = Done (sg_index (sg_pos E + 1) f)"
    by (rule index_add) (simp add: pos_mod)
  have f: "xs \<noteq> []" if f
    using assms that by (auto simp: sg_repr_def sg_ends_def split: if_splits)
  have e: "drop_bit 1 (sg_index (sg_pos E) f) = drop_bit 1 (sg_index (sg_pos (E + length xs)) False) \<longleftrightarrow> xs = []"
    using repr_empty_eq [OF assms] unfolding h .
  have l: "unat (drop_bit 1 (sg_index (sg_pos E) f)) div 32 = unat (drop_bit 1 (sg_index (sg_pos (E + length xs)) False)) div 32
      \<longleftrightarrow> E div 31 = (E + length xs) div 31"
    unfolding index_lap [OF repr_close [OF assms]] pos_div ..
  show ?thesis
    unfolding sg_advance_head_def h add exec_map_simps Let_def e l index_flag index_set
    using f by simp
qed

definition sg_advanced :: "'a seg_queue \<Rightarrow> nat \<Rightarrow> bool \<Rightarrow> nat list \<Rightarrow> nat \<Rightarrow> 'a seg_queue" where
  "sg_advanced q E f bs T =
     (if E mod 31 = 30
      then q\<lparr>sg_head_block := Some (bs ! 1), sg_head_index := sg_index (sg_pos (Suc E)) (2 < length bs)\<rparr>
      else q\<lparr>sg_head_index := sg_index (sg_pos (Suc E)) (f \<or> E div 31 \<noteq> T div 31)\<rparr>)"

lemma repr_two_blocks:
  assumes "sg_repr M c q E f bs box (x # xs)"
  shows "bs \<noteq> []" "E mod 31 = 30 \<Longrightarrow> 1 < length bs"
proof -
  show "bs \<noteq> []" using assms by (auto simp: sg_repr_def sg_ends_def split: if_splits)
  assume "E mod 31 = 30"
  then have "Suc E div 31 = Suc (E div 31)" by (simp add: div_Suc mod_Suc)
  moreover have "Suc E div 31 \<le> (E + length (x # xs)) div 31" by (rule div_le_mono) simp
  ultimately show "1 < length bs" using assms by (auto simp: sg_repr_def sg_ends_def split: if_splits)
qed

lemma next_head:
  assumes "sg_repr M c q E f bs box (x # xs)" "E mod 31 = 30"
  shows "sg_next_head (q\<lparr>sg_head_index := h\<rparr>) (bs ! 0) (sg_index (sg_pos E + 1) g) =
    Done (sg_advanced q E f bs (E + length (x # xs)))"
proof -
  note l = repr_two_blocks(2) [OF assms]
  have ch: "sg_chain (sg_cell c E (x # xs)) (E div 31) bs (sg_heap q)" using assms(1) by (simp add: sg_repr_def)
  have "sg_heap q (bs ! 0) = Some (sg_blk (sg_cell c E (x # xs)) (E div 31) bs 0)"
    "sg_heap q (bs ! 1) = Some (sg_blk (sg_cell c E (x # xs)) (E div 31) bs 1)"
    using chain_nth [OF ch, of 0] chain_nth [OF ch, of 1] l order_less_trans [OF zero_less_one l] by simp_all
  then show ?thesis
    using l index_pos_Suc(2) [OF assms(2)] assms(2)
    by (simp add: sg_next_head_def sg_deref_def sg_wait_next_def sg_blk_def sg_link_def sg_advanced_def index_clear_simp index_set
        Let_def numeral_2_eq_2)
qed

lemma repr_pop_loop:
  assumes "sg_repr M c q E f bs box xs" "length script < fuel"
  shows "sg_pop_loop fuel script q (sg_head_index q) (sg_head_block q) = Done
    (case xs of [] \<Rightarrow> (q, None) | _ \<Rightarrow> (sg_advanced q E f bs (E + length xs), Some (bs ! 0, E mod 31)))"
  using assms(2)
proof (induction fuel arbitrary: script)
  case 0
  then show ?case by simp
next
  case (Suc fuel)
  have h: "sg_head_index q = sg_index (sg_pos E) f" using assms(1) by (simp add: sg_repr_def)
  note adv = repr_advance [OF assms(1)]
  show ?case
  proof (cases xs)
    case Nil
    with adv show ?thesis by (simp add: h)
  next
    case (Cons x ys)
    have b: "sg_head_block q = Some (bs ! 0)"
      using assms(1) repr_two_blocks(1) [OF assms(1) [unfolded Cons]] unfolding sg_repr_def sg_ends_def by presburger
    obtain sp script' where s: "next_spurious script = (sp, script')" by fastforce
    define H where "H = sg_head_index q"
    define N where "N = sg_index (sg_pos E + 1) (f \<or> E div 31 \<noteq> (E + length xs) div 31)"
    have "sg_offset H = E mod 31" "sg_advance_head q H = Done (Some N)"
      using adv Cons by (simp_all add: H_def N_def h)
    then have step: "sg_pop_loop (Suc fuel) script q H (sg_head_block q) =
      (case cas_weak sp H N H of
         (h, Inr _) \<Rightarrow> exec_map (\<lambda>q'. (q', Some (bs ! 0, E mod 31)))
           (if E mod 31 + 1 = 31 then sg_next_head (q\<lparr>sg_head_index := h\<rparr>) (bs ! 0) N else Done (q\<lparr>sg_head_index := h\<rparr>))
       | (_, Inl h) \<Rightarrow> sg_pop_loop fuel script' q h (sg_head_block q))"
      by (simp add: b s H_def [symmetric] split: prod.split sum.split)
    show ?thesis
    proof (cases sp)
      case True
      then have "length script' < fuel" using s Suc.prems by (cases script) auto
      from Suc.IH [OF this] step True Cons show ?thesis by (simp add: cas_weak_def H_def)
    next
      case False
      have "(if E mod 31 + 1 = 31 then sg_next_head (q\<lparr>sg_head_index := N\<rparr>) (bs ! 0) N else Done (q\<lparr>sg_head_index := N\<rparr>)) =
          Done (sg_advanced q E f bs (E + length xs))"
        using next_head [of M c q E f bs box x ys] assms(1) Cons index_pos_Suc(1) [of E]
        by (simp add: N_def sg_advanced_def)
      with step False Cons show ?thesis by (simp add: cas_weak_def H_def)
    qed
  qed
qed

text \<open>Reading a claimed slot.\<close>

lemma destroy_all_read:
  assumes "sg_heap q a = Some b" "\<forall>i \<in> set is. i < length (sg_slots b) \<and> sg_state (sg_slots b ! i) AND 2 \<noteq> 0"
  shows "sg_destroy_loop q a is = Done (q\<lparr>sg_heap := (sg_heap q)(a := None), sg_mem := sg_mem q + 1\<rparr>)"
  using assms by (induction "is") (auto simp: sg_free_def sg_deref_def sg_slot_at_def)

lemma repr_head_slot:
  assumes "sg_repr M c q E f bs box (x # xs)"
  shows "sg_deref q (Some (bs ! 0)) = Done (bs ! 0, sg_blk (sg_cell c E (x # xs)) (E div 31) bs 0)"
    "sg_slot_at (sg_blk (sg_cell c E (x # xs)) (E div 31) bs 0) (E mod 31) = Done \<lparr>sg_value = Some x, sg_state = 1\<rparr>"
    "sg_chain ((sg_cell c E (x # xs))(E := s)) (E div 31) bs
      ((sg_heap q)(bs ! 0 \<mapsto> sg_set_slot (sg_blk (sg_cell c E (x # xs)) (E div 31) bs 0) (E mod 31) s))"
proof -
  have ch: "sg_chain (sg_cell c E (x # xs)) (E div 31) bs (sg_heap q)" using assms by (simp add: sg_repr_def)
  have l: "E div 31 - E div 31 < length bs" using repr_two_blocks(1) [OF assms] by simp
  from chain_slot [OF ch order_refl l] chain_upd [OF ch order_refl l]
  show "sg_deref q (Some (bs ! 0)) = Done (bs ! 0, sg_blk (sg_cell c E (x # xs)) (E div 31) bs 0)"
    "sg_slot_at (sg_blk (sg_cell c E (x # xs)) (E div 31) bs 0) (E mod 31) = Done \<lparr>sg_value = Some x, sg_state = 1\<rparr>"
    "sg_chain ((sg_cell c E (x # xs))(E := s)) (E div 31) bs
      ((sg_heap q)(bs ! 0 \<mapsto> sg_set_slot (sg_blk (sg_cell c E (x # xs)) (E div 31) bs 0) (E mod 31) s))"
    by (simp_all add: sg_deref_def sg_cell_def)
qed

lemma take_inner:
  assumes "sg_repr M sg_used q E f bs None (x # xs)" "E mod 31 \<noteq> 30"
  shows "\<exists>q'. sg_take (sg_advanced q E f bs (E + length (x # xs))) (bs ! 0) (E mod 31) = Done (q', x) \<and>
    sg_repr M sg_used q' (Suc E) (f \<or> E div 31 \<noteq> (E + length (x # xs)) div 31) bs None xs \<and> sg_mem q' = sg_mem q"
proof -
  let ?T = "E + length (x # xs)" and ?b = "sg_blk (sg_cell sg_used E (x # xs)) (E div 31) bs 0"
  let ?f = "f \<or> E div 31 \<noteq> ?T div 31"
  note h = repr_head_slot [OF assms(1)]
  let ?q = "q\<lparr>sg_head_index := sg_index (sg_pos (Suc E)) ?f\<rparr>"
  let ?q' = "sg_set_block ?q (bs ! 0) (sg_set_slot ?b (E mod 31) \<lparr>sg_value = None, sg_state = 3\<rparr>)"
  have "sg_deref ?q (Some (bs ! 0)) = Done (bs ! 0, ?b)" using h(1) by (simp add: sg_deref_def)
  then have "sg_take (sg_advanced q E f bs ?T) (bs ! 0) (E mod 31) = Done (?q', x)"
    using assms(2) h(2) by (simp add: sg_take_def sg_advanced_def sg_wait_write_def Let_def)
  moreover have "sg_repr M sg_used ?q' (Suc E) ?f bs None xs"
  proof -
    have d: "Suc E div 31 = E div 31" using assms(2) by (simp add: div_Suc mod_Suc)
    have a: "bs ! 0 \<in> set bs" using repr_two_blocks(1) [OF assms(1)] by simp
    have ends: "sg_ends q E ?T bs" "bs \<noteq> []" using assms(1) repr_two_blocks(1) [OF assms(1)] by (simp_all add: sg_repr_def)
    then have "sg_ends ?q' (Suc E) (Suc E + length xs) bs" using d by (simp add: sg_ends_def sg_set_block_def)
    moreover have "1 < length bs" if ?f
      using that ends assms(1) div_le_mono [of E ?T 31] by (auto simp: sg_repr_def sg_ends_def)
    moreover have "sg_heap_ok M ?q' bs None" using assms(1) a by (auto simp: sg_repr_def sg_heap_ok_def sg_set_block_def)
    moreover have "sg_chain (sg_cell sg_used (Suc E) xs) (Suc E div 31) bs (sg_heap ?q')"
      using h(3) [of "sg_used E"] d by (simp add: cell_pop [of _ _ _ x] sg_used_def sg_set_block_def)
    moreover have "sg_tail_index q = sg_index (sg_pos ?T) False" using assms(1) by (simp add: sg_repr_def)
    ultimately show ?thesis by (simp add: sg_repr_def sg_set_block_def)
  qed
  ultimately show ?thesis by (intro exI [of _ ?q']) (simp add: sg_set_block_def)
qed

lemma take_last:
  assumes "sg_repr M sg_used q E f bs None (x # xs)" "E mod 31 = 30"
  shows "\<exists>q'. sg_take (sg_advanced q E f bs (E + length (x # xs))) (bs ! 0) (E mod 31) = Done (q', x) \<and>
    sg_repr M sg_used q' (Suc E) (2 < length bs) (tl bs) None xs \<and> sg_mem q' = Suc (sg_mem q)"
proof -
  let ?T = "E + length (x # xs)" and ?g = "sg_cell sg_used E (x # xs)"
  let ?b = "sg_blk ?g (E div 31) bs 0" and ?s = "\<lparr>sg_value = None, sg_state = 1\<rparr>"
  note h = repr_head_slot [OF assms(1)] and l = repr_two_blocks [OF assms(1)]
  let ?q = "q\<lparr>sg_head_block := Some (bs ! 1), sg_head_index := sg_index (sg_pos (Suc E)) (2 < length bs)\<rparr>"
  let ?b' = "sg_set_slot ?b (E mod 31) ?s"
  let ?q' = "?q\<lparr>sg_heap := (sg_heap q)(bs ! 0 := None), sg_mem := sg_mem q + 1\<rparr>"
  have "sg_slots ?b' ! i = sg_used (31 * (E div 31) + i)" if "i < 30" for i
    using that assms(2) div_mult_mod_eq [of E 31] by (simp add: sg_blk_def sg_set_slot_def sg_cell_def)
  then have "sg_destroy (sg_set_block ?q (bs ! 0) ?b') (bs ! 0) 0 = Done ?q'"
    unfolding sg_destroy_def
    by (subst destroy_all_read [of _ _ ?b'])
      (auto simp: sg_set_block_def sg_used_def, simp add: sg_set_slot_def sg_blk_def)
  moreover have "sg_deref ?q (Some (bs ! 0)) = Done (bs ! 0, ?b)" using h(1) by (simp add: sg_deref_def)
  ultimately have "sg_take (sg_advanced q E f bs ?T) (bs ! 0) (E mod 31) = Done (?q', x)"
    using assms(2) h(2) by (simp add: sg_take_def sg_advanced_def sg_wait_write_def Let_def)
  moreover have "sg_repr M sg_used ?q' (Suc E) (2 < length bs) (tl bs) None xs"
  proof -
    obtain b0 bs' where bs: "bs = b0 # bs'" using l(1) by (cases bs) auto
    then have ne: "bs' \<noteq> []" using l(2) assms(2) by auto
    have d: "Suc E div 31 = Suc (E div 31)" using assms(2) by (simp add: div_Suc mod_Suc)
    have ends: "sg_ends q E ?T bs" "sg_heap_ok M q bs None" "sg_tail_index q = sg_index (sg_pos ?T) False"
      using assms(1) by (simp_all add: sg_repr_def)
    have "distinct bs" "sg_chain (?g(E := sg_used E)) (Suc (E div 31)) bs' ((sg_heap q)(b0 := None))"
      using h(3) [of "sg_used E"] chain_tl [OF h(3) [of "sg_used E", unfolded bs nth_Cons_0]]
      by (simp_all add: sg_chain_def [of _ _ bs])
    moreover have "sg_ends ?q' (Suc E) (Suc E + length xs) bs'"
      using ends(1) d bs ne by (auto simp: sg_ends_def)
    moreover have "sg_heap_ok M ?q' bs' None"
      using ends(2) \<open>distinct bs\<close> bs by (auto simp: sg_heap_ok_def)
    ultimately show ?thesis
      using ends(3) d bs by (auto simp: sg_repr_def cell_pop [of _ _ _ x])
  qed
  ultimately show ?thesis by (intro exI [of _ ?q']) simp
qed

lemma repr_pop:
  assumes "sg_repr M sg_used q E f bs None xs" "length script < fuel"
  shows "(case xs of
      [] \<Rightarrow> sg_pop final fuel script q = Done (q, None)
    | x # ys \<Rightarrow> \<exists>q' f' bs'. sg_pop final fuel script q = Done (q', Some x) \<and> sg_repr M sg_used q' (Suc E) f' bs' None ys)"
proof -
  have slot: "sg_pop_slot final fuel script q = Done
    (case xs of [] \<Rightarrow> (q, None) | _ \<Rightarrow> (sg_advanced q E f bs (E + length xs), Some (bs ! 0, E mod 31)))"
    using repr_pop_loop [OF assms] repr_empty_eq [OF assms(1)] by (simp add: sg_pop_slot_def split: list.splits)
  show ?thesis
  proof (cases xs)
    case Nil
    with slot show ?thesis by (simp add: sg_pop_def)
  next
    case (Cons x ys)
    then obtain q' f' bs' where "sg_take (sg_advanced q E f bs (E + length xs)) (bs ! 0) (E mod 31) = Done (q', x)"
      "sg_repr M sg_used q' (Suc E) f' bs' None ys"
      using take_inner [of M q E f bs x ys] take_last [of M q E f bs x ys] assms(1) by (cases "E mod 31 = 30") auto
    with slot Cons show ?thesis by (auto simp: sg_pop_def)
  qed
qed

section \<open>Observers\<close>

lemma repr_is_empty: "sg_repr M c q E f bs box xs \<Longrightarrow> sg_is_empty q \<longleftrightarrow> xs = []"
  unfolding sg_is_empty_def by (rule repr_empty_eq)

lemma fix_index: "sg_fix_index (sg_index (sg_pos e) f) = sg_index (sg_pos e) False"
proof -
  let ?w = "drop_bit 1 (sg_index (sg_pos e) False)"
  have "?w AND 31 = take_bit 5 ?w" by (simp add: take_bit_eq_mask mask_eq_exp_minus_1)
  then have "unat (?w AND 31) = unat ?w mod 32" by (simp add: unsigned_take_bit_eq take_bit_eq_mod unat_mod_distrib del: One_nat_def)
  also have "\<dots> = e mod 31" using offset_index [of e False] unfolding sg_offset_def .
  finally have "unat (?w AND 31) \<noteq> unat (31 :: usize)" using offset_not_cap [of e] by simp
  then have "?w AND 31 \<noteq> 31" by (rule contrapos_nn) (rule arg_cong)
  then show ?thesis unfolding sg_fix_index_def index_clear Let_def by (rule if_not_P)
qed

lemma index_lap_base:
  "push_bit 1 (drop_bit 1 (sg_index (sg_pos e) False) div 32 * 32) = sg_index (32 * (e div 31)) False"
proof (rule word_unat_eq_iff [THEN iffD2])
  let ?h = "drop_bit 1 (sg_index (sg_pos e) False)"
  have "push_bit 1 (?h div 32 * 32) = (of_nat (2 * (unat ?h div 32 * 32)) :: usize)"
    using word_arith_nat_div [of ?h 32] by (simp add: push_bit_eq_mult)
  then have "unat (push_bit 1 (?h div 32 * 32)) = (2 * (unat ?h div 32 * 32)) mod 2 ^ 64"
    by (simp add: unat_of_nat del: of_nat_mult)
  also have "\<dots> = (64 * ((sg_pos e mod 2 ^ 63) div 32)) mod 2 ^ 64" unfolding index_half by (simp add: ac_simps)
  also have "(sg_pos e mod 2 ^ 63) div 32 = (sg_pos e div 32) mod 2 ^ 58"
    using mod_mult2_eq [of "sg_pos e" 32 "2 ^ 58"] by simp
  also have "(64 * ((sg_pos e div 32) mod 2 ^ 58)) mod 2 ^ 64 = 2 * ((32 * (e div 31)) mod 2 ^ 63)"
    unfolding pos_div using mult_mod_right [of 64 "e div 31" "2 ^ 58"] mult_mod_right [of 2 "32 * (e div 31)" "2 ^ 63"]
    by simp
  finally show "unat (push_bit 1 (?h div 32 * 32)) = unat (sg_index (32 * (e div 31)) False)"
    by (simp add: index_unat)
qed

lemma index_diff: "p \<le> p' \<Longrightarrow> sg_index p' False - sg_index p False = sg_index (p' - p) False"
  by (simp add: sg_index_def right_diff_distrib of_nat_diff)

lemma repr_len_round:
  assumes "sg_repr M c q E f bs box xs"
  shows "\<exists>n. sg_len_round q q q = Some (Done n) \<and> unat n = length xs"
proof -
  define T L where "T = E + length xs" and "L = E div 31"
  have i: "sg_head_index q = sg_index (sg_pos E) f" "sg_tail_index q = sg_index (sg_pos T) False"
    using assms by (simp_all add: sg_repr_def T_def)
  have le: "L \<le> T div 31" unfolding L_def T_def by (rule div_le_mono) simp
  have pE: "sg_pos E - 32 * L = E mod 31" "32 * L \<le> sg_pos E" by (simp_all add: sg_pos_def L_def)
  have pT: "sg_pos T - 32 * L = 32 * (T div 31 - L) + T mod 31" "32 * L \<le> sg_pos T" using le by (simp_all add: sg_pos_def)
  have "sg_pos T - 32 * L < 2 ^ 63"
    using repr_close(2) [OF assms] pE by (simp add: T_def)
  define h t where "h = drop_bit 1 (sg_index (E mod 31) False)" and "t = drop_bit 1 (sg_index (sg_pos T - 32 * L) False)"
  have round: "sg_len_round q q q = Some (exec_bind (checked_sub t h) (\<lambda>d. checked_sub d (t div 32)))"
    unfolding sg_len_round_def i fix_index Let_def index_lap_base
    by (simp add: index_diff pE(2) [unfolded L_def] pT(2) [unfolded L_def] h_def t_def pE(1) [unfolded L_def] L_def del: One_nat_def)
  have uh: "unat h = E mod 31" unfolding h_def index_half by (rule mod_less) simp
  have ut: "unat t = 32 * (T div 31 - L) + T mod 31"
    unfolding t_def index_half using \<open>sg_pos T - 32 * L < 2 ^ 63\<close> pT(1) by simp
  have len: "T = E + length xs" "31 * (T div 31) + T mod 31 = T" "31 * L + E mod 31 = E" "E mod 31 < 31"
    by (simp_all add: T_def L_def)
  have d: "unat (t div 32) = T div 31 - L" unfolding unat_div using ut by simp
  have le1: "unat h \<le> unat t" unfolding uh ut using le len by (cases "T div 31 = L") linarith+
  then have s1: "checked_sub t h = Done (t - h)" "unat (t - h) = unat t - unat h"
    by (simp_all add: checked_sub_def unat_sub_if' word_le_nat_alt)
  have eq: "unat t - unat h = length xs + (T div 31 - L)" unfolding uh ut using le len by linarith
  with d s1(2) have "checked_sub (t - h) (t div 32) = Done (t - h - t div 32)" "unat (t - h - t div 32) = length xs"
    by (simp_all add: checked_sub_def unat_sub_if' word_le_nat_alt)
  with round s1(1) show ?thesis by simp
qed

lemma repr_len: "sg_repr M c q E f bs box xs \<Longrightarrow> sg_len q = length xs"
  using repr_len_round [of M c q E f bs box xs] by (auto simp: sg_len_def)

section \<open>Content\<close>

text \<open>The elements, read off the chain of blocks.\<close>

fun sg_collect :: "(nat \<Rightarrow> 'a sg_block option) \<Rightarrow> nat option \<Rightarrow> nat \<Rightarrow> nat \<Rightarrow> 'a list" where
  "sg_collect heap p i 0 = []"
| "sg_collect heap p i (Suc n) =
     (case Option.bind p heap of
        None \<Rightarrow> []
      | Some b \<Rightarrow> (case sg_value (sg_slots b ! i) of
          None \<Rightarrow> []
        | Some v \<Rightarrow> v # (if i = 30 then sg_collect heap (sg_next b) 0 n else sg_collect heap p (i + 1) n)))"

definition sg_content :: "'a seg_queue \<Rightarrow> 'a list" where
  "sg_content q = sg_collect (sg_heap q) (sg_head_block q) (sg_offset (sg_head_index q)) (sg_len q)"

lemma collect_chain:
  assumes "sg_chain g L bs heap" "L \<le> e div 31" "ys \<noteq> [] \<longrightarrow> p = Some (bs ! (e div 31 - L))"
    and "\<forall>k < length ys. sg_value (g (e + k)) = Some (ys ! k) \<and> (e + k) div 31 - L < length bs"
  shows "sg_collect heap p (e mod 31) (length ys) = ys"
  using assms(2-)
proof (induction ys arbitrary: e p)
  case Nil
  then show ?case by simp
next
  case (Cons y ys)
  let ?j = "e div 31 - L"
  have j: "?j < length bs" "sg_value (g e) = Some y" using Cons.prems(3) by force+
  note b = chain_nth [OF assms(1) j(1)]
  have later: "\<forall>k < length ys. sg_value (g (Suc e + k)) = Some (ys ! k) \<and> (Suc e + k) div 31 - L < length bs"
    using Cons.prems(3) by force
  have "31 * (L + ?j) + e mod 31 = e" using Cons.prems(1) by simp
  then have v: "sg_value (sg_slots (sg_blk g L bs ?j) ! (e mod 31)) = Some y"
    using j(2) by (simp add: sg_blk_def)
  show ?case
  proof (cases "e mod 31 = 30")
    case True
    then have s: "Suc e div 31 = Suc (e div 31)" "Suc e mod 31 = 0" by (simp_all add: div_Suc mod_Suc)
    have "ys \<noteq> [] \<longrightarrow> sg_link bs ?j = Some (bs ! (Suc e div 31 - L))"
      using later s(1) Cons.prems(1) by (force simp: sg_link_def Suc_diff_le)
    from Cons.IH [OF _ this later] s Cons.prems(1,2) b v True show ?thesis
      by (simp add: sg_blk_def)
  next
    case False
    then have s: "Suc e div 31 = e div 31" "Suc e mod 31 = Suc (e mod 31)" by (simp_all add: div_Suc mod_Suc)
    from Cons.IH [OF _ _ later, of p] s Cons.prems(1,2) b v False show ?thesis by simp
  qed
qed

lemma repr_content:
  assumes "sg_repr M c q E f bs box xs"
  shows "sg_content q = xs"
proof -
  have i: "sg_head_index q = sg_index (sg_pos E) f" "sg_chain (sg_cell c E xs) (E div 31) bs (sg_heap q)"
    "sg_ends q E (E + length xs) bs" using assms by (simp_all add: sg_repr_def)
  have "(E + k) div 31 - E div 31 < length bs" if "k < length xs" for k
    using i(3) that div_le_mono [of "E + k" "E + length xs" 31] by (auto simp: sg_ends_def split: if_splits)
  moreover have "xs \<noteq> [] \<longrightarrow> sg_head_block q = Some (bs ! 0)" using i(3) by (auto simp: sg_ends_def split: if_splits)
  ultimately have "sg_collect (sg_heap q) (sg_head_block q) (E mod 31) (length xs) = xs"
    by (intro collect_chain [OF i(2)]) (simp_all add: sg_cell_def)
  then show ?thesis by (simp add: sg_content_def repr_len [OF assms] i(1))
qed

section \<open>Drop and iteration\<close>

text \<open>
  What \<^verbatim>\<open>Drop\<close> and the iterator rely on; the flag in the head index does not matter to them, and \<open>c\<close> may say
  anything of the slots behind the head.
\<close>

definition sg_shape :: "nat \<Rightarrow> (nat \<Rightarrow> 'a sg_slot) \<Rightarrow> 'a seg_queue \<Rightarrow> nat \<Rightarrow> nat list \<Rightarrow> 'a list \<Rightarrow> bool" where
  "sg_shape M c q E bs xs \<longleftrightarrow>
     sg_head_index q AND NOT 1 = sg_index (sg_pos E) False \<and> sg_tail_index q = sg_index (sg_pos (E + length xs)) False \<and>
     sg_ends q E (E + length xs) bs \<and> sg_chain (sg_cell c E xs) (E div 31) bs (sg_heap q) \<and> sg_heap_ok M q bs None"

lemma repr_shape: "sg_repr M c q E f bs None xs \<Longrightarrow> sg_shape M c q E bs xs"
  unfolding sg_repr_def sg_shape_def by (simp add: index_clear_simp)

lemma index_neq:
  assumes "p < p'" "p' < p + 2 ^ 63"
  shows "sg_index p False \<noteq> sg_index p' False"
  using index_eq [of p p' False False] assms by (metis nat_less_le)

lemma drop_loop:
  assumes "sg_chain g (e div 31) bs (sg_heap q)" "dom (sg_heap q) = set bs"
    and "length bs = (e + length ys) div 31 - e div 31 + 1"
    and "\<forall>k < length ys. sg_value (g (e + k)) = Some (ys ! k)"
    and "sg_pos (e + length ys) < sg_pos e + 2 ^ 62" "2 * length ys < fuel"
  shows "\<exists>q'. sg_drop_loop fuel q (sg_index (sg_pos e) False) (sg_index (sg_pos (e + length ys)) False) (Some (bs ! 0)) =
      Done (q', ys) \<and> sg_heap q' = (\<lambda>_. None) \<and> sg_mem q' = sg_mem q + length bs"
  using assms
proof (induction ys arbitrary: e bs q fuel)
  case Nil
  then obtain a where a: "bs = [a]" by (cases bs; cases "tl bs") auto
  with Nil.prems(1,2) have "sg_heap q a \<noteq> None" "(sg_heap q)(a := None) = (\<lambda>_. None)"
    by (auto simp: sg_chain_def dom_def fun_eq_iff)
  with Nil.prems(6) a show ?case
    by (cases fuel) (auto simp: sg_drop_box_def sg_free_def sg_deref_def)
next
  case (Cons y ys)
  obtain m where m: "fuel = Suc (Suc m)" "2 * length ys < m" using Cons.prems(6) by (cases fuel; cases "fuel - 1") auto
  obtain a bs' where bs: "bs = a # bs'" using Cons.prems(3) by (cases bs) auto
  define T where "T = e + length (y # ys)"
  have T: "T = Suc e + length ys" by (simp add: T_def)
  have far: "sg_pos e < sg_pos T" "sg_pos T < sg_pos e + 2 ^ 62"
    using pos_mono [of "Suc e" T] Cons.prems(5) by (auto simp: T_def pos_Suc split: if_splits)
  have b: "sg_heap q a = Some (sg_blk g (e div 31) bs 0)" using chain_nth [OF Cons.prems(1), of 0] bs by simp
  have v: "sg_slot_at (sg_blk g (e div 31) bs 0) (e mod 31) = Done (g e)" "sg_value (g e) = Some y"
    using Cons.prems(4) by (auto simp: sg_blk_def sg_slot_at_def)
  have later: "\<forall>k < length ys. sg_value (g (Suc e + k)) = Some (ys ! k)" using Cons.prems(4) by force
  have "sg_index (sg_pos e) False \<noteq> sg_index (sg_pos T) False" using far by (intro index_neq) simp_all
  then have step: "sg_drop_loop fuel q (sg_index (sg_pos e) False) (sg_index (sg_pos T) False) (Some (bs ! 0)) =
    exec_map (map_prod id ((#) y)) (sg_drop_loop (Suc m) q (sg_index (sg_pos e + 1) False) (sg_index (sg_pos T) False) (Some (bs ! 0)))"
    using b v bs m(1) mod_less_divisor [of 31 e] by (simp add: sg_deref_def index_next)
  have "\<exists>q'. sg_drop_loop (Suc m) q (sg_index (sg_pos e + 1) False) (sg_index (sg_pos T) False) (Some (bs ! 0)) =
      Done (q', ys) \<and> sg_heap q' = (\<lambda>_. None) \<and> sg_mem q' = sg_mem q + length bs"
  proof (cases "e mod 31 = 30")
    case False
    then have s: "Suc e div 31 = e div 31" by (simp add: div_Suc mod_Suc)
    have "sg_pos T < sg_pos (Suc e) + 2 ^ 62" using far(2) False by (simp add: pos_Suc)
    with Cons.IH [of "Suc e" bs q "Suc m"] Cons.prems(1-3) later m(2) s T False show ?thesis
      by (simp add: pos_Suc T_def [symmetric] del: sg_drop_loop.simps)
  next
    case True
    then have s: "Suc e div 31 = Suc (e div 31)" by (simp add: div_Suc mod_Suc)
    have p: "sg_pos (Suc e) = sg_pos e + 2" using True by (simp add: pos_Suc)
    then have "sg_pos e + 1 < sg_pos T" using pos_mono [of "Suc e" T] T by simp
    then have "sg_index (sg_pos e + 1) False \<noteq> sg_index (sg_pos T) False" using far by (intro index_neq) simp_all
    moreover have "sg_offset (sg_index (sg_pos e + 1) False) = 31"
      using True pos_mod [of e] by (simp add: index_offset mod_Suc)
    moreover have len: "length bs' = (Suc e + length ys) div 31 - Suc e div 31 + 1"
      using Cons.prems(3) bs s div_le_mono [of "Suc e" "Suc e + length ys" 31]
      by (simp add: Suc_diff_Suc Suc_le_eq)
    then have "sg_next (sg_blk g (e div 31) bs 0) = Some (bs' ! 0)" using bs by (cases bs') (simp_all add: sg_blk_def sg_link_def)
    moreover define q1 where "q1 = q\<lparr>sg_heap := (sg_heap q)(a := None), sg_mem := sg_mem q + 1\<rparr>"
    ultimately have next_block: "sg_drop_loop (Suc m) q (sg_index (sg_pos e + 1) False) (sg_index (sg_pos T) False) (Some (bs ! 0)) =
        sg_drop_loop m q1 (sg_index (sg_pos (Suc e)) False) (sg_index (sg_pos T) False) (Some (bs' ! 0))"
      using b bs p by (simp add: sg_deref_def sg_free_def index_next)
    have q1: "sg_heap q1 = (sg_heap q)(a := None)" "sg_mem q1 = sg_mem q + 1" by (simp_all add: q1_def)
    have ch: "sg_chain g (Suc e div 31) bs' (sg_heap q1)" "a \<notin> set bs'"
      using chain_tl [OF Cons.prems(1) [unfolded bs]] Cons.prems(1) bs s by (simp_all add: sg_chain_def [of _ _ "a # bs'"] q1)
    then have dm: "dom (sg_heap q1) = set bs'" using Cons.prems(2) bs by (auto simp: q1)
    have "sg_pos (Suc e + length ys) < sg_pos (Suc e) + 2 ^ 62" using far(2) p T by simp
    from Cons.IH [OF ch(1) dm len later this m(2)]
    have "\<exists>q'. sg_drop_loop (Suc m) q (sg_index (sg_pos e + 1) False) (sg_index (sg_pos T) False) (Some (bs ! 0)) =
        Done (q', ys) \<and> sg_heap q' = (\<lambda>_. None) \<and> sg_mem q' = sg_mem q + 1 + length bs'"
      unfolding q1(2) T [symmetric] next_block .
    then show ?thesis using bs by simp
  qed
  with step show ?case by (auto simp: T_def)
qed

lemma head_index_irrelevant:
  "sg_ends (q\<lparr>sg_head_index := h\<rparr>) = sg_ends q" "sg_heap_ok M (q\<lparr>sg_head_index := h\<rparr>) = sg_heap_ok M q"
  by (intro ext, simp add: sg_ends_def sg_heap_ok_def)+

lemma shape_drop:
  assumes "sg_shape M c q E bs xs" "2 * length xs < fuel"
  shows "\<exists>q'. sg_drop fuel q = Done (q', xs) \<and> sg_heap q' = (\<lambda>_. None) \<and> sg_mem q' = sg_mem q + length bs"
proof -
  have h: "sg_head_index q AND NOT 1 = sg_index (sg_pos E) False"
    "sg_tail_index q AND NOT 1 = sg_index (sg_pos (E + length xs)) False" "sg_ends q E (E + length xs) bs"
    "sg_chain (sg_cell c E xs) (E div 31) bs (sg_heap q)" "sg_heap_ok M q bs None"
    using assms(1) unfolding sg_shape_def by (simp_all add: index_clear_simp)
  have d: "sg_drop fuel q = sg_drop_loop fuel q (sg_index (sg_pos E) False) (sg_index (sg_pos (E + length xs)) False) (sg_head_block q)"
    unfolding sg_drop_def h ..
  show ?thesis
  proof (cases "bs = []")
    case True
    then have "E = 0" "xs = []" "sg_head_block q = None" "sg_heap q = (\<lambda>_. None)"
      using h(3,5) by (auto simp: sg_ends_def sg_heap_ok_def)
    with d True assms(2) show ?thesis by (cases fuel) (simp_all add: sg_drop_box_def)
  next
    case False
    then have b: "sg_head_block q = Some (bs ! 0)" "length bs = (E + length xs) div 31 - E div 31 + 1"
      using h(3) by (simp_all add: sg_ends_def)
    have "sg_repr M c (q\<lparr>sg_head_index := sg_index (sg_pos E) False\<rparr>) E False bs None xs"
      using assms(1) by (simp add: sg_shape_def sg_repr_def head_index_irrelevant)
    from repr_close(2) [OF this] drop_loop [OF h(4) _ b(2) _ _ assms(2)] h(5) d b(1) show ?thesis
      by (simp add: sg_heap_ok_def sg_cell_def)
  qed
qed

lemma word_flag: "\<exists>p f. (w :: usize) = sg_index p f"
proof -
  have "w = of_nat (unat w)" by simp
  also have "unat w = 2 * (unat w div 2) + of_bool (odd (unat w))" by (simp flip: mod_2_eq_odd)
  finally show ?thesis unfolding sg_index_def by blast
qed

lemma shape_index:
  assumes "sg_shape M c q E bs xs"
  obtains f where "sg_head_index q = sg_index (sg_pos E) f"
proof -
  obtain p f where w: "sg_head_index q = sg_index p f" using word_flag by blast
  then have "sg_index p False = sg_index (sg_pos E) False"
    using assms index_clear [of p f] unfolding sg_shape_def by simp
  then have "sg_index p f = sg_index (sg_pos E) f" by (metis index_set)
  with w that show thesis by simp
qed

lemma shape_repr:
  assumes "sg_shape M c q E bs xs"
  shows "sg_repr M c (q\<lparr>sg_head_index := sg_index (sg_pos E) False\<rparr>) E False bs None xs"
  using assms by (simp add: sg_shape_def sg_repr_def head_index_irrelevant)

lemma index_next2: "sg_index p f + 4 = sg_index (p + 2) f"
  by (simp add: sg_index_def algebra_simps)

lemma shape_not_empty:
  assumes "sg_shape M c q E bs xs"
  shows "drop_bit 1 (sg_head_index q) = drop_bit 1 (sg_tail_index q) \<longleftrightarrow> xs = []"
proof -
  obtain f where f: "sg_head_index q = sg_index (sg_pos E) f" using shape_index [OF assms] by blast
  have "drop_bit 1 (sg_index p f) = drop_bit 1 (sg_index p False)" for p
    unfolding word_unat_eq_iff index_half ..
  with repr_empty_eq [OF shape_repr [OF assms]] f show ?thesis by simp
qed

lemma shape_head:
  assumes "sg_shape M c q E bs (x # xs)"
  shows "sg_deref q (sg_head_block q) = Done (bs ! 0, sg_blk (sg_cell c E (x # xs)) (E div 31) bs 0)"
    "sg_slot_at (sg_blk (sg_cell c E (x # xs)) (E div 31) bs 0) (E mod 31) = Done \<lparr>sg_value = Some x, sg_state = 1\<rparr>"
    "sg_offset (sg_head_index q) = E mod 31" "bs \<noteq> []" "drop_bit 1 (sg_head_index q) \<noteq> drop_bit 1 (sg_tail_index q)"
proof -
  note r = shape_repr [OF assms]
  show "bs \<noteq> []" using repr_two_blocks(1) [OF r] .
  then have "sg_head_block q = Some (bs ! 0)" using assms by (simp add: sg_shape_def sg_ends_def)
  with repr_head_slot(1) [OF r]
  show "sg_deref q (sg_head_block q) = Done (bs ! 0, sg_blk (sg_cell c E (x # xs)) (E div 31) bs 0)"
    by (simp add: sg_deref_def)
  show "sg_slot_at (sg_blk (sg_cell c E (x # xs)) (E div 31) bs 0) (E mod 31) = Done \<lparr>sg_value = Some x, sg_state = 1\<rparr>"
    using repr_head_slot(2) [OF r] .
  show "sg_offset (sg_head_index q) = E mod 31" using shape_index [OF assms] by (metis offset_index)
  show "drop_bit 1 (sg_head_index q) \<noteq> drop_bit 1 (sg_tail_index q)" using shape_not_empty [OF assms] by simp
qed

lemma iter_inner:
  assumes "sg_shape M c q E bs (x # xs)" "E mod 31 \<noteq> 30"
  shows "\<exists>q'. sg_into_iter_next q = Done (q', Some x) \<and> sg_shape M (c(E := \<lparr>sg_value = None, sg_state = 1\<rparr>)) q' (Suc E) bs xs \<and>
    sg_mem q' = sg_mem q"
proof -
  let ?b = "sg_blk (sg_cell c E (x # xs)) (E div 31) bs 0" and ?s = "\<lparr>sg_value = None, sg_state = 1\<rparr>"
  let ?q = "(sg_set_block q (bs ! 0) (sg_set_slot ?b (E mod 31) ?s))\<lparr>sg_head_index := sg_head_index q + 2\<rparr>"
  obtain f where f: "sg_head_index q = sg_index (sg_pos E) f" using shape_index [OF assms(1)] by blast
  note h = shape_head [OF assms(1)]
  have "sg_into_iter_next q = Done (?q, Some x)"
    using h assms(2) by (simp add: sg_into_iter_next_def Let_def)
  moreover have "sg_shape M (c(E := ?s)) ?q (Suc E) bs xs"
  proof -
    have d: "Suc E div 31 = E div 31" using assms(2) by (simp add: div_Suc mod_Suc)
    have "sg_head_index ?q AND NOT 1 = sg_index (sg_pos (Suc E)) False"
      using index_clear [of "sg_pos E + 1" f] index_pos_Suc(1) [OF assms(2)] f by (simp add: index_next)
    moreover have "sg_cell (c(E := ?s)) (Suc E) xs = (sg_cell c E (x # xs))(E := ?s)"
      by (rule ext) (auto simp: sg_cell_def nth_Cons' less_Suc_eq)
    then have "sg_chain (sg_cell (c(E := ?s)) (Suc E) xs) (Suc E div 31) bs (sg_heap ?q)"
      using repr_head_slot(3) [OF shape_repr [OF assms(1)], of ?s] d by (simp add: sg_set_block_def)
    moreover have "sg_ends ?q (Suc E) (Suc E + length xs) bs"
      using assms(1) h(4) d by (simp add: sg_shape_def sg_ends_def sg_set_block_def)
    moreover have "bs ! 0 \<in> set bs" using h(4) by simp
    then have "sg_heap_ok M ?q bs None" using assms(1) by (auto simp: sg_shape_def sg_heap_ok_def sg_set_block_def)
    ultimately show ?thesis using assms(1) by (simp add: sg_shape_def sg_set_block_def)
  qed
  ultimately show ?thesis by (intro exI [of _ ?q]) (simp add: sg_set_block_def)
qed

lemma iter_last:
  assumes "sg_shape M c q E bs (x # xs)" "E mod 31 = 30"
  shows "\<exists>q'. sg_into_iter_next q = Done (q', Some x) \<and> sg_shape M c q' (Suc E) (tl bs) xs \<and> sg_mem q' = Suc (sg_mem q)"
proof -
  obtain f where f: "sg_head_index q = sg_index (sg_pos E) f" using shape_index [OF assms(1)] by blast
  note h = shape_head [OF assms(1)] and l = repr_two_blocks(2) [OF shape_repr [OF assms(1)] assms(2)]
  obtain b0 bs' where bs: "bs = b0 # bs'" "bs' \<noteq> []" using l by (cases bs) auto
  let ?b = "sg_blk (sg_cell c E (x # xs)) (E div 31) bs 0"
  let ?q = "q\<lparr>sg_heap := (sg_heap q)(b0 := None), sg_mem := sg_mem q + 1, sg_head_block := Some (bs' ! 0),
    sg_head_index := sg_index (sg_pos (Suc E)) f\<rparr>"
  have p: "sg_pos (Suc E) = sg_pos E + 2" using assms(2) by (simp add: pos_Suc)
  have d: "Suc E div 31 = Suc (E div 31)" "Suc E mod 31 = 0" using assms(2) by (simp_all add: div_Suc mod_Suc)
  have "sg_next ?b = Some (bs' ! 0)" using bs by (cases bs') (simp_all add: sg_blk_def sg_link_def)
  moreover have "sg_free q (Some (bs ! 0)) = Done (q\<lparr>sg_heap := (sg_heap q)(b0 := None), sg_mem := sg_mem q + 1\<rparr>)"
    using repr_head_slot(1) [OF shape_repr [OF assms(1)]] bs(1) by (simp add: sg_free_def sg_deref_def split: option.splits)
  moreover have "sg_head_index q + 4 = sg_index (sg_pos (Suc E)) f" using f p by (simp add: index_next2)
  ultimately have "sg_into_iter_next q = Done (?q, Some x)"
    using h assms(2) d(2) by (simp add: sg_into_iter_next_def Let_def)
  moreover have "sg_shape M c ?q (Suc E) bs' xs"
  proof -
    have ok: "sg_heap_ok M q bs None" "sg_ends q E (E + length (x # xs)) bs"
      "sg_tail_index q = sg_index (sg_pos (E + length (x # xs))) False" using assms(1) by (simp_all add: sg_shape_def)
    have ch: "sg_chain ((sg_cell c E (x # xs))(E := c E)) (E div 31) bs ((sg_heap q)(bs ! 0 \<mapsto> sg_set_slot ?b (E mod 31) (c E)))"
      using repr_head_slot(3) [OF shape_repr [OF assms(1)], of "c E"] by simp
    then have dist: "distinct bs" by (simp add: sg_chain_def)
    have "sg_chain (sg_cell c (Suc E) xs) (Suc E div 31) bs' ((sg_heap q)(b0 := None))"
      using chain_tl [OF ch [unfolded bs(1) nth_Cons_0]] d(1) by (simp add: cell_pop [of _ _ _ x])
    moreover have "sg_ends ?q (Suc E) (Suc E + length xs) bs'"
      using ok(2) d(1) bs by (auto simp: sg_ends_def)
    moreover have "sg_heap_ok M ?q bs' None" using ok(1) dist bs(1) by (auto simp: sg_heap_ok_def)
    ultimately show ?thesis using ok(3) by (simp add: sg_shape_def index_clear_simp)
  qed
  ultimately show ?thesis using bs(1) by (intro exI [of _ ?q]) simp
qed

text \<open>Iterating to the end.\<close>

fun sg_iterate :: "nat \<Rightarrow> 'a seg_queue \<Rightarrow> ('a seg_queue \<times> 'a list) exec" where
  "sg_iterate 0 q = Spin"
| "sg_iterate (Suc fuel) q =
     exec_bind (sg_into_iter_next q) (\<lambda>(q', r).
       case r of None \<Rightarrow> Done (q', []) | Some x \<Rightarrow> exec_map (map_prod id ((#) x)) (sg_iterate fuel q'))"

lemma shape_iterate:
  assumes "sg_shape M c q E bs xs" "length xs < fuel"
  shows "\<exists>q' c' E' bs'. sg_iterate fuel q = Done (q', xs) \<and> sg_shape M c' q' E' bs' [] \<and>
    sg_mem q' + length bs' = sg_mem q + length bs"
  using assms
proof (induction xs arbitrary: c q E bs fuel)
  case Nil
  then have "sg_into_iter_next q = Done (q, None)" using shape_not_empty [OF Nil(1)] by (simp add: sg_into_iter_next_def Let_def)
  with Nil show ?case by (cases fuel) auto
next
  case (Cons x xs)
  obtain m where m: "fuel = Suc m" "length xs < m" using Cons.prems(2) by (cases fuel) auto
  have "\<exists>q' c' bs'. sg_into_iter_next q = Done (q', Some x) \<and> sg_shape M c' q' (Suc E) bs' xs \<and>
      sg_mem q' + length bs' = sg_mem q + length bs"
  proof (cases "E mod 31 = 30")
    case True
    from iter_last [OF Cons.prems(1) True] shape_head(4) [OF Cons.prems(1)] show ?thesis
      by (elim exE, intro exI [of _ "tl bs"] exI conjI) (auto simp: Suc_diff_Suc)
  next
    case False
    from iter_inner [OF Cons.prems(1) False] obtain q' where "sg_into_iter_next q = Done (q', Some x)"
      "sg_shape M (c(E := \<lparr>sg_value = None, sg_state = 1\<rparr>)) q' (Suc E) bs xs" "sg_mem q' = sg_mem q" by blast
    then show ?thesis by (intro exI [of _ q'] exI conjI) auto
  qed
  then obtain q' c' bs' where q': "sg_into_iter_next q = Done (q', Some x)" "sg_shape M c' q' (Suc E) bs' xs"
    "sg_mem q' + length bs' = sg_mem q + length bs" by blast
  from Cons.IH [OF q'(2) m(2)] q'(1,3) m(1) show ?case by fastforce
qed

section \<open>The laws\<close>

lemma repr_inv: "sg_repr M sg_used q E f bs None xs \<Longrightarrow> sg_inv q \<and> sg_content q = xs"
  using repr_content [of M sg_used q E f bs None xs] unfolding sg_inv_def by blast

lemma inv_repr:
  assumes "sg_inv q"
  obtains M E f bs where "sg_repr M sg_used q E f bs None (sg_content q)"
  using assms repr_content unfolding sg_inv_def by metis

text \<open>The memory a queue has, in blocks, used or not.\<close>

definition sg_memory :: "'a seg_queue \<Rightarrow> nat \<Rightarrow> bool" where
  "sg_memory q M \<longleftrightarrow> (\<exists>E f bs xs. sg_repr M sg_used q E f bs None xs)"

lemma memory_inv: "sg_memory q M \<Longrightarrow> sg_inv q"
  unfolding sg_memory_def sg_inv_def by blast

lemma repr_memory: "sg_repr M sg_used q E f bs None xs \<Longrightarrow> sg_memory q M \<and> sg_content q = xs"
  using repr_content [of M sg_used q E f bs None xs] unfolding sg_memory_def by blast

lemma memory_new: "mem \<le> sg_limit \<Longrightarrow> sg_memory (sg_new mem) mem" "mem \<le> sg_limit \<Longrightarrow> sg_content (sg_new mem) = []"
  using repr_memory [OF repr_new] by blast+

lemma blocks_used:
  assumes "sg_repr M c q E f bs None xs"
  shows "length bs \<le> length xs div 31 + 2" "sg_mem q = M - length bs"
proof -
  have "(E + length xs) div 31 \<le> E div 31 + length xs div 31 + 1"
  proof -
    have "E + length xs = 31 * (E div 31 + length xs div 31) + (E mod 31 + length xs mod 31)" by simp
    moreover have "E mod 31 + length xs mod 31 < 62" using mod_less_divisor [of 31 E] mod_less_divisor [of 31 "length xs"] by linarith
    ultimately show ?thesis by linarith
  qed
  with assms show "length bs \<le> length xs div 31 + 2" by (auto simp: sg_repr_def sg_ends_def split: if_splits)
  show "sg_mem q = M - length bs" using assms by (auto simp: sg_repr_def sg_heap_ok_def)
qed

lemma memory_push:
  assumes "sg_memory q M" "length script < fuel"
  shows "safe (sg_push fuel script q x) (\<lambda>q'. sg_memory q' M \<and> sg_content q' = sg_content q @ [x])"
    "length (sg_content q) div 31 + 2 < M \<Longrightarrow> sg_push fuel script q x \<noteq> Spin"
proof -
  from assms(1) obtain E f bs xs where r: "sg_repr M sg_used q E f bs None xs" by (auto simp: sg_memory_def)
  note c = repr_content [OF r]
  from repr_push_loop [OF r _ assms(2), of x]
  have p: "(\<exists>q' bs'. sg_push fuel script q x = Done q' \<and> sg_repr M sg_used q' E f bs' None (xs @ [x])) \<or>
    sg_push fuel script q x = Spin \<and> sg_mem q = 0" by (auto simp: sg_push_def)
  then show "safe (sg_push fuel script q x) (\<lambda>q'. sg_memory q' M \<and> sg_content q' = sg_content q @ [x])"
    using c by (auto dest: repr_memory)
  assume "length (sg_content q) div 31 + 2 < M"
  with blocks_used [OF r] c have "sg_mem q \<noteq> 0" by auto
  with p show "sg_push fuel script q x \<noteq> Spin" by auto
qed

lemma memory_pop:
  assumes "sg_memory q M" "length script < fuel"
  shows "\<exists>q' v. sg_pop final fuel script q = Done (q', v) \<and> sg_memory q' M \<and>
    spec_step c (sg_content q) Pop = (sg_content q', Popped v)"
proof -
  from assms(1) obtain E f bs xs where r: "sg_repr M sg_used q E f bs None xs" by (auto simp: sg_memory_def)
  from repr_pop [OF r assms(2), of final] repr_content [OF r] r show ?thesis
    by (cases xs) (auto dest: repr_memory)
qed

text \<open>Both kinds of pop, and reading through a token, are the same.\<close>

lemma repr_pop_slot:
  assumes "sg_repr M c q E f bs box xs" "length script < fuel"
  shows "sg_pop_slot final fuel script q = sg_pop_loop fuel script q (sg_head_index q) (sg_head_block q)"
  using repr_pop_loop [OF assms] repr_empty_eq [OF assms(1)] by (simp add: sg_pop_slot_def)

lemma pop_final_eq: "sg_inv q \<Longrightarrow> length script < fuel \<Longrightarrow> sg_pop final fuel script q = sg_pop False fuel script q"
  by (auto simp: sg_pop_def repr_pop_slot elim!: inv_repr)

lemma pop_eq_start_read:
  assumes "sg_inv q" "length script < fuel"
  shows "exec_bind (sg_start_read fuel script q) (\<lambda>(q', t).
      case t of
        Some tok \<Rightarrow> if tok_pos tok = None then Fault Panic else exec_map (map_prod id Some) (sg_read q' tok)
      | None \<Rightarrow> Done (q', None)) = sg_pop False fuel script q"
proof -
  from assms(1) obtain M E f bs where r: "sg_repr M sg_used q E f bs None (sg_content q)" by (rule inv_repr)
  have "unat (of_nat (E mod 31) :: usize) = E mod 31"
    using mod_less_divisor [of 31 E] by (simp add: unat_of_nat)
  then show ?thesis
    by (simp add: sg_pop_def sg_start_read_def sg_read_def token_new_def repr_pop_slot [OF r assms(2)]
        repr_pop_loop [OF r assms(2)] split: list.split)
qed

text \<open>Dropping the queue, and consuming it with an iterator first.\<close>

lemma memory_drop:
  assumes "sg_memory q M" "2 * length (sg_content q) < fuel"
  shows "\<exists>q'. sg_drop fuel q = Done (q', sg_content q) \<and> sg_heap q' = (\<lambda>_. None) \<and> sg_mem q' = M"
proof -
  from assms(1) obtain E f bs xs where r: "sg_repr M sg_used q E f bs None xs" by (auto simp: sg_memory_def)
  from shape_drop [OF repr_shape [OF r], of fuel] assms(2) repr_content [OF r] r show ?thesis
    by (auto simp: sg_repr_def sg_heap_ok_def)
qed

lemma memory_iterate:
  assumes "sg_memory q M" "length (sg_content q) < fuel"
  shows "\<exists>q1 q2. sg_iterate fuel q = Done (q1, sg_content q) \<and> sg_drop 1 q1 = Done (q2, []) \<and>
    sg_heap q2 = (\<lambda>_. None) \<and> sg_mem q2 = M"
proof -
  from assms(1) obtain E f bs xs where r: "sg_repr M sg_used q E f bs None xs" by (auto simp: sg_memory_def)
  from shape_iterate [OF repr_shape [OF r], of fuel] assms(2) repr_content [OF r]
  obtain q1 c' E' bs' where q1: "sg_iterate fuel q = Done (q1, xs)" "sg_shape M c' q1 E' bs' []"
    "sg_mem q1 + length bs' = sg_mem q + length bs" by auto
  have "sg_mem q + length bs = M" using r by (auto simp: sg_repr_def sg_heap_ok_def)
  with shape_drop [OF q1(2), of 1] q1 repr_content [OF r] show ?thesis by auto
qed

end
