(* ===== verification/Seg_Destroy.thy ===== *)
theory Seg_Destroy
  imports Seg_Queue
begin

unbundle bit_operations_syntax

text \<open>
  Releasing a block of the unbounded queue while its readers run. The 31 slots of a block are claimed by different
  readers, which read them in any order and at any pace; \<^verbatim>\<open>_read\<close> and \<^verbatim>\<open>Block::destroy\<close> of
  \<^verbatim>\<open>src/src/crossbeam/seg_queue.rs\<close> decide among themselves, with the bits \<^verbatim>\<open>READ\<close> and \<^verbatim>\<open>DESTROY\<close> of the slots, who
  releases the block. Besides the slots a block holds the pointer to its successor: the writer of the last slot stores it before it writes the slot,
  the reader of the last slot waits for it before it reads the slot, and the reader that moves the head to this block looks at it before any
  slot of the block can be claimed. Here each access to the block is one step, and a schedule says whose step is next.
\<close>

section \<open>One block, its readers and its writers\<close>

text \<open>
  Where the reader of a slot is: it waits for the next block (the last slot's reader); it waits for the value; it has moved the value out; inside \<^verbatim>\<open>destroy\<close> it is about to
  load the state of slot \<open>k\<close>, or, having seen it unread, to mark it; it is done. The last slot's reader starts \<^verbatim>\<open>destroy\<close>.
\<close>

datatype sd_pc = SNext | SWait | SValue | SLoad nat | SMark nat | SDone

text \<open>Where the writer of a slot is: it will store the next block (the last slot's writer), store the value, set the bit; it is done.\<close>

datatype sd_wpc = WNext | WStore | WFlag | WDone

text \<open>\<open>sd_next\<close>: the next block is installed; \<open>sd_open\<close>: the head has been moved to this block, so that its slots can be claimed.\<close>

record sd_block =
  sd_state :: "nat \<Rightarrow> usize"
  sd_pc :: "nat \<Rightarrow> sd_pc"
  sd_wpc :: "nat \<Rightarrow> sd_wpc"
  sd_next :: bool
  sd_open :: bool
  sd_freed :: bool

text \<open>The first block of a queue is open from the start.\<close>

definition sd_init :: "bool \<Rightarrow> sd_block" where
  "sd_init first =
     \<lparr>sd_state = (\<lambda>_. 0), sd_pc = (\<lambda>i. if i + 1 = BLOCK_CAP then SNext else SWait),
      sd_wpc = (\<lambda>i. if i + 1 = BLOCK_CAP then WNext else WStore), sd_next = False, sd_open = first, sd_freed = False\<rparr>"

definition sd_goto :: "nat \<Rightarrow> sd_pc \<Rightarrow> sd_block \<Rightarrow> sd_block" where
  "sd_goto i p s = s\<lparr>sd_pc := (sd_pc s)(i := p)\<rparr>"

definition sd_fetch_or :: "nat \<Rightarrow> usize \<Rightarrow> sd_block \<Rightarrow> sd_block" where
  "sd_fetch_or k w s = s\<lparr>sd_state := (sd_state s)(k := sd_state s k OR w)\<rparr>"

text \<open>A step of the reader of slot \<open>i\<close>, once the slot can be claimed; every step but the last state's touches the block.\<close>

definition sd_read :: "nat \<Rightarrow> sd_block \<Rightarrow> sd_block exec" where
  "sd_read i s =
     (case sd_pc s i of
        SDone \<Rightarrow> Done s
      | p \<Rightarrow>
        if \<not> sd_open s then Done s
        else if sd_freed s then Fault UseAfterFree
        else Done (case p of
            SNext \<Rightarrow> if sd_next s then sd_goto i SWait s else s
          | SWait \<Rightarrow> if sd_state s i AND WRITE = 0 then s else sd_goto i SValue s
          | SValue \<Rightarrow>
              if i + 1 = BLOCK_CAP then sd_goto i (SLoad 0) s
              else sd_goto i (if sd_state s i AND DESTROY \<noteq> 0 then SLoad (i + 1) else SDone) (sd_fetch_or i READ s)
          | SLoad k \<Rightarrow>
              if k < BLOCK_CAP - 1
              then sd_goto i (if sd_state s k AND READ = 0 then SMark k else SLoad (k + 1)) s
              else sd_goto i SDone (s\<lparr>sd_freed := True\<rparr>)
          | SMark k \<Rightarrow> sd_goto i (if sd_state s k AND READ = 0 then SDone else SLoad (k + 1)) (sd_fetch_or k DESTROY s)
          | SDone \<Rightarrow> s))"

text \<open>A step of the writer of slot \<open>i\<close>.\<close>

definition sd_write :: "nat \<Rightarrow> sd_block \<Rightarrow> sd_block exec" where
  "sd_write i s =
     (case sd_wpc s i of
        WDone \<Rightarrow> Done s
      | p \<Rightarrow>
        if sd_freed s then Fault UseAfterFree
        else Done (case p of
            WNext \<Rightarrow> s\<lparr>sd_next := True, sd_wpc := (sd_wpc s)(i := WStore)\<rparr>
          | WStore \<Rightarrow> s\<lparr>sd_wpc := (sd_wpc s)(i := WFlag)\<rparr>
          | WFlag \<Rightarrow> sd_fetch_or i WRITE (s\<lparr>sd_wpc := (sd_wpc s)(i := WDone)\<rparr>)
          | WDone \<Rightarrow> s))"

text \<open>The reader of the previous block's last slot looks at the pointer of this block and then moves the head here.\<close>

definition sd_enter :: "sd_block \<Rightarrow> sd_block exec" where
  "sd_enter s = (if sd_open s then Done s else if sd_freed s then Fault UseAfterFree else Done (s\<lparr>sd_open := True\<rparr>))"

datatype sd_turn = Reader nat | Writer nat | Enter

fun sd_step :: "sd_turn \<Rightarrow> sd_block \<Rightarrow> sd_block exec" where
  "sd_step (Reader i) s = (if i < BLOCK_CAP then sd_read i s else Done s)"
| "sd_step (Writer i) s = (if i < BLOCK_CAP then sd_write i s else Done s)"
| "sd_step Enter s = sd_enter s"

fun sd_run :: "sd_turn list \<Rightarrow> sd_block \<Rightarrow> sd_block exec" where
  "sd_run [] s = Done s"
| "sd_run (t # sched) s = exec_bind (sd_step t s) (sd_run sched)"

section \<open>The invariant\<close>

text \<open>Whether a thread is inside \<^verbatim>\<open>destroy\<close>, and at which slot.\<close>

fun sd_at :: "sd_pc \<Rightarrow> nat option" where
  "sd_at (SLoad k) = Some k"
| "sd_at (SMark k) = Some k"
| "sd_at _ = None"

definition sd_is_read :: "sd_block \<Rightarrow> nat \<Rightarrow> bool" where
  "sd_is_read s k \<longleftrightarrow> sd_state s k AND 2 \<noteq> 0"

definition sd_marked :: "sd_block \<Rightarrow> nat \<Rightarrow> bool" where
  "sd_marked s k \<longleftrightarrow> sd_state s k AND 4 \<noteq> 0"

text \<open>The duty to release the block is with nobody yet, with a thread, parked at a slot, or done.\<close>

datatype sd_duty = Unclaimed | Held nat nat | Parked nat | Released

fun sd_duty_ok :: "sd_block \<Rightarrow> sd_duty \<Rightarrow> bool" where
  "sd_duty_ok s Unclaimed \<longleftrightarrow> sd_pc s 30 \<in> {SNext, SWait, SValue} \<and> \<not> sd_freed s \<and>
     (\<forall>j < 31. sd_at (sd_pc s j) = None) \<and> (\<forall>k < 30. \<not> sd_marked s k)"
| "sd_duty_ok s (Held j k) \<longleftrightarrow> j < 31 \<and> k \<le> 30 \<and> sd_at (sd_pc s j) = Some k \<and> (\<forall>i < 31. i \<noteq> j \<longrightarrow> sd_at (sd_pc s i) = None) \<and>
     (sd_pc s j = SMark k \<longrightarrow> k < 30) \<and> sd_pc s 30 \<notin> {SNext, SWait, SValue} \<and> \<not> sd_freed s \<and>
     (\<forall>i < k. sd_is_read s i) \<and> (\<forall>i < 30. sd_marked s i \<longrightarrow> sd_is_read s i)"
| "sd_duty_ok s (Parked k) \<longleftrightarrow> k < 30 \<and> (\<forall>i < 31. sd_at (sd_pc s i) = None) \<and> sd_pc s 30 \<notin> {SNext, SWait, SValue} \<and> \<not> sd_freed s \<and>
     (\<forall>i < k. sd_is_read s i) \<and> \<not> sd_is_read s k \<and> sd_marked s k \<and> (\<forall>i < 30. i \<noteq> k \<and> sd_marked s i \<longrightarrow> sd_is_read s i)"
| "sd_duty_ok s Released \<longleftrightarrow> sd_freed s \<and> (\<forall>i < 31. sd_at (sd_pc s i) = None) \<and> sd_pc s 30 \<notin> {SNext, SWait, SValue} \<and>
     (\<forall>i < 30. sd_is_read s i)"

definition sd_inv :: "sd_block \<Rightarrow> bool" where
  "sd_inv s \<longleftrightarrow> (\<forall>i < 30. sd_is_read s i \<longleftrightarrow> sd_pc s i \<notin> {SNext, SWait, SValue}) \<and>
     (\<forall>i < 31. sd_pc s i \<notin> {SNext, SWait} \<longrightarrow> sd_state s i AND 1 \<noteq> 0) \<and> (\<exists>d. sd_duty_ok s d)"

text \<open>The written bit says that the writer is done.\<close>

definition sd_written :: "sd_block \<Rightarrow> bool" where
  "sd_written s \<longleftrightarrow> (\<forall>i < 31. sd_state s i AND 1 \<noteq> 0 \<longrightarrow> sd_wpc s i = WDone) \<and> (sd_freed s \<longrightarrow> sd_open s)"

lemma sd_bits [simp]:
  "(w OR 2) AND 4 = (w AND 4 :: usize)" "(w OR 4) AND 2 = (w AND 2 :: usize)" "(w OR 1) AND 2 = (w AND 2 :: usize)"
  "(w OR 1) AND 4 = (w AND 4 :: usize)"
  "(w OR 2) AND 2 \<noteq> (0 :: usize)" "(w OR 4) AND 4 \<noteq> (0 :: usize)" 
  "(w OR 1) AND 1 \<noteq> (0 :: usize)" "w AND 1 \<noteq> 0 \<Longrightarrow> (w OR x) AND 1 \<noteq> (0 :: usize)"
  by (simp_all add: bit.conj_disj_distrib2 or_eq_0_iff)

lemma sd_inv_init: "sd_inv (sd_init first)" "sd_written (sd_init first)"
proof -
  have "sd_duty_ok (sd_init first) Unclaimed" by (simp add: sd_init_def sd_marked_def)
  then have "\<exists>d. sd_duty_ok (sd_init first) d" ..
  then show "sd_inv (sd_init first)" unfolding sd_inv_def by (simp add: sd_init_def sd_is_read_def)
  show "sd_written (sd_init first)" by (simp add: sd_written_def sd_init_def)
qed

lemma sd_goto_sel [simp]:
  "sd_state (sd_goto i p s) = sd_state s" "sd_freed (sd_goto i p s) = sd_freed s" "sd_pc (sd_goto i p s) = (sd_pc s)(i := p)"
  "sd_state (sd_fetch_or k w s) = (sd_state s)(k := sd_state s k OR w)" "sd_freed (sd_fetch_or k w s) = sd_freed s"
  "sd_pc (sd_fetch_or k w s) = sd_pc s"
  "sd_wpc (sd_goto i p s) = sd_wpc s" "sd_wpc (sd_fetch_or k w s) = sd_wpc s" "sd_open (sd_goto i p s) = sd_open s" "sd_open (sd_fetch_or k w s) = sd_open s"
  by (simp_all add: sd_goto_def sd_fetch_or_def)

lemma sd_flags [simp]:
  "sd_is_read (sd_goto i p s) = sd_is_read s" "sd_marked (sd_goto i p s) = sd_marked s"
  "sd_is_read (s\<lparr>sd_freed := b\<rparr>) = sd_is_read s" "sd_marked (s\<lparr>sd_freed := b\<rparr>) = sd_marked s"
  "sd_is_read (s\<lparr>sd_open := b\<rparr>) = sd_is_read s" "sd_marked (s\<lparr>sd_open := b\<rparr>) = sd_marked s"
  "sd_is_read (s\<lparr>sd_next := b\<rparr>) = sd_is_read s" "sd_marked (s\<lparr>sd_next := b\<rparr>) = sd_marked s"
  "sd_is_read (s\<lparr>sd_wpc := ps\<rparr>) = sd_is_read s" "sd_marked (s\<lparr>sd_wpc := ps\<rparr>) = sd_marked s"
  "sd_is_read (sd_fetch_or k 2 s) j \<longleftrightarrow> j = k \<or> sd_is_read s j" "sd_marked (sd_fetch_or k 2 s) = sd_marked s"
  "sd_marked (sd_fetch_or k 4 s) j \<longleftrightarrow> j = k \<or> sd_marked s j" "sd_is_read (sd_fetch_or k 4 s) = sd_is_read s"
  "sd_is_read (sd_fetch_or k 1 s) = sd_is_read s" "sd_marked (sd_fetch_or k 1 s) = sd_marked s"
  by (auto simp: sd_is_read_def sd_marked_def fun_eq_iff)

lemma sd_freed_done:
  assumes "sd_inv s" "sd_freed s" "i < 31"
  shows "sd_pc s i = SDone"
proof -
  from assms(1) obtain d where "sd_duty_ok s d" unfolding sd_inv_def by blast
  with assms(2) have d: "sd_duty_ok s Released" by (cases d) auto
  have "i < 30 \<or> i = 30" using assms(3) by linarith
  with d assms(1) have "sd_pc s i \<notin> {SNext, SWait, SValue}" by (auto simp: sd_inv_def)
  with d assms(3) show ?thesis by (cases "sd_pc s i") auto
qed

lemma sd_done_freed:
  assumes "sd_inv s" "\<forall>i < 31. sd_pc s i = SDone"
  shows "sd_freed s"
proof -
  from assms(1) obtain d where "sd_duty_ok s d" unfolding sd_inv_def by blast
  with assms show ?thesis by (cases d) (auto simp: sd_inv_def)
qed

lemma sd_duty_irrelevant [simp]:
  "sd_duty_ok (s\<lparr>sd_open := b\<rparr>) d = sd_duty_ok s d" "sd_duty_ok (s\<lparr>sd_next := b\<rparr>) d = sd_duty_ok s d"
  "sd_duty_ok (s\<lparr>sd_wpc := ps\<rparr>) d = sd_duty_ok s d"
  by (cases d; simp)+

lemma sd_inv_irrelevant [simp]:
  "sd_inv (s\<lparr>sd_open := b\<rparr>) = sd_inv s" "sd_inv (s\<lparr>sd_next := b\<rparr>) = sd_inv s" "sd_inv (s\<lparr>sd_wpc := ps\<rparr>) = sd_inv s"
  by (simp_all add: sd_inv_def)

lemma sd_fetch_write_inv:
  assumes "sd_inv s" "i < 31"
  shows "sd_inv (sd_fetch_or i 1 s)"
proof -
  from assms(1) obtain d where d: "sd_duty_ok s d" unfolding sd_inv_def by blast
  then have "sd_duty_ok (sd_fetch_or i 1 s) d" by (cases d) simp_all
  with assms show ?thesis unfolding sd_inv_def by auto
qed

lemma sd_write_inv:
  assumes "sd_inv s" "sd_written s" "i < 31"
  shows "\<exists>s'. sd_write i s = Done s' \<and> sd_inv s' \<and> sd_written s'"
proof (cases "sd_wpc s i = WDone")
  case True
  with assms show ?thesis by (simp add: sd_write_def)
next
  case False
  then have "sd_state s i AND 1 = 0" using assms(2,3) by (auto simp: sd_written_def)
  then have "sd_pc s i \<noteq> SDone" using assms(1,3) by (auto simp: sd_inv_def)
  then have nf: "\<not> sd_freed s" using sd_freed_done [OF assms(1) _ assms(3)] by auto
  have "sd_inv (sd_fetch_or i 1 (s\<lparr>sd_wpc := (sd_wpc s)(i := WDone)\<rparr>))"
    using assms(1,3) by (intro sd_fetch_write_inv) simp_all
  with False nf assms show ?thesis
    by (cases "sd_wpc s i") (auto simp: sd_write_def sd_written_def)
qed

text \<open>A step of a reader that leaves the written bits alone keeps the invariant if it keeps its three parts.\<close>

lemma sd_invI:
  assumes "sd_inv s" "sd_duty_ok s' d" "\<And>j. sd_state s j AND 1 \<noteq> 0 \<Longrightarrow> sd_state s' j AND 1 \<noteq> 0"
    and "\<And>j. j \<noteq> i \<Longrightarrow> sd_pc s' j = sd_pc s j" "\<And>j. j \<noteq> i \<Longrightarrow> sd_is_read s' j = sd_is_read s j"
    and "i < 30 \<Longrightarrow> sd_is_read s' i \<longleftrightarrow> sd_pc s' i \<notin> {SNext, SWait, SValue}"
    and "sd_pc s' i \<notin> {SNext, SWait} \<Longrightarrow> sd_state s i AND 1 \<noteq> 0"
  shows "sd_inv s'"
proof -
  have "sd_is_read s' j \<longleftrightarrow> sd_pc s' j \<notin> {SNext, SWait, SValue}" if "j < 30" for j
    using that assms(1,4,5,6) by (cases "j = i") (auto simp: sd_inv_def)
  moreover have "sd_state s' j AND 1 \<noteq> 0" if "j < 31" "sd_pc s' j \<notin> {SNext, SWait}" for j
    using that assms(1,3,4,7) by (cases "j = i") (auto simp: sd_inv_def)
  ultimately show ?thesis using assms(2) unfolding sd_inv_def by blast
qed

lemma sd_read_value:
  assumes "sd_inv s" "i < 31" "sd_pc s i = SValue" "\<not> sd_freed s" "sd_open s"
  shows "\<exists>s'. sd_read i s = Done s' \<and> sd_inv s'"
proof -
  from assms(1) obtain d where d: "sd_duty_ok s d" unfolding sd_inv_def by blast
  have w: "sd_state s i AND 1 \<noteq> 0" using assms(1-3) by (auto simp: sd_inv_def)
  show ?thesis
  proof (cases "i = 30")
    case True
    then have "sd_duty_ok s Unclaimed" using d assms by (cases d) auto
    then have "sd_duty_ok (sd_goto 30 (SLoad 0) s) (Held 30 0)" by auto
    from sd_invI [OF assms(1) this, of 30] w True assms(3-5) show ?thesis by (simp add: sd_read_def)
  next
    case False
    then have i: "i < 30" using assms(2) by simp
    have unread: "\<not> sd_is_read s i" using assms(1,3) i by (auto simp: sd_inv_def)
    let ?s = "sd_goto i (if sd_marked s i then SLoad (i + 1) else SDone) (sd_fetch_or i 2 s)"
    have "\<exists>d'. sd_duty_ok ?s d'"
    proof (cases "sd_marked s i")
      case True
      then have k: "d = Parked i" using d unread i by (cases d) auto
      have "sd_duty_ok ?s (Held i (i + 1))" using d k i True by (auto simp: less_Suc_eq)
      then show ?thesis ..
    next
      case False
      have "sd_duty_ok ?s d" using d False i assms(3) by (cases d) auto
      then show ?thesis ..
    qed
    then obtain d' where "sd_duty_ok ?s d'" ..
    then have "sd_inv ?s" by (rule sd_invI [OF assms(1), of _ _ i]) (use w i in auto)
    moreover have "sd_read i s = Done ?s" using assms(3-5) i by (simp add: sd_read_def sd_marked_def)
    ultimately show ?thesis by blast
  qed
qed

lemma sd_read_destroy:
  assumes "sd_inv s" "i < 31" "sd_at (sd_pc s i) = Some k" "\<not> sd_freed s" "sd_open s"
  shows "\<exists>s'. sd_read i s = Done s' \<and> sd_inv s'"
proof -
  from assms(1) obtain d where d: "sd_duty_ok s d" unfolding sd_inv_def by blast
  have "d = Held i k"
  proof (cases d)
    case (Held j l)
    then have "j = i" using d assms(2,3) by (metis option.simps(3) sd_duty_ok.simps(2))
    with Held d assms(3) show ?thesis by simp
  qed (use d assms in auto)
  with d have k: "sd_duty_ok s (Held i k)" by simp
  have w: "sd_state s i AND 1 \<noteq> 0" "i < 30 \<longrightarrow> sd_is_read s i" using assms(1-3) by (auto simp: sd_inv_def)
  show ?thesis
  proof (cases "sd_pc s i = SMark k")
    case True
    let ?s = "sd_goto i (if sd_is_read s k then SLoad (k + 1) else SDone) (sd_fetch_or k 4 s)"
    have "sd_duty_ok ?s (if sd_is_read s k then Held i (k + 1) else Parked k)"
      using k True by (auto simp: less_Suc_eq)
    then have "sd_inv ?s" by (rule sd_invI [OF assms(1), of _ _ i]) (use w in auto)
    moreover have "sd_read i s = Done ?s" using assms(4,5) True by (simp add: sd_read_def sd_is_read_def)
    ultimately show ?thesis by blast
  next
    case False
    then have p: "sd_pc s i = SLoad k" using assms(3) by (cases "sd_pc s i") auto
    let ?t = "sd_goto i (if sd_is_read s k then SLoad (k + 1) else SMark k) s"
    let ?s = "if k < 30 then ?t else sd_goto i SDone (s\<lparr>sd_freed := True\<rparr>)"
    have "sd_duty_ok ?s (if k < 30 then Held i (if sd_is_read s k then k + 1 else k) else Released)"
      using k by (auto simp: less_Suc_eq)
    then have "sd_inv ?s" by (rule sd_invI [OF assms(1), of _ _ i]) (use w in auto)
    moreover have "sd_read i s = Done ?s" using assms(4,5) p by (simp add: sd_read_def sd_is_read_def)
    ultimately show ?thesis by blast
  qed
qed

lemma sd_read_wait:
  assumes "sd_inv s" "i < 31" "sd_pc s i = SWait" "\<not> sd_freed s" "sd_open s"
  shows "\<exists>s'. sd_read i s = Done s' \<and> sd_inv s'"
proof (cases "sd_state s i AND 1 = 0")
  case True
  with assms show ?thesis by (simp add: sd_read_def)
next
  case False
  from assms(1) obtain d where d: "sd_duty_ok s d" unfolding sd_inv_def by blast
  have "i < 30 \<longrightarrow> \<not> sd_is_read s i" using assms(1,3) by (auto simp: sd_inv_def)
  moreover have "sd_duty_ok (sd_goto i SValue s) d" using d assms(3) by (cases d) auto
  ultimately have "sd_inv (sd_goto i SValue s)" using False by (intro sd_invI [OF assms(1), of _ _ i]) auto
  then show ?thesis using False assms by (simp add: sd_read_def)
qed

lemma sd_read_next:
  assumes "sd_inv s" "i < 31" "sd_pc s i = SNext" "\<not> sd_freed s" "sd_open s"
  shows "\<exists>s'. sd_read i s = Done s' \<and> sd_inv s'"
proof -
  from assms(1) obtain d where d: "sd_duty_ok s d" unfolding sd_inv_def by blast
  have "i < 30 \<longrightarrow> \<not> sd_is_read s i" using assms(1,3) by (auto simp: sd_inv_def)
  moreover have "sd_duty_ok (sd_goto i SWait s) d" using d assms(3) by (cases d) auto
  ultimately have "sd_inv (sd_goto i SWait s)" by (intro sd_invI [OF assms(1), of _ _ i]) auto
  then show ?thesis using assms by (simp add: sd_read_def)
qed

text \<open>A reader leaves the written bits and the writers alone.\<close>

lemma sd_fetch_or_written: "w AND 1 = 0 \<Longrightarrow> (sd_state s k OR w) AND 1 = sd_state s k AND 1" for w :: usize
  by (simp add: bit.conj_disj_distrib2)

lemma sd_read_written:
  assumes "sd_written s" "sd_read i s = Done s'"
  shows "sd_written s'"
proof -
  have "sd_wpc s' = sd_wpc s" "sd_open s' = sd_open s" "sd_freed s' \<longrightarrow> sd_freed s \<or> sd_open s"
      "\<forall>j. sd_state s' j AND 1 = sd_state s j AND 1"
    using assms(2) by (auto simp: sd_read_def sd_fetch_or_written split: sd_pc.splits if_splits)
  with assms(1) show ?thesis by (auto simp: sd_written_def)
qed

lemma sd_read_inv:
  assumes "sd_inv s" "i < 31"
  shows "\<exists>s'. sd_read i s = Done s' \<and> sd_inv s'"
proof (cases "sd_pc s i = SDone \<or> \<not> sd_open s")
  case True
  with assms show ?thesis by (cases "sd_pc s i") (auto simp: sd_read_def)
next
  case False
  then have "\<not> sd_freed s" using sd_freed_done [OF assms(1) _ assms(2)] by auto
  with False assms sd_read_next sd_read_wait sd_read_value sd_read_destroy show ?thesis
    by (cases "sd_pc s i") fastforce+
qed

section \<open>Properties\<close>

lemma sd_step_inv:
  assumes "sd_inv s" "sd_written s"
  shows "\<exists>s'. sd_step t s = Done s' \<and> sd_inv s' \<and> sd_written s'"
proof (cases t)
  case (Reader i)
  then show ?thesis using assms sd_read_inv [OF assms(1), of i] sd_read_written [OF assms(2), of i] by auto
next
  case (Writer i)
  then show ?thesis using assms sd_write_inv [OF assms, of i] by auto
next
  case Enter
  then show ?thesis using assms by (auto simp: sd_enter_def sd_written_def)
qed

lemma sd_run_inv: "sd_inv s \<Longrightarrow> sd_written s \<Longrightarrow> \<exists>s'. sd_run sched s = Done s' \<and> sd_inv s'"
proof (induction sched arbitrary: s)
  case (Cons t sched)
  with sd_step_inv [OF Cons.prems, of t] show ?case by auto
qed simp

text \<open>
  C15. A block of the unbounded queue is released exactly once and never too early. Under every interleaving of
  the steps of the readers and the writers of its 31 slots, down to single accesses to the slot states, the values and the pointer to the next block,
  no thread touches the block after it was released, and at every moment the block is released if and only if all
  its readers are done with it.
\<close>

theorem block_released_once:
  "\<exists>s. sd_run sched (sd_init first) = Done s \<and> (sd_freed s \<longleftrightarrow> list_all (\<lambda>i. sd_pc s i = SDone) [0..<BLOCK_CAP])"
proof -
  obtain s where s: "sd_run sched (sd_init first) = Done s" "sd_inv s"
    using sd_run_inv [OF sd_inv_init, of sched] by blast
  then have "sd_freed s \<longleftrightarrow> (\<forall>i < 31. sd_pc s i = SDone)"
    using sd_freed_done sd_done_freed by blast
  then show ?thesis using s(1) by (simp add: list_all_iff Ball_def del: upt_conv_Cons upt_rec_numeral)
qed

end
