(* ===== verification/List_Flavor.thy ===== *)
theory List_Flavor
  imports Seg_Refine Flavor
begin

text \<open>
  The unbounded flavor \<^verbatim>\<open>List\<close>, \<^verbatim>\<open>src/src/flavor/list.rs\<close>, on the segmented queue. It is lawful in the sense the
  channels rely on, with a push that returns as long as the allocator has a block left.
\<close>

section \<open>The flavor\<close>

definition list_push :: "bool list \<Rightarrow> 'a seg_queue \<Rightarrow> 'a \<Rightarrow> ('a seg_queue \<times> ('a + unit)) exec" where
  "list_push s q item = exec_map (\<lambda>q'. (q', Inr ())) (sg_push (Suc (length s)) s q item)"

definition list_pop :: "bool list \<Rightarrow> 'a seg_queue \<Rightarrow> ('a seg_queue \<times> 'a option) exec" where
  "list_pop s q = sg_pop False (Suc (length s)) s q"

definition list_try_send :: "bool list \<Rightarrow> 'a seg_queue \<Rightarrow> 'a \<Rightarrow> ('a seg_queue \<times> bool) exec" where
  "list_try_send s q item = exec_map (\<lambda>q'. (q', True)) (sg_push (Suc (length s)) s q item)"

definition list_try_recv :: "bool list \<Rightarrow> 'a seg_queue \<Rightarrow> ('a seg_queue \<times> 'a option) exec" where
  "list_try_recv s q = sg_pop False (Suc (length s)) s q"

definition list_try_recv_final :: "bool list \<Rightarrow> 'a seg_queue \<Rightarrow> ('a seg_queue \<times> 'a option) exec" where
  "list_try_recv_final s q = sg_pop True (Suc (length s)) s q"

definition list_try_select :: "bool list \<Rightarrow> bool \<Rightarrow> 'a seg_queue \<Rightarrow> ('a seg_queue \<times> token option) exec" where
  "list_try_select s final_check q =
     (if final_check \<and> sg_is_empty q then Done (q, None) else sg_start_read (Suc (length s)) s q)"

definition list_read_with_token :: "'a seg_queue \<Rightarrow> token \<Rightarrow> ('a seg_queue \<times> 'a) exec" where
  "list_read_with_token q tok = sg_read q tok"

text \<open>The methods \<^verbatim>\<open>FlavorImpl\<close> provides by default.\<close>

definition default_try_send_oneshot :: "'q \<Rightarrow> 'a \<Rightarrow> ('q \<times> bool option) exec" where
  "default_try_send_oneshot q item = Fault Panic"

definition default_adjust_tx_backoff :: "u16 \<Rightarrow> backoff \<Rightarrow> backoff" where
  "default_adjust_tx_backoff lim b = b\<lparr>config := (config b)\<lparr>limit := lim\<rparr>\<rparr>"

definition list_flavor :: "bool list \<Rightarrow> ('a seg_queue, 'a) flavor" where
  "list_flavor s =
     \<lparr>fl_bounded = False,
      fl_push = list_push s,
      fl_pop = list_pop s,
      fl_len = sg_len, fl_capacity = (\<lambda>_. None),
      fl_is_full = (\<lambda>_. False), fl_is_empty = sg_is_empty,
      fl_try_send = list_try_send s,
      fl_try_send_oneshot = default_try_send_oneshot,
      fl_try_recv_cached = list_try_recv s,
      fl_try_recv = list_try_recv s,
      fl_try_recv_final = list_try_recv_final s,
      fl_backoff_limit = DEFAULT_LIMIT,
      fl_adjust_tx_backoff = (\<lambda>q b. Done (default_adjust_tx_backoff DEFAULT_LIMIT b)),
      fl_try_select = list_try_select s,
      fl_read_with_token = list_read_with_token\<rparr>"

section \<open>It is lawful\<close>

lemma list_flavor_simps:
  "fl_bounded (list_flavor s) = False" "fl_capacity (list_flavor s) = (\<lambda>_. None)" "fl_len (list_flavor s) = sg_len"
  "fl_is_full (list_flavor s) = (\<lambda>_. False)" "fl_is_empty (list_flavor s) = sg_is_empty"
  "fl_try_send (list_flavor s) = list_try_send s" "fl_try_recv (list_flavor s) = list_try_recv s"
  "fl_push (list_flavor s) = list_push s" "fl_pop (list_flavor s) = list_pop s"
  "fl_try_recv_final (list_flavor s) = list_try_recv_final s" "fl_try_recv_cached (list_flavor s) = list_try_recv s"
  "fl_try_send_oneshot (list_flavor s) = default_try_send_oneshot"
  "fl_adjust_tx_backoff (list_flavor s) q k = Done (default_adjust_tx_backoff DEFAULT_LIMIT k)"
  "fl_try_select (list_flavor s) = list_try_select s" "fl_read_with_token (list_flavor s) = list_read_with_token"
  by (simp_all add: list_flavor_def)

lemma inv_memory: "sg_inv q \<Longrightarrow> \<exists>M. sg_memory q M"
  unfolding sg_inv_def sg_memory_def by blast

interpretation segi: fifo_weak "\<lambda>_. None" "list_try_send s" "list_try_recv s" sg_inv sg_content sg_len sg_is_empty "\<lambda>_. False"
  for s :: "bool list"
proof (unfold_locales, goal_cases)
  case (1 q x)
  then obtain M where "sg_memory q M" using inv_memory by blast
  from memory_push(1) [OF this, of s "Suc (length s)" x] show ?case
    unfolding list_try_send_def safe_map by (rule safe_mono) (auto simp: has_room_def dest: memory_inv)
next
  case (3 q)
  then obtain M where "sg_memory q M" using inv_memory by blast
  from memory_pop [OF this, of s "Suc (length s)" False None] show ?case
    unfolding list_try_recv_def using memory_inv by blast
next
  case (4 q)
  from inv_repr [OF 4] show ?case by (metis repr_len)
next
  case (5 q)
  from inv_repr [OF 5] show ?case by (metis repr_is_empty)
qed (simp_all add: has_room_def)

interpretation listf: lawful_flavor "list_flavor s" sg_inv sg_content for s :: "bool list"
proof (rule lawful_flavor.intro, unfold list_flavor_simps, rule segi.fifo_weak_axioms,
    rule lawful_flavor_axioms.intro, unfold list_flavor_simps, goal_cases)
  case (2 q x)
  then show ?case by (simp add: list_push_def list_try_send_def hand_back_def exec_map_map)
next
  case (4 q)
  then show ?case unfolding list_try_recv_final_def list_try_recv_def by (rule pop_final_eq) simp
next
  case (6 q)
  from segi.pop_step [OF 6, of s] show ?case
    by (cases "sg_content q") (auto split: option.split)
next
  case (7 q final_check)
  then have "sg_is_empty q \<longleftrightarrow> sg_content q = []" by (rule segi.is_empty_content)
  moreover have "list_try_recv s q = Done (q, None)" if "sg_content q = []"
  proof -
    from 7 obtain M E f bs where "sg_repr M sg_used q E f bs None (sg_content q)" by (rule inv_repr)
    from repr_pop [OF this, of s "Suc (length s)" False] that show ?thesis by (simp add: list_try_recv_def)
  qed
  ultimately show ?case
    using pop_eq_start_read [OF 7, of s "Suc (length s)"]
    unfolding list_try_select_def list_read_with_token_def by (auto simp: list_try_recv_def)
next
  case (8 q b)
  then show ?case by (simp add: default_adjust_tx_backoff_def)
qed (simp_all add: list_pop_def list_try_recv_def)

section \<open>Properties\<close>

lemma run_memory:
  assumes "sg_memory q M" "length (sg_content q) + length ps \<le> N" "N div 31 + 2 < M"
  shows "\<exists>q' rs. run_ops (list_try_send s) (list_try_recv s) q ps = Done (q', rs)"
  using assms(1,2)
proof (induction ps arbitrary: q)
  case Nil
  then show ?case by simp
next
  case (Cons p ps)
  show ?case
  proof (cases p)
    case (Push x)
    have "length (sg_content q) div 31 \<le> N div 31" using Cons.prems(2) by (intro div_le_mono) simp
    then have "length (sg_content q) div 31 + 2 < M" using assms(3) by simp
    with memory_push [OF Cons.prems(1), of s "Suc (length s)" x] obtain q' where
      q': "sg_push (Suc (length s)) s q x = Done q'" "sg_memory q' M" "sg_content q' = sg_content q @ [x]"
      by (cases "sg_push (Suc (length s)) s q x") auto
    from Cons.IH [OF q'(2)] q' Cons.prems(2) Push show ?thesis
      by (force simp: list_try_send_def exec_map_Done_iff)
  next
    case Pop
    from memory_pop [OF Cons.prems(1), of s "Suc (length s)" False None] obtain q' v where
      q': "list_try_recv s q = Done (q', v)" "sg_memory q' M" "spec_step None (sg_content q) Pop = (sg_content q', Popped v)"
      by (auto simp: list_try_recv_def)
    then have "length (sg_content q') \<le> length (sg_content q)" by (auto split: list.splits)
    with Cons.IH [OF q'(2)] q'(1) Cons.prems(2) Pop show ?thesis by (force simp: exec_map_Done_iff)
  qed
qed

lemma run_keeps_memory:
  assumes "sg_memory q M" "run_ops (list_try_send s) (list_try_recv s) q ps = Done (q', rs)"
  shows "sg_memory q' M"
  using assms
proof (induction ps arbitrary: q rs)
  case (Cons p ps)
  show ?case
  proof (cases p)
    case (Push x)
    with Cons memory_push(1) [OF Cons.prems(1), of s "Suc (length s)" x] show ?thesis
      by (auto simp: list_try_send_def exec_map_Done_iff)
  next
    case Pop
    with Cons memory_pop [OF Cons.prems(1), of s "Suc (length s)" False None] show ?thesis
      by (auto simp: list_try_recv_def exec_map_Done_iff)
  qed
qed simp

text \<open>
  C27. The unbounded queue is a first-in first-out list. Whatever sequence of pushes and pops is run on a new queue,
  with any spurious failures of the compare-exchanges: no step reads an empty slot, follows a dangling pointer
  or overflows, every answer is the one of the list, and the length and the emptiness are exact afterwards.
  The run comes back as long as the allocator has more than \<open>n div 31 + 2\<close> blocks for \<open>n\<close> operations.
\<close>

theorem seg_run_refines:
  fixes ps :: "'a qop list"
  assumes "mem \<le> sg_limit"
  shows "safe (run_ops (list_try_send s) (list_try_recv s) (sg_new mem) ps)
      (\<lambda>(q, rs). spec_run None [] ps = (sg_content q, rs) \<and> sg_len q = length (sg_content q) \<and>
        (sg_is_empty q \<longleftrightarrow> sg_content q = [])) \<and>
    (length ps div 31 + 2 < mem \<longrightarrow> run_ops (list_try_send s) (list_try_recv s) (sg_new mem) ps \<noteq> Spin)"
proof (intro conjI impI)
  have new: "sg_memory (sg_new mem :: 'a seg_queue) mem" "sg_content (sg_new mem :: 'a seg_queue) = []"
    using memory_new [OF assms] by blast+
  from segi.run_safe [OF memory_inv [OF new(1)], of s ps] new(2)
  show "safe (run_ops (list_try_send s) (list_try_recv s) (sg_new mem) ps)
      (\<lambda>(q, rs). spec_run None [] ps = (sg_content q, rs) \<and> sg_len q = length (sg_content q) \<and>
        (sg_is_empty q \<longleftrightarrow> sg_content q = []))"
    by (auto elim!: safe_mono dest: segi.len_content segi.is_empty_content)
  assume "length ps div 31 + 2 < mem"
  with run_memory [OF new(1) _ this, of ps s] new(2)
  show "run_ops (list_try_send s) (list_try_recv s) (sg_new mem) ps \<noteq> Spin" by auto
qed

theorem seg_run_refines_witness:
  "run_ops (list_try_send [True, True]) (list_try_recv [True, True]) (sg_new 5) (map Push [0 ..< 40] @ replicate 35 Pop) \<noteq> Spin"
  using seg_run_refines [of 5 "[True, True]" "map Push [0 ..< 40] @ replicate 35 Pop"] by (simp add: sg_limit_def)

text \<open>
  C29. The unbounded queue leaks nothing. After any run that came back, dropping the queue runs the destructor of
  exactly the elements still in it, in order, and gives every block back to the allocator; consuming it with its
  iterator yields the same elements, and dropping what is left then gives every block back.
\<close>

theorem seg_memory_returned:
  assumes "mem \<le> sg_limit" "run_ops (list_try_send s) (list_try_recv s) (sg_new mem) ps = Done (q, rs)"
  shows "(\<exists>q'. sg_drop (2 * length (sg_content q) + 1) q = Done (q', sg_content q) \<and> sg_heap q' = (\<lambda>_. None) \<and> sg_mem q' = mem) \<and>
    (\<exists>q1 q2. sg_iterate (length (sg_content q) + 1) q = Done (q1, sg_content q) \<and> sg_drop 1 q1 = Done (q2, []) \<and>
      sg_heap q2 = (\<lambda>_. None) \<and> sg_mem q2 = mem)"
  using run_keeps_memory [OF memory_new(1) [OF assms(1)] assms(2)]
  by (intro conjI) (rule memory_drop memory_iterate, assumption, simp)+

theorem seg_memory_returned_witness:
  "\<exists>q rs q'. run_ops (list_try_send []) (list_try_recv []) (sg_new 5) [Push (1 :: nat), Push 2, Pop] = Done (q, rs) \<and>
    sg_drop (2 * length (sg_content q) + 1) q = Done (q', sg_content q) \<and> sg_mem q' = 5"
proof -
  have m: "(5 :: nat) \<le> sg_limit" by (simp add: sg_limit_def)
  obtain q rs where r: "run_ops (list_try_send []) (list_try_recv []) (sg_new 5) [Push (1 :: nat), Push 2, Pop] = Done (q, rs)"
    using run_memory [OF memory_new(1) [OF m], of "[Push (1 :: nat), Push 2, Pop]" 3 "[]"] memory_new(2) [OF m] by auto
  from seg_memory_returned [OF m r] r show ?thesis by blast
qed

end
