(* ===== verification/Unbounded.thy ===== *)
theory Unbounded
  imports List_Flavor Channel_Behaviour
begin

text \<open>
  Channels on the unbounded flavor, built from the segmented queue: the lemmas about channels hold of them through the
  interpretation of \<open>lawful_flavor\<close>; here is what only they promise, that a send never waits.
\<close>

section \<open>Properties\<close>

text \<open>
  A send into an unbounded channel never waits: with no fuel for waiting at all it comes back, whatever the
  other threads do, as long as the allocator has a block for a queue of that length; it fails exactly when no
  receiver was left at the call, handing the item back, and otherwise, undisturbed, appends the item.
\<close>

theorem unbounded_send_never_waits:
  assumes "sys_ok sg_inv ks kr T k s" "sg_memory (ch_inner (sy_chan (sched s))) M"
    and "length (sg_content (ch_inner (sy_chan (sched s)))) div 31 + 2 < M"
  shows "\<exists>s' r. tx_send (list_flavor script) 0 thread x s = Done (s', r) \<and>
    r = (if is_rx_closed s then Inl (SendError x) else Inr ()) \<and>
    (sy_env s = [] \<longrightarrow> sg_content (ch_inner (sy_chan s')) =
      sg_content (ch_inner (sy_chan s)) @ (if is_rx_closed s then [] else [x]))"
proof (cases "is_rx_closed s")
  case True
  then show ?thesis by (simp add: tx_send_def)
next
  case False
  note ok = sys_ok_sched [OF assms(1)]
  let ?q = "ch_inner (sy_chan (sched s))"
  from memory_push [OF assms(2), of script "Suc (length script)" x] assms(3) obtain q where
    q: "sg_push (Suc (length script)) script ?q x = Done q" "sg_memory q M" "sg_content q = sg_content ?q @ [x]"
    by (cases "sg_push (Suc (length script)) script ?q x") auto
  define s1 where "s1 = sched s\<lparr>sy_chan := (sy_chan (sched s))\<lparr>ch_inner := q\<rparr>\<rparr>"
  have "sys_ok sg_inv ks kr T k s1" unfolding s1_def using ok memory_inv [OF q(2)] by (rule sys_ok_inner)
  from fire_total(1) [OF sys_ok_sched [OF this]] obtain s2 where s2: "on_send (sched s1) = Done s2"
    by (auto simp: total_def)
  have "with_inner (\<lambda>q. fl_try_send (list_flavor script) q x) (sched s) = Done (s1, True)"
    by (simp add: with_inner_def q(1) s1_def list_flavor_simps list_try_send_def)
  moreover have "sy_env s = [] \<Longrightarrow> ch_inner (sy_chan s2) = q \<and> sched s = s"
    using fire_inner(1) [OF s2] by (simp add: sched_def s1_def)
  ultimately show ?thesis using False s2 q(3) by (auto simp: tx_send_def)
qed

theorem unbounded_send_never_waits_witness:
  "\<exists>s'. tx_send (list_flavor []) 0 7 (5 :: nat)
      (fresh_sys (list_flavor []) (detect_backoff_cfg (Some 8) backoff_globals_init) (sg_new 9) RegDummy (RegMulti multi_new) 0 []) =
    Done (s', Inr ()) \<and> sg_content (ch_inner (sy_chan s')) = [5]"
proof -
  let ?s = "fresh_sys (list_flavor []) (detect_backoff_cfg (Some 8) backoff_globals_init) (sg_new 9 :: nat seg_queue)
    RegDummy (RegMulti multi_new) 0 []"
  have new: "sg_memory (sg_new 9 :: nat seg_queue) 9" "sg_content (sg_new 9 :: nat seg_queue) = []"
    using memory_new [of 9] by (auto simp: sg_limit_def)
  from fresh_sys_ok [of sg_inv "sg_new 9 :: nat seg_queue" RegDummy "RegMulti multi_new" "[]" "{Blocking 7}"] memory_inv [OF new(1)]
  have "sys_ok sg_inv KDummy KMulti {Blocking 7} None ?s" by simp
  from unbounded_send_never_waits [OF this, of 9 "[]" 7 5] new show ?thesis
    by (auto simp: fresh_sys_def channel_new_def sched_def is_rx_closed_def)
qed

end
