(* ===== verification/Wait_Group.thy ===== *)
theory Wait_Group
  imports Waker Backoff
begin

unbundle bit_operations_syntax

text \<open>
  The wait groups of \<^verbatim>\<open>src/src/waitgroup.rs\<close>: a reference count, two waker flags and the duty to free the
  shared cell, packed into one atomic word. The group handle waits, for one thread or one task at a time, until
  the count falls to a threshold; any number of guards count down from any thread.

  The calls that loop or take a lock are cut at their accesses to the shared cell: a program counter names the
  next access, and a step does that access and everything local up to the following one. A turn of the schedule
  says who moves, which method an idle party calls, and what the environment decides at that step: that a weak
  compare-exchange fails, that \<^verbatim>\<open>will_wake\<close> recognises the waker, that a deadline has passed, that \<^verbatim>\<open>park\<close> returns without
  a wake-up. The cell is \<open>None\<close> once it is freed. A deadline is taken to be representable: \<^verbatim>\<open>wait_timeout\<close> computes it with
  \<^verbatim>\<open>Instant::now() + timeout\<close>, which panics before the cell is touched when it is not.
\<close>

section \<open>The state word\<close>

definition WAKER_FLAG_SET :: usize where "WAKER_FLAG_SET = push_bit 63 1"
definition WAKER_FLAG_LOCK :: usize where "WAKER_FLAG_LOCK = push_bit 62 1"
definition WAKER_FLAG_MASK :: usize where "WAKER_FLAG_MASK = WAKER_FLAG_SET OR WAKER_FLAG_LOCK"
definition COUNT_MASK :: usize where "COUNT_MASK = NOT WAKER_FLAG_MASK"

lemma flag_numerals [code]:
  "WAKER_FLAG_SET = 0x8000000000000000" "WAKER_FLAG_LOCK = 0x4000000000000000" "WAKER_FLAG_MASK = 0xC000000000000000"
  "COUNT_MASK = 0x3FFFFFFFFFFFFFFF"
  by (simp_all add: WAKER_FLAG_SET_def WAKER_FLAG_LOCK_def WAKER_FLAG_MASK_def COUNT_MASK_def push_bit_eq_mult)

definition st_count :: "usize \<Rightarrow> usize" where
  "st_count s = s AND COUNT_MASK"

definition st_waker_flag :: "usize \<Rightarrow> usize" where
  "st_waker_flag s = s AND WAKER_FLAG_MASK"

definition st_is_locked :: "usize \<Rightarrow> bool" where
  "st_is_locked s \<longleftrightarrow> s AND WAKER_FLAG_LOCK > 0"

definition st_has_waker :: "usize \<Rightarrow> bool" where
  "st_has_waker s \<longleftrightarrow> s AND WAKER_FLAG_SET > 0"

definition st_try_lock :: "usize \<Rightarrow> usize" where
  "st_try_lock s = st_count s OR WAKER_FLAG_LOCK"

definition st_is_last :: "usize \<Rightarrow> usize \<Rightarrow> bool" where
  "st_is_last s delta \<longleftrightarrow> st_waker_flag s \<noteq> WAKER_FLAG_LOCK \<and> st_count s = delta"

text \<open>The state after the decrement, and whether it takes the lock.\<close>

definition st_try_done :: "usize \<Rightarrow> usize \<Rightarrow> usize \<Rightarrow> (usize \<times> bool) exec" where
  "st_try_done s delta threshold =
     (let waker_flag = st_waker_flag s; old_count = st_count s
      in if delta \<le> old_count
         then let new_count = old_count - delta
           in if new_count \<le> threshold \<and> waker_flag = WAKER_FLAG_SET
              then Done (WAKER_FLAG_LOCK OR new_count, True)
              else Done (waker_flag OR new_count, False)
         else Fault Panic)"

section \<open>The shared cell\<close>

record 'a wg_inner =
  wi_state :: usize
  wi_waker :: "thin_waker option"
  wi_inner :: 'a
  wi_backoff :: backoff_config

definition wi_new :: "backoff_globals \<Rightarrow> 'a \<Rightarrow> usize \<Rightarrow> 'a wg_inner" where
  "wi_new g x init_count = \<lparr>wi_state = init_count, wi_waker = None, wi_inner = x, wi_backoff = config_detect g\<rparr>"

definition wi_count :: "'a wg_inner \<Rightarrow> usize" where
  "wi_count b = wi_state b AND COUNT_MASK"

definition wi_add :: "usize \<Rightarrow> 'a wg_inner \<Rightarrow> 'a wg_inner exec" where
  "wi_add n b =
     (if COUNT_MASK - 2 \<le> st_count (wi_state b) then Fault Panic else Done (b\<lparr>wi_state := wi_state b + n\<rparr>))"

text \<open>
  \<^verbatim>\<open>done\<close>: the first load, the double check of the last reference, the exchange, then with the lock held
  taking the waker, unlocking, and after that the wake-up. A step answers the next access, or what \<^verbatim>\<open>done\<close> returns.
\<close>

datatype dn_pc = DLoad | DRecheck usize | DCas usize usize bool | DTake | DUnlock "thin_waker option" | DWake thin_waker

definition dn_decide :: "bool \<Rightarrow> usize \<Rightarrow> usize \<Rightarrow> usize \<Rightarrow> dn_pc exec" where
  "dn_decide ownership n threshold state =
     (if ownership \<and> st_is_last state n then Done (DRecheck state)
      else exec_map (\<lambda>(s, try_lock). DCas state s try_lock) (st_try_done state n threshold))"

fun dn_step :: "bool \<Rightarrow> usize \<Rightarrow> usize \<Rightarrow> bool \<Rightarrow> dn_pc \<Rightarrow> 'a wg_inner \<Rightarrow> ('a wg_inner \<times> (dn_pc + bool)) exec" where
  "dn_step ownership n threshold spurious DLoad b =
     exec_map (\<lambda>pc. (b, Inl pc)) (dn_decide ownership n threshold (wi_state b))"
| "dn_step ownership n threshold spurious (DRecheck state) b =
     (if wi_state b = state then Done (b, Inr True)
      else exec_map (\<lambda>pc. (b, Inl pc)) (dn_decide ownership n threshold (wi_state b)))"
| "dn_step ownership n threshold spurious (DCas state s try_lock) b =
     (case cas_weak spurious state s (wi_state b) of
        (st, Inr _) \<Rightarrow> Done (b\<lparr>wi_state := st\<rparr>, if try_lock then Inl DTake else Inr False)
      | (_, Inl cur) \<Rightarrow> exec_map (\<lambda>pc. (b, Inl pc)) (dn_decide ownership n threshold cur))"
| "dn_step ownership n threshold spurious DTake b = Done (b\<lparr>wi_waker := None\<rparr>, Inl (DUnlock (wi_waker b)))"
| "dn_step ownership n threshold spurious (DUnlock o_waker) b =
     (let old = wi_state b; b' = b\<lparr>wi_state := old AND NOT WAKER_FLAG_MASK\<rparr>
      in if ownership \<and> old AND COUNT_MASK = 0 then Done (b', Inr True)
         else case o_waker of
             Some waker \<Rightarrow> Done (b', Inl (DWake waker))
           | None \<Rightarrow> Done (b', Inr False))"
| "dn_step ownership n threshold spurious (DWake waker) b = Done (b, Inr False)"

text \<open>
  \<^verbatim>\<open>try_set_waker\<close>: with a waker in place it takes the lock, replaces the waker and swaps the two flags; without
  one it writes the waker and sets the flag. A step answers the next access, or whether the waker is set.
\<close>

datatype sw_pc = SLoad | SLock usize | SReplace | SXor | SWrite | SOr

definition sw_decide :: "usize \<Rightarrow> bool \<Rightarrow> usize \<Rightarrow> sw_pc + bool" where
  "sw_decide threshold may_skip state =
     (if st_count state \<le> threshold then Inr False
      else if st_is_locked state then Inl SLoad
      else if st_has_waker state then if may_skip then Inr True else Inl (SLock state)
      else Inl SWrite)"

fun sw_step :: "usize \<Rightarrow> bool \<Rightarrow> thin_waker \<Rightarrow> bool \<Rightarrow> sw_pc \<Rightarrow> 'a wg_inner \<Rightarrow> 'a wg_inner \<times> (sw_pc + bool)" where
  "sw_step threshold may_skip waker spurious SLoad b = (b, sw_decide threshold may_skip (wi_state b))"
| "sw_step threshold may_skip waker spurious (SLock state) b =
     (case cas_weak spurious state (st_try_lock state) (wi_state b) of
        (st, Inr _) \<Rightarrow> (b\<lparr>wi_state := st\<rparr>, Inl SReplace)
      | (_, Inl s) \<Rightarrow> (b, sw_decide threshold may_skip s))"
| "sw_step threshold may_skip waker spurious SReplace b = (b\<lparr>wi_waker := Some waker\<rparr>, Inl SXor)"
| "sw_step threshold may_skip waker spurious SXor b =
     (b\<lparr>wi_state := wi_state b XOR WAKER_FLAG_MASK\<rparr>, Inr (\<not> st_count (wi_state b) \<le> threshold))"
| "sw_step threshold may_skip waker spurious SWrite b = (b\<lparr>wi_waker := Some waker\<rparr>, Inl SOr)"
| "sw_step threshold may_skip waker spurious SOr b =
     (b\<lparr>wi_state := wi_state b OR WAKER_FLAG_SET\<rparr>, Inr (\<not> st_count (wi_state b) \<le> threshold))"

text \<open>
  \<^verbatim>\<open>wait_blocking\<close>: the first check, the rounds of the backoff, setting the waker, the clock, and \<^verbatim>\<open>park\<close>. It works on the
  cell and on the wake-ups delivered and not yet used; \<open>Inr\<close> is the result of the call.
\<close>

datatype wt_pc = WCheck | WSnooze bool backoff | WSet bool backoff sw_pc | WClock backoff | WPark backoff

fun wt_step ::
  "usize \<Rightarrow> bool \<Rightarrow> nat \<Rightarrow> bool \<Rightarrow> wt_pc \<Rightarrow> 'a wg_inner \<times> thin_waker set \<Rightarrow>
   (('a wg_inner \<times> thin_waker set) \<times> (wt_pc + (unit + unit))) exec" where
  "wt_step threshold timed thread env WCheck (b, toks) =
     Done ((b, toks), if wi_count b \<le> threshold then Inr (Inr ()) else Inl (WSnooze False (backoff_from (wi_backoff b))))"
| "wt_step threshold timed thread env (WSnooze is_set bo) (b, toks) =
     exec_bind (backoff_snooze bo) (\<lambda>(bo', _, r).
       Done ((b, toks), if wi_count b \<le> threshold then Inr (Inr ())
         else Inl (if r then WSet is_set bo' SLoad else WSnooze is_set bo')))"
| "wt_step threshold timed thread env (WSet is_set bo pc) (b, toks) =
     (case sw_step threshold is_set (Blocking thread) env pc b of
        (b', Inl pc') \<Rightarrow> Done ((b', toks), Inl (WSet is_set bo pc'))
      | (b', Inr False) \<Rightarrow> Done ((b', toks), Inr (Inr ()))
      | (b', Inr True) \<Rightarrow> Done ((b', toks), Inl (WClock bo)))"
| "wt_step threshold timed thread env (WClock bo) (b, toks) =
     Done ((b, toks), if timed \<and> env then Inr (Inl ()) else Inl (WPark bo))"
| "wt_step threshold timed thread env (WPark bo) (b, toks) =
     Done (if Blocking thread \<in> toks then ((b, toks - {Blocking thread}), Inl (WSnooze True (backoff_reset bo)))
       else ((b, toks), Inl (if env then WSnooze True (backoff_reset bo) else WPark bo)))"

text \<open>
  \<^verbatim>\<open>poll_async\<close> of the future whose own copy of the waker is \<open>o_waker\<close>; \<open>will_wake\<close> is the answer of the
  library's test, which may be negative for equal wakers. \<open>Inr\<close> says whether the poll is ready.
\<close>

datatype pl_pc = PCheck | PAgain | PSet sw_pc

fun pl_step :: "usize \<Rightarrow> nat \<Rightarrow> nat option \<Rightarrow> bool \<Rightarrow> pl_pc \<Rightarrow> 'a wg_inner \<Rightarrow> 'a wg_inner \<times> (pl_pc + bool)" where
  "pl_step threshold task o_waker env PCheck b =
     (b, if wi_count b \<le> threshold then Inr True
       else Inl (if st_has_waker (wi_state b) \<and> o_waker = Some task \<and> env then PAgain else PSet SLoad))"
| "pl_step threshold task o_waker env PAgain b = (b, Inr (wi_count b \<le> threshold))"
| "pl_step threshold task o_waker env (PSet pc) b =
     (case sw_step threshold False (Async task) env pc b of
        (b', Inl pc') \<Rightarrow> (b', Inl (PSet pc'))
      | (b', Inr ok) \<Rightarrow> (b', Inr (\<not> ok)))"

section \<open>Groups, guards and futures\<close>

text \<open>
  The group handle: \<open>OIdle\<close> between calls, \<open>OPend\<close> between polls of a future that answered pending; \<open>OWait\<close> in a
  blocking wait, \<open>OPoll\<close> in a poll and \<open>OTimer\<close> about to poll its timer; \<open>ODrop\<close> and \<open>ODropCas\<close> in the loop of
  \<^verbatim>\<open>destroy\<close>, \<open>OFree\<close> about to free the cell; \<open>OGone\<close> without handle.
\<close>

datatype wg_opc = OIdle | OPend nat | OWait nat bool wt_pc | OPoll nat pl_pc | OTimer nat
  | ODrop | ODropCas usize | OFree bool | OGone

text \<open>A guard: alive, inside \<^verbatim>\<open>done_ptr\<close>, about to free the cell, gone.\<close>

datatype wg_gpc = GLive usize | GDone usize dn_pc | GFree | GGone

record wg_future =
  fu_threshold :: usize
  fu_timed :: bool
  fu_waker :: "nat option"

datatype 'a wg_result = RWait "unit + unit" | RPoll "(unit + unit) std_poll" | RLeft usize | RInto "'a option" | RMut bool

record 'a wg_sys =
  wg_box :: "'a wg_inner option"
  wg_threshold :: usize
  wg_owner :: wg_opc
  wg_fut :: "wg_future option"
  wg_guards :: "wg_gpc list"
  wg_tokens :: "thin_waker set"
  wg_frees :: nat
  wg_results :: "'a wg_result list"

definition wg_with :: "'a wg_sys \<Rightarrow> ('a wg_inner \<Rightarrow> 'b exec) \<Rightarrow> 'b exec" where
  "wg_with s f = (case wg_box s of None \<Rightarrow> Fault UseAfterFree | Some b \<Rightarrow> f b)"

definition wg_free :: "'a wg_sys \<Rightarrow> 'a wg_sys exec" where
  "wg_free s = wg_with s (\<lambda>b. Done (s\<lparr>wg_box := None, wg_frees := Suc (wg_frees s)\<rparr>))"

definition wg_return :: "'a wg_sys \<Rightarrow> 'a wg_result \<Rightarrow> 'a wg_sys" where
  "wg_return s r = s\<lparr>wg_owner := OIdle, wg_results := wg_results s @ [r]\<rparr>"

text \<open>\<^verbatim>\<open>WaitGroup::new\<close> and \<^verbatim>\<open>set_threshold\<close>; the stored threshold counts the handle's own reference.\<close>

definition wg_new :: "backoff_globals \<Rightarrow> 'a \<Rightarrow> usize \<Rightarrow> 'a wg_sys exec" where
  "wg_new g x threshold =
     exec_map (\<lambda>t. \<lparr>wg_box = Some (wi_new g x 1), wg_threshold = t, wg_owner = OIdle, wg_fut = None, wg_guards = [],
       wg_tokens = {}, wg_frees = 0, wg_results = []\<rparr>) (checked_add threshold 1)"

definition wg_set_threshold :: "usize \<Rightarrow> 'a wg_sys \<Rightarrow> 'a wg_sys exec" where
  "wg_set_threshold threshold s =
     exec_map (\<lambda>t. s\<lparr>wg_threshold := t, wg_fut := None, wg_owner := OIdle\<rparr>) (checked_add threshold 1)"

definition wg_get_left :: "'a wg_sys \<Rightarrow> usize exec" where
  "wg_get_left s = wg_with s (\<lambda>b. checked_sub (wi_count b) 1)"

definition wg_add_guard :: "usize \<Rightarrow> 'a wg_sys \<Rightarrow> 'a wg_sys exec" where
  "wg_add_guard threshold s = wg_with s (\<lambda>b.
     exec_map (\<lambda>b'. s\<lparr>wg_box := Some b', wg_guards := wg_guards s @ [GLive threshold]\<rparr>) (wi_add 1 b))"

definition wg_try_wait :: "usize \<Rightarrow> 'a wg_sys \<Rightarrow> (unit + unit) exec" where
  "wg_try_wait threshold s = wg_with s (\<lambda>b. Done (if wi_count b \<le> threshold then Inr () else Inl ()))"

definition wg_wait_async :: "usize \<Rightarrow> bool \<Rightarrow> 'a wg_sys \<Rightarrow> 'a wg_sys" where
  "wg_wait_async threshold timed s =
     s\<lparr>wg_fut := Some \<lparr>fu_threshold = threshold, fu_timed = timed, fu_waker = None\<rparr>, wg_owner := OIdle\<rparr>"

definition wg_wait :: "nat \<Rightarrow> bool \<Rightarrow> 'a wg_sys \<Rightarrow> 'a wg_sys" where
  "wg_wait thread timed s = s\<lparr>wg_fut := None, wg_owner := OWait thread timed WCheck\<rparr>"

definition wg_try_into_inner :: "'a wg_sys \<Rightarrow> 'a wg_sys exec" where
  "wg_try_into_inner s =
     exec_map (\<lambda>left. if left = 0 then s\<lparr>wg_fut := None, wg_owner := OFree True\<rparr>
       else wg_return (s\<lparr>wg_fut := None\<rparr>) (RInto None)) (wg_get_left s)"

definition wg_get_mut :: "('a \<Rightarrow> 'a) \<Rightarrow> 'a wg_sys \<Rightarrow> 'a wg_sys exec" where
  "wg_get_mut f s =
     exec_bind (wg_get_left s) (\<lambda>left.
       if left = 0
       then wg_with s (\<lambda>b. Done (wg_return (s\<lparr>wg_fut := None, wg_box := Some (b\<lparr>wi_inner := f (wi_inner b)\<rparr>)\<rparr>) (RMut True)))
       else Done (wg_return (s\<lparr>wg_fut := None\<rparr>) (RMut False)))"

definition wg_deref :: "'a wg_sys \<Rightarrow> 'a exec" where
  "wg_deref s = wg_with s (\<lambda>b. Done (wi_inner b))"

text \<open>The loop of \<^verbatim>\<open>destroy\<close>, entered by \<^verbatim>\<open>Drop for WaitGroup\<close>.\<close>

definition destroy_decide :: "usize \<Rightarrow> wg_opc" where
  "destroy_decide state = (if st_is_locked state \<or> st_count state > 1 then ODropCas state else OFree False)"

definition wg_destroy_load :: "'a wg_sys \<Rightarrow> 'a wg_sys exec" where
  "wg_destroy_load s = wg_with s (\<lambda>b. Done (s\<lparr>wg_owner := destroy_decide (wi_state b)\<rparr>))"

definition wg_destroy_cas :: "bool \<Rightarrow> usize \<Rightarrow> 'a wg_sys \<Rightarrow> 'a wg_sys exec" where
  "wg_destroy_cas spurious state s = wg_with s (\<lambda>b.
     exec_bind (checked_sub state 1) (\<lambda>state1.
       case cas_weak spurious state state1 (wi_state b) of
         (st, Inr _) \<Rightarrow> Done (s\<lparr>wg_box := Some (b\<lparr>wi_state := st\<rparr>), wg_owner := OGone\<rparr>)
       | (_, Inl cur) \<Rightarrow> Done (s\<lparr>wg_owner := destroy_decide cur\<rparr>)))"

text \<open>Freeing the box: at the end of \<^verbatim>\<open>destroy\<close>, or moving the value out in \<^verbatim>\<open>try_into_inner\<close>.\<close>

definition wg_owner_free :: "bool \<Rightarrow> 'a wg_sys \<Rightarrow> 'a wg_sys exec" where
  "wg_owner_free into s =
     exec_bind (wg_deref s) (\<lambda>x. exec_map (\<lambda>s'.
       s'\<lparr>wg_owner := OGone, wg_results := wg_results s' @ (if into then [RInto (Some x)] else [])\<rparr>) (wg_free s))"

text \<open>A step inside \<^verbatim>\<open>wait\<close> or \<^verbatim>\<open>wait_timeout\<close>.\<close>

definition wg_wait_step :: "usize \<Rightarrow> nat \<Rightarrow> bool \<Rightarrow> bool \<Rightarrow> wt_pc \<Rightarrow> 'a wg_sys \<Rightarrow> 'a wg_sys exec" where
  "wg_wait_step threshold thread timed env pc s = wg_with s (\<lambda>b.
     exec_map (\<lambda>((b', toks), r).
       let s' = s\<lparr>wg_box := Some b', wg_tokens := toks\<rparr>
       in case r of Inl pc' \<Rightarrow> s'\<lparr>wg_owner := OWait thread timed pc'\<rparr> | Inr x \<Rightarrow> wg_return s' (RWait x))
     (wt_step threshold timed thread env pc (b, wg_tokens s)))"

text \<open>
  Polls of \<^verbatim>\<open>WaitGroupFuture\<close> and \<^verbatim>\<open>WaitGroupTimeoutFuture\<close>. A poll uses up the wake-up of its task; a future that is ready
  is not polled again; the timer is polled after the group.
\<close>

definition wg_poll :: "nat \<Rightarrow> 'a wg_sys \<Rightarrow> 'a wg_sys" where
  "wg_poll task s =
     (case wg_fut s of
        None \<Rightarrow> s
      | Some _ \<Rightarrow> s\<lparr>wg_tokens := wg_tokens s - {Async task}, wg_owner := OPoll task PCheck\<rparr>)"

definition wg_ready :: "'a wg_sys \<Rightarrow> unit + unit \<Rightarrow> 'a wg_sys" where
  "wg_ready s r = wg_return (s\<lparr>wg_fut := None\<rparr>) (RPoll (PReady r))"

definition wg_poll_step :: "nat \<Rightarrow> bool \<Rightarrow> pl_pc \<Rightarrow> 'a wg_sys \<Rightarrow> 'a wg_sys exec" where
  "wg_poll_step task env pc s =
     (case wg_fut s of
        None \<Rightarrow> Done s
      | Some fu \<Rightarrow> wg_with s (\<lambda>b.
          case pl_step (fu_threshold fu) task (fu_waker fu) env pc b of
            (b', Inl pc') \<Rightarrow> Done (s\<lparr>wg_box := Some b', wg_owner := OPoll task pc'\<rparr>)
          | (b', Inr True) \<Rightarrow> Done (wg_ready (s\<lparr>wg_box := Some b'\<rparr>) (Inr ()))
          | (b', Inr False) \<Rightarrow> Done (s\<lparr>wg_box := Some b', wg_fut := Some (fu\<lparr>fu_waker := Some task\<rparr>), wg_owner := OTimer task\<rparr>)))"

definition wg_timer_step :: "nat \<Rightarrow> bool \<Rightarrow> 'a wg_sys \<Rightarrow> 'a wg_sys" where
  "wg_timer_step task expired s =
     (case wg_fut s of
        Some fu \<Rightarrow>
          if fu_timed fu \<and> expired then wg_ready s (Inl ())
          else s\<lparr>wg_owner := OPend task, wg_results := wg_results s @ [RPoll PPending]\<rparr>
      | None \<Rightarrow> s)"

section \<open>Turns\<close>

datatype 'a wg_call = CAddGuard | CSetThreshold usize | CGetLeft | CTryWait | CDeref | CWaitAsync bool | CPoll nat
  | CWait nat bool | CTryInto | CGetMut "'a \<Rightarrow> 'a" | CDropGroup

datatype wg_gcall = GClone | GDeref | GDrop

definition wg_observe :: "'a wg_sys \<Rightarrow> 'b exec \<Rightarrow> ('b \<Rightarrow> 'a wg_result) \<Rightarrow> 'a wg_sys exec" where
  "wg_observe s m f = exec_map (\<lambda>x. s\<lparr>wg_results := wg_results s @ [f x]\<rparr>) m"

fun wg_owner_call :: "'a wg_call \<Rightarrow> 'a wg_sys \<Rightarrow> 'a wg_sys exec" where
  "wg_owner_call CAddGuard s = wg_add_guard (wg_threshold s) s"
| "wg_owner_call (CSetThreshold t) s = wg_set_threshold t s"
| "wg_owner_call CGetLeft s = wg_observe s (wg_get_left s) RLeft"
| "wg_owner_call CTryWait s = wg_observe s (wg_try_wait (wg_threshold s) s) RWait"
| "wg_owner_call CDeref s = exec_map (\<lambda>_. s) (wg_deref s)"
| "wg_owner_call (CWaitAsync timed) s = Done (wg_wait_async (wg_threshold s) timed s)"
| "wg_owner_call (CPoll task) s = Done (wg_poll task s)"
| "wg_owner_call (CWait thread timed) s = Done (wg_wait thread timed s)"
| "wg_owner_call CTryInto s = wg_try_into_inner s"
| "wg_owner_call (CGetMut f) s = wg_get_mut f s"
| "wg_owner_call CDropGroup s = Done (s\<lparr>wg_fut := None, wg_owner := ODrop\<rparr>)"

definition wg_ostep :: "usize \<Rightarrow> bool \<Rightarrow> 'a wg_sys \<Rightarrow> 'a wg_sys exec" where
  "wg_ostep threshold env s =
     (case wg_owner s of
        OWait thread timed pc \<Rightarrow> wg_wait_step threshold thread timed env pc s
      | OPoll task pc \<Rightarrow> wg_poll_step task env pc s
      | OTimer task \<Rightarrow> Done (wg_timer_step task env s)
      | ODrop \<Rightarrow> wg_destroy_load s
      | ODropCas state \<Rightarrow> wg_destroy_cas env state s
      | OFree into \<Rightarrow> wg_owner_free into s
      | _ \<Rightarrow> Done s)"

text \<open>Guards: \<^verbatim>\<open>Clone\<close>, \<^verbatim>\<open>Deref\<close> and \<^verbatim>\<open>Drop\<close>, which is \<^verbatim>\<open>done_ptr\<close> with count 1.\<close>

definition wg_guard_clone :: "usize \<Rightarrow> 'a wg_sys \<Rightarrow> 'a wg_sys exec" where
  "wg_guard_clone threshold s = wg_with s (\<lambda>b.
     exec_map (\<lambda>b'. s\<lparr>wg_box := Some b', wg_guards := wg_guards s @ [GLive threshold]\<rparr>) (wi_add 1 b))"

definition wg_goto :: "nat \<Rightarrow> wg_gpc \<Rightarrow> 'a wg_sys \<Rightarrow> 'a wg_sys" where
  "wg_goto i g s = s\<lparr>wg_guards := (wg_guards s)[i := g]\<rparr>"

definition wg_done_ptr :: "nat \<Rightarrow> usize \<Rightarrow> bool \<Rightarrow> dn_pc \<Rightarrow> 'a wg_sys \<Rightarrow> 'a wg_sys exec" where
  "wg_done_ptr i threshold env pc s =
     (case pc of
        DWake waker \<Rightarrow> Done (wg_goto i GGone (s\<lparr>wg_tokens := insert waker (wg_tokens s)\<rparr>))
      | _ \<Rightarrow> wg_with s (\<lambda>b.
          exec_map (\<lambda>(b', r). wg_goto i (case r of Inl pc' \<Rightarrow> GDone threshold pc' | Inr drop_it \<Rightarrow> if drop_it then GFree else GGone)
            (s\<lparr>wg_box := Some b'\<rparr>)) (dn_step True 1 threshold env pc b)))"

definition wg_gstep :: "nat \<Rightarrow> wg_gcall \<Rightarrow> bool \<Rightarrow> 'a wg_sys \<Rightarrow> 'a wg_sys exec" where
  "wg_gstep i call env s =
     (if i < length (wg_guards s)
      then case wg_guards s ! i of
          GLive threshold \<Rightarrow> (case call of
              GClone \<Rightarrow> wg_guard_clone threshold s
            | GDeref \<Rightarrow> exec_map (\<lambda>_. s) (wg_deref s)
            | GDrop \<Rightarrow> Done (wg_goto i (GDone threshold DLoad) s))
        | GDone threshold pc \<Rightarrow> wg_done_ptr i threshold env pc s
        | GFree \<Rightarrow> exec_map (wg_goto i GGone) (wg_free s)
        | GGone \<Rightarrow> Done s
      else Done s)"

datatype 'a wg_turn = OwnerTurn "'a wg_call" bool | GuardTurn nat wg_gcall bool

fun wg_step :: "'a wg_turn \<Rightarrow> 'a wg_sys \<Rightarrow> 'a wg_sys exec" where
  "wg_step (OwnerTurn call env) s =
     (case wg_owner s of
        OIdle \<Rightarrow> wg_owner_call call s
      | OPend _ \<Rightarrow> wg_owner_call call s
      | _ \<Rightarrow> wg_ostep (wg_threshold s) env s)"
| "wg_step (GuardTurn i call env) s = wg_gstep i call env s"

fun wg_run :: "'a wg_turn list \<Rightarrow> 'a wg_sys \<Rightarrow> 'a wg_sys exec" where
  "wg_run [] s = Done s"
| "wg_run (t # ts) s = exec_bind (wg_step t s) (wg_run ts)"

section \<open>Schedules\<close>

text \<open>
  The turns considered: the threshold fits, and \<^verbatim>\<open>try_into_inner\<close> is not called while the lock is taken.
\<close>

fun turn_ok :: "'a wg_turn \<Rightarrow> 'a wg_sys \<Rightarrow> bool" where
  "turn_ok (OwnerTurn (CSetThreshold t) env) s \<longleftrightarrow> t \<noteq> - 1"
| "turn_ok (OwnerTurn CTryInto env) s \<longleftrightarrow> (case wg_box s of Some b \<Rightarrow> \<not> st_is_locked (wi_state b) | None \<Rightarrow> True)"
| "turn_ok _ s \<longleftrightarrow> True"

fun wg_calm :: "'a wg_turn list \<Rightarrow> 'a wg_sys \<Rightarrow> bool" where
  "wg_calm [] s = True"
| "wg_calm (t # ts) s \<longleftrightarrow> turn_ok t s \<and> (case wg_step t s of Done s' \<Rightarrow> wg_calm ts s' | _ \<Rightarrow> True)"

text \<open>The schedules in which the threshold is never raised.\<close>

fun turn_steady :: "'a wg_turn \<Rightarrow> 'a wg_sys \<Rightarrow> bool" where
  "turn_steady (OwnerTurn (CSetThreshold t) env) s \<longleftrightarrow> t + 1 \<le> wg_threshold s"
| "turn_steady _ s \<longleftrightarrow> True"

fun wg_steady :: "'a wg_turn list \<Rightarrow> 'a wg_sys \<Rightarrow> bool" where
  "wg_steady [] s = True"
| "wg_steady (t # ts) s \<longleftrightarrow> turn_steady t s \<and> (case wg_step t s of Done s' \<Rightarrow> wg_steady ts s' | _ \<Rightarrow> True)"

section \<open>Example runs\<close>

text \<open>Handle and guard go at the same time; the guard is last.\<close>

definition drop_both :: "nat wg_turn list" where
  "drop_both = [OwnerTurn CAddGuard False, OwnerTurn CDropGroup False, OwnerTurn CDeref False, GuardTurn 0 GDrop False,
     OwnerTurn CDeref True, OwnerTurn CDeref False, GuardTurn 0 GDrop False, GuardTurn 0 GDrop False, GuardTurn 0 GDrop False]"

lemma drop_both_run:
  "case wg_new backoff_globals_init (7 :: nat) 0 of
     Done s0 \<Rightarrow> wg_calm drop_both s0 \<and>
       (case wg_run drop_both s0 of Done s \<Rightarrow> wg_owner s = OGone \<and> wg_guards s = [GGone] | _ \<Rightarrow> False)
   | _ \<Rightarrow> False"
  by code_simp

text \<open>A wait with a timer ends while one guard is alive; then the guard starts to go, and has taken the lock.\<close>

definition wait_and_drop :: "nat wg_turn list" where
  "wait_and_drop = [OwnerTurn CAddGuard False, OwnerTurn (CWaitAsync True) False, OwnerTurn (CPoll 3) False] @ replicate 5 (OwnerTurn CDeref True) @
     replicate 3 (GuardTurn 0 GDrop False)"

lemma wait_and_drop_run:
  "case wg_new backoff_globals_init (7 :: nat) 0 of
     Done s0 \<Rightarrow> wg_calm wait_and_drop s0 \<and>
       (case wg_run wait_and_drop s0 of
          Done s \<Rightarrow> wg_owner s = OIdle \<and> wg_box s \<noteq> None \<and> wg_guards s = [GDone 1 DTake]
        | _ \<Rightarrow> False)
   | _ \<Rightarrow> False"
  by code_simp

text \<open>A task waits; the guard goes.\<close>

definition park_and_drop :: "nat wg_turn list" where
  "park_and_drop = [OwnerTurn CAddGuard False, OwnerTurn (CWaitAsync False) False, OwnerTurn (CPoll 3) False] @ replicate 5 (OwnerTurn CDeref False) @
     replicate 3 (GuardTurn 0 GDrop False)"

lemma park_and_drop_run:
  "case wg_new backoff_globals_init (7 :: nat) 0 of
     Done s0 \<Rightarrow> wg_calm park_and_drop s0 \<and> wg_steady park_and_drop s0 \<and>
       (case wg_run park_and_drop s0 of
          Done s \<Rightarrow> wg_owner s = OPend 3 \<and> wg_box s \<noteq> None \<and>
            wg_guards s = [GDone 1 DTake] \<and> Async 3 \<notin> wg_tokens s \<and> wg_threshold s = 1
        | _ \<Rightarrow> False)
   | _ \<Rightarrow> False"
  by code_simp

end
