(* ===== verification/Wait_Word.thy ===== *)
theory Wait_Word
  imports Wait_Group
begin

unbundle bit_operations_syntax

text \<open>
  The state word of a wait group as a flag and a count. With a count below 2 to the 62 the two never overlap, so
  every operation on the word acts on one of them.
\<close>

definition wf_flags :: "usize set" where
  "wf_flags = {0, WAKER_FLAG_SET, WAKER_FLAG_LOCK}"

lemma wg_consts:
  "WAKER_FLAG_SET = 2 ^ 63" "WAKER_FLAG_LOCK = 2 ^ 62" "COUNT_MASK = mask 62" "WAKER_FLAG_MASK = NOT (mask 62)"
  by (simp_all add: WAKER_FLAG_SET_def WAKER_FLAG_LOCK_def COUNT_MASK_def WAKER_FLAG_MASK_def push_bit_eq_mult mask_eq_exp_minus_1)

lemma flag_distinct [simp]:
  "WAKER_FLAG_SET \<noteq> 0" "WAKER_FLAG_LOCK \<noteq> 0" "WAKER_FLAG_SET \<noteq> WAKER_FLAG_LOCK"
  "WAKER_FLAG_LOCK \<noteq> WAKER_FLAG_SET" "0 \<noteq> WAKER_FLAG_SET" "0 \<noteq> WAKER_FLAG_LOCK"
  by (simp_all add: wg_consts)

definition wst :: "usize \<Rightarrow> nat \<Rightarrow> usize" where
  "wst f n = f + of_nat n"

definition count_ok :: "nat \<Rightarrow> bool" where
  "count_ok n \<longleftrightarrow> n < 2 ^ 62"

lemma count_ok_le: "count_ok n \<Longrightarrow> m \<le> n \<Longrightarrow> count_ok m"
  by (simp add: count_ok_def)

lemma count_ok_Suc [simp]: "count_ok (Suc n) \<Longrightarrow> count_ok n" "count_ok n \<Longrightarrow> count_ok (n - k)"
  by (simp_all add: count_ok_def)

lemma flags_in [simp]: "0 \<in> wf_flags" "WAKER_FLAG_SET \<in> wf_flags" "WAKER_FLAG_LOCK \<in> wf_flags"
  by (simp_all add: wf_flags_def)

lemma flag_zero: "f \<in> wf_flags \<Longrightarrow> f \<noteq> WAKER_FLAG_SET \<Longrightarrow> f \<noteq> WAKER_FLAG_LOCK \<Longrightarrow> f = 0"
  by (simp add: wf_flags_def)

lemma wst_take:
  assumes "f \<in> wf_flags" "count_ok n"
  shows "wst f n AND mask 62 = of_nat n"
proof -
  let ?x = "of_nat n :: usize"
  have f: "f AND mask 62 = 0" using assms(1) by (auto simp: wf_flags_def wg_consts mask_eq_exp_minus_1)
  have x: "?x AND mask 62 = ?x"
    using assms(2) unfolding count_ok_def by (metis take_bit_eq_mask take_bit_nat_eq_self take_bit_of_nat)
  have "f AND ?x = (f AND mask 62) AND ?x" by (subst x [symmetric]) (simp add: ac_simps)
  then have "wst f n = f OR ?x" by (simp add: wst_def f disjunctive_add_eq_or)
  then show ?thesis by (simp add: bit.conj_disj_distrib2 f x)
qed

lemma wst_flag:
  assumes "f \<in> wf_flags" "count_ok n"
  shows "wst f n AND NOT (mask 62) = f"
proof -
  have "(wst f n AND mask 62) + (wst f n AND NOT (mask 62)) = wst f n"
    by (subst disjunctive_add_eq_or) (auto simp: bit_eq_iff bit_simps)
  then show ?thesis by (simp add: wst_take [OF assms]) (simp add: wst_def)
qed

lemma wst_or:
  assumes "f \<in> wf_flags" "count_ok n"
  shows "f OR of_nat n = wst f n" "of_nat n OR f = wst f n"
proof -
  have "wst f n = (wst f n AND NOT (mask 62)) OR (wst f n AND mask 62)"
    by (rule bit_eqI) (auto simp: bit_simps)
  then show "f OR of_nat n = wst f n" by (simp add: wst_take [OF assms] wst_flag [OF assms])
  then show "of_nat n OR f = wst f n" by (simp add: or.commute)
qed

lemma flag_bits:
  assumes "f \<in> wf_flags" "count_ok n"
  shows "wst f n AND WAKER_FLAG_LOCK = (if f = WAKER_FLAG_LOCK then f else 0)"
    "wst f n AND WAKER_FLAG_SET = (if f = WAKER_FLAG_SET then f else 0)"
proof -
  have "wst f n AND w = f AND w" if "w AND NOT (mask 62) = w" for w
  proof -
    have "wst f n AND w = (wst f n AND NOT (mask 62)) AND w" by (subst that [symmetric]) (simp add: ac_simps)
    then show ?thesis by (simp add: wst_flag [OF assms])
  qed
  note h = this
  have "wst f n AND WAKER_FLAG_LOCK = f AND WAKER_FLAG_LOCK" by (rule h) (simp add: wg_consts mask_eq_exp_minus_1)
  then show "wst f n AND WAKER_FLAG_LOCK = (if f = WAKER_FLAG_LOCK then f else 0)"
    using assms(1) by (auto simp: wf_flags_def wg_consts)
  have "wst f n AND WAKER_FLAG_SET = f AND WAKER_FLAG_SET" by (rule h) (simp add: wg_consts mask_eq_exp_minus_1)
  then show "wst f n AND WAKER_FLAG_SET = (if f = WAKER_FLAG_SET then f else 0)"
    using assms(1) by (auto simp: wf_flags_def wg_consts)
qed

lemma unat_count [simp]: "count_ok n \<Longrightarrow> unat (of_nat n :: usize) = n"
  by (simp add: count_ok_def unat_of_nat)

lemma of_nat_count [simp]:
  assumes "count_ok n"
  shows "of_nat n \<le> (t :: usize) \<longleftrightarrow> n \<le> unat t" "t < of_nat n \<longleftrightarrow> unat t < n" "(of_nat n :: usize) = 1 \<longleftrightarrow> n = 1"
    "(of_nat n :: usize) = 0 \<longleftrightarrow> n = 0" "1 \<le> (of_nat n :: usize) \<longleftrightarrow> 1 \<le> n" 
  using assms unat_count [OF assms]
  by (auto simp only: word_le_nat_alt word_less_nat_alt word_unat_eq_iff unat_1 unat_0)

lemma wst_simps [simp]:
  assumes "f \<in> wf_flags" "count_ok n"
  shows "st_count (wst f n) = of_nat n" "wst f n AND COUNT_MASK = of_nat n" "st_waker_flag (wst f n) = f"
    "st_is_locked (wst f n) \<longleftrightarrow> f = WAKER_FLAG_LOCK" "st_has_waker (wst f n) \<longleftrightarrow> f = WAKER_FLAG_SET"
    "st_try_lock (wst f n) = wst WAKER_FLAG_LOCK n" "st_is_last (wst f n) 1 \<longleftrightarrow> f \<noteq> WAKER_FLAG_LOCK \<and> n = 1"
    "wst f n AND NOT WAKER_FLAG_MASK = wst 0 n"
proof -
  show c: "st_count (wst f n) = of_nat n" "wst f n AND COUNT_MASK = of_nat n"
    using wst_take [OF assms] by (simp_all add: st_count_def wg_consts(3))
  show fl: "st_waker_flag (wst f n) = f"
    using wst_flag [OF assms] by (simp add: st_waker_flag_def wg_consts(4))
  show "st_is_locked (wst f n) \<longleftrightarrow> f = WAKER_FLAG_LOCK" "st_has_waker (wst f n) \<longleftrightarrow> f = WAKER_FLAG_SET"
    by (simp_all add: st_is_locked_def st_has_waker_def flag_bits [OF assms] word_gt_0)
  show "st_try_lock (wst f n) = wst WAKER_FLAG_LOCK n"
    using assms(2) by (simp add: st_try_lock_def c wst_or wf_flags_def)
  show "st_is_last (wst f n) 1 \<longleftrightarrow> f \<noteq> WAKER_FLAG_LOCK \<and> n = 1"
    using assms(2) by (simp add: st_is_last_def c fl)
  show "wst f n AND NOT WAKER_FLAG_MASK = wst 0 n"
    using wst_take [OF assms] by (simp add: wg_consts(4)) (simp add: wst_def)
qed

lemma wst_flag_ops [simp]:
  assumes "count_ok n"
  shows "wst WAKER_FLAG_LOCK n XOR WAKER_FLAG_MASK = wst WAKER_FLAG_SET n" "wst 0 n OR WAKER_FLAG_SET = wst WAKER_FLAG_SET n"
proof -
  have "of_nat n OR WAKER_FLAG_SET = wst WAKER_FLAG_SET n" using assms by (simp add: wst_or wf_flags_def)
  then show "wst 0 n OR WAKER_FLAG_SET = wst WAKER_FLAG_SET n" by (simp add: wst_def)
  have "i < 62" if "bit (of_nat n :: usize) i" for i
    using that wst_take [of 0 n] assms by (metis add_0 bit_and_iff bit_mask_iff flags_in(1) wst_def)
  then have "(push_bit 62 1 OR of_nat n) XOR NOT (mask 62) = push_bit 63 1 OR (of_nat n :: usize)"
    by (intro bit_word_eqI) (auto simp: bit_simps simp del: push_bit_of_1 push_bit_numeral)
  then show "wst WAKER_FLAG_LOCK n XOR WAKER_FLAG_MASK = wst WAKER_FLAG_SET n"
    unfolding WAKER_FLAG_LOCK_def [symmetric] WAKER_FLAG_SET_def [symmetric] wg_consts(4) [symmetric]
    using assms by (simp add: wst_or)
qed

lemma wst_add [simp]: "wst f n + 1 = wst f (Suc n)" "wst f (Suc n) - 1 = wst f n"
  by (simp_all add: wst_def algebra_simps)

lemma wst_inj [simp]:
  assumes "f \<in> wf_flags" "count_ok n" "g \<in> wf_flags" "count_ok m"
  shows "wst f n = wst g m \<longleftrightarrow> f = g \<and> n = m"
  using assms by (metis unat_count wst_simps(1,3))

lemma wst_done [simp]:
  assumes "f \<in> wf_flags" "count_ok n"
  shows "st_try_done (wst f n) 1 t =
    (if n = 0 then Fault Panic
     else if n - 1 \<le> unat t \<and> f = WAKER_FLAG_SET then Done (wst WAKER_FLAG_LOCK (n - 1), True)
     else Done (wst f (n - 1), False))"
proof (cases n)
  case 0
  with assms show ?thesis by (simp add: st_try_done_def Let_def)
next
  case (Suc m)
  with assms have m: "count_ok m" by simp
  have le: "(1 :: usize) \<le> of_nat n" "(of_nat n :: usize) - 1 = of_nat m"
    using Suc of_nat_count(5) [OF assms(2)] by simp_all
  show ?thesis
    unfolding st_try_done_def Let_def wst_simps(1,3) [OF assms] le(2) using le(1) Suc m assms(1) by (simp add: wst_or)
qed

end
