(* ===== verification/Wait_Safety.thy ===== *)
theory Wait_Safety
  imports Wait_Word
begin

unbundle bit_operations_syntax

text \<open>
  The shared cell of a wait group under every schedule: the count is the number of references, the lock has at most
  one holder, and exactly one party frees the cell, after everybody else is done with it.
\<close>

section \<open>Who holds what\<close>

fun g_ref :: "wg_gpc \<Rightarrow> bool" where
  "g_ref (GLive t) = True"
| "g_ref (GDone t DLoad) = True"
| "g_ref (GDone t (DRecheck w)) = True"
| "g_ref (GDone t (DCas w w' l)) = True"
| "g_ref _ = False"

fun g_lock :: "wg_gpc \<Rightarrow> bool" where
  "g_lock (GDone t DTake) = True"
| "g_lock (GDone t (DUnlock k)) = True"
| "g_lock _ = False"

definition g_free :: "wg_gpc \<Rightarrow> bool" where
  "g_free g \<longleftrightarrow> g = GFree"

text \<open>A guard that no longer touches the cell.\<close>

fun g_out :: "wg_gpc \<Rightarrow> bool" where
  "g_out GGone = True"
| "g_out (GDone t (DWake k)) = True"
| "g_out _ = False"

fun g_ok :: "wg_gpc \<Rightarrow> bool" where
  "g_ok (GDone t (DRecheck w)) \<longleftrightarrow> st_is_last w 1"
| "g_ok (GDone t (DCas w w' l)) \<longleftrightarrow> \<not> st_is_last w 1 \<and> st_try_done w 1 t = Done (w', l)"
| "g_ok _ \<longleftrightarrow> True"

fun sw_of :: "wg_opc \<Rightarrow> sw_pc option" where
  "sw_of (OWait th td (WSet sk bo pc)) = Some pc"
| "sw_of (OPoll k (PSet pc)) = Some pc"
| "sw_of _ = None"

fun bo_of :: "wg_opc \<Rightarrow> backoff option" where
  "bo_of (OWait th td (WSnooze sk bo)) = Some bo"
| "bo_of (OWait th td (WSet sk bo pc)) = Some bo"
| "bo_of (OWait th td (WClock bo)) = Some bo"
| "bo_of (OWait th td (WPark bo)) = Some bo"
| "bo_of _ = None"

definition o_free :: "wg_opc \<Rightarrow> bool" where
  "o_free p \<longleftrightarrow> (\<exists>i. p = OFree i)"

definition o_ref :: "wg_opc \<Rightarrow> bool" where
  "o_ref p \<longleftrightarrow> p \<noteq> OGone \<and> \<not> o_free p"

definition o_lock :: "wg_opc \<Rightarrow> bool" where
  "o_lock p \<longleftrightarrow> sw_of p \<in> {Some SReplace, Some SXor}"

definition o_write :: "wg_opc \<Rightarrow> bool" where
  "o_write p \<longleftrightarrow> sw_of p \<in> {Some SWrite, Some SOr}"

definition bo_ok :: "backoff_config \<Rightarrow> bool" where
  "bo_ok c \<longleftrightarrow> unat (spin_limit c) \<le> 31"

definition sw_ok :: "sw_pc \<Rightarrow> bool" where
  "sw_ok pc \<longleftrightarrow> (case pc of SLock w \<Rightarrow> \<not> st_is_locked w \<and> st_has_waker w | _ \<Rightarrow> True)"

definition o_ok :: "wg_opc \<Rightarrow> bool" where
  "o_ok p \<longleftrightarrow> (\<forall>w. p = ODropCas w \<longrightarrow> st_is_locked w \<or> 1 < st_count w) \<and> (\<forall>pc. sw_of p = Some pc \<longrightarrow> sw_ok pc) \<and>
     (\<forall>bo. bo_of p = Some bo \<longrightarrow> bo_ok (config bo))"

definition cnt :: "('b \<Rightarrow> bool) \<Rightarrow> 'b list \<Rightarrow> nat" where
  "cnt P xs = length (filter P xs)"

text \<open>
  Either one party is about to free the cell and nobody else uses it, or the state word is the number of references
  with the lock flag exactly when somebody holds the lock.
\<close>

definition wg_core :: "usize \<Rightarrow> nat \<Rightarrow> nat \<Rightarrow> nat \<Rightarrow> bool \<Rightarrow> wg_gpc list \<Rightarrow> bool" where
  "wg_core w ro lo fo wo gs \<longleftrightarrow>
     fo + cnt g_free gs = 1 \<and> ro + cnt g_ref gs = 0 \<and> lo + cnt g_lock gs = 0 \<or>
     fo + cnt g_free gs = 0 \<and> 0 < ro + cnt g_ref gs + lo + cnt g_lock gs \<and>
       (\<exists>f \<in> wf_flags. w = wst f (ro + cnt g_ref gs) \<and> lo + cnt g_lock gs = of_bool (f = WAKER_FLAG_LOCK) \<and> (wo \<longrightarrow> f = 0))"

definition wg_inv :: "'a wg_sys \<Rightarrow> bool" where
  "wg_inv s \<longleftrightarrow>
     (case wg_box s of
        None \<Rightarrow> wg_owner s = OGone \<and> list_all g_out (wg_guards s) \<and> wg_frees s = 1
      | Some b \<Rightarrow> wg_frees s = 0 \<and> bo_ok (wi_backoff b) \<and> o_ok (wg_owner s) \<and> list_all g_ok (wg_guards s) \<and>
          wg_core (wi_state b) (of_bool (o_ref (wg_owner s))) (of_bool (o_lock (wg_owner s))) (of_bool (o_free (wg_owner s)))
            (o_write (wg_owner s)) (wg_guards s))"

section \<open>Counting\<close>

lemma cnt_simps [simp]: "cnt P [] = 0" "cnt P (x # xs) = of_bool (P x) + cnt P xs" "cnt P (xs @ ys) = cnt P xs + cnt P ys"
  by (simp_all add: cnt_def)

lemma cnt_le: "cnt P xs \<le> length xs"
  by (simp add: cnt_def)

definition others :: "('b \<Rightarrow> bool) \<Rightarrow> 'b list \<Rightarrow> nat \<Rightarrow> nat" where
  "others P xs i = cnt P (take i xs) + cnt P (drop (Suc i) xs)"

lemma cnt_split:
  assumes "i < length xs"
  shows "cnt P xs = others P xs i + of_bool (P (xs ! i))" "cnt P (xs[i := y]) = others P xs i + of_bool (P y)"
proof -
  have "cnt P xs = cnt P (take i xs @ xs ! i # drop (Suc i) xs)" using assms by (simp add: id_take_nth_drop [symmetric])
  then show "cnt P xs = others P xs i + of_bool (P (xs ! i))" by (simp add: others_def)
  show "cnt P (xs[i := y]) = others P xs i + of_bool (P y)" using assms by (simp add: upd_conv_take_nth_drop others_def)
qed

lemma others_update [simp]: "others P (xs[i := y]) i = others P xs i"
  by (simp add: others_def)

lemma cnt_pos: "i < length xs \<Longrightarrow> P (xs ! i) \<Longrightarrow> 0 < cnt P xs"
  by (simp add: cnt_split)

lemma list_all_nth: "list_all P xs \<Longrightarrow> i < length xs \<Longrightarrow> P (xs ! i)"
  by (simp add: list_all_length)

lemma list_all_update: "list_all P xs \<Longrightarrow> P y \<Longrightarrow> list_all P (xs[i := y])"
  by (auto simp: list_all_iff dest: set_update_subset_insert [THEN subsetD])

lemma g_cases: "g_out g \<or> g_ref g \<or> g_lock g \<or> g_free g"
  by (cases g rule: g_out.cases) (simp_all add: g_free_def)

section \<open>A guard going\<close>

definition dn_next :: "usize \<Rightarrow> dn_pc + bool \<Rightarrow> wg_gpc" where
  "dn_next t r = (case r of Inl pc \<Rightarrow> GDone t pc | Inr drop_it \<Rightarrow> if drop_it then GFree else GGone)"

text \<open>The counts before and after guard \<open>i\<close> moves.\<close>

definition wg_at :: "usize \<Rightarrow> nat \<Rightarrow> nat \<Rightarrow> nat \<Rightarrow> bool \<Rightarrow> (nat \<times> nat \<times> nat) \<Rightarrow> wg_gpc \<Rightarrow> bool" where
  "wg_at w ro lo fo wo = (\<lambda>(r, l, fr) g.
     fo + fr + of_bool (g_free g) = 1 \<and> ro + r + of_bool (g_ref g) = 0 \<and> lo + l + of_bool (g_lock g) = 0 \<or>
     fo + fr + of_bool (g_free g) = 0 \<and> 0 < ro + r + of_bool (g_ref g) + lo + l + of_bool (g_lock g) \<and>
       (\<exists>f \<in> wf_flags. w = wst f (ro + r + of_bool (g_ref g)) \<and> lo + l + of_bool (g_lock g) = of_bool (f = WAKER_FLAG_LOCK) \<and>
         (wo \<longrightarrow> f = 0)))"

lemma wg_core_at:
  assumes "i < length gs"
  shows "wg_core w ro lo fo wo gs = wg_at w ro lo fo wo (others g_ref gs i, others g_lock gs i, others g_free gs i) (gs ! i)"
    "wg_core w ro lo fo wo (gs[i := g]) = wg_at w ro lo fo wo (others g_ref gs i, others g_lock gs i, others g_free gs i) g"
  unfolding wg_core_def wg_at_def by (simp_all add: cnt_split [OF assms] add.assoc)

lemma dn_decide_step:
  assumes "f \<in> wf_flags" "count_ok n" "0 < n"
  shows "\<exists>pc. dn_decide True 1 t (wst f n) = Done pc \<and> g_ok (GDone t pc) \<and> g_ref (GDone t pc) \<and> \<not> g_lock (GDone t pc) \<and> \<not> g_free (GDone t pc)"
  using assms by (auto simp: dn_decide_def g_free_def)

lemma dn_step_at:
  assumes "wg_at (wi_state b) ro lo fo wo (r, l, fr) (GDone t pc)" and ok: "g_ok (GDone t pc)"
    and room: "count_ok (ro + r + 1)" and own: "lo \<le> ro" and pc: "\<forall>k. pc \<noteq> DWake k"
  shows "total (dn_step True 1 t env pc b)
    (\<lambda>(b', x). wg_at (wi_state b') ro lo fo wo (r, l, fr) (dn_next t x) \<and> g_ok (dn_next t x) \<and> wi_backoff b' = wi_backoff b)"
proof -
  have "g_ref (GDone t pc) \<or> g_lock (GDone t pc)" using pc by (cases pc) auto
  with assms(1) obtain f where f: "f \<in> wf_flags" "wi_state b = wst f (ro + r + of_bool (g_ref (GDone t pc)))"
      "lo + l + of_bool (g_lock (GDone t pc)) = of_bool (f = WAKER_FLAG_LOCK)" "wo \<longrightarrow> f = 0" "fo + fr = 0"
    unfolding wg_at_def by (auto simp: g_free_def)
  have room': "count_ok (ro + r)" using room by (rule count_ok_le) simp
  have again: "total (exec_map (\<lambda>pc. (b, Inl pc)) (dn_decide True 1 t (wi_state b)))
      (\<lambda>(b', x). wg_at (wi_state b') ro lo fo wo (r, l, fr) (dn_next t x) \<and> g_ok (dn_next t x) \<and> wi_backoff b' = wi_backoff b)"
    if "g_ref (GDone t pc)"
  proof -
    have s: "wi_state b = wst f (ro + r + 1)" using f that by simp
    have nl: "\<not> g_lock (GDone t pc)" using that by (cases pc) auto
    obtain pc' where pc': "dn_decide True 1 t (wst f (ro + r + 1)) = Done pc'"
      "g_ok (GDone t pc')" "g_ref (GDone t pc')" "\<not> g_lock (GDone t pc')" "\<not> g_free (GDone t pc')"
      using dn_decide_step [OF f(1) room] by auto
    have "wg_at (wi_state b) ro lo fo wo (r, l, fr) (GDone t pc')"
      using assms(1) that nl pc'(3-5) by (simp add: wg_at_def g_free_def)
    then show ?thesis using pc' by (simp add: s dn_next_def)
  qed
  show ?thesis
  proof (cases pc)
    case DLoad
    then show ?thesis using f again by auto
  next
    case (DRecheck w)
    then have "wi_state b = w \<longrightarrow> f \<noteq> WAKER_FLAG_LOCK \<and> ro + r = 0" using f(1,2) ok room by auto
    then show ?thesis using f again DRecheck own by (auto simp: wg_at_def dn_next_def g_free_def)
  next
    case (DCas w w' lk)
    show ?thesis
    proof (cases "wi_state b = w \<and> \<not> env")
      case True
      then have w: "w = wst f (ro + r + 1)" using f(2) DCas by simp
      have "\<not> st_is_last (wst f (ro + r + 1)) 1" "st_try_done (wst f (ro + r + 1)) 1 t = Done (w', lk)"
        using ok DCas unfolding w by auto
      then have "f = WAKER_FLAG_LOCK \<or> 0 < ro + r"
        "(w', lk) = (if ro + r \<le> unat t \<and> f = WAKER_FLAG_SET then (wst WAKER_FLAG_LOCK (ro + r), True) else (wst f (ro + r), False))"
        unfolding wst_done [OF f(1) room] wst_simps(7) [OF f(1) room] by (auto split: if_splits)
      then show ?thesis using f True DCas own
        by (auto simp: cas_weak_def wg_at_def dn_next_def g_free_def split: if_splits)
    next
      case False
      then show ?thesis using f again DCas by (auto simp: cas_weak_def)
    qed
  next
    case DTake
    then show ?thesis using f own unfolding wg_at_def by (auto simp: dn_next_def g_free_def)
  next
    case (DUnlock k)
    then have lk: "wi_state b = wst WAKER_FLAG_LOCK (ro + r)" "lo = 0" "l = 0" "f = WAKER_FLAG_LOCK"
      using f by (auto simp: of_bool_def split: if_splits)
    have "wg_at (wst 0 (ro + r)) ro 0 fo wo (r, 0, fr) (dn_next t x)"
      if "ro + r = 0 \<and> x = Inr True \<or> 0 < ro + r \<and> (x = Inr False \<or> (\<exists>w. x = Inl (DWake w)))" for x
      using that f(4,5) lk(4) by (auto simp: wg_at_def dn_next_def g_free_def intro: bexI [of _ 0])
    note out = this
    show ?thesis
    proof (cases "ro + r = 0")
      case True
      then show ?thesis using out [of "Inr True"] lk DUnlock wst_simps(2,8) [OF _ room']
        by (simp add: dn_next_def)
    next
      case False
      moreover have "(of_nat ro + of_nat r :: usize) = 0 \<longleftrightarrow> ro + r = 0" using of_nat_count(4) [OF room'] by simp
      ultimately show ?thesis using out [of "Inr False"] out [of "Inl (DWake (the k))"] lk DUnlock room'
        by (cases k) (auto simp: dn_next_def Let_def)
    qed
  next
    case (DWake k)
    with pc show ?thesis by blast
  qed
qed


section \<open>The handle moving\<close>

text \<open>\<^verbatim>\<open>try_set_waker\<close> while the handle holds its reference.\<close>

definition sw_lock :: "sw_pc + bool \<Rightarrow> bool" where
  "sw_lock r \<longleftrightarrow> r = Inl SReplace \<or> r = Inl SXor"

definition sw_write :: "sw_pc + bool \<Rightarrow> bool" where
  "sw_write r \<longleftrightarrow> r = Inl SWrite \<or> r = Inl SOr"

definition sw_fine :: "sw_pc + bool \<Rightarrow> bool" where
  "sw_fine r \<longleftrightarrow> (\<forall>pc. r = Inl pc \<longrightarrow> sw_ok pc)"

lemma sw_decide_at:
  assumes "f \<in> wf_flags" "count_ok n"
  shows "\<not> sw_lock (sw_decide t sk (wst f n))" "sw_fine (sw_decide t sk (wst f n))"
    "sw_write (sw_decide t sk (wst f n)) \<Longrightarrow> f = 0"
  using assms flag_zero [OF assms(1)] by (auto simp: sw_decide_def sw_lock_def sw_fine_def sw_ok_def sw_write_def split: if_splits)

lemma sw_step_core:
  assumes "wg_core (wi_state b) 1 (of_bool (sw_lock (Inl pc))) 0 (sw_write (Inl pc)) gs" "sw_ok pc" "count_ok (1 + cnt g_ref gs)"
    "sw_step t sk k env pc b = (b', r)"
  shows "wg_core (wi_state b') 1 (of_bool (sw_lock r)) 0 (sw_write r) gs \<and> sw_fine r \<and> wi_backoff b' = wi_backoff b"
proof -
  from assms(1) obtain f where f: "f \<in> wf_flags" "wi_state b = wst f (1 + cnt g_ref gs)" "cnt g_free gs = 0"
      "of_bool (sw_lock (Inl pc)) + cnt g_lock gs = of_bool (f = WAKER_FLAG_LOCK)" "sw_write (Inl pc) \<longrightarrow> f = 0"
    unfolding wg_core_def by auto
  have core: "wg_core (wst f' (1 + cnt g_ref gs)) 1 (of_bool (sw_lock x)) 0 (sw_write x) gs"
    if "f' \<in> wf_flags" "of_bool (sw_lock x) + cnt g_lock gs = of_bool (f' = WAKER_FLAG_LOCK)" "sw_write x \<longrightarrow> f' = 0" for f' x
    using that f(3) unfolding wg_core_def by auto
  note dec = sw_decide_at [OF f(1) assms(3), of t sk]
  have again: "wg_core (wi_state b) 1 (of_bool (sw_lock (sw_decide t sk (wi_state b)))) 0 (sw_write (sw_decide t sk (wi_state b))) gs"
    if "\<not> sw_lock (Inl pc)"
    using core [OF f(1), of "sw_decide t sk (wi_state b)"] dec f(2,4) that by simp
  show ?thesis
  proof (cases pc)
    case SLoad
    then show ?thesis using assms(4) again dec(2) f(2) by (auto simp: sw_lock_def)
  next
    case (SLock w)
    show ?thesis
    proof (cases "wi_state b = w \<and> \<not> env")
      case True
      then have "st_has_waker (wst f (1 + cnt g_ref gs))" using assms(2) f(2) SLock by (simp add: sw_ok_def)
      then have "f = WAKER_FLAG_SET" using assms(3) f(1) by (simp only: wst_simps)
      then have "st_try_lock (wi_state b) = wst WAKER_FLAG_LOCK (1 + cnt g_ref gs)" using assms(3) f(1,2) by simp
      then show ?thesis using True SLock assms(4) f(4) \<open>f = _\<close> core [of WAKER_FLAG_LOCK "Inl SReplace"]
        by (auto simp: cas_weak_def sw_lock_def sw_write_def sw_fine_def sw_ok_def)
    next
      case False
      then show ?thesis using SLock assms(4) again dec(2) f(2) by (auto simp: cas_weak_def sw_lock_def)
    qed
  next
    case SReplace
    then show ?thesis using assms(4) f core [of f "Inl SXor"] by (auto simp: sw_lock_def sw_write_def sw_fine_def sw_ok_def)
  next
    case SXor
    then have "f = WAKER_FLAG_LOCK" "cnt g_lock gs = 0" using f(4) by (auto simp: sw_lock_def of_bool_def split: if_splits)
    then show ?thesis using SXor assms(3,4) f core [of WAKER_FLAG_SET "Inr x" for x]
      by (auto simp: sw_lock_def sw_write_def sw_fine_def)
  next
    case SWrite
    then show ?thesis using assms(4) f core [of f "Inl SOr"] by (auto simp: sw_lock_def sw_write_def sw_fine_def sw_ok_def)
  next
    case SOr
    then have "f = 0" "cnt g_lock gs = 0" using f by (auto simp: sw_write_def sw_lock_def)
    then show ?thesis using SOr assms(3,4) f core [of WAKER_FLAG_SET "Inr x" for x]
      by (auto simp: sw_lock_def sw_write_def sw_fine_def)
  qed
qed


lemma wg_inv_some:
  "wg_box s = Some b \<Longrightarrow> wg_inv s \<longleftrightarrow> wg_frees s = 0 \<and> bo_ok (wi_backoff b) \<and> o_ok (wg_owner s) \<and> list_all g_ok (wg_guards s) \<and>
     wg_core (wi_state b) (of_bool (o_ref (wg_owner s))) (of_bool (o_lock (wg_owner s))) (of_bool (o_free (wg_owner s)))
       (o_write (wg_owner s)) (wg_guards s)"
  by (simp add: wg_inv_def)

lemma wg_inv_box:
  assumes "wg_inv s" "wg_owner s \<noteq> OGone"
  obtains b where "wg_box s = Some b"
  using assms by (cases "wg_box s") (auto simp: wg_inv_def)

lemma wg_core_weaken: "wg_core w ro lo fo wo gs \<Longrightarrow> wg_core w ro lo fo False gs"
  unfolding wg_core_def by meson

text \<open>A handle with its reference that neither holds the lock nor writes the waker.\<close>

definition o_plain :: "wg_opc \<Rightarrow> bool" where
  "o_plain p \<longleftrightarrow> o_ref p \<and> \<not> o_lock p \<and> \<not> o_write p"

lemma o_plain_simps [simp]:
  "o_plain OIdle" "o_plain (OPend k)" "o_plain (OTimer k)" "o_plain ODrop" "o_plain (ODropCas w)"
  "o_plain (OWait th td WCheck)" "o_plain (OWait th td (WSnooze sk bo))" "o_plain (OWait th td (WClock bo))"
  "o_plain (OWait th td (WPark bo))" "o_plain (OPoll k PCheck)" "o_plain (OPoll k PAgain)"
  "o_plain (OWait th td (WSet sk bo SLoad))" "o_plain (OPoll k (PSet SLoad))"
  by (simp_all add: o_plain_def o_ref_def o_free_def o_lock_def o_write_def)

lemma o_kind_simps [simp]:
  "o_ref (OWait th td wp)" "o_ref (OPoll k pp)" "o_ref OIdle" "o_ref (OPend k)" "o_ref (OTimer k)" "o_ref ODrop" "o_ref (ODropCas w)"
  "\<not> o_ref OGone" "\<not> o_ref (OFree i)" "o_free (OFree i)"
  "\<not> o_free (OWait th td wp)" "\<not> o_free (OPoll k pp)" "\<not> o_free OGone" "\<not> o_lock OGone" "\<not> o_lock (OFree i)"
  "\<not> o_write OGone" "\<not> o_write (OFree i)"
  "o_lock (OWait th td (WSet sk bo pc)) = sw_lock (Inl pc)" "o_lock (OPoll k (PSet pc)) = sw_lock (Inl pc)"
  "o_write (OWait th td (WSet sk bo pc)) = sw_write (Inl pc)" "o_write (OPoll k (PSet pc)) = sw_write (Inl pc)"
  by (auto simp: o_ref_def o_free_def o_lock_def o_write_def sw_lock_def sw_write_def)

lemma o_plain_kind: "o_plain p \<Longrightarrow> o_ref p \<and> \<not> o_lock p \<and> \<not> o_free p \<and> \<not> o_write p"
  by (auto simp: o_plain_def o_ref_def)

text \<open>What the owner needs of the cell while it holds its reference, and how it moves on.\<close>

lemma wg_inv_plain:
  assumes "wg_inv s" "wg_box s = Some b" "o_plain (wg_owner s)" "o_plain (wg_owner s')" "o_ok (wg_owner s')"
    "case wg_box s' of None \<Rightarrow> False | Some b' \<Rightarrow> wi_state b' = wi_state b \<and> wi_backoff b' = wi_backoff b"
    "wg_guards s' = wg_guards s" "wg_frees s' = wg_frees s"
  shows "wg_inv s'"
  using assms o_plain_kind [OF assms(3)] o_plain_kind [OF assms(4)]
  by (cases "wg_box s'") (simp_all add: wg_inv_some)

lemma wg_inv_flag:
  assumes "wg_inv s" "wg_box s = Some b" "o_ref (wg_owner s)"
  obtains f where "f \<in> wf_flags" "wi_state b = wst f (1 + cnt g_ref (wg_guards s))" "cnt g_free (wg_guards s) = 0"
    "of_bool (o_lock (wg_owner s)) + cnt g_lock (wg_guards s) = of_bool (f = WAKER_FLAG_LOCK)" "o_write (wg_owner s) \<longrightarrow> f = 0"
  using assms by (auto simp: wg_inv_some wg_core_def)

lemma snooze_ok:
  assumes "bo_ok (config bo)"
  obtains bo' p r where "backoff_snooze bo = Done (bo', p, r)" "config bo' = config bo"
  using assms snooze_step [of bo] by (cases "unat (step bo) < unat (limit (config bo))") (auto simp: bo_ok_def)


lemma o_ok_simps [simp]:
  "o_ok OIdle" "o_ok (OPend k)" "o_ok (OTimer k)" "o_ok ODrop" "o_ok OGone" "o_ok (OFree i)"
  "o_ok (ODropCas w) \<longleftrightarrow> st_is_locked w \<or> 1 < st_count w"
  "o_ok (OWait th td WCheck)" "o_ok (OWait th td (WSnooze sk bo)) = bo_ok (config bo)"
  "o_ok (OWait th td (WSet sk bo pc)) \<longleftrightarrow> bo_ok (config bo) \<and> sw_ok pc"
  "o_ok (OWait th td (WClock bo)) = bo_ok (config bo)" "o_ok (OWait th td (WPark bo)) = bo_ok (config bo)"
  "o_ok (OPoll k PCheck)" "o_ok (OPoll k PAgain)" "o_ok (OPoll k (PSet pc)) = sw_ok pc"
  by (auto simp: o_ok_def)

lemma wg_with_some [simp]: "wg_box s = Some b \<Longrightarrow> wg_with s f = f b"
  by (simp add: wg_with_def)

text \<open>The bound on the number of guards under which the count stays clear of the flags.\<close>

definition room :: "'a wg_sys \<Rightarrow> bool" where
  "room s \<longleftrightarrow> length (wg_guards s) < 2 ^ 62 - 4"

lemma room_ok: "room s \<Longrightarrow> count_ok (1 + cnt g_ref (wg_guards s))"
  using cnt_le [of g_ref "wg_guards s"] by (simp add: room_def count_ok_def)

lemma sw_move:
  assumes "wg_inv s" "wg_box s = Some b" "room s" "sw_of (wg_owner s) = Some pc" "o_ref (wg_owner s)"
    "sw_step t sk k env pc b = (b', r)"
    "wg_box s' = Some b'" "wg_guards s' = wg_guards s" "wg_frees s' = wg_frees s" "o_ok (wg_owner s')" "o_ref (wg_owner s')"
    "sw_of (wg_owner s') = (case r of Inl pc' \<Rightarrow> Some pc' | Inr _ \<Rightarrow> None)"
  shows "wg_inv s'"
proof -
  have k: "o_lock (wg_owner s) = sw_lock (Inl pc)" "o_write (wg_owner s) = sw_write (Inl pc)" "\<not> o_free (wg_owner s)"
    "o_lock (wg_owner s') = sw_lock r" "o_write (wg_owner s') = sw_write r" "\<not> o_free (wg_owner s')"
    using assms(4,5,11,12) by (auto simp: o_lock_def o_write_def sw_lock_def sw_write_def o_ref_def split: sum.splits)
  have "sw_ok pc" using assms(1,2,4) by (simp add: wg_inv_some o_ok_def)
  then show ?thesis using assms sw_step_core [OF _ _ room_ok [OF assms(3)] assms(6)] k
    by (simp add: wg_inv_some)
qed

lemma sw_step_ok:
  assumes "wg_inv s" "wg_box s = Some b" "room s" "sw_of (wg_owner s) = Some pc" "o_ref (wg_owner s)"
    "sw_step t sk k env pc b = (b', r)"
  shows "wi_backoff b' = wi_backoff b" "r = Inl pc' \<Longrightarrow> sw_ok pc'"
proof -
  have k: "o_lock (wg_owner s) = sw_lock (Inl pc)" "o_write (wg_owner s) = sw_write (Inl pc)" "\<not> o_free (wg_owner s)"
    using assms(4,5) by (auto simp: o_lock_def o_write_def sw_lock_def sw_write_def o_ref_def)
  have "sw_ok pc" using assms(1,2,4) by (simp add: wg_inv_some o_ok_def)
  then have "wi_backoff b' = wi_backoff b \<and> sw_fine r"
    using assms(1,2,5) sw_step_core [OF _ _ room_ok [OF assms(3)] assms(6)] k by (simp add: wg_inv_some)
  then show "wi_backoff b' = wi_backoff b" "r = Inl pc' \<Longrightarrow> sw_ok pc'" by (simp_all add: sw_fine_def)
qed

definition grows :: "'a wg_sys \<Rightarrow> 'a wg_sys \<Rightarrow> bool" where
  "grows s s' \<longleftrightarrow> length (wg_guards s') \<le> Suc (length (wg_guards s))"

lemma wait_step_inv:
  assumes "wg_inv s" "room s" "wg_owner s = OWait th td pc"
  shows "total (wg_wait_step t th td env pc s) (\<lambda>s'. wg_inv s' \<and> grows s s')"
proof -
  obtain b where b: "wg_box s = Some b" using assms by (auto elim: wg_inv_box)
  have ok: "o_ok (OWait th td pc)" "bo_ok (wi_backoff b)" using assms(1,3) b by (simp_all add: wg_inv_some)
  show ?thesis
  proof (cases pc)
    case (WSnooze sk bo)
    with ok(1) have "bo_ok (config bo)" by simp
    then obtain bo' p r where "backoff_snooze bo = Done (bo', p, r)" "config bo' = config bo" by (rule snooze_ok)
    then show ?thesis using assms b ok WSnooze
      by (auto simp: wg_wait_step_def grows_def wg_return_def Let_def sw_ok_def intro!: wg_inv_plain [OF assms(1) b])
  next
    case (WSet sk bo sp)
    then have sp: "sw_of (wg_owner s) = Some sp" "o_ref (wg_owner s)" using assms(3) by simp_all
    obtain b' r where st: "sw_step t sk (Blocking th) env sp b = (b', r)" by fastforce
    note mv = sw_move [OF assms(1) b assms(2) sp st] and stp = sw_step_ok [OF assms(1) b assms(2) sp st]
    show ?thesis
    proof (cases r)
      case (Inl pc')
      then show ?thesis using st WSet ok b stp(2) 
        by (auto simp: wg_wait_step_def grows_def Let_def intro!: mv)
    next
      case (Inr x)
      then show ?thesis using st WSet ok b stp(1)
        by (cases x) (auto simp: wg_wait_step_def grows_def Let_def wg_return_def intro!: mv)
    qed
  qed (use assms b ok in \<open>auto simp: wg_wait_step_def grows_def wg_return_def backoff_from_def backoff_reset_def Let_def
      intro!: wg_inv_plain [OF assms(1) b]\<close>)
qed


lemma poll_step_inv:
  assumes "wg_inv s" "room s" "wg_owner s = OPoll k pc"
  shows "total (wg_poll_step k env pc s) (\<lambda>s'. wg_inv s' \<and> grows s s')"
proof (cases "wg_fut s")
  case None
  then show ?thesis using assms by (simp add: wg_poll_step_def grows_def)
next
  case (Some fu)
  obtain b where b: "wg_box s = Some b" using assms by (auto elim: wg_inv_box)
  show ?thesis
  proof (cases pc)
    case (PSet sp)
    then have sp: "sw_of (wg_owner s) = Some sp" "o_ref (wg_owner s)" using assms(3) by simp_all
    obtain b' r where st: "sw_step (fu_threshold fu) False (Async k) env sp b = (b', r)" by fastforce
    note mv = sw_move [OF assms(1) b assms(2) sp st] and stp = sw_step_ok [OF assms(1) b assms(2) sp st]
    show ?thesis
    proof (cases r)
      case (Inl pc')
      then show ?thesis using st PSet Some b stp(2) by (auto simp: wg_poll_step_def grows_def intro!: mv)
    next
      case (Inr x)
      then show ?thesis using st PSet Some b stp(1)
        by (cases x) (auto simp: wg_poll_step_def grows_def wg_return_def wg_ready_def intro!: mv)
    qed
  qed (use assms b Some in \<open>auto simp: wg_poll_step_def grows_def wg_return_def wg_ready_def sw_ok_def
      intro!: wg_inv_plain [OF assms(1) b] split: bool.split\<close>)
qed

lemma destroy_decide_ok:
  assumes "wg_inv s" "wg_box s = Some b" "room s" "o_plain (wg_owner s)"
    "wg_box s' = Some b" "wg_guards s' = wg_guards s" "wg_frees s' = wg_frees s" "wg_owner s' = destroy_decide (wi_state b)"
  shows "wg_inv s'"
proof -
  have r: "o_ref (wg_owner s)" "\<not> o_lock (wg_owner s)" using assms(4) by (simp_all add: o_plain_def)
  obtain f where f: "f \<in> wf_flags" "wi_state b = wst f (1 + cnt g_ref (wg_guards s))" "cnt g_free (wg_guards s) = 0"
    "of_bool (o_lock (wg_owner s)) + cnt g_lock (wg_guards s) = of_bool (f = WAKER_FLAG_LOCK)"
    using wg_inv_flag [OF assms(1,2) r(1)] by blast
  show ?thesis
  proof (cases "st_is_locked (wi_state b) \<or> 1 < st_count (wi_state b)")
    case True
    then show ?thesis using assms by (intro wg_inv_plain [OF assms(1,2,4)]) (simp_all add: destroy_decide_def)
  next
    case False
    then have "f \<noteq> WAKER_FLAG_LOCK" "\<not> 1 < st_count (wst f (1 + cnt g_ref (wg_guards s)))"
      using f(1,2) room_ok [OF assms(3)] by auto
    then have "cnt g_ref (wg_guards s) = 0" "cnt g_lock (wg_guards s) = 0"
      using f(4) r(2) of_nat_count(2) [OF room_ok [OF assms(3)], of 1] unfolding wst_simps(1) [OF f(1) room_ok [OF assms(3)]]
      by simp_all
    with False f(3) assms show ?thesis by (simp add: wg_inv_some destroy_decide_def wg_core_def)
  qed
qed

lemma destroy_load_inv:
  assumes "wg_inv s" "room s" "wg_owner s = ODrop"
  shows "total (wg_destroy_load s) (\<lambda>s'. wg_inv s' \<and> grows s s')"
proof -
  obtain b where b: "wg_box s = Some b" using assms by (auto elim: wg_inv_box)
  then show ?thesis using assms
    by (auto simp: wg_destroy_load_def grows_def intro: destroy_decide_ok [OF assms(1) b assms(2)])
qed


lemma cas_pc_nonzero: "st_is_locked w \<or> 1 < st_count w \<Longrightarrow> checked_sub w 1 = Done (w - 1)"
  by (auto simp: checked_sub_def st_is_locked_def st_count_def Suc_le_eq unat_gt_0)

lemma destroy_cas_inv:
  assumes "wg_inv s" "room s" "wg_owner s = ODropCas w"
  shows "total (wg_destroy_cas env w s) (\<lambda>s'. wg_inv s' \<and> grows s s')"
proof -
  obtain b where b: "wg_box s = Some b" using assms by (auto elim: wg_inv_box)
  have w: "st_is_locked w \<or> 1 < st_count w" using assms b by (simp add: wg_inv_some)
  have r: "o_ref (wg_owner s)" "\<not> o_lock (wg_owner s)" using assms(3) by (simp_all add: o_lock_def)
  obtain f where f: "f \<in> wf_flags" "wi_state b = wst f (1 + cnt g_ref (wg_guards s))" "cnt g_free (wg_guards s) = 0"
    "of_bool (o_lock (wg_owner s)) + cnt g_lock (wg_guards s) = of_bool (f = WAKER_FLAG_LOCK)"
    using wg_inv_flag [OF assms(1) b r(1)] by blast
  show ?thesis
  proof (cases "wi_state b = w \<and> \<not> env")
    case True
    then have eq: "w = wst f (1 + cnt g_ref (wg_guards s))" using f(2) by simp
    have "f = WAKER_FLAG_LOCK \<or> 0 < cnt g_ref (wg_guards s)"
      using w of_nat_count(2) [OF room_ok [OF assms(2)], of 1] unfolding eq wst_simps(1,4) [OF f(1) room_ok [OF assms(2)]]
      by simp
    moreover have "w - 1 = wst f (cnt g_ref (wg_guards s))" by (simp add: eq)
    ultimately have "wg_core (w - 1) 0 0 0 False (wg_guards s)"
      using f(1,3,4) r(2) unfolding wg_core_def by auto
    then show ?thesis using assms(1) b True cas_pc_nonzero [OF w]
      by (simp add: wg_destroy_cas_def cas_weak_def grows_def wg_inv_some)
  next
    case False
    then show ?thesis using assms b cas_pc_nonzero [OF w]
      by (auto simp: wg_destroy_cas_def cas_weak_def grows_def intro!: destroy_decide_ok [OF assms(1) b assms(2)])
  qed
qed

text \<open>Freeing leaves nobody behind who would touch the cell.\<close>

lemma cnt_zero: "cnt P xs = 0 \<longleftrightarrow> (\<forall>x \<in> set xs. \<not> P x)"
  by (simp add: cnt_def filter_empty_conv)

lemma all_out:
  assumes "cnt g_ref gs = 0" "cnt g_lock gs = 0" "cnt g_free gs = 0"
  shows "list_all g_out gs"
  using assms g_cases by (auto simp: cnt_zero list_all_iff)

lemma owner_free_inv:
  assumes "wg_inv s" "wg_owner s = OFree i"
  shows "total (wg_owner_free i s) (\<lambda>s'. wg_inv s' \<and> grows s s')"
proof -
  obtain b where b: "wg_box s = Some b" using assms by (auto elim: wg_inv_box)
  have "list_all g_out (wg_guards s)" using assms b by (intro all_out) (auto simp: wg_inv_some wg_core_def)
  then show ?thesis using assms b
    by (simp add: wg_owner_free_def wg_deref_def wg_free_def grows_def wg_inv_def)
qed

lemma guard_free_inv:
  assumes "wg_inv s" "i < length (wg_guards s)" "wg_guards s ! i = GFree"
  shows "total (exec_map (wg_goto i GGone) (wg_free s)) (\<lambda>s'. wg_inv s' \<and> grows s s')"
proof -
  have "\<not> g_out (wg_guards s ! i)" using assms(3) by simp
  then obtain b where b: "wg_box s = Some b" using assms(1,2)
    by (cases "wg_box s") (auto simp: wg_inv_def list_all_length)
  let ?o = "wg_owner s" and ?gs = "wg_guards s"
  have core: "wg_core (wi_state b) (of_bool (o_ref ?o)) (of_bool (o_lock ?o)) (of_bool (o_free ?o)) (o_write ?o) ?gs"
    using assms(1) b by (simp add: wg_inv_some)
  moreover have "0 < cnt g_free ?gs" using assms(2,3) by (intro cnt_pos) (simp_all add: g_free_def)
  ultimately have z: "of_bool (o_free ?o) + cnt g_free ?gs = 1" "of_bool (o_ref ?o) + cnt g_ref ?gs = (0 :: nat)"
      "of_bool (o_lock ?o) + cnt g_lock ?gs = (0 :: nat)"
    unfolding wg_core_def by linarith+
  with assms(2,3) have "list_all g_out (?gs[i := GGone])"
    by (intro all_out) (simp_all add: cnt_split g_free_def)
  moreover have "?o = OGone" using z \<open>0 < cnt g_free ?gs\<close> by (auto simp: o_ref_def)
  ultimately show ?thesis using assms(1) b
    by (simp add: wg_free_def wg_goto_def grows_def wg_inv_def)
qed


section \<open>Every turn\<close>

lemma succ_ok: "(t :: usize) \<noteq> - 1 \<Longrightarrow> checked_add t 1 = Done (t + 1)"
proof -
  assume "t \<noteq> - 1"
  then have "1 + t \<noteq> 0" by (simp add: add_eq_0_iff)
  then have "unat (1 + t) = Suc (unat t)" by (rule unatSuc)
  moreover have "unat (1 + t) < 2 ^ LENGTH(64)" by (rule unsigned_less)
  ultimately show ?thesis by (simp add: checked_add_def)
qed

lemma left_exact:
  assumes "wg_inv s" "o_ref (wg_owner s)" "room s"
  shows "wg_get_left s = Done (of_nat (cnt g_ref (wg_guards s)))"
proof -
  have "wg_owner s \<noteq> OGone" using assms(2) by auto
  then obtain b where b: "wg_box s = Some b" using assms(1) by (auto elim: wg_inv_box)
  obtain f where f: "f \<in> wf_flags" "wi_state b = wst f (1 + cnt g_ref (wg_guards s))"
    using wg_inv_flag [OF assms(1) b assms(2)] by blast
  have "wi_count b = of_nat (1 + cnt g_ref (wg_guards s))"
    using wst_simps(2) [OF f(1) room_ok [OF assms(3)]] by (simp add: wi_count_def f(2))
  then show ?thesis using unat_count [OF room_ok [OF assms(3)]] by (simp add: wg_get_left_def b checked_sub_def)
qed

lemma add_inv:
  assumes "wg_inv s" "wg_box s = Some b" "room s" "\<not> o_free (wg_owner s)" "cnt g_free (wg_guards s) = 0"
    "o_ref (wg_owner s) \<or> 0 < cnt g_ref (wg_guards s)"
  shows "total (exec_map (\<lambda>b'. s\<lparr>wg_box := Some b', wg_guards := wg_guards s @ [GLive t]\<rparr>) (wi_add 1 b))
    (\<lambda>s'. wg_inv s' \<and> grows s s')"
proof -
  let ?n = "of_bool (o_ref (wg_owner s)) + cnt g_ref (wg_guards s)"
  obtain f where f: "f \<in> wf_flags" "wi_state b = wst f ?n"
    "of_bool (o_lock (wg_owner s)) + cnt g_lock (wg_guards s) = of_bool (f = WAKER_FLAG_LOCK)" "o_write (wg_owner s) \<longrightarrow> f = 0"
    using assms by (auto simp: wg_inv_some wg_core_def)
  have n: "?n < 2 ^ 62 - 3" using assms(3) cnt_le [of g_ref "wg_guards s"] by (simp add: room_def of_bool_def)
  then have ok: "count_ok ?n" by (simp add: count_ok_def)
  have "unat (COUNT_MASK - 2) = 2 ^ 62 - 3" by (simp add: wg_consts mask_eq_exp_minus_1)
  then have "\<not> COUNT_MASK - 2 \<le> st_count (wi_state b)"
    using n by (simp only: word_le_nat_alt f(2) wst_simps(1) [OF f(1) ok] unat_count [OF ok])
  then have "wi_add 1 b = Done (b\<lparr>wi_state := wst f (Suc ?n)\<rparr>)" by (simp add: wi_add_def f(2))
  moreover have "wg_core (wst f (Suc ?n)) (of_bool (o_ref (wg_owner s))) (of_bool (o_lock (wg_owner s)))
      (of_bool (o_free (wg_owner s))) (o_write (wg_owner s)) (wg_guards s @ [GLive t])"
    using assms(4,5) f(1,3,4) by (auto simp: wg_core_def g_free_def)
  ultimately show ?thesis using assms(1,2) by (simp add: wg_inv_some grows_def)
qed


lemma call_inv:
  assumes "wg_inv s" "room s" "wg_owner s = OIdle \<or> wg_owner s = OPend k" "turn_ok (OwnerTurn c env) s"
  shows "total (wg_owner_call c s) (\<lambda>s'. wg_inv s' \<and> grows s s')"
proof -
  have p: "o_plain (wg_owner s)" "o_ref (wg_owner s)" "\<not> o_lock (wg_owner s)" using assms(3) by (auto simp: o_lock_def)
  obtain b where b: "wg_box s = Some b" using assms(1,3) by (auto elim: wg_inv_box)
  obtain f where f: "f \<in> wf_flags" "wi_state b = wst f (1 + cnt g_ref (wg_guards s))" "cnt g_free (wg_guards s) = 0"
    "of_bool (o_lock (wg_owner s)) + cnt g_lock (wg_guards s) = of_bool (f = WAKER_FLAG_LOCK)"
    using wg_inv_flag [OF assms(1) b p(2)] by blast
  note left = left_exact [OF assms(1) p(2) assms(2)]
  have n: "count_ok (cnt g_ref (wg_guards s))" using room_ok [OF assms(2)] by (rule count_ok_le) simp
  note plain = wg_inv_plain [OF assms(1) b p(1)]
  have ok: "o_ok (wg_owner s)" using assms(1) b by (simp add: wg_inv_some)
  show ?thesis
  proof (cases c)
    case CAddGuard
    then show ?thesis using add_inv [OF assms(1) b assms(2)] p o_plain_kind [OF p(1)] f(3) b by (simp add: wg_add_guard_def)
  next
    case (CSetThreshold t)
    then show ?thesis using assms(4) b
      by (auto simp: wg_set_threshold_def succ_ok grows_def intro!: plain)
  next
    case CTryInto
    then have "f \<noteq> WAKER_FLAG_LOCK" using assms(2,4) f(1,2) b room_ok [OF assms(2)] by simp
    then have "wg_core (wi_state b) 0 0 1 False (wg_guards s)" if "cnt g_ref (wg_guards s) = 0"
      using that f(3,4) p(3) by (simp add: wg_core_def)
    then have "wg_inv (s\<lparr>wg_fut := None, wg_owner := OFree True\<rparr>)" if "cnt g_ref (wg_guards s) = 0"
      using that b assms(1) by (simp add: wg_inv_some)
    then show ?thesis using CTryInto b n
      by (auto simp: wg_try_into_inner_def left grows_def wg_return_def intro!: plain)
  qed (use b n left p(1) ok in \<open>auto simp: wg_observe_def wg_try_wait_def wg_deref_def wg_wait_async_def wg_poll_def wg_wait_def
        wg_get_mut_def wg_return_def grows_def left split: option.split intro!: plain\<close>)
qed

lemma done_ptr_inv:
  assumes "wg_inv s" "room s" "i < length (wg_guards s)" "wg_guards s ! i = GDone t pc"
  shows "total (wg_done_ptr i t env pc s) (\<lambda>s'. wg_inv s' \<and> grows s s')"
proof (cases "\<exists>w. pc = DWake w")
  case True
  then obtain w where w: "pc = DWake w" by blast
  have core: "wg_core x ro lo fo wo (wg_guards s) \<Longrightarrow> wg_core x ro lo fo wo ((wg_guards s)[i := GGone])" for x ro lo fo wo
    using assms(3,4) w by (simp add: wg_core_at wg_at_def g_free_def)
  show ?thesis using assms w core
    by (cases "wg_box s") (auto simp: wg_done_ptr_def wg_goto_def grows_def wg_inv_def list_all_update)
next
  case False
  let ?o = "wg_owner s" and ?gs = "wg_guards s"
  have "\<not> g_out (?gs ! i)" using assms(4) False by (cases pc) auto
  then obtain b where b: "wg_box s = Some b" using assms(1,3)
    by (cases "wg_box s") (auto simp: wg_inv_def list_all_length)
  let ?at = "\<lambda>w g. wg_at w (of_bool (o_ref ?o)) (of_bool (o_lock ?o)) (of_bool (o_free ?o)) (o_write ?o)
    (others g_ref ?gs i, others g_lock ?gs i, others g_free ?gs i) g"
  have at: "?at (wi_state b) (GDone t pc)"
    using assms(1,3,4) b by (simp add: wg_inv_some wg_core_at(1))
  have ok: "g_ok (GDone t pc)" using list_all_nth [OF _ assms(3), of g_ok] assms(1,4) b by (simp add: wg_inv_some)
  have rm: "count_ok (of_bool (o_ref ?o) + others g_ref ?gs i + 1)"
    using assms(2,3) cnt_le [of g_ref ?gs] by (auto simp: count_ok_def room_def cnt_split of_bool_def split: if_splits)
  have own: "of_bool (o_lock ?o) \<le> (of_bool (o_ref ?o) :: nat)"
    by (auto simp: o_lock_def o_ref_def o_free_def elim!: sw_of.elims)
  have "\<forall>w. pc \<noteq> DWake w" using False by blast
  from dn_step_at [OF at ok rm own this, of env]
  obtain b' x where st: "dn_step True 1 t env pc b = Done (b', x)" "?at (wi_state b') (dn_next t x)" "g_ok (dn_next t x)"
    "wi_backoff b' = wi_backoff b" by (auto simp: total_def)
  have "wg_done_ptr i t env pc s = Done (wg_goto i (dn_next t x) (s\<lparr>wg_box := Some b'\<rparr>))"
    using False st(1) b by (cases pc) (auto simp: wg_done_ptr_def dn_next_def)
  then show ?thesis using assms(1,3) b st(2-4)
    by (simp add: wg_goto_def grows_def wg_inv_some wg_core_at(2) list_all_update)
qed


lemma guard_step_inv:
  assumes "wg_inv s" "room s"
  shows "total (wg_gstep i c env s) (\<lambda>s'. wg_inv s' \<and> grows s s')"
proof (cases "i < length (wg_guards s)")
  case i: True
  let ?o = "wg_owner s" and ?gs = "wg_guards s"
  show ?thesis
  proof (cases "?gs ! i")
    case (GLive t)
    then have "\<not> g_out (?gs ! i)" by simp
    then obtain b where b: "wg_box s = Some b" using assms(1) i
      by (cases "wg_box s") (auto simp: wg_inv_def list_all_length)
    have pos: "0 < cnt g_ref ?gs" using GLive by (intro cnt_pos [OF i]) simp
    have core: "wg_core (wi_state b) (of_bool (o_ref ?o)) (of_bool (o_lock ?o)) (of_bool (o_free ?o)) (o_write ?o) ?gs"
      using assms(1) b by (simp add: wg_inv_some)
    with pos have fr: "\<not> o_free ?o" "cnt g_free ?gs = 0" by (auto simp: wg_core_def)
    have "wg_core x ro lo fo wo ?gs \<Longrightarrow> wg_core x ro lo fo wo (?gs[i := GDone t DLoad])" for x ro lo fo wo
      using i GLive by (simp add: wg_core_at wg_at_def g_free_def)
    with assms(1) b have "wg_inv (wg_goto i (GDone t DLoad) s)"
      by (simp add: wg_inv_some wg_goto_def list_all_update)
    then show ?thesis using GLive i b assms(1) add_inv [OF assms(1) b assms(2) fr] pos
      by (cases c) (simp_all add: wg_gstep_def wg_guard_clone_def wg_deref_def grows_def, simp add: wg_goto_def)
  qed (use assms i done_ptr_inv [OF assms i] guard_free_inv [OF assms(1) i] in \<open>simp_all add: wg_gstep_def grows_def\<close>)
qed (use assms in \<open>simp add: wg_gstep_def grows_def\<close>)

lemma step_inv:
  assumes "wg_inv s" "room s" "turn_ok t s"
  shows "total (wg_step t s) (\<lambda>s'. wg_inv s' \<and> grows s s')"
proof (cases t)
  case (OwnerTurn c env)
  show ?thesis
  proof (cases "wg_owner s")
    case (OTimer k)
    then obtain b where b: "wg_box s = Some b" using assms by (auto elim: wg_inv_box)
    have "wg_inv (wg_timer_step k env s) \<and> grows s (wg_timer_step k env s)"
      using OTimer assms(1) b
      by (auto simp: wg_timer_step_def wg_ready_def wg_return_def grows_def split: option.split intro!: wg_inv_plain [OF assms(1) b])
    then show ?thesis using OwnerTurn OTimer by (simp add: wg_ostep_def)
  qed (use OwnerTurn assms call_inv [OF assms(1,2) _ assms(3) [unfolded OwnerTurn]] wait_step_inv [OF assms(1,2)]
      poll_step_inv [OF assms(1,2)] destroy_load_inv [OF assms(1,2)] destroy_cas_inv [OF assms(1,2)] owner_free_inv [OF assms(1)]
      in \<open>simp_all add: wg_ostep_def grows_def\<close>)
next
  case (GuardTurn i c env)
  then show ?thesis using guard_step_inv [OF assms(1,2)] by simp
qed

lemma run_inv:
  assumes "wg_inv s" "length (wg_guards s) + length ts < 2 ^ 62 - 4" "wg_calm ts s"
  shows "total (wg_run ts s) (\<lambda>s'. wg_inv s' \<and> length (wg_guards s') \<le> length (wg_guards s) + length ts)"
  using assms
proof (induction ts arbitrary: s)
  case (Cons t ts)
  then have "total (wg_step t s) (\<lambda>s'. wg_inv s' \<and> grows s s')" by (intro step_inv) (simp_all add: room_def)
  then obtain s' where s': "wg_step t s = Done s'" "wg_inv s'" "grows s s'" by (auto simp: total_def)
  with Cons.prems have "total (wg_run ts s') (\<lambda>s''. wg_inv s'' \<and> length (wg_guards s'') \<le> length (wg_guards s') + length ts)"
    by (intro Cons.IH) (simp_all add: grows_def)
  with s'(1,3) show ?case by (auto simp: grows_def elim!: total_mono)
qed simp

lemma new_inv:
  assumes "unat (spin_limit (config_detect g)) \<le> 31" "wg_new g x t = Done s"
  shows "wg_inv s" "wg_guards s = []" "wg_fut s = None" "wg_owner s = OIdle"
proof -
  have s: "wg_box s = Some (wi_new g x 1)" "wg_owner s = OIdle" "wg_guards s = []" "wg_frees s = 0" "wg_fut s = None"
    using assms(2) by (auto simp: wg_new_def exec_map_Done_iff)
  have "wg_core 1 1 0 0 False []" unfolding wg_core_def by (auto simp: wst_def intro: bexI [of _ 0])
  then show "wg_inv s" using s assms(1) o_plain_kind [of OIdle] by (simp add: wg_inv_some wi_new_def bo_ok_def)
qed (use assms(2) in \<open>auto simp: wg_new_def exec_map_Done_iff\<close>)

section \<open>Properties\<close>

text \<open>
  C9. The shared cell of a wait group is freed exactly once and nobody touches it afterwards. Under every schedule of
  the handle and any number of guards, down to single atomic accesses, with spurious exchange failures, timeouts and
  spurious wake-ups, nothing faults (no use after free, no double free, no panic about the count); the cell is freed at
  most once, only when the handle and every guard are done with it, and it is freed once they all are. Assumed: fewer
  than 2 to the 62 less 4 turns, thresholds that fit, and no \<^verbatim>\<open>try_into_inner\<close> while a guard holds the waker lock.
\<close>

theorem wait_group_freed_once:
  assumes "unat (spin_limit (config_detect g)) \<le> 31" "wg_new g x t = Done s0" "length ts < 2 ^ 62 - 4" "wg_calm ts s0"
  shows "\<exists>s. wg_run ts s0 = Done s \<and> wg_frees s = of_bool (wg_box s = None) \<and>
    (wg_box s = None \<longrightarrow> wg_owner s = OGone \<and> list_all g_out (wg_guards s)) \<and>
    (wg_owner s = OGone \<and> list_all (\<lambda>g. g = GGone) (wg_guards s) \<longrightarrow> wg_box s = None)"
proof -
  obtain s where s: "wg_run ts s0 = Done s" "wg_inv s"
    using run_inv [of s0 ts] new_inv [OF assms(1,2)] assms(3,4) by (auto simp: total_def)
  have "wg_box s = None" if "wg_owner s = OGone" "list_all (\<lambda>g. g = GGone) (wg_guards s)"
  proof (rule ccontr)
    assume "wg_box s \<noteq> None"
    then obtain b where "wg_box s = Some b" by auto
    with s(2) that(1) have "wg_core (wi_state b) 0 0 0 False (wg_guards s)" by (simp add: wg_inv_some)
    moreover have "cnt g_ref (wg_guards s) = 0" "cnt g_lock (wg_guards s) = 0" "cnt g_free (wg_guards s) = 0"
      using that(2) by (auto simp: cnt_zero list_all_iff g_free_def)
    ultimately show False by (simp add: wg_core_def)
  qed
  then show ?thesis using s by (cases "wg_box s") (auto simp: wg_inv_def)
qed

theorem wait_group_freed_once_witness:
  "\<exists>s. exec_bind (wg_new backoff_globals_init 7 0) (wg_run drop_both) = Done s \<and> wg_frees s = 1 \<and> wg_box s = None"
proof -
  obtain s0 where s0: "wg_new backoff_globals_init (7 :: nat) 0 = Done s0"
    by (simp add: wg_new_def checked_add_def)
  have "unat (spin_limit (config_detect backoff_globals_init)) \<le> 31" by code_simp
  moreover have "length drop_both < 2 ^ 62 - 4" by (simp add: drop_both_def)
  ultimately show ?thesis using wait_group_freed_once [OF _ s0, of drop_both] drop_both_run s0 by (auto split: exec.splits)
qed

text \<open>
  C28. The count is exact and the waker slot is never shared. While the handle exists, \<^verbatim>\<open>get_left\<close> answers the number
  of guards that have not given up their reference, without underflow; and at no time are two parties about to access
  the unsynchronised waker slot of the cell.
\<close>

theorem wait_group_count_exact:
  assumes "unat (spin_limit (config_detect g)) \<le> 31" "wg_new g x t = Done s0" "length ts < 2 ^ 62 - 4" "wg_calm ts s0"
    "wg_run ts s0 = Done s" "wg_box s = Some b" "o_ref (wg_owner s)"
  shows "wg_get_left s = Done (of_nat (cnt g_ref (wg_guards s))) \<and>
    of_bool (sw_of (wg_owner s) \<in> {Some SReplace, Some SWrite}) + cnt (\<lambda>g. \<exists>t. g = GDone t DTake) (wg_guards s) \<le> 1"
proof -
  let ?take = "\<lambda>g. \<exists>t. g = GDone t DTake" and ?o = "wg_owner s" and ?gs = "wg_guards s"
  have s: "wg_inv s" "room s"
    using run_inv [of s0 ts] new_inv [OF assms(1,2)] assms(3-5) by (auto simp: total_def room_def)
  obtain f where f: "of_bool (o_lock ?o) + cnt g_lock ?gs = of_bool (f = WAKER_FLAG_LOCK)" "o_write ?o \<longrightarrow> f = 0"
    using wg_inv_flag [OF s(1) assms(6,7)] by blast
  have "filter ?take (filter g_lock gs) = filter ?take gs" for gs by (auto intro: filter_cong)
  then have le: "cnt ?take ?gs \<le> cnt g_lock ?gs" by (metis cnt_def length_filter_le)
  have lock: "of_bool (o_lock ?o) + cnt g_lock ?gs \<le> 1" using f(1) by simp
  have "cnt g_lock ?gs = 0" if "o_write ?o" using that f by simp
  then have "of_bool (sw_of ?o \<in> {Some SReplace, Some SWrite}) + cnt ?take ?gs \<le> 1"
    using le lock by (cases "o_lock ?o"; cases "o_write ?o") (auto simp: o_lock_def o_write_def)
  then show ?thesis using left_exact [OF s(1) assms(7) s(2)] by blast
qed

theorem wait_group_count_exact_witness:
  "\<exists>s. exec_bind (wg_new backoff_globals_init 7 0) (wg_run wait_and_drop) = Done s \<and>
     wg_guards s = [GDone 1 DTake] \<and> wg_get_left s = Done 0"
proof -
  obtain s0 where s0: "wg_new backoff_globals_init (7 :: nat) 0 = Done s0"
    by (simp add: wg_new_def checked_add_def)
  then obtain s b where s: "wg_run wait_and_drop s0 = Done s" "wg_calm wait_and_drop s0" "wg_owner s = OIdle" "wg_box s = Some b"
      "wg_guards s = [GDone 1 DTake]" using wait_and_drop_run by (auto split: exec.splits)
  have "unat (spin_limit (config_detect backoff_globals_init)) \<le> 31" by code_simp
  moreover have "length wait_and_drop < 2 ^ 62 - 4" by (simp add: wait_and_drop_def)
  ultimately show ?thesis using wait_group_count_exact [OF _ s0 _ s(2,1,4)] s s0 by simp
qed

text \<open>
  C17. A race in \<^verbatim>\<open>try_into_inner\<close>: it looks at the count only, not at the waker lock. In every state that handle and guards reach
  in which the handle is between calls, no guard holds a reference any more and some guard holds the waker lock (it gave up its reference when it took
  the lock, and has yet to take the waker out of the cell or to unlock), \<^verbatim>\<open>try_into_inner\<close> succeeds and frees the cell,
  and whatever that guard's next step is, it is a use after free.
\<close>

theorem try_into_inner_races:
  assumes "unat (spin_limit (config_detect g)) \<le> 31" "wg_new g x t = Done s0" "length ts < 2 ^ 62 - 4" "wg_calm ts s0" "wg_run ts s0 = Done s"
    and "wg_owner s = OIdle \<or> (\<exists>k. wg_owner s = OPend k)" "cnt g_ref (wg_guards s) = 0"
    and "i < length (wg_guards s)" "g_lock (wg_guards s ! i)"
  shows "\<exists>s' y. wg_run [OwnerTurn CTryInto env, OwnerTurn c env'] s = Done s' \<and> wg_results s' = wg_results s @ [RInto (Some y)] \<and>
    wg_box s' = None \<and> wg_step (GuardTurn i call env'') s' = Fault UseAfterFree"
proof -
  have s: "wg_inv s" "room s"
    using run_inv [of s0 ts] new_inv [OF assms(1,2)] assms(3-5) by (auto simp: total_def room_def)
  have o: "o_ref (wg_owner s)" "wg_owner s \<noteq> OGone" using assms(6) by (auto simp: o_ref_def o_free_def)
  obtain b where b: "wg_box s = Some b" using wg_inv_box [OF s(1) o(2)] by blast
  have left: "wg_get_left s = Done 0" using left_exact [OF s(1) o(1) s(2)] assms(7) by simp
  obtain th pc where pc: "wg_guards s ! i = GDone th pc" "pc = DTake \<or> (\<exists>k. pc = DUnlock k)"
    using assms(9) by (cases "wg_guards s ! i" rule: g_lock.cases) auto
  show ?thesis using assms(6,8) pc b left
    by (auto simp: wg_try_into_inner_def wg_ostep_def wg_owner_free_def wg_deref_def wg_free_def wg_with_def wg_gstep_def wg_done_ptr_def)
qed

theorem try_into_inner_races_witness:
  "\<exists>s s' y. exec_bind (wg_new backoff_globals_init (7 :: nat) 0) (wg_run wait_and_drop) = Done s \<and>
     wg_run [OwnerTurn CTryInto False, OwnerTurn CDeref False] s = Done s' \<and> wg_results s' = wg_results s @ [RInto (Some y)] \<and>
     wg_step (GuardTurn 0 GDrop False) s' = Fault UseAfterFree"
proof -
  obtain s0 where s0: "wg_new backoff_globals_init (7 :: nat) 0 = Done s0"
    by (simp add: wg_new_def checked_add_def)
  then obtain s where s: "wg_run wait_and_drop s0 = Done s" "wg_calm wait_and_drop s0" "wg_owner s = OIdle"
      "wg_guards s = [GDone 1 DTake]" using wait_and_drop_run by (auto split: exec.splits)
  have "unat (spin_limit (config_detect backoff_globals_init)) \<le> 31" by code_simp
  moreover have "length wait_and_drop < 2 ^ 62 - 4" by (simp add: wait_and_drop_def)
  moreover have "cnt g_ref (wg_guards s) = 0" by (simp add: s(4))
  ultimately show ?thesis
    using try_into_inner_races [OF _ s0 _ s(2,1), of 0 False CDeref False GDrop False] s s0 by auto
qed

end
