(* ===== verification/Wait_Wake.thy ===== *)
theory Wait_Wake
  imports Wait_Safety
begin

unbundle bit_operations_syntax

text \<open>
  No lost wake-up: a waiter that sleeps has its waker registered with the count above its threshold, or its waker
  is in the hands of a guard that will wake it, or it has been woken.
\<close>

section \<open>Where the waker is\<close>

definition registered :: "thin_waker \<Rightarrow> 'a wg_inner \<Rightarrow> bool" where
  "registered k b \<longleftrightarrow> st_has_waker (wi_state b) \<and> wi_waker b = Some k"

fun carries :: "thin_waker option \<Rightarrow> thin_waker \<Rightarrow> wg_gpc \<Rightarrow> bool" where
  "carries slot k (GDone t DTake) \<longleftrightarrow> slot = Some k"
| "carries slot k (GDone t (DUnlock w)) \<longleftrightarrow> w = Some k"
| "carries slot k (GDone t (DWake w)) \<longleftrightarrow> w = k"
| "carries slot k _ \<longleftrightarrow> False"

definition covered :: "thin_waker \<Rightarrow> usize \<Rightarrow> 'a wg_inner \<Rightarrow> wg_gpc list \<Rightarrow> thin_waker set \<Rightarrow> bool" where
  "covered k t b gs toks \<longleftrightarrow>
     k \<in> toks \<or> list_ex (carries (wi_waker b) k) gs \<or> registered k b \<and> t < st_count (wi_state b)"

text \<open>A registered waker is that of the waiter.\<close>

definition mine :: "thin_waker \<Rightarrow> 'a wg_inner \<Rightarrow> bool" where
  "mine k b \<longleftrightarrow> (st_has_waker (wi_state b) \<longrightarrow> wi_waker b = Some k)"

fun g_thr :: "usize \<Rightarrow> wg_gpc \<Rightarrow> bool" where
  "g_thr t (GLive t') \<longleftrightarrow> t \<le> t'"
| "g_thr t (GDone t' pc) \<longleftrightarrow> t \<le> t'"
| "g_thr t _ \<longleftrightarrow> True"

text \<open>What holds of the waiter at each of its points.\<close>

fun o_wake :: "usize \<Rightarrow> 'a wg_inner \<Rightarrow> wg_gpc list \<Rightarrow> thin_waker set \<Rightarrow> wg_opc \<Rightarrow> bool" where
  "o_wake t b gs toks (OWait th td (WSnooze sk bo)) \<longleftrightarrow> (sk \<longrightarrow> mine (Blocking th) b)"
| "o_wake t b gs toks (OWait th td (WSet sk bo pc)) \<longleftrightarrow>
     (sk \<longrightarrow> mine (Blocking th) b) \<and> (pc = SXor \<or> pc = SOr \<longrightarrow> wi_waker b = Some (Blocking th))"
| "o_wake t b gs toks (OWait th td (WClock bo)) \<longleftrightarrow> mine (Blocking th) b \<and> covered (Blocking th) t b gs toks"
| "o_wake t b gs toks (OWait th td (WPark bo)) \<longleftrightarrow> mine (Blocking th) b \<and> covered (Blocking th) t b gs toks"
| "o_wake t b gs toks (OPoll k PAgain) \<longleftrightarrow> covered (Async k) t b gs toks"
| "o_wake t b gs toks (OPoll k (PSet pc)) \<longleftrightarrow> (pc = SXor \<or> pc = SOr \<longrightarrow> wi_waker b = Some (Async k))"
| "o_wake t b gs toks (OTimer k) \<longleftrightarrow> covered (Async k) t b gs toks"
| "o_wake t b gs toks (OPend k) \<longleftrightarrow> covered (Async k) t b gs toks"
| "o_wake t b gs toks _ \<longleftrightarrow> True"

definition fut_ok :: "usize \<Rightarrow> 'a wg_inner \<Rightarrow> wg_future option \<Rightarrow> bool" where
  "fut_ok t b fut \<longleftrightarrow>
     (case fut of None \<Rightarrow> True | Some fu \<Rightarrow> fu_threshold fu = t \<and> (\<forall>k. fu_waker fu = Some k \<longrightarrow> mine (Async k) b))"

text \<open>The stored copy of the waker is that of the task that waits.\<close>

fun fut_at :: "wg_future option \<Rightarrow> wg_opc \<Rightarrow> bool" where
  "fut_at fut (OPoll k PAgain) \<longleftrightarrow> (\<exists>fu. fut = Some fu \<and> fu_waker fu = Some k)"
| "fut_at fut (OWait th td pc) \<longleftrightarrow> fut = None"
| "fut_at fut _ \<longleftrightarrow> True"

definition wk_inv :: "'a wg_sys \<Rightarrow> bool" where
  "wk_inv s \<longleftrightarrow> list_all (g_thr (wg_threshold s)) (wg_guards s) \<and>
     (case wg_box s of
        None \<Rightarrow> True
      | Some b \<Rightarrow> o_ref (wg_owner s) \<longrightarrow> fut_ok (wg_threshold s) b (wg_fut s) \<and> fut_at (wg_fut s) (wg_owner s) \<and>
          o_wake (wg_threshold s) b (wg_guards s) (wg_tokens s) (wg_owner s))"

section \<open>Guards\<close>

text \<open>How a guard's move and the waiter's view fit together.\<close>

lemma o_wake_mono:
  assumes "o_wake t b gs toks p" "\<And>k. mine k b \<Longrightarrow> mine k b'" "\<And>k. covered k t b gs toks \<Longrightarrow> covered k t b' gs' toks'"
    "\<And>k. o_write p \<or> o_lock p \<Longrightarrow> wi_waker b = Some k \<Longrightarrow> wi_waker b' = Some k"
  shows "o_wake t b' gs' toks' p"
proof -
  have w: "wi_waker b' = Some k" if "wi_waker b = Some k" "sw_of p = Some SXor \<or> sw_of p = Some SOr" for k
    using that assms(4) by (auto simp: o_write_def o_lock_def)
  show ?thesis using assms(1-3) w
    by (cases "(t, b', gs', toks', p)" rule: o_wake.cases) auto
qed


lemma list_ex_update:
  assumes "list_ex P xs" "i < length xs" "P (xs ! i) \<Longrightarrow> Q y" "\<And>j. j < length xs \<Longrightarrow> j \<noteq> i \<Longrightarrow> P (xs ! j) \<Longrightarrow> Q (xs ! j)"
  shows "list_ex Q (xs[i := y])"
proof -
  from assms(1) obtain j where j: "j < length xs" "P (xs ! j)" by (auto simp: list_ex_length)
  with assms(2-4) have "Q (xs[i := y] ! j)" by (cases "j = i") auto
  with j(1) show ?thesis by (auto simp: list_ex_length)
qed

lemma cnt_other:
  assumes "i < length xs" "j < length xs" "i \<noteq> j" "P (xs ! i)" "P (xs ! j)"
  shows "2 \<le> cnt P xs"
proof -
  have "{i, j} \<subseteq> {l. l < length xs \<and> P (xs ! l)}" using assms by auto
  then have "card {i, j} \<le> card {l. l < length xs \<and> P (xs ! l)}" by (intro card_mono) auto
  with assms(3) show ?thesis by (simp add: cnt_def length_filter_conv_card)
qed

lemma dn_decide_ref: "dn_decide True 1 t w = Done pc \<Longrightarrow> g_ref (GDone t pc)"
  by (cases pc) (auto simp: dn_decide_def exec_map_Done_iff split: if_splits)

text \<open>The facts a guard's step needs, while the handle holds its reference.\<close>

lemma dn_wake:
  assumes core: "wg_core (wi_state b) 1 lo 0 wo gs" and i: "i < length gs" "gs ! i = GDone t pc"
    and ok: "g_ok (GDone t pc)" and rm: "count_ok (1 + cnt g_ref gs)" and pc: "\<forall>w. pc \<noteq> DWake w" and T: "T \<le> t"
    and st: "dn_step True 1 t env pc b = Done (b', x)"
  shows "mine k b \<Longrightarrow> mine k b'" (is "?m \<Longrightarrow> ?m'")
    and "covered k T b gs toks \<Longrightarrow> covered k T b' (gs[i := dn_next t x]) toks" (is "?c \<Longrightarrow> ?c'")
    and "lo = 1 \<or> wo \<Longrightarrow> wi_waker b' = wi_waker b" (is "?l \<Longrightarrow> ?l'")
proof -
  let ?n = "1 + cnt g_ref gs"
  obtain f where f: "f \<in> wf_flags" "wi_state b = wst f ?n" "lo + cnt g_lock gs = of_bool (f = WAKER_FLAG_LOCK)" "wo \<longrightarrow> f = 0"
    using core by (auto simp: wg_core_def)
  have "(?m \<longrightarrow> ?m') \<and> (?c \<longrightarrow> ?c') \<and> (?l \<longrightarrow> ?l')"
  proof (cases "b' = b \<and> g_ref (dn_next t x) \<and> g_ref (GDone t pc)")
    case True
    have nc: "\<not> carries sl k g" if "g_ref g" for sl g using that by (cases g rule: g_ref.cases) simp_all
    have "list_ex (carries (wi_waker b) k) gs \<longrightarrow> list_ex (carries (wi_waker b) k) (gs[i := dn_next t x])"
      using i True nc by (auto elim!: list_ex_update)
    with True show ?thesis by (auto simp: covered_def)
  next
    case moves: False
    show ?thesis
    proof (cases pc)
      case DLoad
      then show ?thesis using moves st dn_decide_ref by (auto simp: exec_map_Done_iff dn_next_def)
    next
      case (DRecheck w)
      have "0 < cnt g_ref gs" using DRecheck i by (intro cnt_pos [OF i(1)]) simp
      then have "\<not> st_is_last (wst f ?n) 1" by (simp only: wst_simps(7) [OF f(1) rm]) simp
      then have "wi_state b \<noteq> w" using ok DRecheck f(2) by auto
      then show ?thesis using DRecheck moves st dn_decide_ref by (auto simp: exec_map_Done_iff dn_next_def)
    next
      case (DCas w w' lk)
      show ?thesis
      proof (cases "wi_state b = w \<and> \<not> env")
        case True
        then have w: "w = wst f ?n" using f(2) by simp
        have "st_try_done (wst f ?n) 1 t = Done (w', lk)" using ok DCas unfolding w by auto
        then have w': "(w', lk) = (if cnt g_ref gs \<le> unat t \<and> f = WAKER_FLAG_SET then (wst WAKER_FLAG_LOCK (cnt g_ref gs), True)
            else (wst f (cnt g_ref gs), False))"
          unfolding wst_done [OF f(1) rm] by (auto split: if_splits)
        have b': "b' = b\<lparr>wi_state := w'\<rparr>" "x = (if lk then Inl DTake else Inr False)"
          using st DCas True by (auto simp: cas_weak_def)
        have n: "count_ok (cnt g_ref gs)" using rm by (rule count_ok_le) simp
        have c: "list_ex (carries (wi_waker b) k) gs \<longrightarrow> list_ex (carries (wi_waker b) k) (gs[i := dn_next t x])"
          using i DCas by (auto elim!: list_ex_update)
        have hw: "st_has_waker (wi_state b) \<longleftrightarrow> f = WAKER_FLAG_SET" using f(1,2) rm by simp
        show ?thesis
        proof (cases lk)
          case True
          then have lk: "w' = wst WAKER_FLAG_LOCK (cnt g_ref gs)" "x = Inl DTake" using w' b'(2) by (auto split: if_splits)
          have "registered k b \<longrightarrow> list_ex (carries (wi_waker b) k) (gs[i := dn_next t x])"
            using i(1) lk(2) by (auto simp: registered_def dn_next_def list_ex_length intro!: exI [of _ i])
          then show ?thesis using c n lk(1) by (auto simp: b'(1) mine_def covered_def registered_def)
        next
          case False
          then have lk: "w' = wst f (cnt g_ref gs)" "f = WAKER_FLAG_SET \<Longrightarrow> unat t < cnt g_ref gs" using w' by (auto split: if_splits)
          have "T < of_nat (cnt g_ref gs)" if "f = WAKER_FLAG_SET"
            using lk(2) [OF that] T n by (simp add: word_le_nat_alt)
          then show ?thesis using c n lk(1) hw f(1) by (auto simp: b'(1) mine_def covered_def registered_def)
        qed
      next
        case False
        then show ?thesis using DCas moves st dn_decide_ref by (auto simp: cas_weak_def exec_map_Done_iff dn_next_def)
      qed
    next
      case DTake
      have lk: "f = WAKER_FLAG_LOCK" "cnt g_lock gs = 1" "lo = 0"
        using f(3) cnt_pos [OF i(1), of g_lock] DTake i(2) by (auto simp: of_bool_def split: if_splits)
      have b': "b' = b\<lparr>wi_waker := None\<rparr>" "x = Inl (DUnlock (wi_waker b))" using st DTake by auto
      have "carries None k (gs ! j)" if "j < length gs" "j \<noteq> i" "carries (wi_waker b) k (gs ! j)" for j
        using that cnt_other [OF i(1), of j g_lock] lk(2) i(2) DTake by (cases "gs ! j" rule: g_lock.cases) auto
      then have "list_ex (carries (wi_waker b) k) gs \<longrightarrow> list_ex (carries None k) (gs[i := GDone t (DUnlock (wi_waker b))])"
        using i DTake by (auto elim!: list_ex_update)
      then show ?thesis using lk rm f by (auto simp: b' mine_def covered_def registered_def dn_next_def)
    next
      case (DUnlock w)
      have lk: "f = WAKER_FLAG_LOCK" "cnt g_lock gs = 1" "lo = 0"
        using f(3) cnt_pos [OF i(1), of g_lock] DUnlock i(2) by (auto simp: of_bool_def split: if_splits)
      have nz: "wi_state b AND COUNT_MASK \<noteq> 0" unfolding f(2) wst_simps(2) [OF f(1) rm] using of_nat_count(4) [OF rm] by simp
      have b': "b' = b\<lparr>wi_state := wst 0 ?n\<rparr>" "x = (case w of Some w \<Rightarrow> Inl (DWake w) | None \<Rightarrow> Inr False)"
        using st DUnlock nz f(1,2) rm by (auto simp: Let_def split: option.splits)
      have "list_ex (carries (wi_waker b) k) gs \<longrightarrow> list_ex (carries (wi_waker b) k) (gs[i := dn_next t x])"
        using i DUnlock by (auto elim!: list_ex_update simp: b' dn_next_def split: option.split)
      then show ?thesis using lk rm f by (auto simp: b'(1) mine_def covered_def registered_def)
    next
      case (DWake w)
      with pc show ?thesis by blast
    qed
  qed
  then show "?m \<Longrightarrow> ?m'" "?c \<Longrightarrow> ?c'" "?l \<Longrightarrow> ?l'" by blast+
qed


section \<open>Every turn\<close>

lemma wk_inv_some:
  "wg_box s = Some b \<Longrightarrow> wk_inv s \<longleftrightarrow> list_all (g_thr (wg_threshold s)) (wg_guards s) \<and>
     (o_ref (wg_owner s) \<longrightarrow> fut_ok (wg_threshold s) b (wg_fut s) \<and> fut_at (wg_fut s) (wg_owner s) \<and>
       o_wake (wg_threshold s) b (wg_guards s) (wg_tokens s) (wg_owner s))"
  by (simp add: wk_inv_def)

lemma fut_ok_mono: "fut_ok t b fut \<Longrightarrow> (\<And>k. mine k b \<Longrightarrow> mine k b') \<Longrightarrow> fut_ok t b' fut"
  by (auto simp: fut_ok_def split: option.splits)

lemma g_thr_next: "g_thr t (GDone t' pc) \<Longrightarrow> g_thr t (dn_next t' x)"
  by (auto simp: dn_next_def split: sum.split)

lemma done_ptr_wake:
  assumes "wg_inv s" "wk_inv s" "room s" "i < length (wg_guards s)" "wg_guards s ! i = GDone t pc" "wg_done_ptr i t env pc s = Done s'"
  shows "wk_inv s'"
proof (cases "\<exists>w. pc = DWake w")
  case True
  then obtain w where w: "pc = DWake w" by blast
  have cov: "covered k T b (wg_guards s) (wg_tokens s) \<Longrightarrow>
      covered k T b ((wg_guards s)[i := GGone]) (insert w (wg_tokens s))" for k T and b :: "'a wg_inner"
  proof -
    have "list_ex (carries (wi_waker b) k) ((wg_guards s)[i := GGone])" if "list_ex (carries (wi_waker b) k) (wg_guards s)" "k \<noteq> w"
      using that assms(4,5) w by (auto elim!: list_ex_update)
    then show "covered k T b (wg_guards s) (wg_tokens s) \<Longrightarrow> covered k T b ((wg_guards s)[i := GGone]) (insert w (wg_tokens s))"
      by (auto simp: covered_def)
  qed
  have "o_wake T b ((wg_guards s)[i := GGone]) (insert w (wg_tokens s)) p"
    if "o_wake T b (wg_guards s) (wg_tokens s) p" for T p and b :: "'a wg_inner"
    by (rule o_wake_mono [OF that _ cov]) simp_all
  then show ?thesis using assms w
    by (cases "wg_box s") (auto simp: wg_done_ptr_def wg_goto_def wk_inv_def list_all_update)
next
  case False
  let ?o = "wg_owner s" and ?gs = "wg_guards s" and ?T = "wg_threshold s"
  have "\<not> g_out (?gs ! i)" using assms(5) False by (cases pc) auto
  then obtain b where b: "wg_box s = Some b" using assms(1,4)
    by (cases "wg_box s") (auto simp: wg_inv_def list_all_length)
  obtain b' x where st: "dn_step True 1 t env pc b = Done (b', x)" "s' = wg_goto i (dn_next t x) (s\<lparr>wg_box := Some b'\<rparr>)"
    using assms(6) False b by (cases pc) (auto simp: wg_done_ptr_def dn_next_def exec_map_Done_iff)
  have ok: "g_ok (GDone t pc)" using list_all_nth [OF _ assms(4), of g_ok] assms(1,5) b by (simp add: wg_inv_some)
  have thr: "?T \<le> t" using list_all_nth [OF _ assms(4), of "g_thr ?T"] assms(2,5) b by (simp add: wk_inv_some)
  show ?thesis
  proof (cases "o_ref ?o")
    case True
    then have core: "wg_core (wi_state b) 1 (of_bool (o_lock ?o)) 0 (o_write ?o) ?gs"
      using assms(1) b by (auto simp: wg_inv_some o_ref_def)
    have pc: "\<forall>w. pc \<noteq> DWake w" using False by blast
    note w = dn_wake [OF core assms(4,5) ok room_ok [OF assms(3)] pc thr st(1)]
    have old: "o_wake ?T b ?gs (wg_tokens s) ?o" using assms(2) b True by (simp add: wk_inv_some)
    have "o_wake ?T b' (?gs[i := dn_next t x]) (wg_tokens s) ?o"
    proof (rule o_wake_mono [OF old w(1,2)])
      fix k
      assume "o_write ?o \<or> o_lock ?o" and k: "wi_waker b = Some k"
      then have "wi_waker b' = wi_waker b" by (intro w(3)) auto
      with k show "wi_waker b' = Some k" by simp
    qed
    moreover have "fut_ok ?T b' (wg_fut s)"
    proof (rule fut_ok_mono)
      show "fut_ok ?T b (wg_fut s)" using assms(2) b True by (simp add: wk_inv_some)
    qed (rule w(1))
    moreover have "list_all (g_thr ?T) (?gs[i := dn_next t x])"
      using assms(2) b thr by (intro list_all_update g_thr_next) (simp_all add: wk_inv_some)
    ultimately show ?thesis using assms(2) b True st(2) by (simp add: wk_inv_some wg_goto_def)
  next
    case False
    then show ?thesis using assms(2) b thr st(2) by (auto simp: wk_inv_some wg_goto_def intro!: list_all_update g_thr_next)
  qed
qed


text \<open>Guards come and go: the count only grows, nobody carries less.\<close>

lemma covered_append: "covered k t b gs toks \<Longrightarrow> covered k t b (gs @ [g]) toks"
  by (auto simp: covered_def)

lemma add_wake:
  assumes "wg_inv s" "wk_inv s" "room s" "wg_box s = Some b" "g_thr (wg_threshold s) (GLive t)"
    "\<not> o_free (wg_owner s)" "cnt g_free (wg_guards s) = 0"
    "exec_map (\<lambda>b'. s\<lparr>wg_box := Some b', wg_guards := wg_guards s @ [GLive t]\<rparr>) (wi_add 1 b) = Done s'"
  shows "wk_inv s'"
proof -
  let ?T = "wg_threshold s" and ?o = "wg_owner s"
  obtain b' where b': "wi_add 1 b = Done b'" "s' = s\<lparr>wg_box := Some b', wg_guards := wg_guards s @ [GLive t]\<rparr>"
    using assms(8) by (auto simp: exec_map_Done_iff)
  then have st: "b' = b\<lparr>wi_state := wi_state b + 1\<rparr>" by (auto simp: wi_add_def split: if_splits)
  show ?thesis
  proof (cases "o_ref ?o")
    case True
    obtain f where f: "f \<in> wf_flags" "wi_state b = wst f (1 + cnt g_ref (wg_guards s))"
      using wg_inv_flag [OF assms(1,4) True] by blast
    have ok: "count_ok (1 + cnt g_ref (wg_guards s))" "count_ok (Suc (1 + cnt g_ref (wg_guards s)))"
      using assms(3) cnt_le [of g_ref "wg_guards s"] by (simp_all add: room_def count_ok_def)
    have w: "wi_state b' = wst f (Suc (1 + cnt g_ref (wg_guards s)))" by (simp add: st f(2))
    have hw: "st_has_waker (wi_state b') = st_has_waker (wi_state b)"
      unfolding w f(2) wst_simps(5) [OF f(1) ok(1)] wst_simps(5) [OF f(1) ok(2)] ..
    have m: "mine k b \<Longrightarrow> mine k b'" for k using hw by (simp add: mine_def st)
    have cnt: "?T < st_count (wi_state b')" if "?T < st_count (wi_state b)"
      using that of_nat_count(2) [OF ok(1), of ?T] of_nat_count(2) [OF ok(2), of ?T]
      unfolding w f(2) wst_simps(1) [OF f(1) ok(1)] wst_simps(1) [OF f(1) ok(2)] by linarith
    have c: "covered k ?T b gs toks \<Longrightarrow> covered k ?T b' (gs @ [GLive t]) toks" for k gs toks
      using hw cnt by (auto simp: covered_def registered_def st)
    have old: "o_wake ?T b (wg_guards s) (wg_tokens s) ?o" using assms(2,4) True by (simp add: wk_inv_some)
    have "o_wake ?T b' (wg_guards s @ [GLive t]) (wg_tokens s) ?o"
      by (rule o_wake_mono [OF old m c]) (simp_all add: st)
    then show ?thesis using assms(2,4,5) True m b'(2) by (auto simp: wk_inv_some intro: fut_ok_mono [of ?T b])
  next
    case False
    then show ?thesis using assms(2,4,5) b'(2) by (simp add: wk_inv_some)
  qed
qed


lemma guard_step_wake:
  assumes "wg_inv s" "wk_inv s" "room s" "wg_gstep i c env s = Done s'"
  shows "wk_inv s'"
proof (cases "i < length (wg_guards s)")
  case i: True
  let ?o = "wg_owner s" and ?gs = "wg_guards s"
  show ?thesis
  proof (cases "?gs ! i")
    case (GLive t)
    then have "\<not> g_out (?gs ! i)" by simp
    then obtain b where b: "wg_box s = Some b" using assms(1) i
      by (cases "wg_box s") (auto simp: wg_inv_def list_all_length)
    have pos: "0 < cnt g_ref ?gs" using GLive by (intro cnt_pos [OF i]) simp
    have core: "wg_core (wi_state b) (of_bool (o_ref ?o)) (of_bool (o_lock ?o)) (of_bool (o_free ?o)) (o_write ?o) ?gs"
      using assms(1) b by (simp add: wg_inv_some)
    with pos have fr: "\<not> o_free ?o" "cnt g_free ?gs = 0" by (auto simp: wg_core_def)
    have thr: "g_thr (wg_threshold s) (GLive t)" using list_all_nth [OF _ i, of "g_thr (wg_threshold s)"] assms(2) b GLive by (simp add: wk_inv_some)
    have cov: "covered k T b' ?gs toks \<Longrightarrow> covered k T b' (?gs[i := GDone t DLoad]) toks" for k T toks and b' :: "'a wg_inner"
    proof -
      have "list_ex (carries sl k) ?gs \<Longrightarrow> list_ex (carries sl k) (?gs[i := GDone t DLoad])" for sl
        using i GLive by (auto elim!: list_ex_update)
      then show "covered k T b' ?gs toks \<Longrightarrow> covered k T b' (?gs[i := GDone t DLoad]) toks" by (auto simp: covered_def)
    qed
    have "o_wake T b' (?gs[i := GDone t DLoad]) toks p" if "o_wake T b' ?gs toks p" for T toks p and b' :: "'a wg_inner"
      by (rule o_wake_mono [OF that _ cov]) simp_all
    then have "wk_inv (wg_goto i (GDone t DLoad) s)"
      using assms(2) b thr by (auto simp: wk_inv_some wg_goto_def list_all_update)
    then show ?thesis using assms(4) GLive i b assms(2) add_wake [OF assms(1-3) b thr fr]
      by (cases c) (auto simp: wg_gstep_def wg_guard_clone_def exec_map_Done_iff)
  next
    case GFree
    then show ?thesis using assms(2,4) i
      by (auto simp: wg_gstep_def wg_free_def wg_goto_def exec_map_Done_iff wg_with_def wk_inv_def list_all_update split: option.splits)
  qed (use assms i done_ptr_wake [OF assms(1-3) i] in \<open>simp_all add: wg_gstep_def\<close>)
qed (use assms in \<open>simp add: wg_gstep_def\<close>)

section \<open>The waiter\<close>

text \<open>\<^verbatim>\<open>try_set_waker\<close>: the waker it leaves is registered above the threshold when it answers so.\<close>

lemma sw_wake:
  assumes "wg_inv s" "wg_box s = Some b" "room s" "sw_of (wg_owner s) = Some pc" "o_ref (wg_owner s)"
    "sw_step t sk k env pc b = (b', r)" "pc = SXor \<or> pc = SOr \<longrightarrow> wi_waker b = Some k" "sk \<longrightarrow> mine k b"
  shows "r = Inr True \<Longrightarrow> registered k b' \<and> t < st_count (wi_state b')"
    "r = Inl SXor \<or> r = Inl SOr \<Longrightarrow> wi_waker b' = Some k"
    "mine j b \<Longrightarrow> r = Inl p \<Longrightarrow> mine j b'"
proof -
  let ?n = "1 + cnt g_ref (wg_guards s)"
  obtain f where f: "f \<in> wf_flags" "wi_state b = wst f ?n"
    "of_bool (o_lock (wg_owner s)) + cnt g_lock (wg_guards s) = of_bool (f = WAKER_FLAG_LOCK)" "o_write (wg_owner s) \<longrightarrow> f = 0"
    using wg_inv_flag [OF assms(1,2,5)] by blast
  note n = room_ok [OF assms(3)]
  have dec: "r = sw_decide t sk (wi_state b) \<Longrightarrow> b' = b \<Longrightarrow>
      (r = Inr True \<longrightarrow> registered k b' \<and> t < st_count (wi_state b')) \<and> r \<noteq> Inl SXor \<and> r \<noteq> Inl SOr"
    using assms(8) by (auto simp: sw_decide_def registered_def mine_def split: if_splits)
  have "(r = Inr True \<longrightarrow> registered k b' \<and> t < st_count (wi_state b')) \<and> (r = Inl SXor \<or> r = Inl SOr \<longrightarrow> wi_waker b' = Some k) \<and>
      (mine j b \<and> r = Inl p \<longrightarrow> mine j b')"
  proof (cases pc)
    case SLoad
    then have "b' = b" "r = sw_decide t sk (wi_state b)" using assms(6) by auto
    then show ?thesis using dec by blast
  next
    case (SLock w)
    show ?thesis
    proof (cases "wi_state b = w \<and> \<not> env")
      case True
      then have "b' = b\<lparr>wi_state := wst WAKER_FLAG_LOCK ?n\<rparr>" "r = Inl SReplace"
        using SLock assms(6) wst_simps(6) [OF f(1) n] by (auto simp: cas_weak_def f(2))
      then show ?thesis using n by (auto simp: mine_def)
    next
      case False
      then have "b' = b" "r = sw_decide t sk (wi_state b)" using SLock assms(6) by (auto simp: cas_weak_def)
      then show ?thesis using dec by blast
    qed
  next
    case SReplace
    then have "f = WAKER_FLAG_LOCK" using f(3) assms(4) by (auto simp: o_lock_def of_bool_def split: if_splits)
    then show ?thesis using SReplace assms(6) f n by (auto simp: mine_def)
  next
    case SXor
    then have "f = WAKER_FLAG_LOCK" using f(3) assms(4) by (auto simp: o_lock_def of_bool_def split: if_splits)
    then show ?thesis using SXor assms(6,7) f n by (auto simp: registered_def)
  next
    case SWrite
    then have "f = 0" using f(4) assms(4) by (auto simp: o_write_def)
    then show ?thesis using SWrite assms(6) f n by (auto simp: mine_def)
  next
    case SOr
    then have "f = 0" using f(4) assms(4) by (auto simp: o_write_def)
    then show ?thesis using SOr assms(6,7) f n by (auto simp: registered_def)
  qed
  then show "r = Inr True \<Longrightarrow> registered k b' \<and> t < st_count (wi_state b')"
    "r = Inl SXor \<or> r = Inl SOr \<Longrightarrow> wi_waker b' = Some k" "mine j b \<Longrightarrow> r = Inl p \<Longrightarrow> mine j b'" by blast+
qed

lemma registered_mine: "registered k b \<Longrightarrow> mine k b"
  by (simp add: registered_def mine_def)

lemma wait_step_wake:
  assumes "wg_inv s" "wk_inv s" "room s" "wg_owner s = OWait th td pc"
    "wg_wait_step (wg_threshold s) th td env pc s = Done s'"
  shows "wk_inv s'"
proof -
  let ?T = "wg_threshold s"
  obtain b where b: "wg_box s = Some b" using assms by (auto elim: wg_inv_box)
  have o: "o_wake ?T b (wg_guards s) (wg_tokens s) (OWait th td pc)" "wg_fut s = None"
    "list_all (g_thr ?T) (wg_guards s)" using assms(2,4) b by (simp_all add: wk_inv_some)
  have ok: "o_ok (OWait th td pc)" using assms(1,4) b by (simp add: wg_inv_some)
  show ?thesis
  proof (cases pc)
    case (WSnooze sk bo)
    with ok have "bo_ok (config bo)" by simp
    then obtain bo' p r where "backoff_snooze bo = Done (bo', p, r)" "config bo' = config bo" by (rule snooze_ok)
    then show ?thesis using assms(5) b o WSnooze
      by (auto simp: wg_wait_step_def wg_return_def Let_def wk_inv_def fut_ok_def split: if_splits)
  next
    case (WSet sk bo sp)
    then have sp: "sw_of (wg_owner s) = Some sp" "o_ref (wg_owner s)" using assms(4) by simp_all
    obtain b' r where st: "sw_step ?T sk (Blocking th) env sp b = (b', r)" by fastforce
    note w = sw_wake [OF assms(1) b assms(3) sp st]
    have pre: "sp = SXor \<or> sp = SOr \<longrightarrow> wi_waker b = Some (Blocking th)" "sk \<longrightarrow> mine (Blocking th) b"
      using o(1) WSet by auto
    show ?thesis
    proof (cases r)
      case (Inl pc')
      then show ?thesis using st WSet o b assms(5) w(2,3) [OF pre]
        by (auto simp: wg_wait_step_def Let_def wk_inv_def fut_ok_def)
    next
      case (Inr x)
      then show ?thesis using st WSet o b assms(5) w(1) [OF pre] registered_mine [of "Blocking th" b']
        by (cases x) (auto simp: wg_wait_step_def Let_def wg_return_def wk_inv_def fut_ok_def covered_def)
    qed
  qed (use assms(5) b o in \<open>auto simp: wg_wait_step_def wg_return_def Let_def wk_inv_def fut_ok_def covered_def split: if_splits\<close>)
qed


lemma poll_step_wake:
  assumes "wg_inv s" "wk_inv s" "room s" "wg_owner s = OPoll k pc" "wg_poll_step k env pc s = Done s'"
  shows "wk_inv s'"
proof (cases "wg_fut s")
  case None
  then show ?thesis using assms by (simp add: wg_poll_step_def)
next
  case (Some fu)
  let ?T = "wg_threshold s"
  obtain b where b: "wg_box s = Some b" using assms by (auto elim: wg_inv_box)
  have o: "o_wake ?T b (wg_guards s) (wg_tokens s) (OPoll k pc)" "fu_threshold fu = ?T"
    "\<And>j. fu_waker fu = Some j \<Longrightarrow> mine (Async j) b" "fut_at (Some fu) (OPoll k pc)"
    "list_all (g_thr ?T) (wg_guards s)" using assms(2,4) b Some by (auto simp: wk_inv_some fut_ok_def)
  show ?thesis
  proof (cases pc)
    case PCheck
    have "covered (Async k) ?T b (wg_guards s) (wg_tokens s)"
      if "\<not> wi_count b \<le> ?T" "st_has_waker (wi_state b)" "fu_waker fu = Some k"
      using that o(3) [of k] by (auto simp: covered_def registered_def mine_def wi_count_def st_count_def)
    then show ?thesis using PCheck assms(5) b o Some
      by (auto simp: wg_poll_step_def wg_ready_def wg_return_def wk_inv_def fut_ok_def split: if_splits)
  next
    case PAgain
    then show ?thesis using assms(5) b o Some
      by (auto simp: wg_poll_step_def wg_ready_def wg_return_def wk_inv_def fut_ok_def split: bool.splits)
  next
    case (PSet sp)
    then have sp: "sw_of (wg_owner s) = Some sp" "o_ref (wg_owner s)" using assms(4) by simp_all
    obtain b' r where st: "sw_step ?T False (Async k) env sp b = (b', r)" by fastforce
    have pre: "sp = SXor \<or> sp = SOr \<longrightarrow> wi_waker b = Some (Async k)" "False \<longrightarrow> mine (Async k) b"
      using o(1) PSet by auto
    note w = sw_wake [OF assms(1) b assms(3) sp st pre]
    show ?thesis
    proof (cases r)
      case (Inl pc')
      then show ?thesis using st PSet o b Some assms(5) w(2,3) by (auto simp: wg_poll_step_def wk_inv_def fut_ok_def)
    next
      case (Inr x)
      then show ?thesis using st PSet o b Some assms(5) w(1) registered_mine [of "Async k" b']
        by (cases x) (auto simp: wg_poll_step_def wg_ready_def wg_return_def wk_inv_def fut_ok_def covered_def)
    qed
  qed
qed

lemma call_wake:
  assumes "wg_inv s" "wk_inv s" "room s" "wg_owner s = OIdle \<or> wg_owner s = OPend k" "turn_ok (OwnerTurn c env) s"
    "turn_steady (OwnerTurn c env) s" "wg_owner_call c s = Done s'"
  shows "wk_inv s'"
proof -
  have p: "o_ref (wg_owner s)" "\<not> o_free (wg_owner s)" using assms(4) by (auto simp: o_free_def)
  obtain b where b: "wg_box s = Some b" using assms(1,4) by (auto elim: wg_inv_box)
  have fr: "cnt g_free (wg_guards s) = 0" using wg_inv_flag [OF assms(1) b p(1)] by blast
  have w: "list_all (g_thr (wg_threshold s)) (wg_guards s)" "fut_ok (wg_threshold s) b (wg_fut s)"
    "fut_at (wg_fut s) (wg_owner s)" "o_wake (wg_threshold s) b (wg_guards s) (wg_tokens s) (wg_owner s)"
    using assms(2) b p(1) by (simp_all add: wk_inv_some)
  show ?thesis
  proof (cases c)
    case CAddGuard
    then show ?thesis using add_wake [OF assms(1-3) b _ p(2) fr, of "wg_threshold s"] assms(7) b by (simp add: wg_add_guard_def)
  next
    case (CSetThreshold t)
    then have le: "t + 1 \<le> wg_threshold s" and s': "s' = s\<lparr>wg_threshold := t + 1, wg_fut := None, wg_owner := OIdle\<rparr>"
      using assms(5-7) by (auto simp: wg_set_threshold_def succ_ok)
    have "g_thr (t + 1) g" if "g_thr (wg_threshold s) g" for g using that le by (cases g) auto
    then have "list_all (g_thr (t + 1)) (wg_guards s)" using w(1) by (auto simp: list_all_iff)
    then show ?thesis using s' b by (simp add: wk_inv_some fut_ok_def)
  qed (use assms(7) b w left_exact [OF assms(1) p(1) assms(3)] in \<open>auto simp: wk_inv_some wg_observe_def wg_try_wait_def wg_deref_def wg_wait_async_def
        wg_poll_def wg_wait_def wg_get_mut_def wg_try_into_inner_def wg_return_def fut_ok_def mine_def split: option.splits if_splits\<close>)
qed


lemma step_wake:
  assumes "wg_inv s" "wk_inv s" "room s" "turn_ok t s" "turn_steady t s" "wg_step t s = Done s'"
  shows "wk_inv s'"
proof (cases t)
  case (OwnerTurn c env)
  show ?thesis
  proof (cases "wg_owner s")
    case (OTimer k)
    then obtain b where b: "wg_box s = Some b" using assms by (auto elim: wg_inv_box)
    then show ?thesis using OTimer OwnerTurn assms(2,6)
      by (auto simp: wg_ostep_def wg_timer_step_def wg_ready_def wg_return_def wk_inv_some fut_ok_def split: option.splits)
  next
    case (OFree i)
    then show ?thesis using OwnerTurn assms(2,6)
      by (auto simp: wg_ostep_def wg_owner_free_def wg_free_def wg_with_def exec_map_Done_iff wk_inv_def split: option.splits)
  next
    case ODrop
    then show ?thesis using OwnerTurn assms(1,2,6)
      by (auto simp: wg_ostep_def wg_destroy_load_def wg_with_def destroy_decide_def wk_inv_def split: option.splits)
  next
    case (ODropCas w)
    then show ?thesis using OwnerTurn assms(1,2,6)
      by (auto simp: wg_ostep_def wg_destroy_cas_def wg_with_def destroy_decide_def cas_weak_def wk_inv_def split: option.splits if_splits)
  qed (use OwnerTurn assms(2,6) call_wake [OF assms(1-3) _ assms(4,5) [unfolded OwnerTurn]] wait_step_wake [OF assms(1-3)]
      poll_step_wake [OF assms(1-3)] in \<open>auto simp: wg_ostep_def\<close>)
next
  case (GuardTurn i c env)
  then show ?thesis using guard_step_wake [OF assms(1-3)] assms(6) by simp
qed

lemma run_wake:
  assumes "wg_inv s" "wk_inv s" "length (wg_guards s) + length ts < 2 ^ 62 - 4" "wg_calm ts s" "wg_steady ts s"
  shows "total (wg_run ts s) (\<lambda>s'. wg_inv s' \<and> wk_inv s' \<and> length (wg_guards s') \<le> length (wg_guards s) + length ts)"
  using assms
proof (induction ts arbitrary: s)
  case (Cons t ts)
  then have r: "room s" by (simp add: room_def)
  have "total (wg_step t s) (\<lambda>s'. wg_inv s' \<and> grows s s')" using Cons.prems by (intro step_inv r) simp_all
  then obtain s' where s': "wg_step t s = Done s'" "wg_inv s'" "grows s s'" by (auto simp: total_def)
  have "wk_inv s'" using step_wake [OF Cons.prems(1,2) r _ _ s'(1)] Cons.prems(4,5) by simp
  with s' Cons.prems have "total (wg_run ts s') (\<lambda>s''. wg_inv s'' \<and> wk_inv s'' \<and> length (wg_guards s'') \<le> length (wg_guards s') + length ts)"
    by (intro Cons.IH) (simp_all add: grows_def)
  with s'(1,3) show ?case by (auto simp: grows_def elim!: total_mono)
qed simp

text \<open>A guard that carries a waker delivers it within three steps of its own.\<close>

lemma carrier_delivers:
  assumes "wg_inv s" "o_ref (wg_owner s)" "room s" "wg_box s = Some b" "i < length (wg_guards s)" "carries (wi_waker b) k (wg_guards s ! i)"
  shows "\<exists>s'. wg_run (replicate 3 (GuardTurn i c env)) s = Done s' \<and> k \<in> wg_tokens s'"
proof -
  obtain f where f: "f \<in> wf_flags" "wi_state b = wst f (1 + cnt g_ref (wg_guards s))"
    using wg_inv_flag [OF assms(1,4,2)] by blast
  have nz: "wi_state b AND COUNT_MASK \<noteq> 0"
    unfolding f(2) wst_simps(2) [OF f(1) room_ok [OF assms(3)]] using of_nat_count(4) [OF room_ok [OF assms(3)]] by simp
  show ?thesis using assms(4-6) nz
    by (cases "wg_guards s ! i" rule: g_lock.cases)
      (auto simp: numeral_3_eq_3 wg_gstep_def wg_done_ptr_def wg_goto_def Let_def)
qed


section \<open>Property\<close>

text \<open>
  C6. No wake-up is lost. Take any schedule in which the threshold is never raised, and any moment at which the handle sleeps,
  parked in \<^verbatim>\<open>wait\<close> or \<^verbatim>\<open>wait_timeout\<close> or pending in a future. If no more guards are left than the threshold allows, then the
  wake-up of that thread or task has been delivered, or one guard on its way out delivers it within three of its own
  steps, whatever the environment does.
\<close>

theorem wake_up_never_lost:
  assumes "unat (spin_limit (config_detect g)) \<le> 31" "wg_new g x t = Done s0" "length ts < 2 ^ 62 - 4" "wg_calm ts s0"
    "wg_steady ts s0" "wg_run ts s0 = Done s"
    and sleeps: "(\<exists>td bo. wg_owner s = OWait th td (WPark bo)) \<and> k = Blocking th \<or> wg_owner s = OPend th \<and> k = Async th"
    and few: "cnt g_ref (wg_guards s) < unat (wg_threshold s)"
  shows "k \<in> wg_tokens s \<or> (\<exists>i. \<forall>c env. \<exists>s'. wg_run (replicate 3 (GuardTurn i c env)) s = Done s' \<and> k \<in> wg_tokens s')"
proof -
  note new = new_inv [OF assms(1,2)]
  have "wk_inv s0" using new by (auto simp: wk_inv_def fut_ok_def split: option.split)
  then have s: "wg_inv s" "wk_inv s" "room s"
    using run_wake [of s0 ts] new assms(3-6) by (auto simp: total_def room_def)
  have ref: "o_ref (wg_owner s)" using sleeps by auto
  then have "wg_owner s \<noteq> OGone" by auto
  then obtain b where b: "wg_box s = Some b" using s(1) by (auto elim: wg_inv_box)
  obtain f where f: "f \<in> wf_flags" "wi_state b = wst f (1 + cnt g_ref (wg_guards s))"
    using wg_inv_flag [OF s(1) b ref] by blast
  have "\<not> wg_threshold s < st_count (wi_state b)"
    unfolding f(2) wst_simps(1) [OF f(1) room_ok [OF s(3)]] of_nat_count(2) [OF room_ok [OF s(3)]] using few by simp
  moreover have "covered k (wg_threshold s) b (wg_guards s) (wg_tokens s)"
    using sleeps s(2) b ref by (auto simp: wk_inv_some)
  ultimately have "k \<in> wg_tokens s \<or> list_ex (carries (wi_waker b) k) (wg_guards s)" by (auto simp: covered_def)
  then consider "k \<in> wg_tokens s" | i where "i < length (wg_guards s)" "carries (wi_waker b) k (wg_guards s ! i)"
    by (auto simp: list_ex_length)
  then show ?thesis
  proof cases
    case 2
    then show ?thesis using carrier_delivers [OF s(1) ref s(3) b] by blast
  qed blast
qed

theorem wake_up_never_lost_witness:
  "\<exists>s i s'. exec_bind (wg_new backoff_globals_init 7 0) (wg_run park_and_drop) = Done s \<and> wg_owner s = OPend 3 \<and>
     Async 3 \<notin> wg_tokens s \<and> wg_run (replicate 3 (GuardTurn i GDrop False)) s = Done s' \<and> Async 3 \<in> wg_tokens s'"
proof -
  obtain s0 where s0: "wg_new backoff_globals_init (7 :: nat) 0 = Done s0"
    by (simp add: wg_new_def checked_add_def)
  then obtain s where s: "wg_run park_and_drop s0 = Done s" "wg_calm park_and_drop s0" "wg_steady park_and_drop s0"
      "wg_owner s = OPend 3" "wg_guards s = [GDone 1 DTake]" "Async 3 \<notin> wg_tokens s" "wg_threshold s = 1"
    using park_and_drop_run by (auto split: exec.splits)
  have "unat (spin_limit (config_detect backoff_globals_init)) \<le> 31" by code_simp
  moreover have "length park_and_drop < 2 ^ 62 - 4" by (simp add: park_and_drop_def)
  moreover have "cnt g_ref (wg_guards s) < unat (wg_threshold s)" using s(5,7) by simp
  ultimately have "\<exists>i. \<forall>c env. \<exists>s'. wg_run (replicate 3 (GuardTurn i c env)) s = Done s' \<and> Async 3 \<in> wg_tokens s'"
    using wake_up_never_lost [OF _ s0 _ s(2,3,1), of 3 "Async 3"] s(4,6) by blast
  then show ?thesis using s s0 by fastforce
qed

end
