(* ===== verification/Wait_Variants.thy ===== *)
theory Wait_Variants
  imports Wait_Wake
begin

unbundle bit_operations_syntax

text \<open>
  The two other wait groups of \<^verbatim>\<open>src/src/waitgroup.rs\<close>: \<^verbatim>\<open>WaitGroupZero\<close>, whose threshold is the constant zero and whose guards
  carry none, and \<^verbatim>\<open>WaitGroupInline\<close>, which sits in a parent structure, has no guards and counts by explicit calls.
\<close>

section \<open>WaitGroupZero\<close>

definition wgz_new :: "backoff_globals \<Rightarrow> 'a \<Rightarrow> 'a wg_sys" where
  "wgz_new g x = \<lparr>wg_box = Some (wi_new g x 1), wg_threshold = 1, wg_owner = OIdle, wg_fut = None, wg_guards = [],
     wg_tokens = {}, wg_frees = 0, wg_results = []\<rparr>"

definition wgz_get_left :: "'a wg_sys \<Rightarrow> usize exec" where
  "wgz_get_left s = wg_with s (\<lambda>b. checked_sub (wi_count b) 1)"

text \<open>A guard without a threshold field: its \<^verbatim>\<open>Drop\<close> passes the constant 1 to \<^verbatim>\<open>done_ptr\<close>.\<close>

definition wgz_add_guard :: "'a wg_sys \<Rightarrow> 'a wg_sys exec" where
  "wgz_add_guard s = wg_with s (\<lambda>b.
     exec_map (\<lambda>b'. s\<lparr>wg_box := Some b', wg_guards := wg_guards s @ [GLive 1]\<rparr>) (wi_add 1 b))"

definition wgz_try_wait :: "'a wg_sys \<Rightarrow> (unit + unit) exec" where
  "wgz_try_wait s = wg_with s (\<lambda>b. Done (if wi_count b \<le> 1 then Inr () else Inl ()))"

definition wgz_wait_async :: "bool \<Rightarrow> 'a wg_sys \<Rightarrow> 'a wg_sys" where
  "wgz_wait_async timed s = s\<lparr>wg_fut := Some \<lparr>fu_threshold = 1, fu_timed = timed, fu_waker = None\<rparr>, wg_owner := OIdle\<rparr>"

definition wgz_wait :: "nat \<Rightarrow> bool \<Rightarrow> 'a wg_sys \<Rightarrow> 'a wg_sys" where
  "wgz_wait thread timed s = s\<lparr>wg_fut := None, wg_owner := OWait thread timed WCheck\<rparr>"

definition wgz_try_into_inner :: "'a wg_sys \<Rightarrow> 'a wg_sys exec" where
  "wgz_try_into_inner s =
     exec_map (\<lambda>left. if left = 0 then s\<lparr>wg_fut := None, wg_owner := OFree True\<rparr>
       else wg_return (s\<lparr>wg_fut := None\<rparr>) (RInto None)) (wgz_get_left s)"

definition wgz_get_mut :: "('a \<Rightarrow> 'a) \<Rightarrow> 'a wg_sys \<Rightarrow> 'a wg_sys exec" where
  "wgz_get_mut f s =
     exec_bind (wgz_get_left s) (\<lambda>left.
       if left = 0
       then wg_with s (\<lambda>b. Done (wg_return (s\<lparr>wg_fut := None, wg_box := Some (b\<lparr>wi_inner := f (wi_inner b)\<rparr>)\<rparr>) (RMut True)))
       else Done (wg_return (s\<lparr>wg_fut := None\<rparr>) (RMut False)))"

fun wgz_call :: "'a wg_call \<Rightarrow> 'a wg_sys \<Rightarrow> 'a wg_sys exec" where
  "wgz_call CAddGuard s = wgz_add_guard s"
| "wgz_call (CSetThreshold t) s = Done s"
| "wgz_call CGetLeft s = wg_observe s (wgz_get_left s) RLeft"
| "wgz_call CTryWait s = wg_observe s (wgz_try_wait s) RWait"
| "wgz_call CDeref s = exec_map (\<lambda>_. s) (wg_deref s)"
| "wgz_call (CWaitAsync timed) s = Done (wgz_wait_async timed s)"
| "wgz_call (CPoll task) s = Done (wg_poll task s)"
| "wgz_call (CWait thread timed) s = Done (wgz_wait thread timed s)"
| "wgz_call CTryInto s = wgz_try_into_inner s"
| "wgz_call (CGetMut f) s = wgz_get_mut f s"
| "wgz_call CDropGroup s = Done (s\<lparr>wg_fut := None, wg_owner := ODrop\<rparr>)"

definition wgz_guard_clone :: "'a wg_sys \<Rightarrow> 'a wg_sys exec" where
  "wgz_guard_clone s = wg_with s (\<lambda>b.
     exec_map (\<lambda>b'. s\<lparr>wg_box := Some b', wg_guards := wg_guards s @ [GLive 1]\<rparr>) (wi_add 1 b))"

definition wgz_guard_drop :: "nat \<Rightarrow> bool \<Rightarrow> dn_pc \<Rightarrow> 'a wg_sys \<Rightarrow> 'a wg_sys exec" where
  "wgz_guard_drop i env pc s = wg_done_ptr i 1 env pc s"

definition wgz_gstep :: "nat \<Rightarrow> wg_gcall \<Rightarrow> bool \<Rightarrow> 'a wg_sys \<Rightarrow> 'a wg_sys exec" where
  "wgz_gstep i call env s =
     (if i < length (wg_guards s)
      then case wg_guards s ! i of
          GLive _ \<Rightarrow> (case call of
              GClone \<Rightarrow> wgz_guard_clone s
            | GDeref \<Rightarrow> exec_map (\<lambda>_. s) (wg_deref s)
            | GDrop \<Rightarrow> Done (wg_goto i (GDone 1 DLoad) s))
        | GDone _ pc \<Rightarrow> wgz_guard_drop i env pc s
        | GFree \<Rightarrow> exec_map (wg_goto i GGone) (wg_free s)
        | GGone \<Rightarrow> Done s
      else Done s)"

fun wgz_step :: "'a wg_turn \<Rightarrow> 'a wg_sys \<Rightarrow> 'a wg_sys exec" where
  "wgz_step (OwnerTurn call env) s =
     (case wg_owner s of
        OIdle \<Rightarrow> wgz_call call s
      | OPend _ \<Rightarrow> wgz_call call s
      | _ \<Rightarrow> wg_ostep 1 env s)"
| "wgz_step (GuardTurn i call env) s = wgz_gstep i call env s"

fun wgz_run :: "'a wg_turn list \<Rightarrow> 'a wg_sys \<Rightarrow> 'a wg_sys exec" where
  "wgz_run [] s = Done s"
| "wgz_run (t # ts) s = exec_bind (wgz_step t s) (wgz_run ts)"

text \<open>
  \<^verbatim>\<open>Pointer\<close>: \<^verbatim>\<open>into_raw\<close> gives the address of the value inside the cell, \<^verbatim>\<open>from_raw\<close> steps back by the same offset; the null
  check is a debug assertion.
\<close>

definition wgz_into_raw :: "usize \<Rightarrow> usize \<Rightarrow> usize" where
  "wgz_into_raw offset p = p + offset"

definition wgz_from_raw :: "bool \<Rightarrow> usize \<Rightarrow> usize \<Rightarrow> usize exec" where
  "wgz_from_raw dbg offset p = (if dbg \<and> p = 0 then Fault Panic else Done (p - offset))"

lemma wgz_raw_round_trip: "p + offset \<noteq> 0 \<Longrightarrow> wgz_from_raw dbg offset (wgz_into_raw offset p) = Done p"
  by (simp add: wgz_from_raw_def wgz_into_raw_def)

section \<open>The same as a wait group with threshold zero\<close>

fun no_threshold :: "'a wg_turn \<Rightarrow> bool" where
  "no_threshold (OwnerTurn (CSetThreshold t) env) = False"
| "no_threshold _ = True"

fun g_one :: "wg_gpc \<Rightarrow> bool" where
  "g_one (GLive t) \<longleftrightarrow> t = 1"
| "g_one (GDone t pc) \<longleftrightarrow> t = 1"
| "g_one _ \<longleftrightarrow> True"

definition wgz_like :: "'a wg_sys \<Rightarrow> bool" where
  "wgz_like s \<longleftrightarrow> wg_threshold s = 1 \<and> list_all g_one (wg_guards s)"

lemma wgz_call_eq: "wgz_like s \<Longrightarrow> no_threshold (OwnerTurn c env) \<Longrightarrow> wgz_call c s = wg_owner_call c s"
  by (cases c) (simp_all add: wgz_like_def wgz_add_guard_def wg_add_guard_def wgz_get_left_def wg_get_left_def
      wgz_try_wait_def wg_try_wait_def wgz_wait_async_def wg_wait_async_def wgz_wait_def wg_wait_def
      wgz_try_into_inner_def wg_try_into_inner_def wgz_get_mut_def wg_get_mut_def)

lemma wgz_gstep_eq:
  assumes "wgz_like s"
  shows "wgz_gstep i c env s = wg_gstep i c env s"
proof (cases "i < length (wg_guards s)")
  case True
  then have "g_one (wg_guards s ! i)" using assms by (simp add: wgz_like_def list_all_length)
  then show ?thesis
    by (cases "wg_guards s ! i") (simp_all add: wgz_gstep_def wg_gstep_def wgz_guard_clone_def wg_guard_clone_def wgz_guard_drop_def
        split: wg_gcall.split)
qed (simp add: wgz_gstep_def wg_gstep_def)

lemma wgz_step_eq: "wgz_like s \<Longrightarrow> no_threshold t \<Longrightarrow> wgz_step t s = wg_step t s"
  by (cases t) (auto simp: wgz_call_eq wgz_gstep_eq wgz_like_def split: wg_opc.split)


lemma wg_with_Done: "wg_with s f = Done y \<longleftrightarrow> (\<exists>b. wg_box s = Some b \<and> f b = Done y)"
  by (auto simp: wg_with_def split: option.splits)

lemmas done_iffs = wg_with_Done exec_map_Done_iff

lemma like_call:
  assumes "wgz_like s" "no_threshold (OwnerTurn c env)" "wg_owner_call c s = Done s'"
  shows "wgz_like s'"
  using assms
  by (cases c) (auto simp: wgz_like_def wg_add_guard_def wg_get_left_def wg_observe_def wg_try_wait_def wg_deref_def wg_wait_async_def
      wg_wait_def wg_try_into_inner_def wg_get_mut_def wg_poll_def wg_return_def done_iffs split: option.splits if_splits)

lemma wait_step_same:
  assumes "wg_wait_step t th td env pc s = Done s'"
  shows "wg_threshold s' = wg_threshold s \<and> wg_guards s' = wg_guards s"
proof -
  obtain b b' toks r where "wg_box s = Some b" "wt_step t td th env pc (b, wg_tokens s) = Done ((b', toks), r)"
    using assms by (auto simp: wg_wait_step_def done_iffs)
  then show ?thesis using assms by (cases r) (auto simp: wg_wait_step_def wg_return_def Let_def)
qed

lemma poll_step_same:
  assumes "wg_poll_step k env pc s = Done s'"
  shows "wg_threshold s' = wg_threshold s \<and> wg_guards s' = wg_guards s"
proof (cases "wg_fut s")
  case None
  then show ?thesis using assms by (simp add: wg_poll_step_def)
next
  case (Some fu)
  then obtain b where b: "wg_box s = Some b" using assms by (auto simp: wg_poll_step_def done_iffs)
  obtain b' r where "pl_step (fu_threshold fu) k (fu_waker fu) env pc b = (b', r)" by fastforce
  then show ?thesis using assms b Some
    by (cases r) (auto simp: wg_poll_step_def wg_ready_def wg_return_def split: bool.splits)
qed

lemma ostep_same:
  assumes "wg_ostep t env s = Done s'"
  shows "wg_threshold s' = wg_threshold s \<and> wg_guards s' = wg_guards s"
proof (cases "wg_owner s")
  case (ODropCas w)
  then show ?thesis using assms by (auto simp: wg_ostep_def wg_destroy_cas_def cas_weak_def done_iffs split: if_splits)
qed (use assms in \<open>auto simp: wg_ostep_def wg_timer_step_def wg_destroy_load_def wg_owner_free_def wg_free_def wg_deref_def wg_ready_def
    wg_return_def done_iffs split: option.splits if_splits dest!: wait_step_same poll_step_same\<close>)

lemma done_ptr_shape:
  assumes "wg_done_ptr i t env pc s = Done s'"
  obtains g where "wg_threshold s' = wg_threshold s" "wg_guards s' = (wg_guards s)[i := g]" "g = GGone \<or> g = GFree \<or> (\<exists>pc'. g = GDone t pc')"
proof (cases "\<exists>w. pc = DWake w")
  case True
  then show ?thesis using assms that by (auto simp: wg_done_ptr_def wg_goto_def)
next
  case False
  then obtain b b' r where "wg_box s = Some b" "dn_step True 1 t env pc b = Done (b', r)"
      "s' = wg_goto i (dn_next t r) (s\<lparr>wg_box := Some b'\<rparr>)"
    using assms by (cases pc) (auto simp: wg_done_ptr_def dn_next_def done_iffs)
  then show ?thesis using that [of "dn_next t r"] by (auto simp: wg_goto_def dn_next_def split: sum.split)
qed

lemma like_gstep:
  assumes "wgz_like s" "wg_gstep i c env s = Done s'"
  shows "wgz_like s'"
proof (cases "i < length (wg_guards s)")
  case i: True
  then have one: "g_one (wg_guards s ! i)" using assms(1) by (simp add: wgz_like_def list_all_length)
  show ?thesis
  proof (cases "wg_guards s ! i")
    case (GDone t pc)
    then have "wg_done_ptr i t env pc s = Done s'" "t = 1" using assms(2) i one by (simp_all add: wg_gstep_def)
    then show ?thesis using assms(1) by (elim done_ptr_shape) (auto simp: wgz_like_def intro!: list_all_update)
  next
    case (GLive t)
    then show ?thesis using assms i one
      by (cases c) (auto simp: wgz_like_def wg_gstep_def wg_guard_clone_def wg_goto_def done_iffs list_all_update)
  qed (use assms i in \<open>auto simp: wgz_like_def wg_gstep_def wg_goto_def wg_free_def done_iffs list_all_update\<close>)
qed (use assms in \<open>simp add: wg_gstep_def\<close>)

lemma like_step:
  assumes "wgz_like s" "no_threshold t" "wg_step t s = Done s'"
  shows "wgz_like s'"
proof (cases t)
  case (OwnerTurn c env)
  then show ?thesis using assms like_call [OF assms(1), of c env s'] ostep_same [of "wg_threshold s" env s s']
    by (cases "wg_owner s") (auto simp: wgz_like_def)
next
  case (GuardTurn i c env)
  then show ?thesis using assms like_gstep by auto
qed

lemma wgz_run_eq:
  assumes "wgz_like s" "list_all no_threshold ts"
  shows "wgz_run ts s = wg_run ts s"
  using assms
proof (induction ts arbitrary: s)
  case (Cons t ts)
  then have "wgz_run ts s' = wg_run ts s'" if "wg_step t s = Done s'" for s'
    using that like_step [OF Cons.prems(1), of t s'] by simp
  then have "exec_bind (wg_step t s) (wgz_run ts) = exec_bind (wg_step t s) (wg_run ts)" by (rule exec_bind_eqI)
  then show ?case using Cons.prems by (simp add: wgz_step_eq)
qed simp

text \<open>
  \<^verbatim>\<open>WaitGroupZero\<close> is a \<^verbatim>\<open>WaitGroup\<close> with threshold zero: from the same value, every schedule of calls both offer leads to the
  same states, answers and faults. What holds of wait groups under every schedule holds of \<^verbatim>\<open>WaitGroupZero\<close>.
\<close>

theorem wait_group_zero_same:
  assumes "list_all no_threshold ts"
  shows "wgz_run ts (wgz_new g x) = exec_bind (wg_new g x 0) (wg_run ts)"
  using wgz_run_eq [of "wgz_new g x" ts] assms
  by (simp add: wgz_like_def wgz_new_def wg_new_def checked_add_def)

theorem wait_group_zero_same_witness:
  "wgz_run drop_both (wgz_new backoff_globals_init 7) = exec_bind (wg_new backoff_globals_init 7 0) (wg_run drop_both)"
  by (rule wait_group_zero_same) (simp add: drop_both_def)


section \<open>WaitGroupInline\<close>

text \<open>
  The cell sits in its parent, so nothing is freed and \<^verbatim>\<open>done\<close> runs without ownership. A call of \<^verbatim>\<open>done\<close> that is not
  disturbed: the script says which exchanges fail spuriously. The state is the cell and the wake-ups delivered.
\<close>

fun dn_run ::
  "nat \<Rightarrow> bool \<Rightarrow> usize \<Rightarrow> usize \<Rightarrow> bool list \<Rightarrow> dn_pc \<Rightarrow> 'a wg_inner \<times> thin_waker set \<Rightarrow>
   (('a wg_inner \<times> thin_waker set) \<times> bool) exec" where
  "dn_run 0 own n threshold script pc st = Spin"
| "dn_run (Suc fuel) own n threshold script pc (b, toks) =
     (case pc of
        DWake w \<Rightarrow> Done ((b, insert w toks), False)
      | _ \<Rightarrow> (case next_spurious script of (sp, script') \<Rightarrow>
          exec_bind (dn_step own n threshold sp pc b) (\<lambda>(b', r).
            case r of Inl pc' \<Rightarrow> dn_run fuel own n threshold script' pc' (b', toks) | Inr x \<Rightarrow> Done ((b', toks), x))))"

definition wgi_new :: "backoff_globals \<Rightarrow> unit wg_inner" where
  "wgi_new g = wi_new g () 0"

definition wgi_get_left :: "unit wg_inner \<Rightarrow> usize" where
  "wgi_get_left b = wi_count b"

definition wgi_add :: "unit wg_inner \<Rightarrow> unit wg_inner exec" where
  "wgi_add b = wi_add 1 b"

definition wgi_add_many :: "bool \<Rightarrow> usize \<Rightarrow> unit wg_inner \<Rightarrow> unit wg_inner exec" where
  "wgi_add_many dbg n b = (if dbg \<and> \<not> n < COUNT_MASK - 2 then Fault Panic else wi_add n b)"

definition wgi_done :: "usize \<Rightarrow> bool list \<Rightarrow> unit wg_inner \<times> thin_waker set \<Rightarrow> ((unit wg_inner \<times> thin_waker set) \<times> bool) exec" where
  "wgi_done THRESHOLD script st = dn_run (length script + 6) False 1 THRESHOLD script DLoad st"

definition wgi_done_many ::
  "usize \<Rightarrow> bool \<Rightarrow> usize \<Rightarrow> bool list \<Rightarrow> unit wg_inner \<times> thin_waker set \<Rightarrow> ((unit wg_inner \<times> thin_waker set) \<times> bool) exec" where
  "wgi_done_many THRESHOLD dbg n script st =
     (if dbg \<and> \<not> n < COUNT_MASK - 2 then Fault Panic else dn_run (length script + 6) False n THRESHOLD script DLoad st)"

definition wgi_try_wait :: "usize \<Rightarrow> unit wg_inner \<Rightarrow> unit + unit" where
  "wgi_try_wait THRESHOLD b = (if wi_count b \<le> THRESHOLD then Inr () else Inl ())"

text \<open>The waiting calls, as steps of the shared loops; \<^verbatim>\<open>wait\<close> has no deadline.\<close>

definition wgi_wait_async :: "usize \<Rightarrow> bool \<Rightarrow> wg_future" where
  "wgi_wait_async THRESHOLD timed = \<lparr>fu_threshold = THRESHOLD, fu_timed = timed, fu_waker = None\<rparr>"

definition wgi_wait_step ::
  "usize \<Rightarrow> nat \<Rightarrow> bool \<Rightarrow> wt_pc \<Rightarrow> unit wg_inner \<times> thin_waker set \<Rightarrow> ((unit wg_inner \<times> thin_waker set) \<times> (wt_pc + (unit + unit))) exec" where
  "wgi_wait_step THRESHOLD thread env pc st = wt_step THRESHOLD False thread env pc st"

definition wgi_wait_timeout_step ::
  "usize \<Rightarrow> nat \<Rightarrow> bool \<Rightarrow> wt_pc \<Rightarrow> unit wg_inner \<times> thin_waker set \<Rightarrow> ((unit wg_inner \<times> thin_waker set) \<times> (wt_pc + (unit + unit))) exec" where
  "wgi_wait_timeout_step THRESHOLD thread env pc st = wt_step THRESHOLD True thread env pc st"

text \<open>The decrement by any amount.\<close>

lemma wst_done_many:
  assumes "f \<in> wf_flags" "count_ok c"
  shows "st_try_done (wst f c) n t =
    (if c < unat n then Fault Panic
     else if c - unat n \<le> unat t \<and> f = WAKER_FLAG_SET then Done (wst WAKER_FLAG_LOCK (c - unat n), True)
     else Done (wst f (c - unat n), False))"
proof (cases "c < unat n")
  case True
  then have "\<not> n \<le> of_nat c" using assms(2) by (simp add: word_le_nat_alt)
  then show ?thesis using True unfolding st_try_done_def Let_def wst_simps(1,3) [OF assms] by simp
next
  case False
  then have n: "n \<le> of_nat c" using assms(2) by (simp add: word_le_nat_alt)
  obtain m where m: "c = m + unat n" using False by (metis add.commute le_add_diff_inverse not_less)
  then have le: "n \<le> of_nat c" "of_nat c - n = of_nat m" "c - unat n = m" using n by simp_all
  have ok: "count_ok m" using assms(2) by (rule count_ok_le) (simp add: m)
  show ?thesis
    unfolding st_try_done_def Let_def wst_simps(1,3) [OF assms] le(2,3) using le(1) False ok assms(1) by (simp add: wst_or)
qed

text \<open>What \<^verbatim>\<open>done\<close> without ownership does to the cell and whom it wakes.\<close>

definition done_effect :: "nat \<Rightarrow> nat \<Rightarrow> usize \<Rightarrow> usize \<Rightarrow> 'a wg_inner \<times> thin_waker set \<Rightarrow> 'a wg_inner \<times> thin_waker set" where
  "done_effect c n t f = (\<lambda>(b, toks).
     if c - n \<le> unat t \<and> f = WAKER_FLAG_SET
     then (b\<lparr>wi_state := wst 0 (c - n), wi_waker := None\<rparr>, toks \<union> set_option (wi_waker b))
     else (b\<lparr>wi_state := wst f (c - n)\<rparr>, toks))"

lemma dn_run_locked:
  assumes "wi_state b = wst WAKER_FLAG_LOCK c" "count_ok c" "3 \<le> fuel"
  shows "dn_run fuel False n t script DTake (b, toks) =
    Done ((b\<lparr>wi_state := wst 0 c, wi_waker := None\<rparr>, toks \<union> set_option (wi_waker b)), False)"
proof -
  obtain k where "fuel = 3 + k" using assms(3) le_Suc_ex by blast
  then have "fuel = Suc (Suc (Suc k))" by simp
  then show ?thesis using assms(1,2) by (cases "wi_waker b") (simp_all add: case_prod_unfold Let_def)
qed

lemma dn_run_cas:
  assumes "f \<in> wf_flags" "count_ok c" "unat n \<le> c" "wi_state b = wst f c" "st_try_done (wst f c) n t = Done (w', lk)"
    "length script + 4 \<le> fuel"
  shows "dn_run fuel False n t script (DCas (wst f c) w' lk) (b, toks) = Done (done_effect c (unat n) t f (b, toks), False)"
  using assms(6)
proof (induction script arbitrary: fuel)
  case Nil
  then obtain k where k: "fuel = Suc k" "3 \<le> k" by (cases fuel) auto
  have ok: "count_ok (c - unat n)" using assms(2) by simp
  show ?case using assms(1-5) k(1) dn_run_locked [OF _ ok k(2), of "b\<lparr>wi_state := wst WAKER_FLAG_LOCK (c - unat n)\<rparr>"]
    by (auto simp: wst_done_many cas_weak_def done_effect_def split: if_splits)
next
  case (Cons sp script)
  then obtain k where k: "fuel = Suc k" "length script + 4 \<le> k" by (cases fuel) auto
  have ok: "count_ok (c - unat n)" using assms(2) by simp
  show ?case
  proof (cases sp)
    case True
    then show ?thesis using Cons.IH [OF k(2)] k(1) assms(4,5) by (simp add: cas_weak_def dn_decide_def)
  next
    case False
    have "3 \<le> k" using k(2) by simp
    then show ?thesis using False assms(1-5) k(1) dn_run_locked [OF _ ok \<open>3 \<le> k\<close>, of "b\<lparr>wi_state := wst WAKER_FLAG_LOCK (c - unat n)\<rparr>"]
      by (auto simp: wst_done_many cas_weak_def done_effect_def split: if_splits)
  qed
qed

lemma dn_run_exact:
  assumes "f \<in> wf_flags" "count_ok c" "wi_state b = wst f c" "length script + 6 \<le> fuel"
  shows "dn_run fuel False n t script DLoad (b, toks) =
    (if c < unat n then Fault Panic else Done (done_effect c (unat n) t f (b, toks), False))"
proof -
  obtain k where k: "fuel = Suc k" "length script + 5 \<le> k" using assms(4) by (cases fuel) auto
  obtain sp script' where sp: "next_spurious script = (sp, script')" by fastforce
  have "length script' \<le> length script" using sp by (cases script) auto
  show ?thesis
  proof (cases "c < unat n")
    case True
    then show ?thesis using k(1) sp assms(1-3) by (simp add: dn_decide_def wst_done_many)
  next
    case False
    then obtain w' lk where td: "st_try_done (wst f c) n t = Done (w', lk)" using assms(1,2)
      by (cases "c - unat n \<le> unat t \<and> f = WAKER_FLAG_SET") (auto simp: wst_done_many)
    then show ?thesis using False k sp assms(1-3) dn_run_cas [OF assms(1,2) _ assms(3) td, of script' k] \<open>length script' \<le> _\<close>
      by (simp add: dn_decide_def)
  qed
qed

text \<open>
  \<^verbatim>\<open>WaitGroupInline::done_many\<close> on a cell with flag \<open>f\<close> and count \<open>c\<close>, whatever exchanges fail spuriously: it panics
  exactly when it would count below zero; otherwise it returns, takes \<open>n\<close> off the count, and exactly when a waker is
  set and the rest is within the threshold it takes the waker, wakes it and clears the flags. Its answer is false in
  every case, also when zero has been reached, of which the documentation says that true is returned.
\<close>

theorem inline_done_exact:
  assumes "f \<in> wf_flags" "count_ok c" "wi_state b = wst f c" "n < COUNT_MASK - 2"
  shows "wgi_done_many t dbg n script (b, toks) =
    (if c < unat n then Fault Panic else Done (done_effect c (unat n) t f (b, toks), False))"
  using dn_run_exact [OF assms(1-3)] assms(4) by (simp add: wgi_done_many_def)

theorem inline_done_exact_witness:
  "wgi_done_many 0 True 2 [True] (\<lparr>wi_state = 0x8000000000000002, wi_waker = Some (Blocking 4), wi_inner = (), wi_backoff = config_default\<rparr>, {}) =
     Done ((\<lparr>wi_state = 0, wi_waker = None, wi_inner = (), wi_backoff = config_default\<rparr>, {Blocking 4}), False)"
proof -
  have w: "(0x8000000000000002 :: usize) = wst WAKER_FLAG_SET 2" by (simp add: wst_def WAKER_FLAG_SET_def push_bit_eq_mult)
  have "(2 :: usize) < COUNT_MASK - 2" by (simp add: flag_numerals)
  moreover have "count_ok 2" by (simp add: count_ok_def)
  ultimately show ?thesis
    unfolding w using inline_done_exact [of WAKER_FLAG_SET 2 "\<lparr>wi_state = wst WAKER_FLAG_SET 2, wi_waker = Some (Blocking 4), wi_inner = (), wi_backoff = config_default\<rparr>" 2]
    by (simp add: done_effect_def) (simp add: wst_def)
qed

end
