(* ===== verification/Many_Channels.thy ===== *)
theory Many_Channels
  imports Blocking
begin

text \<open>
  Several channels seen by one receiver: the state \<^verbatim>\<open>src/src/select/\<close> works on. Channels share one world of wakers and one
  clock. As for a single channel, a call into one of them is atomic and between two calls the other threads
  may do anything, by a script of state changes.
\<close>

type_synonym 'q chans_state = "world \<times> 'q channel list \<times> nat"

record 'q chans =
  cs_world :: world
  cs_chans :: "'q channel list"
  cs_now :: nat
  cs_env :: "('q chans_state \<Rightarrow> 'q chans_state) list"

definition cs_sched :: "'q chans \<Rightarrow> 'q chans" where
  "cs_sched s =
     (case cs_env s of
        [] \<Rightarrow> s
      | f # fs \<Rightarrow> (case f (cs_world s, cs_chans s, cs_now s) of
          (w, cs, t) \<Rightarrow> \<lparr>cs_world = w, cs_chans = cs, cs_now = t, cs_env = fs\<rparr>))"

text \<open>One channel of the system on its own, and a call on it; a handle outside the list is an unchecked access.\<close>

definition cs_one :: "nat \<Rightarrow> 'q chans \<Rightarrow> 'q sys" where
  "cs_one i s = \<lparr>sy_world = cs_world s, sy_chan = cs_chans s ! i, sy_now = cs_now s, sy_env = []\<rparr>"

definition cs_put :: "nat \<Rightarrow> 'q sys \<Rightarrow> 'q chans \<Rightarrow> 'q chans" where
  "cs_put i s1 s = s\<lparr>cs_world := sy_world s1, cs_chans := (cs_chans s)[i := sy_chan s1]\<rparr>"

definition cs_on :: "nat \<Rightarrow> ('q sys \<Rightarrow> ('q sys \<times> 'r) exec) \<Rightarrow> 'q chans \<Rightarrow> ('q chans \<times> 'r) exec" where
  "cs_on i f s =
     (if i < length (cs_chans s) then exec_map (\<lambda>(s1, r). (cs_put i s1 s, r)) (f (cs_one i s)) else Fault OutOfBounds)"

definition cs_do :: "nat \<Rightarrow> ('q sys \<Rightarrow> 'q sys exec) \<Rightarrow> 'q chans \<Rightarrow> 'q chans exec" where
  "cs_do i f s = exec_map fst (cs_on i (\<lambda>s1. exec_map (\<lambda>s2. (s2, ())) (f s1)) s)"

text \<open>A call on the shared select waker.\<close>

definition cs_sel :: "(world \<Rightarrow> world exec) \<Rightarrow> 'q chans \<Rightarrow> 'q chans exec" where
  "cs_sel f s = exec_map (\<lambda>w. s\<lparr>cs_world := w\<rparr>) (f (cs_world s))"

definition cs_check_timeout :: "nat option \<Rightarrow> 'q chans \<Rightarrow> unit + nat option" where
  "cs_check_timeout deadline s =
     (case deadline of
        None \<Rightarrow> Inr None
      | Some e \<Rightarrow> if cs_now s < e then Inr (Some (e - cs_now s)) else Inl ())"

text \<open>Parking until the select waker is woken: whether it was, or the deadline passed.\<close>

fun cs_park :: "nat \<Rightarrow> nat option \<Rightarrow> nat \<Rightarrow> u8 \<Rightarrow> 'q chans \<Rightarrow> ('q chans \<times> bool) exec" where
  "cs_park 0 deadline sel state s = Spin"
| "cs_park (Suc fuel) deadline sel state s =
     (if W_Woken \<le> state then Done (s, True)
      else case cs_check_timeout deadline s of
          Inl _ \<Rightarrow> Done (s, False)
        | Inr _ \<Rightarrow>
            let s1 = cs_sched s
            in exec_bind (sel_get_waker_state (cs_world s1) sel) (\<lambda>state1. cs_park fuel deadline sel state1 s1))"

end
