(* ===== verification/Many_Safety.thy ===== *)
theory Many_Safety
  imports Many_Channels Channel_Behaviour
begin

text \<open>
  Systems of channels: when they are well formed, what a call on one channel leaves of the others, and the circle in which
  \<^verbatim>\<open>Multiplex\<close> and \<^verbatim>\<open>Select\<close> look at them.
\<close>

section \<open>Well-formed systems of channels\<close>

definition ch_fine :: "('q \<Rightarrow> bool) \<Rightarrow> world \<Rightarrow> 'q channel \<Rightarrow> bool" where
  "ch_fine iv w c \<longleftrightarrow> iv (ch_inner c) \<and> reg_ok w (ch_senders c) \<and> reg_ok w (ch_recvs c) \<and> unat (spin_limit (ch_cfg c)) \<le> 31"

definition cs_ok :: "('q \<Rightarrow> bool) \<Rightarrow> 'q chans \<Rightarrow> bool" where
  "cs_ok iv s \<longleftrightarrow> world_ok (cs_world s) \<and> list_all (ch_fine iv (cs_world s)) (cs_chans s)"

definition contents :: "('q \<Rightarrow> 'a list) \<Rightarrow> 'q chans \<Rightarrow> 'a list list" where
  "contents cont s = map (\<lambda>c. cont (ch_inner c)) (cs_chans s)"

lemma ch_fine_keeps: "keeps_wakers w w' \<Longrightarrow> ch_fine iv w c \<Longrightarrow> ch_fine iv w' c"
  by (simp add: ch_fine_def keeps_reg_ok)

lemma list_all_update_at: "list_all P xs \<Longrightarrow> P y \<Longrightarrow> list_all P (xs[i := y])"
  by (auto simp: list_all_iff dest: set_update_subset_insert [THEN subsetD])

lemma cs_ok_put:
  assumes "cs_ok iv s" "keeps_wakers (cs_world s) w'" "ch_fine iv w' c"
  shows "cs_ok iv (s\<lparr>cs_world := w', cs_chans := (cs_chans s)[i := c]\<rparr>)"
proof -
  have "list_all (ch_fine iv w') (cs_chans s)"
    using assms(1) ch_fine_keeps [OF assms(2)] by (auto simp: cs_ok_def list_all_iff)
  with assms(2,3) show ?thesis by (simp add: cs_ok_def keeps_ok list_all_update_at)
qed

lemma cs_ok_at: "cs_ok iv s \<Longrightarrow> i < length (cs_chans s) \<Longrightarrow> ch_fine iv (cs_world s) (cs_chans s ! i)"
  by (simp add: cs_ok_def list_all_length)

lemma cs_sched_quiet [simp]: "cs_env s = [] \<Longrightarrow> cs_sched s = s"
  by (simp add: cs_sched_def)

text \<open>Waking a sender of channel \<open>i\<close> changes no queue.\<close>

lemma cs_on_recv:
  assumes "cs_ok iv s" "i < length (cs_chans s)"
  shows "\<exists>w g. cs_do i on_recv s = Done (s\<lparr>cs_world := w, cs_chans := (cs_chans s)[i := (cs_chans s ! i)\<lparr>ch_senders := g\<rparr>]\<rparr>) \<and>
    cs_ok iv (s\<lparr>cs_world := w, cs_chans := (cs_chans s)[i := (cs_chans s ! i)\<lparr>ch_senders := g\<rparr>]\<rparr>) \<and> keeps_wakers (cs_world s) w \<and>
    (\<exists>r. reg_fire (cs_world s) (ch_senders (cs_chans s ! i)) = Done (w, g, r))"
proof -
  have f: "ch_fine iv (cs_world s) (cs_chans s ! i)" "world_ok (cs_world s)"
    using assms cs_ok_at by (auto simp: cs_ok_def)
  then obtain w g r where r: "reg_fire (cs_world s) (ch_senders (cs_chans s ! i)) = Done (w, g, r)"
      "keeps_wakers (cs_world s) w" "reg_ok w g"
    using reg_fire_safe [OF f(2), of "ch_senders (cs_chans s ! i)"] by (auto simp: ch_fine_def)
  have "ch_fine iv w ((cs_chans s ! i)\<lparr>ch_senders := g\<rparr>)"
    using ch_fine_keeps [OF r(2) f(1)] r(3) by (simp add: ch_fine_def)
  with r cs_ok_put [OF assms(1) r(2)] assms(2) show ?thesis
    by (auto simp: cs_do_def cs_on_def cs_one_def cs_put_def on_recv_def with_senders_def exec_push)
qed

text \<open>The order in which the channels are visited from \<open>idx\<close> on.\<close>

fun visit :: "nat \<Rightarrow> nat \<Rightarrow> nat \<Rightarrow> nat list" where
  "visit n idx 0 = []"
| "visit n idx (Suc k) = (let i = (if n \<le> idx + 1 then 0 else idx + 1) in i # visit n i k)"

lemma visit_mod:
  assumes "0 < n"
  shows "visit n idx k = map (\<lambda>j. ((if n \<le> idx + 1 then 0 else idx + 1) + j) mod n) [0 ..< k]"
proof (induction k arbitrary: idx)
  case (Suc k)
  define i where "i = (if n \<le> idx + 1 then 0 else idx + 1)"
  have i: "i < n" using assms by (auto simp: i_def)
  have nx: "(if n \<le> i + 1 then 0 else i + 1) = Suc i mod n" using i by (auto simp: le_Suc_eq)
  have "visit n idx (Suc k) = i # visit n i k" by (simp add: i_def Let_def)
  also have "\<dots> = i # map (\<lambda>j. (Suc i mod n + j) mod n) [0 ..< k]" by (simp only: Suc.IH [of i] nx)
  also have "\<dots> = map (\<lambda>j. (i + j) mod n) (0 # map Suc [0 ..< k])" using i by (simp add: mod_simps)
  also have "\<dots> = map (\<lambda>j. (i + j) mod n) [0 ..< Suc k]" by (simp only: map_Suc_upt upt_conv_Cons zero_less_Suc)
  finally show ?case by (simp only: i_def)
qed simp

text \<open>A full round visits every channel.\<close>

lemma visit_all:
  assumes "0 < n"
  shows "set (visit n idx n) = {..< n}"
proof -
  define i where "i = (if n \<le> idx + 1 then 0 else idx + 1)"
  have i: "i < n" using assms by (auto simp: i_def)
  have "\<exists>j < n. j' = (i + j) mod n" if "j' < n" for j'
  proof (cases "i \<le> j'")
    case True
    then show ?thesis using that by (intro exI [of _ "j' - i"]) auto
  next
    case False
    then show ?thesis using that i by (intro exI [of _ "n + j' - i"]) auto
  qed
  then have "(\<lambda>j. (i + j) mod n) ` {0 ..< n} = {..< n}" using assms by (fastforce simp: image_iff)
  then show ?thesis using assms by (simp only: visit_mod i_def set_map set_upt)
qed

lemma visit_nth_less: "0 < n \<Longrightarrow> i \<in> set (visit n idx k) \<Longrightarrow> i < n"
  by (auto simp: visit_mod)

end
