(* ===== verification/Multiplex.thy ===== *)
theory Multiplex
  imports Many_Channels
begin

text \<open>
  \<^verbatim>\<open>Multiplex\<close> of \<^verbatim>\<open>src/src/select/multiplex.rs\<close>: one receiver that owns many channels of one flavor and takes messages from them in
  turn, staying with a channel for as many messages as its weight says. The two cells of the structure are
  fields of the record, returned updated.
\<close>

definition DEFAULT_WEIGHT :: u32 where "DEFAULT_WEIGHT = 128"

record multiplex =
  mp_waker :: nat
  mp_weights :: "u32 list"
  mp_last_idx :: nat
  mp_count :: u32

text \<open>\<^verbatim>\<open>Multiplex::new\<close>; the select waker is allocated under a fresh name.\<close>

definition mp_new :: "nat \<Rightarrow> 'q chans \<Rightarrow> 'q chans \<times> multiplex" where
  "mp_new sel s = (s\<lparr>cs_world := sel_set (cs_world s) sel sel_new\<rparr>,
     \<lparr>mp_waker = sel, mp_weights = [], mp_last_idx = 0, mp_count = 0\<rparr>)"

definition mp_add_item ::
  "('q, 'a) flavor \<Rightarrow> backoff_globals \<Rightarrow> 'q \<Rightarrow> registry \<Rightarrow> u32 \<Rightarrow> 'q chans \<times> multiplex \<Rightarrow> ('q chans \<times> multiplex) exec" where
  "mp_add_item F g inner senders weight = (\<lambda>(s, m).
     exec_bind (cs_sel (\<lambda>w. sel_add_opened w (mp_waker m)) s) (\<lambda>s1.
     exec_map (\<lambda>w1.
       let n = length (mp_weights m);
           shared = channel_new F g inner senders (RegSelect (mp_waker m) (of_nat n))
       in (s1\<lparr>cs_chans := cs_chans s1 @ [shared]\<rparr>, m\<lparr>mp_weights := mp_weights m @ [w1], mp_last_idx := n\<rparr>))
     (checked_sub weight 1)))"

definition mp_new_tx ::
  "('q, 'a) flavor \<Rightarrow> backoff_globals \<Rightarrow> 'q \<Rightarrow> registry \<Rightarrow> 'q chans \<times> multiplex \<Rightarrow> ('q chans \<times> multiplex) exec" where
  "mp_new_tx F g inner senders sm = mp_add_item F g inner senders DEFAULT_WEIGHT sm"

definition mp_new_tx_with_weight ::
  "('q, 'a) flavor \<Rightarrow> backoff_globals \<Rightarrow> 'q \<Rightarrow> registry \<Rightarrow> u32 \<Rightarrow> 'q chans \<times> multiplex \<Rightarrow> ('q chans \<times> multiplex) exec" where
  "mp_new_tx_with_weight F g inner senders weight sm = mp_add_item F g inner senders weight sm"

text \<open>The bounded flavors build the queue from a size, which may panic.\<close>

definition mp_bounded_tx ::
  "('q, 'a) flavor \<Rightarrow> backoff_globals \<Rightarrow> (nat \<Rightarrow> 'q exec) \<Rightarrow> registry \<Rightarrow> nat \<Rightarrow> 'q chans \<times> multiplex \<Rightarrow>
   ('q chans \<times> multiplex) exec" where
  "mp_bounded_tx F g new_with_bound senders bound sm =
     exec_bind (new_with_bound bound) (\<lambda>inner. mp_add_item F g inner senders DEFAULT_WEIGHT sm)"

definition mp_bounded_tx_with_weight ::
  "('q, 'a) flavor \<Rightarrow> backoff_globals \<Rightarrow> (nat \<Rightarrow> 'q exec) \<Rightarrow> registry \<Rightarrow> nat \<Rightarrow> u32 \<Rightarrow> 'q chans \<times> multiplex \<Rightarrow>
   ('q chans \<times> multiplex) exec" where
  "mp_bounded_tx_with_weight F g new_with_bound senders bound weight sm =
     exec_bind (new_with_bound bound) (\<lambda>inner. mp_add_item F g inner senders weight sm)"

section \<open>Receiving\<close>

text \<open>One look at one channel, and the wake-up of a sender when it gave a message.\<close>

definition mp_look ::
  "('q \<Rightarrow> ('q \<times> 'a option) exec) \<Rightarrow> nat \<Rightarrow> 'q chans \<Rightarrow> ('q chans \<times> 'a option) exec" where
  "mp_look recv i s =
     exec_bind (cs_on i (with_inner recv) (cs_sched s)) (\<lambda>(s1, r).
       case r of
         Some msg \<Rightarrow> exec_map (\<lambda>s2. (s2, Some msg)) (cs_do i on_recv (cs_sched s1))
       | None \<Rightarrow> Done (s1, None))"

fun mp_try_select_all ::
  "('q, 'a) flavor \<Rightarrow> bool \<Rightarrow> nat \<Rightarrow> nat \<Rightarrow> 'q chans \<times> multiplex \<Rightarrow> (('q chans \<times> multiplex) \<times> 'a option) exec" where
  "mp_try_select_all F FINAL idx 0 sm = Done (sm, None)"
| "mp_try_select_all F FINAL idx (Suc loop_count) (s, m) =
     (let idx' = (if length (mp_weights m) \<le> idx + 1 then 0 else idx + 1)
      in exec_bind (mp_look (if FINAL then fl_try_recv_final F else fl_try_recv F) idx' s) (\<lambda>(s1, r).
           case r of
             Some msg \<Rightarrow> Done ((s1, m\<lparr>mp_count := mp_weights m ! idx', mp_last_idx := idx'\<rparr>), Some msg)
           | None \<Rightarrow> mp_try_select_all F FINAL idx' loop_count (s1, m)))"

text \<open>\<open>Inl\<close> is the index to start the next look from.\<close>

definition mp_try_select_cached ::
  "('q, 'a) flavor \<Rightarrow> bool \<Rightarrow> 'q chans \<times> multiplex \<Rightarrow> (('q chans \<times> multiplex) \<times> (nat + 'a)) exec" where
  "mp_try_select_cached F FINAL = (\<lambda>(s, m).
     let last_idx = mp_last_idx m; count = mp_count m; n = length (mp_weights m);
         rest = (\<lambda>loop_count sm. exec_map (\<lambda>(sm', r). (sm', case r of Some msg \<Rightarrow> Inr msg | None \<Rightarrow> Inl last_idx))
           (mp_try_select_all F FINAL last_idx loop_count sm))
     in if \<not> last_idx < n then Fault OutOfBounds
        else if count > 0
        then exec_bind (mp_look (fl_try_recv_cached F) last_idx s) (\<lambda>(s1, r).
          case r of
            Some msg \<Rightarrow> Done ((s1, m\<lparr>mp_count := count - 1\<rparr>), Inr msg)
          | None \<Rightarrow> rest (n - 1) (s1, m))
        else rest n (s, m))"

definition mp_try_recv ::
  "('q, 'a) flavor \<Rightarrow> 'q chans \<times> multiplex \<Rightarrow> (('q chans \<times> multiplex) \<times> (try_recv_error + 'a)) exec" where
  "mp_try_recv F = (\<lambda>(s, m).
     exec_bind (sel_get_opened_count (cs_world s) (mp_waker m)) (\<lambda>opened.
       let n = length (mp_weights m)
       in if opened > 0
          then exec_map (\<lambda>(sm, r). (sm, case r of Some item \<Rightarrow> Inr item | None \<Rightarrow> Inl TREmpty))
            (mp_try_select_all F False (mp_last_idx m) n (s, m))
          else exec_map (\<lambda>(sm, r). (sm, case r of Some item \<Rightarrow> Inr item | None \<Rightarrow> Inl TRDisconnected))
            (mp_try_select_all F True (mp_last_idx m) n (s, m))))"

text \<open>The spinning loop of \<^verbatim>\<open>_recv_blocking\<close>, then its main loop; \<open>Inl True\<close> is disconnected and \<open>Inl False\<close> timed out.\<close>

fun mp_spin ::
  "('q, 'a) flavor \<Rightarrow> nat \<Rightarrow> nat \<Rightarrow> backoff \<Rightarrow> 'q chans \<times> multiplex \<Rightarrow> (('q chans \<times> multiplex) \<times> backoff \<times> 'a option) exec" where
  "mp_spin F 0 start_idx b sm = Spin"
| "mp_spin F (Suc fuel) start_idx b sm =
     exec_bind (mp_try_select_all F False start_idx (length (mp_weights (snd sm))) sm) (\<lambda>(sm1, r).
       case r of
         Some item \<Rightarrow> Done (sm1, b, Some item)
       | None \<Rightarrow> exec_bind (backoff_snooze b) (\<lambda>(b', _, completed).
           if completed then Done (sm1, b', None) else mp_spin F fuel start_idx b' sm1))"

fun mp_main ::
  "('q, 'a) flavor \<Rightarrow> nat \<Rightarrow> nat \<Rightarrow> nat option \<Rightarrow> nat \<Rightarrow> backoff \<Rightarrow> 'q chans \<times> multiplex \<Rightarrow>
   (('q chans \<times> multiplex) \<times> (bool + 'a)) exec" where
  "mp_main F 0 thread deadline start_idx b sm = Spin"
| "mp_main F (Suc fuel) thread deadline start_idx b sm =
     exec_bind (mp_spin F fuel start_idx b sm) (\<lambda>((s1, m1), b1, r).
       case r of
         Some item \<Rightarrow> Done ((s1, m1), Inr item)
       | None \<Rightarrow>
           exec_bind (cs_sel (\<lambda>w. sel_init_blocking w (mp_waker m1) thread) (cs_sched s1)) (\<lambda>s2.
           let s3 = cs_sched s2
           in exec_bind (sel_get_opened_count (cs_world s3) (mp_waker m1)) (\<lambda>opened.
             exec_bind (mp_try_select_all F True start_idx (length (mp_weights m1)) (s3, m1)) (\<lambda>((s4, m4), r4).
               case r4 of
                 Some item \<Rightarrow> Done ((s4, m4), Inr item)
               | None \<Rightarrow>
                   if opened = 0 then Done ((s4, m4), Inl True)
                   else exec_bind (cs_park fuel deadline (mp_waker m4) W_Init s4) (\<lambda>(s5, woken).
                     if woken
                     then exec_bind (sel_get_hint (cs_world s5) (mp_waker m4)) (\<lambda>hint.
                       mp_main F fuel thread deadline (unat hint) (backoff_reset b1) (s5, m4))
                     else Done ((s5, m4), Inl False))))))"

definition mp_recv_blocking ::
  "('q, 'a) flavor \<Rightarrow> backoff_globals \<Rightarrow> nat \<Rightarrow> nat \<Rightarrow> nat option \<Rightarrow> 'q chans \<times> multiplex \<Rightarrow>
   (('q chans \<times> multiplex) \<times> (bool + 'a)) exec" where
  "mp_recv_blocking F g fuel thread deadline sm =
     exec_bind (mp_try_select_cached F False sm) (\<lambda>(sm1, r).
       case r of
         Inr item \<Rightarrow> Done (sm1, Inr item)
       | Inl start_idx \<Rightarrow>
           exec_bind (backoff_snooze (backoff_from (config_detect g))) (\<lambda>(b, _, _).
             mp_main F fuel thread deadline start_idx b sm1))"

definition mp_recv ::
  "('q, 'a) flavor \<Rightarrow> backoff_globals \<Rightarrow> nat \<Rightarrow> nat \<Rightarrow> 'q chans \<times> multiplex \<Rightarrow>
   (('q chans \<times> multiplex) \<times> (recv_error + 'a)) exec" where
  "mp_recv F g fuel thread sm =
     exec_map (\<lambda>(sm1, r). (sm1, case r of Inr item \<Rightarrow> Inr item | Inl _ \<Rightarrow> Inl RecvError))
       (mp_recv_blocking F g fuel thread None sm)"

definition mp_recv_timeout ::
  "('q, 'a) flavor \<Rightarrow> backoff_globals \<Rightarrow> nat \<Rightarrow> nat \<Rightarrow> nat \<Rightarrow> nat \<Rightarrow> 'q chans \<times> multiplex \<Rightarrow>
   (('q chans \<times> multiplex) \<times> (recv_timeout_error + 'a)) exec" where
  "mp_recv_timeout F g instant_max fuel thread timeout sm =
     (if cs_now (fst sm) + timeout \<le> instant_max
      then exec_map (\<lambda>(sm1, r). (sm1, case r of
            Inr item \<Rightarrow> Inr item | Inl True \<Rightarrow> Inl RTDisconnected | Inl False \<Rightarrow> Inl RTTimeout))
          (mp_recv_blocking F g fuel thread (Some (cs_now (fst sm) + timeout)) sm)
      else exec_map (\<lambda>(sm1, r). (sm1, case r of
            Inr item \<Rightarrow> Inr item | Inl TRDisconnected \<Rightarrow> Inl RTDisconnected | Inl TREmpty \<Rightarrow> Inl RTTimeout))
          (mp_try_recv F sm))"

section \<open>Dropping and observers\<close>

fun mp_drop_from :: "nat list \<Rightarrow> 'q chans \<Rightarrow> 'q chans exec" where
  "mp_drop_from [] s = Done s"
| "mp_drop_from (i # is) s = exec_bind (cs_do i close_rx s) (\<lambda>s1. mp_drop_from is (cs_sched s1))"

definition mp_drop :: "'q chans \<times> multiplex \<Rightarrow> 'q chans exec" where
  "mp_drop = (\<lambda>(s, m). mp_drop_from [0 ..< length (mp_weights m)] s)"

definition mp_is_empty :: "('q, 'a) flavor \<Rightarrow> 'q chans \<times> multiplex \<Rightarrow> bool" where
  "mp_is_empty F = (\<lambda>(s, m). list_all (\<lambda>i. ch_is_empty F (cs_one i s)) [0 ..< length (mp_weights m)])"

definition mp_get_tx_count :: "'q chans \<times> multiplex \<Rightarrow> usize exec" where
  "mp_get_tx_count = (\<lambda>(s, m). sel_get_opened_count (cs_world s) (mp_waker m))"

definition mp_is_disconnected :: "'q chans \<times> multiplex \<Rightarrow> bool exec" where
  "mp_is_disconnected sm = exec_map (\<lambda>n. n = 0) (mp_get_tx_count sm)"

text \<open>A multiplexer of two channels with given queues, as two calls of \<^verbatim>\<open>new_tx_with_weight\<close> leave it.\<close>

definition mp_pair :: "('q, 'a) flavor \<Rightarrow> 'q \<Rightarrow> 'q \<Rightarrow> u32 \<Rightarrow> ('q chans \<times> multiplex) exec" where
  "mp_pair F q0 q1 weight =
     exec_bind (mp_new_tx_with_weight F backoff_globals_init q0 (RegSingle weak_cell_new) weight
       (mp_new 0 \<lparr>cs_world = world_init, cs_chans = [], cs_now = 0, cs_env = []\<rparr>))
       (mp_new_tx_with_weight F backoff_globals_init q1 (RegSingle weak_cell_new) weight)"

end
