(* ===== verification/Multiplex_Proofs.thy ===== *)
theory Multiplex_Proofs
  imports Multiplex Many_Safety
begin

text \<open>
  What the multiplexed receiver answers.
\<close>

section \<open>Adding channels\<close>

text \<open>Adding a channel keeps the system well formed; the weight must not be zero.\<close>

lemma add_item_ok:
  assumes "cs_ok iv s" "length (mp_weights m) = length (cs_chans s)" "wd_sels (cs_world s) (mp_waker m) = Some x" "iv inner"
    "reg_ok (cs_world s) senders" "unat (spin_limit (config_detect g)) \<le> 31" "weight \<noteq> 0"
  shows "\<exists>s' m'. mp_add_item F g inner senders weight (s, m) = Done (s', m') \<and> cs_ok iv s' \<and>
    length (mp_weights m') = length (cs_chans s') \<and> mp_waker m' = mp_waker m \<and> mp_weights m' = mp_weights m @ [weight - 1] \<and>
    mp_last_idx m' = length (cs_chans s) \<and> mp_count m' = mp_count m \<and> cs_env s' = cs_env s \<and>
    contents cont s' = contents cont s @ [cont inner] \<and>
    wd_sels (cs_world s') (mp_waker m) = Some (x\<lparr>sw_opened := sw_opened x + 1\<rparr>)"
proof -
  let ?w = "sel_set (cs_world s) (mp_waker m) (x\<lparr>sw_opened := sw_opened x + 1\<rparr>)"
  have k: "keeps_wakers (cs_world s) ?w" using assms(1,3) by (simp add: cs_ok_def keeps_sel_set)
  have all: "list_all (ch_fine iv ?w) (cs_chans s)"
    using assms(1) ch_fine_keeps [OF k] by (auto simp: cs_ok_def list_all_iff)
  have new: "ch_fine iv ?w (channel_new F g inner senders (RegSelect (mp_waker m) i))" for i
    using assms(4,6) keeps_reg_ok [OF k assms(5)] by (simp add: ch_fine_def channel_new_def reg_ok_def sel_set_def)
  have "checked_sub weight 1 = Done (weight - 1)" using assms(7) by (simp add: checked_sub_def Suc_le_eq unat_gt_0)
  then show ?thesis using assms(2,3) k all new keeps_ok [OF k]
    by (simp add: mp_add_item_def cs_sel_def sel_add_opened_def sel_get_def cs_ok_def contents_def channel_new_def
      sel_set_def Let_def)
qed

lemma mp_pair_ok:
  assumes "iv q0" "iv q1" "weight \<noteq> 0"
  shows "\<exists>s m. mp_pair F q0 q1 weight = Done (s, m) \<and> cs_ok iv s \<and> length (mp_weights m) = length (cs_chans s) \<and> cs_env s = [] \<and>
    mp_last_idx m = 1 \<and> mp_weights m = [weight - 1, weight - 1] \<and> mp_count m = 0 \<and> length (cs_chans s) = 2 \<and>
    contents cont s = [cont q0, cont q1] \<and> sel_get_opened_count (cs_world s) (mp_waker m) = Done 2"
proof -
  define s0 :: "'a chans" where "s0 = fst (mp_new 0 \<lparr>cs_world = world_init, cs_chans = [], cs_now = 0, cs_env = []\<rparr>)"
  define m0 where "m0 = snd (mp_new 0 (\<lparr>cs_world = world_init, cs_chans = [], cs_now = 0, cs_env = []\<rparr> :: 'a chans))"
  have sg: "reg_ok w (RegSingle weak_cell_new)" for w by (simp add: reg_ok_def)
  have i: "cs_ok iv s0" "length (mp_weights m0) = length (cs_chans s0)" "wd_sels (cs_world s0) (mp_waker m0) = Some sel_new"
      "mp_weights m0 = []" "mp_count m0 = 0" "cs_env s0 = []" "cs_chans s0 = []"
    using world_ok_init by (simp_all add: s0_def m0_def mp_new_def cs_ok_def world_ok_def sel_set_def)
  obtain s1 m1 where 1: "mp_add_item F backoff_globals_init q0 (RegSingle weak_cell_new) weight (s0, m0) = Done (s1, m1)"
      "cs_ok iv s1" "length (mp_weights m1) = length (cs_chans s1)" "mp_waker m1 = mp_waker m0" "mp_weights m1 = [weight - 1]"
      "mp_count m1 = 0" "cs_env s1 = []" "contents cont s1 = [cont q0]"
      "wd_sels (cs_world s1) (mp_waker m1) = Some (sel_new\<lparr>sw_opened := sw_opened sel_new + 1\<rparr>)"
    using add_item_ok [where F = F and cont = cont, OF i(1-3) assms(1) sg config_detect_spin(1) assms(3)] i
    by (auto simp: contents_def)
  obtain s2 m2 where "mp_add_item F backoff_globals_init q1 (RegSingle weak_cell_new) weight (s1, m1) = Done (s2, m2)"
      "cs_ok iv s2" "length (mp_weights m2) = length (cs_chans s2)" "mp_weights m2 = [weight - 1, weight - 1]" "mp_waker m2 = mp_waker m1"
      "mp_last_idx m2 = 1" "mp_count m2 = 0" "cs_env s2 = []" "contents cont s2 = [cont q0, cont q1]"
      "wd_sels (cs_world s2) (mp_waker m1) = Some (sel_new\<lparr>sw_opened := sw_opened sel_new + 1 + 1\<rparr>)"
    using add_item_ok [where F = F and cont = cont, OF 1(2,3,9) assms(2) sg config_detect_spin(1) assms(3)] 1(3,5-8)
    by auto
  moreover have "mp_new 0 \<lparr>cs_world = world_init, cs_chans = [], cs_now = 0, cs_env = []\<rparr> = (s0, m0)" by (simp add: s0_def m0_def)
  ultimately show ?thesis using 1(1)
    by (simp add: mp_pair_def mp_new_tx_with_weight_def sel_get_opened_count_def sel_get_def sel_new_def)
qed

section \<open>Looking at the channels\<close>

context lawful_flavor
begin

lemma look_any:
  assumes "cs_ok inv s" "i < length (cs_chans s)" "cs_env s = []" "recv (ch_inner (cs_chans s ! i)) = Done (q, r)" "inv q"
  shows "\<exists>s'. mp_look recv i s = Done (s', r) \<and> cs_ok inv s' \<and> cs_env s' = [] \<and>
    contents content s' = (contents content s)[i := content q]"
proof -
  let ?c = "cs_chans s ! i"
  have f: "ch_fine inv (cs_world s) ?c" using assms(1,2) by (rule cs_ok_at)
  define s1 where "s1 = s\<lparr>cs_chans := (cs_chans s)[i := ?c\<lparr>ch_inner := q\<rparr>]\<rparr>"
  have s1: "cs_on i (with_inner recv) s = Done (s1, r)"
    using assms(2,4) by (simp add: cs_on_def cs_one_def cs_put_def with_inner_def s1_def exec_push)
  have "ch_fine inv (cs_world s) (?c\<lparr>ch_inner := q\<rparr>)" using f assms(5) by (simp add: ch_fine_def)
  then have ok1: "cs_ok inv s1"
    using cs_ok_put [OF assms(1) keeps_refl] assms(1) by (simp add: s1_def cs_ok_def list_all_update_at)
  have len: "i < length (cs_chans s1)" "cs_env s1 = []" using assms(2,3) by (simp_all add: s1_def)
  have c1: "contents content s1 = (contents content s)[i := content q]"
    by (simp add: contents_def s1_def map_update)
  show ?thesis
  proof (cases r)
    case None
    then show ?thesis using s1 ok1 c1 assms(3) len(2) by (simp add: mp_look_def)
  next
    case (Some x)
    obtain w g where w: "cs_do i on_recv s1 = Done (s1\<lparr>cs_world := w, cs_chans := (cs_chans s1)[i := (cs_chans s1 ! i)\<lparr>ch_senders := g\<rparr>]\<rparr>)"
        "cs_ok inv (s1\<lparr>cs_world := w, cs_chans := (cs_chans s1)[i := (cs_chans s1 ! i)\<lparr>ch_senders := g\<rparr>]\<rparr>)"
      using cs_on_recv [OF ok1 len(1)] by blast
    have "contents content (s1\<lparr>cs_world := w, cs_chans := (cs_chans s1)[i := (cs_chans s1 ! i)\<lparr>ch_senders := g\<rparr>]\<rparr>) = contents content s1"
      using len(1) by (simp add: contents_def map_update list_update_same_conv)
    then show ?thesis using s1 w c1 assms(3) len(2) Some by (simp add: mp_look_def)
  qed
qed

lemma look_exact:
  assumes "cs_ok inv s" "i < length (cs_chans s)" "cs_env s = []"
    "recv = fl_try_recv F \<or> recv = fl_try_recv_final F"
  shows "\<exists>s'. mp_look recv i s = Done (s', case contents content s ! i of [] \<Rightarrow> None | x # xs \<Rightarrow> Some x) \<and>
    cs_ok inv s' \<and> cs_env s' = [] \<and> contents content s' = (contents content s)[i := tl (contents content s ! i)]"
proof -
  let ?q = "ch_inner (cs_chans s ! i)"
  have iv: "inv ?q" using cs_ok_at [OF assms(1,2)] by (simp add: ch_fine_def)
  obtain q r where q: "fl_try_recv F ?q = Done (q, r)" "inv q"
      "spec_step (fl_capacity F ?q) (content ?q) Pop = (content q, Popped r)"
    using pop_step [OF iv] by blast
  have rc: "recv ?q = Done (q, r)" using assms(4) q(1) final_eq [OF iv] by auto
  have "r = (case contents content s ! i of [] \<Rightarrow> None | x # xs \<Rightarrow> Some x)" "content q = tl (contents content s ! i)"
    using q(3) assms(2) by (auto simp: contents_def split: list.splits)
  with look_any [where recv = recv, OF assms(1-3) rc q(2)] show ?thesis by simp
qed

text \<open>The cached look may overlook a message but never invents or loses one.\<close>

lemma look_cached:
  assumes "cs_ok inv s" "i < length (cs_chans s)" "cs_env s = []"
  shows "\<exists>s' r. mp_look (fl_try_recv_cached F) i s = Done (s', r) \<and> cs_ok inv s' \<and> cs_env s' = [] \<and>
    (case r of None \<Rightarrow> contents content s' = contents content s
     | Some x \<Rightarrow> contents content s ! i \<noteq> [] \<and> x = hd (contents content s ! i) \<and>
         contents content s' = (contents content s)[i := tl (contents content s ! i)])"
proof -
  let ?q = "ch_inner (cs_chans s ! i)"
  have iv: "inv ?q" using cs_ok_at [OF assms(1,2)] by (simp add: ch_fine_def)
  obtain q r where q: "fl_try_recv_cached F ?q = Done (q, r)" "inv q"
      "case r of Some x \<Rightarrow> content ?q = x # content q | None \<Rightarrow> content q = content ?q"
    using cached [OF iv] by blast
  have at: "contents content s ! i = content ?q" "i < length (contents content s)" using assms(2) by (simp_all add: contents_def)
  with look_any [where recv = "fl_try_recv_cached F", OF assms q(1,2)] q(3) show ?thesis
    by (cases r) (auto simp: at list_update_same_conv)
qed

lemma select_all_exact:
  assumes "cs_ok inv s" "length (mp_weights m) = length (cs_chans s)" "cs_chans s \<noteq> []" "cs_env s = []"
  shows "\<exists>s' m'. mp_try_select_all F fin idx k (s, m) =
      Done ((s', m'), map_option (\<lambda>i. hd (contents content s ! i)) (find (\<lambda>i. contents content s ! i \<noteq> []) (visit (length (cs_chans s)) idx k))) \<and>
    cs_ok inv s' \<and> cs_env s' = [] \<and>
    (case find (\<lambda>i. contents content s ! i \<noteq> []) (visit (length (cs_chans s)) idx k) of
       None \<Rightarrow> contents content s' = contents content s \<and> m' = m
     | Some i \<Rightarrow> contents content s' = (contents content s)[i := tl (contents content s ! i)] \<and>
         m' = m\<lparr>mp_count := mp_weights m ! i, mp_last_idx := i\<rparr>)"
  using assms
proof (induction k arbitrary: idx s)
  case 0
  then show ?case by simp
next
  case (Suc k)
  define i where "i = (if length (cs_chans s) \<le> idx + 1 then 0 else idx + 1)"
  have i: "i < length (cs_chans s)" using Suc.prems(3) by (auto simp: i_def)
  let ?recv = "if fin then fl_try_recv_final F else fl_try_recv F" and ?c = "contents content s"
  have rr: "?recv = fl_try_recv F \<or> ?recv = fl_try_recv_final F" by simp
  obtain s1 where s1: "mp_look ?recv i s = Done (s1, case ?c ! i of [] \<Rightarrow> None | x # xs \<Rightarrow> Some x)" "cs_ok inv s1" "cs_env s1 = []"
      "contents content s1 = ?c[i := tl (?c ! i)]"
    using look_exact [OF Suc.prems(1) i Suc.prems(4) rr] by blast
  have len: "length (cs_chans s1) = length (cs_chans s)" using s1(4) by (metis contents_def length_list_update length_map)
  have step: "mp_try_select_all F fin idx (Suc k) (s, m) =
      exec_bind (mp_look ?recv i s) (\<lambda>(s1, r). case r of
        Some msg \<Rightarrow> Done ((s1, m\<lparr>mp_count := mp_weights m ! i, mp_last_idx := i\<rparr>), Some msg)
      | None \<Rightarrow> mp_try_select_all F fin i k (s1, m))"
    by (simp only: mp_try_select_all.simps Let_def i_def Suc.prems(2))
  have vis: "visit (length (cs_chans s)) idx (Suc k) = i # visit (length (cs_chans s)) i k" by (simp add: i_def Let_def)
  show ?case
  proof (cases "?c ! i")
    case Nil
    then have same: "contents content s1 = ?c" using s1(4) by (metis list.sel(2) list_update_id)
    have "cs_chans s1 \<noteq> []" using len Suc.prems(3) by auto
    with len Suc.prems(2) show ?thesis
      unfolding step vis using s1(1) Nil Suc.IH [OF s1(2) _ _ s1(3), of i, unfolded same len] by simp
  next
    case (Cons x xs)
    then show ?thesis unfolding step vis using s1 by simp
  qed
qed

end

section \<open>Properties\<close>

text \<open>
  C14. \<^verbatim>\<open>Multiplex::try_recv\<close>, undisturbed, is exact and fair. It looks at every channel once, in a circle that starts behind the
  channel served last; it takes the oldest message of the first channel in that order that has one, removes it there and
  nowhere else, and remembers the channel and its weight. It answers \<^verbatim>\<open>Empty\<close> or \<^verbatim>\<open>Disconnected\<close> exactly when every channel is empty,
  and \<^verbatim>\<open>Disconnected\<close> exactly when moreover no channel is open.
\<close>

theorem multiplex_try_recv_exact:
  assumes "lawful_flavor F iv cont" "cs_ok iv s" "length (mp_weights m) = length (cs_chans s)" "cs_chans s \<noteq> []" "cs_env s = []"
    "sel_get_opened_count (cs_world s) (mp_waker m) = Done opened"
  shows "\<exists>s' m' r. mp_try_recv F (s, m) = Done ((s', m'), r) \<and>
    (case find (\<lambda>i. contents cont s ! i \<noteq> []) (visit (length (cs_chans s)) (mp_last_idx m) (length (cs_chans s))) of
       Some i \<Rightarrow> r = Inr (hd (contents cont s ! i)) \<and> contents cont s' = (contents cont s)[i := tl (contents cont s ! i)] \<and>
         m' = m\<lparr>mp_count := mp_weights m ! i, mp_last_idx := i\<rparr>
     | None \<Rightarrow> r = Inl (if opened = 0 then TRDisconnected else TREmpty) \<and> contents cont s' = contents cont s \<and> m' = m \<and>
         (\<forall>c \<in> set (contents cont s). c = []))"
proof -
  let ?v = "visit (length (cs_chans s)) (mp_last_idx m) (length (cs_chans s))" and ?c = "contents cont s"
  obtain s' m' where sm: "mp_try_select_all F (opened = 0) (mp_last_idx m) (length (cs_chans s)) (s, m) =
      Done ((s', m'), map_option (\<lambda>i. hd (?c ! i)) (find (\<lambda>i. ?c ! i \<noteq> []) ?v))"
    "case find (\<lambda>i. ?c ! i \<noteq> []) ?v of None \<Rightarrow> contents cont s' = ?c \<and> m' = m
     | Some i \<Rightarrow> contents cont s' = ?c[i := tl (?c ! i)] \<and> m' = m\<lparr>mp_count := mp_weights m ! i, mp_last_idx := i\<rparr>"
    using lawful_flavor.select_all_exact [OF assms(1-5)] by blast
  have all: "\<forall>c \<in> set ?c. c = []" if "find (\<lambda>i. ?c ! i \<noteq> []) ?v = None"
    using that visit_all [of "length (cs_chans s)"] assms(4) by (auto simp: find_None_iff in_set_conv_nth contents_def)
  show ?thesis using sm all assms(3,6)
    by (cases "opened = 0"; cases "find (\<lambda>i. ?c ! i \<noteq> []) ?v") (auto simp: mp_try_recv_def Let_def word_gt_0)
qed

theorem multiplex_try_recv_exact_witness:
  "\<exists>q s m s' m'. osp_try_push osp_new (7 :: nat) = Done (q, True) \<and> mp_pair one_spsc_flavor osp_new q 3 = Done (s, m) \<and>
    mp_try_recv one_spsc_flavor (s, m) = Done ((s', m'), Inr 7) \<and> contents osp_content s' = [[], []] \<and> mp_last_idx m' = 1 \<and> mp_count m' = 2"
proof -
  have n: "osp_inv (osp_new :: nat one_sp)" "osp_content (osp_new :: nat one_sp) = []"
    using osp_repr_inv [OF osp_new_repr] by auto
  then obtain q where q: "osp_try_push osp_new (7 :: nat) = Done (q, True)" "osp_inv q" "osp_content q = [7]"
    using ospi.push_step [OF n(1), of 7] by (auto simp: has_room_def osp_capacity_def)
  from mp_pair_ok [of osp_inv osp_new q 3 one_spsc_flavor osp_content, OF n(1) q(2)] n(2) q(3) obtain s m where
    s: "mp_pair one_spsc_flavor osp_new q 3 = Done (s, m)" "cs_ok osp_inv s" "length (mp_weights m) = length (cs_chans s)" "cs_env s = []"
      "mp_last_idx m = 1" "mp_weights m = [2, 2]" "length (cs_chans s) = 2" "contents osp_content s = [[], [7]]"
      "sel_get_opened_count (cs_world s) (mp_waker m) = Done 2" by auto
  have "cs_chans s \<noteq> []" using s(7) by auto
  from multiplex_try_recv_exact [OF ospf.lawful_flavor_axioms s(2,3) this s(4,9)] s(1,5-8) q(1) show ?thesis
    by (auto simp: numeral_2_eq_2)
qed

text \<open>
  \<^verbatim>\<open>recv\<close> on a \<^verbatim>\<open>Multiplex\<close> to which no channel was added reads the handler vector out of bounds, whereas \<^verbatim>\<open>try_recv\<close> says that it is
  disconnected.
\<close>

theorem multiplex_recv_without_channels:
  "mp_recv F g fuel thread (mp_new sel s) = Fault OutOfBounds \<and>
   mp_try_recv F (mp_new sel s) = Done (mp_new sel s, Inl TRDisconnected)"
  by (simp add: mp_recv_def mp_recv_blocking_def mp_try_select_cached_def mp_try_recv_def mp_new_def sel_get_opened_count_def
    sel_get_def sel_set_def sel_new_def)

text \<open>
  The select waker keeps the thread that first blocked on it: after a \<^verbatim>\<open>Multiplex\<close> has moved to another thread, which prepares to block
  in its turn, a wake-up still goes to the first thread.
\<close>

theorem multiplex_wakes_first_thread:
  "exec_bind (sel_init_blocking (sel_set w sel sel_new) sel first) (\<lambda>w1.
   exec_bind (sel_init_blocking w1 sel second) (\<lambda>w2.
   exec_map wd_log (sel_wake w2 (sel, idx)))) = Done (wd_log w @ [Blocking first])"
  by (simp add: sel_init_blocking_def sel_get_def sel_set_def sel_new_def new_blocking_def alloc_waker_def upgrade_def set_waker_def
    w_reset_init_def sel_wake_def weak_cell_replace_def weak_cell_new_def weak_cell_pop_def wake_at_def Let_def
    w_wake_spec w_ok_def wake_spec_def waker_states wake_by_ref_def)

end
