(* ===== verification/Multiplex_Fair.thy ===== *)
theory Multiplex_Fair
  imports Multiplex_Proofs
begin

text \<open>
  The weighted turns of \<^verbatim>\<open>Multiplex::recv\<close>: no channel that holds a message starves.
\<close>

section \<open>The circle of channels\<close>

lemma visit_append: "visit n idx (a + Suc 0 + b) = visit n idx (Suc a) @ visit n (last (visit n idx (Suc a))) b"
proof (induction a arbitrary: idx)
  case (Suc a)
  define i where "i = (if n \<le> idx + 1 then 0 else idx + 1)"
  have v: "visit n idx (Suc k) = i # visit n i k" for k by (simp add: i_def Let_def)
  have "visit n i (Suc a) \<noteq> []" by (simp add: Let_def)
  with Suc.IH [of i] show ?case by (simp only: add_Suc v append_Cons last_ConsR not_False_eq_True)
qed (simp add: Let_def)

lemma length_visit [simp]: "length (visit n idx k) = k"
  by (induction k arbitrary: idx) (simp_all add: Let_def)

text \<open>The channels served before \<open>j\<close>'s turn comes, and the messages they may still deliver before it.\<close>

definition before_turn :: "nat \<Rightarrow> nat \<Rightarrow> nat \<Rightarrow> nat list" where
  "before_turn n idx j = takeWhile (\<lambda>i. i \<noteq> j) (visit n idx n)"

definition turns_left :: "nat \<Rightarrow> multiplex \<Rightarrow> nat" where
  "turns_left j m = unat (mp_count m) +
     sum_list (map (\<lambda>i. Suc (unat (mp_weights m ! i))) (before_turn (length (mp_weights m)) (mp_last_idx m) j))"

lemma before_turn_more:
  assumes "j < n" "n \<le> k"
  shows "takeWhile (\<lambda>i. i \<noteq> j) (visit n idx k) = before_turn n idx j"
proof (cases "k = n")
  case False
  have b: "k = (n - 1) + Suc 0 + (k - n)" using assms by simp
  have "j \<in> set (visit n idx n)" using assms visit_all by auto
  moreover have "visit n idx k = visit n idx n @ visit n (last (visit n idx n)) (k - n)"
    using visit_append [of n idx "n - 1" "k - n", folded b] assms(1) by simp
  ultimately show ?thesis by (simp add: before_turn_def takeWhile_append1)
qed (simp add: before_turn_def)

lemma find_split:
  assumes "find P xs = Some i"
  shows "\<exists>ys zs. xs = ys @ i # zs \<and> (\<forall>y \<in> set ys. \<not> P y) \<and> P i"
  using assms
proof (induction xs)
  case (Cons x xs)
  show ?case
  proof (cases "P x")
    case True
    with Cons.prems show ?thesis by (intro exI [of _ "[]"] exI [of _ xs]) auto
  next
    case False
    with Cons obtain ys zs where "xs = ys @ i # zs" "\<forall>y \<in> set ys. \<not> P y" "P i" by auto
    with False show ?thesis by (intro exI [of _ "x # ys"] exI [of _ zs]) auto
  qed
qed simp

lemma before_turn_served:
  assumes j: "j < n" "P j" and i: "find P (visit n idx k) = Some i" "i \<noteq> j"
  shows "\<exists>pre. before_turn n idx j = pre @ i # before_turn n i j"
proof -
  obtain ys zs where s: "visit n idx k = ys @ i # zs" "\<forall>y \<in> set ys. \<not> P y" using find_split [OF i(1)] by blast
  let ?a = "length ys"
  have k: "k = ?a + Suc (length zs)" using arg_cong [OF s(1), of length] by simp
  have pre: "visit n idx (Suc ?a) = ys @ [i]"
  proof -
    have "visit n idx k = visit n idx (Suc ?a) @ visit n (last (visit n idx (Suc ?a))) (length zs)"
      using visit_append [of n idx ?a "length zs"] k by simp
    with s(1) have "take (Suc ?a) (ys @ i # zs) = take (Suc ?a) (visit n idx (Suc ?a) @ visit n (last (visit n idx (Suc ?a))) (length zs))"
      by simp
    then show ?thesis by (simp only: take_append length_visit) simp
  qed
  have "j \<notin> set (ys @ [i])" using s(2) j(2) i(2) by auto
  then have "takeWhile (\<lambda>i. i \<noteq> j) (visit n idx (?a + Suc 0 + n)) = (ys @ [i]) @ before_turn n i j"
    unfolding visit_append pre by (subst takeWhile_append2) (auto simp: before_turn_def)
  with before_turn_more [of j n "?a + Suc 0 + n" idx] j(1) show ?thesis by auto
qed

text \<open>Serving another channel found on the way brings \<open>j\<close> closer.\<close>

lemma turns_left_served:
  assumes "j < length (mp_weights m)" "P j" "find P (visit (length (mp_weights m)) (mp_last_idx m) k) = Some i" "i \<noteq> j"
  shows "turns_left j (m\<lparr>mp_count := mp_weights m ! i, mp_last_idx := i\<rparr>) < turns_left j m"
  using before_turn_served [of j "length (mp_weights m)" P, OF assms] by (auto simp: turns_left_def)

lemma turns_left_cached:
  assumes "mp_count m > 0"
  shows "turns_left j (m\<lparr>mp_count := mp_count m - 1\<rparr>) < turns_left j m"
proof -
  have "unat (mp_count m - 1) < unat (mp_count m)"
    using assms by (metis diff_less less_numeral_extra(1) unat_1 unat_gt_0 unat_minus_one word_gt_0)
  then show ?thesis by (simp add: turns_left_def)
qed

section \<open>One receive\<close>

text \<open>
  What one receive does from the view of a waiting channel \<open>j\<close>: some channel gives its oldest message, and it is \<open>j\<close> or \<open>j\<close> has
  fewer messages ahead of it than before.
\<close>

definition served :: "nat \<Rightarrow> 'a list list \<Rightarrow> multiplex \<Rightarrow> 'a \<Rightarrow> 'a list list \<Rightarrow> multiplex \<Rightarrow> bool" where
  "served j c m x c' m' \<longleftrightarrow> mp_last_idx m' < length c \<and> mp_weights m' = mp_weights m \<and>
     c ! mp_last_idx m' \<noteq> [] \<and> x = hd (c ! mp_last_idx m') \<and> c' = c[mp_last_idx m' := tl (c ! mp_last_idx m')] \<and>
     (mp_last_idx m' = j \<or> turns_left j m' < turns_left j m)"

context lawful_flavor
begin

lemma select_all_served:
  assumes ok: "cs_ok inv s" "length (mp_weights m) = length (cs_chans s)" "cs_env s = []"
    and j: "j < length (cs_chans s)" "contents content s ! j \<noteq> []"
    and k: "find (\<lambda>i. contents content s ! i \<noteq> []) (visit (length (cs_chans s)) (mp_last_idx m) k) = Some i"
  shows "\<exists>s' m' x. mp_try_select_all F fin (mp_last_idx m) k (s, m) = Done ((s', m'), Some x) \<and> cs_ok inv s' \<and> cs_env s' = [] \<and>
    served j (contents content s) m x (contents content s') m'"
proof -
  have ne: "cs_chans s \<noteq> []" using j by auto
  obtain ys zs where v: "visit (length (cs_chans s)) (mp_last_idx m) k = ys @ i # zs" and ci: "contents content s ! i \<noteq> []"
    using find_split [OF k] by blast
  then have i: "i < length (cs_chans s)" using visit_nth_less [of "length (cs_chans s)" i "mp_last_idx m" k] ne by simp
  have t: "i = j \<or> turns_left j (m\<lparr>mp_count := mp_weights m ! i, mp_last_idx := i\<rparr>) < turns_left j m"
    using turns_left_served [of j m "\<lambda>i. contents content s ! i \<noteq> []" k i] ok(2) j k by auto
  from select_all_exact [OF ok(1,2) ne ok(3), of fin "mp_last_idx m" k] k i ci t show ?thesis
    by (auto simp: served_def contents_def)
qed

lemma cached_served:
  assumes ok: "cs_ok inv s" "length (mp_weights m) = length (cs_chans s)" "cs_env s = []" "mp_last_idx m < length (cs_chans s)"
    and j: "j < length (cs_chans s)" "contents content s ! j \<noteq> []"
  shows "\<exists>s' m' r. mp_try_select_cached F fin (s, m) = Done ((s', m'), r) \<and> cs_ok inv s' \<and> cs_env s' = [] \<and>
    (case r of Inr x \<Rightarrow> served j (contents content s) m x (contents content s') m'
     | Inl idx \<Rightarrow> idx = mp_last_idx m \<and> m' = m \<and> contents content s' = contents content s)"
proof -
  let ?n = "length (cs_chans s)" and ?c = "contents content s"
  have rest: "\<exists>s' m' r. mp_try_select_all F fin (mp_last_idx m) k (s1, m) = Done ((s', m'), r) \<and> cs_ok inv s' \<and> cs_env s' = [] \<and>
      (case r of Some x \<Rightarrow> served j ?c m x (contents content s') m' | None \<Rightarrow> m' = m \<and> contents content s' = ?c)"
    if s1: "cs_ok inv s1" "cs_env s1 = []" "contents content s1 = ?c" for s1 k
  proof -
    have len: "length (cs_chans s1) = ?n" using s1(3) by (metis contents_def length_map)
    have ne: "cs_chans s1 \<noteq> []" using len j(1) by auto
    show ?thesis
    proof (cases "find (\<lambda>i. ?c ! i \<noteq> []) (visit ?n (mp_last_idx m) k)")
      case None
      then show ?thesis using select_all_exact [OF s1(1) _ ne s1(2), of m fin "mp_last_idx m" k] ok(2) len s1(3) by auto
    next
      case (Some i)
      then show ?thesis using select_all_served [OF s1(1) _ s1(2), of m j k i fin] ok(2) len s1(3) j by auto
    qed
  qed
  show ?thesis
  proof (cases "mp_count m > 0")
    case False
    obtain s2 m2 r2 where r2: "mp_try_select_all F fin (mp_last_idx m) (length (mp_weights m)) (s, m) = Done ((s2, m2), r2)"
        "cs_ok inv s2" "cs_env s2 = []"
        "case r2 of Some x \<Rightarrow> served j ?c m x (contents content s2) m2 | None \<Rightarrow> m2 = m \<and> contents content s2 = ?c"
      using rest [OF ok(1,3) refl] by blast
    show ?thesis using False ok(2,4) r2 by (cases r2) (simp_all add: mp_try_select_cached_def Let_def)
  next
    case True
    obtain s1 r where s1: "mp_look (fl_try_recv_cached F) (mp_last_idx m) s = Done (s1, r)" "cs_ok inv s1" "cs_env s1 = []"
        "case r of None \<Rightarrow> contents content s1 = ?c
         | Some x \<Rightarrow> ?c ! mp_last_idx m \<noteq> [] \<and> x = hd (?c ! mp_last_idx m) \<and>
             contents content s1 = ?c[mp_last_idx m := tl (?c ! mp_last_idx m)]"
      using look_cached [OF ok(1,4,3)] by blast
    show ?thesis
    proof (cases r)
      case None
      then have "contents content s1 = ?c" using s1(4) by simp
      from rest [OF s1(2,3) this] obtain s2 m2 r2 where
        r2: "mp_try_select_all F fin (mp_last_idx m) (length (mp_weights m) - 1) (s1, m) = Done ((s2, m2), r2)"
          "cs_ok inv s2" "cs_env s2 = []"
          "case r2 of Some x \<Rightarrow> served j ?c m x (contents content s2) m2 | None \<Rightarrow> m2 = m \<and> contents content s2 = ?c" by blast
      show ?thesis using True None s1(1) ok(2,4) r2 by (cases r2) (simp_all add: mp_try_select_cached_def Let_def)
    next
      case (Some x)
      then have "served j ?c m x (contents content s1) (m\<lparr>mp_count := mp_count m - 1\<rparr>)"
        unfolding served_def using s1(4) ok(4) turns_left_cached [OF True, of j] Some by (simp add: contents_def)
      then show ?thesis using True s1(1-3) ok(4,2) Some by (simp add: mp_try_select_cached_def Let_def)
    qed
  qed
qed

lemma recv_served:
  assumes ok: "cs_ok inv s" "length (mp_weights m) = length (cs_chans s)" "cs_env s = []" "mp_last_idx m < length (cs_chans s)"
    and j: "j < length (cs_chans s)" "contents content s ! j \<noteq> []" and g: "unat (spin_limit (config_detect g)) \<le> 31" and fuel: "2 \<le> fuel"
  shows "\<exists>s' m' x. mp_recv F g fuel thread (s, m) = Done ((s', m'), Inr x) \<and> cs_ok inv s' \<and> cs_env s' = [] \<and>
    served j (contents content s) m x (contents content s') m'"
proof -
  obtain f where f: "fuel = Suc (Suc f)" using fuel by (metis Suc_le_D Suc_le_mono numeral_2_eq_2)
  obtain s1 m1 r where c: "mp_try_select_cached F False (s, m) = Done ((s1, m1), r)" "cs_ok inv s1" "cs_env s1 = []"
      "case r of Inr x \<Rightarrow> served j (contents content s) m x (contents content s1) m1
       | Inl idx \<Rightarrow> idx = mp_last_idx m \<and> m1 = m \<and> contents content s1 = contents content s"
    using cached_served [OF ok j] by blast
  obtain b x y where b: "backoff_snooze (backoff_from (config_detect g)) = Done (b, x, y)"
    using snooze_step [of "backoff_from (config_detect g)"] g by (auto simp: backoff_from_def split: if_splits)
  show ?thesis
  proof (cases r)
    case (Inr x)
    then show ?thesis using c by (auto simp: mp_recv_def mp_recv_blocking_def)
  next
    case (Inl idx)
    then have same: "idx = mp_last_idx m" "m1 = m" "contents content s1 = contents content s" using c(4) by auto
    have len: "length (cs_chans s1) = length (cs_chans s)" using same(3) by (metis contents_def length_map)
    have "j \<in> set (visit (length (cs_chans s1)) (mp_last_idx m) (length (cs_chans s1)))" 
      using j(1) len visit_all [of "length (cs_chans s1)" "mp_last_idx m"] by (cases "cs_chans s = []") auto
    with j(2) same(3) obtain i where
      i: "find (\<lambda>i. contents content s1 ! i \<noteq> []) (visit (length (cs_chans s1)) (mp_last_idx m) (length (cs_chans s1))) = Some i"
      by (metis (mono_tags, lifting) find_None_iff not_None_eq)
    have len': "length (mp_weights m) = length (cs_chans s1)" using ok(2) len by simp
    have j': "j < length (cs_chans s1)" "contents content s1 ! j \<noteq> []" using j len same(3) by simp_all
    from select_all_served [OF c(2) len' c(3) j' i, of False] obtain s2 m2 x where
      x: "mp_try_select_all F False (mp_last_idx m) (length (mp_weights m)) (s1, m) = Done ((s2, m2), Some x)" "cs_ok inv s2" "cs_env s2 = []"
        "served j (contents content s) m x (contents content s2) m2" unfolding len' same(3) by blast
    show ?thesis using c(1) b x Inl same by (simp add: mp_recv_def mp_recv_blocking_def f)
  qed
qed

end

section \<open>Properties\<close>

text \<open>
  C7. No channel of a \<^verbatim>\<open>Multiplex\<close> starves. While some channel holds a message, an undisturbed \<^verbatim>\<open>recv\<close> returns the oldest message of one
  channel, takes it there and nowhere else, and never parks; and for every channel \<open>j\<close> that holds a message, either it is \<open>j\<close>'s message or
  the number of messages that other channels may still deliver before \<open>j\<close> (what is left of the current turn plus the weights of the
  channels in between) has become strictly smaller.
\<close>

theorem multiplex_no_starvation:
  assumes "lawful_flavor F iv cont" "cs_ok iv s" "length (mp_weights m) = length (cs_chans s)" "cs_env s = []"
    "mp_last_idx m < length (cs_chans s)" "j < length (cs_chans s)" "contents cont s ! j \<noteq> []"
    "unat (spin_limit (config_detect g)) \<le> 31" "2 \<le> fuel"
  shows "\<exists>s' m' x. mp_recv F g fuel thread (s, m) = Done ((s', m'), Inr x) \<and>
    served j (contents cont s) m x (contents cont s') m'"
  using lawful_flavor.recv_served [OF assms] by blast

theorem multiplex_no_starvation_witness:
  "\<exists>q s m s' m' x. osp_try_push osp_new (7 :: nat) = Done (q, True) \<and> mp_pair one_spsc_flavor q q 3 = Done (s, m) \<and>
    mp_recv one_spsc_flavor backoff_globals_init 2 1 (s, m) = Done ((s', m'), Inr x) \<and>
    served 1 (contents osp_content s) m x (contents osp_content s') m'"
proof -
  have n: "osp_inv (osp_new :: nat one_sp)" "osp_content (osp_new :: nat one_sp) = []"
    using osp_repr_inv [OF osp_new_repr] by auto
  then obtain q where q: "osp_try_push osp_new (7 :: nat) = Done (q, True)" "osp_inv q" "osp_content q = [7]"
    using ospi.push_step [OF n(1), of 7] by (auto simp: has_room_def osp_capacity_def)
  from mp_pair_ok [of osp_inv q q 3 one_spsc_flavor osp_content, OF q(2,2)] q(3) obtain s m where
    s: "mp_pair one_spsc_flavor q q 3 = Done (s, m)" "cs_ok osp_inv s" "length (mp_weights m) = length (cs_chans s)" "cs_env s = []"
      "mp_last_idx m < length (cs_chans s)" "1 < length (cs_chans s)" "contents osp_content s ! 1 \<noteq> []" by auto
  from multiplex_no_starvation [OF ospf.lawful_flavor_axioms s(2-7) config_detect_spin(1) order_refl] s(1) q(1)
  show ?thesis by blast
qed

end
