(* ===== verification/Select.thy ===== *)
theory Select
  imports Many_Channels
begin

unbundle bit_operations_syntax

text \<open>
  \<^verbatim>\<open>Select\<close> of \<^verbatim>\<open>src/src/select/select.rs\<close>: waiting on several borrowed receivers at once, whatever their flavors. A handle refers to a
  channel of the system by its position and carries the operations of its flavor, as the trait object of the
  source does. A successful select yields a token, to be read at the receiver it came from.
\<close>

datatype select_mode = SelRR | SelRand | SelBias

record ('q, 'a) recv_handle =
  rh_flavor :: "('q, 'a) flavor"
  rh_shared :: nat
  rh_registered :: bool
  rh_channel :: nat

record ('q, 'a) select =
  se_handlers :: "('q, 'a) recv_handle list"
  se_waker :: nat
  se_mode :: select_mode
  se_next_index :: nat
  se_rng :: u64

section \<open>Handles\<close>

definition rh_try_select :: "bool \<Rightarrow> ('q, 'a) recv_handle \<Rightarrow> 'q chans \<Rightarrow> ('q chans \<times> select_result option) exec" where
  "rh_try_select final_check h s =
     exec_map (\<lambda>(s1, t). (s1, map_option (\<lambda>tok. \<lparr>sr_channel = rh_channel h, sr_token = tok\<rparr>) t))
       (cs_on (rh_shared h) (ch_try_select (rh_flavor h) final_check) (cs_sched s))"

definition rh_reg_waker ::
  "nat \<Rightarrow> nat \<Rightarrow> ('q, 'a) recv_handle \<Rightarrow> 'q chans \<Rightarrow> ('q chans \<times> ('q, 'a) recv_handle) exec" where
  "rh_reg_waker index sel h s =
     (if rh_registered h then Done (s, h)
      else exec_map (\<lambda>(s1, b). (s1, if b then h\<lparr>rh_registered := True\<rparr> else h))
        (cs_on (rh_shared h) (ch_reg_waker (of_nat index) sel) (cs_sched s)))"

definition rh_cancel_waker :: "nat \<Rightarrow> ('q, 'a) recv_handle \<Rightarrow> 'q chans \<Rightarrow> 'q chans exec" where
  "rh_cancel_waker sel h s = cs_do (rh_shared h) (\<lambda>s1. Done (ch_cancel_waker sel s1)) (cs_sched s)"

fun rh_cancel_all :: "nat \<Rightarrow> ('q, 'a) recv_handle list \<Rightarrow> 'q chans \<Rightarrow> 'q chans exec" where
  "rh_cancel_all sel [] s = Done s"
| "rh_cancel_all sel (h # hs) s = exec_bind (rh_cancel_waker sel h s) (rh_cancel_all sel hs)"

text \<open>A token of a select is for the receiver at this address.\<close>

definition sr_is_from :: "select_result \<Rightarrow> nat \<Rightarrow> bool" where
  "sr_is_from result rx \<longleftrightarrow> sr_channel result = rx"

section \<open>Construction\<close>

text \<open>\<^verbatim>\<open>new_with\<close>; the seed is what hashing the time and the thread gives.\<close>

definition se_new_with :: "select_mode \<Rightarrow> u64 \<Rightarrow> nat \<Rightarrow> 'q chans \<Rightarrow> 'q chans \<times> ('q, 'a) select" where
  "se_new_with mode seed sel s =
     (s\<lparr>cs_world := sel_set (cs_world s) sel sel_new\<rparr>,
      \<lparr>se_handlers = [], se_waker = sel, se_mode = mode, se_next_index = 0,
       se_rng = (case mode of SelRand \<Rightarrow> seed | _ \<Rightarrow> 0)\<rparr>)"

definition se_new :: "u64 \<Rightarrow> nat \<Rightarrow> 'q chans \<Rightarrow> 'q chans \<times> ('q, 'a) select" where
  "se_new = se_new_with SelRR"

definition se_new_random :: "u64 \<Rightarrow> nat \<Rightarrow> 'q chans \<Rightarrow> 'q chans \<times> ('q, 'a) select" where
  "se_new_random = se_new_with SelRand"

definition se_new_bias :: "u64 \<Rightarrow> nat \<Rightarrow> 'q chans \<Rightarrow> 'q chans \<times> ('q, 'a) select" where
  "se_new_bias = se_new_with SelBias"

definition se_add :: "('q, 'a) flavor \<Rightarrow> nat \<Rightarrow> nat \<Rightarrow> ('q, 'a) select \<Rightarrow> ('q, 'a) select" where
  "se_add F shared recv e =
     e\<lparr>se_handlers := se_handlers e @ [\<lparr>rh_flavor = F, rh_shared = shared, rh_registered = False, rh_channel = recv\<rparr>]\<rparr>"

fun position :: "('b \<Rightarrow> bool) \<Rightarrow> 'b list \<Rightarrow> nat option" where
  "position P [] = None"
| "position P (x # xs) = (if P x then Some 0 else map_option Suc (position P xs))"

definition se_remove :: "nat \<Rightarrow> 'q chans \<times> ('q, 'a) select \<Rightarrow> ('q chans \<times> ('q, 'a) select) exec" where
  "se_remove recv = (\<lambda>(s, e).
     case position (\<lambda>h. rh_channel h = recv) (se_handlers e) of
       None \<Rightarrow> Done (s, e)
     | Some index \<Rightarrow>
         exec_bind (rh_cancel_waker (se_waker e) (se_handlers e ! index) s) (\<lambda>s1.
           let hs = take index (se_handlers e) @ drop (Suc index) (se_handlers e);
               e1 = e\<lparr>se_handlers := hs\<rparr>
           in if hs = [] then Done (s1, e1)
              else exec_map (\<lambda>s2. (s2, e1\<lparr>se_next_index := (if length hs \<le> se_next_index e1 then 0 else se_next_index e1),
                  se_handlers := map (\<lambda>h. h\<lparr>rh_registered := False\<rparr>) hs\<rparr>))
                (rh_cancel_all (se_waker e) hs s1)))"

section \<open>Looking without waiting\<close>

fun se_scan ::
  "bool \<Rightarrow> nat \<Rightarrow> nat \<Rightarrow> 'q chans \<times> ('q, 'a) select \<Rightarrow> (('q chans \<times> ('q, 'a) select) \<times> select_result option) exec" where
  "se_scan final_check idx 0 se = Done (se, None)"
| "se_scan final_check idx (Suc k) (s, e) =
     (let i = (if length (se_handlers e) \<le> idx then 0 else idx)
      in if \<not> i < length (se_handlers e) then Fault OutOfBounds
         else exec_bind (rh_try_select final_check (se_handlers e ! i) s) (\<lambda>(s1, r).
           case r of
             Some res \<Rightarrow> Done ((s1, if se_mode e = SelRR then e\<lparr>se_next_index := i + 1\<rparr> else e), Some res)
           | None \<Rightarrow> se_scan final_check (i + 1) k (s1, e)))"

definition se_try_select_from ::
  "nat \<Rightarrow> bool \<Rightarrow> 'q chans \<times> ('q, 'a) select \<Rightarrow> (('q chans \<times> ('q, 'a) select) \<times> select_result option) exec" where
  "se_try_select_from idx final_check se = se_scan final_check idx (length (se_handlers (snd se))) se"

text \<open>The xorshift generator of the random mode.\<close>

definition xorshift :: "u64 \<Rightarrow> u64" where
  "xorshift x0 =
     (let x1 = x0 XOR push_bit 13 x0;
          x2 = x1 XOR drop_bit 7 x1
      in x2 XOR push_bit 17 x2)"

definition se_try_select_begin :: "('q, 'a) select \<Rightarrow> ('q, 'a) select \<times> nat" where
  "se_try_select_begin e =
     (case se_mode e of
        SelBias \<Rightarrow> (e, 0)
      | SelRR \<Rightarrow> (e, if length (se_handlers e) \<le> se_next_index e then 0 else se_next_index e)
      | SelRand \<Rightarrow> let x = xorshift (se_rng e) in (e\<lparr>se_rng := x\<rparr>, unat x mod length (se_handlers e)))"

definition se_try_select ::
  "'q chans \<times> ('q, 'a) select \<Rightarrow> (('q chans \<times> ('q, 'a) select) \<times> (try_recv_error + select_result)) exec" where
  "se_try_select = (\<lambda>(s, e).
     if se_handlers e \<noteq> []
     then case se_try_select_begin e of (e1, idx) \<Rightarrow>
       exec_map (\<lambda>(se, r). (se, case r of Some res \<Rightarrow> Inr res | None \<Rightarrow> Inl TREmpty))
         (se_try_select_from idx True (s, e1))
     else Done ((s, e), Inl TRDisconnected))"

section \<open>Waiting\<close>

fun se_spin ::
  "nat \<Rightarrow> nat \<Rightarrow> backoff \<Rightarrow> 'q chans \<times> ('q, 'a) select \<Rightarrow>
   (('q chans \<times> ('q, 'a) select) \<times> backoff \<times> select_result option) exec" where
  "se_spin 0 idx b se = Spin"
| "se_spin (Suc fuel) idx b se =
     exec_bind (se_try_select_from idx False se) (\<lambda>(se1, r).
       case r of
         Some res \<Rightarrow> Done (se1, b, Some res)
       | None \<Rightarrow> exec_bind (backoff_snooze b) (\<lambda>(b', _, completed).
           if completed then Done (se1, b', None) else se_spin fuel idx b' se1))"

fun se_reg_all ::
  "nat \<Rightarrow> nat \<Rightarrow> ('q, 'a) recv_handle list \<Rightarrow> 'q chans \<Rightarrow> ('q chans \<times> ('q, 'a) recv_handle list) exec" where
  "se_reg_all i sel [] s = Done (s, [])"
| "se_reg_all i sel (h # hs) s =
     exec_bind (rh_reg_waker i sel h s) (\<lambda>(s1, h').
       exec_map (\<lambda>(s2, hs'). (s2, h' # hs')) (se_reg_all (i + 1) sel hs s1))"

text \<open>\<open>Inl False\<close> is timed out; \<open>Inl True\<close>, nothing to wait for, comes before the loop.\<close>

fun se_main ::
  "nat \<Rightarrow> nat \<Rightarrow> nat option \<Rightarrow> nat \<Rightarrow> backoff \<Rightarrow> 'q chans \<times> ('q, 'a) select \<Rightarrow>
   (('q chans \<times> ('q, 'a) select) \<times> (bool + select_result)) exec" where
  "se_main 0 thread deadline idx b se = Spin"
| "se_main (Suc fuel) thread deadline idx b se =
     exec_bind (se_spin fuel idx b se) (\<lambda>((s1, e1), b1, r).
       case r of
         Some res \<Rightarrow> Done ((s1, e1), Inr res)
       | None \<Rightarrow>
           exec_bind (cs_sel (\<lambda>w. sel_init_blocking w (se_waker e1) thread) (cs_sched s1)) (\<lambda>s2.
           exec_bind (se_reg_all 0 (se_waker e1) (se_handlers e1) s2) (\<lambda>(s3, hs).
           exec_bind (se_try_select_from idx True (s3, e1\<lparr>se_handlers := hs\<rparr>)) (\<lambda>((s4, e4), r4).
             case r4 of
               Some res \<Rightarrow> Done ((s4, e4), Inr res)
             | None \<Rightarrow> exec_bind (cs_park fuel deadline (se_waker e4) W_Init s4) (\<lambda>(s5, woken).
                 if woken
                 then exec_bind (sel_get_hint (cs_world s5) (se_waker e4)) (\<lambda>hint.
                   se_main fuel thread deadline (unat hint) b1 (s5, e4))
                 else Done ((s5, e4), Inl False))))))"

definition se_select_blocking ::
  "backoff_globals \<Rightarrow> nat \<Rightarrow> nat \<Rightarrow> nat option \<Rightarrow> 'q chans \<times> ('q, 'a) select \<Rightarrow>
   (('q chans \<times> ('q, 'a) select) \<times> (bool + select_result)) exec" where
  "se_select_blocking g fuel thread deadline = (\<lambda>(s, e).
     if se_handlers e = [] then Done ((s, e), Inl True)
     else case se_try_select_begin e of (e0, idx) \<Rightarrow>
       exec_bind (se_try_select_from idx False (s, e0)) (\<lambda>(se1, r).
         case r of
           Some res \<Rightarrow> Done (se1, Inr res)
         | None \<Rightarrow> exec_bind (backoff_snooze (backoff_from (config_detect g))) (\<lambda>(b, _, _).
             se_main fuel thread deadline idx b se1)))"

definition se_select ::
  "backoff_globals \<Rightarrow> nat \<Rightarrow> nat \<Rightarrow> 'q chans \<times> ('q, 'a) select \<Rightarrow>
   (('q chans \<times> ('q, 'a) select) \<times> (recv_error + select_result)) exec" where
  "se_select g fuel thread se =
     exec_bind (se_select_blocking g fuel thread None se) (\<lambda>(se1, r).
       case r of
         Inr res \<Rightarrow> Done (se1, Inr res)
       | Inl True \<Rightarrow> Done (se1, Inl RecvError)
       | Inl False \<Rightarrow> Fault Panic)"

text \<open>Adding the timeout to the clock panics when the clock cannot represent the sum.\<close>

definition se_select_timeout ::
  "backoff_globals \<Rightarrow> nat \<Rightarrow> nat \<Rightarrow> nat \<Rightarrow> nat \<Rightarrow> 'q chans \<times> ('q, 'a) select \<Rightarrow>
   (('q chans \<times> ('q, 'a) select) \<times> (recv_timeout_error + select_result)) exec" where
  "se_select_timeout g instant_max fuel thread timeout se =
     (if cs_now (fst se) + timeout \<le> instant_max
      then exec_map (\<lambda>(se1, r). (se1, case r of
            Inr res \<Rightarrow> Inr res | Inl True \<Rightarrow> Inl RTDisconnected | Inl False \<Rightarrow> Inl RTTimeout))
          (se_select_blocking g fuel thread (Some (cs_now (fst se) + timeout)) se)
      else Fault Panic)"

text \<open>
  Dropping takes the registrations back; with them and the handle itself the last strong references to the select waker
  are gone, and it is freed with the waker it owns.
\<close>

definition holds_selector :: "nat \<Rightarrow> 'q channel \<Rightarrow> bool" where
  "holds_selector sel c =
     (case ch_recvs c of
        RegMulti m \<Rightarrow> list_ex (\<lambda>(s, _). s = sel) (m_selectors m)
      | RegSelect s _ \<Rightarrow> s = sel
      | _ \<Rightarrow> False)"

definition cs_release_selector :: "nat \<Rightarrow> 'q chans \<Rightarrow> 'q chans exec" where
  "cs_release_selector sel s =
     (if list_ex (holds_selector sel) (cs_chans s) then Done s
      else cs_sel (\<lambda>w. sel_get w sel (\<lambda>x. Done ((replace_owner w (sw_o_waker x))\<lparr>wd_sels := (wd_sels w)(sel := None)\<rparr>))) s)"

definition se_drop :: "'q chans \<times> ('q, 'a) select \<Rightarrow> 'q chans exec" where
  "se_drop = (\<lambda>(s, e). exec_bind (rh_cancel_all (se_waker e) (se_handlers e) s) (cs_release_selector (se_waker e)))"

end
