(* ===== verification/Select_Proofs.thy ===== *)
theory Select_Proofs
  imports Select Many_Safety
begin

text \<open>
  What a select chooses and what reading its token gives; that dropping it leaves no registration behind.
\<close>

section \<open>Choosing and reading\<close>

definition handles_ok :: "('q \<Rightarrow> bool) \<Rightarrow> ('q \<Rightarrow> 'a list) \<Rightarrow> 'q chans \<Rightarrow> ('q, 'a) recv_handle list \<Rightarrow> bool" where
  "handles_ok iv cont s hs \<longleftrightarrow> list_all (\<lambda>h. lawful_flavor (rh_flavor h) iv cont \<and> rh_shared h < length (cs_chans s)) hs"

text \<open>A handle is ready when its channel holds a message or, in a final check, has no sender left.\<close>

definition ready :: "('q \<Rightarrow> 'a list) \<Rightarrow> bool \<Rightarrow> 'q chans \<Rightarrow> ('q, 'a) recv_handle \<Rightarrow> bool" where
  "ready cont final_check s h \<longleftrightarrow> contents cont s ! rh_shared h \<noteq> [] \<or> final_check \<and> ch_tx_count (cs_chans s ! rh_shared h) = 0"

fun scan_order :: "nat \<Rightarrow> nat \<Rightarrow> nat \<Rightarrow> nat list" where
  "scan_order n idx 0 = []"
| "scan_order n idx (Suc k) = (let i = (if n \<le> idx then 0 else idx) in i # scan_order n (i + 1) k)"

text \<open>The state in which channel \<open>i\<close> has another queue.\<close>

definition put_inner :: "nat \<Rightarrow> 'q \<Rightarrow> 'q chans \<Rightarrow> 'q chans" where
  "put_inner i q s = s\<lparr>cs_chans := (cs_chans s)[i := (cs_chans s ! i)\<lparr>ch_inner := q\<rparr>]\<rparr>"

lemma cs_on_inner:
  "i < length (cs_chans s) \<Longrightarrow> f (ch_inner (cs_chans s ! i)) = Done (q, r) \<Longrightarrow> cs_on i (with_inner f) s = Done (put_inner i q s, r)"
  by (simp add: cs_on_def cs_one_def cs_put_def with_inner_def put_inner_def exec_push)

lemma cs_ok_put_inner: "cs_ok iv s \<Longrightarrow> i < length (cs_chans s) \<Longrightarrow> iv q \<Longrightarrow> cs_ok iv (put_inner i q s)"
  using cs_ok_put [OF _ keeps_refl, of iv s "(cs_chans s ! i)\<lparr>ch_inner := q\<rparr>" i] cs_ok_at [of iv s i]
  by (simp add: cs_ok_def ch_fine_def put_inner_def)

lemma put_inner_simps [simp]:
  "length (cs_chans (put_inner i q s)) = length (cs_chans s)" "cs_env (put_inner i q s) = cs_env s" "cs_world (put_inner i q s) = cs_world s"
  "contents cont (put_inner i q s) = (contents cont s)[i := cont q]"
  "j < length (cs_chans s) \<Longrightarrow> ch_tx_count (cs_chans (put_inner i q s) ! j) = ch_tx_count (cs_chans s ! j)"
  "j < length (cs_chans s) \<Longrightarrow> ch_recvs (cs_chans (put_inner i q s) ! j) = ch_recvs (cs_chans s ! j)"
  "i < length (cs_chans s) \<Longrightarrow> put_inner i q' (put_inner i q s) = put_inner i q' s"
  by (cases "i < length (cs_chans s)"; simp add: put_inner_def contents_def map_update nth_list_update)+

lemma length_contents [simp]: "length (contents cont s) = length (cs_chans s)"
  by (simp add: contents_def)

context lawful_flavor
begin

text \<open>The two halves of a receive: claiming, then reading.\<close>

lemma select_halves:
  assumes "inv q"
  shows "\<exists>q' t. fl_try_select F b q = Done (q', t) \<and>
    (case content q of
       [] \<Rightarrow> t = None \<and> inv q' \<and> content q' = []
     | x # xs \<Rightarrow> \<exists>tok q''. t = Some tok \<and> tok_pos tok \<noteq> None \<and> fl_read_with_token F q' tok = Done (q'', x) \<and> inv q'' \<and> content q'' = xs)"
proof -
  obtain q2 r where q: "fl_try_recv F q = Done (q2, r)" "inv q2" "spec_step (fl_capacity F q) (content q) Pop = (content q2, Popped r)"
    using pop_step [OF assms] by blast
  obtain q' t where t: "fl_try_select F b q = Done (q', t)"
    using select_read [OF assms, of b] q(1) by (cases "fl_try_select F b q") auto
  from select_read [OF assms, of b] q(1) t have
    "(case t of Some tok \<Rightarrow> if tok_pos tok = None then Fault Panic else exec_map (map_prod id Some) (fl_read_with_token F q' tok)
      | None \<Rightarrow> Done (q', None)) = Done (q2, r)" by simp
  with q t show ?thesis by (cases t) (auto simp: exec_map_def split: list.splits if_splits exec.splits)
qed

lemma read_select_exact:
  assumes "cs_ok inv s" "i < length (cs_chans s)" "cs_env s = []" "tok_pos tok \<noteq> None"
    "fl_read_with_token F q' tok = Done (q'', x)" "inv q''"
  shows "\<exists>s'. cs_on i (rx_read_select F a \<lparr>sr_channel = a, sr_token = tok\<rparr>) (put_inner i q' s) = Done (s', Inr x) \<and>
    contents content s' = (contents content s)[i := content q'']"
proof -
  let ?s = "put_inner i q'' s"
  have ok: "cs_ok inv ?s" "i < length (cs_chans ?s)" using assms(1,2,6) by (simp_all add: cs_ok_put_inner)
  obtain w g where w: "cs_do i on_recv ?s = Done (?s\<lparr>cs_world := w, cs_chans := (cs_chans ?s)[i := (cs_chans ?s ! i)\<lparr>ch_senders := g\<rparr>]\<rparr>)"
    and r: "\<exists>r. reg_fire (cs_world ?s) (ch_senders (cs_chans ?s ! i)) = Done (w, g, r)"
    using cs_on_recv [OF ok] by blast
  have "cs_on i (rx_read_select F a \<lparr>sr_channel = a, sr_token = tok\<rparr>) (put_inner i q' s) =
      Done (?s\<lparr>cs_world := w, cs_chans := (cs_chans ?s)[i := (cs_chans ?s ! i)\<lparr>ch_senders := g\<rparr>]\<rparr>, Inr x)"
    using assms(2,4,5) r by (auto simp: cs_on_def cs_one_def cs_put_def rx_read_select_def read_with_token_def with_inner_def
      put_inner_def on_recv_def with_senders_def sched_def exec_push)
  then show ?thesis using assms(2) by (simp add: contents_def put_inner_def map_update)
qed

end

text \<open>One look of a handle.\<close>

lemma handle_look:
  assumes "cs_ok iv s" "cs_env s = []" "lawful_flavor (rh_flavor h) iv cont" "rh_shared h < length (cs_chans s)"
  shows "\<exists>q' t. rh_try_select final_check h s = Done (put_inner (rh_shared h) q' s, t) \<and>
    (if ready cont final_check s h
     then \<exists>res s''. t = Some res \<and> sr_is_from res (rh_channel h) \<and>
       cs_on (rh_shared h) (rx_read_select (rh_flavor h) (rh_channel h) res) (put_inner (rh_shared h) q' s) =
         Done (s'', case contents cont s ! rh_shared h of [] \<Rightarrow> Inl RecvError | x # _ \<Rightarrow> Inr x) \<and>
       contents cont s'' = (contents cont s)[rh_shared h := tl (contents cont s ! rh_shared h)]
     else t = None \<and> iv q' \<and> cont q' = [] \<and> contents cont s ! rh_shared h = [])"
proof -
  let ?i = "rh_shared h" and ?q = "ch_inner (cs_chans s ! rh_shared h)"
  have iv: "iv ?q" using cs_ok_at [OF assms(1,4)] by (simp add: ch_fine_def)
  have ct: "contents cont s ! ?i = cont ?q" using assms(4) by (simp add: contents_def)
  obtain q' t where t: "fl_try_select (rh_flavor h) final_check ?q = Done (q', t)"
      "case cont ?q of [] \<Rightarrow> t = None \<and> iv q' \<and> cont q' = []
       | x # xs \<Rightarrow> \<exists>tok q''. t = Some tok \<and> tok_pos tok \<noteq> None \<and> fl_read_with_token (rh_flavor h) q' tok = Done (q'', x) \<and> iv q'' \<and> cont q'' = xs"
    using lawful_flavor.select_halves [OF assms(3) iv, of final_check] by blast
  let ?t = "case t of Some tok \<Rightarrow> Some tok
    | None \<Rightarrow> if final_check \<and> ch_tx_count (cs_chans s ! ?i) = 0 then Some token_default else None"
  have look: "rh_try_select final_check h s = Done (put_inner ?i q' s, map_option (\<lambda>tok. \<lparr>sr_channel = rh_channel h, sr_token = tok\<rparr>) ?t)"
    using assms(2,4) t(1) by (simp add: rh_try_select_def cs_on_def cs_one_def cs_put_def ch_try_select_def sched_def with_inner_def
      is_tx_closed_def put_inner_def exec_push Let_def split: option.splits)
  show ?thesis
  proof (cases "cont ?q")
    case Nil
    have "cs_on ?i (rx_read_select (rh_flavor h) (rh_channel h) \<lparr>sr_channel = rh_channel h, sr_token = token_default\<rparr>) (put_inner ?i q' s) =
        Done (put_inner ?i q' s, Inl RecvError)"
      using assms(4) by (simp add: cs_on_def cs_one_def cs_put_def rx_read_select_def read_with_token_def token_default_def put_inner_def)
    with Nil t(2) look ct assms(4) show ?thesis
      by (auto simp: ready_def sr_is_from_def list_update_same_conv)
  next
    case (Cons x xs)
    with t(2) obtain tok q'' where tok: "t = Some tok" "tok_pos tok \<noteq> None" "fl_read_with_token (rh_flavor h) q' tok = Done (q'', x)"
      "iv q''" "cont q'' = xs" by auto
    from lawful_flavor.read_select_exact [OF assms(3,1,4,2) tok(2-4), of "rh_channel h"] Cons tok look ct show ?thesis
      by (auto simp: ready_def sr_is_from_def)
  qed
qed

lemma ready_put_inner:
  assumes "cont q = []" "contents cont s ! i = []" "rh_shared h < length (cs_chans s)"
  shows "ready cont b (put_inner i q s) h = ready cont b s h"
  using assms by (cases "i = rh_shared h") (simp_all add: ready_def)

lemma scan_exact:
  assumes "cs_ok iv s" "cs_env s = []" "handles_ok iv cont s (se_handlers e)" "se_handlers e \<noteq> []"
  shows "\<exists>s' e' r. se_scan final_check idx k (s, e) = Done ((s', e'), r) \<and>
    (case find (\<lambda>i. ready cont final_check s (se_handlers e ! i)) (scan_order (length (se_handlers e)) idx k) of
       None \<Rightarrow> r = None \<and> e' = e \<and> contents cont s' = contents cont s
     | Some i \<Rightarrow> let h = se_handlers e ! i in
         e' = (if se_mode e = SelRR then e\<lparr>se_next_index := i + 1\<rparr> else e) \<and>
         (\<exists>res s''. r = Some res \<and> sr_is_from res (rh_channel h) \<and>
           cs_on (rh_shared h) (rx_read_select (rh_flavor h) (rh_channel h) res) s' =
             Done (s'', case contents cont s ! rh_shared h of [] \<Rightarrow> Inl RecvError | x # _ \<Rightarrow> Inr x) \<and>
           contents cont s'' = (contents cont s)[rh_shared h := tl (contents cont s ! rh_shared h)]))"
  using assms
proof (induction k arbitrary: idx s)
  case 0
  then show ?case by simp
next
  case (Suc k)
  define i where "i = (if length (se_handlers e) \<le> idx then 0 else idx)"
  have i: "i < length (se_handlers e)" using Suc.prems(4) by (auto simp: i_def)
  let ?h = "se_handlers e ! i"
  have h: "lawful_flavor (rh_flavor ?h) iv cont" "rh_shared ?h < length (cs_chans s)"
    using Suc.prems(3) i by (auto simp: handles_ok_def list_all_length)
  have step: "se_scan final_check idx (Suc k) (s, e) =
      exec_bind (rh_try_select final_check ?h s) (\<lambda>(s1, r).
        case r of
          Some res \<Rightarrow> Done ((s1, if se_mode e = SelRR then e\<lparr>se_next_index := i + 1\<rparr> else e), Some res)
        | None \<Rightarrow> se_scan final_check (i + 1) k (s1, e))"
    unfolding se_scan.simps Let_def i_def [symmetric] by (simp only: i not_True_eq_False if_False)
  have ord: "scan_order (length (se_handlers e)) idx (Suc k) = i # scan_order (length (se_handlers e)) (i + 1) k"
    by (simp add: i_def Let_def)
  obtain q' t where t: "rh_try_select final_check ?h s = Done (put_inner (rh_shared ?h) q' s, t)"
    and c: "if ready cont final_check s ?h
     then \<exists>res s''. t = Some res \<and> sr_is_from res (rh_channel ?h) \<and>
       cs_on (rh_shared ?h) (rx_read_select (rh_flavor ?h) (rh_channel ?h) res) (put_inner (rh_shared ?h) q' s) =
         Done (s'', case contents cont s ! rh_shared ?h of [] \<Rightarrow> Inl RecvError | x # _ \<Rightarrow> Inr x) \<and>
       contents cont s'' = (contents cont s)[rh_shared ?h := tl (contents cont s ! rh_shared ?h)]
     else t = None \<and> iv q' \<and> cont q' = [] \<and> contents cont s ! rh_shared ?h = []"
    using handle_look [OF Suc.prems(1,2) h] by blast
  show ?case
  proof (cases "ready cont final_check s ?h")
    case True
    then show ?thesis unfolding step ord using t c by (auto simp: Let_def)
  next
    case False
    let ?s = "put_inner (rh_shared ?h) q' s"
    from False c have n: "t = None" "iv q'" "cont q' = []" "contents cont s ! rh_shared ?h = []" by auto
    have same: "contents cont ?s = contents cont s" using n(3,4) by (simp add: list_update_same_conv h(2))
    have rd: "find (\<lambda>i. ready cont final_check ?s (se_handlers e ! i)) xs = find (\<lambda>i. ready cont final_check s (se_handlers e ! i)) xs"
      if "set xs \<subseteq> {..< length (se_handlers e)}" for xs
      using that Suc.prems(3) ready_put_inner [OF n(3,4)]
      by (intro find_cong) (auto simp: handles_ok_def list_all_length)
    have sub: "set (scan_order n j k) \<subseteq> {..< n}" if "0 < n" for n j k
      using that by (induction k arbitrary: j) (auto simp: Let_def)
    have "handles_ok iv cont ?s (se_handlers e)" using Suc.prems(3) by (simp add: handles_ok_def)
    from Suc.IH [OF cs_ok_put_inner [OF Suc.prems(1) h(2) n(2)] _ this Suc.prems(4), of "i + 1"] Suc.prems(2)
    show ?thesis unfolding step ord same rd [OF sub [OF length_greater_0_conv [THEN iffD2, OF Suc.prems(4)]]]
      using t n(1) False by simp
  qed
qed

section \<open>Properties\<close>

text \<open>
  C12. A select chooses right and its token reads right. An undisturbed \<^verbatim>\<open>try_select\<close> over receivers of any flavors looks at each of them, in a
  circle from the place its mode says, and yields a result for the first one that holds a message or has lost its last sender; it says \<^verbatim>\<open>Empty\<close> exactly when
  there is none, and no queue is changed then. Reading the result at the receiver it is from gives the oldest message of that channel and
  takes it from there and from nowhere else, or \<^verbatim>\<open>RecvError\<close> when the channel is disconnected and empty.
\<close>

theorem select_read_exact:
  assumes "cs_ok iv s" "cs_env s = []" "handles_ok iv cont s (se_handlers e)" "se_handlers e \<noteq> []"
  shows "\<exists>s' e' r. se_try_select (s, e) = Done ((s', e'), r) \<and>
    (case find (\<lambda>i. ready cont True s (se_handlers e ! i))
       (scan_order (length (se_handlers e)) (snd (se_try_select_begin e)) (length (se_handlers e))) of
       None \<Rightarrow> r = Inl TREmpty \<and> contents cont s' = contents cont s
     | Some i \<Rightarrow> \<exists>res s''. r = Inr res \<and> sr_is_from res (rh_channel (se_handlers e ! i)) \<and>
         cs_on (rh_shared (se_handlers e ! i)) (rx_read_select (rh_flavor (se_handlers e ! i)) (rh_channel (se_handlers e ! i)) res) s' =
           Done (s'', case contents cont s ! rh_shared (se_handlers e ! i) of [] \<Rightarrow> Inl RecvError | x # _ \<Rightarrow> Inr x) \<and>
         contents cont s'' = (contents cont s)[rh_shared (se_handlers e ! i) := tl (contents cont s ! rh_shared (se_handlers e ! i))])"
proof -
  obtain e1 idx where b: "se_try_select_begin e = (e1, idx)" "se_handlers e1 = se_handlers e"
    by (cases "se_mode e") (simp_all add: se_try_select_begin_def Let_def)
  from scan_exact [of iv s cont e1 True idx "length (se_handlers e)", unfolded b(2), OF assms] obtain s' e' r where
    "se_scan True idx (length (se_handlers e)) (s, e1) = Done ((s', e'), r)"
    "case find (\<lambda>i. ready cont True s (se_handlers e ! i)) (scan_order (length (se_handlers e)) idx (length (se_handlers e))) of
       None \<Rightarrow> r = None \<and> e' = e1 \<and> contents cont s' = contents cont s
     | Some i \<Rightarrow> let h = se_handlers e ! i in
         e' = (if se_mode e1 = SelRR then e1\<lparr>se_next_index := i + 1\<rparr> else e1) \<and>
         (\<exists>res s''. r = Some res \<and> sr_is_from res (rh_channel h) \<and>
           cs_on (rh_shared h) (rx_read_select (rh_flavor h) (rh_channel h) res) s' =
             Done (s'', case contents cont s ! rh_shared h of [] \<Rightarrow> Inl RecvError | x # _ \<Rightarrow> Inr x) \<and>
           contents cont s'' = (contents cont s)[rh_shared h := tl (contents cont s ! rh_shared h)])" by blast
  then show ?thesis using assms(4) b(1)
    by (cases "find (\<lambda>i. ready cont True s (se_handlers e ! i)) (scan_order (length (se_handlers e)) idx (length (se_handlers e)))")
      (auto simp: se_try_select_def se_try_select_from_def b(2) Let_def)
qed

text \<open>Two one-element channels and a biased select over both.\<close>

definition two_receivers :: "('q, 'a) flavor \<Rightarrow> 'q \<Rightarrow> 'q \<Rightarrow> 'q chans" where
  "two_receivers F q0 q1 = \<lparr>cs_world = world_init, cs_chans =
     map (\<lambda>q. channel_new F backoff_globals_init q (RegSingle weak_cell_new) (RegMulti multi_new)) [q0, q1], cs_now = 0, cs_env = []\<rparr>"

definition select_two :: "('q, 'a) flavor \<Rightarrow> 'q \<Rightarrow> 'q \<Rightarrow> 'q chans \<times> ('q, 'a) select" where
  "select_two F q0 q1 = map_prod id (\<lambda>e. se_add F 1 201 (se_add F 0 200 e)) (se_new_bias 0 5 (two_receivers F q0 q1))"

lemma select_two_ok:
  assumes "iv q0" "iv q1" "lawful_flavor F iv cont"
  shows "cs_ok iv (fst (select_two F q0 q1))" "cs_env (fst (select_two F q0 q1)) = []"
    "handles_ok iv cont (fst (select_two F q0 q1)) (se_handlers (snd (select_two F q0 q1)))"
    "contents cont (fst (select_two F q0 q1)) = [cont q0, cont q1]"
    "map rh_channel (se_handlers (snd (select_two F q0 q1))) = [200, 201]"
    "map rh_shared (se_handlers (snd (select_two F q0 q1))) = [0, 1]"
    "map rh_flavor (se_handlers (snd (select_two F q0 q1))) = [F, F]"
    "se_mode (snd (select_two F q0 q1)) = SelBias"
    "map ch_tx_count (cs_chans (fst (select_two F q0 q1))) = [1, 1]"
  using assms config_detect_spin(1) world_ok_init
  by (simp_all add: select_two_def two_receivers_def se_new_bias_def se_new_with_def se_add_def cs_ok_def world_ok_def sel_set_def
    ch_fine_def channel_new_def reg_ok_def multi_new_def handles_ok_def contents_def)

theorem select_read_exact_witness:
  "\<exists>q s' e' res s''. osp_try_push osp_new (7 :: nat) = Done (q, True) \<and>
    se_try_select (select_two one_spsc_flavor osp_new q) = Done ((s', e'), Inr res) \<and> sr_is_from res 201 \<and>
    cs_on 1 (rx_read_select one_spsc_flavor 201 res) s' = Done (s'', Inr 7) \<and> contents osp_content s'' = [[], []]"
proof -
  have n: "osp_inv (osp_new :: nat one_sp)" "osp_content (osp_new :: nat one_sp) = []"
    using osp_repr_inv [OF osp_new_repr] by auto
  then obtain q where q: "osp_try_push osp_new (7 :: nat) = Done (q, True)" "osp_inv q" "osp_content q = [7]"
    using ospi.push_step [OF n(1), of 7] by (auto simp: has_room_def osp_capacity_def)
  obtain s e where se: "select_two one_spsc_flavor osp_new q = (s, e)" by force
  note ok = select_two_ok [OF n(1) q(2) ospf.lawful_flavor_axioms, unfolded se fst_conv snd_conv]
  obtain h0 h1 where h: "se_handlers e = [h0, h1]" "rh_channel h1 = 201" "rh_shared h0 = 0" "rh_shared h1 = 1" "rh_flavor h1 = one_spsc_flavor"
    using ok(5-7) by (auto simp: map_eq_Cons_conv)
  have tx: "ch_tx_count (cs_chans s ! 0) = 1" using ok(9) by (auto simp: map_eq_Cons_conv)
  have "se_handlers e \<noteq> []" using h by simp
  from select_read_exact [OF ok(1-3) this] show ?thesis
    using h ok(4,8) n(2) q tx se by (auto simp: ready_def se_try_select_begin_def numeral_2_eq_2)
qed

end
