(* ===== verification/Select_Safety.thy ===== *)
theory Select_Safety
  imports Select_Proofs
begin

text \<open>
  A select among other threads: it never fails, its registrations are exactly the ones its handles remember, and dropping
  it leaves none behind.
\<close>

section \<open>The registrations of a select\<close>

text \<open>How many entries of a channel's registry name the select waker, and how many handles say they are registered.\<close>

fun sel_entries :: "nat \<Rightarrow> registry \<Rightarrow> nat" where
  "sel_entries sel (RegMulti m) = length (filter (\<lambda>e. fst e = sel) (m_selectors m))"
| "sel_entries sel (RegSelect s i) = (if s = sel then 1 else 0)"
| "sel_entries sel r = 0"

definition sel_count :: "nat \<Rightarrow> 'q channel \<Rightarrow> nat" where
  "sel_count sel c = sel_entries sel (ch_recvs c)"

definition reg_count :: "nat \<Rightarrow> ('q, 'a) recv_handle list \<Rightarrow> nat" where
  "reg_count i hs = length (filter (\<lambda>h. rh_shared h = i \<and> rh_registered h) hs)"

definition handle_count :: "nat \<Rightarrow> ('q, 'a) recv_handle list \<Rightarrow> nat" where
  "handle_count i hs = length (filter (\<lambda>h. rh_shared h = i) hs)"

lemma reg_count_simps [simp]:
  "reg_count i [] = 0" "reg_count i (h # hs) = (if rh_shared h = i \<and> rh_registered h then 1 else 0) + reg_count i hs"
  "reg_count i (hs @ hs') = reg_count i hs + reg_count i hs'"
  by (simp_all add: reg_count_def)

lemma handle_count_simps [simp]:
  "handle_count i [] = 0" "handle_count i (h # hs) = (if rh_shared h = i then 1 else 0) + handle_count i hs"
  "handle_count i (hs @ hs') = handle_count i hs + handle_count i hs'"
  by (simp_all add: handle_count_def)

lemma reg_le_handles: "reg_count i hs \<le> handle_count i hs"
  by (induction hs) auto

lemma sel_count_holds: "holds_selector sel c \<longleftrightarrow> 0 < sel_count sel c"
  by (cases "ch_recvs c") (auto simp: holds_selector_def sel_count_def list_ex_iff filter_empty_conv intro: bexI [rotated])

lemma remove_first_count: "length (filter (\<lambda>e. fst e = s) (remove_first s xs)) = length (filter (\<lambda>e. fst e = s) xs) - 1"
  by (induction xs) auto

lemma reg_select_entries:
  assumes "can_wait (kind_of r)" "wd_sels w sel = Some x" "sw_o_waker x = Some a" "reg_ok w r"
  shows "\<exists>g b. reg_reg_select_waker w r i sel = Done (g, b) \<and> reg_ok w g \<and> kind_of g = kind_of r \<and>
    sel_entries sel g = sel_entries sel r + (if b then 1 else 0)"
  using assms
  by (cases r) (auto simp: can_wait_def sel_clone_weak_def sel_get_def reg_ok_def multi_reg_select_waker_def Let_def)

lemma cancel_select_entries:
  assumes "kind_of r \<noteq> KSelect" "reg_ok w r"
  shows "reg_ok w (reg_cancel_select_waker r sel) \<and> kind_of (reg_cancel_select_waker r sel) = kind_of r \<and>
    sel_entries sel (reg_cancel_select_waker r sel) = sel_entries sel r - 1"
proof (cases r)
  case (RegMulti m)
  have "\<forall>e \<in> set (remove_first sel (m_selectors m)). wd_sels w (fst e) \<noteq> None"
    using assms(2) RegMulti remove_first_subset [of sel "m_selectors m"] by (auto simp: reg_ok_def)
  then show ?thesis using RegMulti remove_first_count [of sel "m_selectors m"]
    by (cases "remove_first sel (m_selectors m) = []") (simp_all add: reg_ok_def multi_cancel_select_waker_def Let_def)
qed (use assms in simp_all)

section \<open>Well-formed surroundings\<close>

text \<open>The select waker exists and is owned by this thread; the channels are sound, their queues aside.\<close>

definition sel_core :: "nat \<Rightarrow> thin_waker set \<Rightarrow> world \<Rightarrow> 'q channel list \<Rightarrow> bool" where
  "sel_core sel T w cs \<longleftrightarrow> world_ok w \<and> list_all (ch_fine (\<lambda>_. True) w) cs \<and>
     (case wd_sels w sel of None \<Rightarrow> False | Some x \<Rightarrow> owns w T (sw_o_waker x))"

definition inners :: "('q \<Rightarrow> bool) \<Rightarrow> 'q channel list \<Rightarrow> bool" where
  "inners iv cs = list_all (\<lambda>c. iv (ch_inner c)) cs"

definition sel_owner :: "nat \<Rightarrow> world \<Rightarrow> nat option" where
  "sel_owner sel w = (case wd_sels w sel of None \<Rightarrow> None | Some x \<Rightarrow> sw_o_waker x)"

definition sel_view :: "nat \<Rightarrow> 'q channel list \<Rightarrow> (reg_kind \<times> nat) list" where
  "sel_view sel cs = map (\<lambda>c. (kind_of (ch_recvs c), sel_count sel c)) cs"

text \<open>The other threads keep that so, and do not touch what belongs to this select.\<close>

definition sel_polite :: "('q \<Rightarrow> bool) \<Rightarrow> nat \<Rightarrow> thin_waker set \<Rightarrow> ('q chans_state \<Rightarrow> 'q chans_state) \<Rightarrow> bool" where
  "sel_polite iv sel T f \<longleftrightarrow> (\<forall>w cs t. sel_core sel T w cs \<longrightarrow>
     (case f (w, cs, t) of (w', cs', t') \<Rightarrow>
        sel_core sel T w' cs' \<and> sel_view sel cs' = sel_view sel cs \<and> sel_owner sel w' = sel_owner sel w \<and>
        (inners iv cs \<longrightarrow> inners iv cs')))"

definition around :: "('q \<Rightarrow> bool) \<Rightarrow> nat \<Rightarrow> thin_waker set \<Rightarrow> (reg_kind \<times> nat) list \<Rightarrow> nat option \<Rightarrow> 'q chans \<Rightarrow> bool" where
  "around iv sel T v own s \<longleftrightarrow> sel_core sel T (cs_world s) (cs_chans s) \<and> sel_view sel (cs_chans s) = v \<and>
     sel_owner sel (cs_world s) = own \<and> list_all (sel_polite iv sel T) (cs_env s)"

lemma around_sched:
  assumes "around iv sel T v own s"
  shows "around iv sel T v own (cs_sched s) \<and> (inners iv (cs_chans s) \<longrightarrow> inners iv (cs_chans (cs_sched s)))"
proof (cases "cs_env s")
  case (Cons f fs)
  then have f: "sel_polite iv sel T f" "list_all (sel_polite iv sel T) fs" using assms by (simp_all add: around_def)
  obtain w cs t where st: "f (cs_world s, cs_chans s, cs_now s) = (w, cs, t)" by (cases "f (cs_world s, cs_chans s, cs_now s)")
  have "sel_core sel T (cs_world s) (cs_chans s)" using assms by (simp add: around_def)
  from f(1) [unfolded sel_polite_def, rule_format, OF this, of "cs_now s"] st
  have "sel_core sel T w cs \<and> sel_view sel cs = sel_view sel (cs_chans s) \<and> sel_owner sel w = sel_owner sel (cs_world s) \<and>
      (inners iv (cs_chans s) \<longrightarrow> inners iv cs)" by simp
  with assms Cons st f(2) show ?thesis by (simp add: around_def cs_sched_def)
qed (simp_all add: assms)

lemma around_length: "around iv sel T v own s \<Longrightarrow> length (cs_chans s) = length v"
  by (auto simp: around_def sel_view_def)

lemma around_at:
  assumes "around iv sel T v own s" "i < length v"
  shows "i < length (cs_chans s)" "kind_of (ch_recvs (cs_chans s ! i)) = fst (v ! i)" "sel_count sel (cs_chans s ! i) = snd (v ! i)"
    "ch_fine (\<lambda>_. True) (cs_world s) (cs_chans s ! i)"
  using assms by (auto simp: around_def sel_view_def sel_core_def list_all_length)

text \<open>A change of one channel that respects the world.\<close>

lemma around_put:
  assumes a: "around iv sel T v own s" and i: "i < length v"
    and c: "ch_fine (\<lambda>_. True) (cs_world s) c" "kind_of (ch_recvs c) = k" "sel_count sel c = n"
  shows "around iv sel T (v[i := (k, n)]) own (s\<lparr>cs_chans := (cs_chans s)[i := c]\<rparr>)"
  using a c by (auto simp: around_def sel_core_def sel_view_def map_update list_all_update_at)

lemma inners_put: "inners iv cs \<Longrightarrow> iv (ch_inner c) \<Longrightarrow> inners iv (cs[i := c])"
  by (simp add: inners_def list_all_update_at)

section \<open>The calls of a handle\<close>

text \<open>Looking: an unsuccessful look keeps every queue sound.\<close>

lemma look_around:
  assumes a: "around iv sel T v own s" "inners iv (cs_chans s)" and h: "lawful_flavor (rh_flavor h) iv cont" "rh_shared h < length v"
  shows "safe (rh_try_select final_check h s) (\<lambda>(s', r). around iv sel T v own s' \<and> (r = None \<longrightarrow> inners iv (cs_chans s')))"
proof -
  let ?s = "cs_sched s" and ?i = "rh_shared h"
  have a': "around iv sel T v own ?s" "inners iv (cs_chans ?s)" using around_sched [OF a(1)] a(2) by auto
  note at = around_at [OF a'(1) h(2)]
  let ?c = "cs_chans ?s ! ?i"
  have iv: "iv (ch_inner ?c)" using a'(2) at(1) by (simp add: inners_def list_all_length)
  obtain q' t where t: "fl_try_select (rh_flavor h) final_check (ch_inner ?c) = Done (q', t)" "t = None \<longrightarrow> iv q'"
    using lawful_flavor.select_halves [OF h(1) iv, of final_check] by (cases "cont (ch_inner ?c)") auto
  let ?s' = "?s\<lparr>cs_chans := (cs_chans ?s)[?i := ?c\<lparr>ch_inner := q'\<rparr>]\<rparr>"
  have look: "\<exists>r. rh_try_select final_check h s = Done (?s', r) \<and> (r = None \<longrightarrow> t = None)"
    using at(1) t(1) by (cases t) (auto simp: rh_try_select_def cs_on_def cs_one_def cs_put_def ch_try_select_def sched_def with_inner_def
      exec_push Let_def)
  have "ch_fine (\<lambda>_. True) (cs_world ?s) (?c\<lparr>ch_inner := q'\<rparr>)" using at(4) by (simp add: ch_fine_def)
  from around_put [OF a'(1) h(2) this, of "fst (v ! ?i)" "snd (v ! ?i)"] at(2,3) have "around iv sel T v own ?s'"
    by (simp add: sel_count_def)
  with look t(2) inners_put [OF a'(2), of "?c\<lparr>ch_inner := q'\<rparr>" ?i] show ?thesis by auto
qed

text \<open>Registering once the select waker has its waker.\<close>

lemma reg_around:
  assumes a: "around iv sel T v (Some b) s" "inners iv (cs_chans s)" and h: "rh_shared h < length v" "can_wait (fst (v ! rh_shared h))"
    "rh_registered h = False"
  shows "safe (rh_reg_waker index sel h s) (\<lambda>(s', h').
    around iv sel T (v[rh_shared h := (fst (v ! rh_shared h), snd (v ! rh_shared h) + (if rh_registered h' then 1 else 0))]) (Some b) s' \<and>
    inners iv (cs_chans s') \<and> rh_shared h' = rh_shared h \<and> rh_flavor h' = rh_flavor h)"
proof -
  let ?s = "cs_sched s" and ?i = "rh_shared h"
  have a': "around iv sel T v (Some b) ?s" "inners iv (cs_chans ?s)" using around_sched [OF a(1)] a(2) by auto
  note at = around_at [OF a'(1) h(1)]
  let ?c = "cs_chans ?s ! ?i"
  have iv: "iv (ch_inner ?c)" using a'(2) at(1) by (simp add: inners_def list_all_length)
  obtain x where x: "wd_sels (cs_world ?s) sel = Some x" "sw_o_waker x = Some b"
    using a'(1) by (auto simp: around_def sel_owner_def split: option.splits)
  have "can_wait (kind_of (ch_recvs ?c))" "reg_ok (cs_world ?s) (ch_recvs ?c)" using h(2) at by (simp_all add: ch_fine_def)
  from reg_select_entries [OF this(1) x this(2), of "of_nat index"]
  obtain g r where g: "reg_reg_select_waker (cs_world ?s) (ch_recvs ?c) (of_nat index) sel = Done (g, r)" "reg_ok (cs_world ?s) g"
      "kind_of g = fst (v ! ?i)" "sel_count sel (?c\<lparr>ch_recvs := g\<rparr>) = snd (v ! ?i) + (if r then 1 else 0)" using at(2,3) by (auto simp: sel_count_def)
  let ?s' = "?s\<lparr>cs_chans := (cs_chans ?s)[?i := ?c\<lparr>ch_recvs := g\<rparr>]\<rparr>"
  have reg: "rh_reg_waker index sel h s = Done (?s', if r then h\<lparr>rh_registered := True\<rparr> else h)"
    using at(1) g(1) h(3) by (simp add: rh_reg_waker_def cs_on_def cs_one_def cs_put_def ch_reg_waker_def with_recvs_def exec_push)
  have "ch_fine (\<lambda>_. True) (cs_world ?s) (?c\<lparr>ch_recvs := g\<rparr>)" using at(4) g(2) by (simp add: ch_fine_def)
  from around_put [OF a'(1) h(1) this] g(3,4) inners_put [OF a'(2), of "?c\<lparr>ch_recvs := g\<rparr>" ?i] iv
  show ?thesis unfolding reg using h(3) by auto
qed

text \<open>Cancelling takes one entry away, if there is one.\<close>

lemma cancel_around:
  assumes a: "around iv sel T v own s" and h: "rh_shared h < length v" "fst (v ! rh_shared h) \<noteq> KSelect"
  shows "\<exists>s'. rh_cancel_waker sel h s = Done s' \<and>
    around iv sel T (v[rh_shared h := (fst (v ! rh_shared h), snd (v ! rh_shared h) - 1)]) own s' \<and>
    (inners iv (cs_chans s) \<longrightarrow> inners iv (cs_chans s'))"
proof -
  let ?s = "cs_sched s" and ?i = "rh_shared h"
  have a': "around iv sel T v own ?s" "inners iv (cs_chans s) \<longrightarrow> inners iv (cs_chans ?s)" using around_sched [OF a(1)] by auto
  note at = around_at [OF a'(1) h(1)]
  let ?c = "cs_chans ?s ! ?i"
  let ?g = "reg_cancel_select_waker (ch_recvs ?c) sel"
  have g: "reg_ok (cs_world ?s) ?g" "kind_of ?g = fst (v ! ?i)" "sel_count sel (?c\<lparr>ch_recvs := ?g\<rparr>) = snd (v ! ?i) - 1"
    using cancel_select_entries [of "ch_recvs ?c" "cs_world ?s" sel] at h(2) by (simp_all add: sel_count_def ch_fine_def)
  let ?s' = "?s\<lparr>cs_chans := (cs_chans ?s)[?i := ?c\<lparr>ch_recvs := ?g\<rparr>]\<rparr>"
  have can: "rh_cancel_waker sel h s = Done ?s'"
    using at(1) by (simp add: rh_cancel_waker_def cs_do_def cs_on_def cs_one_def cs_put_def ch_cancel_waker_def exec_push)
  have "ch_fine (\<lambda>_. True) (cs_world ?s) (?c\<lparr>ch_recvs := ?g\<rparr>)" using at(4) g(1) by (simp add: ch_fine_def)
  moreover have "inners iv (cs_chans ?s) \<longrightarrow> iv (ch_inner ?c)" using at(1) by (simp add: inners_def list_all_length)
  ultimately show ?thesis unfolding can
    using around_put [OF a'(1) h(1), of "?c\<lparr>ch_recvs := ?g\<rparr>"] g(2,3) inners_put [of iv _ "?c\<lparr>ch_recvs := ?g\<rparr>" ?i] a'(2) by auto
qed

section \<open>Waiting\<close>

definition hs_ok :: "('q \<Rightarrow> bool) \<Rightarrow> ('q \<Rightarrow> 'a list) \<Rightarrow> (reg_kind \<times> nat) list \<Rightarrow> ('q, 'a) recv_handle list \<Rightarrow> bool" where
  "hs_ok iv cont v hs \<longleftrightarrow> list_all (\<lambda>h. lawful_flavor (rh_flavor h) iv cont \<and> rh_shared h < length v \<and> can_wait (fst (v ! rh_shared h))) hs"

lemma hs_okD:
  assumes "hs_ok iv cont v hs" "i < length hs"
  shows "lawful_flavor (rh_flavor (hs ! i)) iv cont" "rh_shared (hs ! i) < length v" "can_wait (fst (v ! rh_shared (hs ! i)))"
  using assms by (auto simp: hs_ok_def list_all_length)

lemma hs_ok_kinds: "hs_ok iv cont v hs \<Longrightarrow> map fst v' = map fst v \<Longrightarrow> hs_ok iv cont v' hs"
  unfolding hs_ok_def list_all_iff by (metis length_map nth_map)

lemma scan_around:
  assumes "around iv sel T v own s" "inners iv (cs_chans s)" "hs_ok iv cont v (se_handlers e)" "se_handlers e \<noteq> []"
  shows "safe (se_scan final_check idx k (s, e)) (\<lambda>((s', e'), r). around iv sel T v own s' \<and>
    (r = None \<longrightarrow> inners iv (cs_chans s')) \<and> se_handlers e' = se_handlers e \<and> se_waker e' = se_waker e)"
  using assms
proof (induction k arbitrary: idx s)
  case (Suc k)
  define i where "i = (if length (se_handlers e) \<le> idx then 0 else idx)"
  have i: "i < length (se_handlers e)" using Suc.prems(4) by (auto simp: i_def)
  have "safe (exec_bind (rh_try_select final_check (se_handlers e ! i) s) (\<lambda>(s1, r).
        case r of
          Some res \<Rightarrow> Done ((s1, if se_mode e = SelRR then e\<lparr>se_next_index := i + 1\<rparr> else e), Some res)
        | None \<Rightarrow> se_scan final_check (i + 1) k (s1, e)))
     (\<lambda>((s', e'), r). around iv sel T v own s' \<and>
      (r = None \<longrightarrow> inners iv (cs_chans s')) \<and> se_handlers e' = se_handlers e \<and> se_waker e' = se_waker e)"
    using Suc.IH [OF _ _ Suc.prems(3,4)]
    by (intro safe_bind [OF look_around [OF Suc.prems(1,2) hs_okD(1,2) [OF Suc.prems(3) i]]]) (auto split: option.splits)
  then show ?case unfolding se_scan.simps Let_def i_def [symmetric] by (simp only: i not_True_eq_False if_False)
qed simp

lemma around_world:
  assumes "around iv sel T v own s" "keeps_others T (cs_world s) w" "wd_sels w sel = Some x" "owns w T (sw_o_waker x)"
  shows "around iv sel T v (sw_o_waker x) (s\<lparr>cs_world := w\<rparr>)"
proof -
  have "list_all (ch_fine (\<lambda>_. True) w) (cs_chans s)"
    using assms(1) keeps_others_reg_ok [OF assms(2)] by (auto simp: around_def sel_core_def list_all_iff ch_fine_def)
  with assms keeps_others_ok [OF assms(2)] show ?thesis by (simp add: around_def sel_core_def sel_owner_def)
qed

lemma init_around:
  assumes a: "around iv sel T v own s" and T: "Blocking thread \<in> T"
  shows "safe (cs_sel (\<lambda>w. sel_init_blocking w sel thread) s) (\<lambda>s'. (\<exists>b. around iv sel T v (Some b) s') \<and> cs_chans s' = cs_chans s)"
proof -
  let ?w = "cs_world s"
  obtain x where x: "wd_sels ?w sel = Some x" "owns ?w T (sw_o_waker x)" and ok: "world_ok ?w"
    using a by (auto simp: around_def sel_core_def split: option.splits)
  show ?thesis
  proof (cases "sw_o_waker x")
    case None
    obtain w1 b where n: "alloc_waker ?w (Blocking thread) = (w1, b)" by force
    note A = alloc_own [OF ok n T]
    let ?x = "x\<lparr>sw_o_waker := Some b, sw_cell := weak_cell_replace (sw_cell x) b, sw_hint := 0\<rparr>"
    have k: "keeps_others T ?w (sel_set w1 sel ?x)" "owns (sel_set w1 sel ?x) T (Some b)"
      using A x(1) by (auto simp: keeps_others_def sel_set_def world_ok_def owns_def)
    from around_world [OF a k(1), of ?x] k(2) show ?thesis
      using x None n by (auto simp: cs_sel_def sel_init_blocking_def sel_get_def new_blocking_def sel_set_def)
  next
    case (Some b)
    then obtain y where y: "upgrade ?w b = Some y" using x(2) owns_alive by metis
    let ?x = "x\<lparr>sw_cell := weak_cell_replace (sw_cell x) b, sw_hint := 0\<rparr>" and ?w1 = "set_waker ?w b (w_reset_init y)"
    have k1: "keeps_wakers ?w ?w1" using ok y by (intro keeps_set_waker) (auto simp: w_reset_init_def w_live_def)
    have k: "keeps_wakers ?w (sel_set ?w1 sel ?x)"
      using keeps_trans [OF k1 keeps_sel_set [OF keeps_ok [OF k1]]] x(1) by (simp add: set_waker_def)
    from around_world [OF a keeps_keeps_others [OF k], of ?x] keeps_owns [OF k x(2)] show ?thesis
      using x Some y by (auto simp: cs_sel_def sel_init_blocking_def sel_get_def sel_set_def)
  qed
qed

lemma waker_state_around:
  assumes "around iv sel T v (Some b) s"
  shows "\<exists>st. sel_get_waker_state (cs_world s) sel = Done st" "\<exists>hint. sel_get_hint (cs_world s) sel = Done hint"
proof -
  obtain x where x: "wd_sels (cs_world s) sel = Some x" "owns (cs_world s) T (Some b)" "sw_o_waker x = Some b"
    using assms by (auto simp: around_def sel_core_def sel_owner_def split: option.splits)
  with owns_alive [OF x(2)] show "\<exists>st. sel_get_waker_state (cs_world s) sel = Done st" "\<exists>hint. sel_get_hint (cs_world s) sel = Done hint"
    by (auto simp: sel_get_waker_state_def sel_get_hint_def sel_get_def)
qed

lemma park_around:
  assumes "around iv sel T v (Some b) s" "inners iv (cs_chans s)"
  shows "safe (cs_park fuel deadline sel state s) (\<lambda>(s', woken). around iv sel T v (Some b) s' \<and> inners iv (cs_chans s') \<and>
    (deadline = None \<longrightarrow> woken))"
  using assms
proof (induction fuel arbitrary: state s)
  case (Suc fuel)
  have a: "around iv sel T v (Some b) (cs_sched s)" "inners iv (cs_chans (cs_sched s))"
    using around_sched [OF Suc.prems(1)] Suc.prems(2) by auto
  from waker_state_around(1) [OF a(1)] Suc.IH [OF a] Suc.prems show ?case
    by (auto simp: Let_def cs_check_timeout_def split: sum.splits option.splits if_splits)
qed simp

text \<open>Every handle that says it is registered accounts for one entry, and there are no others.\<close>

definition regs_exact :: "(reg_kind \<times> nat) list \<Rightarrow> ('q, 'a) recv_handle list \<Rightarrow> bool" where
  "regs_exact v hs \<longleftrightarrow> (\<forall>i < length v. snd (v ! i) = reg_count i hs)"

lemma reg_step:
  assumes a: "around iv sel T v (Some b) s" "inners iv (cs_chans s)" and h: "hs_ok iv cont v [h]" and x: "regs_exact v (pre @ h # hs)"
  shows "safe (rh_reg_waker index sel h s) (\<lambda>(s', h'). \<exists>v'. around iv sel T v' (Some b) s' \<and> inners iv (cs_chans s') \<and>
    map fst v' = map fst v \<and> regs_exact v' (pre @ h' # hs) \<and> rh_shared h' = rh_shared h \<and> rh_flavor h' = rh_flavor h)"
proof (cases "rh_registered h")
  case True
  then show ?thesis using a x by (auto simp: rh_reg_waker_def)
next
  case False
  have i: "rh_shared h < length v" "can_wait (fst (v ! rh_shared h))" using h by (auto simp: hs_ok_def)
  have fst: "map fst (v[j := (fst (v ! j), n)]) = map fst v" for j n 
    by (cases "j < length v") (simp_all add: map_update list_update_same_conv list_update_beyond)
  show ?thesis using x False
    by (intro safe_mono [OF reg_around [OF a i(1,2), of index]])
      (auto simp: regs_exact_def nth_list_update fst intro!: exI)
qed

lemma reg_all_around:
  assumes "around iv sel T v (Some b) s" "inners iv (cs_chans s)" "hs_ok iv cont v hs" "regs_exact v (pre @ hs)"
  shows "safe (se_reg_all i sel hs s) (\<lambda>(s', hs'). \<exists>v'. around iv sel T v' (Some b) s' \<and> inners iv (cs_chans s') \<and>
    map fst v' = map fst v \<and> regs_exact v' (pre @ hs') \<and> map rh_shared hs' = map rh_shared hs \<and> map rh_flavor hs' = map rh_flavor hs)"
  using assms
proof (induction hs arbitrary: i v s pre)
  case Nil
  then show ?case by auto
next
  case (Cons h hs)
  have h: "hs_ok iv cont v [h]" "hs_ok iv cont v hs" using Cons.prems(3) by (simp_all add: hs_ok_def)
  show ?case unfolding se_reg_all.simps
  proof (rule safe_bind [OF reg_step [OF Cons.prems(1,2) h(1) Cons.prems(4), of i]], clarify)
    fix s1 h' v1
    assume that: "around iv sel T v1 (Some b) s1" "inners iv (cs_chans s1)" "map fst v1 = map fst v" "regs_exact v1 (pre @ h' # hs)"
      "rh_shared h' = rh_shared h" "rh_flavor h' = rh_flavor h"
    from that(4) have "regs_exact v1 ((pre @ [h']) @ hs)" by simp
    from Cons.IH [OF that(1,2) hs_ok_kinds [OF h(2) that(3)] this, of "i + 1"] that(3,5,6)
    show "safe (exec_map (\<lambda>(s2, hs'). (s2, h' # hs')) (se_reg_all (i + 1) sel hs s1)) (\<lambda>(s', hs'). \<exists>v'. around iv sel T v' (Some b) s' \<and>
      inners iv (cs_chans s') \<and> map fst v' = map fst v \<and> regs_exact v' (pre @ hs') \<and>
      map rh_shared hs' = map rh_shared (h # hs) \<and> map rh_flavor hs' = map rh_flavor (h # hs))"
      unfolding safe_map by (elim safe_mono) auto
  qed
qed

text \<open>The invariant of a select in its surroundings.\<close>

definition select_ok :: "('q \<Rightarrow> bool) \<Rightarrow> ('q \<Rightarrow> 'a list) \<Rightarrow> thin_waker set \<Rightarrow> 'q chans \<Rightarrow> ('q, 'a) select \<Rightarrow> bool" where
  "select_ok iv cont T s e \<longleftrightarrow> (\<exists>v own. around iv (se_waker e) T v own s \<and> hs_ok iv cont v (se_handlers e) \<and> regs_exact v (se_handlers e))"

lemma select_okI:
  "around iv (se_waker e) T v own s \<Longrightarrow> hs_ok iv cont v (se_handlers e) \<Longrightarrow> regs_exact v (se_handlers e) \<Longrightarrow> select_ok iv cont T s e"
  unfolding select_ok_def by blast

lemma select_ok_cong: "se_handlers e' = se_handlers e \<Longrightarrow> se_waker e' = se_waker e \<Longrightarrow> select_ok iv cont T s e' = select_ok iv cont T s e"
  by (simp add: select_ok_def)

lemma try_from_ok:
  assumes "select_ok iv cont T s e" "inners iv (cs_chans s)" "se_handlers e \<noteq> []"
  shows "safe (se_try_select_from idx final_check (s, e)) (\<lambda>((s', e'), r). select_ok iv cont T s' e' \<and>
    (r = None \<longrightarrow> inners iv (cs_chans s')) \<and> se_handlers e' = se_handlers e \<and> se_waker e' = se_waker e)"
proof -
  obtain v own where v: "around iv (se_waker e) T v own s" "hs_ok iv cont v (se_handlers e)" "regs_exact v (se_handlers e)"
    using assms(1) unfolding select_ok_def by blast
  show ?thesis unfolding se_try_select_from_def
    by (rule safe_mono [OF scan_around [OF v(1) assms(2) v(2) assms(3)]]) (use v(2,3) in \<open>auto intro!: select_okI\<close>)
qed

lemma spin_ok:
  assumes "select_ok iv cont T s e" "inners iv (cs_chans s)" "se_handlers e \<noteq> []" "unat (spin_limit (config b)) \<le> 31"
  shows "safe (se_spin fuel idx b (s, e)) (\<lambda>((s', e'), b', r). select_ok iv cont T s' e' \<and> (r = None \<longrightarrow> inners iv (cs_chans s')) \<and>
    se_handlers e' = se_handlers e \<and> se_waker e' = se_waker e \<and> unat (spin_limit (config b')) \<le> 31)"
  using assms
proof (induction fuel arbitrary: s e b)
  case (Suc fuel)
  show ?case unfolding se_spin.simps
  proof (rule safe_bind [OF try_from_ok [OF Suc.prems(1-3)]], clarify)
    fix s' e' and r :: "select_result option"
    assume k: "select_ok iv cont T s' e'" "r = None \<longrightarrow> inners iv (cs_chans s')" "se_handlers e' = se_handlers e" "se_waker e' = se_waker e"
    show "safe (case r of Some res \<Rightarrow> Done ((s', e'), b, Some res)
      | None \<Rightarrow> exec_bind (backoff_snooze b) (\<lambda>(b', _, completed).
          if completed then Done ((s', e'), b', None) else se_spin fuel idx b' (s', e')))
      (\<lambda>((s', e'), b', r). select_ok iv cont T s' e' \<and> (r = None \<longrightarrow> inners iv (cs_chans s')) \<and>
        se_handlers e' = se_handlers e \<and> se_waker e' = se_waker e \<and> unat (spin_limit (config b')) \<le> 31)"
    proof (cases r)
      case None
      then show ?thesis using k Suc.IH [of s' e'] Suc.prems(3)
        by (auto intro!: safe_bind [OF snooze_safe [OF Suc.prems(4)]])
    qed (use k Suc.prems(4) in simp)
  qed
qed simp

text \<open>What a waiting round gives: the invariant, and sound queues unless a token was claimed.\<close>

definition waited :: "('q \<Rightarrow> bool) \<Rightarrow> ('q \<Rightarrow> 'a list) \<Rightarrow> thin_waker set \<Rightarrow> nat option \<Rightarrow> ('q chans \<times> ('q, 'a) select) \<times> (bool + select_result) \<Rightarrow> bool" where
  "waited iv cont T deadline = (\<lambda>((s, e), r). select_ok iv cont T s e \<and>
     (case r of Inr res \<Rightarrow> True | Inl b \<Rightarrow> inners iv (cs_chans s) \<and> (b \<or> deadline \<noteq> None)))"

lemma hs_ok_maps:
  assumes "hs_ok iv cont v hs" "map rh_shared hs' = map rh_shared hs" "map rh_flavor hs' = map rh_flavor hs"
  shows "hs_ok iv cont v hs'"
proof -
  have l: "length hs' = length hs" using assms(2) by (metis length_map)
  have "rh_shared (hs' ! i) = rh_shared (hs ! i)" "rh_flavor (hs' ! i) = rh_flavor (hs ! i)" if "i < length hs" for i
    using that l assms(2,3) by (metis nth_map)+
  with assms(1) l show ?thesis by (simp add: hs_ok_def list_all_length)
qed

text \<open>Arming the waker, registering everywhere, and the last look.\<close>

lemma arm_ok:
  assumes "select_ok iv cont T s e" "inners iv (cs_chans s)" "Blocking thread \<in> T" "se_handlers e \<noteq> []"
  shows "safe (exec_bind (cs_sel (\<lambda>w. sel_init_blocking w (se_waker e) thread) (cs_sched s)) (\<lambda>s2.
       exec_bind (se_reg_all 0 (se_waker e) (se_handlers e) s2) (\<lambda>(s3, hs).
       se_try_select_from idx True (s3, e\<lparr>se_handlers := hs\<rparr>))))
     (\<lambda>((s', e'), r). (\<exists>v b. around iv (se_waker e') T v (Some b) s' \<and> hs_ok iv cont v (se_handlers e') \<and> regs_exact v (se_handlers e')) \<and>
       (r = None \<longrightarrow> inners iv (cs_chans s')) \<and> se_handlers e' \<noteq> [] \<and> se_waker e' = se_waker e)"
proof -
  obtain v own where v: "around iv (se_waker e) T v own s" "hs_ok iv cont v (se_handlers e)" "regs_exact v (se_handlers e)"
    using assms(1) unfolding select_ok_def by blast
  have a: "around iv (se_waker e) T v own (cs_sched s)" "inners iv (cs_chans (cs_sched s))"
    using around_sched [OF v(1)] assms(2) by auto
  show ?thesis
  proof (rule safe_bind [OF init_around [OF a(1) assms(3)]], clarify)
    fix s2 b
    assume s2: "cs_chans s2 = cs_chans (cs_sched s)" "around iv (se_waker e) T v (Some b) s2"
    have i2: "inners iv (cs_chans s2)" using s2(1) a(2) by simp
    have x: "regs_exact v ([] @ se_handlers e)" using v(3) by simp
    show "safe (exec_bind (se_reg_all 0 (se_waker e) (se_handlers e) s2) (\<lambda>(s3, hs).
       se_try_select_from idx True (s3, e\<lparr>se_handlers := hs\<rparr>)))
     (\<lambda>((s', e'), r). (\<exists>v b. around iv (se_waker e') T v (Some b) s' \<and> hs_ok iv cont v (se_handlers e') \<and> regs_exact v (se_handlers e')) \<and>
       (r = None \<longrightarrow> inners iv (cs_chans s')) \<and> se_handlers e' \<noteq> [] \<and> se_waker e' = se_waker e)"
    proof (rule safe_bind [OF reg_all_around [OF s2(2) i2 v(2) x]], clarify)
      fix s3 v' and hs :: "('a, 'b) recv_handle list"
      assume k: "around iv (se_waker e) T v' (Some b) s3" "inners iv (cs_chans s3)" "map fst v' = map fst v" "regs_exact v' ([] @ hs)"
        "map rh_shared hs = map rh_shared (se_handlers e)" "map rh_flavor hs = map rh_flavor (se_handlers e)"
      let ?e = "e\<lparr>se_handlers := hs\<rparr>"
      have h: "hs_ok iv cont v' (se_handlers ?e)" using hs_ok_maps [OF hs_ok_kinds [OF v(2) k(3)] k(5,6)] by simp
      have ne: "se_handlers ?e \<noteq> []" using k(5) assms(4) by auto
      have "safe (se_try_select_from idx True (s3, ?e)) (\<lambda>((s', e'), r). around iv (se_waker e) T v' (Some b) s' \<and>
          (r = None \<longrightarrow> inners iv (cs_chans s')) \<and> se_handlers e' = se_handlers ?e \<and> se_waker e' = se_waker ?e)"
        unfolding se_try_select_from_def by (rule scan_around [OF k(1,2) h ne])
      then show "safe (se_try_select_from idx True (s3, ?e))
        (\<lambda>((s', e'), r). (\<exists>v b. around iv (se_waker e') T v (Some b) s' \<and> hs_ok iv cont v (se_handlers e') \<and> regs_exact v (se_handlers e')) \<and>
          (r = None \<longrightarrow> inners iv (cs_chans s')) \<and> se_handlers e' \<noteq> [] \<and> se_waker e' = se_waker e)"
        using h k(4) ne by (elim safe_mono) fastforce
    qed
  qed
qed

definition se_arm :: "nat \<Rightarrow> nat \<Rightarrow> 'q chans \<Rightarrow> ('q, 'a) select \<Rightarrow> (('q chans \<times> ('q, 'a) select) \<times> select_result option) exec" where
  "se_arm thread idx s e = exec_bind (cs_sel (\<lambda>w. sel_init_blocking w (se_waker e) thread) (cs_sched s)) (\<lambda>s2.
     exec_bind (se_reg_all 0 (se_waker e) (se_handlers e) s2) (\<lambda>(s3, hs).
     se_try_select_from idx True (s3, e\<lparr>se_handlers := hs\<rparr>)))"

lemma bind_arm:
  "exec_bind (se_arm thread idx s e) f =
   exec_bind (cs_sel (\<lambda>w. sel_init_blocking w (se_waker e) thread) (cs_sched s)) (\<lambda>s2.
     exec_bind (se_reg_all 0 (se_waker e) (se_handlers e) s2) (\<lambda>(s3, hs).
     exec_bind (se_try_select_from idx True (s3, e\<lparr>se_handlers := hs\<rparr>)) f))"
  by (simp only: se_arm_def exec_bind_assoc case_prod_unfold)

lemma main_ok:
  assumes "select_ok iv cont T s e" "inners iv (cs_chans s)" "Blocking thread \<in> T" "se_handlers e \<noteq> []" "unat (spin_limit (config b)) \<le> 31"
  shows "safe (se_main fuel thread deadline idx b (s, e)) (waited iv cont T deadline)"
  using assms
proof (induction fuel arbitrary: s e b idx)
  case (Suc fuel)
  show ?case unfolding se_main.simps bind_arm [symmetric]
  proof (rule safe_bind [OF spin_ok [OF Suc.prems(1,2,4,5)]], clarify)
    fix s1 e1 and b1 :: backoff and r :: "select_result option"
    assume k: "select_ok iv cont T s1 e1" "r = None \<longrightarrow> inners iv (cs_chans s1)" "se_handlers e1 = se_handlers e" "se_waker e1 = se_waker e"
      "unat (spin_limit (config b1)) \<le> 31"
    have ne: "se_handlers e1 \<noteq> []" using k(3) Suc.prems(4) by simp
    have park: "safe (case r4 of Some res \<Rightarrow> Done ((s4, e4), Inr res)
        | None \<Rightarrow> exec_bind (cs_park fuel deadline (se_waker e4) W_Init s4) (\<lambda>(s5, woken).
            if woken then exec_bind (sel_get_hint (cs_world s5) (se_waker e4)) (\<lambda>hint. se_main fuel thread deadline (unat hint) b1 (s5, e4))
            else Done ((s5, e4), Inl False))) (waited iv cont T deadline)"
      if a: "around iv (se_waker e4) T v (Some c) s4" "hs_ok iv cont v (se_handlers e4)" "regs_exact v (se_handlers e4)"
        "r4 = None \<longrightarrow> inners iv (cs_chans s4)" "se_handlers e4 \<noteq> []" for v c s4 e4 and r4 :: "select_result option"
    proof (cases r4)
      case None
      have "safe (if woken then exec_bind (sel_get_hint (cs_world s5) (se_waker e4)) (\<lambda>hint. se_main fuel thread deadline (unat hint) b1 (s5, e4))
            else Done ((s5, e4), Inl False)) (waited iv cont T deadline)"
        if p: "around iv (se_waker e4) T v (Some c) s5" "inners iv (cs_chans s5)" "deadline = None \<longrightarrow> woken" for s5 woken
      proof -
        have ok: "select_ok iv cont T s5 e4" using p(1) a(2,3) by (rule select_okI)
        obtain hint where "sel_get_hint (cs_world s5) (se_waker e4) = Done hint" using waker_state_around(2) [OF p(1)] by blast
        with ok p Suc.IH [OF ok p(2) Suc.prems(3) a(5) k(5)] show ?thesis by (auto simp: waited_def)
      qed
      note rest = this
      have i: "inners iv (cs_chans s4)" using a(4) None by simp
      show ?thesis unfolding None option.case
        by (rule safe_bind [OF park_around [OF a(1) i]]) (use rest in \<open>clarify, blast\<close>)
    qed (use a in \<open>auto simp: waited_def intro: select_okI\<close>)
    show "safe (case r of Some res \<Rightarrow> Done ((s1, e1), Inr res)
      | None \<Rightarrow> exec_bind (se_arm thread idx s1 e1) (\<lambda>((s4, e4), r4). case r4 of Some res \<Rightarrow> Done ((s4, e4), Inr res)
        | None \<Rightarrow> exec_bind (cs_park fuel deadline (se_waker e4) W_Init s4) (\<lambda>(s5, woken).
            if woken then exec_bind (sel_get_hint (cs_world s5) (se_waker e4)) (\<lambda>hint. se_main fuel thread deadline (unat hint) b1 (s5, e4))
            else Done ((s5, e4), Inl False)))) (waited iv cont T deadline)"
    proof (cases r)
      case None
      then have "safe (se_arm thread idx s1 e1) (\<lambda>((s', e'), r).
          (\<exists>v b. around iv (se_waker e') T v (Some b) s' \<and> hs_ok iv cont v (se_handlers e') \<and> regs_exact v (se_handlers e')) \<and>
          (r = None \<longrightarrow> inners iv (cs_chans s')) \<and> se_handlers e' \<noteq> [] \<and> se_waker e' = se_waker e1)"
        unfolding se_arm_def using k(2) by (intro arm_ok [OF k(1) _ Suc.prems(3) ne]) simp
      then show ?thesis unfolding None option.case by (rule safe_bind) (use park in \<open>clarify, blast\<close>)
    qed (use k in \<open>simp add: waited_def\<close>)
  qed
qed simp

section \<open>Removing and dropping\<close>

lemma can_wait_not_select: "can_wait k \<Longrightarrow> k \<noteq> KSelect"
  by (auto simp: can_wait_def)

lemma map_fst_put: "j < length v \<Longrightarrow> map fst (v[j := (fst (v ! j), n)]) = map fst v"
  by (simp add: map_update list_update_same_conv)

text \<open>Cancelling once per handle takes back every entry, whichever handles were registered.\<close>

lemma cancel_all_around:
  assumes "around iv sel T v own s" "hs_ok iv cont v hs" "\<forall>i < length v. snd (v ! i) \<le> handle_count i hs + n i"
  shows "\<exists>s' v'. rh_cancel_all sel hs s = Done s' \<and> around iv sel T v' own s' \<and> map fst v' = map fst v \<and>
    (\<forall>i < length v. snd (v' ! i) \<le> n i) \<and> (inners iv (cs_chans s) \<longrightarrow> inners iv (cs_chans s'))"
  using assms
proof (induction hs arbitrary: s v)
  case (Cons h hs)
  have h: "rh_shared h < length v" "fst (v ! rh_shared h) \<noteq> KSelect" "hs_ok iv cont v hs"
    using Cons.prems(2) can_wait_not_select by (auto simp: hs_ok_def)
  let ?v = "v[rh_shared h := (fst (v ! rh_shared h), snd (v ! rh_shared h) - 1)]"
  obtain s1 where s1: "rh_cancel_waker sel h s = Done s1" "around iv sel T ?v own s1" "inners iv (cs_chans s) \<longrightarrow> inners iv (cs_chans s1)"
    using cancel_around [OF Cons.prems(1) h(1,2)] by blast
  have "snd (?v ! i) \<le> handle_count i hs + n i" if "i < length ?v" for i
    using Cons.prems(3) [rule_format, of i] that by (cases "i = rh_shared h") auto
  then obtain s2 v' where "rh_cancel_all sel hs s1 = Done s2" "around iv sel T v' own s2" "map fst v' = map fst ?v"
      "\<forall>i < length ?v. snd (v' ! i) \<le> n i" "inners iv (cs_chans s1) \<longrightarrow> inners iv (cs_chans s2)"
    using Cons.IH [OF s1(2) hs_ok_kinds [OF h(3) map_fst_put [OF h(1)]]] by blast
  with s1 map_fst_put [OF h(1)] show ?case by auto
qed auto

lemma regs_exact_bound: "regs_exact v hs \<Longrightarrow> i < length v \<Longrightarrow> snd (v ! i) \<le> handle_count i hs"
  by (simp add: regs_exact_def reg_le_handles)

lemma position_less: "position P xs = Some i \<Longrightarrow> i < length xs"
  by (induction xs arbitrary: i) (auto split: if_splits)

lemma remove_ok:
  assumes "select_ok iv cont T s e" "inners iv (cs_chans s)"
  shows "safe (se_remove recv (s, e)) (\<lambda>(s', e'). select_ok iv cont T s' e' \<and> inners iv (cs_chans s'))"
proof (cases "position (\<lambda>h. rh_channel h = recv) (se_handlers e)")
  case None
  then show ?thesis using assms by (simp add: se_remove_def)
next
  case (Some j)
  let ?h = "se_handlers e ! j" and ?hs = "take j (se_handlers e) @ drop (Suc j) (se_handlers e)" and ?sel = "se_waker e"
  have j: "j < length (se_handlers e)" using position_less [OF Some] .
  obtain v own where v: "around iv ?sel T v own s" "hs_ok iv cont v (se_handlers e)" "regs_exact v (se_handlers e)"
    using assms(1) unfolding select_ok_def by blast
  have split: "se_handlers e = take j (se_handlers e) @ ?h # drop (Suc j) (se_handlers e)" by (rule id_take_nth_drop [OF j])
  have hs: "hs_ok iv cont v [?h]" "hs_ok iv cont v ?hs"
    using v(2) by (subst (asm) split, simp add: hs_ok_def)+
  have "snd (v ! i) \<le> handle_count i [?h] + handle_count i ?hs" if "i < length v" for i
    using regs_exact_bound [OF v(3) that] by (subst (asm) split) simp
  then obtain s1 v1 where s1: "rh_cancel_all ?sel [?h] s = Done s1" "around iv ?sel T v1 own s1" "map fst v1 = map fst v"
      "\<forall>i < length v. snd (v1 ! i) \<le> handle_count i ?hs" "inners iv (cs_chans s) \<longrightarrow> inners iv (cs_chans s1)"
    using cancel_all_around [OF v(1) hs(1), of "\<lambda>i. handle_count i ?hs"] by blast
  have l: "length v1 = length v" using s1(3) by (metis length_map)
  obtain s2 v2 where s2: "rh_cancel_all ?sel ?hs s1 = Done s2" "around iv ?sel T v2 own s2" "map fst v2 = map fst v1"
      "\<forall>i < length v1. snd (v2 ! i) \<le> 0" "inners iv (cs_chans s1) \<longrightarrow> inners iv (cs_chans s2)"
    using cancel_all_around [OF s1(2) hs_ok_kinds [OF hs(2) s1(3)], of "\<lambda>_. 0"] s1(4) l by auto
  have c: "rh_cancel_waker ?sel ?h s = Done s1" using s1(1) by simp
  let ?off = "map (\<lambda>h. h\<lparr>rh_registered := False\<rparr>) ?hs"
  have off: "reg_count i ?off = 0" for i by (simp add: reg_count_def filter_empty_conv)
  show ?thesis
  proof (cases "?hs = []")
    case True
    have "hs_ok iv cont v1 ([] :: ('a, 'b) recv_handle list)" "regs_exact v1 ([] :: ('a, 'b) recv_handle list)"
      using s1(4) l True by (simp_all add: hs_ok_def regs_exact_def)
    with True Some c s1(2,5) assms(2) show ?thesis
      by (auto simp: se_remove_def Let_def intro!: select_okI)
  next
    case False
    have "hs_ok iv cont v2 ?off"
      using hs_ok_maps [OF hs_ok_kinds [OF hs(2)], of v2 ?off] s1(3) s2(3) by (simp add: comp_def)
    moreover have "regs_exact v2 ?off" using s2(3,4) off by (auto simp: regs_exact_def dest: map_eq_imp_length_eq)
    ultimately show ?thesis using False Some c s1(5) s2(1,2,5) assms(2)
      by (auto simp: se_remove_def Let_def intro!: select_okI)
  qed
qed

lemma add_ok:
  assumes "select_ok iv cont T s e" "lawful_flavor F iv cont" "c < length (cs_chans s)" "can_wait (kind_of (ch_recvs (cs_chans s ! c)))"
  shows "select_ok iv cont T s (se_add F c recv e)"
proof -
  obtain v own where v: "around iv (se_waker e) T v own s" "hs_ok iv cont v (se_handlers e)" "regs_exact v (se_handlers e)"
    using assms(1) unfolding select_ok_def by blast
  have "c < length v" using assms(3) around_length [OF v(1)] by simp
  with around_at(2) [OF v(1) this] assms(2,4) v show ?thesis
    by (intro select_okI [of _ _ _ v own]) (simp_all add: se_add_def hs_ok_def regs_exact_def)
qed

lemma select_two_safe:
  assumes "iv q0" "iv q1" "lawful_flavor F iv cont"
  shows "select_ok iv cont {Blocking 1} (fst (select_two F q0 q1)) (snd (select_two F q0 q1))"
    "inners iv (cs_chans (fst (select_two F q0 q1)))" "cs_now (fst (select_two F q0 q1)) = 0"
proof -
  let ?s = "fst (select_two F q0 q1)" and ?e = "snd (select_two F q0 q1)"
  have a: "around iv (se_waker ?e) {Blocking 1} [(KMulti, 0), (KMulti, 0)] None ?s"
    using assms config_detect_spin(1) world_ok_init
    by (simp add: select_two_def two_receivers_def se_new_bias_def se_new_with_def se_add_def around_def sel_core_def sel_view_def
      sel_owner_def sel_count_def world_ok_def sel_set_def sel_new_def ch_fine_def channel_new_def reg_ok_def multi_new_def)
  show "select_ok iv cont {Blocking 1} ?s ?e"
    using assms(3) by (intro select_okI [OF a]) (simp_all add: select_two_def two_receivers_def se_new_bias_def se_new_with_def se_add_def hs_ok_def
      regs_exact_def can_wait_def less_Suc_eq nth_Cons')
  show "inners iv (cs_chans ?s)" "cs_now ?s = 0"
    using assms(1,2) by (simp_all add: inners_def select_two_def two_receivers_def se_new_bias_def se_new_with_def channel_new_def)
qed

section \<open>Properties\<close>

text \<open>
  C10. A select fails in one case only, and always knows what it has registered. Over receivers of any lawful flavors, whatever the
  other threads do to the channels meanwhile, and as long as the token of an earlier selection has been read (\<open>inners\<close>),
  \<^verbatim>\<open>try_select\<close>, \<^verbatim>\<open>select\<close>, \<^verbatim>\<open>select_timeout\<close>, \<^verbatim>\<open>remove\<close> and \<^verbatim>\<open>add\<close> hit no panic, no \<^verbatim>\<open>unwrap\<close> of an absent waker, no
  \<^verbatim>\<open>unreachable!\<close> and no freed waker, and they keep the invariant: each channel's registry names this select exactly as often
  as there are handles of it marked registered. Whenever no token is handed out every queue is left sound. The one exception is
  \<^verbatim>\<open>select_timeout\<close> with a deadline beyond what the clock can represent: it panics, at once.
\<close>

theorem select_no_fault:
  assumes "select_ok iv cont T s e" "inners iv (cs_chans s)" "Blocking thread \<in> T" "unat (spin_limit (config_detect g)) \<le> 31"
  shows "safe (se_try_select (s, e)) (\<lambda>((s', e'), r). select_ok iv cont T s' e' \<and> (isl r \<longrightarrow> inners iv (cs_chans s'))) \<and>
    safe (se_select g fuel thread (s, e)) (\<lambda>((s', e'), r). select_ok iv cont T s' e' \<and> (isl r \<longrightarrow> inners iv (cs_chans s'))) \<and>
    (cs_now s + timeout \<le> instant_max \<longrightarrow> safe (se_select_timeout g instant_max fuel thread timeout (s, e))
      (\<lambda>((s', e'), r). select_ok iv cont T s' e' \<and> (isl r \<longrightarrow> inners iv (cs_chans s')))) \<and>
    (instant_max < cs_now s + timeout \<longrightarrow> se_select_timeout g instant_max fuel thread timeout (s, e) = Fault Panic) \<and>
    safe (se_remove recv (s, e)) (\<lambda>(s', e'). select_ok iv cont T s' e' \<and> inners iv (cs_chans s')) \<and>
    (lawful_flavor F iv cont \<and> c < length (cs_chans s) \<and> can_wait (kind_of (ch_recvs (cs_chans s ! c))) \<longrightarrow>
      select_ok iv cont T s (se_add F c recv e))"
proof (intro conjI impI)
  obtain e1 idx where b: "se_try_select_begin e = (e1, idx)" "se_handlers e1 = se_handlers e" "se_waker e1 = se_waker e"
    by (cases "se_mode e") (simp_all add: se_try_select_begin_def Let_def)
  have ok1: "select_ok iv cont T s e1" using assms(1) b(2,3) by (simp add: select_ok_def)
  show "safe (se_try_select (s, e)) (\<lambda>((s', e'), r). select_ok iv cont T s' e' \<and> (isl r \<longrightarrow> inners iv (cs_chans s')))"
    using try_from_ok [OF ok1 assms(2), of idx True] assms(1,2) b
    by (cases "se_handlers e = []") (auto simp: se_try_select_def safe_map elim!: safe_mono split: option.splits)
  have blk: "safe (se_select_blocking g fuel thread deadline (s, e)) (waited iv cont T deadline)" for deadline
  proof (cases "se_handlers e = []")
    case True
    then show ?thesis using assms(1,2) by (simp add: se_select_blocking_def waited_def)
  next
    case False
    then have ne: "se_handlers e1 \<noteq> []" using b(2) by simp
    have sp: "unat (spin_limit (config (backoff_from (config_detect g)))) \<le> 31" using assms(4) by (simp add: backoff_from_def)
    have "safe (case r of Some res \<Rightarrow> Done ((s1, e2), Inr res)
        | None \<Rightarrow> exec_bind (backoff_snooze (backoff_from (config_detect g))) (\<lambda>(k, _, _). se_main fuel thread deadline idx k (s1, e2)))
        (waited iv cont T deadline)"
      if "select_ok iv cont T s1 e2" "r = None \<longrightarrow> inners iv (cs_chans s1)" "se_handlers e2 = se_handlers e1"
      for s1 e2 and r :: "select_result option"
      using that ne main_ok [OF that(1) _ assms(3)]
      by (cases r) (auto simp: waited_def intro!: safe_bind [OF snooze_safe [OF sp]])
    then show ?thesis using False b(1)
      by (auto simp: se_select_blocking_def intro!: safe_bind [OF try_from_ok [OF ok1 assms(2) ne, of idx False]])
  qed
  show "safe (se_select g fuel thread (s, e)) (\<lambda>((s', e'), r). select_ok iv cont T s' e' \<and> (isl r \<longrightarrow> inners iv (cs_chans s')))"
    unfolding se_select_def by (rule safe_bind [OF blk]) (auto simp: waited_def split: sum.splits bool.splits)
  show "safe (se_select_timeout g instant_max fuel thread timeout (s, e))
      (\<lambda>((s', e'), r). select_ok iv cont T s' e' \<and> (isl r \<longrightarrow> inners iv (cs_chans s')))" if "cs_now s + timeout \<le> instant_max"
    using that by (auto simp: se_select_timeout_def safe_map waited_def intro!: safe_mono [OF blk] split: sum.splits bool.splits)
  show "se_select_timeout g instant_max fuel thread timeout (s, e) = Fault Panic" if "instant_max < cs_now s + timeout"
    using that by (simp add: se_select_timeout_def)
  show "safe (se_remove recv (s, e)) (\<lambda>(s', e'). select_ok iv cont T s' e' \<and> inners iv (cs_chans s'))"
    using assms(1,2) by (rule remove_ok)
  show "select_ok iv cont T s (se_add F c recv e)"
    if "lawful_flavor F iv cont \<and> c < length (cs_chans s) \<and> can_wait (kind_of (ch_recvs (cs_chans s ! c)))"
    using that add_ok [OF assms(1)] by blast
qed

theorem select_no_fault_witness:
  "\<exists>s e. select_two one_spsc_flavor (osp_new :: nat one_sp) osp_new = (s, e) \<and>
    safe (se_select_timeout backoff_globals_init 1000 9 1 5 (s, e)) (\<lambda>((s', e'), r). select_ok osp_inv osp_content {Blocking 1} s' e')"
proof -
  have n: "osp_inv (osp_new :: nat one_sp)" using osp_repr_inv [OF osp_new_repr] by auto
  obtain s e where se: "select_two one_spsc_flavor (osp_new :: nat one_sp) osp_new = (s, e)" by force
  note ok = select_two_safe [OF n n ospf.lawful_flavor_axioms, unfolded se fst_conv snd_conv]
  have "Blocking 1 \<in> {Blocking 1}" "cs_now s + 5 \<le> 1000" using ok(3) by simp_all
  note r = select_no_fault [OF ok(1,2) this(1) config_detect_spin(1), where timeout = 5 and instant_max = 1000 and fuel = 9,
    THEN conjunct2, THEN conjunct2, THEN conjunct1, THEN mp, OF this(2)]
  from se safe_mono [OF r] show ?thesis by (metis (no_types, lifting) case_prod_beta)
qed

text \<open>
  C16. Dropping a select cleans up. Whatever the select did before and whatever the other threads do meanwhile, the drop returns, no registry names the
  select waker any more, and the select waker and the thread waker it owned are freed.
\<close>

theorem select_drop_unregisters:
  assumes "select_ok iv cont T s e"
  shows "\<exists>s'. se_drop (s, e) = Done s' \<and> list_all (\<lambda>c. \<not> holds_selector (se_waker e) c) (cs_chans s') \<and>
    wd_sels (cs_world s') (se_waker e) = None \<and>
    (case sel_owner (se_waker e) (cs_world s) of None \<Rightarrow> True | Some a \<Rightarrow> upgrade (cs_world s') a = None)"
proof -
  let ?sel = "se_waker e"
  obtain v own where v: "around iv ?sel T v own s" "hs_ok iv cont v (se_handlers e)" "regs_exact v (se_handlers e)"
    using assms(1) unfolding select_ok_def by blast
  obtain s1 v1 where s1: "rh_cancel_all ?sel (se_handlers e) s = Done s1" "around iv ?sel T v1 own s1" "map fst v1 = map fst v"
      "\<forall>i < length v. snd (v1 ! i) \<le> 0"
    using cancel_all_around [OF v(1,2), of "\<lambda>_. 0"] regs_exact_bound [OF v(3)] by auto
  have "length v1 = length v" using s1(3) by (rule map_eq_imp_length_eq)
  then have none: "\<not> holds_selector ?sel c" if "c \<in> set (cs_chans s1)" for c
    using that s1(4) around_at(3) [OF s1(2)] around_length [OF s1(2)] unfolding sel_count_holds in_set_conv_nth by fastforce
  obtain x where x: "wd_sels (cs_world s1) ?sel = Some x" "sw_o_waker x = own"
    using s1(2) by (auto simp: around_def sel_core_def sel_owner_def split: option.splits)
  have own: "sel_owner ?sel (cs_world s) = own" using v(1) by (simp add: around_def)
  from s1(1) none x own show ?thesis
    by (cases own) (auto simp: se_drop_def cs_release_selector_def list_ex_iff list_all_iff cs_sel_def sel_get_def replace_owner_def
      drop_waker_def upgrade_def)
qed

theorem select_drop_unregisters_witness:
  "\<exists>s'. se_drop (select_two one_spsc_flavor (osp_new :: nat one_sp) osp_new) = Done s' \<and> wd_sels (cs_world s') 5 = None"
proof -
  have n: "osp_inv (osp_new :: nat one_sp)" using osp_repr_inv [OF osp_new_repr] by auto
  have "se_waker (snd (select_two one_spsc_flavor (osp_new :: nat one_sp) osp_new)) = 5"
    by (simp add: select_two_def se_new_bias_def se_new_with_def se_add_def)
  with select_drop_unregisters [OF select_two_safe(1) [OF n n ospf.lawful_flavor_axioms]] show ?thesis by auto
qed

end
