(* ===== verification/Dispatch.thy ===== *)
theory Dispatch
  imports Flavor List_Flavor
begin

text \<open>
  Flavors made from flavors: the wrapper \<^verbatim>\<open>FlavorWrap\<close> and the dispatching macros of \<^verbatim>\<open>src/src/flavor/mod.rs\<close>, the \<^verbatim>\<open>Array\<close> enums of \<^verbatim>\<open>spsc.rs\<close>,
  \<^verbatim>\<open>mpsc.rs\<close> and \<^verbatim>\<open>mpmc.rs\<close>, which choose between a ring buffer and a one-element queue, \<^verbatim>\<open>CompatFlavor\<close> of \<^verbatim>\<open>compat.rs\<close>, and the null flavor of
  \<^verbatim>\<open>null.rs\<close>. Dispatching keeps a flavor lawful, so the theorems on channels hold for the wrapped flavors, for the \<^verbatim>\<open>Array\<close> enums and for the
  ring buffers of \<^verbatim>\<open>CompatFlavor\<close>. Two exported flavors are not lawful and are treated on their own: a list of \<^verbatim>\<open>CompatFlavor\<close>, which says it is bounded and has no
  capacity, and the null flavor, which forgets what it accepts.
\<close>

section \<open>The wrapper\<close>

record 'q wrapped =
  fw_inner :: 'q

definition from_inner :: "'q \<Rightarrow> 'q wrapped" where
  "from_inner f = \<lparr>fw_inner = f\<rparr>"

text \<open>\<^verbatim>\<open>wrap_new_type!\<close>: call the method on the inner value.\<close>

definition wrap_new_type :: "('q \<Rightarrow> ('q \<times> 'r) exec) \<Rightarrow> 'q wrapped \<Rightarrow> ('q wrapped \<times> 'r) exec" where
  "wrap_new_type method w = exec_map (\<lambda>(q, r). (w\<lparr>fw_inner := q\<rparr>, r)) (method (fw_inner w))"

text \<open>The dispatching macros replace the backoff limit of the inner flavor by the default of the platform (here x86-64).\<close>

definition dispatch_backoff_limit :: u16 where
  "dispatch_backoff_limit = DEFAULT_LIMIT"

definition flavor_wrap :: "('q, 'a) flavor \<Rightarrow> ('q wrapped, 'a) flavor" where
  "flavor_wrap F =
     \<lparr>fl_bounded = fl_bounded F,
      fl_push = (\<lambda>w x. wrap_new_type (\<lambda>q. fl_push F q x) w),
      fl_pop = wrap_new_type (fl_pop F),
      fl_len = (\<lambda>w. fl_len F (fw_inner w)),
      fl_capacity = (\<lambda>w. fl_capacity F (fw_inner w)),
      fl_is_full = (\<lambda>w. fl_is_full F (fw_inner w)),
      fl_is_empty = (\<lambda>w. fl_is_empty F (fw_inner w)),
      fl_try_send = (\<lambda>w x. wrap_new_type (\<lambda>q. fl_try_send F q x) w),
      fl_try_send_oneshot = (\<lambda>w x. wrap_new_type (\<lambda>q. fl_try_send_oneshot F q x) w),
      fl_try_recv_cached = wrap_new_type (fl_try_recv_cached F),
      fl_try_recv = wrap_new_type (fl_try_recv F),
      fl_try_recv_final = wrap_new_type (fl_try_recv_final F),
      fl_backoff_limit = dispatch_backoff_limit,
      fl_adjust_tx_backoff = (\<lambda>w. fl_adjust_tx_backoff F (fw_inner w)),
      fl_try_select = (\<lambda>final_check. wrap_new_type (fl_try_select F final_check)),
      fl_read_with_token = (\<lambda>w tok. wrap_new_type (\<lambda>q. fl_read_with_token F q tok) w)\<rparr>"

section \<open>The enums\<close>

text \<open>
  The two alternatives of \<^verbatim>\<open>Array\<close>, a ring buffer or a one-element queue, and of \<^verbatim>\<open>CompatFlavor\<close>, a ring buffer or a list.
\<close>

datatype ('p, 'q) array_enum = EnumArray 'p | EnumOther 'q

fun wrap_array ::
  "('p \<Rightarrow> ('p \<times> 'r) exec) \<Rightarrow> ('q \<Rightarrow> ('q \<times> 'r) exec) \<Rightarrow> ('p, 'q) array_enum \<Rightarrow> (('p, 'q) array_enum \<times> 'r) exec" where
  "wrap_array f g (EnumArray p) = exec_map (map_prod EnumArray id) (f p)"
| "wrap_array f g (EnumOther q) = exec_map (map_prod EnumOther id) (g q)"

definition flavor_enum :: "bool \<Rightarrow> ('p, 'a) flavor \<Rightarrow> ('q, 'a) flavor \<Rightarrow> (('p, 'q) array_enum, 'a) flavor" where
  "flavor_enum is_bounded F G =
     \<lparr>fl_bounded = is_bounded,
      fl_push = (\<lambda>e x. wrap_array (\<lambda>q. fl_push F q x) (\<lambda>q. fl_push G q x) e),
      fl_pop = wrap_array (fl_pop F) (fl_pop G),
      fl_len = case_array_enum (fl_len F) (fl_len G),
      fl_capacity = case_array_enum (fl_capacity F) (fl_capacity G),
      fl_is_full = case_array_enum (fl_is_full F) (fl_is_full G),
      fl_is_empty = case_array_enum (fl_is_empty F) (fl_is_empty G),
      fl_try_send = (\<lambda>e x. wrap_array (\<lambda>q. fl_try_send F q x) (\<lambda>q. fl_try_send G q x) e),
      fl_try_send_oneshot = (\<lambda>e x. wrap_array (\<lambda>q. fl_try_send_oneshot F q x) (\<lambda>q. fl_try_send_oneshot G q x) e),
      fl_try_recv_cached = wrap_array (fl_try_recv_cached F) (fl_try_recv_cached G),
      fl_try_recv = wrap_array (fl_try_recv F) (fl_try_recv G),
      fl_try_recv_final = wrap_array (fl_try_recv_final F) (fl_try_recv_final G),
      fl_backoff_limit = dispatch_backoff_limit,
      fl_adjust_tx_backoff = case_array_enum (fl_adjust_tx_backoff F) (fl_adjust_tx_backoff G),
      fl_try_select = (\<lambda>final_check. wrap_array (fl_try_select F final_check) (fl_try_select G final_check)),
      fl_read_with_token = (\<lambda>e tok. wrap_array (\<lambda>q. fl_read_with_token F q tok) (\<lambda>q. fl_read_with_token G q tok) e)\<rparr>"

definition spsc_array_flavor :: "(('a spsc_queue, 'a one_sp) array_enum, 'a) flavor" where
  "spsc_array_flavor = flavor_enum True array_spsc_flavor one_spsc_flavor"

definition mpsc_array_flavor :: "bool list \<Rightarrow> (('a mpsc_queue, 'a one_mpsc) array_enum, 'a) flavor" where
  "mpsc_array_flavor s = flavor_enum True (array_mpsc_flavor s) (one_mpsc_flavor s)"

definition mpmc_array_flavor :: "bool list \<Rightarrow> (('a array_queue, 'a one) array_enum, 'a) flavor" where
  "mpmc_array_flavor s = flavor_enum True (array_flavor s) (one_flavor s)"

definition compat_flavor :: "bool list \<Rightarrow> (('a array_queue, 'a seg_queue) array_enum, 'a) flavor" where
  "compat_flavor s = flavor_enum True (array_flavor s) (list_flavor s)"

text \<open>\<^verbatim>\<open>Array::new\<close>: at most one element needs no ring buffer.\<close>

definition spsc_array_new :: "usize \<Rightarrow> ('a spsc_queue, 'a one_sp) array_enum exec" where
  "spsc_array_new bound = (if bound \<le> 1 then Done (EnumOther osp_new) else exec_map EnumArray (array_spsc_new bound))"

definition mpsc_array_new :: "usize \<Rightarrow> ('a mpsc_queue, 'a one_mpsc) array_enum exec" where
  "mpsc_array_new bound = (if bound \<le> 1 then Done (EnumOther om_new) else exec_map EnumArray (array_mpsc_new bound))"

definition mpmc_array_new :: "usize \<Rightarrow> ('a array_queue, 'a one) array_enum exec" where
  "mpmc_array_new bound = (if bound \<le> 1 then Done (EnumOther one_new) else exec_map EnumArray (array_new bound))"

definition compat_new_array :: "usize \<Rightarrow> ('a array_queue, 'a seg_queue) array_enum exec" where
  "compat_new_array bound = exec_map EnumArray (array_new (if bound \<le> 1 then 1 else bound))"

definition compat_new_list :: "nat \<Rightarrow> ('a array_queue, 'a seg_queue) array_enum" where
  "compat_new_list memory = EnumOther (sg_new memory)"

section \<open>The null flavor\<close>

definition null_flavor :: "(unit, unit) flavor" where
  "null_flavor =
     \<lparr>fl_bounded = False,
      fl_push = (\<lambda>q x. Fault Panic),
      fl_pop = (\<lambda>q. Done (q, None)),
      fl_len = (\<lambda>q. 0), fl_capacity = (\<lambda>q. None), fl_is_full = (\<lambda>q. True), fl_is_empty = (\<lambda>q. True),
      fl_try_send = (\<lambda>q x. Done (q, True)),
      fl_try_send_oneshot = (\<lambda>q x. Done (q, Some True)),
      fl_try_recv_cached = (\<lambda>q. Done (q, None)),
      fl_try_recv = (\<lambda>q. Done (q, None)),
      fl_try_recv_final = (\<lambda>q. Done (q, None)),
      fl_backoff_limit = 0,
      fl_adjust_tx_backoff = (\<lambda>q b. Done (default_adjust_tx_backoff 0 b)),
      fl_try_select = (\<lambda>final_check q. Done (q, None)),
      fl_read_with_token = (\<lambda>q tok. Fault Panic)\<rparr>"

section \<open>Dispatching is lawful\<close>

text \<open>\<open>G\<close> does on the images of \<open>emb\<close> what \<open>F\<close> does.\<close>

definition embeds :: "('q \<Rightarrow> 'w) \<Rightarrow> ('q, 'a) flavor \<Rightarrow> ('w, 'a) flavor \<Rightarrow> bool" where
  "embeds emb F G \<longleftrightarrow> fl_bounded G = fl_bounded F \<and>
     (\<forall>q. fl_pop G (emb q) = exec_map (map_prod emb id) (fl_pop F q) \<and> fl_len G (emb q) = fl_len F q \<and>
       fl_capacity G (emb q) = fl_capacity F q \<and> fl_is_full G (emb q) = fl_is_full F q \<and> fl_is_empty G (emb q) = fl_is_empty F q \<and>
       fl_try_recv_cached G (emb q) = exec_map (map_prod emb id) (fl_try_recv_cached F q) \<and>
       fl_try_recv G (emb q) = exec_map (map_prod emb id) (fl_try_recv F q) \<and>
       fl_try_recv_final G (emb q) = exec_map (map_prod emb id) (fl_try_recv_final F q) \<and>
       fl_adjust_tx_backoff G (emb q) = fl_adjust_tx_backoff F q) \<and>
     (\<forall>q x. fl_push G (emb q) x = exec_map (map_prod emb id) (fl_push F q x) \<and>
       fl_try_send G (emb q) x = exec_map (map_prod emb id) (fl_try_send F q x) \<and>
       fl_try_send_oneshot G (emb q) x = exec_map (map_prod emb id) (fl_try_send_oneshot F q x)) \<and>
     (\<forall>q b. fl_try_select G b (emb q) = exec_map (map_prod emb id) (fl_try_select F b q)) \<and>
     (\<forall>q t. fl_read_with_token G (emb q) t = exec_map (map_prod emb id) (fl_read_with_token F q t))"

lemma wrap_embeds: "embeds from_inner F (flavor_wrap F)"
  by (auto simp: embeds_def flavor_wrap_def wrap_new_type_def from_inner_def exec_map_def intro!: exec_bind_eqI)

lemma enum_embeds:
  "fl_bounded F = b \<Longrightarrow> embeds EnumArray F (flavor_enum b F G)"
  "fl_bounded G = b \<Longrightarrow> embeds EnumOther G (flavor_enum b F G)"
  by (auto simp: embeds_def flavor_enum_def)

text \<open>The laws of a flavor at one state.\<close>

definition laws_at :: "('q, 'a) flavor \<Rightarrow> ('q \<Rightarrow> bool) \<Rightarrow> ('q \<Rightarrow> 'a list) \<Rightarrow> 'q \<Rightarrow> bool" where
  "laws_at F iv cont q \<longleftrightarrow>
     (\<forall>x. safe (fl_try_send F q x) (\<lambda>(q', b). iv q' \<and> fl_capacity F q' = fl_capacity F q \<and>
       spec_step (fl_capacity F q) (cont q) (Push x) = (cont q', Pushed b))) \<and>
     (\<forall>x. fl_capacity F q \<noteq> None \<longrightarrow> fl_try_send F q x \<noteq> Spin) \<and>
     (\<exists>q' v. fl_try_recv F q = Done (q', v) \<and> iv q' \<and> fl_capacity F q' = fl_capacity F q \<and>
       spec_step (fl_capacity F q) (cont q) Pop = (cont q', Popped v)) \<and>
     fl_len F q = length (cont q) \<and> fl_is_empty F q = (cont q = []) \<and> fl_is_full F q = (\<not> has_room (fl_capacity F q) (cont q)) \<and>
     (fl_bounded F \<longleftrightarrow> fl_capacity F q \<noteq> None) \<and>
     (\<forall>x. fl_push F q x = hand_back x (fl_try_send F q x)) \<and> fl_pop F q = fl_try_recv F q \<and> fl_try_recv_final F q = fl_try_recv F q \<and>
     (\<forall>x. fl_bounded F \<longrightarrow> (\<exists>q' r. fl_try_send_oneshot F q x = Done (q', r) \<and> iv q' \<and> fl_capacity F q' = fl_capacity F q \<and>
        (case r of
           Some True \<Rightarrow> has_room (fl_capacity F q) (cont q) \<and> cont q' = cont q @ [x]
         | Some False \<Rightarrow> \<not> has_room (fl_capacity F q) (cont q) \<and> cont q' = cont q
         | None \<Rightarrow> has_room (fl_capacity F q) (cont q) \<and> cont q' = cont q))) \<and>
     (\<exists>q' r. fl_try_recv_cached F q = Done (q', r) \<and> iv q' \<and> fl_capacity F q' = fl_capacity F q \<and>
        (case r of Some x \<Rightarrow> cont q = x # cont q' | None \<Rightarrow> cont q' = cont q)) \<and>
     (\<forall>b. exec_bind (fl_try_select F b q) (\<lambda>(q', t).
        case t of
          Some tok \<Rightarrow> if tok_pos tok = None then Fault Panic else exec_map (map_prod id Some) (fl_read_with_token F q' tok)
        | None \<Rightarrow> Done (q', None)) = fl_try_recv F q) \<and>
     (\<forall>b. step b = 0 \<longrightarrow> (\<exists>b'. fl_adjust_tx_backoff F q b = Done b' \<and>
        (spin_limit (config b') = spin_limit (config b) \<or> spin_limit (config b') = 6)))"

lemma laws_atD:
  assumes "laws_at F iv cont q"
  shows "safe (fl_try_send F q x) (\<lambda>(q', b). iv q' \<and> fl_capacity F q' = fl_capacity F q \<and>
       spec_step (fl_capacity F q) (cont q) (Push x) = (cont q', Pushed b))"
    "fl_capacity F q \<noteq> None \<Longrightarrow> fl_try_send F q x \<noteq> Spin"
    "\<exists>q' v. fl_try_recv F q = Done (q', v) \<and> iv q' \<and> fl_capacity F q' = fl_capacity F q \<and>
       spec_step (fl_capacity F q) (cont q) Pop = (cont q', Popped v)"
    "fl_len F q = length (cont q)" "fl_is_empty F q = (cont q = [])" "fl_is_full F q = (\<not> has_room (fl_capacity F q) (cont q))"
    "fl_bounded F \<longleftrightarrow> fl_capacity F q \<noteq> None"
    "fl_push F q x = hand_back x (fl_try_send F q x)" "fl_pop F q = fl_try_recv F q" "fl_try_recv_final F q = fl_try_recv F q"
    "fl_bounded F \<Longrightarrow> \<exists>q' r. fl_try_send_oneshot F q x = Done (q', r) \<and> iv q' \<and> fl_capacity F q' = fl_capacity F q \<and>
        (case r of
           Some True \<Rightarrow> has_room (fl_capacity F q) (cont q) \<and> cont q' = cont q @ [x]
         | Some False \<Rightarrow> \<not> has_room (fl_capacity F q) (cont q) \<and> cont q' = cont q
         | None \<Rightarrow> has_room (fl_capacity F q) (cont q) \<and> cont q' = cont q)"
    "\<exists>q' r. fl_try_recv_cached F q = Done (q', r) \<and> iv q' \<and> fl_capacity F q' = fl_capacity F q \<and>
        (case r of Some x \<Rightarrow> cont q = x # cont q' | None \<Rightarrow> cont q' = cont q)"
    "exec_bind (fl_try_select F d q) (\<lambda>(q', t).
        case t of
          Some tok \<Rightarrow> if tok_pos tok = None then Fault Panic else exec_map (map_prod id Some) (fl_read_with_token F q' tok)
        | None \<Rightarrow> Done (q', None)) = fl_try_recv F q"
    "step k = 0 \<Longrightarrow> \<exists>b'. fl_adjust_tx_backoff F q k = Done b' \<and>
        (spin_limit (config b') = spin_limit (config k) \<or> spin_limit (config b') = 6)"
proof -
  note L0 = assms [unfolded laws_at_def]
  note L1 = L0 [THEN conjunct2]
  note L2 = L1 [THEN conjunct2]
  note L3 = L2 [THEN conjunct2]
  note L4 = L3 [THEN conjunct2]
  note L5 = L4 [THEN conjunct2]
  note L6 = L5 [THEN conjunct2]
  note L7 = L6 [THEN conjunct2]
  note L8 = L7 [THEN conjunct2]
  note L9 = L8 [THEN conjunct2]
  note L10 = L9 [THEN conjunct2]
  note L11 = L10 [THEN conjunct2]
  note L12 = L11 [THEN conjunct2]
  note L13 = L12 [THEN conjunct2]
  show "safe (fl_try_send F q x) (\<lambda>(q', b). iv q' \<and> fl_capacity F q' = fl_capacity F q \<and>
       spec_step (fl_capacity F q) (cont q) (Push x) = (cont q', Pushed b))" by (rule L0 [THEN conjunct1, THEN spec])
  show "fl_try_send F q x \<noteq> Spin" if "fl_capacity F q \<noteq> None"
    by (rule L1 [THEN conjunct1, THEN spec, THEN mp, OF that])
  show "\<exists>q' v. fl_try_recv F q = Done (q', v) \<and> iv q' \<and> fl_capacity F q' = fl_capacity F q \<and>
       spec_step (fl_capacity F q) (cont q) Pop = (cont q', Popped v)" by (rule L2 [THEN conjunct1])
  show "fl_len F q = length (cont q)" by (rule L3 [THEN conjunct1])
  show "fl_is_empty F q = (cont q = [])" by (rule L4 [THEN conjunct1])
  show "fl_is_full F q = (\<not> has_room (fl_capacity F q) (cont q))" by (rule L5 [THEN conjunct1])
  show "fl_bounded F \<longleftrightarrow> fl_capacity F q \<noteq> None" by (rule L6 [THEN conjunct1])
  show "fl_push F q x = hand_back x (fl_try_send F q x)" by (rule L7 [THEN conjunct1, THEN spec])
  show "fl_pop F q = fl_try_recv F q" by (rule L8 [THEN conjunct1])
  show "fl_try_recv_final F q = fl_try_recv F q" by (rule L9 [THEN conjunct1])
  show "\<exists>q' r. fl_try_send_oneshot F q x = Done (q', r) \<and> iv q' \<and> fl_capacity F q' = fl_capacity F q \<and>
        (case r of
           Some True \<Rightarrow> has_room (fl_capacity F q) (cont q) \<and> cont q' = cont q @ [x]
         | Some False \<Rightarrow> \<not> has_room (fl_capacity F q) (cont q) \<and> cont q' = cont q
         | None \<Rightarrow> has_room (fl_capacity F q) (cont q) \<and> cont q' = cont q)" if "fl_bounded F"
    by (rule L10 [THEN conjunct1, THEN spec, THEN mp, OF that])
  show "\<exists>q' r. fl_try_recv_cached F q = Done (q', r) \<and> iv q' \<and> fl_capacity F q' = fl_capacity F q \<and>
        (case r of Some x \<Rightarrow> cont q = x # cont q' | None \<Rightarrow> cont q' = cont q)" by (rule L11 [THEN conjunct1])
  show "exec_bind (fl_try_select F d q) (\<lambda>(q', t).
        case t of
          Some tok \<Rightarrow> if tok_pos tok = None then Fault Panic else exec_map (map_prod id Some) (fl_read_with_token F q' tok)
        | None \<Rightarrow> Done (q', None)) = fl_try_recv F q" by (rule L12 [THEN conjunct1, THEN spec])
  show "\<exists>b'. fl_adjust_tx_backoff F q k = Done b' \<and>
        (spin_limit (config b') = spin_limit (config k) \<or> spin_limit (config b') = 6)" if "step k = 0"
    by (rule L13 [THEN spec, THEN mp, OF that])
qed

lemma lawful_at: "lawful_flavor F iv cont \<Longrightarrow> iv q \<Longrightarrow> laws_at F iv cont q"
  unfolding laws_at_def
  by (intro conjI allI impI fifo_weak.push_safe [OF lawful_flavor.axioms(1)] fifo_weak.push_bounded [OF lawful_flavor.axioms(1)]
    fifo_weak.pop_spec [OF lawful_flavor.axioms(1)] fifo_weak.len_content [OF lawful_flavor.axioms(1)]
    fifo_weak.is_empty_content [OF lawful_flavor.axioms(1)] fifo_weak.is_full_content [OF lawful_flavor.axioms(1)]
    lawful_flavor.bounded_cap lawful_flavor.push_eq lawful_flavor.pop_eq lawful_flavor.final_eq lawful_flavor.oneshot
    lawful_flavor.cached lawful_flavor.select_read lawful_flavor.adjust)

lemma laws_lawful:
  assumes "\<And>q. iv q \<Longrightarrow> laws_at F iv cont q"
  shows "lawful_flavor F iv cont"
  by (intro lawful_flavor.intro fifo_weak.intro lawful_flavor_axioms.intro laws_atD [OF assms])

lemma embeds_laws:
  assumes e: "embeds emb F G" and l: "laws_at F iv cont q"
    and v: "\<And>q. iv' (emb q) = iv q" "\<And>q. cont' (emb q) = cont q"
  shows "laws_at G iv' cont' (emb q)"
proof -
  note E = e [unfolded embeds_def] and L = laws_atD [OF l]
  have op: "fl_capacity G (emb p) = fl_capacity F p" "fl_try_send G (emb p) x = exec_map (map_prod emb id) (fl_try_send F p x)"
      "fl_try_recv G (emb p) = exec_map (map_prod emb id) (fl_try_recv F p)"
      "fl_try_send_oneshot G (emb p) x = exec_map (map_prod emb id) (fl_try_send_oneshot F p x)"
      "fl_try_recv_cached G (emb p) = exec_map (map_prod emb id) (fl_try_recv_cached F p)"
      "fl_try_select G b (emb p) = exec_map (map_prod emb id) (fl_try_select F b p)"
      "fl_read_with_token G (emb p) t = exec_map (map_prod emb id) (fl_read_with_token F p t)" for p x b t
    using E by blast+
  have push: "safe (fl_try_send G (emb q) x) (\<lambda>(q', b). iv' q' \<and> fl_capacity G q' = fl_capacity G (emb q) \<and>
      spec_step (fl_capacity G (emb q)) (cont' (emb q)) (Push x) = (cont' q', Pushed b))" for x
    using L(1) [of x] unfolding op safe_map v by (auto simp: op v case_prod_unfold)
  have spin: "exec_map f m = Spin \<longleftrightarrow> m = Spin" for f m
    by (cases m) simp_all
  have pop: "\<exists>q' v. fl_try_recv G (emb q) = Done (q', v) \<and> iv' q' \<and> fl_capacity G q' = fl_capacity G (emb q) \<and>
      spec_step (fl_capacity G (emb q)) (cont' (emb q)) Pop = (cont' q', Popped v)"
  proof -
    obtain q1 r where "fl_try_recv F q = Done (q1, r)" "iv q1" "fl_capacity F q1 = fl_capacity F q"
      "spec_step (fl_capacity F q) (cont q) Pop = (cont q1, Popped r)" using L(3) by blast
    then show ?thesis by (intro exI [of _ "emb q1"] exI [of _ r]) (simp only: op v exec_map_simps map_prod_simp id_apply simp_thms)
  qed
  have hand: "exec_map (map_prod emb id) (hand_back x m) = hand_back x (exec_map (map_prod emb id) m)" for x m
    by (cases m) (auto simp: hand_back_def)
  have one: "\<exists>q' r. fl_try_send_oneshot G (emb q) x = Done (q', r) \<and> iv' q' \<and> fl_capacity G q' = fl_capacity G (emb q) \<and>
        (case r of
           Some True \<Rightarrow> has_room (fl_capacity G (emb q)) (cont' (emb q)) \<and> cont' q' = cont' (emb q) @ [x]
         | Some False \<Rightarrow> \<not> has_room (fl_capacity G (emb q)) (cont' (emb q)) \<and> cont' q' = cont' (emb q)
         | None \<Rightarrow> has_room (fl_capacity G (emb q)) (cont' (emb q)) \<and> cont' q' = cont' (emb q))" if b: "fl_bounded G" for x
  proof -
    have "fl_bounded F" using b E by blast
    with L(11) obtain q1 r where "fl_try_send_oneshot F q x = Done (q1, r)" "iv q1" "fl_capacity F q1 = fl_capacity F q"
      "case r of
           Some True \<Rightarrow> has_room (fl_capacity F q) (cont q) \<and> cont q1 = cont q @ [x]
         | Some False \<Rightarrow> \<not> has_room (fl_capacity F q) (cont q) \<and> cont q1 = cont q
         | None \<Rightarrow> has_room (fl_capacity F q) (cont q) \<and> cont q1 = cont q" by blast
    then show ?thesis by (intro exI [of _ "emb q1"] exI [of _ r]) (simp only: op v exec_map_simps map_prod_simp id_apply simp_thms)
  qed
  have ca: "\<exists>q' r. fl_try_recv_cached G (emb q) = Done (q', r) \<and> iv' q' \<and> fl_capacity G q' = fl_capacity G (emb q) \<and>
        (case r of Some x \<Rightarrow> cont' (emb q) = x # cont' q' | None \<Rightarrow> cont' q' = cont' (emb q))"
  proof -
    obtain q1 r where "fl_try_recv_cached F q = Done (q1, r)" "iv q1" "fl_capacity F q1 = fl_capacity F q"
      "case r of Some x \<Rightarrow> cont q = x # cont q1 | None \<Rightarrow> cont q1 = cont q" using L(12) by blast
    then show ?thesis by (intro exI [of _ "emb q1"] exI [of _ r]) (simp only: op v exec_map_simps map_prod_simp id_apply simp_thms)
  qed
  have sel: "exec_bind (fl_try_select G b (emb q)) (\<lambda>(q', t).
        case t of
          Some tok \<Rightarrow> if tok_pos tok = None then Fault Panic else exec_map (map_prod id Some) (fl_read_with_token G q' tok)
        | None \<Rightarrow> Done (q', None)) = fl_try_recv G (emb q)" for b
  proof -
    have "exec_map (map_prod emb id) (exec_bind (fl_try_select F b q) (\<lambda>(q', t).
        case t of
          Some tok \<Rightarrow> if tok_pos tok = None then Fault Panic else exec_map (map_prod id Some) (fl_read_with_token F q' tok)
        | None \<Rightarrow> Done (q', None))) = fl_try_recv G (emb q)" unfolding op L(13) ..
    then show ?thesis unfolding op exec_push
      by (cases "fl_try_select F b q") (auto simp: op exec_push map_prod.compositionality split: option.splits if_splits)
  qed
  have rest: "fl_len G (emb q) = length (cont' (emb q))" "fl_is_empty G (emb q) = (cont' (emb q) = [])"
      "fl_is_full G (emb q) = (\<not> has_room (fl_capacity G (emb q)) (cont' (emb q)))" "fl_bounded G \<longleftrightarrow> fl_capacity G (emb q) \<noteq> None"
      "fl_pop G (emb q) = fl_try_recv G (emb q)" "fl_try_recv_final G (emb q) = fl_try_recv G (emb q)"
      "fl_push G (emb q) x = hand_back x (fl_try_send G (emb q) x)" "fl_capacity G (emb q) \<noteq> None \<Longrightarrow> fl_try_send G (emb q) x \<noteq> Spin"
      "step k = 0 \<Longrightarrow> \<exists>b'. fl_adjust_tx_backoff G (emb q) k = Done b' \<and>
        (spin_limit (config b') = spin_limit (config k) \<or> spin_limit (config b') = 6)" for x k
    using E L(2,4-10,14) by (simp_all only: op v hand spin simp_thms not_False_eq_True)
  show ?thesis unfolding laws_at_def
    by (intro conjI allI impI push rest pop one ca sel)
qed

lemma embeds_lawful:
  assumes "embeds emb F G" "lawful_flavor F iv cont" "\<And>q. iv' (emb q) = iv q" "\<And>q. cont' (emb q) = cont q" "\<And>w. iv' w \<Longrightarrow> \<exists>q. w = emb q"
  shows "lawful_flavor G iv' cont'"
  using assms(3,5) by (auto intro!: laws_lawful embeds_laws [OF assms(1) lawful_at [OF assms(2)] assms(3,4)])

lemma flavor_wrap_lawful:
  assumes "lawful_flavor F iv cont"
  shows "lawful_flavor (flavor_wrap F) (\<lambda>w. iv (fw_inner w)) (\<lambda>w. cont (fw_inner w))"
  by (rule embeds_lawful [OF wrap_embeds assms]) (auto simp: from_inner_def intro: wrapped.cases)

lemma flavor_enum_lawful:
  assumes "lawful_flavor F iv cont" "lawful_flavor G iw conu" "fl_bounded F = b" "fl_bounded G = b"
  shows "lawful_flavor (flavor_enum b F G) (case_array_enum iv iw) (case_array_enum cont conu)"
proof (rule laws_lawful)
  fix e
  assume "case_array_enum iv iw e"
  then show "laws_at (flavor_enum b F G) (case_array_enum iv iw) (case_array_enum cont conu) e"
    using embeds_laws [OF enum_embeds(1) [OF assms(3), of G] lawful_at [OF assms(1)]]
      embeds_laws [OF enum_embeds(2) [OF assms(4), of F] lawful_at [OF assms(2)]]
    by (cases e) simp_all
qed

text \<open>The ring buffers of the compatibility flavor; a list of it answers \<^verbatim>\<open>IS_BOUNDED\<close> although it has no capacity.\<close>

lemma compat_array_lawful:
  "lawful_flavor (compat_flavor s) (case_array_enum aq_inv (\<lambda>_. False)) (case_array_enum aq_content (\<lambda>_. []))"
  unfolding compat_flavor_def
  by (rule embeds_lawful [OF enum_embeds(1) arrf.lawful_flavor_axioms]) (auto simp: array_flavor_simps split: array_enum.splits)

interpretation spscaf: lawful_flavor spsc_array_flavor "case_array_enum sq_inv osp_inv" "case_array_enum sq_content osp_content"
  unfolding spsc_array_flavor_def
  by (rule flavor_enum_lawful [OF spscf.lawful_flavor_axioms ospf.lawful_flavor_axioms])
    (simp_all add: array_spsc_flavor_def one_spsc_flavor_def)

interpretation mpscaf: lawful_flavor "mpsc_array_flavor s" "case_array_enum mq_inv om_inv" "case_array_enum mq_content om_content" for s
  unfolding mpsc_array_flavor_def
  by (rule flavor_enum_lawful [OF mpscf.lawful_flavor_axioms ompf.lawful_flavor_axioms])
    (simp_all add: array_mpsc_flavor_def one_mpsc_flavor_def Let_def)

interpretation mpmcaf: lawful_flavor "mpmc_array_flavor s" "case_array_enum aq_inv one_inv" "case_array_enum aq_content one_content" for s
  unfolding mpmc_array_flavor_def
  by (rule flavor_enum_lawful [OF arrf.lawful_flavor_axioms onef.lawful_flavor_axioms])
    (simp_all add: array_flavor_def one_flavor_def Let_def)

end
