(* ===== verification/Builders.thy ===== *)
theory Builders
  imports Dispatch Channel_Safety
begin

text \<open>
  The constructors of channels: \<^verbatim>\<open>src/src/spsc.rs\<close>, \<^verbatim>\<open>mpsc.rs\<close>, \<^verbatim>\<open>mpmc.rs\<close> and \<^verbatim>\<open>compat.rs\<close>. Each chooses a flavor, the registries that go with it and
  the types of the two handles, over one shared channel that counts one sender and one receiver. What they build is a well-formed system:
  the assumption of the theorems on channels.
\<close>

datatype tx_handle = HTx | HMTx | HAsyncTx | HMAsyncTx | HCloseHandle
datatype rx_handle = HRx | HMRx | HAsyncRx | HMAsyncRx

record 'q built =
  bu_shared :: "'q channel"
  bu_tx :: tx_handle
  bu_rx :: rx_handle

section \<open>spsc\<close>

definition spsc_build :: "('q, 'a) flavor \<Rightarrow> backoff_globals \<Rightarrow> registry \<Rightarrow> registry \<Rightarrow> 'q \<Rightarrow> tx_handle \<Rightarrow> rx_handle \<Rightarrow> 'q built" where
  "spsc_build F g send recv flavor tx rx = \<lparr>bu_shared = channel_new F g flavor send recv, bu_tx = tx, bu_rx = rx\<rparr>"

definition spsc_bounded_new :: "backoff_globals \<Rightarrow> usize \<Rightarrow> tx_handle \<Rightarrow> rx_handle \<Rightarrow> ('a spsc_queue, 'a one_sp) array_enum built exec" where
  "spsc_bounded_new g bound tx rx =
     exec_map (\<lambda>flavor. spsc_build spsc_array_flavor g (RegSingle weak_cell_new) (RegSingle weak_cell_new) flavor tx rx) (spsc_array_new bound)"

definition spsc_unbounded_new :: "bool list \<Rightarrow> backoff_globals \<Rightarrow> nat \<Rightarrow> rx_handle \<Rightarrow> 'a seg_queue wrapped built" where
  "spsc_unbounded_new s g memory rx =
     spsc_build (flavor_wrap (list_flavor s)) g RegDummy (RegSingle weak_cell_new) (from_inner (sg_new memory)) HTx rx"

definition spsc_unbounded_blocking :: "bool list \<Rightarrow> backoff_globals \<Rightarrow> nat \<Rightarrow> 'a seg_queue wrapped built" where
  "spsc_unbounded_blocking s g memory = spsc_unbounded_new s g memory HRx"

definition spsc_unbounded_async :: "bool list \<Rightarrow> backoff_globals \<Rightarrow> nat \<Rightarrow> 'a seg_queue wrapped built" where
  "spsc_unbounded_async s g memory = spsc_unbounded_new s g memory HAsyncRx"

definition spsc_bounded_blocking :: "backoff_globals \<Rightarrow> usize \<Rightarrow> ('a spsc_queue, 'a one_sp) array_enum built exec" where
  "spsc_bounded_blocking g bound = spsc_bounded_new g bound HTx HRx"

definition spsc_bounded_async :: "backoff_globals \<Rightarrow> usize \<Rightarrow> ('a spsc_queue, 'a one_sp) array_enum built exec" where
  "spsc_bounded_async g bound = spsc_bounded_new g bound HAsyncTx HAsyncRx"

definition spsc_bounded_blocking_async :: "backoff_globals \<Rightarrow> usize \<Rightarrow> ('a spsc_queue, 'a one_sp) array_enum built exec" where
  "spsc_bounded_blocking_async g bound = spsc_bounded_new g bound HTx HAsyncRx"

definition spsc_bounded_async_blocking :: "backoff_globals \<Rightarrow> usize \<Rightarrow> ('a spsc_queue, 'a one_sp) array_enum built exec" where
  "spsc_bounded_async_blocking g bound = spsc_bounded_new g bound HAsyncTx HRx"

section \<open>mpsc\<close>

definition mpsc_build :: "('q, 'a) flavor \<Rightarrow> backoff_globals \<Rightarrow> registry \<Rightarrow> registry \<Rightarrow> 'q \<Rightarrow> tx_handle \<Rightarrow> rx_handle \<Rightarrow> 'q built" where
  "mpsc_build F g send recv flavor tx rx = \<lparr>bu_shared = channel_new F g flavor send recv, bu_tx = tx, bu_rx = rx\<rparr>"

definition mpsc_bounded_new :: "bool list \<Rightarrow> backoff_globals \<Rightarrow> usize \<Rightarrow> tx_handle \<Rightarrow> rx_handle \<Rightarrow> ('a mpsc_queue, 'a one_mpsc) array_enum built exec" where
  "mpsc_bounded_new s g bound tx rx =
     exec_map (\<lambda>flavor. mpsc_build (mpsc_array_flavor s) g (RegMulti multi_new) (RegSingle weak_cell_new) flavor tx rx) (mpsc_array_new bound)"

definition mpsc_unbounded_new :: "bool list \<Rightarrow> backoff_globals \<Rightarrow> nat \<Rightarrow> rx_handle \<Rightarrow> 'a seg_queue wrapped built" where
  "mpsc_unbounded_new s g memory rx =
     mpsc_build (flavor_wrap (list_flavor s)) g RegDummy (RegSingle weak_cell_new) (from_inner (sg_new memory)) HMTx rx"

definition mpsc_unbounded_blocking :: "bool list \<Rightarrow> backoff_globals \<Rightarrow> nat \<Rightarrow> 'a seg_queue wrapped built" where
  "mpsc_unbounded_blocking s g memory = mpsc_unbounded_new s g memory HRx"

definition mpsc_unbounded_async :: "bool list \<Rightarrow> backoff_globals \<Rightarrow> nat \<Rightarrow> 'a seg_queue wrapped built" where
  "mpsc_unbounded_async s g memory = mpsc_unbounded_new s g memory HAsyncRx"

definition mpsc_bounded_blocking :: "bool list \<Rightarrow> backoff_globals \<Rightarrow> usize \<Rightarrow> ('a mpsc_queue, 'a one_mpsc) array_enum built exec" where
  "mpsc_bounded_blocking s g bound = mpsc_bounded_new s g bound HMTx HRx"

definition mpsc_bounded_async :: "bool list \<Rightarrow> backoff_globals \<Rightarrow> usize \<Rightarrow> ('a mpsc_queue, 'a one_mpsc) array_enum built exec" where
  "mpsc_bounded_async s g bound = mpsc_bounded_new s g bound HMAsyncTx HAsyncRx"

definition mpsc_bounded_blocking_async :: "bool list \<Rightarrow> backoff_globals \<Rightarrow> usize \<Rightarrow> ('a mpsc_queue, 'a one_mpsc) array_enum built exec" where
  "mpsc_bounded_blocking_async s g bound = mpsc_bounded_new s g bound HMTx HAsyncRx"

definition mpsc_bounded_async_blocking :: "bool list \<Rightarrow> backoff_globals \<Rightarrow> usize \<Rightarrow> ('a mpsc_queue, 'a one_mpsc) array_enum built exec" where
  "mpsc_bounded_async_blocking s g bound = mpsc_bounded_new s g bound HMAsyncTx HRx"

definition mpsc_null_new_blocking :: "backoff_globals \<Rightarrow> unit wrapped built" where
  "mpsc_null_new_blocking g = mpsc_build (flavor_wrap null_flavor) g RegDummy (RegSingle weak_cell_new) (from_inner ()) HCloseHandle HRx"

definition mpsc_null_new_async :: "backoff_globals \<Rightarrow> unit wrapped built" where
  "mpsc_null_new_async g = mpsc_build (flavor_wrap null_flavor) g RegDummy (RegSingle weak_cell_new) (from_inner ()) HCloseHandle HAsyncRx"

section \<open>mpmc\<close>

definition mpmc_build :: "('q, 'a) flavor \<Rightarrow> backoff_globals \<Rightarrow> registry \<Rightarrow> registry \<Rightarrow> 'q \<Rightarrow> tx_handle \<Rightarrow> rx_handle \<Rightarrow> 'q built" where
  "mpmc_build F g send recv flavor tx rx = \<lparr>bu_shared = channel_new F g flavor send recv, bu_tx = tx, bu_rx = rx\<rparr>"

definition mpmc_bounded_new :: "bool list \<Rightarrow> backoff_globals \<Rightarrow> usize \<Rightarrow> tx_handle \<Rightarrow> rx_handle \<Rightarrow> ('a array_queue, 'a one) array_enum built exec" where
  "mpmc_bounded_new s g bound tx rx =
     exec_map (\<lambda>flavor. mpmc_build (mpmc_array_flavor s) g (RegMulti multi_new) (RegMulti multi_new) flavor tx rx) (mpmc_array_new bound)"

definition mpmc_unbounded_new :: "bool list \<Rightarrow> backoff_globals \<Rightarrow> nat \<Rightarrow> rx_handle \<Rightarrow> 'a seg_queue wrapped built" where
  "mpmc_unbounded_new s g memory rx =
     mpmc_build (flavor_wrap (list_flavor s)) g RegDummy (RegMulti multi_new) (from_inner (sg_new memory)) HMTx rx"

definition mpmc_unbounded_blocking :: "bool list \<Rightarrow> backoff_globals \<Rightarrow> nat \<Rightarrow> 'a seg_queue wrapped built" where
  "mpmc_unbounded_blocking s g memory = mpmc_unbounded_new s g memory HMRx"

definition mpmc_unbounded_async :: "bool list \<Rightarrow> backoff_globals \<Rightarrow> nat \<Rightarrow> 'a seg_queue wrapped built" where
  "mpmc_unbounded_async s g memory = mpmc_unbounded_new s g memory HMAsyncRx"

definition mpmc_bounded_blocking :: "bool list \<Rightarrow> backoff_globals \<Rightarrow> usize \<Rightarrow> ('a array_queue, 'a one) array_enum built exec" where
  "mpmc_bounded_blocking s g bound = mpmc_bounded_new s g bound HMTx HMRx"

definition mpmc_bounded_async :: "bool list \<Rightarrow> backoff_globals \<Rightarrow> usize \<Rightarrow> ('a array_queue, 'a one) array_enum built exec" where
  "mpmc_bounded_async s g bound = mpmc_bounded_new s g bound HMAsyncTx HMAsyncRx"

definition mpmc_bounded_blocking_async :: "bool list \<Rightarrow> backoff_globals \<Rightarrow> usize \<Rightarrow> ('a array_queue, 'a one) array_enum built exec" where
  "mpmc_bounded_blocking_async s g bound = mpmc_bounded_new s g bound HMTx HMAsyncRx"

definition mpmc_bounded_async_blocking :: "bool list \<Rightarrow> backoff_globals \<Rightarrow> usize \<Rightarrow> ('a array_queue, 'a one) array_enum built exec" where
  "mpmc_bounded_async_blocking s g bound = mpmc_bounded_new s g bound HMAsyncTx HMRx"

definition mpmc_null_new_blocking :: "backoff_globals \<Rightarrow> unit wrapped built" where
  "mpmc_null_new_blocking g = mpmc_build (flavor_wrap null_flavor) g RegDummy (RegMulti multi_new) (from_inner ()) HCloseHandle HMRx"

definition mpmc_null_new_async :: "backoff_globals \<Rightarrow> unit wrapped built" where
  "mpmc_null_new_async g = mpmc_build (flavor_wrap null_flavor) g RegDummy (RegMulti multi_new) (from_inner ()) HCloseHandle HMAsyncRx"

section \<open>compat\<close>

text \<open>\<^verbatim>\<open>init_share!\<close>: every channel of the compatibility layer has full registries on both sides.\<close>

definition init_share ::
  "bool list \<Rightarrow> backoff_globals \<Rightarrow> ('a array_queue, 'a seg_queue) array_enum \<Rightarrow> tx_handle \<Rightarrow> rx_handle \<Rightarrow>
   ('a array_queue, 'a seg_queue) array_enum built" where
  "init_share s g flavor tx rx =
     \<lparr>bu_shared = channel_new (compat_flavor s) g flavor (RegMulti multi_new) (RegMulti multi_new), bu_tx = tx, bu_rx = rx\<rparr>"

definition compat_spsc_unbounded_blocking :: "bool list \<Rightarrow> backoff_globals \<Rightarrow> nat \<Rightarrow> ('a array_queue, 'a seg_queue) array_enum built" where
  "compat_spsc_unbounded_blocking s g memory = init_share s g (compat_new_list memory) HTx HRx"

definition compat_spsc_unbounded_async :: "bool list \<Rightarrow> backoff_globals \<Rightarrow> nat \<Rightarrow> ('a array_queue, 'a seg_queue) array_enum built" where
  "compat_spsc_unbounded_async s g memory = init_share s g (compat_new_list memory) HTx HAsyncRx"

definition compat_spsc_bounded_blocking :: "bool list \<Rightarrow> backoff_globals \<Rightarrow> usize \<Rightarrow> ('a array_queue, 'a seg_queue) array_enum built exec" where
  "compat_spsc_bounded_blocking s g bound = exec_map (\<lambda>flavor. init_share s g flavor HTx HRx) (compat_new_array bound)"

definition compat_spsc_bounded_async :: "bool list \<Rightarrow> backoff_globals \<Rightarrow> usize \<Rightarrow> ('a array_queue, 'a seg_queue) array_enum built exec" where
  "compat_spsc_bounded_async s g bound = exec_map (\<lambda>flavor. init_share s g flavor HAsyncTx HAsyncRx) (compat_new_array bound)"

definition compat_spsc_bounded_tx_async_rx_blocking :: "bool list \<Rightarrow> backoff_globals \<Rightarrow> usize \<Rightarrow> ('a array_queue, 'a seg_queue) array_enum built exec" where
  "compat_spsc_bounded_tx_async_rx_blocking s g bound = exec_map (\<lambda>flavor. init_share s g flavor HAsyncTx HRx) (compat_new_array bound)"

definition compat_spsc_bounded_tx_blocking_rx_async :: "bool list \<Rightarrow> backoff_globals \<Rightarrow> usize \<Rightarrow> ('a array_queue, 'a seg_queue) array_enum built exec" where
  "compat_spsc_bounded_tx_blocking_rx_async s g bound = exec_map (\<lambda>flavor. init_share s g flavor HTx HAsyncRx) (compat_new_array bound)"

definition compat_mpsc_unbounded_blocking :: "bool list \<Rightarrow> backoff_globals \<Rightarrow> nat \<Rightarrow> ('a array_queue, 'a seg_queue) array_enum built" where
  "compat_mpsc_unbounded_blocking s g memory = init_share s g (compat_new_list memory) HMTx HRx"

definition compat_mpsc_unbounded_async :: "bool list \<Rightarrow> backoff_globals \<Rightarrow> nat \<Rightarrow> ('a array_queue, 'a seg_queue) array_enum built" where
  "compat_mpsc_unbounded_async s g memory = init_share s g (compat_new_list memory) HMTx HAsyncRx"

definition compat_mpsc_bounded_blocking :: "bool list \<Rightarrow> backoff_globals \<Rightarrow> usize \<Rightarrow> ('a array_queue, 'a seg_queue) array_enum built exec" where
  "compat_mpsc_bounded_blocking s g bound = exec_map (\<lambda>flavor. init_share s g flavor HMTx HRx) (compat_new_array bound)"

definition compat_mpsc_bounded_async :: "bool list \<Rightarrow> backoff_globals \<Rightarrow> usize \<Rightarrow> ('a array_queue, 'a seg_queue) array_enum built exec" where
  "compat_mpsc_bounded_async s g bound = exec_map (\<lambda>flavor. init_share s g flavor HMAsyncTx HAsyncRx) (compat_new_array bound)"

definition compat_mpsc_bounded_tx_async_rx_blocking :: "bool list \<Rightarrow> backoff_globals \<Rightarrow> usize \<Rightarrow> ('a array_queue, 'a seg_queue) array_enum built exec" where
  "compat_mpsc_bounded_tx_async_rx_blocking s g bound = exec_map (\<lambda>flavor. init_share s g flavor HMAsyncTx HRx) (compat_new_array bound)"

definition compat_mpsc_bounded_tx_blocking_rx_async :: "bool list \<Rightarrow> backoff_globals \<Rightarrow> usize \<Rightarrow> ('a array_queue, 'a seg_queue) array_enum built exec" where
  "compat_mpsc_bounded_tx_blocking_rx_async s g bound = exec_map (\<lambda>flavor. init_share s g flavor HMTx HAsyncRx) (compat_new_array bound)"

definition compat_mpmc_unbounded_blocking :: "bool list \<Rightarrow> backoff_globals \<Rightarrow> nat \<Rightarrow> ('a array_queue, 'a seg_queue) array_enum built" where
  "compat_mpmc_unbounded_blocking s g memory = init_share s g (compat_new_list memory) HMTx HMRx"

definition compat_mpmc_unbounded_async :: "bool list \<Rightarrow> backoff_globals \<Rightarrow> nat \<Rightarrow> ('a array_queue, 'a seg_queue) array_enum built" where
  "compat_mpmc_unbounded_async s g memory = init_share s g (compat_new_list memory) HMTx HMAsyncRx"

definition compat_mpmc_bounded_blocking :: "bool list \<Rightarrow> backoff_globals \<Rightarrow> usize \<Rightarrow> ('a array_queue, 'a seg_queue) array_enum built exec" where
  "compat_mpmc_bounded_blocking s g bound = exec_map (\<lambda>flavor. init_share s g flavor HMTx HMRx) (compat_new_array bound)"

definition compat_mpmc_bounded_async :: "bool list \<Rightarrow> backoff_globals \<Rightarrow> usize \<Rightarrow> ('a array_queue, 'a seg_queue) array_enum built exec" where
  "compat_mpmc_bounded_async s g bound = exec_map (\<lambda>flavor. init_share s g flavor HMAsyncTx HMAsyncRx) (compat_new_array bound)"

definition compat_mpmc_bounded_tx_async_rx_blocking :: "bool list \<Rightarrow> backoff_globals \<Rightarrow> usize \<Rightarrow> ('a array_queue, 'a seg_queue) array_enum built exec" where
  "compat_mpmc_bounded_tx_async_rx_blocking s g bound = exec_map (\<lambda>flavor. init_share s g flavor HMAsyncTx HMRx) (compat_new_array bound)"

definition compat_mpmc_bounded_tx_blocking_rx_async :: "bool list \<Rightarrow> backoff_globals \<Rightarrow> usize \<Rightarrow> ('a array_queue, 'a seg_queue) array_enum built exec" where
  "compat_mpmc_bounded_tx_blocking_rx_async s g bound = exec_map (\<lambda>flavor. init_share s g flavor HMTx HMAsyncRx) (compat_new_array bound)"

section \<open>What they build\<close>

definition built_ok ::
  "('q, 'a) flavor \<Rightarrow> ('q \<Rightarrow> bool) \<Rightarrow> ('q \<Rightarrow> 'a list) \<Rightarrow> reg_kind \<Rightarrow> reg_kind \<Rightarrow> nat option \<Rightarrow> 'q built \<Rightarrow> bool" where
  "built_ok F iv cont ks kr cap b \<longleftrightarrow> sh_ok iv ks kr (world_init, bu_shared b, 0) \<and> cont (ch_inner (bu_shared b)) = [] \<and>
     fl_capacity F (ch_inner (bu_shared b)) = cap \<and> ch_tx_count (bu_shared b) = 1 \<and> ch_rx_count (bu_shared b) = 1"

lemma channel_new_ok:
  assumes "iv q" "cont q = []" "fl_capacity F q = cap" "unat (spin_limit (config_detect g)) \<le> 31"
    "reg_ok world_init send" "reg_ok world_init recv" "kind_of send = ks" "kind_of recv = kr"
  shows "built_ok F iv cont ks kr cap \<lparr>bu_shared = channel_new F g q send recv, bu_tx = tx, bu_rx = rx\<rparr>"
  using assms by (simp add: built_ok_def sh_ok_def channel_new_def world_ok_init)

text \<open>What a constructor promises: for a legal bound a channel and the two handles, for any other a panic.\<close>

definition builds ::
  "('q, 'a) flavor \<Rightarrow> ('q \<Rightarrow> bool) \<Rightarrow> ('q \<Rightarrow> 'a list) \<Rightarrow> reg_kind \<Rightarrow> reg_kind \<Rightarrow> nat option \<Rightarrow> bool \<Rightarrow>
   'q built exec \<times> tx_handle \<times> rx_handle \<Rightarrow> bool" where
  "builds F iv cont ks kr cap legal = (\<lambda>(m, tx, rx).
     if legal then \<exists>b. m = Done b \<and> bu_tx b = tx \<and> bu_rx b = rx \<and> built_ok F iv cont ks kr cap b else m = Fault Panic)"

lemma buildsI:
  assumes "if legal then \<exists>q. m = Done q \<and> iv q \<and> cont q = [] \<and> fl_capacity F q = cap else m = Fault Panic"
    and "unat (spin_limit (config_detect g)) \<le> 31"
    "reg_ok world_init send" "reg_ok world_init recv" "kind_of send = ks" "kind_of recv = kr"
  shows "builds F iv cont ks kr cap legal
    (exec_map (\<lambda>flavor. \<lparr>bu_shared = channel_new F g flavor send recv, bu_tx = tx, bu_rx = rx\<rparr>) m, tx, rx)"
  using assms(1) by (auto simp: builds_def split: if_splits intro!: channel_new_ok [OF _ _ _ assms(2-6)])

lemmas builds_now = buildsI [where m = "Done q" and legal = True for q, simplified]

lemma fresh_registries:
  "reg_ok w RegDummy" "reg_ok w (RegSingle weak_cell_new)" "reg_ok w (RegMulti multi_new)"
  by (simp_all add: reg_ok_def multi_new_def)

text \<open>The queue of a bounded channel, for either alternative of the enum.\<close>

lemma small_bound: "(bound :: usize) \<le> 1 \<Longrightarrow> max 1 (unat bound) = 1"
  by (simp add: word_le_nat_alt)

lemma large_bound:
  assumes "\<not> (bound :: usize) \<le> 1"
  shows "0 < bound" "bound \<noteq> 0" "bound < 2 ^ 32 \<longleftrightarrow> bound \<le> 2 ^ 32 - 1" "bound < 2 ^ 31 \<Longrightarrow> bound \<le> 2 ^ 32 - 1"
    "max 1 (unat bound) = unat bound"
  using assms by (auto simp: word_le_nat_alt word_less_nat_alt unat_gt_0)

lemma array_new_ok:
  assumes "0 < bound" "bound \<le> 2 ^ 32 - 1"
  shows "\<exists>q. array_new bound = Done q \<and> aq_capacity q = unat bound \<and> aq_inv q \<and> aq_content q = []"
proof -
  have "unat bound < 2 ^ 63" using assms(2) by (simp add: word_le_nat_alt)
  from aq_new_inv [OF assms(1) this] assms show ?thesis by (auto simp: array_new_def aq_cap_def)
qed

lemmas constructor_defs = spsc_bounded_blocking_def spsc_bounded_async_def spsc_bounded_blocking_async_def
  spsc_bounded_async_blocking_def mpsc_bounded_blocking_def mpsc_bounded_async_def mpsc_bounded_blocking_async_def
  mpsc_bounded_async_blocking_def mpmc_bounded_blocking_def mpmc_bounded_async_def mpmc_bounded_blocking_async_def
  mpmc_bounded_async_blocking_def compat_spsc_unbounded_blocking_def compat_spsc_unbounded_async_def
  compat_spsc_bounded_blocking_def compat_spsc_bounded_async_def compat_spsc_bounded_tx_async_rx_blocking_def
  compat_spsc_bounded_tx_blocking_rx_async_def spsc_unbounded_blocking_def spsc_unbounded_async_def
  spsc_bounded_new_def spsc_unbounded_new_def spsc_build_def compat_mpsc_unbounded_blocking_def
  compat_mpsc_unbounded_async_def compat_mpsc_bounded_blocking_def compat_mpsc_bounded_async_def
  compat_mpsc_bounded_tx_async_rx_blocking_def compat_mpsc_bounded_tx_blocking_rx_async_def
  mpsc_unbounded_blocking_def mpsc_unbounded_async_def mpsc_bounded_new_def mpsc_unbounded_new_def mpsc_build_def
  compat_mpmc_unbounded_blocking_def compat_mpmc_unbounded_async_def compat_mpmc_bounded_blocking_def
  compat_mpmc_bounded_async_def compat_mpmc_bounded_tx_async_rx_blocking_def
  compat_mpmc_bounded_tx_blocking_rx_async_def mpmc_unbounded_blocking_def mpmc_unbounded_async_def
  mpmc_bounded_new_def mpmc_unbounded_new_def mpmc_build_def mpsc_null_new_blocking_def mpsc_null_new_async_def
  mpmc_null_new_blocking_def mpmc_null_new_async_def init_share_def

lemma spsc_array_new_ok:
  "if (bound :: usize) < 2 ^ 31
   then \<exists>q. spsc_array_new bound = Done (q :: ('a spsc_queue, 'a one_sp) array_enum) \<and> case_array_enum sq_inv osp_inv q \<and> case_array_enum sq_content osp_content q = [] \<and>
     fl_capacity spsc_array_flavor q = Some (max 1 (unat bound))
   else spsc_array_new bound = (Fault Panic :: ('a spsc_queue, 'a one_sp) array_enum exec)"
proof (cases "bound \<le> 1")
  case True
  have "osp_inv (osp_new :: 'a one_sp)" "osp_content (osp_new :: 'a one_sp) = []" using osp_repr_inv [OF osp_new_repr] by auto
  moreover have "bound < 2 ^ 31" using True by (simp add: word_le_nat_alt word_less_nat_alt)
  ultimately show ?thesis using True small_bound [OF True]
    by (simp add: spsc_array_new_def spsc_array_flavor_def flavor_enum_def one_spsc_flavor_def osp_capacity_def)
next
  case False
  note b = large_bound [OF False]
  show ?thesis
  proof (cases "bound < 2 ^ 31")
    case True
    obtain q :: "'a spsc_queue" where q: "sq_new bound = Done q" "sq_capacity q = unat bound" "sq_inv q" "sq_content q = []"
      using sq_new_repr [OF b(1) True] sq_repr_inv by blast
    moreover have "array_spsc_new bound = Done q"
      unfolding array_spsc_new_def using b(2) b(4) [OF True] q(1) by (simp only: if_True if_False)
    ultimately have "\<exists>q. array_spsc_new bound = Done (q :: 'a spsc_queue) \<and> sq_capacity q = unat bound \<and> sq_inv q \<and> sq_content q = []"
      by blast
    then show ?thesis using True False b(5)
      by (auto simp: spsc_array_new_def spsc_array_flavor_def flavor_enum_def array_spsc_flavor_def)
  next
    case small: False
    then have "array_spsc_new bound = (Fault Panic :: 'a spsc_queue exec)" using b(2) by (simp add: array_spsc_new_def sq_new_def)
    then show ?thesis using small False by (simp add: spsc_array_new_def)
  qed
qed

lemma mpsc_array_new_ok:
  "if (bound :: usize) < 2 ^ 31
   then \<exists>q. mpsc_array_new bound = Done (q :: ('a mpsc_queue, 'a one_mpsc) array_enum) \<and> case_array_enum mq_inv om_inv q \<and> case_array_enum mq_content om_content q = [] \<and>
     fl_capacity (mpsc_array_flavor s) q = Some (max 1 (unat bound))
   else mpsc_array_new bound = (Fault Panic :: ('a mpsc_queue, 'a one_mpsc) array_enum exec)"
proof (cases "bound \<le> 1")
  case True
  have "om_inv (om_new :: 'a one_mpsc)" "om_content (om_new :: 'a one_mpsc) = []" using om_repr_inv [OF om_new_repr] by auto
  moreover have "bound < 2 ^ 31" using True by (simp add: word_le_nat_alt word_less_nat_alt)
  ultimately show ?thesis using True small_bound [OF True]
    by (simp add: mpsc_array_new_def mpsc_array_flavor_def flavor_enum_def one_mpsc_flavor_def om_capacity_def Let_def)
next
  case False
  note b = large_bound [OF False]
  show ?thesis
  proof (cases "bound < 2 ^ 31")
    case True
    obtain q :: "'a mpsc_queue" where q: "mq_new bound = Done q" "mq_capacity q = unat bound" "mq_inv q" "mq_content q = []"
      using mq_new_repr [OF b(1) True] mq_repr_inv by blast
    moreover have "array_mpsc_new bound = Done q"
      unfolding array_mpsc_new_def using b(2) b(4) [OF True] q(1) by (simp only: if_True if_False)
    ultimately have "\<exists>q. array_mpsc_new bound = Done (q :: 'a mpsc_queue) \<and> mq_capacity q = unat bound \<and> mq_inv q \<and> mq_content q = []"
      by blast
    then show ?thesis using True False b(5)
      by (auto simp: mpsc_array_new_def mpsc_array_flavor_def flavor_enum_def array_mpsc_flavor_def Let_def)
  next
    case small: False
    then have "array_mpsc_new bound = (Fault Panic :: 'a mpsc_queue exec)" using b(2) by (simp add: array_mpsc_new_def mq_new_def)
    then show ?thesis using small False by (simp add: mpsc_array_new_def)
  qed
qed

lemma mpmc_array_new_ok:
  "if (bound :: usize) < 2 ^ 32
   then \<exists>q. mpmc_array_new bound = Done (q :: ('a array_queue, 'a one) array_enum) \<and> case_array_enum aq_inv one_inv q \<and> case_array_enum aq_content one_content q = [] \<and>
     fl_capacity (mpmc_array_flavor s) q = Some (max 1 (unat bound))
   else mpmc_array_new bound = (Fault Panic :: ('a array_queue, 'a one) array_enum exec)"
proof (cases "bound \<le> 1")
  case True
  have "one_inv (one_new :: 'a one)" "one_content (one_new :: 'a one) = []" using one_repr_inv [OF one_new_repr] by auto
  moreover have "bound < 2 ^ 32" using True by (simp add: word_le_nat_alt word_less_nat_alt)
  ultimately show ?thesis using True small_bound [OF True]
    by (simp add: mpmc_array_new_def mpmc_array_flavor_def flavor_enum_def one_flavor_def one_capacity_def Let_def)
next
  case False
  note b = large_bound [OF False]
  show ?thesis
  proof (cases "bound < 2 ^ 32")
    case True
    have "\<exists>q. array_new bound = Done (q :: 'a array_queue) \<and> aq_capacity q = unat bound \<and> aq_inv q \<and> aq_content q = []"
      using array_new_ok [OF b(1)] b(3) True by blast
    then show ?thesis using True False b(5)
      by (auto simp: mpmc_array_new_def mpmc_array_flavor_def flavor_enum_def array_flavor_def Let_def)
  next
    case small: False
    then have "array_new bound = (Fault Panic :: 'a array_queue exec)" using b(3) by (simp add: array_new_def)
    then show ?thesis using small False by (simp add: mpmc_array_new_def)
  qed
qed

lemma compat_new_array_ok:
  "if (bound :: usize) < 2 ^ 32
   then \<exists>q. compat_new_array bound = Done (q :: ('a array_queue, 'a seg_queue) array_enum) \<and> case_array_enum aq_inv (\<lambda>_. False) q \<and> case_array_enum aq_content (\<lambda>_. []) q = [] \<and>
     fl_capacity (compat_flavor s) q = Some (max 1 (unat bound))
   else compat_new_array bound = (Fault Panic :: ('a array_queue, 'a seg_queue) array_enum exec)"
proof -
  define n :: usize where "n = (if bound \<le> 1 then 1 else bound)"
  have n: "0 < n" "unat n = max 1 (unat bound)" "n < 2 ^ 32 \<longleftrightarrow> bound < 2 ^ 32" "n < 2 ^ 32 \<longleftrightarrow> n \<le> 2 ^ 32 - 1"
    by (auto simp: n_def word_le_nat_alt word_less_nat_alt)
  show ?thesis
  proof (cases "bound < 2 ^ 32")
    case True
    have "\<exists>q. array_new n = Done (q :: 'a array_queue) \<and> aq_capacity q = unat n \<and> aq_inv q \<and> aq_content q = []"
      using array_new_ok [OF n(1)] n(3,4) True by blast
    then show ?thesis using True n(2)
      by (auto simp: compat_new_array_def compat_flavor_def flavor_enum_def array_flavor_def n_def [symmetric])
  next
    case False
    then have "array_new n = (Fault Panic :: 'a array_queue exec)" using n(3,4) by (simp add: array_new_def)
    then show ?thesis using False by (simp add: compat_new_array_def n_def [symmetric])
  qed
qed

section \<open>Properties\<close>

text \<open>
  C22. The constructors of the crate return well-formed channels: the forty public functions of \<^verbatim>\<open>spsc\<close>, \<^verbatim>\<open>mpsc\<close>, \<^verbatim>\<open>mpmc\<close> and the
  compatibility layer that name their handles, each with the handles it promises. For a bound below 2^31 (below 2^32 in \<^verbatim>\<open>mpmc\<close> and in the compatibility
  layer) a bounded constructor returns a channel whose queue is empty, has that capacity (one for zero) and satisfies the invariant of its flavor, whose registries are
  of the kinds the flavor needs, and which counts one sender and one receiver; for any larger bound it panics. The unbounded constructors return an empty channel without capacity,
  given the memory for its blocks, and the null constructors a channel that never holds anything.
\<close>

theorem builders_well_formed:
  assumes "unat (spin_limit (config_detect g)) \<le> 31" "memory \<le> sg_limit"
  shows "list_all (builds spsc_array_flavor (case_array_enum sq_inv osp_inv) (case_array_enum sq_content osp_content)
        KSingle KSingle (Some (max 1 (unat bound))) (bound < 2 ^ 31))
      [(spsc_bounded_blocking g bound, HTx, HRx), (spsc_bounded_async g bound, HAsyncTx, HAsyncRx),
       (spsc_bounded_blocking_async g bound, HTx, HAsyncRx), (spsc_bounded_async_blocking g bound, HAsyncTx, HRx)] \<and>
    list_all (builds (mpsc_array_flavor s) (case_array_enum mq_inv om_inv) (case_array_enum mq_content om_content)
        KMulti KSingle (Some (max 1 (unat bound))) (bound < 2 ^ 31))
      [(mpsc_bounded_blocking s g bound, HMTx, HRx), (mpsc_bounded_async s g bound, HMAsyncTx, HAsyncRx),
       (mpsc_bounded_blocking_async s g bound, HMTx, HAsyncRx), (mpsc_bounded_async_blocking s g bound, HMAsyncTx, HRx)] \<and>
    list_all (builds (mpmc_array_flavor s) (case_array_enum aq_inv one_inv) (case_array_enum aq_content one_content)
        KMulti KMulti (Some (max 1 (unat bound))) (bound < 2 ^ 32))
      [(mpmc_bounded_blocking s g bound, HMTx, HMRx), (mpmc_bounded_async s g bound, HMAsyncTx, HMAsyncRx),
       (mpmc_bounded_blocking_async s g bound, HMTx, HMAsyncRx), (mpmc_bounded_async_blocking s g bound, HMAsyncTx, HMRx)] \<and>
    list_all (builds (compat_flavor s) (case_array_enum aq_inv (\<lambda>_. False)) (case_array_enum aq_content (\<lambda>_. []))
        KMulti KMulti (Some (max 1 (unat bound))) (bound < 2 ^ 32))
      [(compat_spsc_bounded_blocking s g bound, HTx, HRx), (compat_spsc_bounded_async s g bound, HAsyncTx, HAsyncRx),
       (compat_spsc_bounded_tx_async_rx_blocking s g bound, HAsyncTx, HRx), (compat_spsc_bounded_tx_blocking_rx_async s g bound, HTx, HAsyncRx),
       (compat_mpsc_bounded_blocking s g bound, HMTx, HRx), (compat_mpsc_bounded_async s g bound, HMAsyncTx, HAsyncRx),
       (compat_mpsc_bounded_tx_async_rx_blocking s g bound, HMAsyncTx, HRx), (compat_mpsc_bounded_tx_blocking_rx_async s g bound, HMTx, HAsyncRx),
       (compat_mpmc_bounded_blocking s g bound, HMTx, HMRx), (compat_mpmc_bounded_async s g bound, HMAsyncTx, HMAsyncRx),
       (compat_mpmc_bounded_tx_async_rx_blocking s g bound, HMAsyncTx, HMRx), (compat_mpmc_bounded_tx_blocking_rx_async s g bound, HMTx, HMAsyncRx)] \<and>
    list_all (builds (flavor_wrap (list_flavor s)) (\<lambda>w. sg_inv (fw_inner w)) (\<lambda>w. sg_content (fw_inner w)) KDummy KSingle None True)
      [(Done (spsc_unbounded_blocking s g memory), HTx, HRx), (Done (spsc_unbounded_async s g memory), HTx, HAsyncRx),
       (Done (mpsc_unbounded_blocking s g memory), HMTx, HRx), (Done (mpsc_unbounded_async s g memory), HMTx, HAsyncRx)] \<and>
    list_all (builds (flavor_wrap (list_flavor s)) (\<lambda>w. sg_inv (fw_inner w)) (\<lambda>w. sg_content (fw_inner w)) KDummy KMulti None True)
      [(Done (mpmc_unbounded_blocking s g memory), HMTx, HMRx), (Done (mpmc_unbounded_async s g memory), HMTx, HMAsyncRx)] \<and>
    list_all (builds (compat_flavor s) (case_array_enum (\<lambda>_. False) sg_inv) (case_array_enum (\<lambda>_. []) sg_content) KMulti KMulti None True)
      [(Done (compat_spsc_unbounded_blocking s g memory), HTx, HRx), (Done (compat_spsc_unbounded_async s g memory), HTx, HAsyncRx),
       (Done (compat_mpsc_unbounded_blocking s g memory), HMTx, HRx), (Done (compat_mpsc_unbounded_async s g memory), HMTx, HAsyncRx),
       (Done (compat_mpmc_unbounded_blocking s g memory), HMTx, HMRx), (Done (compat_mpmc_unbounded_async s g memory), HMTx, HMAsyncRx)] \<and>
    list_all (builds (flavor_wrap null_flavor) (\<lambda>_. True) (\<lambda>_. []) KDummy KSingle None True)
      [(Done (mpsc_null_new_blocking g), HCloseHandle, HRx), (Done (mpsc_null_new_async g), HCloseHandle, HAsyncRx)] \<and>
    list_all (builds (flavor_wrap null_flavor) (\<lambda>_. True) (\<lambda>_. []) KDummy KMulti None True)
      [(Done (mpmc_null_new_blocking g), HCloseHandle, HMRx), (Done (mpmc_null_new_async g), HCloseHandle, HMAsyncRx)]"
proof -
  note R = fresh_registries [of world_init] assms(1)
  have l: "sg_inv (sg_new memory)" "sg_content (sg_new memory) = []"
    using memory_inv [OF memory_new(1) [OF assms(2)]] memory_new(2) [OF assms(2)] by simp_all
  have w: "sg_inv (fw_inner (from_inner (sg_new memory)))" "sg_content (fw_inner (from_inner (sg_new memory))) = []"
      "fl_capacity (flavor_wrap (list_flavor s)) (from_inner (sg_new memory)) = None"
      "case_array_enum (\<lambda>_. False) sg_inv (compat_new_list memory)" "case_array_enum (\<lambda>_. []) sg_content (compat_new_list memory) = []"
      "fl_capacity (compat_flavor s) (compat_new_list memory) = None" "fl_capacity (flavor_wrap null_flavor) (from_inner ()) = None"
    using l by (simp_all add: from_inner_def flavor_wrap_def list_flavor_def compat_new_list_def compat_flavor_def flavor_enum_def null_flavor_def)
  show ?thesis
    unfolding list.pred_inject simp_thms constructor_defs
    by (intro conjI buildsI builds_now w R spsc_array_new_ok mpsc_array_new_ok mpmc_array_new_ok compat_new_array_ok) simp_all
qed

theorem builders_well_formed_witness:
  "(\<exists>b. spsc_bounded_blocking backoff_globals_init 0 = Done (b :: (nat spsc_queue, nat one_sp) array_enum built) \<and>
      fl_capacity spsc_array_flavor (ch_inner (bu_shared b)) = Some 1) \<and>
    spsc_bounded_blocking backoff_globals_init (2 ^ 31) = (Fault Panic :: (nat spsc_queue, nat one_sp) array_enum built exec)"
  using builders_well_formed [where 'a = nat, OF config_detect_spin(1), THEN conjunct1, of 0 0]
    builders_well_formed [where 'a = nat, OF config_detect_spin(1), THEN conjunct1, of 0 "2 ^ 31"]
  by (auto simp: builds_def built_ok_def)

end
