(* ===== verification/Null_Channel.thy ===== *)
theory Null_Channel
  imports Dispatch Channel_Safety
begin

text \<open>
  Channels of the null flavor (\<^verbatim>\<open>src/src/null.rs\<close>): nothing is ever sent, and a receiver waits for the last \<^verbatim>\<open>CloseHandle\<close> to be dropped.
  The flavor is not a queue, since it accepts a message and forgets it; its receiving half is that of a queue that stays empty, which is all a
  receiver relies on.
\<close>

section \<open>CloseHandle\<close>

definition close_handle_clone :: "'q sys \<Rightarrow> 'q sys" where
  "close_handle_clone s = add_tx s"

definition close_handle_drop :: "'q sys \<Rightarrow> 'q sys exec" where
  "close_handle_drop s = close_tx s"

section \<open>What a receiver uses of a flavor\<close>

definition same_recv :: "('q, 'a) flavor \<Rightarrow> ('q, 'a) flavor \<Rightarrow> bool" where
  "same_recv F G \<longleftrightarrow> fl_try_recv F = fl_try_recv G \<and> fl_try_recv_final F = fl_try_recv_final G \<and> fl_backoff_limit F = fl_backoff_limit G"

lemma recv_cong:
  assumes "same_recv F G"
  shows "rx_spin F fuel b s = rx_spin G fuel b s" "rx_retry F fuel b s = rx_retry G fuel b s"
    "rx_main F fuel thread deadline k b s = rx_main G fuel thread deadline k b s"
proof -
  have e: "fl_try_recv F = fl_try_recv G" "fl_try_recv_final F = fl_try_recv_final G" using assms by (simp_all add: same_recv_def)
  show s: "rx_spin F fuel b s = rx_spin G fuel b s" for fuel b s by (induction fuel arbitrary: b s) (simp_all add: e cong: option.case_cong if_cong)
  show r: "rx_retry F fuel b s = rx_retry G fuel b s" for fuel b s by (induction fuel arbitrary: b s) (simp_all add: e cong: option.case_cong if_cong)
  show "rx_main F fuel thread deadline k b s = rx_main G fuel thread deadline k b s"
    by (induction fuel arbitrary: b s k) (simp_all add: e r rx_last_def Let_def cong: option.case_cong if_cong)
qed

lemma recv_same:
  assumes "same_recv F G"
  shows "rx_recv F fuel thread s = rx_recv G fuel thread s" "rx_try_recv F s = rx_try_recv G s"
  using assms recv_cong [OF assms]
  by (simp_all add: same_recv_def rx_recv_def recv_blocking_def rx_try_recv_def ch_try_recv_def Let_def
    cong: option.case_cong if_cong)

text \<open>The null flavor as a queue that nothing can be pushed into.\<close>

definition mute_flavor :: "(unit, unit) flavor" where
  "mute_flavor = null_flavor\<lparr>fl_try_send := (\<lambda>q x. Spin), fl_push := (\<lambda>q x. Spin), fl_is_full := (\<lambda>q. False)\<rparr>"

lemma mute_lawful: "lawful_flavor mute_flavor (\<lambda>_. True) (\<lambda>_. [])"
  by (intro lawful_flavor.intro fifo_weak.intro lawful_flavor_axioms.intro)
    (simp_all add: mute_flavor_def null_flavor_def hand_back_def has_room_def default_adjust_tx_backoff_def)

lemma null_same_recv: "same_recv (flavor_wrap null_flavor) (flavor_wrap mute_flavor)"
  by (simp add: same_recv_def flavor_wrap_def mute_flavor_def)

lemma null_no_item: "with_inner (fl_try_recv (flavor_wrap null_flavor)) s = Done (s1, r) \<Longrightarrow> r = None"
  "with_inner (fl_try_recv_final (flavor_wrap null_flavor)) s = Done (s1, r) \<Longrightarrow> r = None"
  by (auto simp: flavor_wrap_def null_flavor_def wrap_new_type_def with_inner_def)

lemma null_loops:
  "whenever (rx_spin (flavor_wrap null_flavor) fuel b s) (\<lambda>(_, _, r). r = None)"
  "whenever (rx_retry (flavor_wrap null_flavor) fuel b s) (\<lambda>(_, _, r). r = None)"
  by (induction fuel arbitrary: b s) (auto intro!: whenever_bind dest!: null_no_item split: option.splits)

lemma null_main: "whenever (rx_main (flavor_wrap null_flavor) fuel thread deadline k b s) (\<lambda>(_, r). isl r)"
proof (induction fuel arbitrary: k b s)
  case (Suc fuel)
  have last: "whenever (rx_last (flavor_wrap null_flavor) k' s') (\<lambda>(_, r). isl r)" for k' s'
    by (auto simp: rx_last_def intro!: whenever_bind dest!: null_no_item split: option.splits)
  have retry: "r = None" if "rx_retry (flavor_wrap null_flavor) fuel b' s' = Done (s1, b1, r)" for b' s' s1 b1 r
    using wheneverD [OF null_loops(2) that] by simp
  show ?case unfolding rx_main.simps
    by (auto simp: Let_def intro!: whenever_bind last Suc.IH dest!: null_no_item retry split: option.splits)
qed simp

section \<open>Properties\<close>

text \<open>
  C25. A null channel only tells that it is closed. Whatever polite other threads do, a blocking receive on it hits no panic and touches no freed waker, and when it
  returns it returns \<^verbatim>\<open>RecvError\<close>, never a message; \<^verbatim>\<open>try_recv\<close> returns at once and says \<^verbatim>\<open>Disconnected\<close> exactly when no \<^verbatim>\<open>CloseHandle\<close> is left.
\<close>

theorem null_recv_only_close:
  assumes "can_wait kr" "sys_ok (\<lambda>w. True) ks kr {Blocking thread} None s"
  shows "safe (rx_recv (flavor_wrap null_flavor) fuel thread s)
      (\<lambda>(s', r). sys_ok (\<lambda>w. True) ks kr {Blocking thread} None s' \<and> r = Inl RecvError) \<and>
    (\<exists>s'. rx_try_recv (flavor_wrap null_flavor) s = Done (s', Inl (if is_tx_closed s then TRDisconnected else TREmpty)))"
proof
  have "whenever (rx_recv (flavor_wrap null_flavor) fuel thread s) (\<lambda>(s', r). r = Inl RecvError)"
  proof -
    have "whenever (recv_blocking (flavor_wrap null_flavor) fuel thread None s) (\<lambda>(s', r). isl r)"
      by (auto simp: recv_blocking_def Let_def intro!: whenever_bind null_main dest!: null_no_item wheneverD [OF null_loops(1)] split: option.splits)
    then show ?thesis unfolding rx_recv_def
      by (intro whenever_bind) (auto dest!: wheneverD split: sum.splits recv_timeout_error.splits)
  qed
  moreover have "safe (rx_recv (flavor_wrap null_flavor) fuel thread s) (\<lambda>(s', r). sys_ok (\<lambda>w. True) ks kr {Blocking thread} None s')"
    unfolding recv_same [OF null_same_recv] by (rule lawful_flavor.rx_recv_safe [OF flavor_wrap_lawful [OF mute_lawful] assms(2,1)])
  ultimately show "safe (rx_recv (flavor_wrap null_flavor) fuel thread s)
      (\<lambda>(s', r). sys_ok (\<lambda>w. True) ks kr {Blocking thread} None s' \<and> r = Inl RecvError)"
    by (cases "rx_recv (flavor_wrap null_flavor) fuel thread s") auto
  show "\<exists>s'. rx_try_recv (flavor_wrap null_flavor) s = Done (s', Inl (if is_tx_closed s then TRDisconnected else TREmpty))"
    by (simp add: rx_try_recv_def ch_try_recv_def with_inner_def flavor_wrap_def null_flavor_def wrap_new_type_def)
qed

theorem null_recv_only_close_witness:
  "\<exists>s'. rx_try_recv (flavor_wrap null_flavor) (fresh_sys (flavor_wrap null_flavor) backoff_globals_init (from_inner ()) RegDummy
      (RegSingle weak_cell_new) 0 []) = Done (s', Inl TREmpty)"
proof -
  let ?s = "fresh_sys (flavor_wrap null_flavor) backoff_globals_init (from_inner ()) RegDummy (RegSingle weak_cell_new) 0 []"
  have "sys_ok (\<lambda>w. True) KDummy KSingle {Blocking 7} None ?s"
    using config_detect_spin(1) world_ok_init by (simp add: sys_ok_def sh_ok_def fresh_sys_def channel_new_def reg_ok_def)
  from null_recv_only_close [OF _ this] show ?thesis
    by (auto simp: can_wait_def fresh_sys_def channel_new_def is_tx_closed_def)
qed

text \<open>
  The wrapper hides the backoff limit of what it wraps: the null flavor asks for no polling at all, but a receiver of \<^verbatim>\<open>mpsc::Null\<close> or
  \<^verbatim>\<open>mpmc::Null\<close> polls up to the default limit before it sleeps.
\<close>

theorem wrapper_hides_backoff_limit:
  "fl_backoff_limit null_flavor = 0 \<and> fl_backoff_limit (flavor_wrap null_flavor) = DEFAULT_LIMIT \<and> DEFAULT_LIMIT \<noteq> 0 \<and>
   fl_backoff_limit (one_flavor s) = MAX_LIMIT \<and> fl_backoff_limit (flavor_wrap (one_flavor s)) = DEFAULT_LIMIT \<and> DEFAULT_LIMIT \<noteq> MAX_LIMIT"
  by (simp add: null_flavor_def flavor_wrap_def dispatch_backoff_limit_def one_flavor_def Let_def DEFAULT_LIMIT_def MAX_LIMIT_def)

end
