(* ===== verification/Compat_Channel.thy ===== *)
theory Compat_Channel
  imports Null_Channel Unbounded
begin

text \<open>
  The unbounded channels of the compatibility layer (\<^verbatim>\<open>src/src/compat.rs\<close>). Their flavor says \<^verbatim>\<open>IS_BOUNDED\<close> although a list has no capacity, so it is
  not a lawful flavor. But it differs from a lawful one in that flag only: a receiver does not look at it, and a sender looks at it only after an
  offer that was refused, which a list never does.
\<close>

text \<open>The list alternative with the flag as the laws want it.\<close>

definition compat_list_view :: "bool list \<Rightarrow> (('a array_queue, 'a seg_queue) array_enum, 'a) flavor" where
  "compat_list_view s = (compat_flavor s)\<lparr>fl_bounded := False\<rparr>"

lemma compat_list_view_enum: "compat_list_view s = flavor_enum False (array_flavor s) (list_flavor s)"
  by (simp add: compat_list_view_def compat_flavor_def flavor_enum_def)

interpretation compatlf: lawful_flavor "compat_list_view s" "case_array_enum (\<lambda>_. False) sg_inv" "case_array_enum (\<lambda>_. []) sg_content" for s
  unfolding compat_list_view_enum
  by (rule embeds_lawful [OF enum_embeds(2) listf.lawful_flavor_axioms]) (auto simp: list_flavor_simps split: array_enum.splits)

lemma compat_same_recv: "same_recv (compat_flavor s) (compat_list_view s)"
  by (simp add: same_recv_def compat_list_view_def)

text \<open>
  An unbounded channel of the compatibility layer works as one of \<^verbatim>\<open>mpmc\<close> does: whatever polite other threads do, no blocking receive panics or touches a
  freed waker, and a send comes back without waiting as long as the allocator has a block, failing exactly when no receiver is left.
\<close>

theorem compat_unbounded_works:
  assumes "sys_ok (case_array_enum (\<lambda>_. False) sg_inv) ks kr {Blocking thread} None s" "can_wait kr"
    and "ch_inner (sy_chan (sched s)) = EnumOther q" "sg_memory q M" "length (sg_content q) div 31 + 2 < M"
  shows "safe (rx_recv (compat_flavor script) fuel thread s)
      (\<lambda>(s', r). sys_ok (case_array_enum (\<lambda>_. False) sg_inv) ks kr {Blocking thread} None s') \<and>
    safe (rx_try_recv (compat_flavor script) s)
      (\<lambda>(s', r). sys_ok (case_array_enum (\<lambda>_. False) sg_inv) ks kr {Blocking thread} None s') \<and>
    (\<exists>s' r. tx_send (compat_flavor script) 0 thread x s = Done (s', r) \<and>
      r = (if is_rx_closed s then Inl (SendError x) else Inr ()))"
proof (intro conjI)
  show "safe (rx_recv (compat_flavor script) fuel thread s)
      (\<lambda>(s', r). sys_ok (case_array_enum (\<lambda>_. False) sg_inv) ks kr {Blocking thread} None s')"
    unfolding recv_same(1) [OF compat_same_recv] by (rule compatlf.rx_recv_safe [OF assms(1,2)])
  show "safe (rx_try_recv (compat_flavor script) s)
      (\<lambda>(s', r). sys_ok (case_array_enum (\<lambda>_. False) sg_inv) ks kr {Blocking thread} None s')"
    using compatlf.ch_try_recv_safe [OF assms(1)] by (subst recv_same(2) [OF compat_same_recv]) (simp add: rx_try_recv_def)
  show "\<exists>s' r. tx_send (compat_flavor script) 0 thread x s = Done (s', r) \<and>
      r = (if is_rx_closed s then Inl (SendError x) else Inr ())"
  proof (cases "is_rx_closed s")
    case True
    then show ?thesis by (simp add: tx_send_def)
  next
    case False
    from memory_push [OF assms(4), of script "Suc (length script)" x] assms(5) obtain q' where
      q: "sg_push (Suc (length script)) script q x = Done q'" "sg_memory q' M"
      by (cases "sg_push (Suc (length script)) script q x") auto
    define s1 where "s1 = sched s\<lparr>sy_chan := (sy_chan (sched s))\<lparr>ch_inner := EnumOther q'\<rparr>\<rparr>"
    have "sys_ok (case_array_enum (\<lambda>_. False) sg_inv) ks kr {Blocking thread} None s1"
      unfolding s1_def using sys_ok_sched [OF assms(1)] memory_inv [OF q(2)] by (intro sys_ok_inner) simp_all
    from fire_total(1) [OF sys_ok_sched [OF this]] obtain s2 where s2: "on_send (sched s1) = Done s2"
      by (auto simp: total_def)
    have "with_inner (\<lambda>q. fl_try_send (compat_flavor script) q x) (sched s) = Done (s1, True)"
      by (simp add: with_inner_def assms(3) q(1) s1_def compat_flavor_def flavor_enum_def list_flavor_simps list_try_send_def)
    with False s2 show ?thesis by (simp add: tx_send_def)
  qed
qed

end
