(* ===== verification/Traits.thy ===== *)
theory Traits
  imports Async Multiplex_Proofs
begin

text \<open>
  The traits for generic code over handles: \<^verbatim>\<open>BlockingTxTrait\<close>, \<^verbatim>\<open>BlockingRxTrait\<close>, \<^verbatim>\<open>AsyncTxTrait\<close> and \<^verbatim>\<open>AsyncRxTrait\<close>, each a record of operations, with one
  value per implementation: a handle, its shared variant and references to both, and \<^verbatim>\<open>Multiplex\<close>. The observers common to the four traits are a record
  that they extend. A locale says what generic code may expect of the observers; the handles keep it, \<^verbatim>\<open>Multiplex\<close> does not.
\<close>

section \<open>The traits\<close>

record 's chan_view =
  cv_len :: "'s \<Rightarrow> nat"
  cv_capacity :: "'s \<Rightarrow> nat option"
  cv_is_empty :: "'s \<Rightarrow> bool"
  cv_is_full :: "'s \<Rightarrow> bool"
  cv_is_disconnected :: "'s \<Rightarrow> bool exec"
  cv_get_tx_count :: "'s \<Rightarrow> usize exec"
  cv_get_rx_count :: "'s \<Rightarrow> usize exec"
  cv_get_wakers_count :: "'s \<Rightarrow> nat \<times> nat"

record ('s, 'a) blocking_tx_trait = "'s chan_view" +
  bt_send :: "nat \<Rightarrow> nat \<Rightarrow> 'a \<Rightarrow> 's \<Rightarrow> ('s \<times> ('a send_error + unit)) exec"
  bt_try_send :: "'a \<Rightarrow> 's \<Rightarrow> ('s \<times> ('a try_send_error + unit)) exec"
  bt_send_timeout :: "nat \<Rightarrow> nat \<Rightarrow> nat \<Rightarrow> 'a \<Rightarrow> nat \<Rightarrow> 's \<Rightarrow> ('s \<times> ('a send_timeout_error + unit)) exec"

record ('s, 'a) blocking_rx_trait = "'s chan_view" +
  br_recv :: "nat \<Rightarrow> nat \<Rightarrow> 's \<Rightarrow> ('s \<times> (recv_error + 'a)) exec"
  br_try_recv :: "'s \<Rightarrow> ('s \<times> (try_recv_error + 'a)) exec"
  br_recv_timeout :: "nat \<Rightarrow> nat \<Rightarrow> nat \<Rightarrow> nat \<Rightarrow> 's \<Rightarrow> ('s \<times> (recv_timeout_error + 'a)) exec"

text \<open>
  The methods of the asynchronous traits build futures; \<^verbatim>\<open>send_timeout\<close> and \<^verbatim>\<open>recv_timeout\<close> are the timer variants with the sleep of the runtime, whose
  expiry is an argument of the poll.
\<close>

record ('s, 'a) async_tx_trait = "'s chan_view" +
  at_try_send :: "'a \<Rightarrow> 's \<Rightarrow> ('s \<times> ('a try_send_error + unit)) exec"
  at_send :: "'a \<Rightarrow> 'a send_future"
  at_send_timeout :: "'a \<Rightarrow> 'a send_future"
  at_send_with_timer :: "'a \<Rightarrow> 'a send_future"

record ('s, 'a) async_rx_trait = "'s chan_view" +
  ar_recv :: recv_future
  ar_recv_timeout :: recv_future
  ar_recv_with_timer :: recv_future
  ar_try_recv :: "'s \<Rightarrow> ('s \<times> (try_recv_error + 'a)) exec"

text \<open>\<^verbatim>\<open>AsyncTx::send_timeout\<close> and \<^verbatim>\<open>AsyncRx::recv_timeout\<close>: the timer is a sleep of the runtime.\<close>

definition atx_send_timeout :: "'a \<Rightarrow> 'a send_future" where
  "atx_send_timeout item = atx_send_with_timer item"

definition arx_recv_timeout :: recv_future where
  "arx_recv_timeout = arx_recv_with_timer"

section \<open>Their implementations\<close>

definition tx_trait :: "('q, 'a) flavor \<Rightarrow> ('q sys, 'a) blocking_tx_trait" where
  "tx_trait F =
     \<lparr>cv_len = ch_len F, cv_capacity = ch_capacity F, cv_is_empty = ch_is_empty F, cv_is_full = ch_is_full F,
      cv_is_disconnected = (\<lambda>s. Done (get_rx_count s = 0)), cv_get_tx_count = (\<lambda>s. Done (get_tx_count s)),
      cv_get_rx_count = (\<lambda>s. Done (get_rx_count s)), cv_get_wakers_count = get_wakers_count,
      bt_send = tx_send F, bt_try_send = tx_try_send F, bt_send_timeout = tx_send_timeout F\<rparr>"

definition tx_ref_trait :: "('q, 'a) flavor \<Rightarrow> ('q sys, 'a) blocking_tx_trait" where
  "tx_ref_trait F =
     \<lparr>cv_len = ch_len F, cv_capacity = ch_capacity F, cv_is_empty = ch_is_empty F, cv_is_full = ch_is_full F,
      cv_is_disconnected = (\<lambda>s. Done (get_rx_count s = 0)), cv_get_tx_count = (\<lambda>s. Done (get_tx_count s)),
      cv_get_rx_count = (\<lambda>s. Done (get_rx_count s)), cv_get_wakers_count = get_wakers_count,
      bt_send = tx_send F, bt_try_send = tx_try_send F, bt_send_timeout = tx_send_timeout F\<rparr>"

definition mtx_trait :: "('q, 'a) flavor \<Rightarrow> ('q sys, 'a) blocking_tx_trait" where
  "mtx_trait F =
     \<lparr>cv_len = ch_len F, cv_capacity = ch_capacity F, cv_is_empty = ch_is_empty F, cv_is_full = ch_is_full F,
      cv_is_disconnected = (\<lambda>s. Done (get_rx_count s = 0)), cv_get_tx_count = (\<lambda>s. Done (get_tx_count s)),
      cv_get_rx_count = (\<lambda>s. Done (get_rx_count s)), cv_get_wakers_count = get_wakers_count,
      bt_send = tx_send F, bt_try_send = tx_try_send F, bt_send_timeout = tx_send_timeout F\<rparr>"

definition mtx_ref_trait :: "('q, 'a) flavor \<Rightarrow> ('q sys, 'a) blocking_tx_trait" where
  "mtx_ref_trait F =
     \<lparr>cv_len = ch_len F, cv_capacity = ch_capacity F, cv_is_empty = ch_is_empty F, cv_is_full = ch_is_full F,
      cv_is_disconnected = (\<lambda>s. Done (get_rx_count s = 0)), cv_get_tx_count = (\<lambda>s. Done (get_tx_count s)),
      cv_get_rx_count = (\<lambda>s. Done (get_rx_count s)), cv_get_wakers_count = get_wakers_count,
      bt_send = tx_send F, bt_try_send = tx_try_send F, bt_send_timeout = tx_send_timeout F\<rparr>"

definition rx_trait :: "('q, 'a) flavor \<Rightarrow> ('q sys, 'a) blocking_rx_trait" where
  "rx_trait F =
     \<lparr>cv_len = ch_len F, cv_capacity = ch_capacity F, cv_is_empty = ch_is_empty F, cv_is_full = ch_is_full F,
      cv_is_disconnected = (\<lambda>s. Done (is_tx_closed s)), cv_get_tx_count = (\<lambda>s. Done (get_tx_count s)),
      cv_get_rx_count = (\<lambda>s. Done (get_rx_count s)), cv_get_wakers_count = get_wakers_count,
      br_recv = rx_recv F, br_try_recv = rx_try_recv F, br_recv_timeout = rx_recv_timeout F\<rparr>"

definition rx_ref_trait :: "('q, 'a) flavor \<Rightarrow> ('q sys, 'a) blocking_rx_trait" where
  "rx_ref_trait F =
     \<lparr>cv_len = ch_len F, cv_capacity = ch_capacity F, cv_is_empty = ch_is_empty F, cv_is_full = ch_is_full F,
      cv_is_disconnected = (\<lambda>s. Done (is_tx_closed s)), cv_get_tx_count = (\<lambda>s. Done (get_tx_count s)),
      cv_get_rx_count = (\<lambda>s. Done (get_rx_count s)), cv_get_wakers_count = get_wakers_count,
      br_recv = rx_recv F, br_try_recv = rx_try_recv F, br_recv_timeout = rx_recv_timeout F\<rparr>"

definition mrx_trait :: "('q, 'a) flavor \<Rightarrow> ('q sys, 'a) blocking_rx_trait" where
  "mrx_trait F =
     \<lparr>cv_len = ch_len F, cv_capacity = ch_capacity F, cv_is_empty = ch_is_empty F, cv_is_full = ch_is_full F,
      cv_is_disconnected = (\<lambda>s. Done (is_tx_closed s)), cv_get_tx_count = (\<lambda>s. Done (get_tx_count s)),
      cv_get_rx_count = (\<lambda>s. Done (get_rx_count s)), cv_get_wakers_count = get_wakers_count,
      br_recv = rx_recv F, br_try_recv = rx_try_recv F, br_recv_timeout = rx_recv_timeout F\<rparr>"

definition mrx_ref_trait :: "('q, 'a) flavor \<Rightarrow> ('q sys, 'a) blocking_rx_trait" where
  "mrx_ref_trait F =
     \<lparr>cv_len = ch_len F, cv_capacity = ch_capacity F, cv_is_empty = ch_is_empty F, cv_is_full = ch_is_full F,
      cv_is_disconnected = (\<lambda>s. Done (is_tx_closed s)), cv_get_tx_count = (\<lambda>s. Done (get_tx_count s)),
      cv_get_rx_count = (\<lambda>s. Done (get_rx_count s)), cv_get_wakers_count = get_wakers_count,
      br_recv = rx_recv F, br_try_recv = rx_try_recv F, br_recv_timeout = rx_recv_timeout F\<rparr>"

definition atx_trait :: "('q, 'a) flavor \<Rightarrow> ('q sys, 'a) async_tx_trait" where
  "atx_trait F =
     \<lparr>cv_len = ch_len F, cv_capacity = ch_capacity F, cv_is_empty = ch_is_empty F, cv_is_full = ch_is_full F,
      cv_is_disconnected = (\<lambda>s. Done (get_rx_count s = 0)), cv_get_tx_count = (\<lambda>s. Done (get_tx_count s)),
      cv_get_rx_count = (\<lambda>s. Done (get_rx_count s)), cv_get_wakers_count = get_wakers_count,
      at_try_send = atx_try_send F, at_send = atx_send, at_send_timeout = atx_send_timeout, at_send_with_timer = atx_send_with_timer\<rparr>"

definition atx_ref_trait :: "('q, 'a) flavor \<Rightarrow> ('q sys, 'a) async_tx_trait" where
  "atx_ref_trait F =
     \<lparr>cv_len = ch_len F, cv_capacity = ch_capacity F, cv_is_empty = ch_is_empty F, cv_is_full = ch_is_full F,
      cv_is_disconnected = (\<lambda>s. Done (get_rx_count s = 0)), cv_get_tx_count = (\<lambda>s. Done (get_tx_count s)),
      cv_get_rx_count = (\<lambda>s. Done (get_rx_count s)), cv_get_wakers_count = get_wakers_count,
      at_try_send = atx_try_send F, at_send = atx_send, at_send_timeout = atx_send_timeout, at_send_with_timer = atx_send_with_timer\<rparr>"

definition matx_trait :: "('q, 'a) flavor \<Rightarrow> ('q sys, 'a) async_tx_trait" where
  "matx_trait F =
     \<lparr>cv_len = ch_len F, cv_capacity = ch_capacity F, cv_is_empty = ch_is_empty F, cv_is_full = ch_is_full F,
      cv_is_disconnected = (\<lambda>s. Done (get_rx_count s = 0)), cv_get_tx_count = (\<lambda>s. Done (get_tx_count s)),
      cv_get_rx_count = (\<lambda>s. Done (get_rx_count s)), cv_get_wakers_count = get_wakers_count,
      at_try_send = atx_try_send F, at_send = atx_send, at_send_timeout = atx_send_timeout, at_send_with_timer = atx_send_with_timer\<rparr>"

definition matx_ref_trait :: "('q, 'a) flavor \<Rightarrow> ('q sys, 'a) async_tx_trait" where
  "matx_ref_trait F =
     \<lparr>cv_len = ch_len F, cv_capacity = ch_capacity F, cv_is_empty = ch_is_empty F, cv_is_full = ch_is_full F,
      cv_is_disconnected = (\<lambda>s. Done (get_rx_count s = 0)), cv_get_tx_count = (\<lambda>s. Done (get_tx_count s)),
      cv_get_rx_count = (\<lambda>s. Done (get_rx_count s)), cv_get_wakers_count = get_wakers_count,
      at_try_send = atx_try_send F, at_send = atx_send, at_send_timeout = atx_send_timeout, at_send_with_timer = atx_send_with_timer\<rparr>"

definition arx_trait :: "('q, 'a) flavor \<Rightarrow> ('q sys, 'a) async_rx_trait" where
  "arx_trait F =
     \<lparr>cv_len = ch_len F, cv_capacity = ch_capacity F, cv_is_empty = ch_is_empty F, cv_is_full = ch_is_full F,
      cv_is_disconnected = (\<lambda>s. Done (get_tx_count s = 0)), cv_get_tx_count = (\<lambda>s. Done (get_tx_count s)),
      cv_get_rx_count = (\<lambda>s. Done (get_rx_count s)), cv_get_wakers_count = get_wakers_count,
      ar_recv = arx_recv, ar_recv_timeout = arx_recv_timeout, ar_recv_with_timer = arx_recv_with_timer, ar_try_recv = arx_try_recv F\<rparr>"

definition arx_ref_trait :: "('q, 'a) flavor \<Rightarrow> ('q sys, 'a) async_rx_trait" where
  "arx_ref_trait F =
     \<lparr>cv_len = ch_len F, cv_capacity = ch_capacity F, cv_is_empty = ch_is_empty F, cv_is_full = ch_is_full F,
      cv_is_disconnected = (\<lambda>s. Done (get_tx_count s = 0)), cv_get_tx_count = (\<lambda>s. Done (get_tx_count s)),
      cv_get_rx_count = (\<lambda>s. Done (get_rx_count s)), cv_get_wakers_count = get_wakers_count,
      ar_recv = arx_recv, ar_recv_timeout = arx_recv_timeout, ar_recv_with_timer = arx_recv_with_timer, ar_try_recv = arx_try_recv F\<rparr>"

definition marx_trait :: "('q, 'a) flavor \<Rightarrow> ('q sys, 'a) async_rx_trait" where
  "marx_trait F =
     \<lparr>cv_len = ch_len F, cv_capacity = ch_capacity F, cv_is_empty = ch_is_empty F, cv_is_full = ch_is_full F,
      cv_is_disconnected = (\<lambda>s. Done (get_tx_count s = 0)), cv_get_tx_count = (\<lambda>s. Done (get_tx_count s)),
      cv_get_rx_count = (\<lambda>s. Done (get_rx_count s)), cv_get_wakers_count = get_wakers_count,
      ar_recv = arx_recv, ar_recv_timeout = arx_recv_timeout, ar_recv_with_timer = arx_recv_with_timer, ar_try_recv = arx_try_recv F\<rparr>"

definition marx_ref_trait :: "('q, 'a) flavor \<Rightarrow> ('q sys, 'a) async_rx_trait" where
  "marx_ref_trait F =
     \<lparr>cv_len = ch_len F, cv_capacity = ch_capacity F, cv_is_empty = ch_is_empty F, cv_is_full = ch_is_full F,
      cv_is_disconnected = (\<lambda>s. Done (get_tx_count s = 0)), cv_get_tx_count = (\<lambda>s. Done (get_tx_count s)),
      cv_get_rx_count = (\<lambda>s. Done (get_rx_count s)), cv_get_wakers_count = get_wakers_count,
      ar_recv = arx_recv, ar_recv_timeout = arx_recv_timeout, ar_recv_with_timer = arx_recv_with_timer, ar_try_recv = arx_try_recv F\<rparr>"

definition multiplex_trait :: "('q, 'a) flavor \<Rightarrow> backoff_globals \<Rightarrow> ('q chans \<times> multiplex, 'a) blocking_rx_trait" where
  "multiplex_trait F g =
     \<lparr>cv_len = (\<lambda>_. 0), cv_capacity = (\<lambda>_. None), cv_is_empty = mp_is_empty F, cv_is_full = (\<lambda>_. False),
      cv_is_disconnected = mp_is_disconnected, cv_get_tx_count = mp_get_tx_count,
      cv_get_rx_count = (\<lambda>_. Done 1), cv_get_wakers_count = (\<lambda>_. (0, 0)),
      br_recv = mp_recv F g, br_try_recv = mp_try_recv F, br_recv_timeout = mp_recv_timeout F g\<rparr>"

definition multiplex_ref_trait :: "('q, 'a) flavor \<Rightarrow> backoff_globals \<Rightarrow> ('q chans \<times> multiplex, 'a) blocking_rx_trait" where
  "multiplex_ref_trait F g =
     \<lparr>cv_len = (\<lambda>_. 0), cv_capacity = (\<lambda>_. None), cv_is_empty = mp_is_empty F, cv_is_full = (\<lambda>_. False),
      cv_is_disconnected = mp_is_disconnected, cv_get_tx_count = mp_get_tx_count,
      cv_get_rx_count = (\<lambda>_. Done 1), cv_get_wakers_count = (\<lambda>_. (0, 0)),
      br_recv = mp_recv F g, br_try_recv = mp_try_recv F, br_recv_timeout = mp_recv_timeout F g\<rparr>"

section \<open>What generic code may expect of the observers\<close>

locale consistent_view =
  fixes V :: "('s, 'more) chan_view_scheme" and ok :: "'s \<Rightarrow> bool" and msgs :: "'s \<Rightarrow> 'a list"
  assumes len_msgs: "ok s \<Longrightarrow> cv_len V s = length (msgs s)"
    and empty_msgs: "ok s \<Longrightarrow> cv_is_empty V s = (msgs s = [])"
    and full_msgs: "ok s \<Longrightarrow> cv_is_full V s = (case cv_capacity V s of None \<Rightarrow> False | Some n \<Rightarrow> n \<le> length (msgs s))"
begin

lemma empty_iff_len: "ok s \<Longrightarrow> cv_is_empty V s \<longleftrightarrow> cv_len V s = 0"
  by (simp add: len_msgs empty_msgs)

lemma full_iff_len: "ok s \<Longrightarrow> cv_is_full V s \<longleftrightarrow> (\<exists>n. cv_capacity V s = Some n \<and> n \<le> cv_len V s)"
  by (auto simp: len_msgs full_msgs split: option.splits)

lemma unbounded_never_full: "ok s \<Longrightarrow> cv_capacity V s = None \<Longrightarrow> \<not> cv_is_full V s"
  by (simp add: full_msgs)

end

lemma shared_view:
  assumes "lawful_flavor F iv cont" "cv_len V = ch_len F" "cv_capacity V = ch_capacity F" "cv_is_empty V = ch_is_empty F" "cv_is_full V = ch_is_full F"
  shows "consistent_view V (\<lambda>s. iv (ch_inner (sy_chan s))) (\<lambda>s. cont (ch_inner (sy_chan s)))"
proof -
  note w = lawful_flavor.axioms(1) [OF assms(1)]
  show ?thesis using assms(2-5)
    by unfold_locales (auto simp: ch_len_def ch_capacity_def ch_is_empty_def ch_is_full_def fifo_weak.len_content [OF w]
      fifo_weak.is_empty_content [OF w] fifo_weak.is_full_content [OF w] has_room_def split: option.splits)
qed

interpretation mtx_view: consistent_view "mtx_trait (array_flavor s)" "\<lambda>s. aq_inv (ch_inner (sy_chan s))" "\<lambda>s. aq_content (ch_inner (sy_chan s))" for s
  by (rule shared_view [OF arrf.lawful_flavor_axioms]) (simp_all add: mtx_trait_def)

interpretation mrx_view: consistent_view "mrx_trait (array_flavor s)" "\<lambda>s. aq_inv (ch_inner (sy_chan s))" "\<lambda>s. aq_content (ch_inner (sy_chan s))" for s
  by (rule shared_view [OF arrf.lawful_flavor_axioms]) (simp_all add: mrx_trait_def)

interpretation rx_view: consistent_view "rx_trait one_spsc_flavor" "\<lambda>s. osp_inv (ch_inner (sy_chan s))" "\<lambda>s. osp_content (ch_inner (sy_chan s))"
  by (rule shared_view [OF ospf.lawful_flavor_axioms]) (simp_all add: rx_trait_def)

interpretation arx_view: consistent_view "arx_trait (array_mpsc_flavor s)" "\<lambda>s. mq_inv (ch_inner (sy_chan s))" "\<lambda>s. mq_content (ch_inner (sy_chan s))" for s
  by (rule shared_view [OF mpscf.lawful_flavor_axioms]) (simp_all add: arx_trait_def)

section \<open>Properties\<close>

text \<open>
  The observers of the four handle traits agree with each other and with the queue. Through any of the sixteen implementations, and whatever the lawful flavor of the
  channel, \<^verbatim>\<open>len\<close> is the number of messages, \<^verbatim>\<open>is_empty\<close> holds exactly when it is zero, \<^verbatim>\<open>is_full\<close> exactly when there is a capacity and \<^verbatim>\<open>len\<close> has reached it.
\<close>

theorem trait_views_consistent:
  assumes "lawful_flavor F iv cont" "iv (ch_inner (sy_chan s))"
    "V \<in> {chan_view.truncate (tx_trait F), chan_view.truncate (tx_ref_trait F), chan_view.truncate (mtx_trait F), chan_view.truncate (mtx_ref_trait F),
      chan_view.truncate (rx_trait F), chan_view.truncate (rx_ref_trait F), chan_view.truncate (mrx_trait F), chan_view.truncate (mrx_ref_trait F),
      chan_view.truncate (atx_trait F), chan_view.truncate (atx_ref_trait F), chan_view.truncate (matx_trait F), chan_view.truncate (matx_ref_trait F),
      chan_view.truncate (arx_trait F), chan_view.truncate (arx_ref_trait F), chan_view.truncate (marx_trait F), chan_view.truncate (marx_ref_trait F)}"
  shows "cv_len V s = length (cont (ch_inner (sy_chan s))) \<and> (cv_is_empty V s \<longleftrightarrow> cv_len V s = 0) \<and>
    (cv_is_full V s \<longleftrightarrow> (\<exists>n. cv_capacity V s = Some n \<and> n \<le> cv_len V s))"
proof -
  have "cv_len V = ch_len F" "cv_capacity V = ch_capacity F" "cv_is_empty V = ch_is_empty F" "cv_is_full V = ch_is_full F"
    using assms(3) by (auto simp: chan_view.defs tx_trait_def tx_ref_trait_def mtx_trait_def mtx_ref_trait_def
      rx_trait_def rx_ref_trait_def mrx_trait_def mrx_ref_trait_def atx_trait_def atx_ref_trait_def matx_trait_def matx_ref_trait_def
      arx_trait_def arx_ref_trait_def marx_trait_def marx_ref_trait_def)
  note v = shared_view [OF assms(1) this]
  from consistent_view.len_msgs [OF v assms(2)] consistent_view.empty_iff_len [OF v assms(2)] consistent_view.full_iff_len [OF v assms(2)]
  show ?thesis by simp
qed

theorem trait_views_consistent_witness:
  "cv_is_empty (chan_view.truncate (mrx_trait one_spsc_flavor))
     (fresh_sys one_spsc_flavor backoff_globals_init (osp_new :: nat one_sp) RegDummy (RegMulti multi_new) 0 [])"
proof -
  let ?s = "fresh_sys one_spsc_flavor backoff_globals_init (osp_new :: nat one_sp) RegDummy (RegMulti multi_new) 0 []"
  have n: "osp_inv (ch_inner (sy_chan ?s))" "osp_content (ch_inner (sy_chan ?s)) = []"
    using osp_repr_inv [OF osp_new_repr] by (auto simp: fresh_sys_def channel_new_def)
  show ?thesis using trait_views_consistent [OF ospf.lawful_flavor_axioms n(1), of "chan_view.truncate (mrx_trait one_spsc_flavor)"] n(2) by simp
qed

text \<open>A \<^verbatim>\<open>Multiplex\<close> answers \<^verbatim>\<open>len() = 0\<close> while it is not empty and \<^verbatim>\<open>try_recv\<close> yields a message.\<close>

theorem multiplex_len_is_zero:
  "\<exists>q s m. osp_try_push osp_new (7 :: nat) = Done (q, True) \<and> mp_pair one_spsc_flavor osp_new q 3 = Done (s, m) \<and>
    cv_len (multiplex_trait one_spsc_flavor g) (s, m) = 0 \<and> \<not> cv_is_empty (multiplex_trait one_spsc_flavor g) (s, m)"
proof -
  have n: "osp_inv (osp_new :: nat one_sp)" "osp_content (osp_new :: nat one_sp) = []"
    using osp_repr_inv [OF osp_new_repr] by auto
  then obtain q where q: "osp_try_push osp_new (7 :: nat) = Done (q, True)" "osp_inv q" "osp_content q = [7]"
    using ospi.push_step [OF n(1), of 7] by (auto simp: has_room_def osp_capacity_def)
  from mp_pair_ok [of osp_inv osp_new q 3 one_spsc_flavor osp_content, OF n(1) q(2)] n(2) q(3) obtain s m where
    s: "mp_pair one_spsc_flavor osp_new q 3 = Done (s, m)" "mp_weights m = [2, 2]" "length (cs_chans s) = 2" "contents osp_content s = [[], [7]]"
      "cs_ok osp_inv s" by auto
  have "osp_content (ch_inner (cs_chans s ! 1)) = [7]" using s(3,4) by (metis contents_def nth_Cons_0 nth_Cons_Suc nth_map One_nat_def lessI numeral_2_eq_2)
  moreover have "osp_inv (ch_inner (cs_chans s ! 1))" using cs_ok_at [OF s(5), of 1] s(3) by (simp add: ch_fine_def)
  ultimately have "\<not> ch_is_empty one_spsc_flavor (cs_one 1 s)"
    by (simp add: ch_is_empty_def cs_one_def one_spsc_flavor_simps ospi.is_empty_content)
  then show ?thesis using q(1) s(1,2) by (auto simp: multiplex_trait_def mp_is_empty_def)
qed

end
