(* ===== verification/Handles.thy ===== *)
theory Handles
  imports Builders Null_Channel Async
begin

text \<open>
  The life of the handles of one channel: clones, the conversions between blocking and asynchronous handles and from shared to exclusive ones, weak senders and
  drops (\<^verbatim>\<open>blocking_tx.rs\<close>, \<^verbatim>\<open>blocking_rx.rs\<close>, \<^verbatim>\<open>async_tx.rs\<close>, \<^verbatim>\<open>async_rx.rs\<close>, \<^verbatim>\<open>weak.rs\<close>, \<^verbatim>\<open>null.rs\<close> under \<^verbatim>\<open>src/src/\<close>).

  The state is the channel and the handles that are alive. A conversion that counts the new handle runs in two steps, the count of the new handle and the drop of the
  old one, and an upgrade of a weak sender in as many as it makes accesses to the count, the load and each round of its compare-exchange loop; a sequence of steps may put
  anything between them: this is how the threads interleave here. \<open>Use f\<close> is whatever else a thread does with the channel.
  A step the type system excludes (a clone of an exclusive handle, a conversion that is not implemented, a handle that does not exist) changes nothing.
\<close>

section \<open>Conversions\<close>

definition mtx_from_async :: "'q sys \<Rightarrow> 'q sys exec" where
  "mtx_from_async s = close_tx (sched (add_tx s))"

definition mrx_from_async :: "'q sys \<Rightarrow> 'q sys exec" where
  "mrx_from_async s = close_rx (sched (add_rx s))"

text \<open>The conversions that count a new handle, and those that move the inner one out of its wrapper.\<close>

fun tx_converts :: "tx_handle \<Rightarrow> tx_handle \<Rightarrow> bool" where
  "tx_converts HTx HAsyncTx = True"
| "tx_converts HAsyncTx HTx = True"
| "tx_converts HMTx HMAsyncTx = True"
| "tx_converts HMAsyncTx HMTx = True"
| "tx_converts _ _ = False"

fun rx_converts :: "rx_handle \<Rightarrow> rx_handle \<Rightarrow> bool" where
  "rx_converts HRx HAsyncRx = True"
| "rx_converts HAsyncRx HRx = True"
| "rx_converts HMRx HMAsyncRx = True"
| "rx_converts HMAsyncRx HMRx = True"
| "rx_converts _ _ = False"

fun tx_moves :: "tx_handle \<Rightarrow> tx_handle \<Rightarrow> bool" where
  "tx_moves HMTx HTx = True"
| "tx_moves HMAsyncTx HAsyncTx = True"
| "tx_moves _ _ = False"

fun rx_moves :: "rx_handle \<Rightarrow> rx_handle \<Rightarrow> bool" where
  "rx_moves HMRx HRx = True"
| "rx_moves HMAsyncRx HAsyncRx = True"
| "rx_moves _ _ = False"

text \<open>\<^verbatim>\<open>Clone\<close> where the type has it, and \<^verbatim>\<open>Drop\<close>.\<close>

fun tx_clone :: "tx_handle \<Rightarrow> ('q sys \<Rightarrow> 'q sys) option" where
  "tx_clone HMTx = Some mtx_clone"
| "tx_clone HMAsyncTx = Some matx_clone"
| "tx_clone HCloseHandle = Some close_handle_clone"
| "tx_clone _ = None"

fun rx_clone :: "rx_handle \<Rightarrow> ('q sys \<Rightarrow> 'q sys) option" where
  "rx_clone HMRx = Some mrx_clone"
| "rx_clone HMAsyncRx = Some marx_clone"
| "rx_clone _ = None"

fun tx_handle_drop :: "tx_handle \<Rightarrow> 'q sys \<Rightarrow> 'q sys exec" where
  "tx_handle_drop HTx s = tx_drop s"
| "tx_handle_drop HMTx s = tx_drop s"
| "tx_handle_drop HAsyncTx s = atx_drop s"
| "tx_handle_drop HMAsyncTx s = atx_drop s"
| "tx_handle_drop HCloseHandle s = close_handle_drop s"

fun rx_handle_drop :: "rx_handle \<Rightarrow> 'q sys \<Rightarrow> 'q sys exec" where
  "rx_handle_drop HRx s = rx_drop s"
| "rx_handle_drop HMRx s = rx_drop s"
| "rx_handle_drop HAsyncRx s = arx_drop s"
| "rx_handle_drop HMAsyncRx s = arx_drop s"

text \<open>\<^verbatim>\<open>downgrade\<close> exists on the senders that can be cloned, and counts nothing.\<close>

fun can_downgrade :: "tx_handle \<Rightarrow> bool" where
  "can_downgrade HMTx = True"
| "can_downgrade HMAsyncTx = True"
| "can_downgrade _ = False"

section \<open>The handles of a channel\<close>

text \<open>\<open>en_up\<close>: the counts that the upgrades under way have seen last.\<close>

record 'q ends =
  en_sys :: "'q sys"
  en_tx :: "tx_handle list"
  en_rx :: "rx_handle list"
  en_weak :: nat
  en_up :: "usize list"

datatype 'q handle_op =
    CloneTx nat | ConvertTx nat tx_handle | MoveTx nat tx_handle | DropTx nat
  | Downgrade nat | UpgradeLoad | UpgradeCas nat tx_handle | DropWeak
  | CloneRx nat | ConvertRx nat rx_handle | MoveRx nat rx_handle | DropRx nat
  | Use "'q shared_state \<Rightarrow> 'q shared_state"

definition ends_new :: "'q built \<Rightarrow> 'q ends" where
  "ends_new b = \<lparr>en_sys = \<lparr>sy_world = world_init, sy_chan = bu_shared b, sy_now = 0, sy_env = []\<rparr>,
     en_tx = [bu_tx b], en_rx = [bu_rx b], en_weak = 0, en_up = []\<rparr>"

fun drop_at :: "nat \<Rightarrow> 'b list \<Rightarrow> 'b list" where
  "drop_at i xs = take i xs @ List.drop (Suc i) xs"

definition use_channel :: "('q shared_state \<Rightarrow> 'q shared_state) \<Rightarrow> 'q sys \<Rightarrow> 'q sys" where
  "use_channel f s = (case f (sy_world s, sy_chan s, sy_now s) of (w, c, t) \<Rightarrow> s\<lparr>sy_world := w, sy_chan := c, sy_now := t\<rparr>)"

fun hstep :: "'q ends \<Rightarrow> 'q handle_op \<Rightarrow> 'q ends exec" where
  "hstep e (CloneTx i) =
     (if i < length (en_tx e)
      then case tx_clone (en_tx e ! i) of
             None \<Rightarrow> Done e
           | Some clone \<Rightarrow> Done (e\<lparr>en_sys := clone (en_sys e), en_tx := en_tx e @ [en_tx e ! i]\<rparr>)
      else Done e)"
| "hstep e (ConvertTx i k) =
     (if i < length (en_tx e) \<and> tx_converts (en_tx e ! i) k
      then Done (e\<lparr>en_sys := add_tx (en_sys e), en_tx := en_tx e @ [k]\<rparr>)
      else Done e)"
| "hstep e (MoveTx i k) =
     (if i < length (en_tx e) \<and> tx_moves (en_tx e ! i) k then Done (e\<lparr>en_tx := (en_tx e)[i := k]\<rparr>) else Done e)"
| "hstep e (DropTx i) =
     (if i < length (en_tx e)
      then exec_map (\<lambda>s. e\<lparr>en_sys := s, en_tx := drop_at i (en_tx e)\<rparr>) (tx_handle_drop (en_tx e ! i) (en_sys e))
      else Done e)"
| "hstep e (Downgrade i) =
     (if i < length (en_tx e) \<and> can_downgrade (en_tx e ! i) then Done (e\<lparr>en_weak := en_weak e + 1\<rparr>) else Done e)"
| "hstep e UpgradeLoad =
     (if 0 < en_weak e then Done (e\<lparr>en_up := en_up e @ [ch_tx_count (sy_chan (en_sys e))]\<rparr>) else Done e)"
| "hstep e (UpgradeCas j k) =
     (if j < length (en_up e)
      then let count = en_up e ! j; s = en_sys e in
        if count = 0 then Done (e\<lparr>en_up := drop_at j (en_up e)\<rparr>)
        else (case cas count (count + 1) (ch_tx_count (sy_chan s)) of
            (n, Inr _) \<Rightarrow> Done (e\<lparr>en_sys := s\<lparr>sy_chan := (sy_chan s)\<lparr>ch_tx_count := n\<rparr>\<rparr>, en_tx := en_tx e @ [k],
              en_up := drop_at j (en_up e)\<rparr>)
          | (_, Inl n) \<Rightarrow> Done (e\<lparr>en_up := (en_up e)[j := n]\<rparr>))
      else Done e)"
| "hstep e DropWeak = Done (e\<lparr>en_weak := en_weak e - 1\<rparr>)"
| "hstep e (CloneRx i) =
     (if i < length (en_rx e)
      then case rx_clone (en_rx e ! i) of
             None \<Rightarrow> Done e
           | Some clone \<Rightarrow> Done (e\<lparr>en_sys := clone (en_sys e), en_rx := en_rx e @ [en_rx e ! i]\<rparr>)
      else Done e)"
| "hstep e (ConvertRx i k) =
     (if i < length (en_rx e) \<and> rx_converts (en_rx e ! i) k
      then Done (e\<lparr>en_sys := add_rx (en_sys e), en_rx := en_rx e @ [k]\<rparr>)
      else Done e)"
| "hstep e (MoveRx i k) =
     (if i < length (en_rx e) \<and> rx_moves (en_rx e ! i) k then Done (e\<lparr>en_rx := (en_rx e)[i := k]\<rparr>) else Done e)"
| "hstep e (DropRx i) =
     (if i < length (en_rx e)
      then exec_map (\<lambda>s. e\<lparr>en_sys := s, en_rx := drop_at i (en_rx e)\<rparr>) (rx_handle_drop (en_rx e ! i) (en_sys e))
      else Done e)"
| "hstep e (Use f) = Done (e\<lparr>en_sys := use_channel f (en_sys e)\<rparr>)"

fun hrun :: "'q ends \<Rightarrow> 'q handle_op list \<Rightarrow> 'q ends exec" where
  "hrun e [] = Done e"
| "hrun e (op # ops) = exec_bind (hstep e op) (\<lambda>e'. hrun e' ops)"

section \<open>Invariant\<close>

definition ends_ok :: "('q \<Rightarrow> bool) \<Rightarrow> reg_kind \<Rightarrow> reg_kind \<Rightarrow> 'q ends \<Rightarrow> bool" where
  "ends_ok iv ks kr e \<longleftrightarrow> sh_ok iv ks kr (sy_world (en_sys e), sy_chan (en_sys e), sy_now (en_sys e)) \<and> sy_env (en_sys e) = [] \<and>
     unat (ch_tx_count (sy_chan (en_sys e))) = length (en_tx e) \<and> unat (ch_rx_count (sy_chan (en_sys e))) = length (en_rx e)"

text \<open>What the others may do: keep the channel well formed and leave the counts alone, which only the operations on handles change.\<close>

definition harmless :: "('q \<Rightarrow> bool) \<Rightarrow> reg_kind \<Rightarrow> reg_kind \<Rightarrow> ('q shared_state \<Rightarrow> 'q shared_state) \<Rightarrow> bool" where
  "harmless iv ks kr f \<longleftrightarrow> (\<forall>w c t. sh_ok iv ks kr (w, c, t) \<longrightarrow> sh_ok iv ks kr (f (w, c, t)) \<and>
     ch_tx_count (fst (snd (f (w, c, t)))) = ch_tx_count c \<and> ch_rx_count (fst (snd (f (w, c, t)))) = ch_rx_count c)"

lemma length_drop_at [simp]: "i < length xs \<Longrightarrow> length (drop_at i xs) = length xs - 1"
  by simp

lemma count_add: "unat (c :: usize) = n \<Longrightarrow> n + 1 < 2 ^ 64 \<Longrightarrow> unat (c + 1) = n + 1"
  by (simp add: unat_word_ariths(1))

lemma count_sub: "unat (c :: usize) = n \<Longrightarrow> 0 < n \<Longrightarrow> unat (c - 1) = n - 1 \<and> (c \<le> 1 \<longleftrightarrow> n = 1)"
  by (auto simp: unat_sub word_le_nat_alt)

lemma close_tx_ends:
  assumes "sh_ok iv ks kr (sy_world s, sy_chan s, sy_now s)" "sy_env s = []"
  shows "\<exists>s'. close_tx s = Done s' \<and> sh_ok iv ks kr (sy_world s', sy_chan s', sy_now s') \<and> sy_env s' = [] \<and>
    ch_tx_count (sy_chan s') = ch_tx_count (sy_chan s) - 1 \<and> ch_rx_count (sy_chan s') = ch_rx_count (sy_chan s)"
proof -
  from assms(1) have "world_ok (sy_world s)" "reg_ok (sy_world s) (ch_recvs (sy_chan s))" by (simp_all add: sh_ok_def)
  from reg_close_safe [OF this] obtain w' g' where "reg_close (sy_world s) (ch_recvs (sy_chan s)) = Done (w', g')"
    "keeps_wakers (sy_world s) w'" "reg_ok w' g'" "kind_of g' = kind_of (ch_recvs (sy_chan s))" by blast
  with assms show ?thesis
    by (auto simp: close_tx_def with_recvs_def sched_def sh_ok_def Let_def dest: keeps_ok intro: keeps_reg_ok)
qed

lemma close_rx_ends:
  assumes "sh_ok iv ks kr (sy_world s, sy_chan s, sy_now s)" "sy_env s = []"
  shows "\<exists>s'. close_rx s = Done s' \<and> sh_ok iv ks kr (sy_world s', sy_chan s', sy_now s') \<and> sy_env s' = [] \<and>
    ch_rx_count (sy_chan s') = ch_rx_count (sy_chan s) - 1 \<and> ch_tx_count (sy_chan s') = ch_tx_count (sy_chan s)"
proof -
  from assms(1) have "world_ok (sy_world s)" "reg_ok (sy_world s) (ch_senders (sy_chan s))" by (simp_all add: sh_ok_def)
  from reg_close_safe [OF this] obtain w' g' where "reg_close (sy_world s) (ch_senders (sy_chan s)) = Done (w', g')"
    "keeps_wakers (sy_world s) w'" "reg_ok w' g'" "kind_of g' = kind_of (ch_senders (sy_chan s))" by blast
  with assms show ?thesis
    by (auto simp: close_rx_def with_senders_def sched_def sh_ok_def Let_def dest: keeps_ok intro: keeps_reg_ok)
qed

text \<open>A step returns, keeps the invariant, adds at most one handle of either side, and no sender to a channel that has none.\<close>

definition small_step :: "'q ends \<Rightarrow> 'q ends \<Rightarrow> bool" where
  "small_step e e' \<longleftrightarrow> length (en_tx e') \<le> Suc (length (en_tx e)) \<and> length (en_rx e') \<le> Suc (length (en_rx e)) \<and>
     (en_tx e = [] \<longrightarrow> en_tx e' = []) \<and> (en_rx e = [] \<longrightarrow> en_rx e' = [])"

lemma small_step_refl [simp]: "small_step e e"
  by (simp add: small_step_def)

lemma ends_ok_add_tx:
  assumes "ends_ok iv ks kr e" "Suc (length (en_tx e)) < 2 ^ 64" "en_tx e \<noteq> []"
  shows "ends_ok iv ks kr (e\<lparr>en_sys := add_tx (en_sys e), en_tx := en_tx e @ [k]\<rparr>)"
    "small_step e (e\<lparr>en_sys := add_tx (en_sys e), en_tx := en_tx e @ [k]\<rparr>)"
  using assms by (simp_all add: ends_ok_def add_tx_def sh_ok_def count_add small_step_def)

lemma ends_ok_add_rx:
  assumes "ends_ok iv ks kr e" "Suc (length (en_rx e)) < 2 ^ 64" "en_rx e \<noteq> []"
  shows "ends_ok iv ks kr (e\<lparr>en_sys := add_rx (en_sys e), en_rx := en_rx e @ [k]\<rparr>)"
    "small_step e (e\<lparr>en_sys := add_rx (en_sys e), en_rx := en_rx e @ [k]\<rparr>)"
  using assms by (simp_all add: ends_ok_def add_rx_def sh_ok_def count_add small_step_def)

lemma tx_clone_add: "tx_clone k = Some f \<Longrightarrow> f s = add_tx s"
  by (cases k) (auto simp: mtx_clone_def matx_clone_def close_handle_clone_def)

lemma rx_clone_add: "rx_clone k = Some f \<Longrightarrow> f s = add_rx s"
  by (cases k) (auto simp: mrx_clone_def marx_clone_def)

lemma tx_handle_drop_close [simp]: "tx_handle_drop k s = close_tx s"
  by (cases k) (simp_all add: tx_drop_def atx_drop_def close_handle_drop_def)

lemma rx_handle_drop_close [simp]: "rx_handle_drop k s = close_rx s"
  by (cases k) (simp_all add: rx_drop_def arx_drop_def)

lemma hstep_drop_tx:
  assumes "ends_ok iv ks kr e" "i < length (en_tx e)"
  shows "total (hstep e (DropTx i)) (\<lambda>e'. ends_ok iv ks kr e' \<and> small_step e e')"
proof -
  from assms(1) close_tx_ends [of iv ks kr "en_sys e"] obtain s' where s': "close_tx (en_sys e) = Done s'"
    "sh_ok iv ks kr (sy_world s', sy_chan s', sy_now s')" "sy_env s' = []"
    "ch_tx_count (sy_chan s') = ch_tx_count (sy_chan (en_sys e)) - 1" "ch_rx_count (sy_chan s') = ch_rx_count (sy_chan (en_sys e))"
    by (auto simp: ends_ok_def)
  moreover from assms have "unat (ch_tx_count (sy_chan (en_sys e)) - 1) = length (en_tx e) - 1"
    using count_sub by (metis ends_ok_def gr_implies_not0 gr_zeroI)
  ultimately show ?thesis using assms by (auto simp: ends_ok_def small_step_def)
qed

lemma hstep_drop_rx:
  assumes "ends_ok iv ks kr e" "i < length (en_rx e)"
  shows "total (hstep e (DropRx i)) (\<lambda>e'. ends_ok iv ks kr e' \<and> small_step e e')"
proof -
  from assms(1) close_rx_ends [of iv ks kr "en_sys e"] obtain s' where s': "close_rx (en_sys e) = Done s'"
    "sh_ok iv ks kr (sy_world s', sy_chan s', sy_now s')" "sy_env s' = []"
    "ch_rx_count (sy_chan s') = ch_rx_count (sy_chan (en_sys e)) - 1" "ch_tx_count (sy_chan s') = ch_tx_count (sy_chan (en_sys e))"
    by (auto simp: ends_ok_def)
  moreover from assms have "unat (ch_rx_count (sy_chan (en_sys e)) - 1) = length (en_rx e) - 1"
    using count_sub by (metis ends_ok_def gr_implies_not0 gr_zeroI)
  ultimately show ?thesis using assms by (auto simp: ends_ok_def small_step_def)
qed

lemma ends_ok_up: "ends_ok iv ks kr (e\<lparr>en_up := us\<rparr>) = ends_ok iv ks kr e" "small_step e (e\<lparr>en_up := us\<rparr>)"
  by (simp_all add: ends_ok_def small_step_def)

lemma hstep_upgrade:
  assumes "ends_ok iv ks kr e" "Suc (length (en_tx e)) < 2 ^ 64"
  shows "total (hstep e (UpgradeCas j k)) (\<lambda>e'. ends_ok iv ks kr e' \<and> small_step e e')"
proof (cases "j < length (en_up e) \<and> en_up e ! j \<noteq> 0 \<and> ch_tx_count (sy_chan (en_sys e)) = en_up e ! j")
  case True
  then have "en_tx e \<noteq> []" using assms(1) by (auto simp: ends_ok_def unat_eq_zero)
  note ok = ends_ok_add_tx [OF assms this, of k]
  have "hstep e (UpgradeCas j k) =
      Done (e\<lparr>en_sys := add_tx (en_sys e), en_tx := en_tx e @ [k], en_up := drop_at j (en_up e)\<rparr>)"
    using True by (simp add: cas_def add_tx_def Let_def)
  with ok show ?thesis by (simp add: ends_ok_def small_step_def)
next
  case False
  then show ?thesis using assms(1) by (auto simp: cas_def Let_def ends_ok_up)
qed

text \<open>Undisturbed, the two steps are the upgrade of the source.\<close>

lemma upgrade_in_two_steps:
  assumes "sy_env (en_sys e) = []" "0 < en_weak e"
  shows "hrun e [UpgradeLoad, UpgradeCas (length (en_up e)) k] =
    exec_map (\<lambda>(s, ok). e\<lparr>en_sys := s, en_tx := (if ok then en_tx e @ [k] else en_tx e)\<rparr>) (weak_upgrade 1 (en_sys e))"
  using assms by (auto simp: weak_upgrade_def try_add_tx_def sched_def cas_def Let_def)

lemma hstep_ok:
  assumes "ends_ok iv ks kr e" "Suc (length (en_tx e)) < 2 ^ 64" "Suc (length (en_rx e)) < 2 ^ 64" "\<And>f. op = Use f \<Longrightarrow> harmless iv ks kr f"
  shows "total (hstep e op) (\<lambda>e'. ends_ok iv ks kr e' \<and> small_step e e')"
proof (cases op)
  case (CloneTx i)
  then show ?thesis using assms ends_ok_add_tx [OF assms(1,2)] by (cases "en_tx e = []") (auto simp: tx_clone_add split: option.splits)
next
  case (ConvertTx i k)
  then show ?thesis using assms ends_ok_add_tx [OF assms(1,2)] by (cases "en_tx e = []") auto
next
  case (CloneRx i)
  then show ?thesis using assms ends_ok_add_rx [OF assms(1,3)] by (cases "en_rx e = []") (auto simp: rx_clone_add split: option.splits)
next
  case (ConvertRx i k)
  then show ?thesis using assms ends_ok_add_rx [OF assms(1,3)] by (cases "en_rx e = []") auto
next
  case (DropTx i)
  then show ?thesis using assms hstep_drop_tx [OF assms(1)] by (cases "i < length (en_tx e)") auto
next
  case (DropRx i)
  then show ?thesis using assms hstep_drop_rx [OF assms(1)] by (cases "i < length (en_rx e)") auto
next
  case (UpgradeCas j k)
  then show ?thesis using hstep_upgrade [OF assms(1,2)] by simp
next
  case (Use f)
  with assms(1,4) show ?thesis
    by (auto simp: ends_ok_def harmless_def use_channel_def small_step_def split: prod.splits) (metis fst_conv snd_conv)+
qed (use assms(1) in \<open>auto simp: ends_ok_def small_step_def\<close>)

lemma hrun_ok:
  assumes "ends_ok iv ks kr e" "length (en_tx e) + length ops < 2 ^ 64" "length (en_rx e) + length ops < 2 ^ 64"
    "\<And>f. Use f \<in> set ops \<Longrightarrow> harmless iv ks kr f"
  shows "total (hrun e ops) (\<lambda>e'. ends_ok iv ks kr e' \<and> (en_tx e = [] \<longrightarrow> en_tx e' = []) \<and> (en_rx e = [] \<longrightarrow> en_rx e' = []) \<and>
    length (en_tx e') \<le> length (en_tx e) + length ops \<and> length (en_rx e') \<le> length (en_rx e) + length ops)"
  using assms
proof (induction ops arbitrary: e)
  case (Cons op ops)
  from Cons.prems have "total (hstep e op) (\<lambda>e'. ends_ok iv ks kr e' \<and> small_step e e')"
    by (intro hstep_ok) auto
  then obtain e1 where e1: "hstep e op = Done e1" "ends_ok iv ks kr e1" "small_step e e1" by (auto simp: total_def)
  from Cons.IH [of e1] Cons.prems e1 show ?case
    by (auto simp: small_step_def total_def)
qed simp

lemma hrun_append: "hrun e (xs @ ys) = exec_bind (hrun e xs) (\<lambda>e'. hrun e' ys)"
proof (induction xs arbitrary: e)
  case (Cons op xs)
  then show ?case by (cases "hstep e op") auto
qed simp

lemma ends_new_ok: "built_ok F iv cont ks kr cap b \<Longrightarrow> ends_ok iv ks kr (ends_new b)"
  by (simp add: built_ok_def ends_ok_def ends_new_def)

text \<open>The conversions of the source are a count of the new handle followed by the drop of the old one.\<close>

lemma convert_in_two_steps:
  assumes "sy_env (en_sys e) = []" "i < length (en_tx e)" "tx_converts (en_tx e ! i) k"
  shows "hrun e [ConvertTx i k, DropTx i] =
    exec_map (\<lambda>s. e\<lparr>en_sys := s, en_tx := drop_at i (en_tx e @ [k])\<rparr>)
      ((if k = HTx then tx_from_async else if k = HAsyncTx then atx_from_blocking
        else if k = HMTx then mtx_from_async else matx_from_blocking) (en_sys e))"
  using assms
  by (cases "close_tx (add_tx (en_sys e))")
    (auto simp: tx_from_async_def atx_from_blocking_def mtx_from_async_def matx_from_blocking_def sched_def add_tx_def nth_append)

lemma convert_rx_in_two_steps:
  assumes "sy_env (en_sys e) = []" "i < length (en_rx e)" "rx_converts (en_rx e ! i) k"
  shows "hrun e [ConvertRx i k, DropRx i] =
    exec_map (\<lambda>s. e\<lparr>en_sys := s, en_rx := drop_at i (en_rx e @ [k])\<rparr>)
      ((if k = HRx then rx_from_async else if k = HAsyncRx then arx_from_blocking
        else if k = HMRx then mrx_from_async else marx_from_blocking) (en_sys e))"
  using assms
  by (cases "close_rx (add_rx (en_sys e))")
    (auto simp: rx_from_async_def arx_from_blocking_def mrx_from_async_def marx_from_blocking_def sched_def add_rx_def nth_append)

section \<open>Properties\<close>

text \<open>
  C19. The handles of a channel are counted exactly. Start from any channel a constructor returns, and let the threads clone, convert, downgrade, upgrade and drop
  handles in any order, with anything harmless in between, also between the load and the compare-exchange of an upgrade, and with fewer than 2^63 steps: no step faults, and at every moment \<^verbatim>\<open>get_tx_count\<close> and \<^verbatim>\<open>get_rx_count\<close>
  are the numbers of senders and receivers alive. So a side is closed exactly when it has no handle left, a conversion never closes it for a moment,
  and a channel whose senders are all gone is never opened again, whatever its weak senders try.
\<close>

theorem handles_counted:
  assumes "built_ok F iv cont ks kr cap b" "length ops < 2 ^ 63" "\<And>f. Use f \<in> set ops \<Longrightarrow> harmless iv ks kr f"
  shows "\<exists>e. hrun (ends_new b) ops = Done e \<and>
    unat (get_tx_count (en_sys e)) = length (en_tx e) \<and> unat (get_rx_count (en_sys e)) = length (en_rx e) \<and>
    (is_tx_closed (en_sys e) \<longleftrightarrow> en_tx e = []) \<and> (is_rx_closed (en_sys e) \<longleftrightarrow> en_rx e = []) \<and>
    (\<forall>before after e1. ops = before @ after \<and> hrun (ends_new b) before = Done e1 \<longrightarrow>
      (en_tx e1 = [] \<longrightarrow> en_tx e = []) \<and> (en_rx e1 = [] \<longrightarrow> en_rx e = []))"
proof -
  have l: "length (en_tx (ends_new b)) = 1" "length (en_rx (ends_new b)) = 1" by (simp_all add: ends_new_def)
  from hrun_ok [OF ends_new_ok [OF assms(1)], of ops] assms(2,3) l obtain e where
    e: "hrun (ends_new b) ops = Done e" "ends_ok iv ks kr e" by (auto simp: total_def)
  have "(en_tx e1 = [] \<longrightarrow> en_tx e = []) \<and> (en_rx e1 = [] \<longrightarrow> en_rx e = [])"
    if "ops = before @ after" "hrun (ends_new b) before = Done e1" for before after e1
  proof -
    from hrun_ok [OF ends_new_ok [OF assms(1)], of before] that assms(2,3) l have
      "ends_ok iv ks kr e1" "length (en_tx e1) \<le> 1 + length before" "length (en_rx e1) \<le> 1 + length before" by (auto simp: total_def)
    with hrun_ok [of iv ks kr e1 after] that assms(2,3) have
      "total (hrun e1 after) (\<lambda>e'. (en_tx e1 = [] \<longrightarrow> en_tx e' = []) \<and> (en_rx e1 = [] \<longrightarrow> en_rx e' = []))" by (auto simp: total_def)
    with e(1) that show ?thesis by (auto simp: hrun_append total_def)
  qed
  with e show ?thesis
    by (auto simp: ends_ok_def get_tx_count_def get_rx_count_def is_tx_closed_def is_rx_closed_def unat_eq_zero)
qed

lemma hrun_sender_kinds:
  assumes "ends_ok iv ks kr e" "en_tx e = [HMTx]"
  shows "\<exists>s. hrun e [CloneTx 0, ConvertTx 0 HMAsyncTx, DropTx 0, Downgrade 0] =
    Done (e\<lparr>en_sys := s, en_tx := [HMTx, HMAsyncTx], en_weak := en_weak e + 1\<rparr>)"
proof -
  have "sh_ok iv ks kr (sy_world (en_sys e), sy_chan (en_sys e), sy_now (en_sys e))" "sy_env (en_sys e) = []" using assms(1) by (simp_all add: ends_ok_def)
  with close_tx_ends [of iv ks kr "add_tx (add_tx (en_sys e))"] obtain s where "close_tx (add_tx (add_tx (en_sys e))) = Done s"
    by (auto simp: add_tx_def sh_ok_def)
  with assms(2) show ?thesis by (intro exI [of _ s]) (simp add: mtx_clone_def)
qed

theorem handles_counted_witness:
  "\<exists>e. hrun (ends_new (mpsc_unbounded_blocking [] backoff_globals_init 0 :: nat seg_queue wrapped built))
      [CloneTx 0, ConvertTx 0 HMAsyncTx, DropTx 0, Downgrade 0] = Done e \<and>
    unat (get_tx_count (en_sys e)) = 2 \<and> en_tx e = [HMTx, HMAsyncTx]"
proof -
  let ?b = "mpsc_unbounded_blocking [] backoff_globals_init 0 :: nat seg_queue wrapped built"
  let ?ops = "[CloneTx 0, ConvertTx 0 HMAsyncTx, DropTx 0, Downgrade 0] :: nat seg_queue wrapped handle_op list"
  have "sg_inv (fw_inner (from_inner (sg_new 0 :: nat seg_queue)))" "sg_content (fw_inner (from_inner (sg_new 0 :: nat seg_queue))) = []"
      "fl_capacity (flavor_wrap (list_flavor [])) (from_inner (sg_new 0 :: nat seg_queue)) = None"
    using memory_inv [OF memory_new(1) [of 0]] memory_new(2) [of 0] by (simp_all add: from_inner_def flavor_wrap_def list_flavor_def)
  then have b: "built_ok (flavor_wrap (list_flavor [])) (\<lambda>w. sg_inv (fw_inner w)) (\<lambda>w. sg_content (fw_inner w)) KDummy KSingle None ?b"
    unfolding mpsc_unbounded_blocking_def mpsc_unbounded_new_def mpsc_build_def
    by (intro channel_new_ok config_detect_spin(1) fresh_registries) simp_all
  have "en_tx (ends_new ?b) = [HMTx]" "en_rx (ends_new ?b) = [HRx]"
    by (simp_all add: ends_new_def mpsc_unbounded_blocking_def mpsc_unbounded_new_def mpsc_build_def)
  with hrun_sender_kinds [OF ends_new_ok [OF b]] obtain s where
    s: "hrun (ends_new ?b) ?ops = Done ((ends_new ?b)\<lparr>en_sys := s, en_tx := [HMTx, HMAsyncTx], en_weak := en_weak (ends_new ?b) + 1\<rparr>)" by auto
  from handles_counted [OF b, of ?ops] obtain e where "hrun (ends_new ?b) ?ops = Done e" "unat (get_tx_count (en_sys e)) = length (en_tx e)"
    by (auto simp del: hrun.simps)
  with s show ?thesis by (intro exI [of _ e]) (simp del: hrun.simps)
qed

end
