(* ===== verification/Spec2Isabelle.thy ===== *)
theory Spec2Isabelle
  imports Array_Queue Array_Queue_Spsc Array_Queue_Mpsc One_Queue One_Single Errors Backoff Waker Registry
    Flavor Channel Blocking Registry_Safety Channel_Safety Exactly_Once Channel_Timeout Channel_Behaviour
    Async Async_Safety Async_Once Async_Returns Async_Behaviour Oneshot Oneshot_Proofs
    Seg_Queue Seg_Refine Seg_Destroy List_Flavor Unbounded
    Wait_Group Wait_Word Wait_Safety Wait_Wake Wait_Variants
    Many_Channels Many_Safety Multiplex Multiplex_Proofs Multiplex_Fair Select Select_Proofs Select_Safety
    Dispatch Builders Null_Channel Compat_Channel Traits Handles
begin

text \<open>
  A verification library for crossfire, the lock-free channels under \<^verbatim>\<open>src/src/\<close>, with the backoff of \<^verbatim>\<open>src/utils/\<close>.

  \<^bold>\<open>The program.\<close> A channel is a queue (its flavor), two counts of handles and one registry of wakers per side,
  shared by all senders and receivers (\<^verbatim>\<open>ChannelShared\<close> in \<^verbatim>\<open>shared.rs\<close>). A handle tries the queue, spins with a
  bounded backoff, registers a waker with the registry of its side, tries once more and sleeps; whoever changes
  the queue fires the registry of the other side; the last handle of a side closes the registry of the other.
  Blocking handles park a thread, asynchronous ones return \<^verbatim>\<open>Pending\<close> to their task. \<^verbatim>\<open>Select\<close> waits on
  several receivers, \<^verbatim>\<open>Multiplex\<close> owns several channels and takes turns among them. The one-shot channel and the
  wait groups are separate: one heap cell with one atomic word each.

  \<^bold>\<open>Theories and sources\<close>, bottom up (all source names under \<^verbatim>\<open>src/src/\<close> unless said otherwise).

  \<^item> \<open>Prelude\<close>: machine words, the outcome \<open>exec\<close> of a call (\<open>Done\<close>, \<open>Fault\<close>, \<open>Spin\<close>), atomic accesses, \<open>safe\<close> and \<open>total\<close>.
    \<open>Ring_Index\<close>: stamps of lap and index, and their wrap-around. \<open>Errors\<close>: \<^verbatim>\<open>crossbeam/err.rs\<close>. \<open>Backoff\<close>: \<^verbatim>\<open>src/utils/src/backoff.rs\<close>.
  \<^item> \<open>Fifo_Spec\<close>: the abstract queue, a list with an optional capacity, and the locales \<open>fifo\<close>, \<open>fifo_obs\<close> and \<open>fifo_weak\<close>, with
    the refinement of whole runs proved once. They are interpreted by \<open>Array_Queue\<close>, \<open>Array_Queue_Spsc\<close>, \<open>Array_Queue_Mpsc\<close>
    (\<^verbatim>\<open>crossbeam/array_queue*.rs\<close>), \<open>One_Queue\<close>, \<open>One_Single\<close> (\<^verbatim>\<open>flavor/one*.rs\<close>) and \<open>List_Flavor\<close>. \<open>Array_Queue_Spsc\<close> also runs producer and
    consumer access by access under every schedule.
  \<^item> \<open>Seg_Queue\<close>, \<open>Seg_Refine\<close>, \<open>Seg_Destroy\<close>, \<open>List_Flavor\<close>, \<open>Unbounded\<close>: \<^verbatim>\<open>crossbeam/seg_queue.rs\<close> and \<^verbatim>\<open>flavor/list.rs\<close>, blocks on an
    explicit heap; the release of a block by its 31 readers under every interleaving.
  \<^item> \<open>Waker\<close>: \<^verbatim>\<open>waker.rs\<close> and \<^verbatim>\<open>collections.rs\<close>; a world holds the wakers as heap objects with an owner and the weak references.
    \<open>Registry\<close>, \<open>Registry_Safety\<close>: \<^verbatim>\<open>waker_registry.rs\<close>, all four registries and the select waker.
  \<^item> \<open>Flavor\<close>: the traits of \<^verbatim>\<open>flavor/mod.rs\<close> as a record of operations, with the locale \<open>lawful_flavor\<close> for what the channels rely on
    and one interpretation for each flavor; \<open>Dispatch\<close>: \<^verbatim>\<open>FlavorWrap\<close>, the \<^verbatim>\<open>Array\<close> enums and \<^verbatim>\<open>CompatFlavor\<close> as functions from flavors to flavors. Two exported
    flavors are not lawful, and the theorems on channels do not cover them: a list of \<^verbatim>\<open>CompatFlavor\<close> says it is bounded and has no capacity, and the null flavor
    forgets what it accepts. \<open>Compat_Channel\<close> and \<open>Null_Channel\<close> show what holds of them.
  \<^item> \<open>Channel\<close>: \<^verbatim>\<open>shared.rs\<close>. \<open>Blocking\<close>: \<^verbatim>\<open>blocking_tx.rs\<close>, \<^verbatim>\<open>blocking_rx.rs\<close>, \<^verbatim>\<open>weak.rs\<close>. \<open>Async\<close>: \<^verbatim>\<open>async_tx.rs\<close>, \<^verbatim>\<open>async_rx.rs\<close>, \<^verbatim>\<open>sink.rs\<close>,
    \<^verbatim>\<open>stream.rs\<close>. \<open>Builders\<close>: the constructors of \<^verbatim>\<open>spsc.rs\<close>, \<^verbatim>\<open>mpsc.rs\<close>, \<^verbatim>\<open>mpmc.rs\<close>, \<^verbatim>\<open>compat.rs\<close>. \<open>Null_Channel\<close>: \<^verbatim>\<open>null.rs\<close>. \<open>Compat_Channel\<close>: the unbounded channels of \<^verbatim>\<open>compat.rs\<close>. \<open>Traits\<close>: the traits
    for generic code and their implementations. \<open>Handles\<close>: clones, conversions and drops.
  \<^item> \<open>Channel_Safety\<close>, \<open>Exactly_Once\<close>, \<open>Channel_Timeout\<close>, \<open>Channel_Behaviour\<close> for blocking, \<open>Async_Safety\<close>, \<open>Async_Once\<close>, \<open>Async_Returns\<close>,
    \<open>Async_Behaviour\<close> for asynchronous operations (locales \<open>pollable\<close> and \<open>logged_future\<close>, interpreted by the four futures).
  \<^item> \<open>Many_Channels\<close>, \<open>Many_Safety\<close>: several channels in one world. \<open>Multiplex\<close>, \<open>Multiplex_Proofs\<close>, \<open>Multiplex_Fair\<close>: \<^verbatim>\<open>select/multiplex.rs\<close>.
    \<open>Select\<close>, \<open>Select_Proofs\<close>, \<open>Select_Safety\<close>: \<^verbatim>\<open>select/select.rs\<close> and \<^verbatim>\<open>select/mod.rs\<close>.
  \<^item> \<open>Oneshot\<close>, \<open>Oneshot_Proofs\<close>: \<^verbatim>\<open>oneshot.rs\<close>. \<open>Wait_Group\<close>, \<open>Wait_Word\<close>, \<open>Wait_Safety\<close>, \<open>Wait_Wake\<close>, \<open>Wait_Variants\<close>: \<^verbatim>\<open>waitgroup.rs\<close>.

  \<^bold>\<open>How concurrency is modelled.\<close> All atomics are sequentially consistent; the memory orderings of the source are
  not. There are two granularities.

  \<^item> The one-shot channel, the wait groups, the ring buffer for one producer and one consumer and the release of a block of the unbounded
    queue are cut at each access to shared memory, and a schedule (a list of turns) interleaves the parties in every way. Here the
    theorems speak about data races, use after free and double free too.
  \<^item> Channel operations run among others whose turns are a script of arbitrary state changes, consumed wherever the code may be
    interrupted between two calls into a component; a call of a queue, a registry or a waker is one step. The others are only asked to keep
    the shared state well formed and this thread's waker alive (\<open>polite\<close>). For the calls of \<^verbatim>\<open>RegistryMulti\<close> that hold its lock from beginning to end
    (registering, clearing, closing) this is exact. It is an abstraction for \<^verbatim>\<open>fire\<close>, which pops a waker under the lock, wakes it without and takes the
    lock again for the next one; for \<^verbatim>\<open>wake\<close> of a single waker, whose load and store are two accesses (\<open>Waker\<close> shows the race with \<^verbatim>\<open>abandon\<close> that
    they allow); and for the lock-free queues other than the one above when they overlap. With several channels a whole call into one channel is a step.
  \<^item> Operations on handles are steps of one run in any order; a conversion is two of them, and an upgrade of a weak sender is cut at its accesses to the count.

  Spurious failures of a weak compare-exchange are a script of booleans, time is a clock the others advance, and a thread that parks
  may wake for no reason.

  \<^bold>\<open>Fuel and bounds.\<close> A loop that waits for others takes fuel and answers \<open>Spin\<close> without; a loop that cannot end up waiting is a total function or
  is proved to return for all large enough fuel: \<open>Async_Returns\<close> and \<open>Channel_Timeout\<close> give the bound in terms of the turns of
  the others, the runs of the queues return always. Safety theorems hold for every fuel. Bounds of arrays are below 2^31, or 2^32 for \<^verbatim>\<open>mpmc\<close>, and larger ones panic;
  counts of handles and guards below 2^62 or 2^63, since each is a step of the run; the unbounded queue has memory for at most
  \<open>sg_limit\<close> blocks, for which its wrapping 64-bit indices cannot meet. The spin limit of a channel's backoff is at most 31, a hypothesis that the detected configuration (6 or 0) satisfies;
  \<open>Backoff\<close> shows what any other configuration does. Deadlines are representable where a hypothesis says so; \<open>Oneshot\<close> and \<open>Wait_Group\<close> take them to be.

  \<^bold>\<open>What is shown.\<close> Every queue refines a list, wrap-around included. Sends and receives, blocking and asynchronous, never fault, deliver exactly
  once (sends: over bounded flavors), and report a disconnection only when the queue was found empty. Polls and timed sends return. The counts of handles are exact. The
  one-shot channel and the wait groups are free of races and of memory errors, and lose neither values nor wake-ups. A multiplexed receiver
  takes what its turns say and starves no channel; a select returns a token whose message is the oldest of its channel, and leaves no
  registration behind. Constructors establish the premises of the theorems on channels.

  \<^bold>\<open>What modelling found.\<close> \<open>multi_fire_misses_waiting\<close>: a registry may stop one waker early. A blocking receive on a one-shot channel after a
  pending poll loses the value (\<open>Oneshot_Proofs\<close>). \<open>wake_overwrites_abandon\<close>: a wake can be lost to a waiter that has given up. A \<^verbatim>\<open>select_timeout\<close> whose deadline the
  clock cannot represent panics (\<open>Select_Safety\<close>), where the other timed operations on channels have an answer for it. A wait group can be freed under a guard by \<^verbatim>\<open>try_into_inner\<close> (\<open>Wait_Safety\<close>). \<open>sink_ignores_closed_receivers\<close>: a sink sends to nobody.
  \<open>multiplex_recv_without_channels\<close>, \<open>multiplex_wakes_first_thread\<close>, \<open>multiplex_len_is_zero\<close>, \<open>wrapper_hides_backoff_limit\<close>: behaviour of
  multiplexed receivers and wrapped flavors their documentation excludes. The theorems that would contradict these name the excluded case as a hypothesis.

  \<^bold>\<open>Not modelled.\<close> Memory orderings weaker than sequential consistency; the padding of \<^verbatim>\<open>src/utils/src/cache_padded.rs\<close>, which has no behaviour;
  printing, markers and dereferencing; code in comments (\<^verbatim>\<open>WakerCache\<close>, \<^verbatim>\<open>OneSpmc\<close>); logging macros; the timers of the asynchronous runtimes, which are
  arguments of the futures; deallocation of the channel with its last handle beyond the drop of its queue; a select token that is claimed and
  never read, which the invariants of channels do not describe; tests and benchmarks.
\<close>

end
